(* ===== verification/GoPrelude.thy ===== *)
theory GoPrelude
  imports Main "HOL-Library.Multiset" "HOL-Library.Monad_Syntax"
begin

text \<open>
  Shared vocabulary of the development: the fact collections, the result type of fallible Go
  functions, the closure of a step relation with its invariant rule, the contract of a keyed
  store, the cutting of a slice into batches, and generic facts on lists and maps that the
  component theories use.
\<close>

section \<open>Fact collections\<close>

named_theorems go_defs \<open>definitions unfolded when a model is evaluated\<close>
named_theorems go_intros \<open>introduction rules of the step relations\<close>
named_theorems inv_simps \<open>definitions of the invariants\<close>

section \<open>Results\<close>

text \<open>A Go function returning \<open>(T, error)\<close> yields \<open>Inl\<close> of the error or \<open>Inr\<close> of the value.\<close>

type_synonym ('e, 'a) result = "'e + 'a"

definition is_ok :: "('e, 'a) result \<Rightarrow> bool" where
  "is_ok r = (case r of Inl _ \<Rightarrow> False | Inr _ \<Rightarrow> True)"

lemma is_ok_simps [simp]: "is_ok (Inr x)" "\<not> is_ok (Inl e)"
  by (simp_all add: is_ok_def)

lemma is_okE: "is_ok r \<Longrightarrow> (\<And>x. r = Inr x \<Longrightarrow> P) \<Longrightarrow> P"
  by (cases r) (auto simp: is_ok_def)

text \<open>\<open>for _, x := range xs { if err := f(x); err != nil { return err } }\<close>, with the state threaded.\<close>

fun for_range :: "('s \<Rightarrow> 'x \<Rightarrow> 's \<times> 'e option) \<Rightarrow> 's \<Rightarrow> 'x list \<Rightarrow> 's \<times> 'e option" where
  "for_range f s [] = (s, None)"
| "for_range f s (x # xs) =
     (case f s x of (s', None) \<Rightarrow> for_range f s' xs | (s', Some e) \<Rightarrow> (s', Some e))"

lemma for_range_append:
  "for_range f s (xs @ ys) =
     (case for_range f s xs of (s', None) \<Rightarrow> for_range f s' ys | (s', Some e) \<Rightarrow> (s', Some e))"
  by (induction xs arbitrary: s) (auto split: prod.splits option.splits)

lemma for_range_invariant:
  assumes "P s" and "\<And>s x s' r. P s \<Longrightarrow> x \<in> set xs \<Longrightarrow> f s x = (s', r) \<Longrightarrow> P s'"
  shows "P (fst (for_range f s xs))"
  using assms
proof (induction xs arbitrary: s)
  case Nil
  then show ?case by simp
next
  case (Cons x xs)
  obtain s' r where fs: "f s x = (s', r)" by (cases "f s x")
  have P: "P s'" by (rule Cons.prems(2) [OF Cons.prems(1) _ fs]) simp
  have "P (fst (for_range f s' xs))"
    by (rule Cons.IH [OF P]) (rule Cons.prems(2), simp_all)
  with fs P show ?case by (cases r) simp_all
qed

section \<open>Step relations and their invariants\<close>

text \<open>
  Interleavings of goroutines are step relations; the states a program can be in are those in
  the reflexive transitive closure of the steps from an initial state. Each component that is
  such a machine interprets \<open>step_invariant\<close> on its own relation, and its safety properties
  come from \<open>inv_reachable\<close>.
\<close>

locale step_invariant =
  fixes init :: "'s \<Rightarrow> bool" and step :: "'s \<Rightarrow> 's \<Rightarrow> bool" and inv :: "'s \<Rightarrow> bool"
  assumes inv_init: "init s \<Longrightarrow> inv s"
    and inv_step: "inv s \<Longrightarrow> step s t \<Longrightarrow> inv t"
begin

lemma inv_steps: "step\<^sup>*\<^sup>* s t \<Longrightarrow> inv s \<Longrightarrow> inv t"
  by (induction rule: rtranclp_induct) (auto intro: inv_step)

lemma inv_reachable: "init s \<Longrightarrow> step\<^sup>*\<^sup>* s t \<Longrightarrow> inv t"
  by (blast intro: inv_init inv_steps)

end

text \<open>
  Machines that come to an end: until it is final some step leaves less to do. Where every step does,
  no run is longer than what there is to do at its start.
\<close>

locale progress_run = step_invariant +
  fixes left :: "'s \<Rightarrow> nat" and final :: "'s \<Rightarrow> bool"
  assumes progress: "inv s \<Longrightarrow> \<not> final s \<Longrightarrow> \<exists>t. step s t \<and> left t < left s"
begin

lemma ends: "inv s \<Longrightarrow> \<exists>t. step\<^sup>*\<^sup>* s t \<and> final t"
proof (induction "left s" arbitrary: s rule: less_induct)
  case less
  show ?case
  proof (cases "final s")
    case False
    then obtain t where t: "step s t" "left t < left s" using progress [OF less.prems] by blast
    then show ?thesis using less.hyps [OF t(2) inv_step [OF less.prems t(1)]] by (meson converse_rtranclp_into_rtranclp)
  qed blast
qed

lemma ends_from_start: "init s \<Longrightarrow> step\<^sup>*\<^sup>* s t \<Longrightarrow> \<exists>u. step\<^sup>*\<^sup>* t u \<and> final u"
  by (blast intro: ends inv_reachable)

end

locale ending_run = progress_run +
  assumes left_less: "inv s \<Longrightarrow> step s t \<Longrightarrow> left t < left s"
begin

lemma run_length: "inv s \<Longrightarrow> (step ^^ n) s t \<Longrightarrow> n + left t \<le> left s"
proof (induction n arbitrary: t)
  case (Suc n)
  then obtain u where u: "(step ^^ n) s u" "step u t" by auto
  have "inv u" using Suc.prems(1) inv_steps u(1) by (meson relpowp_imp_rtranclp)
  then show ?case using Suc.IH [OF Suc.prems(1) u(1)] left_less [OF _ u(2)] by fastforce
qed simp

end

text \<open>A run given as a list of labels, for machines driven by a list of events.\<close>

lemma foldl_invariant:
  assumes "P s" and "\<And>s e. P s \<Longrightarrow> e \<in> set es \<Longrightarrow> P (f s e)"
  shows "P (foldl f s es)"
  using assms by (induction es arbitrary: s) auto

section \<open>Keyed stores\<close>

text \<open>
  The contract several components of the repository share: after a write the written key reads
  back the new value, every other key what it read before, and writes keep the representation
  invariant. The client lemmas say what a sequence of writes leaves behind.
\<close>

locale keyed_store =
  fixes get :: "'s \<Rightarrow> 'k \<Rightarrow> 'v option" and put :: "'k \<Rightarrow> 'v \<Rightarrow> 's \<Rightarrow> 's" and inv :: "'s \<Rightarrow> bool"
  assumes get_put: "inv s \<Longrightarrow> get (put k v s) = (get s)(k \<mapsto> v)"
    and inv_put: "inv s \<Longrightarrow> inv (put k v s)"
begin

lemma inv_puts: "inv s \<Longrightarrow> inv (fold (\<lambda>(k, v). put k v) kvs s)"
  by (induction kvs arbitrary: s) (auto intro: inv_put)

lemma get_puts: "inv s \<Longrightarrow> get (fold (\<lambda>(k, v). put k v) kvs s) = get s ++ map_of (rev kvs)"
proof (induction kvs arbitrary: s)
  case Nil
  then show ?case by simp
next
  case (Cons kv kvs)
  obtain k v where kv: "kv = (k, v)" by (cases kv)
  have "get (fold (\<lambda>(k, v). put k v) kvs (put k v s)) = get (put k v s) ++ map_of (rev kvs)"
    using Cons.prems by (intro Cons.IH inv_put)
  also have "\<dots> = get s ++ map_of (rev (kv # kvs))"
    using Cons.prems by (simp add: kv get_put)
  finally show ?case by (simp add: kv)
qed

lemma last_write_wins: "inv s \<Longrightarrow> get (put k v (fold (\<lambda>(k, v). put k v) kvs s)) k = Some v"
  by (simp add: get_put inv_puts)

end

section \<open>Cutting a slice into batches\<close>

text \<open>
  \<open>for i := 0; i < len(xs); i += n { end := i + n; if end > len(xs) { end = len(xs) }; use(xs[i:end]) }\<close>
  for a positive \<open>n\<close>. The counter is kept, so the definition reads like the loop.
\<close>

function batches_from :: "nat \<Rightarrow> nat \<Rightarrow> 'a list \<Rightarrow> 'a list list" where
  "batches_from n i xs =
     (if 0 < n \<and> i < length xs
      then (let e = (if i + n > length xs then length xs else i + n)
            in take (e - i) (drop i xs) # batches_from n (i + n) xs)
      else [])"
  by pat_completeness auto
termination
  by (relation "measure (\<lambda>(n, i, xs). length xs - i)") auto

declare batches_from.simps [simp del]

lemma batches_from_step:
  "0 < n \<Longrightarrow> i < length xs \<Longrightarrow>
     batches_from n i xs = take n (drop i xs) # batches_from n (i + n) xs"
  by (subst batches_from.simps) (auto simp: Let_def)

lemma batches_from_stop: "length xs \<le> i \<Longrightarrow> batches_from n i xs = []"
  by (subst batches_from.simps) simp

lemma concat_batches_from: "0 < n \<Longrightarrow> concat (batches_from n i xs) = drop i xs"
proof (induction n i xs rule: batches_from.induct)
  case (1 n i xs)
  show ?case
  proof (cases "i < length xs")
    case True
    with 1 have "concat (batches_from n (i + n) xs) = drop (i + n) xs" by simp
    moreover have "drop i xs = take n (drop i xs) @ drop (i + n) xs"
      by (metis append_take_drop_id add.commute drop_drop)
    ultimately show ?thesis
      using True 1(2) by (simp add: batches_from_step)
  next
    case False
    then show ?thesis by (simp add: batches_from_stop)
  qed
qed

lemma batches_from_sizes:
  "0 < n \<Longrightarrow> b \<in> set (batches_from n i xs) \<Longrightarrow> b \<noteq> [] \<and> length b \<le> n"
proof (induction n i xs rule: batches_from.induct)
  case (1 n i xs)
  show ?case
  proof (cases "i < length xs")
    case True
    with 1 show ?thesis by (auto simp: batches_from_step)
  next
    case False
    with 1 show ?thesis by (simp add: batches_from_stop)
  qed
qed

lemma batches_from_full:
  "0 < n \<Longrightarrow> b \<in> set (butlast (batches_from n i xs)) \<Longrightarrow> length b = n"
proof (induction n i xs rule: batches_from.induct)
  case (1 n i xs)
  show ?case
  proof (cases "i < length xs")
    case True
    show ?thesis
    proof (cases "i + n < length xs")
      case more: True
      with 1 True show ?thesis by (auto simp: batches_from_step split: if_splits)
    next
      case False
      with 1 True show ?thesis by (simp add: batches_from_step batches_from_stop)
    qed
  next
    case False
    with 1 show ?thesis by (simp add: batches_from_stop)
  qed
qed

lemma length_batches_from:
  "0 < n \<Longrightarrow> length (batches_from n i xs) = (length xs - i + n - 1) div n"
proof (induction n i xs rule: batches_from.induct)
  case (1 n i xs)
  show ?case
  proof (cases "i < length xs")
    case True
    with 1 have "length (batches_from n i xs) = Suc ((length xs - (i + n) + n - 1) div n)"
      by (simp add: batches_from_step)
    also have "\<dots> = (length xs - i + n - 1) div n"
    proof (cases "i + n \<le> length xs")
      case le: True
      then have "length xs - i + n - 1 = (length xs - (i + n) + n - 1) + n"
        using 1(2) by simp
      then show ?thesis using 1(2) by (simp only: div_add_self2)
    next
      case False
      have "length xs - i + n - 1 = (length xs - i - 1) + n" using True by simp
      then have "(length xs - i + n - 1) div n = Suc ((length xs - i - 1) div n)"
        using 1(2) by (simp only: div_add_self2)
      then show ?thesis using False True 1(2) by simp
    qed
    finally show ?thesis .
  next
    case False
    with 1(2) show ?thesis by (simp add: batches_from_stop)
  qed
qed

section \<open>Lists and maps\<close>

text \<open>\<open>sort.Slice\<close> over distinct keys has one result only; \<open>sorted_list_of_set\<close> and \<open>sort\<close> compute it.\<close>

lemma sorted_distinct_unique:
  fixes xs ys :: "'a::linorder list"
  assumes "sorted xs" "distinct xs" "sorted ys" "distinct ys" "set xs = set ys"
  shows "xs = ys"
  using assms by (rule sorted_distinct_set_unique)

lemma map_of_filter_fst_neq:
  "map_of (filter (\<lambda>(k', _). k' \<noteq> k) xs) = (map_of xs)(k := None)"
  by (induction xs) auto

lemma map_upd_self: "m k = Some v \<Longrightarrow> m(k \<mapsto> v) = m"
  by (auto simp: fun_eq_iff)

lemma find_head_filter: "find P xs = (case filter P xs of [] \<Rightarrow> None | x # _ \<Rightarrow> Some x)"
  by (induction xs) auto

end
