(* ===== verification/GoText.thy ===== *)
theory GoText
  imports GoPrelude "HOL-Library.Char_ord" "HOL-Library.List_Lexorder"
begin

text \<open>
  The parts of Go's \<open>strings\<close>, \<open>bufio\<close>, \<open>strconv\<close> and \<open>fmt\<close> packages the sources rely on.
  A text is a list of characters, each standing for the code point of that number (U+0000 to
  U+00FF); \<open>go_len\<close> is its length in UTF-8 bytes, which is what Go's buffers count.
\<close>

section \<open>Characters and lengths\<close>

abbreviation (input) nl :: char where "nl \<equiv> CHR 0x0A"
abbreviation (input) cr :: char where "cr \<equiv> CHR 0x0D"
abbreviation (input) tab :: char where "tab \<equiv> CHR 0x09"

text \<open>\<open>unicode.IsSpace\<close> and the \<open>isSpace\<close> of package \<open>fmt\<close>, on this range of code points.\<close>

definition is_space :: "char \<Rightarrow> bool" where
  "is_space c = (c \<in> {CHR 0x09, CHR 0x0A, CHR 0x0B, CHR 0x0C, CHR 0x0D, CHR 0x20, CHR 0x85, CHR 0xA0})"

definition utf8_len :: "char \<Rightarrow> nat" where
  "utf8_len c = (if of_char c < (128 :: nat) then 1 else 2)"

definition go_len :: "string \<Rightarrow> nat" where
  "go_len s = sum_list (map utf8_len s)"

lemma is_space_simps [simp]:
  "is_space (CHR 0x09)" "is_space (CHR 0x0A)" "is_space (CHR 0x0D)" "is_space (CHR 0x20)"
  by (simp_all add: is_space_def)

lemma go_len_simps [simp]: "go_len [] = 0" "go_len (c # s) = utf8_len c + go_len s"
  by (simp_all add: go_len_def)

lemma go_len_append [simp]: "go_len (s @ t) = go_len s + go_len t"
  by (simp add: go_len_def)

lemma length_le_go_len: "length s \<le> go_len s"
  by (induction s) (auto simp: utf8_len_def)

lemma utf8_len_tab [simp]: "utf8_len (CHR 0x09) = 1"
  by (simp add: utf8_len_def)

section \<open>strings.TrimSpace, strings.Split, strings.Join\<close>

definition trim_space :: "string \<Rightarrow> string" where
  "trim_space s = rev (dropWhile is_space (rev (dropWhile is_space s)))"

fun split_on :: "char \<Rightarrow> string \<Rightarrow> string list" where
  "split_on sep [] = [[]]"
| "split_on sep (c # s) =
     (if c = sep then [] # split_on sep s
      else (case split_on sep s of [] \<Rightarrow> [[c]] | p # ps \<Rightarrow> (c # p) # ps))"

fun join_with :: "string \<Rightarrow> string list \<Rightarrow> string" where
  "join_with sep [] = []"
| "join_with sep [p] = p"
| "join_with sep (p # ps) = p @ sep @ join_with sep ps"

lemma split_on_not_Nil [simp]: "split_on sep s \<noteq> []"
  by (induction s) (auto split: list.splits)

lemma join_with_Cons: "ps \<noteq> [] \<Longrightarrow> join_with sep (p # ps) = p @ sep @ join_with sep ps"
  by (cases ps) simp_all

lemma join_split_on: "join_with [sep] (split_on sep s) = s"
proof (induction s)
  case Nil
  then show ?case by simp
next
  case (Cons c s)
  then show ?case
    by (cases "split_on sep s"; cases "tl (split_on sep s)") auto
qed

lemma split_on_no_sep: "p \<in> set (split_on sep s) \<Longrightarrow> sep \<notin> set p"
  by (induction s arbitrary: p) (auto split: list.splits if_splits)

lemma split_on_append: "sep \<notin> set p \<Longrightarrow> split_on sep (p @ sep # s) = p # split_on sep s"
  by (induction p) auto

lemma split_on_single: "sep \<notin> set p \<Longrightarrow> split_on sep p = [p]"
  by (induction p) auto

lemma split_join: "ps \<noteq> [] \<Longrightarrow> (\<And>p. p \<in> set ps \<Longrightarrow> sep \<notin> set p) \<Longrightarrow>
    split_on sep (join_with [sep] ps) = ps"
proof (induction ps)
  case Nil
  then show ?case by simp
next
  case (Cons p ps)
  then show ?case
    by (cases ps) (auto simp: split_on_append split_on_single)
qed

lemma set_trim_space: "set (trim_space s) \<subseteq> set s"
  by (metis set_dropWhileD set_rev subsetI trim_space_def)

lemma trim_space_ends:
  assumes "trim_space s \<noteq> []"
  shows "\<not> is_space (hd (trim_space s))" "\<not> is_space (last (trim_space s))"
proof -
  let ?l = "dropWhile is_space s"
  let ?r = "dropWhile is_space (rev ?l)"
  have ne: "?r \<noteq> []" using assms unfolding trim_space_def by (simp only: rev_is_Nil_conv not_False_eq_True)
  show "\<not> is_space (last (trim_space s))"
    using hd_dropWhile [OF ne] unfolding trim_space_def last_rev .
  have "?l \<noteq> []" using ne by (cases "?l") simp_all
  then have hdl: "\<not> is_space (hd ?l)" by (rule hd_dropWhile)
  obtain zs where zs: "rev ?l = zs @ ?r"
    by (metis takeWhile_dropWhile_id)
  have "?l = rev ?r @ rev zs"
    by (metis zs rev_append rev_rev_ident)
  moreover have "rev ?r \<noteq> []" using ne by (simp only: rev_is_Nil_conv not_False_eq_True)
  ultimately have "hd ?l = hd (rev ?r)" by (metis hd_append2)
  then show "\<not> is_space (hd (trim_space s))" using hdl by (simp add: trim_space_def)
qed

lemma trim_space_id:
  "s = [] \<or> (\<not> is_space (hd s) \<and> \<not> is_space (last s)) \<Longrightarrow> trim_space s = s"
  by (cases s) (auto simp: trim_space_def dropWhile_eq_self_iff hd_rev hd_append split: if_splits)

lemma trim_space_idem [simp]: "trim_space (trim_space s) = trim_space s"
  by (rule trim_space_id) (use trim_space_ends [of s] in blast)

section \<open>bufio.Scanner with the default line splitting\<close>

text \<open>
  \<open>scan_lines m s\<close> is the list of lines \<open>Scan\<close> delivers from a reader holding \<open>s\<close> with the token
  limit \<open>m\<close> (64 KiB by default), and whether it stopped with \<open>ErrTooLong\<close>: a line whose content
  does not leave room for its newline in the buffer ends the scan. A trailing carriage return is
  dropped from each line, and a last line without a newline is delivered unless it is empty.
\<close>

definition drop_cr :: "string \<Rightarrow> string" where
  "drop_cr l = (if l \<noteq> [] \<and> last l = cr then butlast l else l)"

function scan_lines :: "nat \<Rightarrow> string \<Rightarrow> string list \<times> bool" where
  "scan_lines m s =
     (if s = [] then ([], False)
      else (let l = takeWhile (\<lambda>c. c \<noteq> nl) s; r = drop 1 (dropWhile (\<lambda>c. c \<noteq> nl) s)
            in if m \<le> go_len l then ([], True)
               else (case scan_lines m r of (ls, e) \<Rightarrow> (drop_cr l # ls, e))))"
  by pat_completeness auto
termination
proof (relation "measure (length \<circ> snd)", goal_cases)
  case 1
  show ?case by simp
next
  case (2 m s l r)
  then show ?case
    using length_dropWhile_le [of "\<lambda>c. c \<noteq> nl" s]
    by (cases s) (auto simp: le_less_trans)
qed

declare scan_lines.simps [simp del]

lemma scan_lines_Nil [simp]: "scan_lines m [] = ([], False)"
  by (simp add: scan_lines.simps)

lemma scan_lines_line:
  assumes "nl \<notin> set l" and "go_len l < m"
  shows "scan_lines m (l @ nl # s) =
           (case scan_lines m s of (ls, e) \<Rightarrow> (drop_cr l # ls, e))"
proof -
  have 1: "takeWhile (\<lambda>c. c \<noteq> nl) (l @ nl # s) = l"
    using assms(1) by (induction l) auto
  have 2: "dropWhile (\<lambda>c. c \<noteq> nl) (l @ nl # s) = nl # s"
    using assms(1) by (induction l) auto
  from 1 2 show ?thesis
    using assms(2) by (subst scan_lines.simps) (simp add: Let_def)
qed

lemma scan_last_line:
  assumes "nl \<notin> set l" "l \<noteq> []" "go_len l < m"
  shows "scan_lines m l = ([drop_cr l], False)"
proof -
  have 1: "takeWhile (\<lambda>c. c \<noteq> nl) l = l" "dropWhile (\<lambda>c. c \<noteq> nl) l = []"
    using assms(1) by (auto simp: takeWhile_eq_all_conv dropWhile_eq_Nil_conv)
  show ?thesis
    using assms(2,3) by (subst scan_lines.simps) (simp add: Let_def 1)
qed

text \<open>Appending to a text that ends at a line boundary appends lines.\<close>

definition line_aligned :: "string \<Rightarrow> bool" where
  "line_aligned s = (s = [] \<or> last s = nl)"

lemma line_aligned_simps [simp]: "line_aligned []" "line_aligned (s @ [nl])"
  by (simp_all add: line_aligned_def)

lemma line_aligned_append: "line_aligned s \<Longrightarrow> line_aligned t \<Longrightarrow> line_aligned (s @ t)"
  by (cases t) (auto simp: line_aligned_def)

lemma split_first_line:
  assumes "s \<noteq> []" and "line_aligned s"
  obtains l r where "s = l @ nl # r" and "nl \<notin> set l" and "line_aligned r"
proof -
  have "nl \<in> set s" using assms by (metis last_in_set line_aligned_def)
  then obtain l r where "s = l @ nl # r" "nl \<notin> set l" by (metis split_list_first)
  moreover from this assms(2) have "line_aligned r" by (auto simp: line_aligned_def split: if_splits)
  ultimately show ?thesis by (rule that)
qed

lemma scan_lines_too_long:
  assumes "nl \<notin> set l" and "m \<le> go_len l"  "l \<noteq> [] \<or> m = 0"
  shows "scan_lines m (l @ nl # s) = ([], True)"
proof -
  have "takeWhile (\<lambda>c. c \<noteq> nl) (l @ nl # s) = l"
    using assms(1) by (induction l) auto
  then show ?thesis
    using assms(2) by (subst scan_lines.simps) (simp add: Let_def)
qed

lemma scan_last_too_long:
  assumes "nl \<notin> set l" "l \<noteq> []" "m \<le> go_len l"
  shows "scan_lines m l = ([], True)"
proof -
  have 1: "takeWhile (\<lambda>c. c \<noteq> nl) l = l" using assms(1) by (auto simp: takeWhile_eq_all_conv)
  show ?thesis using assms(2,3) by (subst scan_lines.simps) (simp add: Let_def 1)
qed

lemma scan_lines_append:
  "line_aligned s \<Longrightarrow> scan_lines m (s @ t) =
     (case scan_lines m s of (ls, e) \<Rightarrow>
        if e then (ls, True) else (case scan_lines m t of (ls', e') \<Rightarrow> (ls @ ls', e')))"
proof (induction "length s" arbitrary: s rule: less_induct)
  case less
  show ?case
  proof (cases "s = []")
    case True
    then show ?thesis by (simp split: prod.splits)
  next
    case False
    then obtain l r where s: "s = l @ nl # r" "nl \<notin> set l" "line_aligned r"
      using less.prems by (rule split_first_line)
    show ?thesis
    proof (cases "go_len l < m")
      case True
      have "scan_lines m (r @ t) =
          (case scan_lines m r of (ls, e) \<Rightarrow>
             if e then (ls, True) else (case scan_lines m t of (ls', e') \<Rightarrow> (ls @ ls', e')))"
        using less.hyps [of r] s by simp
      then show ?thesis
        using s True by (auto simp: scan_lines_line split: prod.splits)
    next
      case False
      then have "m \<le> go_len l" "l \<noteq> [] \<or> m = 0" by (auto simp: not_less)
      then show ?thesis
        using s(1,2) scan_lines_too_long [of l m] by simp
    qed
  qed
qed

lemma drop_cr_id: "l = [] \<or> last l \<noteq> cr \<Longrightarrow> drop_cr l = l"
  by (auto simp: drop_cr_def)

section \<open>fmt.Sscanf on space-separated verbs\<close>

text \<open>
  \<open>SkipSpace\<close>: white space other than a newline is skipped, a newline is an error. A \<open>%s\<close> skips
  space, fails at the end of the input and otherwise takes the characters up to the next space.
  A space in the format wants at least one space in the input (or its end) and skips them all; a
  newline in the format wants any spaces and then a newline or the end of the input.
\<close>

fun skip_space :: "string \<Rightarrow> string option" where
  "skip_space [] = Some []"
| "skip_space (c # s) =
     (if c = nl then None else if is_space c then skip_space s else Some (c # s))"

definition scan_word :: "string \<Rightarrow> (string \<times> string) option" where
  "scan_word s =
     (case skip_space s of
        None \<Rightarrow> None
      | Some [] \<Rightarrow> None
      | Some t \<Rightarrow> Some (takeWhile (\<lambda>c. \<not> is_space c) t, dropWhile (\<lambda>c. \<not> is_space c) t))"

definition format_space :: "string \<Rightarrow> string option" where
  "format_space s =
     (case s of
        [] \<Rightarrow> Some []
      | c # _ \<Rightarrow> if \<not> is_space c \<or> c = nl then None
                  else Some (dropWhile (\<lambda>c. is_space c \<and> c \<noteq> nl) s))"

definition format_newline :: "string \<Rightarrow> string option" where
  "format_newline s =
     (case dropWhile (\<lambda>c. is_space c \<and> c \<noteq> nl) s of
        [] \<Rightarrow> Some []
      | c # t \<Rightarrow> if c = nl then Some t else None)"

text \<open>A word: what \<open>%s\<close> reads back whole.\<close>

definition is_word :: "string \<Rightarrow> bool" where
  "is_word w = (w \<noteq> [] \<and> (\<forall>c \<in> set w. \<not> is_space c))"

lemma is_word_nl: "is_word w \<Longrightarrow> nl \<notin> set w"
  by (auto simp: is_word_def)

lemma is_word_last: "is_word w \<Longrightarrow> last w \<noteq> cr"
  by (metis is_word_def is_space_simps(3) last_in_set)

lemma skip_space_word: "is_word w \<Longrightarrow> skip_space (w @ s) = Some (w @ s)"
  by (cases w) (auto simp: is_word_def)

lemma scan_word_end: "is_word w \<Longrightarrow> scan_word w = Some (w, [])"
  using skip_space_word [of w "[]"]
  by (cases w) (auto simp: scan_word_def is_word_def takeWhile_eq_all_conv dropWhile_eq_Nil_conv)

lemma scan_word_space:
  assumes "is_word w" and "is_space c"
  shows "scan_word (w @ c # s) = Some (w, c # s)"
proof -
  have 1: "takeWhile (\<lambda>c. \<not> is_space c) (w @ c # s) = w"
    using assms by (simp add: is_word_def takeWhile_append2)
  have 2: "dropWhile (\<lambda>c. \<not> is_space c) (w @ c # s) = c # s"
    using assms by (simp add: is_word_def dropWhile_append2)
  from 1 2 show ?thesis
    using assms skip_space_word [of w "c # s"]
    by (cases w) (auto simp: scan_word_def is_word_def)
qed

lemma format_space_tab_word: "is_word w \<Longrightarrow> format_space (tab # w @ s) = Some (w @ s)"
  by (cases w) (auto simp: format_space_def is_word_def)

lemma format_newline_Nil [simp]: "format_newline [] = Some []"
  by (simp add: format_newline_def)

section \<open>strconv.Itoa and strconv.Atoi\<close>

definition digit_char :: "nat \<Rightarrow> char" where
  "digit_char d = char_of (48 + d)"

fun nat_digits :: "nat \<Rightarrow> string" where
  "nat_digits n = (if n < 10 then [digit_char n] else nat_digits (n div 10) @ [digit_char (n mod 10)])"

declare nat_digits.simps [simp del]

definition itoa :: "int \<Rightarrow> string" where
  "itoa i = (if i < 0 then CHR ''-'' # nat_digits (nat (- i)) else nat_digits (nat i))"

definition is_digit :: "char \<Rightarrow> bool" where
  "is_digit c = (48 \<le> (of_char c :: nat) \<and> (of_char c :: nat) \<le> 57)"

definition digit_val :: "char \<Rightarrow> nat" where
  "digit_val c = of_char c - 48"

text \<open>\<open>strconv.Atoi\<close> on a 64-bit platform: an optional sign, at least one digit, digits only, within range.\<close>

definition digits_val :: "string \<Rightarrow> nat" where
  "digits_val ds = foldl (\<lambda>n c. 10 * n + digit_val c) 0 ds"

definition atoi :: "string \<Rightarrow> int option" where
  "atoi s =
     (let (neg, ds) = (case s of [] \<Rightarrow> (False, []) | c # t \<Rightarrow>
            if c = CHR ''-'' then (True, t) else if c = CHR ''+'' then (False, t) else (False, s));
          v = (if neg then - int (digits_val ds) else int (digits_val ds))
      in if ds = [] \<or> \<not> list_all is_digit ds then None
         else if v < - (2 ^ 63) \<or> 2 ^ 63 \<le> v then None
         else Some v)"

lemma digit_char_props:
  assumes "d < 10"
  shows "is_digit (digit_char d)" "digit_val (digit_char d) = d"
  using assms by (auto simp: digit_char_def is_digit_def digit_val_def of_char_of)

lemma nat_digits_ne [simp]: "nat_digits n \<noteq> []"
  by (subst nat_digits.simps) simp

lemma nat_digits_digits: "list_all is_digit (nat_digits n)"
proof (induction n rule: nat_digits.induct)
  case (1 n)
  then show ?case
    by (subst nat_digits.simps) (auto simp: digit_char_props)
qed

lemma digits_val_snoc: "digits_val (ds @ [c]) = 10 * digits_val ds + digit_val c"
  by (simp add: digits_val_def)

lemma digits_val_nat_digits: "digits_val (nat_digits n) = n"
proof (induction n rule: nat_digits.induct)
  case (1 n)
  then show ?case
    by (subst nat_digits.simps) (auto simp: digits_val_snoc digit_char_props digits_val_def)
qed

lemma is_digit_not_sign: "is_digit c \<Longrightarrow> c \<noteq> CHR ''-'' \<and> c \<noteq> CHR ''+''"
  by (auto simp: is_digit_def)

lemma atoi_nat_digits: "int n < 2 ^ 63 \<Longrightarrow> atoi (nat_digits n) = Some (int n)"
proof -
  assume n: "int n < 2 ^ 63"
  obtain c t where ct: "nat_digits n = c # t"
    by (cases "nat_digits n") auto
  moreover have "is_digit c"
    using nat_digits_digits [of n] ct by simp
  ultimately have "(case nat_digits n of [] \<Rightarrow> (False, []) | c # t \<Rightarrow>
      if c = CHR ''-'' then (True, t) else if c = CHR ''+'' then (False, t) else (False, nat_digits n))
      = (False, nat_digits n)"
    using is_digit_not_sign [of c] by simp
  then show ?thesis
    using n by (simp add: atoi_def nat_digits_digits digits_val_nat_digits)
qed

theorem atoi_itoa: "- (2 ^ 63) \<le> i \<Longrightarrow> i < 2 ^ 63 \<Longrightarrow> atoi (itoa i) = Some i"
proof (cases "i < 0")
  case True
  assume "- (2 ^ 63) \<le> i"
  with True show ?thesis
    by (simp add: itoa_def atoi_def nat_digits_digits digits_val_nat_digits)
next
  case False
  assume "i < 2 ^ 63"
  with False show ?thesis
    using atoi_nat_digits [of "nat i"] by (simp add: itoa_def)
qed

lemma itoa_inj: "itoa i = itoa j \<Longrightarrow> i = j"
proof -
  assume eq: "itoa i = itoa j"
  have hd: "hd (nat_digits n) \<noteq> CHR ''-''" for n
    using nat_digits_digits [of n] is_digit_not_sign
    by (cases "nat_digits n") auto
  have inj: "nat_digits m = nat_digits n \<Longrightarrow> m = n" for m n
    by (metis digits_val_nat_digits)
  have sign: "i < 0 \<longleftrightarrow> hd (itoa i) = CHR ''-''" for i
    using hd [of "nat i"] by (simp add: itoa_def)
  show "i = j"
  proof (cases "i < 0")
    case True
    moreover have "j < 0" using True sign [of i] sign [of j] eq by simp
    ultimately have "nat (- i) = nat (- j)" using eq by (intro inj) (simp add: itoa_def)
    with True \<open>j < 0\<close> show ?thesis by simp
  next
    case False
    moreover have "\<not> j < 0" using False sign [of i] sign [of j] eq by simp
    ultimately have "nat i = nat j" using eq by (intro inj) (simp add: itoa_def)
    with False \<open>\<not> j < 0\<close> show ?thesis by simp
  qed
qed

end
