(* ===== verification/Wal.thy ===== *)
theory Wal
  imports GoText
begin

text \<open>
  The write-ahead log of \<open>wal/main.go\<close>: a map kept in memory, and a text file to which every
  \<open>Put\<close> appends a line and which it syncs before the map changes. The file system is explicit: a
  log file has the content readers see and the content that survives a power loss. The operations
  take the fault the environment injects, so that the error returns are branches of the model.
\<close>

section \<open>The file system under the log\<close>

record logfile =
  cached :: string   \<comment> \<open>what a read returns\<close>
  durable :: string  \<comment> \<open>what is left after a power loss\<close>

type_synonym fs = "string \<rightharpoonup> logfile"

datatype fault = NoFault | OpenFault | WriteFault nat | SyncFault

datatype wal_error = ErrOpen | ErrWrite | ErrSync | ErrTooLong

text \<open>A failed write may have appended a prefix of its bytes.\<close>

definition append_file :: "string \<Rightarrow> string \<Rightarrow> fs \<Rightarrow> fs" where
  "append_file p s d =
     (case d p of None \<Rightarrow> d
      | Some f \<Rightarrow> d(p \<mapsto> f\<lparr>cached := cached f @ s\<rparr>))"

definition sync_file :: "string \<Rightarrow> fs \<Rightarrow> fs" where
  "sync_file p d =
     (case d p of None \<Rightarrow> d
      | Some f \<Rightarrow> d(p \<mapsto> f\<lparr>durable := cached f\<rparr>))"

definition power_loss :: "fs \<Rightarrow> fs" where
  "power_loss d = (\<lambda>p. map_option (\<lambda>f. f\<lparr>cached := durable f\<rparr>) (d p))"

section \<open>The log\<close>

record wal =
  filePath :: string
  store :: "string \<rightharpoonup> string"

definition put_op :: string where
  "put_op = ''PUT''"

definition log_entry :: "string \<Rightarrow> string \<Rightarrow> string \<Rightarrow> string" where
  "log_entry op k v = op @ [tab] @ k @ [tab] @ v @ [nl]"

text \<open>\<open>fmt.Sscanf(line, "%s\t%s\t%s\n", &op, &k, &v)\<close>; \<open>None\<close> is a non-nil error.\<close>

definition sscanf_log :: "string \<Rightarrow> (string \<times> string \<times> string) option" where
  "sscanf_log line = do {
     (op, s1) \<leftarrow> scan_word line;
     s2 \<leftarrow> format_space s1;
     (k, s3) \<leftarrow> scan_word s2;
     s4 \<leftarrow> format_space s3;
     (v, s5) \<leftarrow> scan_word s4;
     _ \<leftarrow> format_newline s5;
     Some (op, k, v)
   }"

definition recover_line :: "(string \<rightharpoonup> string) \<Rightarrow> string \<Rightarrow> (string \<rightharpoonup> string)" where
  "recover_line m line =
     (case sscanf_log line of
        None \<Rightarrow> m
      | Some (op, k, v) \<Rightarrow> if op = put_op then m(k \<mapsto> v) else m)"

definition max_scan_token :: nat where
  "max_scan_token = 64 * 1024"

text \<open>
  \<open>recover\<close>: the map after the lines of the file, and \<open>scanner.Err()\<close>. A file that cannot be opened
  again is an error before any line.
\<close>

definition wal_recover :: "fs \<Rightarrow> wal \<Rightarrow> wal \<times> wal_error option" where
  "wal_recover d w =
     (case d (filePath w) of
        None \<Rightarrow> (w, Some ErrOpen)
      | Some f \<Rightarrow>
          (case scan_lines max_scan_token (cached f) of
             (ls, e) \<Rightarrow> (w\<lparr>store := foldl recover_line (store w) ls\<rparr>,
                         if e then Some ErrTooLong else None)))"

definition new_wal :: "string \<Rightarrow> fault \<Rightarrow> fs \<Rightarrow> fs \<times> (wal_error, wal) result" where
  "new_wal p flt d =
     (if flt = OpenFault then (d, Inl ErrOpen)
      else (let d' = (case d p of None \<Rightarrow> d(p \<mapsto> \<lparr>cached = [], durable = []\<rparr>) | Some _ \<Rightarrow> d)
            in (case wal_recover d' \<lparr>filePath = p, store = Map.empty\<rparr> of
                  (w, Some e) \<Rightarrow> (d', Inl e)
                | (w, None) \<Rightarrow> (d', Inr w))))"

text \<open>\<open>Put\<close>: append the line, sync, then change the map; a failure returns before the next stage.\<close>

definition wal_put :: "fault \<Rightarrow> string \<Rightarrow> string \<Rightarrow> fs \<times> wal \<Rightarrow> (fs \<times> wal) \<times> wal_error option" where
  "wal_put flt k v dw =
     (case dw of (d, w) \<Rightarrow>
        let entry = log_entry put_op k v in
        (case flt of
           WriteFault n \<Rightarrow> ((append_file (filePath w) (take n entry) d, w), Some ErrWrite)
         | SyncFault \<Rightarrow> ((append_file (filePath w) entry d, w), Some ErrSync)
         | _ \<Rightarrow> ((sync_file (filePath w) (append_file (filePath w) entry d),
                  w\<lparr>store := (store w)(k \<mapsto> v)\<rparr>), None)))"

definition wal_get :: "fs \<times> wal \<Rightarrow> string \<Rightarrow> string option" where
  "wal_get dw k = store (snd dw) k"

text \<open>\<open>Close\<close> appends an empty line and syncs; it closes nothing.\<close>

definition wal_close :: "fault \<Rightarrow> fs \<times> wal \<Rightarrow> (fs \<times> wal) \<times> wal_error option" where
  "wal_close flt dw =
     (case dw of (d, w) \<Rightarrow>
        (case flt of
           WriteFault n \<Rightarrow> ((append_file (filePath w) (take n [nl]) d, w), Some ErrWrite)
         | SyncFault \<Rightarrow> ((append_file (filePath w) [nl] d, w), Some ErrSync)
         | _ \<Rightarrow> ((sync_file (filePath w) (append_file (filePath w) [nl] d), w), None)))"

text \<open>
  \<open>main\<close> without faults: two puts, the map of the first log set to nil, a second log opened on the
  same file, and the deferred closes in reverse order. The result is the recovered map.
\<close>

definition wal_main :: "fs \<Rightarrow> fs \<times> (wal_error, string \<rightharpoonup> string) result" where
  "wal_main d =
     (case new_wal ''wal.log'' NoFault d of
        (d, Inl e) \<Rightarrow> (d, Inl e)
      | (d, Inr w) \<Rightarrow>
          (let (dw, _) = wal_put NoFault ''name'' ''Alice'' (d, w);
               ((d, w), _) = wal_put NoFault ''age'' ''30'' dw;
               w = w\<lparr>store := Map.empty\<rparr>
           in (case new_wal ''wal.log'' NoFault d of
                 (d, Inl e) \<Rightarrow> (d, Inl e)
               | (d, Inr w') \<Rightarrow>
                   (let ((d, w'), _) = wal_close NoFault (d, w');
                        ((d, w), _) = wal_close NoFault (d, w)
                    in (d, Inr (store w'))))))"

section \<open>Reading back one record\<close>

text \<open>A key and a value the log reads back: words, on a line the scanner's buffer can hold.\<close>

definition fits :: "string \<Rightarrow> string \<Rightarrow> bool" where
  "fits k v = (is_word k \<and> is_word v \<and> go_len k + go_len v + 5 < max_scan_token)"

lemma put_op_word [simp]: "is_word put_op"
  by (simp add: put_op_def is_word_def is_space_def)

lemma put_op_len [simp]: "go_len put_op = 3"
  by (simp add: put_op_def utf8_len_def)

lemma format_space_tab: "is_word w \<Longrightarrow> format_space (tab # w) = Some w"
  using format_space_tab_word [of w "[]"] by simp

lemma sscanf_log_words:
  assumes "is_word op" "is_word k" "is_word v"
  shows "sscanf_log (op @ tab # k @ tab # v) = Some (op, k, v)"
  using assms
  by (simp add: sscanf_log_def scan_word_space scan_word_end format_space_tab_word format_space_tab)

text \<open>A fourth word on the line makes the newline of the format fail.\<close>

lemma format_newline_word:
  assumes "is_word w" and "c = tab \<or> c = CHR 0x20"
  shows "format_newline (c # w @ s) = None"
  using assms by (cases w) (auto simp: format_newline_def is_word_def)

lemma sscanf_log_four_words:
  assumes "is_word op" "is_word k" "is_word v" "is_word x" and "c = tab \<or> c = CHR 0x20"
  shows "sscanf_log (op @ tab # k @ tab # v @ c # x @ s) = None"
proof -
  have sp: "is_space c" using assms(5) by auto
  show ?thesis
    using assms(1-3) sp format_newline_word [OF assms(4,5), of s]
    by (simp add: sscanf_log_def scan_word_space format_space_tab_word)
qed

lemma recover_line_entry:
  "fits k v \<Longrightarrow> recover_line m (put_op @ tab # k @ tab # v) = m(k \<mapsto> v)"
  by (simp add: recover_line_def sscanf_log_words fits_def)

lemma recover_line_empty [simp]: "recover_line m [] = m"
  by (simp add: recover_line_def sscanf_log_def scan_word_def)

section \<open>The invariant of a log and its file\<close>

definition replay :: "string \<Rightarrow> (string \<rightharpoonup> string)" where
  "replay s = foldl recover_line Map.empty (fst (scan_lines max_scan_token s))"

definition readable :: "string \<Rightarrow> bool" where
  "readable s = (line_aligned s \<and> \<not> snd (scan_lines max_scan_token s))"

definition wal_inv :: "fs \<times> wal \<Rightarrow> bool" where
  "wal_inv dw =
     (case dw of (d, w) \<Rightarrow>
        (case d (filePath w) of
           None \<Rightarrow> False
         | Some f \<Rightarrow> durable f = cached f \<and> readable (cached f) \<and> replay (cached f) = store w))"

lemma readable_Nil [simp]: "readable []"
  by (simp add: readable_def)

lemma replay_Nil [simp]: "replay [] = Map.empty"
  by (simp add: replay_def)

lemma readable_append: "readable s \<Longrightarrow> readable t \<Longrightarrow> readable (s @ t)"
  by (auto simp: readable_def line_aligned_append scan_lines_append split: prod.splits)

lemma replay_append:
  "readable s \<Longrightarrow> replay (s @ t) = foldl recover_line (replay s) (fst (scan_lines max_scan_token t))"
  by (auto simp: readable_def replay_def scan_lines_append split: prod.splits)

lemma scan_one_line:
  assumes "nl \<notin> set l" "go_len l < max_scan_token" "l = [] \<or> last l \<noteq> cr"
  shows "scan_lines max_scan_token (l @ [nl]) = ([l], False)"
  using scan_lines_line [OF assms(1,2), of "[]"] assms(3) by (simp add: drop_cr_id)

lemma readable_line:
  assumes "nl \<notin> set l" "go_len l < max_scan_token" "l = [] \<or> last l \<noteq> cr"
  shows "readable (l @ [nl])"
  using scan_one_line [OF assms] by (simp add: readable_def)

lemma replay_line:
  assumes "readable s" "nl \<notin> set l" "go_len l < max_scan_token" "l = [] \<or> last l \<noteq> cr"
  shows "replay (s @ l @ [nl]) = recover_line (replay s) l"
  using assms(1) scan_one_line [OF assms(2-4)] by (simp add: replay_append)

lemma scan_pos: "0 < max_scan_token"
  by (simp add: max_scan_token_def)

lemma log_entry_line: "log_entry op k v = (op @ tab # k @ tab # v) @ [nl]"
  by (simp add: log_entry_def)

lemma entry_line_ok:
  assumes "fits k v"
  shows "nl \<notin> set (put_op @ tab # k @ tab # v)"
    "go_len (put_op @ tab # k @ tab # v) < max_scan_token"
    "put_op @ tab # k @ tab # v = [] \<or> last (put_op @ tab # k @ tab # v) \<noteq> cr"
  using assms is_word_nl [OF put_op_word] is_word_nl [of k] is_word_nl [of v] is_word_last [of v]
  by (auto simp: fits_def is_word_def)

lemma wal_inv_put:
  assumes "wal_inv dw" "fits k v"
  shows "wal_inv (fst (wal_put NoFault k v dw))"
proof (cases dw)
  case (Pair d w)
  with assms(1) obtain f where
    f: "d (filePath w) = Some f" "readable (cached f)" "replay (cached f) = store w"
    by (auto simp: wal_inv_def split: option.splits)
  note line = entry_line_ok [OF assms(2)]
  have "readable (cached f @ log_entry put_op k v)"
    using readable_append [OF f(2) readable_line [OF line]] by (simp add: log_entry_line)
  moreover have "replay (cached f @ log_entry put_op k v) = (store w)(k \<mapsto> v)"
    using replay_line [OF f(2) line] f(3) assms(2)
    by (simp add: log_entry_line recover_line_entry)
  ultimately show ?thesis
    using Pair f(1) by (simp add: wal_inv_def wal_put_def append_file_def sync_file_def Let_def)
qed

lemma wal_inv_close:
  assumes "wal_inv dw"
  shows "wal_inv (fst (wal_close NoFault dw))"
proof (cases dw)
  case (Pair d w)
  with assms obtain f where
    f: "d (filePath w) = Some f" "readable (cached f)" "replay (cached f) = store w"
    by (auto simp: wal_inv_def split: option.splits)
  have "readable (cached f @ [nl])" "replay (cached f @ [nl]) = store w"
    using readable_append [OF f(2) readable_line [of "[]"]] replay_line [OF f(2), of "[]"] f(3) scan_pos
    by simp_all
  then show ?thesis
    using Pair f(1) by (simp add: wal_inv_def wal_close_def append_file_def sync_file_def)
qed

lemma new_wal_readable:
  assumes "d p = Some f" "readable (cached f)"
  shows "new_wal p NoFault d = (d, Inr \<lparr>filePath = p, store = replay (cached f)\<rparr>)"
  using assms
  by (auto simp: new_wal_def wal_recover_def readable_def replay_def Let_def split: prod.splits)

lemma new_wal_fresh:
  assumes "d p = None"
  obtains d' w where "new_wal p NoFault d = (d', Inr w)" and "wal_inv (d', w)"
    and "filePath w = p" and "store w = Map.empty"
proof
  show "new_wal p NoFault d =
      (d(p \<mapsto> \<lparr>cached = [], durable = []\<rparr>), Inr \<lparr>filePath = p, store = Map.empty\<rparr>)"
    using assms by (simp add: new_wal_def wal_recover_def Let_def)
qed (simp_all add: wal_inv_def)

lemma wal_inv_reopen:
  assumes "wal_inv (d, w)"
  shows "new_wal (filePath w) NoFault (power_loss d) = (power_loss d, Inr w)"
    "new_wal (filePath w) NoFault d = (d, Inr w)"
  using assms
  by (auto simp: wal_inv_def power_loss_def new_wal_readable split: option.splits)

section \<open>The in-memory map is a keyed store\<close>

interpretation wal_kv: keyed_store wal_get "\<lambda>k v dw. fst (wal_put NoFault k v dw)" "\<lambda>_. True"
  by unfold_locales (auto simp: wal_get_def wal_put_def Let_def)

definition wal_puts :: "(string \<times> string) list \<Rightarrow> fs \<times> wal \<Rightarrow> fs \<times> wal" where
  "wal_puts kvs dw = fold (\<lambda>(k, v). (\<lambda>dw. fst (wal_put NoFault k v dw))) kvs dw"

lemma wal_puts_get: "wal_get (wal_puts kvs dw) = wal_get dw ++ map_of (rev kvs)"
  unfolding wal_puts_def by (rule wal_kv.get_puts) simp

lemma wal_puts_path: "filePath (snd (wal_puts kvs dw)) = filePath (snd dw)"
  unfolding wal_puts_def
  by (induction kvs arbitrary: dw) (auto simp: wal_put_def Let_def split: prod.splits)

lemma wal_inv_puts:
  "wal_inv dw \<Longrightarrow> list_all (\<lambda>(k, v). fits k v) kvs \<Longrightarrow> wal_inv (wal_puts kvs dw)"
proof (induction kvs arbitrary: dw)
  case Nil
  then show ?case by (simp add: wal_puts_def)
next
  case (Cons kv kvs)
  obtain k v where kv: "kv = (k, v)" by (cases kv)
  have "wal_inv (fst (wal_put NoFault k v dw))"
    using Cons.prems kv by (intro wal_inv_put) simp_all
  then have "wal_inv (wal_puts kvs (fst (wal_put NoFault k v dw)))"
    using Cons.prems kv by (intro Cons.IH) simp_all
  then show ?case by (simp add: wal_puts_def kv)
qed

section \<open>Torn and unreadable records\<close>

lemma is_word_append: "is_word x \<Longrightarrow> \<forall>c \<in> set y. \<not> is_space c \<Longrightarrow> is_word (y @ x)"
  by (auto simp: is_word_def)

lemma word_take: "is_word w \<Longrightarrow> \<forall>c \<in> set (take n w). \<not> is_space c"
  by (auto simp: is_word_def dest: in_set_takeD)

text \<open>
  The line that a write cut off after \<open>n\<close> bytes and the next record form together: it never
  recovers as anything, wherever the cut is.
\<close>

lemma torn_line_skipped:
  assumes w: "is_word k" "is_word v" "is_word k2" "is_word v2"
    and n: "0 < n" "n < length (log_entry put_op k v)"
  shows "recover_line m (take n (log_entry put_op k v) @ put_op @ tab # k2 @ tab # v2) = m"
proof -
  let ?P = "put_op"
  have len: "length ?P = 3" by (simp add: put_op_def)
  have P: "is_word (take i u @ ?P)" if "is_word u" for i u
    by (rule is_word_append [OF put_op_word word_take [OF that]])
  have four: "recover_line m (?P @ tab # a @ tab # b @ tab # x @ s) = m"
    if "is_word a" "is_word b" "is_word x" for a b x s
    using sscanf_log_four_words [OF put_op_word that, of tab s] by (simp add: recover_line_def)
  consider "n \<le> 3" | "3 < n" "n \<le> 4 + length k" | "4 + length k < n"
    by linarith
  then show ?thesis
  proof cases
    case 1
    then have "take n (log_entry ?P k v) = take n ?P" using len by (simp add: log_entry_def)
    moreover have "take n ?P @ ?P \<noteq> ?P" using n(1) len by (auto simp: put_op_def)
    ultimately show ?thesis
      using sscanf_log_words [OF P [OF put_op_word, of n] w(3,4)] by (simp add: recover_line_def)
  next
    case 2
    then have "take n (log_entry ?P k v) = ?P @ tab # take (n - 4) k"
      using len by (auto simp: log_entry_def take_Cons' numeral_eq_Suc)
    then show ?thesis
      using four [OF P [OF w(1), of "n - 4"] w(3,4), of "[]"] by simp
  next
    case 3
    then have "take n (log_entry ?P k v) = ?P @ tab # k @ tab # take (n - 5 - length k) v"
      using len n(2) by (auto simp: log_entry_def take_Cons' numeral_eq_Suc)
    then show ?thesis
      using four [OF w(1) P [OF w(2), of "n - 5 - length k"] w(3), of "tab # v2"] by simp
  qed
qed

section \<open>Properties\<close>



text \<open>
  C11. A failed write poisons the next record. When a \<open>Put\<close> fails after some but not all of its
  bytes reached the file, the \<open>Put\<close> that follows is acknowledged and visible in memory, but its
  record continues the torn line, so that reopening the log yields the map as it was before both.
\<close>

theorem torn_write_loses_next_put:
  assumes inv: "wal_inv (d, w)"
    and fit: "fits k v" "fits k2 v2"
      "go_len k + go_len v + go_len k2 + go_len v2 + 10 < max_scan_token"
    and n: "0 < n" "n < length (log_entry put_op k v)"
    and puts: "wal_put (WriteFault n) k v (d, w) = (dw1, r1)" "wal_put NoFault k2 v2 dw1 = ((d2, w2), r2)"
  shows "r1 = Some ErrWrite \<and> r2 = None \<and> store w2 k2 = Some v2 \<and>
         new_wal (filePath w) NoFault d2 = (d2, Inr w)"
proof -
  obtain f where f: "d (filePath w) = Some f" "readable (cached f)" "replay (cached f) = store w"
    using inv by (auto simp: wal_inv_def split: option.splits)
  let ?t = "take n (log_entry put_op k v)"
  let ?l = "?t @ put_op @ tab # k2 @ tab # v2"
  have words: "is_word k" "is_word v" "is_word k2" "is_word v2" using fit by (auto simp: fits_def)
  have entry: "log_entry put_op k v = (put_op @ tab # k @ tab # v) @ [nl]"
    by (rule log_entry_line)
  have snoc: "i < length (xs @ [c]) \<Longrightarrow> take i (xs @ [c]) = take i xs" for i c and xs :: string
    by simp
  have t: "?t = take n (put_op @ tab # k @ tab # v)"
    using n(2) unfolding entry by (rule snoc)
  have sub: "set ?t \<subseteq> set (put_op @ tab # k @ tab # v)" unfolding t by (rule set_take_subset)
  have nl: "nl \<notin> set ?l"
    using sub entry_line_ok(1) [OF fit(1)] entry_line_ok(1) [OF fit(2)] by auto
  have "go_len ?t \<le> go_len (put_op @ tab # k @ tab # v)"
    unfolding t by (metis append_take_drop_id go_len_append le_add1)
  then have len: "go_len ?l < max_scan_token" using fit(3) by simp
  have cr: "?l = [] \<or> last ?l \<noteq> cr"
    using words(4) is_word_last [of v2] by (auto simp: is_word_def)
  have readable: "readable (cached f @ ?l @ [nl])"
    using readable_append [OF f(2) readable_line [OF nl len cr]] by simp
  have replay: "replay (cached f @ ?l @ [nl]) = store w"
    using replay_line [OF f(2) nl len cr] torn_line_skipped [OF words n] f(3) by simp
  have dw1: "dw1 = (d(filePath w \<mapsto> f\<lparr>cached := cached f @ ?t\<rparr>), w)" "r1 = Some ErrWrite"
    using puts(1) f(1) by (auto simp: wal_put_def append_file_def Let_def)
  have d2: "d2 (filePath w) = Some \<lparr>cached = cached f @ ?l @ [nl], durable = cached f @ ?l @ [nl]\<rparr>"
    using puts(2) dw1(1)
    by (auto simp: wal_put_def append_file_def sync_file_def Let_def log_entry_line)
  have "new_wal (filePath w) NoFault d2 = (d2, Inr w)"
    using new_wal_readable [where d = d2 and p = "filePath w"] d2 readable replay by simp
  then show ?thesis
    using puts(2) dw1 by (auto simp: wal_put_def Let_def)
qed

theorem torn_write_loses_next_put_witness:
  "\<exists>d2 w2. wal_put NoFault ''b'' ''2'' (fst (wal_put (WriteFault 5) ''a'' ''1''
      (Map.empty(''l'' \<mapsto> \<lparr>cached = [], durable = []\<rparr>), \<lparr>filePath = ''l'', store = Map.empty\<rparr>)))
     = ((d2, w2), None) \<and> store w2 ''b'' = Some ''2'' \<and>
     new_wal ''l'' NoFault d2 = (d2, Inr \<lparr>filePath = ''l'', store = Map.empty\<rparr>)"
proof -
  let ?d = "Map.empty(''l'' \<mapsto> \<lparr>cached = [], durable = []\<rparr>) :: fs"
  let ?w = "\<lparr>filePath = ''l'', store = Map.empty\<rparr> :: wal"
  obtain dw1 r1 where 1: "wal_put (WriteFault 5) ''a'' ''1'' (?d, ?w) = (dw1, r1)" by fastforce
  obtain d2 w2 r2 where 2: "wal_put NoFault ''b'' ''2'' dw1 = ((d2, w2), r2)"
    by (metis surj_pair)
  have "fits ''a'' ''1''" "fits ''b'' ''2''"
    by (simp_all add: fits_def is_word_def is_space_def utf8_len_def max_scan_token_def)
  then show ?thesis
    using torn_write_loses_next_put [OF _ _ _ _ _ _ 1 2] 1 2
    by (simp add: wal_inv_def utf8_len_def max_scan_token_def log_entry_def put_op_def)
qed

text \<open>
  A value with a space in it is acknowledged, visible and synced, and is dropped by the next
  recovery, because the line holds a word more than the format \<open>%s\t%s\t%s\n\<close> reads.
\<close>

lemma wal_space_lost:
  assumes inv: "wal_inv (d, w)"
    and words: "is_word k" "is_word a" "is_word b"
    and len: "go_len k + go_len a + go_len b + 6 < max_scan_token"
    and put: "wal_put NoFault k (a @ CHR 0x20 # b) (d, w) = ((d2, w2), r)"
  shows "r = None \<and> store w2 k = Some (a @ CHR 0x20 # b) \<and>
         new_wal (filePath w) NoFault (power_loss d2) = (power_loss d2, Inr w)"
proof -
  obtain f where f: "d (filePath w) = Some f" "readable (cached f)" "replay (cached f) = store w"
    using inv by (auto simp: wal_inv_def split: option.splits)
  let ?v = "a @ CHR 0x20 # b"
  let ?l = "put_op @ tab # k @ tab # ?v"
  have nl: "nl \<notin> set ?l" using words is_word_nl put_op_word by auto
  have len': "go_len ?l < max_scan_token" using len by (simp add: utf8_len_def)
  have cr: "?l = [] \<or> last ?l \<noteq> cr" using words(3) is_word_last [of b] by (auto simp: is_word_def)
  have rec: "recover_line m ?l = m" for m
    using sscanf_log_four_words [OF put_op_word words, of "CHR 0x20" "[]"]
    by (simp add: recover_line_def)
  have d2: "d2 (filePath w) = Some \<lparr>cached = cached f @ ?l @ [nl], durable = cached f @ ?l @ [nl]\<rparr>"
    using put f(1) by (auto simp: wal_put_def append_file_def sync_file_def Let_def log_entry_line)
  then have "power_loss d2 (filePath w) =
      Some \<lparr>cached = cached f @ ?l @ [nl], durable = cached f @ ?l @ [nl]\<rparr>"
    by (simp add: power_loss_def)
  then have "new_wal (filePath w) NoFault (power_loss d2) = (power_loss d2, Inr w)"
    using new_wal_readable readable_append [OF f(2) readable_line [OF nl len' cr]]
      replay_line [OF f(2) nl len' cr] rec f(3) by simp
  then show ?thesis using put by (auto simp: wal_put_def Let_def)
qed

theorem wal_space_lost_witness:
  "\<exists>d2 w2. wal_put NoFault ''n'' (''A'' @ CHR 0x20 # ''L'')
      (Map.empty(''l'' \<mapsto> \<lparr>cached = [], durable = []\<rparr>), \<lparr>filePath = ''l'', store = Map.empty\<rparr>)
     = ((d2, w2), None) \<and> store w2 ''n'' = Some ''A L'' \<and>
     new_wal ''l'' NoFault (power_loss d2) =
       (power_loss d2, Inr \<lparr>filePath = ''l'', store = Map.empty\<rparr>)"
proof -
  let ?d = "Map.empty(''l'' \<mapsto> \<lparr>cached = [], durable = []\<rparr>) :: fs"
  let ?w = "\<lparr>filePath = ''l'', store = Map.empty\<rparr> :: wal"
  obtain d2 w2 r where 1: "wal_put NoFault ''n'' (''A'' @ CHR 0x20 # ''L'') (?d, ?w) = ((d2, w2), r)"
    by (metis surj_pair)
  show ?thesis
    using wal_space_lost [OF _ _ _ _ _ 1] 1
    by (simp add: wal_inv_def utf8_len_def max_scan_token_def is_word_def is_space_def)
qed

end
