(* ===== verification/CowTree.thy ===== *)
theory CowTree
  imports GoPrelude
begin

text \<open>
  The copy-on-write search tree of \<open>cow/main.go\<close>. Nodes and ownership contexts live in an explicit
  store, so that sharing between a tree and its clones, and the identity test
  \<open>n.cow == t.cow\<close> that decides between writing in place and copying, are what the code has.
  A \<open>None\<close> outside the data is a nil dereference; the recursions over pointers are partial functions,
  whose termination on trees is part of what is proved.
\<close>

section \<open>The store\<close>

record node =
  nkey :: int
  nval :: int
  left :: "nat option"
  right :: "nat option"
  ncow :: nat

record heap =
  nodes :: "nat \<rightharpoonup> node"
  next_node :: nat
  tags :: "nat \<rightharpoonup> string"   \<comment> \<open>the \<open>copyOnWriteContext\<close> objects\<close>
  next_cow :: nat

record tree =
  root :: "nat option"
  tcow :: nat

definition empty_heap :: heap where
  "empty_heap = \<lparr>nodes = Map.empty, next_node = 0, tags = Map.empty, next_cow = 0\<rparr>"

definition alloc_node :: "node \<Rightarrow> heap \<Rightarrow> nat \<times> heap" where
  "alloc_node n h =
     (next_node h, h\<lparr>nodes := (nodes h)(next_node h \<mapsto> n), next_node := next_node h + 1\<rparr>)"

definition alloc_cow :: "string \<Rightarrow> heap \<Rightarrow> nat \<times> heap" where
  "alloc_cow tag h =
     (next_cow h, h\<lparr>tags := (tags h)(next_cow h \<mapsto> tag), next_cow := next_cow h + 1\<rparr>)"

definition write_node :: "nat \<Rightarrow> node \<Rightarrow> heap \<Rightarrow> heap" where
  "write_node a n h = h\<lparr>nodes := (nodes h)(a \<mapsto> n)\<rparr>"

section \<open>The operations\<close>

definition mutable_for :: "nat option \<Rightarrow> nat \<Rightarrow> heap \<Rightarrow> (nat option \<times> heap) option" where
  "mutable_for p c h =
     (case p of
        None \<Rightarrow> Some (None, h)
      | Some a \<Rightarrow> do {
          n \<leftarrow> nodes h a;
          if ncow n = c then Some (Some a, h)
          else (let (a', h') = alloc_node (n\<lparr>ncow := c\<rparr>) h in Some (Some a', h'))
        })"

definition leaf_node :: "int \<Rightarrow> int \<Rightarrow> nat \<Rightarrow> node" where
  "leaf_node k v c = \<lparr>nkey = k, nval = v, left = None, right = None, ncow = c\<rparr>"

definition new_tree :: "string \<Rightarrow> heap \<Rightarrow> tree \<times> heap" where
  "new_tree tag h = (let (c, h') = alloc_cow tag h in (\<lparr>root = None, tcow = c\<rparr>, h'))"

text \<open>\<open>Clone\<close> copies the context twice: the first result is the receiver afterwards, the second the clone.\<close>

definition clone :: "tree \<Rightarrow> heap \<Rightarrow> (tree \<times> tree \<times> heap) option" where
  "clone t h = do {
     tag \<leftarrow> tags h (tcow t);
     let (c1, h1) = alloc_cow tag h;
     let (c2, h2) = alloc_cow tag h1;
     Some (t\<lparr>tcow := c1\<rparr>, t\<lparr>tcow := c2\<rparr>, h2)
   }"

partial_function (option) upsert_node :: "nat option \<Rightarrow> int \<Rightarrow> int \<Rightarrow> nat \<Rightarrow> heap \<Rightarrow> heap option" where
  "upsert_node p k v c h =
     (case p of None \<Rightarrow> None | Some a \<Rightarrow>
       (case nodes h a of None \<Rightarrow> None | Some n \<Rightarrow>
         if k < nkey n then
           (if left n = None then
              (let (b, h') = alloc_node (leaf_node k v c) h in Some (write_node a (n\<lparr>left := Some b\<rparr>) h'))
            else
              (case mutable_for (left n) c h of None \<Rightarrow> None | Some (p', h') \<Rightarrow>
                 upsert_node p' k v c (write_node a (n\<lparr>left := p'\<rparr>) h')))
         else if k > nkey n then
           (if right n = None then
              (let (b, h') = alloc_node (leaf_node k v c) h in Some (write_node a (n\<lparr>right := Some b\<rparr>) h'))
            else
              (case mutable_for (right n) c h of None \<Rightarrow> None | Some (p', h') \<Rightarrow>
                 upsert_node p' k v c (write_node a (n\<lparr>right := p'\<rparr>) h')))
         else Some (write_node a (n\<lparr>nval := v\<rparr>) h)))"

definition upsert :: "int \<Rightarrow> int \<Rightarrow> tree \<Rightarrow> heap \<Rightarrow> (tree \<times> heap) option" where
  "upsert k v t h =
     (if root t = None then
        (let (a, h') = alloc_node (leaf_node k v (tcow t)) h in Some (t\<lparr>root := Some a\<rparr>, h'))
      else
        (case mutable_for (root t) (tcow t) h of None \<Rightarrow> None | Some (p, h') \<Rightarrow>
           (case upsert_node p k v (tcow t) h' of None \<Rightarrow> None
            | Some h'' \<Rightarrow> Some (t\<lparr>root := p\<rparr>, h''))))"

text \<open>The loop of \<open>Get\<close>; the inner option is its second result.\<close>

partial_function (option) get_from :: "heap \<Rightarrow> nat option \<Rightarrow> int \<Rightarrow> int option option" where
  "get_from h p k =
     (case p of None \<Rightarrow> Some None | Some a \<Rightarrow>
       (case nodes h a of None \<Rightarrow> None | Some n \<Rightarrow>
         if k < nkey n then get_from h (left n) k
         else if k > nkey n then get_from h (right n) k
         else Some (Some (nval n))))"

definition tree_get :: "heap \<Rightarrow> tree \<Rightarrow> int \<Rightarrow> int option option" where
  "tree_get h t k = get_from h (root t) k"

section \<open>The tree a pointer stands for\<close>

datatype ghost = Tip | Bin ghost nat int int nat ghost

fun rep :: "(nat \<rightharpoonup> node) \<Rightarrow> nat option \<Rightarrow> ghost \<Rightarrow> bool" where
  "rep m p Tip = (p = None)"
| "rep m p (Bin l a k v c r) =
     (p = Some a \<and>
      (\<exists>pl pr. m a = Some \<lparr>nkey = k, nval = v, left = pl, right = pr, ncow = c\<rparr> \<and>
               rep m pl l \<and> rep m pr r))"

fun addrs :: "ghost \<Rightarrow> nat set" where
  "addrs Tip = {}"
| "addrs (Bin l a k v c r) = insert a (addrs l \<union> addrs r)"

fun keys :: "ghost \<Rightarrow> int set" where
  "keys Tip = {}"
| "keys (Bin l a k v c r) = insert k (keys l \<union> keys r)"

fun cows :: "ghost \<Rightarrow> nat set" where
  "cows Tip = {}"
| "cows (Bin l a k v c r) = insert c (cows l \<union> cows r)"

fun bst :: "ghost \<Rightarrow> bool" where
  "bst Tip = True"
| "bst (Bin l a k v c r) = ((\<forall>x \<in> keys l. x < k) \<and> (\<forall>x \<in> keys r. k < x) \<and> bst l \<and> bst r)"

fun glook :: "ghost \<Rightarrow> int \<Rightarrow> int option" where
  "glook Tip x = None"
| "glook (Bin l a k v c r) x = (if x < k then glook l x else if k < x then glook r x else Some v)"

lemma rep_node: "rep m p t \<Longrightarrow> x \<in> addrs t \<Longrightarrow> \<exists>n. m x = Some n \<and> nkey n \<in> keys t \<and> ncow n \<in> cows t"
proof (induction t arbitrary: p)
  case Tip
  then show ?case by simp
next
  case (Bin l a k v c r)
  then obtain pl pr where n: "m a = Some \<lparr>nkey = k, nval = v, left = pl, right = pr, ncow = c\<rparr>"
    and sub: "rep m pl l" "rep m pr r" by auto
  consider "x = a" | "x \<in> addrs l" | "x \<in> addrs r" using Bin.prems(2) by auto
  then show ?case
  proof cases
    case 1
    with n show ?thesis by simp
  next
    case 2
    with Bin.IH(1) [OF sub(1)] show ?thesis by auto
  next
    case 3
    with Bin.IH(2) [OF sub(2)] show ?thesis by auto
  qed
qed

lemma rep_frame: "rep m p t \<Longrightarrow> (\<And>x. x \<in> addrs t \<Longrightarrow> m' x = m x) \<Longrightarrow> rep m' p t"
  by (induction t arbitrary: p) auto

lemma rep_addr_key: "rep m p t \<Longrightarrow> m x = Some n \<Longrightarrow> nkey n \<notin> keys t \<Longrightarrow> x \<notin> addrs t"
  by (auto dest: rep_node)

lemma get_from_rep: "rep (nodes h) p t \<Longrightarrow> get_from h p k = Some (glook t k)"
proof (induction t arbitrary: p)
  case Tip
  then show ?case by (subst get_from.simps) simp
next
  case (Bin l a x v c r)
  then show ?case by (subst get_from.simps) auto
qed

definition heap_wf :: "heap \<Rightarrow> bool" where
  "heap_wf h = (\<forall>x \<ge> next_node h. nodes h x = None)"

definition extends :: "heap \<Rightarrow> heap \<Rightarrow> bool" where
  "extends h h' =
     (heap_wf h' \<and> tags h' = tags h \<and> next_cow h' = next_cow h \<and>
      (\<forall>x n. nodes h x = Some n \<longrightarrow> nodes h' x = Some n))"

text \<open>\<open>keeps c A h h'\<close>: of the nodes that were there, only those in \<open>A\<close> owned by \<open>c\<close> may have changed.\<close>

definition keeps :: "nat \<Rightarrow> nat set \<Rightarrow> heap \<Rightarrow> heap \<Rightarrow> bool" where
  "keeps c A h h' =
     (heap_wf h' \<and> tags h' = tags h \<and> next_cow h' = next_cow h \<and>
      (\<forall>x n. nodes h x = Some n \<longrightarrow> \<not> (x \<in> A \<and> ncow n = c) \<longrightarrow> nodes h' x = Some n))"

lemma rep_mono: "rep m p t \<Longrightarrow> (\<And>x n. m x = Some n \<Longrightarrow> m' x = Some n) \<Longrightarrow> rep m' p t"
  by (induction t arbitrary: p) auto

lemma rep_keeps:
  assumes "rep (nodes h) p t" "keeps c A h h'" and "\<And>x. x \<in> addrs t \<Longrightarrow> x \<in> A \<Longrightarrow> False"
  shows "rep (nodes h') p t"
proof (rule rep_frame [OF assms(1)])
  fix x assume x: "x \<in> addrs t"
  then obtain n where "nodes h x = Some n" using rep_node [OF assms(1)] by blast
  with x assms(2,3) show "nodes h' x = nodes h x" unfolding keeps_def by fastforce
qed

lemma rep_keeps_cow:
  assumes "rep (nodes h) p t" "keeps c A h h'" and "c \<notin> cows t"
  shows "rep (nodes h') p t"
proof (rule rep_frame [OF assms(1)])
  fix x assume "x \<in> addrs t"
  then obtain n where "nodes h x = Some n" "ncow n \<noteq> c"
    using rep_node [OF assms(1)] assms(3) by blast
  with assms(2) show "nodes h' x = nodes h x" unfolding keeps_def by fastforce
qed

lemma extends_alloc: "heap_wf h \<Longrightarrow> alloc_node n h = (a, h') \<Longrightarrow> extends h h' \<and> nodes h' a = Some n \<and> nodes h a = None"
  by (auto simp: alloc_node_def extends_def heap_wf_def)

lemma mutable_for_rep:
  assumes "heap_wf h" and "rep (nodes h) p (Bin l b k v c0 r)"
  obtains b' h1 where "mutable_for p c h = Some (Some b', h1)"
    and "rep (nodes h1) (Some b') (Bin l b' k v c r)" and "extends h h1"
    and "\<And>x n. x \<in> addrs (Bin l b' k v c r) \<Longrightarrow> nodes h x = Some n \<Longrightarrow> ncow n = c \<Longrightarrow>
           x \<in> addrs (Bin l b k v c0 r)"
    and "c0 = c \<Longrightarrow> b' = b \<and> h1 = h" and "c0 \<noteq> c \<Longrightarrow> nodes h b' = None"
proof -
  obtain pl pr where p: "p = Some b"
    and n: "nodes h b = Some \<lparr>nkey = k, nval = v, left = pl, right = pr, ncow = c0\<rparr>"
    and sub: "rep (nodes h) pl l" "rep (nodes h) pr r" using assms(2) by auto
  show ?thesis
  proof (cases "c0 = c")
    case True
    show ?thesis
      by (rule that [of b h]) (use True p n assms in \<open>auto simp: mutable_for_def extends_def\<close>)
  next
    case False
    let ?n = "\<lparr>nkey = k, nval = v, left = pl, right = pr, ncow = c\<rparr>"
    obtain b' h1 where al: "alloc_node ?n h = (b', h1)" by fastforce
    note ex = extends_alloc [OF assms(1) al]
    have mono: "\<And>x n. nodes h x = Some n \<Longrightarrow> nodes h1 x = Some n"
      using ex by (auto simp: extends_def)
    show ?thesis
    proof (rule that [of b' h1])
      show "mutable_for p c h = Some (Some b', h1)"
        using p n False al by (simp add: mutable_for_def)
      show "rep (nodes h1) (Some b') (Bin l b' k v c r)"
        using ex rep_mono [OF sub(1) mono] rep_mono [OF sub(2) mono] by auto
    qed (use ex False in auto)
  qed
qed

text \<open>What one call of \<open>upsertNode\<close> on a node the tree owns leaves.\<close>

definition upserted :: "int \<Rightarrow> int \<Rightarrow> nat \<Rightarrow> nat \<Rightarrow> heap \<Rightarrow> ghost \<Rightarrow> heap \<Rightarrow> ghost \<Rightarrow> bool" where
  "upserted k v c a h t h' t' =
     (rep (nodes h') (Some a) t' \<and> bst t' \<and> keys t' = insert k (keys t) \<and>
      glook t' = (glook t)(k \<mapsto> v) \<and> cows t' \<subseteq> insert c (cows t) \<and> keeps c (addrs t) h h')"

lemma keeps_step:
  assumes a: "nodes h a = Some n" "ncow n = c" "a \<in> A"
    and ex: "extends h h1" and k: "keeps c B (write_node a n' h1) h'" and "a \<notin> B"
    and B: "\<And>x m. x \<in> B \<Longrightarrow> nodes h x = Some m \<Longrightarrow> ncow m = c \<Longrightarrow> x \<in> A"
  shows "keeps c A h h' \<and> nodes h' a = Some n'"
proof
  show "nodes h' a = Some n'"
    using k \<open>a \<notin> B\<close> by (simp add: keeps_def write_node_def)
  show "keeps c A h h'"
    unfolding keeps_def
  proof (intro conjI allI impI)
    fix x m assume x: "nodes h x = Some m" "\<not> (x \<in> A \<and> ncow m = c)"
    then have "x \<noteq> a" using a by auto
    moreover have "nodes h1 x = Some m" using ex x(1) by (simp add: extends_def)
    ultimately have "nodes (write_node a n' h1) x = Some m" by (simp add: write_node_def)
    moreover have "\<not> (x \<in> B \<and> ncow m = c)" using x B by blast
    ultimately show "nodes h' x = Some m" using k by (simp add: keeps_def)
  qed (use k ex in \<open>simp_all add: keeps_def extends_def write_node_def\<close>)
qed

lemma upserted_left:
  assumes a: "nodes h a = Some \<lparr>nkey = x, nval = w, left = pl, right = pr, ncow = c\<rparr>"
    and o: "rep (nodes h) pr r" and b: "bst (Bin l a x w c r)" and k: "k < x" and ex: "extends h h1"
    and l1: "keys l1 = keys l" "glook l1 = glook l" "cows l1 \<subseteq> insert c (cows l)" "a \<notin> addrs l1"
      "\<And>y m. y \<in> addrs l1 \<Longrightarrow> nodes h y = Some m \<Longrightarrow> ncow m = c \<Longrightarrow> y \<in> addrs l"
      "\<And>y. y \<in> addrs l1 \<Longrightarrow> y \<notin> addrs r"
    and u: "upserted k v c b' (write_node a \<lparr>nkey = x, nval = w, left = Some b', right = pr, ncow = c\<rparr> h1) l1 h' l'"
  shows "upserted k v c a h (Bin l a x w c r) h' (Bin l' a x w c r)"
proof -
  let ?n = "\<lparr>nkey = x, nval = w, left = Some b', right = pr, ncow = c\<rparr>"
  have keeps: "keeps c (addrs (Bin l a x w c r)) h h' \<and> nodes h' a = Some ?n"
  proof (rule keeps_step [OF a _ _ ex _ l1(4)])
    show "keeps c (addrs l1) (write_node a ?n h1) h'" using u by (simp add: upserted_def)
  qed (use l1(5) in auto)
  have "a \<notin> addrs r" using a b by (intro rep_addr_key [OF o a]) auto
  have "rep (nodes h') pr r"
  proof (rule rep_keeps)
    show "keeps c (addrs l1) (write_node a ?n h1) h'" using u by (simp add: upserted_def)
    show "rep (nodes (write_node a ?n h1)) pr r"
    proof (rule rep_frame [OF o])
      fix y assume y: "y \<in> addrs r"
      then obtain m where "nodes h y = Some m" using rep_node [OF o] by blast
      with y \<open>a \<notin> addrs r\<close> ex show "nodes (write_node a ?n h1) y = nodes h y"
        by (auto simp: write_node_def extends_def)
    qed
  qed (use l1(6) in blast)
  with keeps u b k l1(1-3) show ?thesis
    by (auto simp: upserted_def fun_eq_iff)
qed

lemma upserted_right:
  assumes a: "nodes h a = Some \<lparr>nkey = x, nval = w, left = pl, right = pr, ncow = c\<rparr>"
    and o: "rep (nodes h) pl l" and b: "bst (Bin l a x w c r)" and k: "x < k" and ex: "extends h h1"
    and l1: "keys l1 = keys r" "glook l1 = glook r" "cows l1 \<subseteq> insert c (cows r)" "a \<notin> addrs l1"
      "\<And>y m. y \<in> addrs l1 \<Longrightarrow> nodes h y = Some m \<Longrightarrow> ncow m = c \<Longrightarrow> y \<in> addrs r"
      "\<And>y. y \<in> addrs l1 \<Longrightarrow> y \<notin> addrs l"
    and u: "upserted k v c b' (write_node a \<lparr>nkey = x, nval = w, left = pl, right = Some b', ncow = c\<rparr> h1) l1 h' l'"
  shows "upserted k v c a h (Bin l a x w c r) h' (Bin l a x w c l')"
proof -
  let ?n = "\<lparr>nkey = x, nval = w, left = pl, right = Some b', ncow = c\<rparr>"
  have keeps: "keeps c (addrs (Bin l a x w c r)) h h' \<and> nodes h' a = Some ?n"
  proof (rule keeps_step [OF a _ _ ex _ l1(4)])
    show "keeps c (addrs l1) (write_node a ?n h1) h'" using u by (simp add: upserted_def)
  qed (use l1(5) in auto)
  have "a \<notin> addrs l" using a b by (intro rep_addr_key [OF o a]) auto
  have "rep (nodes h') pl l"
  proof (rule rep_keeps)
    show "keeps c (addrs l1) (write_node a ?n h1) h'" using u by (simp add: upserted_def)
    show "rep (nodes (write_node a ?n h1)) pl l"
    proof (rule rep_frame [OF o])
      fix y assume y: "y \<in> addrs l"
      then obtain m where "nodes h y = Some m" using rep_node [OF o] by blast
      with y \<open>a \<notin> addrs l\<close> ex show "nodes (write_node a ?n h1) y = nodes h y"
        by (auto simp: write_node_def extends_def)
    qed
  qed (use l1(6) in blast)
  with keeps u b k l1(1-3) show ?thesis
    by (auto simp: upserted_def fun_eq_iff)
qed

text \<open>The tree after \<open>mutableFor\<close>: the same but for the address and the owner of its root.\<close>

fun own :: "nat \<Rightarrow> nat \<Rightarrow> ghost \<Rightarrow> ghost" where
  "own b c Tip = Tip"
| "own b c (Bin l a k v c0 r) = Bin l b k v c r"

lemma upsert_node_left:
  assumes wf: "heap_wf h" and n: "nodes h a = Some \<lparr>nkey = x, nval = w, left = pl, right = pr, ncow = c\<rparr>"
    and sub: "rep (nodes h) pl l" "rep (nodes h) pr r" and b: "bst (Bin l a x w c r)" and k: "k < x"
    and IH: "\<And>h b. heap_wf h \<Longrightarrow> rep (nodes h) (Some b) (own b c l) \<Longrightarrow> bst l \<Longrightarrow> l \<noteq> Tip \<Longrightarrow>
       \<exists>h' t'. upsert_node (Some b) k v c h = Some h' \<and> upserted k v c b h (own b c l) h' t'"
  shows "\<exists>h' t'. upsert_node (Some a) k v c h = Some h' \<and> upserted k v c a h (Bin l a x w c r) h' t'"
proof (cases l)
  case Tip
  obtain b h1 where al: "alloc_node (leaf_node k v c) h = (b, h1)" by fastforce
  note ex = extends_alloc [OF wf al]
  let ?h' = "write_node a \<lparr>nkey = x, nval = w, left = Some b, right = pr, ncow = c\<rparr> h1"
  have ne: "a \<noteq> b" using ex n by auto
  have "heap_wf ?h'" using ex n wf by (auto simp: heap_wf_def extends_def write_node_def)
  then have u: "upserted k v c b ?h' Tip ?h' (Bin Tip b k v c Tip)"
    using ex ne by (auto simp: upserted_def keeps_def write_node_def leaf_node_def)
  have "upsert_node (Some a) k v c h = Some ?h'"
    using n k Tip sub al by (subst upsert_node.simps) (simp add: write_node_def)
  moreover have "upserted k v c a h (Bin l a x w c r) ?h' (Bin (Bin Tip b k v c Tip) a x w c r)"
    by (rule upserted_left [OF n sub(2) b k _ _ _ _ _ _ _ u]) (use ex Tip in auto)
  ultimately show ?thesis by blast
next
  case (Bin ll b0 y z c0 rr)
  have ne: "pl \<noteq> None" using sub(1) Bin by auto
  obtain b h1 where m: "mutable_for pl c h = Some (Some b, h1)"
    and r1: "rep (nodes h1) (Some b) (Bin ll b y z c rr)" and ex: "extends h h1"
    and own: "\<And>y' m. y' \<in> addrs (Bin ll b y z c rr) \<Longrightarrow> nodes h y' = Some m \<Longrightarrow> ncow m = c \<Longrightarrow>
           y' \<in> addrs (Bin ll b0 y z c0 rr)"
    using mutable_for_rep [OF wf sub(1) [unfolded Bin]] by metis
  let ?t = "own b c l"
  have t: "?t = Bin ll b y z c rr" using Bin by simp
  let ?n = "\<lparr>nkey = x, nval = w, left = Some b, right = pr, ncow = c\<rparr>"
  have n1: "nodes h1 a = Some \<lparr>nkey = x, nval = w, left = pl, right = pr, ncow = c\<rparr>"
    using ex n by (simp add: extends_def)
  have keys: "keys ?t = keys l" "glook ?t = glook l" "cows ?t \<subseteq> insert c (cows l)" "bst ?t = bst l"
    using t Bin by auto
  have a: "a \<notin> addrs ?t"
    using rep_addr_key [OF r1 n1] b t Bin by auto
  have r2: "rep (nodes (write_node a ?n h1)) (Some b) ?t"
    by (rule rep_frame [of "nodes h1"]) (use r1 t a in \<open>auto simp: write_node_def\<close>)
  have wf2: "heap_wf (write_node a ?n h1)"
    using ex n1 by (auto simp: heap_wf_def extends_def write_node_def)
  have o1: "rep (nodes h1) pr r" using rep_mono [OF sub(2)] ex by (auto simp: extends_def)
  have disj: "q \<notin> addrs r" if q: "q \<in> addrs ?t" for q
  proof -
    obtain m where m: "nodes h1 q = Some m" "nkey m \<in> keys l"
      using rep_node [OF r1 [folded t] q] keys(1) by metis
    then have "nkey m \<notin> keys r" using b by fastforce
    then show ?thesis using rep_addr_key [OF o1 m(1)] by simp
  qed
  have "bst l" using b by simp
  then obtain h' t' where u: "upsert_node (Some b) k v c (write_node a ?n h1) = Some h'"
      "upserted k v c b (write_node a ?n h1) ?t h' t'"
    using IH [OF wf2 r2] Bin by blast
  have "upsert_node (Some a) k v c h = Some h'"
    using n k ne m u(1) by (subst upsert_node.simps) auto
  moreover have "upserted k v c a h (Bin l a x w c r) h' (Bin t' a x w c r)"
    by (rule upserted_left [OF n sub(2) b k ex keys(1-3) a _ disj u(2)]) (use own t Bin in auto)
  ultimately show ?thesis by blast
qed

lemma upsert_node_right:
  assumes wf: "heap_wf h" and n: "nodes h a = Some \<lparr>nkey = x, nval = w, left = pl, right = pr, ncow = c\<rparr>"
    and sub: "rep (nodes h) pl l" "rep (nodes h) pr r" and b: "bst (Bin l a x w c r)" and k: "x < k"
    and IH: "\<And>h b. heap_wf h \<Longrightarrow> rep (nodes h) (Some b) (own b c r) \<Longrightarrow> bst r \<Longrightarrow> r \<noteq> Tip \<Longrightarrow>
       \<exists>h' t'. upsert_node (Some b) k v c h = Some h' \<and> upserted k v c b h (own b c r) h' t'"
  shows "\<exists>h' t'. upsert_node (Some a) k v c h = Some h' \<and> upserted k v c a h (Bin l a x w c r) h' t'"
proof (cases r)
  case Tip
  obtain b h1 where al: "alloc_node (leaf_node k v c) h = (b, h1)" by fastforce
  note ex = extends_alloc [OF wf al]
  let ?h' = "write_node a \<lparr>nkey = x, nval = w, left = pl, right = Some b, ncow = c\<rparr> h1"
  have ne: "a \<noteq> b" using ex n by auto
  have "heap_wf ?h'" using ex n wf by (auto simp: heap_wf_def extends_def write_node_def)
  then have u: "upserted k v c b ?h' Tip ?h' (Bin Tip b k v c Tip)"
    using ex ne by (auto simp: upserted_def keeps_def write_node_def leaf_node_def)
  have "upsert_node (Some a) k v c h = Some ?h'"
    using n k Tip sub al by (subst upsert_node.simps) (simp add: write_node_def)
  moreover have "upserted k v c a h (Bin l a x w c r) ?h' (Bin l a x w c (Bin Tip b k v c Tip))"
    by (rule upserted_right [OF n sub(1) b k _ _ _ _ _ _ _ u]) (use ex Tip in auto)
  ultimately show ?thesis by blast
next
  case (Bin ll b0 y z c0 rr)
  have ne: "pr \<noteq> None" using sub(2) Bin by auto
  obtain b h1 where m: "mutable_for pr c h = Some (Some b, h1)"
    and r1: "rep (nodes h1) (Some b) (Bin ll b y z c rr)" and ex: "extends h h1"
    and own: "\<And>y' m. y' \<in> addrs (Bin ll b y z c rr) \<Longrightarrow> nodes h y' = Some m \<Longrightarrow> ncow m = c \<Longrightarrow>
           y' \<in> addrs (Bin ll b0 y z c0 rr)"
    using mutable_for_rep [OF wf sub(2) [unfolded Bin]] by metis
  let ?t = "own b c r"
  have t: "?t = Bin ll b y z c rr" using Bin by simp
  let ?n = "\<lparr>nkey = x, nval = w, left = pl, right = Some b, ncow = c\<rparr>"
  have n1: "nodes h1 a = Some \<lparr>nkey = x, nval = w, left = pl, right = pr, ncow = c\<rparr>"
    using ex n by (simp add: extends_def)
  have keys: "keys ?t = keys r" "glook ?t = glook r" "cows ?t \<subseteq> insert c (cows r)" "bst ?t = bst r"
    using t Bin by auto
  have a: "a \<notin> addrs ?t"
    using rep_addr_key [OF r1 n1] b t Bin by auto
  have r2: "rep (nodes (write_node a ?n h1)) (Some b) ?t"
    by (rule rep_frame [of "nodes h1"]) (use r1 t a in \<open>auto simp: write_node_def\<close>)
  have wf2: "heap_wf (write_node a ?n h1)"
    using ex n1 by (auto simp: heap_wf_def extends_def write_node_def)
  have o1: "rep (nodes h1) pl l" using rep_mono [OF sub(1)] ex by (auto simp: extends_def)
  have disj: "q \<notin> addrs l" if q: "q \<in> addrs ?t" for q
  proof -
    obtain m where m: "nodes h1 q = Some m" "nkey m \<in> keys r"
      using rep_node [OF r1 [folded t] q] keys(1) by metis
    then have "nkey m \<notin> keys l" using b by fastforce
    then show ?thesis using rep_addr_key [OF o1 m(1)] by simp
  qed
  have "bst r" using b by simp
  then obtain h' t' where u: "upsert_node (Some b) k v c (write_node a ?n h1) = Some h'"
      "upserted k v c b (write_node a ?n h1) ?t h' t'"
    using IH [OF wf2 r2] Bin by blast
  have "upsert_node (Some a) k v c h = Some h'"
    using n k ne m u(1) by (subst upsert_node.simps) auto
  moreover have "upserted k v c a h (Bin l a x w c r) h' (Bin l a x w c t')"
    by (rule upserted_right [OF n sub(1) b k ex keys(1-3) a _ disj u(2)]) (use own t Bin in auto)
  ultimately show ?thesis by blast
qed

lemma upsert_node_correct:
  assumes "heap_wf h" "rep (nodes h) (Some a) (own a c t)" "bst t" "t \<noteq> Tip"
  shows "\<exists>h' t'. upsert_node (Some a) k v c h = Some h' \<and> upserted k v c a h (own a c t) h' t'"
  using assms
proof (induction t arbitrary: h a)
  case Tip
  then show ?case by simp
next
  case (Bin l a0 x w c0 r)
  then obtain pl pr where n: "nodes h a = Some \<lparr>nkey = x, nval = w, left = pl, right = pr, ncow = c\<rparr>"
    and sub: "rep (nodes h) pl l" "rep (nodes h) pr r" by auto
  have b: "bst (Bin l a x w c r)" using Bin.prems(3) by simp
  consider "k < x" | "x < k" | "k = x" by linarith
  then show ?case
  proof cases
    case 1
    show ?thesis
      using upsert_node_left [OF Bin.prems(1) n sub b 1 Bin.IH(1)] by simp
  next
    case 2
    show ?thesis
      using upsert_node_right [OF Bin.prems(1) n sub b 2 Bin.IH(2)] by simp
  next
    case 3
    let ?h' = "write_node a \<lparr>nkey = x, nval = v, left = pl, right = pr, ncow = c\<rparr> h"
    have "upsert_node (Some a) k v c h = Some ?h'"
      using n 3 by (subst upsert_node.simps) simp
    moreover have "a \<notin> addrs l" "a \<notin> addrs r"
      using rep_addr_key [OF sub(1) n] rep_addr_key [OF sub(2) n] b by auto
    then have "rep (nodes ?h') pl l" "rep (nodes ?h') pr r"
      by (auto intro!: rep_frame [OF sub(1)] rep_frame [OF sub(2)] simp: write_node_def)
    then have "upserted k v c a h (own a c (Bin l a0 x w c0 r)) ?h' (Bin l a x v c r)"
      using n 3 b Bin.prems(1)
      by (auto simp: upserted_def keeps_def heap_wf_def write_node_def fun_eq_iff)
    ultimately show ?thesis by blast
  qed
qed

lemma upsert_correct:
  assumes wf: "heap_wf h" and r: "rep (nodes h) (root t) g" and b: "bst g"
  shows "\<exists>t' h' g'. upsert k v t h = Some (t', h') \<and> tcow t' = tcow t \<and>
           rep (nodes h') (root t') g' \<and> bst g' \<and> glook g' = (glook g)(k \<mapsto> v) \<and>
           cows g' \<subseteq> insert (tcow t) (cows g) \<and> keeps (tcow t) (addrs g) h h'"
proof (cases g)
  case Tip
  obtain a h' where al: "alloc_node (leaf_node k v (tcow t)) h = (a, h')" by fastforce
  note ex = extends_alloc [OF wf al]
  have "upsert k v t h = Some (t\<lparr>root := Some a\<rparr>, h')" using r Tip al by (simp add: upsert_def)
  moreover have "rep (nodes h') (Some a) (Bin Tip a k v (tcow t) Tip)"
    using ex by (simp add: leaf_node_def)
  moreover have "keeps (tcow t) (addrs g) h h'" using ex by (simp add: keeps_def extends_def)
  ultimately show ?thesis
    using Tip by (intro exI [of _ "t\<lparr>root := Some a\<rparr>"] exI [of _ h'] exI [of _ "Bin Tip a k v (tcow t) Tip"])
      (auto simp: fun_eq_iff)
next
  case (Bin l b0 x w c0 r0)
  let ?c = "tcow t"
  obtain b1 h1 where m: "mutable_for (root t) ?c h = Some (Some b1, h1)"
    and r1: "rep (nodes h1) (Some b1) (Bin l b1 x w ?c r0)" and ex: "extends h h1"
    and own: "\<And>y m. y \<in> addrs (Bin l b1 x w ?c r0) \<Longrightarrow> nodes h y = Some m \<Longrightarrow> ncow m = ?c \<Longrightarrow>
           y \<in> addrs (Bin l b0 x w c0 r0)"
    using mutable_for_rep [OF wf r [unfolded Bin]] by metis
  have "heap_wf h1" using ex by (simp add: extends_def)
  then obtain h' g' where u: "upsert_node (Some b1) k v ?c h1 = Some h'"
      "upserted k v ?c b1 h1 (Bin l b1 x w ?c r0) h' g'"
    using upsert_node_correct [of h1 b1 ?c g k v] r1 b Bin by auto
  have "keeps ?c (addrs g) h h'"
    unfolding keeps_def
  proof (intro conjI allI impI)
    fix y m assume y: "nodes h y = Some m" "\<not> (y \<in> addrs g \<and> ncow m = ?c)"
    have "nodes h1 y = Some m" using ex y(1) unfolding extends_def by blast
    moreover have "\<not> (y \<in> addrs (Bin l b1 x w ?c r0) \<and> ncow m = ?c)"
      using own [OF _ y(1)] y(2) unfolding Bin by blast
    ultimately show "nodes h' y = Some m"
      using u(2) unfolding upserted_def keeps_def by blast
  qed (use u(2) ex in \<open>auto simp: upserted_def keeps_def extends_def\<close>)
  moreover have "root t \<noteq> None" using r Bin by auto
  then have "upsert k v t h = Some (t\<lparr>root := Some b1\<rparr>, h')"
    using m u(1) by (auto simp: upsert_def)
  moreover have "rep (nodes h') (Some b1) g'" "bst g'"
    "glook g' = (glook (Bin l b1 x w ?c r0))(k \<mapsto> v)" "cows g' \<subseteq> insert ?c (cows (Bin l b1 x w ?c r0))"
    using u(2) unfolding upserted_def by blast+
  moreover have "glook (Bin l b1 x w ?c r0) = glook g"
    "insert ?c (cows (Bin l b1 x w ?c r0)) \<subseteq> insert ?c (cows g)"
    using Bin by (auto simp: fun_eq_iff)
  ultimately have "upsert k v t h = Some (t\<lparr>root := Some b1\<rparr>, h') \<and> tcow (t\<lparr>root := Some b1\<rparr>) = tcow t \<and>
      rep (nodes h') (root (t\<lparr>root := Some b1\<rparr>)) g' \<and> bst g' \<and> glook g' = (glook g)(k \<mapsto> v) \<and>
      cows g' \<subseteq> insert ?c (cows g) \<and> keeps ?c (addrs g) h h'"
    by auto
  then show ?thesis by blast
qed

section \<open>A family of trees and its specification\<close>

text \<open>
  A program holding several trees: the first from \<open>NewTree\<close>, the others from \<open>Clone\<close>. The specification
  is a list of maps, where a clone is a copy of the map and a write changes one of them.
\<close>

datatype cow_op = Clone nat | Upsert nat int int

definition run_op :: "cow_op \<Rightarrow> heap \<times> tree list \<Rightarrow> (heap \<times> tree list) option" where
  "run_op op s =
     (case s of (h, ts) \<Rightarrow>
        (case op of
           Clone i \<Rightarrow>
             if i < length ts
             then (case clone (ts ! i) h of None \<Rightarrow> None | Some (t1, t2, h') \<Rightarrow> Some (h', ts[i := t1] @ [t2]))
             else None
         | Upsert i k v \<Rightarrow>
             if i < length ts
             then (case upsert k v (ts ! i) h of None \<Rightarrow> None | Some (t', h') \<Rightarrow> Some (h', ts[i := t']))
             else None))"

fun run_ops :: "cow_op list \<Rightarrow> heap \<times> tree list \<Rightarrow> (heap \<times> tree list) option" where
  "run_ops [] s = Some s"
| "run_ops (op # ops) s = (case run_op op s of None \<Rightarrow> None | Some s' \<Rightarrow> run_ops ops s')"

fun spec_op :: "cow_op \<Rightarrow> (int \<rightharpoonup> int) list \<Rightarrow> (int \<rightharpoonup> int) list option" where
  "spec_op (Clone i) ms = (if i < length ms then Some (ms @ [ms ! i]) else None)"
| "spec_op (Upsert i k v) ms = (if i < length ms then Some (ms[i := (ms ! i)(k \<mapsto> v)]) else None)"

fun spec_ops :: "cow_op list \<Rightarrow> (int \<rightharpoonup> int) list \<Rightarrow> (int \<rightharpoonup> int) list option" where
  "spec_ops [] ms = Some ms"
| "spec_ops (op # ops) ms = (case spec_op op ms of None \<Rightarrow> None | Some ms' \<Rightarrow> spec_ops ops ms')"

definition single_tree :: "string \<Rightarrow> heap \<times> tree list" where
  "single_tree tag = (let (t, h) = new_tree tag empty_heap in (h, [t]))"

definition view :: "heap \<times> tree list \<Rightarrow> (int \<Rightarrow> int option option) list" where
  "view s = (case s of (h, ts) \<Rightarrow> map (\<lambda>t k. tree_get h t k) ts)"

text \<open>The tree at \<open>i\<close> stands for the map \<open>m\<close> and shares no node another tree may write in place.\<close>

definition tree_ok :: "heap \<Rightarrow> tree list \<Rightarrow> nat \<Rightarrow> (int \<rightharpoonup> int) \<Rightarrow> bool" where
  "tree_ok h ts i m =
     (\<exists>g. rep (nodes h) (root (ts ! i)) g \<and> bst g \<and> glook g = m \<and> cows g \<subseteq> {..<next_cow h} \<and>
          (\<forall>j < length ts. j \<noteq> i \<longrightarrow> tcow (ts ! j) \<notin> cows g))"

definition cow_sim :: "heap \<times> tree list \<Rightarrow> (int \<rightharpoonup> int) list \<Rightarrow> bool" where
  "cow_sim s ms =
     (case s of (h, ts) \<Rightarrow>
        heap_wf h \<and> (\<forall>c. tags h c \<noteq> None \<longleftrightarrow> c < next_cow h) \<and> distinct (map tcow ts) \<and>
        (\<forall>t \<in> set ts. tcow t < next_cow h) \<and> length ms = length ts \<and>
        (\<forall>i < length ts. tree_ok h ts i (ms ! i)))"

lemma cow_sim_init: "cow_sim (single_tree tag) [Map.empty]"
  by (auto simp: cow_sim_def single_tree_def new_tree_def alloc_cow_def empty_heap_def heap_wf_def
        tree_ok_def fun_eq_iff intro!: exI [of _ Tip])

lemma cow_sim_view: "cow_sim s ms \<Longrightarrow> view s = map (\<lambda>m k. Some (m k)) ms"
  by (auto simp: cow_sim_def view_def tree_get_def tree_ok_def get_from_rep fun_eq_iff
        intro!: nth_equalityI split: prod.splits)

lemma tree_ok_frame:
  assumes "tree_ok h ts i m" and "\<And>g. rep (nodes h) (root (ts ! i)) g \<Longrightarrow> tcow (ts ! j) \<notin> cows g \<Longrightarrow>
      rep (nodes h') (root (ts' ! i)) g"
    and "j < length ts" "j \<noteq> i" "next_cow h' = next_cow h" "length ts' = length ts"
    and "\<And>q. q < length ts \<Longrightarrow> tcow (ts' ! q) = tcow (ts ! q)"
  shows "tree_ok h' ts' i m"
  using assms unfolding tree_ok_def by metis

lemma cow_sim_upsert:
  assumes s: "cow_sim (h, ts) ms" and i: "i < length ts"
  shows "\<exists>t' h'. upsert k v (ts ! i) h = Some (t', h') \<and>
           cow_sim (h', ts[i := t']) (ms[i := (ms ! i)(k \<mapsto> v)])"
proof -
  let ?c = "tcow (ts ! i)"
  have wf: "heap_wf h" and ok: "\<And>q. q < length ts \<Longrightarrow> tree_ok h ts q (ms ! q)"
    and dist: "distinct (map tcow ts)" and c: "?c < next_cow h" and len: "length ms = length ts"
    using s i by (auto simp: cow_sim_def)
  obtain g where g: "rep (nodes h) (root (ts ! i)) g" "bst g" "glook g = ms ! i"
      "cows g \<subseteq> {..<next_cow h}" "\<And>j. j < length ts \<Longrightarrow> j \<noteq> i \<Longrightarrow> tcow (ts ! j) \<notin> cows g"
    using ok [OF i] by (auto simp: tree_ok_def)
  obtain t' h' g' where u: "upsert k v (ts ! i) h = Some (t', h')" "tcow t' = ?c"
      "rep (nodes h') (root t') g'" "bst g'" "glook g' = (glook g)(k \<mapsto> v)"
      "cows g' \<subseteq> insert ?c (cows g)" and keeps: "keeps ?c (addrs g) h h'"
    using upsert_correct [OF wf g(1,2)] by blast
  have same: "next_cow h' = next_cow h" "tags h' = tags h" "heap_wf h'"
    using keeps by (auto simp: keeps_def)
  have cows: "tcow (ts[i := t'] ! q) = tcow (ts ! q)" if "q < length ts" for q
    using u(2) that i by (cases "q = i") auto
  have other: "tcow (ts ! q) \<noteq> ?c" if "q < length ts" "q \<noteq> i" for q
    using dist that i by (metis length_map nth_eq_iff_index_eq nth_map)
  have "tree_ok h' (ts[i := t']) q (ms[i := (ms ! i)(k \<mapsto> v)] ! q)" if q: "q < length ts" for q
  proof (cases "q = i")
    case True
    have "cows g' \<subseteq> {..<next_cow h'}" using u(6) g(4) c same(1) by auto
    moreover have "tcow (ts[i := t'] ! j) \<notin> cows g'" if "j < length ts" "j \<noteq> i" for j
      using u(6) g(5) [OF that] other [OF that] cows [OF that(1)] by auto
    ultimately show ?thesis
      using u(3-5) g(3) i len True by (auto simp: tree_ok_def)
  next
    case False
    have "tree_ok h' (ts[i := t']) q (ms ! q)"
    proof (rule tree_ok_frame [OF ok [OF q], of i])
      show "\<And>g. rep (nodes h) (root (ts ! q)) g \<Longrightarrow> ?c \<notin> cows g \<Longrightarrow>
          rep (nodes h') (root (ts[i := t'] ! q)) g"
        using rep_keeps_cow keeps False by auto
    qed (use False i same cows in auto)
    then show ?thesis using False by simp
  qed
  moreover have "map tcow (ts[i := t']) = map tcow ts"
    using cows by (auto intro: nth_equalityI)
  moreover have "\<forall>t \<in> set (ts[i := t']). tcow t < next_cow h'"
    using s u(2) c same(1) by (auto simp: cow_sim_def dest!: set_update_subset_insert [THEN subsetD])
  ultimately have "cow_sim (h', ts[i := t']) (ms[i := (ms ! i)(k \<mapsto> v)])"
    using s same dist len by (simp add: cow_sim_def)
  then show ?thesis using u(1) by blast
qed

lemma cow_sim_clone:
  assumes s: "cow_sim (h, ts) ms" and i: "i < length ts"
  shows "\<exists>t1 t2 h'. clone (ts ! i) h = Some (t1, t2, h') \<and>
           cow_sim (h', ts[i := t1] @ [t2]) (ms @ [ms ! i])"
proof -
  let ?c = "next_cow h"
  have len: "length ms = length ts" using s by (simp add: cow_sim_def)
  obtain tag where tag: "tags h (tcow (ts ! i)) = Some tag"
    using s i by (fastforce simp: cow_sim_def)
  let ?t1 = "(ts ! i)\<lparr>tcow := ?c\<rparr>" and ?t2 = "(ts ! i)\<lparr>tcow := ?c + 1\<rparr>"
  let ?h = "h\<lparr>tags := (tags h)(?c \<mapsto> tag, ?c + 1 \<mapsto> tag), next_cow := ?c + 2\<rparr>"
  let ?ts = "ts[i := ?t1] @ [?t2]"
  have cl: "clone (ts ! i) h = Some (?t1, ?t2, ?h)"
    using tag by (simp add: clone_def alloc_cow_def)
  have low: "\<And>q. q < length ts \<Longrightarrow> tcow (ts ! q) < ?c" using s by (simp add: cow_sim_def)
  have cows: "tcow (?ts ! q) = (if q = length ts then ?c + 1 else if q = i then ?c else tcow (ts ! q))"
    if "q < Suc (length ts)" for q
    using that i by (auto simp: nth_append nth_list_update)
  have dist: "distinct (map tcow ?ts)"
  proof (rule distinct_conv_nth [THEN iffD2], intro allI impI)
    fix p q assume pq: "p < length (map tcow ?ts)" "q < length (map tcow ?ts)" "p \<noteq> q"
    have "distinct (map tcow ts)" using s by (simp add: cow_sim_def)
    then have "tcow (ts ! p) \<noteq> tcow (ts ! q)" if "p < length ts" "q < length ts"
      using that pq(3) by (metis length_map nth_eq_iff_index_eq nth_map)
    moreover have "p < Suc (length ts)" "q < Suc (length ts)" using pq by simp_all
    ultimately have "tcow (?ts ! p) \<noteq> tcow (?ts ! q)"
      unfolding cows [OF \<open>p < Suc (length ts)\<close>] cows [OF \<open>q < Suc (length ts)\<close>]
      using low [of p] low [of q] pq by auto
    moreover have "p < length ?ts" "q < length ?ts" using pq by simp_all
    ultimately show "map tcow ?ts ! p \<noteq> map tcow ?ts ! q" by (metis nth_map)
  qed
  have "tree_ok ?h ?ts q ((ms @ [ms ! i]) ! q)" if q: "q < Suc (length ts)" for q
  proof -
    let ?q = "if q = length ts then i else q"
    have ok: "tree_ok h ts ?q (ms ! ?q)" using s i q by (auto simp: cow_sim_def)
    then obtain g where g: "rep (nodes h) (root (ts ! ?q)) g" "bst g" "glook g = ms ! ?q"
      "cows g \<subseteq> {..<?c}" "\<And>j. j < length ts \<Longrightarrow> j \<noteq> ?q \<Longrightarrow> tcow (ts ! j) \<notin> cows g"
      unfolding tree_ok_def by blast
    have root: "root (?ts ! q) = root (ts ! ?q)"
      using q i by (auto simp: nth_append nth_list_update)
    have "tcow (?ts ! j) \<notin> cows g" if "j < Suc (length ts)" "j \<noteq> q" for j
      using cows [OF that(1)] that g(4) g(5) [of j] i by (auto split: if_splits)
    moreover have "(ms @ [ms ! i]) ! q = ms ! ?q" using q len by (auto simp: nth_append)
    ultimately show ?thesis
      using g root unfolding tree_ok_def by (intro exI [of _ g]) auto
  qed
  moreover have "\<forall>t \<in> set ?ts. tcow t < next_cow ?h"
  proof
    fix t assume "t \<in> set ?ts"
    then obtain q where q: "q < Suc (length ts)" "t = ?ts ! q"
      by (metis in_set_conv_nth length_append_singleton length_list_update)
    then show "tcow t < next_cow ?h" using cows [OF q(1)] low [of q] by auto
  qed
  moreover have "\<forall>c. tags ?h c \<noteq> None \<longleftrightarrow> c < next_cow ?h"
  proof
    fix c
    have "tags h c \<noteq> None \<longleftrightarrow> c < ?c" using s by (simp add: cow_sim_def)
    then show "tags ?h c \<noteq> None \<longleftrightarrow> c < next_cow ?h" by (cases "c = ?c"; cases "c = ?c + 1") auto
  qed
  moreover have "heap_wf ?h" using s by (simp add: cow_sim_def heap_wf_def)
  moreover have "length (ms @ [ms ! i]) = length ?ts" "length ?ts = Suc (length ts)" using len by simp_all
  ultimately have "cow_sim (?h, ?ts) (ms @ [ms ! i])"
    using dist unfolding cow_sim_def prod.case by (intro conjI) (simp_all only: HOL.simp_thms, blast+)
  then show ?thesis using cl by blast
qed

lemma cow_sim_op:
  "cow_sim s ms \<Longrightarrow> rel_option cow_sim (run_op op s) (spec_op op ms)"
proof (cases op)
  case (Clone i)
  assume s: "cow_sim s ms"
  obtain h ts where "s = (h, ts)" by (cases s)
  moreover from this s have "length ms = length ts" by (simp add: cow_sim_def)
  ultimately show ?thesis
    using cow_sim_clone [of h ts ms i] s Clone by (cases "i < length ts") (auto simp: run_op_def)
next
  case (Upsert i k v)
  assume s: "cow_sim s ms"
  obtain h ts where "s = (h, ts)" by (cases s)
  moreover from this s have "length ms = length ts" by (simp add: cow_sim_def)
  ultimately show ?thesis
    using cow_sim_upsert [of h ts ms i k v] s Upsert by (cases "i < length ts") (auto simp: run_op_def)
qed

lemma cow_sim_ops: "cow_sim s ms \<Longrightarrow> rel_option cow_sim (run_ops ops s) (spec_ops ops ms)"
proof (induction ops arbitrary: s ms)
  case Nil
  then show ?case by simp
next
  case (Cons op ops)
  with cow_sim_op [OF Cons.prems, of op] show ?case
    by (cases "run_op op s"; cases "spec_op op ms") auto
qed

section \<open>One tree as a keyed store\<close>

definition cow_get :: "tree \<times> heap \<Rightarrow> int \<Rightarrow> int option" where
  "cow_get s k = Option.bind (tree_get (snd s) (fst s) k) id"

definition cow_put :: "int \<Rightarrow> int \<Rightarrow> tree \<times> heap \<Rightarrow> tree \<times> heap" where
  "cow_put k v s = (case upsert k v (fst s) (snd s) of None \<Rightarrow> s | Some s' \<Rightarrow> s')"

definition cow_wf :: "tree \<times> heap \<Rightarrow> bool" where
  "cow_wf s = (heap_wf (snd s) \<and> (\<exists>g. rep (nodes (snd s)) (root (fst s)) g \<and> bst g))"

lemma cow_put_rep:
  assumes "heap_wf h" "rep (nodes h) (root t) g" "bst g"
  obtains t' h' g' where "cow_put k v (t, h) = (t', h')" "heap_wf h'" "rep (nodes h') (root t') g'"
    "bst g'" "glook g' = (glook g)(k \<mapsto> v)"
  using upsert_correct [OF assms, of k v] by (auto simp: cow_put_def keeps_def)

interpretation cow_kv: keyed_store cow_get cow_put cow_wf
proof
  fix s k v assume "cow_wf s"
  then obtain t h g where s: "s = (t, h)" "heap_wf h" "rep (nodes h) (root t) g" "bst g"
    by (cases s) (auto simp: cow_wf_def)
  from cow_put_rep [OF s(2-4), of k v] obtain t' h' g' where
    p: "cow_put k v (t, h) = (t', h')" "heap_wf h'" "rep (nodes h') (root t') g'" "bst g'"
       "glook g' = (glook g)(k \<mapsto> v)" .
  have get: "rep (nodes h) (root t) g \<Longrightarrow> cow_get (t, h) = glook g" for t h g
    by (auto simp: cow_get_def tree_get_def get_from_rep fun_eq_iff)
  show "cow_get (cow_put k v s) = (cow_get s)(k \<mapsto> v)"
    using get [OF p(3)] get [OF s(3)] p(1,5) s(1) by simp
  show "cow_wf (cow_put k v s)"
    using p s(1) by (auto simp: cow_wf_def)
qed

text \<open>
  \<open>main\<close>: what its comparisons print. A tree pointer is dereferenced by the code where the option is
  opened here. The last lines of \<open>main\<close>, on a \<open>pair\<close> of its own, are \<open>pair_demo\<close> below.
\<close>

definition child :: "(node \<Rightarrow> nat option) \<Rightarrow> heap \<Rightarrow> tree \<Rightarrow> nat option option" where
  "child side h t = do { a \<leftarrow> root t; n \<leftarrow> nodes h a; Some (side n) }"

definition cow_main :: "(bool list \<times> int option list) option" where
  "cow_main = do {
     let (origin, h) = new_tree ''origin-cow'' empty_heap;
     (origin, h) \<leftarrow> upsert 10 100 origin h;
     (origin, h) \<leftarrow> upsert 5 50 origin h;
     (origin, h) \<leftarrow> upsert 15 150 origin h;
     (origin, copy, h) \<leftarrow> clone origin h;
     let root0 = (root origin = root copy);
     (copy, h) \<leftarrow> upsert 5 500 copy h;
     let root1 = (root origin = root copy);
     ol \<leftarrow> child left h origin; cl \<leftarrow> child left h copy;
     orr \<leftarrow> child right h origin; crr \<leftarrow> child right h copy;
     v1 \<leftarrow> tree_get h origin 5; v2 \<leftarrow> tree_get h copy 5;
     (origin, h) \<leftarrow> upsert 15 1500 origin h;
     v3 \<leftarrow> tree_get h origin 15; v4 \<leftarrow> tree_get h copy 15;
     Some ([root0, root1, ol = cl, orr = crr], [v1, v2, v3, v4])
   }"

lemmas cow_eval = cow_main_def new_tree_def alloc_cow_def alloc_node_def empty_heap_def upsert_def
  upsert_node.simps mutable_for_def write_node_def leaf_node_def clone_def child_def tree_get_def
  get_from.simps

section \<open>Properties\<close>

text \<open>
  C2. Refinement of the whole family. After any sequence of \<open>Clone\<close> and \<open>Upsert\<close> calls on a tree and
  its clones, in any order, the code neither dereferences nil nor loops, and every \<open>Get\<close> on every
  tree returns what independent maps would: a write to one tree is never seen by another, although
  their nodes are shared.
\<close>

theorem cow_refines:
  "map_option view (run_ops ops (single_tree tag)) =
     map_option (map (\<lambda>m k. Some (m k))) (spec_ops ops [Map.empty])"
  using cow_sim_ops [OF cow_sim_init, of ops tag]
  by (cases "run_ops ops (single_tree tag)"; cases "spec_ops ops [Map.empty]") (auto simp: cow_sim_view)

text \<open>
  The walk through of \<open>main\<close>. After \<open>Clone\<close> both trees have the same root; a write to the clone
  gives it a root and a left child of its own while the right child stays shared; each tree then
  reads its own values (50 and 500, then 1500 and 150).
\<close>

lemma cow_main_prints:
  "cow_main = Some ([True, False, False, True], [Some 50, Some 500, Some 1500, Some 150])"
  by (simp add: cow_eval)

text \<open>
  The line of \<open>printPointers\<close>: the tag, the context and the addresses. The code guards the children by a
  test of the root, but prints the root's context in any case: on an empty tree it dereferences nil.
\<close>

record pointer_line =
  line_tag :: string
  line_cow :: nat
  line_root :: nat
  line_root_cow :: nat
  line_left :: "nat option"
  line_right :: "nat option"

definition print_pointers :: "heap \<Rightarrow> tree \<Rightarrow> pointer_line option" where
  "print_pointers h t = do {
     tag \<leftarrow> tags h (tcow t);
     a \<leftarrow> root t;
     n \<leftarrow> nodes h a;
     Some \<lparr>line_tag = tag, line_cow = tcow t, line_root = a, line_root_cow = ncow n, line_left = left n, line_right = right n\<rparr>
   }"

lemma print_pointers_of_new_tree: "(case new_tree tag h of (t, h') \<Rightarrow> print_pointers h' t) = None"
  by (simp add: new_tree_def print_pointers_def alloc_cow_def)

text \<open>
  The end of \<open>main\<close>: a pair of its own, its copies as values, copies of the pointer, and the addresses of the
  two copies, which are variables of their own (addresses 1 and 2 beside 0).
\<close>

record key_pair =
  pair_key :: int
  pair_value :: int

definition pair_demo :: "string list" where
  "pair_demo =
     (let p = 0 :: nat; cell = \<lparr>pair_key = 1, pair_value = 100\<rparr>;
          (p1, p2) = (cell, cell);
          (pp1, pp2) = (p, p);
          (cp1, cp2) = (1 :: nat, 2)
      in [if p1 = p2 then ''cp1 == cp2'' else ''cp1 != cp2'',
          if pp1 = pp2 then ''pp1 == pp2'' else ''pp1 != pp2'',
          if cp1 = cp2 then ''cp1 == cp2'' else ''cp1 != cp2''])"

lemma pair_demo_prints: "pair_demo = [''cp1 == cp2'', ''pp1 == pp2'', ''cp1 != cp2'']"
  by (simp add: pair_demo_def)

end
