(* ===== verification/PriorityQueue.thy ===== *)
theory PriorityQueue
  imports GoPrelude
begin

text \<open>
  The priority queue of \<open>priority-queue/main.go\<close>: a slice of pointers to items that know their own
  index, driven by \<open>container/heap\<close>. The five methods of \<open>heap.Interface\<close> are the repository's; \<open>up\<close>,
  \<open>down\<close>, \<open>Init\<close>, \<open>Push\<close>, \<open>Pop\<close> and \<open>Fix\<close> are the library's loops over them.
\<close>

section \<open>State and the methods of heap.Interface\<close>

record item =
  ivalue :: string
  priority :: int
  index :: int

record pqueue =
  q :: "nat list"            \<comment> \<open>the slice of pointers\<close>
  items :: "nat \<Rightarrow> item"      \<comment> \<open>the objects pointed to\<close>

definition pq_len :: "pqueue \<Rightarrow> nat" where
  "pq_len s = length (q s)"

definition prio :: "pqueue \<Rightarrow> nat \<Rightarrow> int" where
  "prio s i = priority (items s (q s ! i))"

definition pq_less :: "pqueue \<Rightarrow> nat \<Rightarrow> nat \<Rightarrow> bool" where
  "pq_less s i j = (prio s i > prio s j)"

definition set_index :: "nat \<Rightarrow> int \<Rightarrow> pqueue \<Rightarrow> pqueue" where
  "set_index p i s = s\<lparr>items := (items s)(p := (items s p)\<lparr>index := i\<rparr>)\<rparr>"

definition pq_swap :: "nat \<Rightarrow> nat \<Rightarrow> pqueue \<Rightarrow> pqueue" where
  "pq_swap i j s =
     (let s1 = s\<lparr>q := (q s)[i := q s ! j, j := q s ! i]\<rparr>;
          s2 = set_index (q s1 ! i) (int i) s1
      in set_index (q s2 ! j) (int j) s2)"

definition pq_push :: "nat \<Rightarrow> pqueue \<Rightarrow> pqueue" where
  "pq_push p s = (let s1 = set_index p (int (length (q s))) s in s1\<lparr>q := q s1 @ [p]\<rparr>)"

definition pq_pop :: "pqueue \<Rightarrow> nat \<times> pqueue" where
  "pq_pop s = (let p = last (q s) in (p, (set_index p (-1) s)\<lparr>q := butlast (q s)\<rparr>))"

section \<open>container/heap\<close>

function sift_up :: "nat \<Rightarrow> pqueue \<Rightarrow> pqueue" where
  "sift_up j s =
     (let i = (j - 1) div 2
      in if i = j \<or> \<not> pq_less s j i then s else sift_up i (pq_swap i j s))"
  by pat_completeness auto
termination
  by (relation "measure fst") auto

text \<open>The result is the queue and the final position of the element that started at \<open>i\<close>.\<close>

function sift_down :: "nat \<Rightarrow> nat \<Rightarrow> pqueue \<Rightarrow> nat \<times> pqueue" where
  "sift_down i n s =
     (let j1 = 2 * i + 1
      in if j1 \<ge> n then (i, s)
         else (let j2 = j1 + 1; j = (if j2 < n \<and> pq_less s j2 j1 then j2 else j1)
               in if \<not> pq_less s j i then (i, s) else sift_down j n (pq_swap i j s)))"
  by pat_completeness auto
termination
  by (relation "measure (\<lambda>(i, n, s). n - i)") (auto simp: Let_def split: if_splits)

declare sift_up.simps [simp del] sift_down.simps [simp del]

fun init_from :: "nat \<Rightarrow> nat \<Rightarrow> pqueue \<Rightarrow> pqueue" where
  "init_from 0 n s = s"
| "init_from (Suc i) n s = init_from i n (snd (sift_down i n s))"

definition heap_init :: "pqueue \<Rightarrow> pqueue" where
  "heap_init s = init_from (pq_len s div 2) (pq_len s) s"

definition heap_push :: "nat \<Rightarrow> pqueue \<Rightarrow> pqueue" where
  "heap_push p s = (let s1 = pq_push p s in sift_up (pq_len s1 - 1) s1)"

text \<open>On an empty queue the swap of positions 0 and -1 panics.\<close>

definition heap_pop :: "pqueue \<Rightarrow> (nat \<times> pqueue) option" where
  "heap_pop s =
     (if pq_len s = 0 then None
      else (let n = pq_len s - 1 in Some (pq_pop (snd (sift_down 0 n (pq_swap 0 n s))))))"

text \<open>
  A negative position leaves both loops at once (\<open>2 * i + 1\<close> is negative, and -1 is its own parent);
  one beyond the end makes \<open>up\<close> read out of range, except position 0 of an empty queue.
\<close>

definition heap_fix :: "int \<Rightarrow> pqueue \<Rightarrow> pqueue option" where
  "heap_fix z s =
     (let i = nat z
      in if z < 0 then (if z = -1 then Some s else None)
         else if pq_len s \<le> i then (if i = 0 then Some s else None)
         else (let (i', s') = sift_down i (pq_len s) s
               in if i' > i then Some s' else Some (sift_up i s')))"

definition pq_update :: "nat \<Rightarrow> string \<Rightarrow> int \<Rightarrow> pqueue \<Rightarrow> pqueue option" where
  "pq_update p v pr s =
     heap_fix (index (items s p))
       (s\<lparr>items := (items s)(p := (items s p)\<lparr>ivalue := v, priority := pr\<rparr>)\<rparr>)"

section \<open>Heaps with a hole\<close>

text \<open>
  \<open>f\<close> gives the priority at a position. \<open>edges\<close> says that every edge whose parent is at or after \<open>k\<close> is
  ordered, except those the predicate \<open>X\<close> excuses; \<open>bridge\<close> that the children of \<open>i\<close> are also ordered
  below the parent of \<open>i\<close>.
\<close>

definition parent :: "nat \<Rightarrow> nat" where
  "parent j = (j - 1) div 2"

definition edges :: "nat \<Rightarrow> (nat \<Rightarrow> bool) \<Rightarrow> (nat \<Rightarrow> int) \<Rightarrow> nat \<Rightarrow> bool" where
  "edges k X f n = (\<forall>j < n. 0 < j \<longrightarrow> k \<le> parent j \<longrightarrow> \<not> X j \<longrightarrow> f j \<le> f (parent j))"

definition bridge :: "nat \<Rightarrow> nat \<Rightarrow> (nat \<Rightarrow> int) \<Rightarrow> nat \<Rightarrow> bool" where
  "bridge k i f n = (0 < i \<longrightarrow> k \<le> parent i \<longrightarrow> (\<forall>j < n. 0 < j \<longrightarrow> parent j = i \<longrightarrow> f j \<le> f (parent i)))"

abbreviation heap_ordered :: "(nat \<Rightarrow> int) \<Rightarrow> nat \<Rightarrow> bool" where
  "heap_ordered f n \<equiv> edges 0 (\<lambda>_. False) f n"

definition fswap :: "nat \<Rightarrow> nat \<Rightarrow> (nat \<Rightarrow> int) \<Rightarrow> nat \<Rightarrow> int" where
  "fswap i j f = f(i := f j, j := f i)"

lemma parent_less: "0 < j \<Longrightarrow> parent j < j"
  by (auto simp: parent_def)

lemma parent_child: "0 < j \<Longrightarrow> (parent j = i) = (j = 2 * i + 1 \<or> j = 2 * i + 2)"
  by (auto simp: parent_def)

lemma down_step:
  assumes e: "edges k (\<lambda>j. parent j = i) f n" and b: "bridge k i f n" and k: "k \<le> i"
    and c: "c < n" "0 < c" "parent c = i" and less: "f i < f c"
    and big: "\<And>j. j < n \<Longrightarrow> 0 < j \<Longrightarrow> parent j = i \<Longrightarrow> f j \<le> f c"
  shows "edges k (\<lambda>j. parent j = c) (fswap i c f) n \<and> bridge k c (fswap i c f) n"
proof
  have ci: "i < c" using c parent_less by blast
  show "edges k (\<lambda>j. parent j = c) (fswap i c f) n"
    unfolding edges_def
  proof (intro allI impI)
    fix j assume j: "j < n" "0 < j" "k \<le> parent j" "parent j \<noteq> c"
    consider "parent j = i" | "j = i" | "parent j \<noteq> i" "j \<noteq> i" by blast
    then show "fswap i c f j \<le> fswap i c f (parent j)"
    proof cases
      case 1
      then show ?thesis using big [OF j(1,2)] less ci parent_less [OF j(2)] by (auto simp: fswap_def)
    next
      case 2
      then have "f c \<le> f (parent i)" using b c j by (auto simp: bridge_def)
      then show ?thesis using 2 ci parent_less [OF j(2)] by (auto simp: fswap_def)
    next
      case 3
      moreover have "j \<noteq> c" using 3 c by auto
      ultimately show ?thesis using e j by (auto simp: fswap_def edges_def)
    qed
  qed
  show "bridge k c (fswap i c f) n"
    unfolding bridge_def
  proof (intro allI impI)
    fix j assume j: "j < n" "0 < j" "parent j = c"
    then have "f j \<le> f c" using e k ci by (auto simp: edges_def)
    then show "fswap i c f j \<le> fswap i c f (parent c)"
      using j c ci parent_less [OF j(2)] by (auto simp: fswap_def)
  qed
qed

lemma up_step:
  assumes e: "edges 0 (\<lambda>k. k = j) f n" and b: "bridge 0 j f n"
    and j: "j < n" "0 < j" and less: "f (parent j) < f j"
  shows "edges 0 (\<lambda>k. k = parent j) (fswap (parent j) j f) n \<and>
         bridge 0 (parent j) (fswap (parent j) j f) n"
proof
  let ?i = "parent j"
  have ij: "?i < j" using j parent_less by blast
  show "edges 0 (\<lambda>k. k = ?i) (fswap ?i j f) n"
    unfolding edges_def
  proof (intro allI impI)
    fix x assume x: "x < n" "0 < x" "x \<noteq> ?i"
    consider "x = j" | "x \<noteq> j" "parent x = ?i" | "x \<noteq> j" "parent x = j" | "x \<noteq> j" "parent x \<noteq> ?i" "parent x \<noteq> j"
      by blast
    then show "fswap ?i j f x \<le> fswap ?i j f (parent x)"
    proof cases
      case 1
      then show ?thesis using ij less by (auto simp: fswap_def)
    next
      case 2
      then have "f x \<le> f ?i" using e x by (auto simp: edges_def)
      then show ?thesis using 2 x ij less by (auto simp: fswap_def)
    next
      case 3
      then have "f x \<le> f ?i" using b x j by (auto simp: bridge_def)
      then show ?thesis using 3 x ij by (auto simp: fswap_def)
    next
      case 4
      then show ?thesis using e x by (auto simp: fswap_def edges_def)
    qed
  qed
  show "bridge 0 ?i (fswap ?i j f) n"
    unfolding bridge_def
  proof (intro allI impI)
    fix x assume i: "0 < ?i" and x: "x < n" "0 < x" "parent x = ?i"
    have up: "f ?i \<le> f (parent ?i)" using e i ij j by (auto simp: edges_def)
    moreover have "x \<noteq> j \<Longrightarrow> f x \<le> f ?i" using e x by (auto simp: edges_def)
    moreover have "parent ?i < ?i" "x \<noteq> ?i" using parent_less i x(2,3) parent_less [OF x(2)] by auto
    ultimately show "fswap ?i j f x \<le> fswap ?i j f (parent ?i)"
      using ij by (auto simp: fswap_def)
  qed
qed

section \<open>What the loops keep\<close>

text \<open>\<open>coherent\<close>: the pointers are distinct and every item in the slice knows its position.\<close>

definition coherent :: "pqueue \<Rightarrow> bool" where
  "coherent s = (distinct (q s) \<and> (\<forall>i < length (q s). index (items s (q s ! i)) = int i))"

text \<open>The same items with the same values and priorities, at possibly other positions.\<close>

definition reordered :: "pqueue \<Rightarrow> pqueue \<Rightarrow> bool" where
  "reordered s s' =
     (mset (q s') = mset (q s) \<and>
      (\<forall>p. ivalue (items s' p) = ivalue (items s p) \<and> priority (items s' p) = priority (items s p)) \<and>
      (\<forall>p. p \<notin> set (q s) \<longrightarrow> items s' p = items s p))"

lemma reordered_refl [simp]: "reordered s s"
  by (simp add: reordered_def)

lemma reordered_trans: "reordered s t \<Longrightarrow> reordered t u \<Longrightarrow> reordered s u"
  by (auto simp: reordered_def dest: mset_eq_setD)

lemma reordered_len: "reordered s t \<Longrightarrow> length (q t) = length (q s)"
  by (auto simp: reordered_def dest: mset_eq_length)

lemma mset_list_swap:
  assumes "i < length xs" "j < length xs"
  shows "mset (xs[i := xs ! j, j := xs ! i]) = mset xs"
  using mset_swap [OF assms(2,1)] .

lemma swap_ok:
  assumes "coherent s" "i < length (q s)" "j < length (q s)"
  shows "coherent (pq_swap i j s)" "reordered s (pq_swap i j s)"
    "\<And>k. k < length (q s) \<Longrightarrow> prio (pq_swap i j s) k = fswap i j (prio s) k"
    "\<And>k. k < length (q s) \<Longrightarrow> k \<noteq> i \<Longrightarrow> k \<noteq> j \<Longrightarrow> q (pq_swap i j s) ! k = q s ! k"
    "q (pq_swap i j s) ! j = q s ! i" "q (pq_swap i j s) ! i = q s ! j"
proof -
  let ?q = "(q s)[i := q s ! j, j := q s ! i]"
  have d: "distinct (q s)" using assms(1) by (simp add: coherent_def)
  have m: "mset ?q = mset (q s)" by (rule mset_list_swap [OF assms(2,3)])
  have d': "distinct ?q" using d m mset_eq_imp_distinct_iff by blast
  have qs: "q (pq_swap i j s) = ?q" by (simp add: pq_swap_def set_index_def Let_def)
  have pri: "priority (items (pq_swap i j s) p) = priority (items s p)"
    "ivalue (items (pq_swap i j s) p) = ivalue (items s p)" for p
    by (simp_all add: pq_swap_def set_index_def Let_def)
  have idx: "index (items (pq_swap i j s) p) =
      (if p = ?q ! j then int j else if p = ?q ! i then int i else index (items s p))" for p
    by (simp add: pq_swap_def set_index_def Let_def)
  show "coherent (pq_swap i j s)"
    unfolding coherent_def qs
  proof (intro conjI allI impI)
    fix k assume k: "k < length ?q"
    have inj: "a < length ?q \<Longrightarrow> (?q ! k = ?q ! a) = (k = a)" for a
      using d' k by (simp only: nth_eq_iff_index_eq)
    have "?q ! k = q s ! k" if "k \<noteq> i" "k \<noteq> j" using that by simp
    then show "index (items (pq_swap i j s) (?q ! k)) = int k"
      unfolding idx using inj [of i] inj [of j] assms k by (auto simp: coherent_def)
  qed (rule d')
  have "items (pq_swap i j s) p = items s p" if "p \<notin> set (q s)" for p
  proof -
    have "p \<noteq> q s ! i" "p \<noteq> q s ! j" using that assms(2,3) by auto
    then show ?thesis using assms(2,3)
      by (auto simp: pq_swap_def set_index_def Let_def nth_list_update)
  qed
  then show "reordered s (pq_swap i j s)"
    using m qs pri by (simp add: reordered_def)
  show "prio (pq_swap i j s) k = fswap i j (prio s) k" if "k < length (q s)" for k
    using that assms(2,3) by (auto simp: prio_def pri qs fswap_def nth_list_update)
  show "q (pq_swap i j s) ! k = q s ! k" if "k < length (q s)" "k \<noteq> i" "k \<noteq> j" for k
    using that qs by simp
  show "q (pq_swap i j s) ! j = q s ! i" "q (pq_swap i j s) ! i = q s ! j"
    using qs assms(2,3) by (auto simp: nth_list_update)
qed

lemma edges_cong:
  "(\<And>j. j < n \<Longrightarrow> f j = g j) \<Longrightarrow> edges k X f n = edges k X g n"
  unfolding edges_def using parent_less by (metis order.strict_trans)

lemma bridge_cong:
  "i < n \<Longrightarrow> (\<And>j. j < n \<Longrightarrow> f j = g j) \<Longrightarrow> bridge k i f n = bridge k i g n"
  unfolding bridge_def using parent_less by (metis order.strict_trans)

lemma edges_mono: "edges k X f n \<Longrightarrow> (\<And>j. X j \<Longrightarrow> Y j) \<Longrightarrow> edges k Y f n"
  by (auto simp: edges_def)

lemma sift_down_leaf: "n \<le> 2 * i + 1 \<Longrightarrow> sift_down i n s = (i, s)"
  by (subst sift_down.simps) (simp add: Let_def)

lemma sift_down_node:
  assumes "\<not> n \<le> 2 * i + 1"
    and "j = (if 2 * i + 1 + 1 < n \<and> pq_less s (2 * i + 1 + 1) (2 * i + 1) then 2 * i + 1 + 1 else 2 * i + 1)"
  shows "sift_down i n s = (if \<not> pq_less s j i then (i, s) else sift_down j n (pq_swap i j s))"
  unfolding assms(2) by (subst sift_down.simps) (use assms(1) in \<open>simp only: Let_def if_False\<close>)

text \<open>
  \<open>sift_down\<close> from a position whose subtrees are heaps: afterwards the edges from \<open>k\<close> on are ordered,
  and the positions from \<open>n\<close> on are untouched.
\<close>

lemma sift_down_ok:
  assumes "coherent s" "n \<le> length (q s)" "i < n" "k \<le> i"
    and "edges k (\<lambda>j. parent j = i) (prio s) n" "bridge k i (prio s) n"
  shows "coherent (snd (sift_down i n s)) \<and> reordered s (snd (sift_down i n s)) \<and>
    edges k (\<lambda>_. False) (prio (snd (sift_down i n s))) n \<and>
    (\<forall>x. n \<le> x \<longrightarrow> x < length (q s) \<longrightarrow> q (snd (sift_down i n s)) ! x = q s ! x) \<and>
    i \<le> fst (sift_down i n s) \<and> (fst (sift_down i n s) = i \<longrightarrow> snd (sift_down i n s) = s)"
  using assms
proof (induction i n s rule: sift_down.induct)
  case (1 i n s)
  let ?j1 = "2 * i + 1"
  show ?case
  proof (cases "n \<le> ?j1")
    case True
    then have "sift_down i n s = (i, s)" by (rule sift_down_leaf)
    moreover have "edges k (\<lambda>_. False) (prio s) n"
      using "1.prems"(5) True by (auto simp: edges_def parent_child)
    ultimately show ?thesis using "1.prems" by simp
  next
    case False
    obtain j where jdef: "j = (if ?j1 + 1 < n \<and> pq_less s (?j1 + 1) ?j1 then ?j1 + 1 else ?j1)"
      by blast
    have j: "j < n" "0 < j" "parent j = i" using False jdef by (auto simp: parent_def)
    have big: "prio s x \<le> prio s j" if "x < n" "0 < x" "parent x = i" for x
      using that jdef by (auto simp: parent_child pq_less_def)
    show ?thesis
    proof (cases "pq_less s j i")
      case less: False
      have "sift_down i n s = (i, s)"
        using sift_down_node [OF False jdef] less by simp
      moreover have "edges k (\<lambda>_. False) (prio s) n"
        using "1.prems"(5) big less by (fastforce simp: edges_def pq_less_def)
      ultimately show ?thesis using "1.prems" by simp
    next
      case less: True
      let ?s = "pq_swap i j s"
      have sd: "sift_down i n s = sift_down j n ?s"
        using sift_down_node [OF False jdef] less by simp
      have len: "i < length (q s)" "j < length (q s)" using "1.prems"(2,3) j(1) by simp_all
      note sw = swap_ok [OF "1.prems"(1) len]
      have l: "length (q ?s) = length (q s)" using sw(2) by (rule reordered_len)
      have f: "prio ?s x = fswap i j (prio s) x" if "x < n" for x
        using sw(3) that "1.prems"(2) by simp
      have step: "edges k (\<lambda>x. parent x = j) (fswap i j (prio s)) n \<and>
          bridge k j (fswap i j (prio s)) n"
        by (rule down_step [OF "1.prems"(5,6,4) j _ big]) (use less in \<open>simp add: pq_less_def\<close>)
      have e: "edges k (\<lambda>x. parent x = j) (prio ?s) n" "bridge k j (prio ?s) n"
        using step edges_cong [of n "prio ?s"] bridge_cong [OF j(1), of "prio ?s"] f by blast+
      have ij: "i < j" using jdef by simp
      have IH: "coherent (snd (sift_down j n ?s)) \<and> reordered ?s (snd (sift_down j n ?s)) \<and>
        edges k (\<lambda>_. False) (prio (snd (sift_down j n ?s))) n \<and>
        (\<forall>x. n \<le> x \<longrightarrow> x < length (q ?s) \<longrightarrow> q (snd (sift_down j n ?s)) ! x = q ?s ! x) \<and>
        j \<le> fst (sift_down j n ?s) \<and> (fst (sift_down j n ?s) = j \<longrightarrow> snd (sift_down j n ?s) = ?s)"
        using "1.IH" [OF refl False refl jdef _ sw(1) _ j(1) _ e] less l "1.prems"(2,4) ij by simp
      have fix_hi: "q ?s ! x = q s ! x" if "n \<le> x" "x < length (q s)" for x
        by (rule sw(4)) (use that j(1) "1.prems"(3) in auto)
      have hi: "q (snd (sift_down j n ?s)) ! x = q s ! x" if "n \<le> x" "x < length (q s)" for x
        using IH fix_hi [OF that] that l by auto
      show ?thesis
        unfolding sd using IH hi ij reordered_trans [OF sw(2)] by auto
    qed
  qed
qed

lemma sift_up_ok:
  assumes "coherent s" "j < length (q s)"
    and "edges 0 (\<lambda>x. x = j) (prio s) (length (q s))" "bridge 0 j (prio s) (length (q s))"
  shows "coherent (sift_up j s) \<and> reordered s (sift_up j s) \<and>
    heap_ordered (prio (sift_up j s)) (length (q s))"
  using assms
proof (induction j s rule: sift_up.induct)
  case (1 j s)
  let ?n = "length (q s)"
  obtain i where i: "i = (j - 1) div 2" by blast
  then have par: "i = parent j" by (simp add: parent_def)
  show ?case
  proof (cases "i = j \<or> \<not> pq_less s j i")
    case True
    then have "sift_up j s = s" using i by (subst sift_up.simps) (simp add: Let_def)
    moreover have "heap_ordered (prio s) ?n"
      using "1.prems"(3) True par parent_less [of j] by (auto simp: edges_def pq_less_def)
    ultimately show ?thesis using "1.prems"(1) by simp
  next
    case False
    let ?s = "pq_swap i j s"
    have su: "sift_up j s = sift_up i ?s"
      using False i by (subst sift_up.simps) (simp add: Let_def)
    have j0: "0 < j" using False i by (cases j) auto
    then have ij: "i < j" using parent_less par by simp
    have len: "i < ?n" "j < ?n" using ij "1.prems"(2) by simp_all
    note sw = swap_ok [OF "1.prems"(1) len]
    have l: "length (q ?s) = ?n" using sw(2) by (rule reordered_len)
    have step: "edges 0 (\<lambda>x. x = i) (fswap i j (prio s)) ?n \<and> bridge 0 i (fswap i j (prio s)) ?n"
      unfolding par
      by (rule up_step [OF "1.prems"(3,4,2) j0]) (use False par in \<open>simp add: pq_less_def\<close>)
    have e: "edges 0 (\<lambda>x. x = i) (prio ?s) ?n" "bridge 0 i (prio ?s) ?n"
      using step edges_cong [of ?n "prio ?s"] bridge_cong [OF len(1), of "prio ?s"] sw(3) by blast+
    show ?thesis
      unfolding su using "1.IH" [OF i False sw(1)] e l len reordered_trans [OF sw(2)] by simp
  qed
qed

section \<open>The operations of the library\<close>

definition pq_inv :: "pqueue \<Rightarrow> bool" where
  "pq_inv s = (coherent s \<and> heap_ordered (prio s) (length (q s)))"

lemma root_maximal:
  assumes "heap_ordered f n" "j < n"
  shows "f j \<le> f 0"
  using assms(2)
proof (induction j rule: less_induct)
  case (less j)
  show ?case
  proof (cases "j = 0")
    case False
    then have "parent j < j" using parent_less by simp
    then have "f (parent j) \<le> f 0" using less by simp
    moreover have "f j \<le> f (parent j)" using assms(1) less.prems False by (simp add: edges_def)
    ultimately show ?thesis by simp
  qed simp
qed

lemma heap_push_ok:
  assumes "pq_inv s" "p \<notin> set (q s)"
  shows "pq_inv (heap_push p s)" "mset (q (heap_push p s)) = add_mset p (mset (q s))"
    "priority (items (heap_push p s) x) = priority (items s x)"
proof -
  let ?t = "pq_push p s" and ?n = "Suc (length (q s))"
  have qt: "q ?t = q s @ [p]" by (simp add: pq_push_def set_index_def)
  have pt: "prio ?t k = prio s k" if "k < length (q s)" for k
    using that by (simp add: prio_def pq_push_def set_index_def nth_append)
  have "\<forall>i < length (q s). q s ! i \<noteq> p" using assms(2) by (auto simp: in_set_conv_nth)
  then have c: "coherent ?t"
    using assms by (auto simp: coherent_def pq_inv_def pq_push_def set_index_def nth_append less_Suc_eq)
  have "edges 0 (\<lambda>x. x = length (q s)) (prio ?t) ?n"
    unfolding edges_def
  proof (intro allI impI)
    fix j assume j: "j < ?n" "0 < j" "j \<noteq> length (q s)"
    then have "j < length (q s)" by simp
    moreover from this have "parent j < length (q s)" using parent_less [OF j(2)] by simp
    ultimately show "prio ?t j \<le> prio ?t (parent j)"
      using assms(1) j(2) by (auto simp: pt pq_inv_def edges_def)
  qed
  moreover have "bridge 0 (length (q s)) (prio ?t) ?n"
    unfolding bridge_def
  proof (intro allI impI)
    fix j assume "j < ?n" "0 < j" "parent j = length (q s)"
    then have False using parent_less [of j] by simp
    then show "prio ?t j \<le> prio ?t (parent (length (q s)))" ..
  qed
  ultimately have up: "coherent (sift_up (length (q s)) ?t) \<and> reordered ?t (sift_up (length (q s)) ?t) \<and>
      heap_ordered (prio (sift_up (length (q s)) ?t)) ?n"
    using sift_up_ok [OF c, of "length (q s)"] by (simp add: qt)
  have hp: "heap_push p s = sift_up (length (q s)) ?t"
    by (simp add: heap_push_def pq_len_def qt Let_def)
  show "pq_inv (heap_push p s)"
    using up reordered_len [of ?t] by (simp add: hp pq_inv_def qt)
  show "mset (q (heap_push p s)) = add_mset p (mset (q s))"
    using up by (simp add: hp reordered_def qt)
  show "priority (items (heap_push p s) x) = priority (items s x)"
    using up by (simp add: hp reordered_def pq_push_def set_index_def)
qed

lemma heap_pop_ok:
  assumes "pq_inv s" "q s \<noteq> []"
  obtains p t where "heap_pop s = Some (p, t)" and "p \<in> set (q s)"
    and "\<And>x. x \<in> set (q s) \<Longrightarrow> priority (items s x) \<le> priority (items s p)"
    and "pq_inv t" and "mset (q s) = add_mset p (mset (q t))" and "index (items t p) = -1"
    and "\<And>x. priority (items t x) = priority (items s x) \<and> ivalue (items t x) = ivalue (items s x)"
proof -
  let ?n = "length (q s) - 1"
  let ?s = "pq_swap 0 ?n s"
  let ?d = "snd (sift_down 0 ?n ?s)"
  have c: "coherent s" and h: "heap_ordered (prio s) (length (q s))" using assms(1) by (auto simp: pq_inv_def)
  have len: "0 < length (q s)" "?n < length (q s)" using assms(2) by (cases "q s"; simp)+
  note sw = swap_ok [OF c len]
  have l: "length (q ?s) = length (q s)" using sw(2) by (rule reordered_len)
  have d: "coherent ?d \<and> reordered ?s ?d \<and> heap_ordered (prio ?d) ?n \<and> q ?d ! ?n = q s ! 0"
  proof (cases "?n = 0")
    case True
    have "sift_down 0 ?n ?s = (0, ?s)" using True by (intro sift_down_leaf) simp
    then show ?thesis using sw True by (simp add: edges_def)
  next
    case False
    have e: "edges 0 (\<lambda>j. parent j = 0) (prio ?s) ?n"
      unfolding edges_def
    proof (intro allI impI)
      fix j assume j: "j < ?n" "0 < j" "parent j \<noteq> 0"
      then have "parent j < ?n" using parent_less [OF j(2)] by simp
      moreover have "prio s j \<le> prio s (parent j)" using h j by (simp add: edges_def)
      ultimately show "prio ?s j \<le> prio ?s (parent j)"
        using sw(3) [of j] sw(3) [of "parent j"] j len by (simp add: fswap_def)
    qed
    have "coherent ?d \<and> reordered ?s ?d \<and> heap_ordered (prio ?d) ?n \<and>
        (\<forall>x. ?n \<le> x \<longrightarrow> x < length (q ?s) \<longrightarrow> q ?d ! x = q ?s ! x)"
      using sift_down_ok [OF sw(1) _ _ _ e] False l len by (simp add: bridge_def)
    then show ?thesis using sw(5) l len by auto
  qed
  let ?p = "q s ! 0"
  have rd: "reordered s ?d" using d sw(2) by (blast intro: reordered_trans)
  have ld: "length (q ?d) = length (q s)" using rd by (rule reordered_len)
  have ne: "q ?d \<noteq> []" using ld len by (metis length_greater_0_conv)
  have last: "last (q ?d) = ?p" using d ld ne by (simp add: last_conv_nth)
  let ?t = "(set_index ?p (-1) ?d)\<lparr>q := butlast (q ?d)\<rparr>"
  have split: "q ?d = butlast (q ?d) @ [?p]" using ne last by (metis append_butlast_last_id)
  have pop: "heap_pop s = Some (?p, ?t)"
    using assms(2) last by (simp add: heap_pop_def pq_len_def pq_pop_def Let_def)
  have nth: "butlast (q ?d) ! i = q ?d ! i" if "i < ?n" for i
    using that ld by (simp add: nth_butlast)
  have np: "?p \<notin> set (butlast (q ?d))"
  proof -
    have "distinct (q ?d)" using d by (simp add: coherent_def)
    then have "distinct (butlast (q ?d) @ [?p])" by (simp only: split [symmetric])
    then show ?thesis by simp
  qed
  have ct: "coherent ?t"
    unfolding coherent_def
  proof (intro conjI allI impI)
    show "distinct (q ?t)" using d by (simp add: coherent_def distinct_butlast)
    fix i assume "i < length (q ?t)"
    then have i: "i < ?n" using ld by simp
    then have "butlast (q ?d) ! i \<noteq> ?p" using np ld by (metis length_butlast nth_mem)
    then show "index (items ?t (q ?t ! i)) = int i"
      using d i nth ld by (simp add: coherent_def set_index_def)
  qed
  have ht: "heap_ordered (prio ?t) (length (q ?t))"
    using d ld nth edges_cong [of ?n "prio ?t" "prio ?d"]
    by (simp add: prio_def set_index_def)
  show ?thesis
  proof (rule that [OF pop])
    show "?p \<in> set (q s)" using len by simp
    show "priority (items s x) \<le> priority (items s ?p)" if x: "x \<in> set (q s)" for x
    proof -
      obtain j where j: "j < length (q s)" "x = q s ! j" using x unfolding in_set_conv_nth by blast
      have "prio s j \<le> prio s 0" by (rule root_maximal [OF h j(1)])
      then show ?thesis unfolding j(2) prio_def .
    qed
    show "pq_inv ?t" using ct ht by (simp add: pq_inv_def)
    have "mset (q s) = mset (q ?d)" using rd unfolding reordered_def by argo
    also have "\<dots> = mset (butlast (q ?d) @ [?p])" by (rule arg_cong [OF split])
    finally show "mset (q s) = add_mset ?p (mset (q ?t))" by simp
    show "priority (items ?t x) = priority (items s x) \<and> ivalue (items ?t x) = ivalue (items s x)" for x
      using rd by (simp add: reordered_def set_index_def)
    show "index (items ?t ?p) = -1" by (simp add: set_index_def)
  qed
qed

lemma sift_down_stop:
  assumes "\<And>j. j < n \<Longrightarrow> 0 < j \<Longrightarrow> parent j = i \<Longrightarrow> prio s j \<le> prio s i"
  shows "sift_down i n s = (i, s)"
proof (cases "n \<le> 2 * i + 1")
  case False
  obtain j where j: "j = (if 2 * i + 1 + 1 < n \<and> pq_less s (2 * i + 1 + 1) (2 * i + 1) then 2 * i + 1 + 1
      else 2 * i + 1)" by blast
  then have "prio s j \<le> prio s i" using False by (intro assms) (auto simp: parent_def)
  then show ?thesis using sift_down_node [OF False j] by (simp add: pq_less_def)
qed (rule sift_down_leaf)

text \<open>\<open>heap.Fix\<close> after the priority at position \<open>i\<close> alone has changed.\<close>

lemma heap_fix_ok:
  assumes c: "coherent s" and i: "i < length (q s)"
    and e: "edges 0 (\<lambda>j. j = i \<or> parent j = i) (prio s) (length (q s))"
    and b: "bridge 0 i (prio s) (length (q s))"
  obtains t where "heap_fix (int i) s = Some t" "pq_inv t" "reordered s t"
proof (cases "0 < i \<and> prio s (parent i) < prio s i")
  case True
  let ?n = "length (q s)"
  have stop: "sift_down i ?n s = (i, s)"
  proof (rule sift_down_stop)
    fix j assume "j < ?n" "0 < j" "parent j = i"
    then have "prio s j \<le> prio s (parent i)" using b True by (simp add: bridge_def)
    then show "prio s j \<le> prio s i" using True by simp
  qed
  have "edges 0 (\<lambda>j. j = i) (prio s) ?n"
    unfolding edges_def
  proof (intro allI impI)
    fix j assume j: "j < ?n" "0 < j" "j \<noteq> i"
    show "prio s j \<le> prio s (parent j)"
    proof (cases "parent j = i")
      case p: True
      then have "prio s j \<le> prio s (parent i)" using b True j by (simp add: bridge_def)
      then show ?thesis using True p by simp
    next
      case False
      then show ?thesis using e j by (simp add: edges_def)
    qed
  qed
  then have "coherent (sift_up i s) \<and> reordered s (sift_up i s) \<and> heap_ordered (prio (sift_up i s)) ?n"
    using sift_up_ok [OF c i] b by simp
  then show ?thesis
    using that [of "sift_up i s"] stop i reordered_len by (simp add: heap_fix_def pq_len_def pq_inv_def)
next
  case False
  let ?n = "length (q s)" and ?d = "snd (sift_down i (length (q s)) s)"
  have "edges 0 (\<lambda>j. parent j = i) (prio s) ?n"
    using e False by (force simp: edges_def)
  then have d: "coherent ?d \<and> reordered s ?d \<and> heap_ordered (prio ?d) ?n \<and> i \<le> fst (sift_down i ?n s) \<and>
      (fst (sift_down i ?n s) = i \<longrightarrow> ?d = s)"
    using sift_down_ok [OF c order_refl i _ _ b] by simp
  show ?thesis
  proof (cases "fst (sift_down i ?n s) = i")
    case True
    have "?d = s" using d True by blast
    then have h: "heap_ordered (prio s) ?n" using d by metis
    have "bridge 0 i (prio s) ?n" by (rule b)
    then have "coherent (sift_up i s) \<and> reordered s (sift_up i s) \<and> heap_ordered (prio (sift_up i s)) ?n"
      using sift_up_ok [OF c i edges_mono [OF h]] by simp
    moreover have "sift_down i ?n s = (i, s)" using True d by (metis prod.collapse)
    ultimately show ?thesis
      using that [of "sift_up i s"] i reordered_len by (simp add: heap_fix_def pq_len_def pq_inv_def)
  next
    case moved: False
    then have "i < fst (sift_down i ?n s)" using d by simp
    then have "heap_fix (int i) s = Some ?d"
      using i by (simp add: heap_fix_def pq_len_def case_prod_beta)
    then show ?thesis
      using that d reordered_len [of s ?d] by (simp add: pq_inv_def)
  qed
qed

lemma pq_update_ok:
  assumes inv: "pq_inv s" and p: "p \<in> set (q s)"
  obtains t where "pq_update p v pr s = Some t" "pq_inv t" "mset (q t) = mset (q s)"
    "\<And>x. priority (items t x) = (if x = p then pr else priority (items s x))"
    "\<And>x. ivalue (items t x) = (if x = p then v else ivalue (items s x))"
    "\<And>x. x \<notin> set (q s) \<Longrightarrow> items t x = items s x"
proof -
  let ?n = "length (q s)"
  let ?s = "s\<lparr>items := (items s)(p := (items s p)\<lparr>ivalue := v, priority := pr\<rparr>)\<rparr>"
  obtain i where i: "i < ?n" "q s ! i = p" using p by (metis in_set_conv_nth)
  have c: "coherent s" and h: "heap_ordered (prio s) ?n" using inv by (auto simp: pq_inv_def)
  have ix: "index (items s p) = int i" using c i by (auto simp: coherent_def)
  have cs: "coherent ?s" using c by (auto simp: coherent_def)
  have pr: "prio ?s j = prio s j" if "j < ?n" "j \<noteq> i" for j
  proof -
    have "distinct (q s)" using c by (simp add: coherent_def)
    then have "q s ! j \<noteq> p" using that i by (metis nth_eq_iff_index_eq)
    then show ?thesis by (simp add: prio_def)
  qed
  have le: "prio s j \<le> prio s (parent j)" if "j < ?n" "0 < j" for j
    using h that by (simp add: edges_def)
  have e: "edges 0 (\<lambda>j. j = i \<or> parent j = i) (prio ?s) ?n"
    unfolding edges_def
  proof (intro allI impI)
    fix j assume j: "j < ?n" "0 < j" "\<not> (j = i \<or> parent j = i)"
    then have "parent j < ?n" using parent_less [OF j(2)] by simp
    then show "prio ?s j \<le> prio ?s (parent j)" using pr j le by simp
  qed
  have b: "bridge 0 i (prio ?s) ?n"
    unfolding bridge_def
  proof (intro allI impI)
    fix j assume i0: "0 < i" and j: "j < ?n" "0 < j" "parent j = i"
    then have ne: "j \<noteq> i" "parent i < i" using parent_less [OF j(2)] parent_less [OF i0] by auto
    have "prio s j \<le> prio s (parent i)" using le [OF j(1,2)] le [OF i(1) i0] j(3) by simp
    then show "prio ?s j \<le> prio ?s (parent i)" using pr ne j i(1) by simp
  qed
  obtain t where t: "heap_fix (int i) ?s = Some t" "pq_inv t" "reordered ?s t"
    using heap_fix_ok [OF cs, of i] i e b by auto
  show ?thesis
    by (rule that [of t]) (use t ix p in \<open>auto simp: pq_update_def reordered_def\<close>)
qed

lemma init_from_ok:
  assumes "coherent s" "2 * k \<le> length (q s)" "edges k (\<lambda>_. False) (prio s) (length (q s))"
  shows "coherent (init_from k (length (q s)) s) \<and> reordered s (init_from k (length (q s)) s) \<and>
    heap_ordered (prio (init_from k (length (q s)) s)) (length (q s))"
  using assms
proof (induction k arbitrary: s)
  case 0
  then show ?case by simp
next
  case (Suc k)
  let ?n = "length (q s)" and ?d = "snd (sift_down k (length (q s)) s)"
  have "edges k (\<lambda>j. parent j = k) (prio s) ?n"
    using Suc.prems(3) by (auto simp: edges_def)
  moreover have "bridge k k (prio s) ?n"
    using parent_less [of k] by (auto simp: bridge_def)
  ultimately have d: "coherent ?d \<and> reordered s ?d \<and> edges k (\<lambda>_. False) (prio ?d) ?n"
    using sift_down_ok [OF Suc.prems(1) order_refl _ order_refl, of k] Suc.prems(2) by simp
  then have "length (q ?d) = ?n" using reordered_len by blast
  then show ?case
    using Suc.IH [of ?d] d Suc.prems(2) reordered_trans [of s ?d] by simp
qed

lemma heap_init_ok:
  assumes "coherent s"
  shows "pq_inv (heap_init s) \<and> reordered s (heap_init s)"
proof -
  let ?n = "length (q s)"
  have "edges (?n div 2) (\<lambda>_. False) (prio s) ?n"
    by (auto simp: edges_def parent_def)
  then have "coherent (heap_init s) \<and> reordered s (heap_init s) \<and> heap_ordered (prio (heap_init s)) ?n"
    using init_from_ok [OF assms, of "?n div 2"] by (simp add: heap_init_def pq_len_def)
  then show ?thesis using reordered_len [of s "heap_init s"] by (simp add: pq_inv_def)
qed

section \<open>The contract of a queue with priorities\<close>

fun drains :: "('s \<Rightarrow> ('a \<times> 's) option) \<Rightarrow> 's \<Rightarrow> 'a list \<Rightarrow> bool" where
  "drains pop s [] = (pop s = None)"
| "drains pop s (x # xs) = (\<exists>t. pop s = Some (x, t) \<and> drains pop t xs)"

locale max_queue =
  fixes pop :: "'s \<Rightarrow> ('a \<times> 's) option" and contents :: "'s \<Rightarrow> 'a multiset"
    and key :: "'s \<Rightarrow> 'a \<Rightarrow> int" and inv :: "'s \<Rightarrow> bool"
  assumes pop_None: "inv s \<Longrightarrow> pop s = None \<longleftrightarrow> contents s = {#}"
    and pop_Some: "inv s \<Longrightarrow> pop s = Some (x, t) \<Longrightarrow>
      inv t \<and> contents s = add_mset x (contents t) \<and> (\<forall>y \<in># contents s. key s y \<le> key s x) \<and> key t = key s"
begin

lemma drained_contents: "inv s \<Longrightarrow> drains pop s xs \<Longrightarrow> mset xs = contents s"
proof (induction xs arbitrary: s)
  case Nil
  then show ?case by (simp add: pop_None)
next
  case (Cons x xs)
  then obtain t where t: "pop s = Some (x, t)" "drains pop t xs" by auto
  then show ?case using Cons.IH [OF _ t(2)] pop_Some [OF Cons.prems(1) t(1)] by simp
qed

lemma drained_sorted: "inv s \<Longrightarrow> drains pop s xs \<Longrightarrow> sorted_wrt (\<lambda>x y. key s x \<ge> key s y) xs"
proof (induction xs arbitrary: s)
  case Nil
  then show ?case by simp
next
  case (Cons x xs)
  then obtain t where t: "pop s = Some (x, t)" "drains pop t xs" by auto
  note pop = pop_Some [OF Cons.prems(1) t(1)]
  have "mset xs = contents t" using drained_contents pop t(2) by blast
  then have "y \<in># contents s" if "y \<in> set xs" for y
    using pop that by (metis insert_iff set_mset_add_mset_insert set_mset_mset)
  moreover have "sorted_wrt (\<lambda>x y. key s x \<ge> key s y) xs"
    using Cons.IH [of t] pop t(2) by simp
  ultimately show ?case using pop by simp
qed

end

interpretation pq: max_queue heap_pop "\<lambda>s. mset (q s)" "\<lambda>s p. priority (items s p)" pq_inv
proof
  fix s :: pqueue and x t
  assume inv: "pq_inv s"
  show "heap_pop s = None \<longleftrightarrow> mset (q s) = {#}"
    by (simp add: heap_pop_def pq_len_def Let_def)
  assume pop: "heap_pop s = Some (x, t)"
  then have "q s \<noteq> []" by (auto simp: heap_pop_def pq_len_def)
  from heap_pop_ok [OF inv this] pop
  show "pq_inv t \<and> mset (q s) = add_mset x (mset (q t)) \<and>
      (\<forall>y \<in># mset (q s). priority (items s y) \<le> priority (items s x)) \<and>
      (\<lambda>p. priority (items t p)) = (\<lambda>p. priority (items s p))"
    by (metis option.inject prod.inject set_mset_mset)
qed

section \<open>Draining and main\<close>

lemma length_swap: "length (q (pq_swap i j s)) = length (q s)"
  by (simp add: pq_swap_def set_index_def Let_def)

lemma length_sift_down: "length (q (snd (sift_down i n s))) = length (q s)"
proof (induction i n s rule: sift_down.induct)
  case (1 i n s)
  then show ?case by (subst sift_down.simps) (auto simp: Let_def length_swap)
qed

lemma heap_pop_length: "heap_pop s = Some (p, t) \<Longrightarrow> Suc (length (q t)) = length (q s)"
  by (auto simp: heap_pop_def pq_len_def pq_pop_def Let_def length_sift_down length_swap split: if_splits)

text \<open>The loop \<open>for pq.Len() > 0 { item := heap.Pop(&pq); print(item) }\<close>.\<close>

function pq_drain :: "pqueue \<Rightarrow> (string \<times> int) list" where
  "pq_drain s =
     (case heap_pop s of
        None \<Rightarrow> []
      | Some (p, t) \<Rightarrow> (ivalue (items t p), priority (items t p)) # pq_drain t)"
  by pat_completeness auto
termination
  by (relation "measure (\<lambda>s. length (q s))") (auto dest: heap_pop_length)

declare pq_drain.simps [simp del]

lemma pq_drain_drains:
  assumes "pq_inv s"
  obtains ps where "drains heap_pop s ps" "pq_drain s = map (\<lambda>p. (ivalue (items s p), priority (items s p))) ps"
  using assms
proof (induction "length (q s)" arbitrary: s thesis)
  case 0
  then have "heap_pop s = None" by (simp add: heap_pop_def pq_len_def)
  then show ?case by (intro "0.prems"(1) [of "[]"]) (simp_all add: pq_drain.simps [of s])
next
  case (Suc n)
  then have "q s \<noteq> []" by auto
  then obtain p t where pt: "heap_pop s = Some (p, t)" "pq_inv t"
      "\<And>x. priority (items t x) = priority (items s x) \<and> ivalue (items t x) = ivalue (items s x)"
    using heap_pop_ok [OF Suc.prems(2)] by metis
  then have "n = length (q t)" using heap_pop_length [OF pt(1)] Suc.hyps(2) by simp
  then obtain ps where "drains heap_pop t ps" "pq_drain t = map (\<lambda>p. (ivalue (items t p), priority (items t p))) ps"
    using Suc.hyps(1) pt(2) by blast
  then show ?case
    using pt by (intro Suc.prems(1) [of "p # ps"]) (simp_all add: pq_drain.simps [of s])
qed

definition pq_main :: "(string \<times> int) list option" where
  "pq_main =
     (let objects = (\<lambda>_. \<lparr>ivalue = [], priority = 0, index = 0\<rparr>)
            (0 := \<lparr>ivalue = ''item1'', priority = 1, index = 0\<rparr>,
             1 := \<lparr>ivalue = ''item2'', priority = 3, index = 0\<rparr>,
             2 := \<lparr>ivalue = ''item3'', priority = 2, index = 0\<rparr>);
          s = heap_init \<lparr>q = [], items = objects\<rparr>;
          s = foldl (\<lambda>s p. heap_push p s) s [0, 1, 2];
          p = q s ! 0
      in map_option pq_drain (pq_update p (ivalue (items s p)) 0 s))"

section \<open>Properties\<close>

text \<open>
  C4. Popping until the queue is empty prints every item exactly once, with its current value and
  priority, in the order of falling priority.
\<close>

theorem pq_drain_sorted:
  assumes "pq_inv s"
  shows "sorted (rev (map snd (pq_drain s))) \<and>
         mset (pq_drain s) = image_mset (\<lambda>p. (ivalue (items s p), priority (items s p))) (mset (q s))"
proof -
  obtain ps where ps: "drains heap_pop s ps" "pq_drain s = map (\<lambda>p. (ivalue (items s p), priority (items s p))) ps"
    using pq_drain_drains [OF assms] .
  then show ?thesis
    using pq.drained_contents [OF assms ps(1)] pq.drained_sorted [OF assms ps(1)]
    by (simp add: sorted_wrt_rev sorted_wrt_map)
qed

theorem pq_drain_sorted_witness:
  "sorted (rev (map snd (pq_drain (heap_push 1 (heap_push 0
     \<lparr>q = [], items = (\<lambda>p. \<lparr>ivalue = ''x'', priority = int p, index = 0\<rparr>)\<rparr>)))))"
proof -
  let ?s = "\<lparr>q = [], items = (\<lambda>p. \<lparr>ivalue = ''x'', priority = int p, index = 0\<rparr>)\<rparr>"
  have 0: "pq_inv ?s" by (simp add: pq_inv_def coherent_def edges_def)
  have 1: "pq_inv (heap_push 0 ?s)" by (rule heap_push_ok [OF 0]) simp
  have "set (q (heap_push 0 ?s)) = {0}"
    using heap_push_ok(2) [OF 0, of 0] by (simp flip: set_mset_mset)
  then have "pq_inv (heap_push 1 (heap_push 0 ?s))" by (intro heap_push_ok [OF 1]) simp
  then show ?thesis using pq_drain_sorted by blast
qed

text \<open>
  C15. \<open>update\<close> on an item that is in the queue: \<open>Fix\<close> at the index the item carries restores the heap
  whichever way the priority moved. The queue holds the same items, of which this one has the new value and
  priority and every other one its own; the indices in the queue are right again, and an item
  outside the queue is not touched.
\<close>

theorem pq_update_restores_heap:
  assumes "pq_inv s" "p \<in> set (q s)"
  shows "\<exists>t. pq_update p v pr s = Some t \<and> pq_inv t \<and> mset (q t) = mset (q s) \<and>
             (\<forall>x. priority (items t x) = (if x = p then pr else priority (items s x)) \<and>
                  ivalue (items t x) = (if x = p then v else ivalue (items s x)) \<and>
                  (x \<notin> set (q s) \<longrightarrow> items t x = items s x))"
  using pq_update_ok [OF assms, of v pr] by metis

theorem pq_update_restores_heap_witness:
  "\<exists>t. pq_update 7 ''y'' 4 \<lparr>q = [7], items = (\<lambda>p. \<lparr>ivalue = ''x'', priority = 1, index = 0\<rparr>)\<rparr> = Some t \<and> pq_inv t \<and>
     ivalue (items t 7) = ''y'' \<and> priority (items t 7) = 4 \<and> ivalue (items t 8) = ''x''"
proof -
  let ?s = "\<lparr>q = [7], items = (\<lambda>p. \<lparr>ivalue = ''x'', priority = 1, index = 0\<rparr>)\<rparr>"
  have "pq_inv ?s" "7 \<in> set (q ?s)" by (simp_all add: pq_inv_def coherent_def edges_def)
  from pq_update_restores_heap [OF this, of "''y''" 4] show ?thesis by (elim exE conjE, intro exI conjI) auto
qed

text \<open>
  What \<open>main\<close> prints after it lowers the first item to priority 0.
\<close>

lemma pq_main_prints: "pq_main = Some [(''item3'', 2), (''item1'', 1), (''item2'', 0)]"
  by code_simp

end
