(* ===== verification/RaftDisk.thy ===== *)
theory RaftDisk
  imports GoText
begin

text \<open>
  The disk of a raft node in \<open>etcd/raft-wal-restart/main.go\<close> (\<open>diskStorage\<close>): a log of JSON lines with
  hard states and entries, and a snapshot file replaced by a rename. The encodings of protobuf, base64
  and JSON are not code of the repository: they are the fields of \<open>codecs\<close>, and \<open>codecs_ok\<close> is what the
  code relies on (what an encoder produces its decoder reads back). Indices and terms are \<open>uint64\<close>;
  nothing here adds to them, so natural numbers are exact.
\<close>

section \<open>Data\<close>

record command =
  ckey :: string
  cvalue :: string

datatype entry_type = EntryNormal | EntryConfChange | EntryConfChangeV2

record entry =
  eindex :: nat
  eterm :: nat
  etype :: entry_type
  edata :: string

record hard_state =
  hterm :: nat
  hvote :: nat
  hcommit :: nat

record snapshot =
  sindex :: nat
  sterm :: nat
  sconf :: "nat list"
  sdata :: string

record sm_snapshot =
  sm_kv :: "(string \<rightharpoonup> string) option"   \<comment> \<open>\<open>None\<close> is a nil map\<close>
  sm_applied :: nat

record wal_record =
  rhard :: string
  rentries :: "string list"

record boot_state =
  has_state :: bool
  hard :: hard_state
  entries :: "entry list"
  snap :: snapshot

definition zero_hard :: hard_state where
  "zero_hard = \<lparr>hterm = 0, hvote = 0, hcommit = 0\<rparr>"

definition zero_snap :: snapshot where
  "zero_snap = \<lparr>sindex = 0, sterm = 0, sconf = [], sdata = []\<rparr>"

definition zero_boot :: boot_state where
  "zero_boot = \<lparr>has_state = False, hard = zero_hard, entries = [], snap = zero_snap\<rparr>"

text \<open>\<open>raft.IsEmptyHardState\<close> compares with the zero value, \<open>raft.IsEmptySnap\<close> the index with zero.\<close>

definition is_empty_hard :: "hard_state \<Rightarrow> bool" where
  "is_empty_hard h = (h = zero_hard)"

definition is_empty_snap :: "snapshot \<Rightarrow> bool" where
  "is_empty_snap s = (sindex s = 0)"

record codecs =
  marshal_hard :: "hard_state \<Rightarrow> string option"
  unmarshal_hard :: "string \<Rightarrow> hard_state option"
  marshal_entry :: "entry \<Rightarrow> string option"
  unmarshal_entry :: "string \<Rightarrow> entry option"
  marshal_snap :: "snapshot \<Rightarrow> string option"
  unmarshal_snap :: "string \<Rightarrow> snapshot option"
  b64_encode :: "string \<Rightarrow> string"
  b64_decode :: "string \<Rightarrow> string option"
  json_record :: "wal_record \<Rightarrow> string option"
  unjson_record :: "string \<Rightarrow> wal_record option"
  json_command :: "command \<Rightarrow> string option"
  unjson_command :: "string \<Rightarrow> command option"
  json_sm :: "sm_snapshot \<Rightarrow> string option"
  unjson_sm :: "string \<Rightarrow> sm_snapshot option"

text \<open>A JSON text is one line without blanks at its ends; a hard state that is not zero has an encoding that is not empty.\<close>

definition codecs_ok :: "codecs \<Rightarrow> bool" where
  "codecs_ok c =
     ((\<forall>h r. marshal_hard c h = Some r \<longrightarrow> unmarshal_hard c r = Some h \<and> (h \<noteq> zero_hard \<longrightarrow> r \<noteq> [])) \<and>
      (\<forall>e r. marshal_entry c e = Some r \<longrightarrow> unmarshal_entry c r = Some e) \<and>
      (\<forall>s r. marshal_snap c s = Some r \<longrightarrow> unmarshal_snap c r = Some s) \<and>
      (\<forall>r. b64_decode c (b64_encode c r) = Some r \<and> (b64_encode c r = [] \<longrightarrow> r = [])) \<and>
      (\<forall>r l. json_record c r = Some l \<longrightarrow>
         unjson_record c l = Some r \<and> l \<noteq> [] \<and> nl \<notin> set l \<and> \<not> is_space (hd l) \<and> \<not> is_space (last l)))"

text \<open>The text of a JSON object ends with its closing brace: what is cut off before that is no JSON text.\<close>

definition json_objects :: "codecs \<Rightarrow> bool" where
  "json_objects c \<longleftrightarrow>
     (\<forall>r l n. json_record c r = Some l \<longrightarrow> 0 < n \<longrightarrow> n < length l \<longrightarrow> unjson_record c (trim_space (drop_cr (take n l))) = None)"

section \<open>The directory of a node\<close>

record disk =
  dir_made :: bool
  wal_file :: "string option"
  snap_file :: "string option"
  tmp_file :: "string option"

record disk_paths =
  dir_path :: string
  wal_path :: string
  snap_path :: string

definition new_disk_storage :: "string \<Rightarrow> nat \<Rightarrow> disk_paths" where
  "new_disk_storage base node_id =
     (let d = join_with ''/'' [base, ''node-'' @ nat_digits node_id]
      in \<lparr>dir_path = d, wal_path = join_with ''/'' [d, ''wal.log''],
          snap_path = join_with ''/'' [d, ''snapshot.bin'']\<rparr>)"

datatype disk_fault = NoFault | DirFault | OpenFault | WriteFault nat | RenameFault | ReadFault

datatype disk_error =
  ErrDir | ErrMarshal | ErrOpen | ErrWrite | ErrRename | ErrRead
  | ErrDecodeSnapshot | ErrDecodeWal | ErrDecodeHard | ErrDecodeEntry | ErrScan

definition ensure_dir :: "disk_fault \<Rightarrow> disk \<Rightarrow> disk \<times> disk_error option" where
  "ensure_dir flt d = (if flt = DirFault then (d, Some ErrDir) else (d\<lparr>dir_made := True\<rparr>, None))"

definition decode_hard :: "codecs \<Rightarrow> string \<Rightarrow> hard_state option" where
  "decode_hard c s = Option.bind (b64_decode c s) (unmarshal_hard c)"

definition decode_entry :: "codecs \<Rightarrow> string \<Rightarrow> entry option" where
  "decode_entry c s = Option.bind (b64_decode c s) (unmarshal_entry c)"

fun encode_entries :: "codecs \<Rightarrow> entry list \<Rightarrow> string list option" where
  "encode_entries c [] = Some []"
| "encode_entries c (e # es) = do {
     raw \<leftarrow> marshal_entry c e;
     rest \<leftarrow> encode_entries c es;
     Some (b64_encode c raw # rest)
   }"

text \<open>The record of one \<open>appendWAL\<close>, from the zero record to \<open>json.Marshal\<close>.\<close>

definition encode_record :: "codecs \<Rightarrow> hard_state \<Rightarrow> entry list \<Rightarrow> string option" where
  "encode_record c h es = do {
     hs \<leftarrow> (if is_empty_hard h then Some [] else map_option (b64_encode c) (marshal_hard c h));
     encs \<leftarrow> encode_entries c es;
     json_record c \<lparr>rhard = hs, rentries = encs\<rparr>
   }"

definition append_wal :: "codecs \<Rightarrow> disk_fault \<Rightarrow> hard_state \<Rightarrow> entry list \<Rightarrow> disk \<Rightarrow> disk \<times> disk_error option" where
  "append_wal c flt h es d =
     (if is_empty_hard h \<and> es = [] then (d, None)
      else (case ensure_dir flt d of
         (d, Some e) \<Rightarrow> (d, Some e)
       | (d, None) \<Rightarrow>
          (case encode_record c h es of
             None \<Rightarrow> (d, Some ErrMarshal)
           | Some line \<Rightarrow>
               if flt = OpenFault then (d, Some ErrOpen)
               else (let old = (case wal_file d of None \<Rightarrow> [] | Some s \<Rightarrow> s)
                     in (case flt of
                           WriteFault n \<Rightarrow> (d\<lparr>wal_file := Some (old @ take n (line @ [nl]))\<rparr>, Some ErrWrite)
                         | _ \<Rightarrow> (d\<lparr>wal_file := Some (old @ line @ [nl])\<rparr>, None))))))"

text \<open>
  \<open>os.WriteFile\<close> truncates the temporary file and then writes it; the rename is atomic. A crash between
  the calls leaves the disk of the fault at that call.
\<close>

definition save_snapshot :: "codecs \<Rightarrow> disk_fault \<Rightarrow> snapshot \<Rightarrow> disk \<Rightarrow> disk \<times> disk_error option" where
  "save_snapshot c flt s d =
     (if is_empty_snap s then (d, None)
      else (case ensure_dir flt d of
         (d, Some e) \<Rightarrow> (d, Some e)
       | (d, None) \<Rightarrow>
          (case marshal_snap c s of
             None \<Rightarrow> (d, Some ErrMarshal)
           | Some raw \<Rightarrow>
              (case flt of
                 OpenFault \<Rightarrow> (d, Some ErrWrite)
               | WriteFault n \<Rightarrow> (d\<lparr>tmp_file := Some (take n raw)\<rparr>, Some ErrWrite)
               | RenameFault \<Rightarrow> (d\<lparr>tmp_file := Some raw\<rparr>, Some ErrRename)
               | _ \<Rightarrow> (d\<lparr>tmp_file := None, snap_file := Some raw\<rparr>, None)))))"

section \<open>Loading\<close>

definition load_entry :: "codecs \<Rightarrow> boot_state \<Rightarrow> string \<Rightarrow> boot_state \<times> disk_error option" where
  "load_entry c st s =
     (case decode_entry c s of
        None \<Rightarrow> (st, Some ErrDecodeEntry)
      | Some e \<Rightarrow> (st\<lparr>entries := entries st @ [e], has_state := True\<rparr>, None))"

definition load_line :: "codecs \<Rightarrow> boot_state \<Rightarrow> string \<Rightarrow> boot_state \<times> disk_error option" where
  "load_line c st raw =
     (let line = trim_space raw
      in if line = [] then (st, None)
         else (case unjson_record c line of
            None \<Rightarrow> (st, Some ErrDecodeWal)
          | Some r \<Rightarrow>
              if rhard r \<noteq> []
              then (case decode_hard c (rhard r) of
                      None \<Rightarrow> (st, Some ErrDecodeHard)
                    | Some h \<Rightarrow> for_range (load_entry c) (st\<lparr>hard := h, has_state := True\<rparr>) (rentries r))
              else for_range (load_entry c) st (rentries r)))"

definition max_line :: nat where
  "max_line = 8 * 1024 * 1024"

definition load_snapshot :: "codecs \<Rightarrow> disk_fault \<Rightarrow> disk \<Rightarrow> boot_state \<times> disk_error option" where
  "load_snapshot c flt d =
     (if flt = ReadFault then (zero_boot, Some ErrRead)
      else (case snap_file d of
         None \<Rightarrow> (zero_boot, None)
       | Some raw \<Rightarrow>
          (case unmarshal_snap c raw of
             None \<Rightarrow> (zero_boot, Some ErrDecodeSnapshot)
           | Some s \<Rightarrow> (zero_boot\<lparr>snap := s, has_state := \<not> is_empty_snap s\<rparr>, None))))"

definition drop_old :: "boot_state \<Rightarrow> boot_state" where
  "drop_old st =
     (if is_empty_snap (snap st) then st
      else st\<lparr>entries := filter (\<lambda>e. eindex e > sindex (snap st)) (entries st)\<rparr>)"

definition load :: "codecs \<Rightarrow> disk_fault \<Rightarrow> disk \<Rightarrow> disk \<times> boot_state \<times> disk_error option" where
  "load c flt d =
     (case ensure_dir flt d of
        (d, Some e) \<Rightarrow> (d, zero_boot, Some e)
      | (d, None) \<Rightarrow>
         (case load_snapshot c flt d of
            (st, Some e) \<Rightarrow> (d, st, Some e)
          | (st, None) \<Rightarrow>
              if flt = OpenFault then (d, st, Some ErrOpen)
              else (case wal_file d of
                 None \<Rightarrow> (d, st, None)
               | Some s \<Rightarrow>
                  (case scan_lines max_line s of
                     (ls, too_long) \<Rightarrow>
                       (case for_range (load_line c) st ls of
                          (st, Some e) \<Rightarrow> (d, st, Some e)
                        | (st, None) \<Rightarrow>
                            if too_long then (d, st, Some ErrScan) else (d, drop_old st, None))))))"

section \<open>What a log line loads as\<close>

definition absorb :: "boot_state \<Rightarrow> hard_state \<times> entry list \<Rightarrow> boot_state" where
  "absorb st b =
     st\<lparr>hard := (if is_empty_hard (fst b) then hard st else fst b), entries := entries st @ snd b,
        has_state := has_state st \<or> \<not> is_empty_hard (fst b) \<or> snd b \<noteq> []\<rparr>"

lemma load_entries:
  assumes "codecs_ok c" "encode_entries c es = Some ss"
  shows "for_range (load_entry c) st ss =
           (st\<lparr>entries := entries st @ es, has_state := has_state st \<or> es \<noteq> []\<rparr>, None)"
  using assms(2)
proof (induction es arbitrary: st ss)
  case Nil
  then show ?case by simp
next
  case (Cons e es)
  then obtain raw rest where r: "marshal_entry c e = Some raw" "encode_entries c es = Some rest"
    "ss = b64_encode c raw # rest" by (auto split: Option.bind_splits)
  then have "decode_entry c (b64_encode c raw) = Some e"
    using assms(1) by (simp add: decode_entry_def codecs_ok_def)
  then show ?case using Cons.IH [OF r(2)] r(3) by (simp add: load_entry_def)
qed

lemma load_line_record:
  assumes ok: "codecs_ok c" and l: "encode_record c h es = Some l"
  shows "load_line c st l = (absorb st (h, es), None)"
proof -
  obtain hs encs where e: "encode_entries c es = Some encs" "json_record c \<lparr>rhard = hs, rentries = encs\<rparr> = Some l"
    and hs: "(if is_empty_hard h then Some [] else map_option (b64_encode c) (marshal_hard c h)) = Some hs"
    using l unfolding encode_record_def by (auto split: Option.bind_splits)
  have line: "unjson_record c l = Some \<lparr>rhard = hs, rentries = encs\<rparr>" "l \<noteq> []" "trim_space l = l"
    using ok e(2) by (auto simp: codecs_ok_def intro: trim_space_id)
  show ?thesis
  proof (cases "is_empty_hard h")
    case True
    then show ?thesis
      using line hs by (simp add: load_line_def Let_def load_entries [OF ok e(1)] absorb_def)
  next
    case False
    then obtain raw where raw: "marshal_hard c h = Some raw" "hs = b64_encode c raw" using hs by auto
    then have "unmarshal_hard c raw = Some h" "raw \<noteq> []"
      using ok False by (auto simp: codecs_ok_def is_empty_hard_def)
    then have "hs \<noteq> []" "decode_hard c hs = Some h"
      using ok raw by (auto simp: codecs_ok_def decode_hard_def)
    then show ?thesis
      using line False by (simp add: load_line_def Let_def load_entries [OF ok e(1)] absorb_def)
  qed
qed

text \<open>\<open>holds c s bs\<close>: the log file \<open>s\<close> consists of the records of \<open>bs\<close>.\<close>

definition holds :: "codecs \<Rightarrow> string \<Rightarrow> (hard_state \<times> entry list) list \<Rightarrow> bool" where
  "holds c s bs =
     (line_aligned s \<and>
      (\<exists>ls. scan_lines max_line s = (ls, False) \<and>
            list_all2 (\<lambda>l b. encode_record c (fst b) (snd b) = Some l) ls bs))"

lemma holds_Nil [simp]: "holds c [] []"
  by (simp add: holds_def)

lemma scan_record:
  assumes "codecs_ok c" "encode_record c h es = Some l" "go_len l < max_line"
  shows "scan_lines max_line (l @ [nl]) = ([l], False)"
proof -
  obtain r where "json_record c r = Some l"
    using assms(2) unfolding encode_record_def by (auto split: Option.bind_splits)
  then have l: "nl \<notin> set l" "l \<noteq> []" "\<not> is_space (last l)" using assms(1) by (auto simp: codecs_ok_def)
  then have "drop_cr l = l" by (intro drop_cr_id) auto
  then show ?thesis using scan_lines_line [OF l(1) assms(3), of "[]"] by simp
qed

lemma holds_append:
  assumes "codecs_ok c" "holds c s bs" "encode_record c h es = Some l" "go_len l < max_line"
  shows "holds c (s @ l @ [nl]) (bs @ [(h, es)])"
proof -
  have "line_aligned (s @ l @ [nl])"
    using assms(2) line_aligned_append [of s "l @ [nl]"] by (simp add: holds_def)
  then show ?thesis
    using assms(2,3) scan_record [OF assms(1,3,4)]
    by (auto simp: holds_def scan_lines_append intro!: list_all2_appendI)
qed

lemma load_records:
  assumes "codecs_ok c"
  shows "list_all2 (\<lambda>l b. encode_record c (fst b) (snd b) = Some l) ls bs \<Longrightarrow>
         for_range (load_line c) st ls = (foldl absorb st bs, None)"
proof (induction ls arbitrary: st bs)
  case Nil
  then show ?case by simp
next
  case (Cons l ls)
  then obtain h es bs' where b: "bs = (h, es) # bs'" "encode_record c h es = Some l"
    "list_all2 (\<lambda>l b. encode_record c (fst b) (snd b) = Some l) ls bs'"
    by (auto simp: list_all2_Cons1)
  then show ?case using Cons.IH [OF b(3)] load_line_record [OF assms b(2)] by simp
qed

lemma foldl_absorb:
  "foldl absorb st bs =
     st\<lparr>hard := foldl (\<lambda>h b. if is_empty_hard (fst b) then h else fst b) (hard st) bs,
        entries := entries st @ concat (map snd bs),
        has_state := has_state st \<or> (\<exists>b \<in> set bs. \<not> is_empty_hard (fst b) \<or> snd b \<noteq> [])\<rparr>"
  by (induction bs arbitrary: st) (auto simp: absorb_def)

section \<open>A sequence of appends\<close>

definition append_all :: "codecs \<Rightarrow> disk \<Rightarrow> (hard_state \<times> entry list) list \<Rightarrow> disk \<times> disk_error option" where
  "append_all c d bs = for_range (\<lambda>d b. append_wal c NoFault (fst b) (snd b) d) d bs"

definition wal_text :: "disk \<Rightarrow> string" where
  "wal_text d = (case wal_file d of None \<Rightarrow> [] | Some s \<Rightarrow> s)"

definition short_records :: "codecs \<Rightarrow> (hard_state \<times> entry list) list \<Rightarrow> bool" where
  "short_records c bs =
     list_all (\<lambda>b. case encode_record c (fst b) (snd b) of None \<Rightarrow> True | Some l \<Rightarrow> go_len l < max_line) bs"

definition real_batch :: "hard_state \<times> entry list \<Rightarrow> bool" where
  "real_batch b = (\<not> is_empty_hard (fst b) \<or> snd b \<noteq> [])"

lemma append_all_holds:
  assumes ok: "codecs_ok c"
  shows "append_all c d bs = (d', None) \<Longrightarrow> holds c (wal_text d) bs0 \<Longrightarrow> short_records c bs \<Longrightarrow>
     holds c (wal_text d') (bs0 @ filter real_batch bs) \<and> snap_file d' = snap_file d \<and> tmp_file d' = tmp_file d"
proof (induction bs arbitrary: d bs0)
  case Nil
  then show ?case by (simp add: append_all_def)
next
  case (Cons b bs)
  obtain h es where b: "b = (h, es)" by (cases b)
  obtain d1 r where d1: "append_wal c NoFault h es d = (d1, r)" by fastforce
  with Cons.prems(1) b have r: "r = None" "append_all c d1 bs = (d', None)"
    by (auto simp: append_all_def split: option.splits)
  have s: "short_records c bs" using Cons.prems(3) by (simp add: short_records_def)
  show ?case
  proof (cases "real_batch b")
    case False
    then have "d1 = d" using d1 b by (simp add: append_wal_def real_batch_def)
    then show ?thesis using Cons.IH [OF r(2) _ s, of bs0] Cons.prems(2) False by simp
  next
    case True
    then obtain l where l: "encode_record c h es = Some l" and t: "wal_text d1 = wal_text d @ l @ [nl]"
      and f: "snap_file d1 = snap_file d" "tmp_file d1 = tmp_file d"
      using d1 r(1) b
      by (auto simp: append_wal_def real_batch_def ensure_dir_def wal_text_def Let_def
            split: option.splits if_splits)
    have "go_len l < max_line" using Cons.prems(3) l b by (simp add: short_records_def)
    from holds_append [OF ok Cons.prems(2) l this] t
    have "holds c (wal_text d1) (bs0 @ [b])" by (simp add: b)
    from Cons.IH [OF r(2) this s] show ?thesis using True f by simp
  qed
qed

lemma load_holds:
  assumes ok: "codecs_ok c" and h: "holds c (wal_text d) bs"
    and s: "load_snapshot c NoFault d = (st, None)" "entries st = []" "hard st = zero_hard"
  shows "load c NoFault d = (d\<lparr>dir_made := True\<rparr>, drop_old (foldl absorb st bs), None)"
proof -
  have st: "load_snapshot c NoFault (d\<lparr>dir_made := True\<rparr>) = (st, None)"
    using s(1) by (simp add: load_snapshot_def)
  show ?thesis
  proof (cases "wal_file d")
    case None
    then have "bs = []" using h by (auto simp: wal_text_def holds_def)
    then show ?thesis using None st s(2)
      by (simp add: load_def ensure_dir_def drop_old_def)
  next
    case (Some content)
    then obtain ls where "scan_lines max_line content = (ls, False)"
      "list_all2 (\<lambda>l b. encode_record c (fst b) (snd b) = Some l) ls bs"
      using h by (auto simp: holds_def wal_text_def)
    then show ?thesis using Some st load_records [OF ok, of ls bs st]
      by (simp add: load_def ensure_dir_def)
  qed
qed

definition fresh_disk :: disk where
  "fresh_disk = \<lparr>dir_made = False, wal_file = None, snap_file = None, tmp_file = None\<rparr>"

definition last_hard :: "(hard_state \<times> entry list) list \<Rightarrow> hard_state" where
  "last_hard bs = foldl (\<lambda>h b. if is_empty_hard (fst b) then h else fst b) zero_hard bs"

lemma foldl_filter_real:
  "foldl (\<lambda>h b. if is_empty_hard (fst b) then h else fst b) h (filter real_batch bs) =
   foldl (\<lambda>h b. if is_empty_hard (fst b) then h else fst b) h bs"
  by (induction bs arbitrary: h) (auto simp: real_batch_def)

lemma concat_filter_real: "concat (map snd (filter real_batch bs)) = concat (map snd bs)"
  by (induction bs) (auto simp: real_batch_def)

lemma trim_space_ne:
  assumes "s \<noteq> []" "\<not> is_space (hd s)"
  shows "trim_space s \<noteq> []"
  using assms by (cases s) (auto simp: trim_space_def)

lemma save_snapshot_cases:
  "save_snapshot c NoFault s d = (d', None) \<Longrightarrow>
     wal_file d' = wal_file d \<and>
     (if is_empty_snap s then snap_file d' = snap_file d else snap_file d' = marshal_snap c s)"
  by (auto simp: save_snapshot_def ensure_dir_def split: option.splits if_splits)

text \<open>One hard state, one entry and one snapshot, with an encoding for each.\<close>

definition one_codecs :: "hard_state \<Rightarrow> entry \<Rightarrow> snapshot \<Rightarrow> codecs" where
  "one_codecs h e s =
     \<lparr>marshal_hard = (\<lambda>x. if x = h then Some ''h'' else None),
      unmarshal_hard = (\<lambda>r. if r = ''h'' then Some h else None),
      marshal_entry = (\<lambda>x. if x = e then Some ''e'' else None),
      unmarshal_entry = (\<lambda>r. if r = ''e'' then Some e else None),
      marshal_snap = (\<lambda>x. if x = s then Some ''s'' else None),
      unmarshal_snap = (\<lambda>r. if r = ''s'' then Some s else None),
      b64_encode = (\<lambda>r. r), b64_decode = Some,
      json_record = (\<lambda>r. if r = \<lparr>rhard = ''h'', rentries = [''e'']\<rparr> then Some ''{}'' else None),
      unjson_record = (\<lambda>l. if l = ''{}'' then Some \<lparr>rhard = ''h'', rentries = [''e'']\<rparr> else None),
      json_command = (\<lambda>_. None), unjson_command = (\<lambda>_. None),
      json_sm = (\<lambda>_. None), unjson_sm = (\<lambda>_. None)\<rparr>"

lemma one_codecs_objects: "json_objects (one_codecs h e s)"
  by (auto simp: json_objects_def one_codecs_def drop_cr_def trim_space_def is_space_def take_Cons' split: if_splits)

lemma one_codecs_ok: "codecs_ok (one_codecs h e s)"
  by (auto simp: codecs_ok_def one_codecs_def is_space_def)

section \<open>Properties\<close>

text \<open>
  C6. What a restart finds. After any sequence of \<open>appendWAL\<close> calls on a fresh directory and one
  \<open>saveSnapshot\<close>, all without a fault, \<open>load\<close> succeeds and returns the last hard state that was not
  empty, the snapshot, and exactly the entries beyond the snapshot, in the order they were appended.
\<close>

theorem raft_load:
  assumes ok: "codecs_ok c"
    and app: "append_all c fresh_disk bs = (d1, None)" "short_records c bs"
    and sv: "save_snapshot c NoFault s d1 = (d2, None)"
  shows "load c NoFault d2 =
     (d2\<lparr>dir_made := True\<rparr>,
      \<lparr>has_state = (sindex s \<noteq> 0 \<or> (\<exists>b \<in> set bs. real_batch b)),
       hard = last_hard bs,
       entries = filter (\<lambda>e. sindex s = 0 \<or> sindex s < eindex e) (concat (map snd bs)),
       snap = (if sindex s = 0 then zero_snap else s)\<rparr>, None)"
proof -
  have "holds c (wal_text fresh_disk) []" by (simp add: wal_text_def fresh_disk_def)
  with append_all_holds [OF ok app(1) _ app(2), of "[]"]
  have h1: "holds c (wal_text d1) (filter real_batch bs)" "snap_file d1 = None"
    by (auto simp: fresh_disk_def)
  have "wal_text d2 = wal_text d1"
    using save_snapshot_cases [OF sv] by (simp add: wal_text_def)
  with h1 have h2: "holds c (wal_text d2) (filter real_batch bs)" by simp
  define st where "st = zero_boot\<lparr>snap := (if sindex s = 0 then zero_snap else s), has_state := (sindex s \<noteq> 0)\<rparr>"
  have ls: "load_snapshot c NoFault d2 = (st, None)"
  proof (cases "sindex s = 0")
    case True
    then have "snap_file d2 = None"
      using save_snapshot_cases [OF sv] h1(2) by (simp add: is_empty_snap_def)
    then show ?thesis using True by (simp add: load_snapshot_def st_def zero_boot_def)
  next
    case False
    then obtain raw where "marshal_snap c s = Some raw" "snap_file d2 = Some raw"
      using sv save_snapshot_cases [OF sv]
      by (auto simp: save_snapshot_def is_empty_snap_def ensure_dir_def split: option.splits)
    moreover from this have "unmarshal_snap c raw = Some s" using ok by (simp add: codecs_ok_def)
    ultimately show ?thesis using False by (simp add: load_snapshot_def st_def is_empty_snap_def)
  qed
  have "load c NoFault d2 = (d2\<lparr>dir_made := True\<rparr>, drop_old (foldl absorb st (filter real_batch bs)), None)"
    by (rule load_holds [OF ok h2 ls]) (simp_all add: st_def zero_boot_def)
  moreover
  have ex: "(\<exists>b \<in> set (filter real_batch bs). \<not> is_empty_hard (fst b) \<or> snd b \<noteq> []) =
      (\<exists>b \<in> set bs. real_batch b)"
    unfolding set_filter real_batch_def by blast
  have "drop_old (foldl absorb st (filter real_batch bs)) =
      \<lparr>has_state = (sindex s \<noteq> 0 \<or> (\<exists>b \<in> set bs. real_batch b)), hard = last_hard bs,
       entries = filter (\<lambda>e. sindex s = 0 \<or> sindex s < eindex e) (concat (map snd bs)),
       snap = (if sindex s = 0 then zero_snap else s)\<rparr>"
    unfolding foldl_absorb foldl_filter_real concat_filter_real ex
    by (auto simp: drop_old_def is_empty_snap_def st_def zero_boot_def zero_snap_def last_hard_def)
  ultimately show ?thesis by simp
qed

theorem raft_load_witness:
  "load (one_codecs \<lparr>hterm = 5, hvote = 2, hcommit = 3\<rparr> \<lparr>eindex = 4, eterm = 5, etype = EntryNormal, edata = []\<rparr>
           \<lparr>sindex = 3, sterm = 5, sconf = [7], sdata = []\<rparr>) NoFault
      \<lparr>dir_made = True, wal_file = Some (''{}'' @ [nl]), snap_file = Some ''s'', tmp_file = None\<rparr> =
    (\<lparr>dir_made = True, wal_file = Some (''{}'' @ [nl]), snap_file = Some ''s'', tmp_file = None\<rparr>,
     \<lparr>has_state = True, hard = \<lparr>hterm = 5, hvote = 2, hcommit = 3\<rparr>,
      entries = [\<lparr>eindex = 4, eterm = 5, etype = EntryNormal, edata = []\<rparr>],
      snap = \<lparr>sindex = 3, sterm = 5, sconf = [7], sdata = []\<rparr>\<rparr>, None)"
proof -
  let ?h = "\<lparr>hterm = 5, hvote = 2, hcommit = 3\<rparr>"
  let ?e = "\<lparr>eindex = 4, eterm = 5, etype = EntryNormal, edata = []\<rparr>"
  let ?s = "\<lparr>sindex = 3, sterm = 5, sconf = [7], sdata = []\<rparr>"
  let ?c = "one_codecs ?h ?e ?s"
  have enc: "encode_record ?c ?h [?e] = Some ''{}''"
    by (simp add: encode_record_def one_codecs_def is_empty_hard_def zero_hard_def)
  have a: "append_all ?c fresh_disk [(?h, [?e])] =
      (\<lparr>dir_made = True, wal_file = Some (''{}'' @ [nl]), snap_file = None, tmp_file = None\<rparr>, None)"
    by (simp add: append_all_def append_wal_def enc ensure_dir_def fresh_disk_def)
  have sh: "short_records ?c [(?h, [?e])]"
    by (simp add: short_records_def enc utf8_len_def max_line_def)
  have sv: "save_snapshot ?c NoFault ?s
      \<lparr>dir_made = True, wal_file = Some (''{}'' @ [nl]), snap_file = None, tmp_file = None\<rparr> =
      (\<lparr>dir_made = True, wal_file = Some (''{}'' @ [nl]), snap_file = Some ''s'', tmp_file = None\<rparr>, None)"
    by (simp add: save_snapshot_def is_empty_snap_def ensure_dir_def one_codecs_def)
  show ?thesis
    using raft_load [OF one_codecs_ok a sh sv]
    by (simp add: last_hard_def is_empty_hard_def zero_hard_def real_batch_def)
qed

text \<open>
  What a fault of \<open>saveSnapshot\<close> leaves to the processes that go on: the old file or, after the rename, the
  complete new one; the log is untouched. An empty snapshot is not saved, and nil is returned.
\<close>

lemma save_snapshot_cases_fault:
  "snap_file (fst (save_snapshot c flt s d)) =
     (if snd (save_snapshot c flt s d) = None \<and> sindex s \<noteq> 0 then marshal_snap c s else snap_file d) \<and>
   wal_file (fst (save_snapshot c flt s d)) = wal_file d"
  by (auto simp: save_snapshot_def ensure_dir_def is_empty_snap_def
      split: option.splits disk_fault.splits)

text \<open>
  C16. An interrupted append blocks the restart. If \<open>appendWAL\<close> stops while it writes, so that a proper
  prefix of the line is in the file, at least one byte of it, then the next \<open>load\<close> fails, whatever
  snapshot there is. Where the snapshot can be read \<open>load\<close> has by then read every acknowledged record, which
  is intact: it fails at the cut line, as no JSON text or as too long.
\<close>

theorem torn_append_blocks_restart:
  assumes ok: "codecs_ok c" "json_objects c" and h: "holds c (wal_text d) bs"
    and enc: "encode_record c hs es = Some l" "real_batch (hs, es)"
    and n: "0 < n" "n < length l"
    and app: "append_wal c (WriteFault n) hs es d = (d1, r)"
  shows "r = Some ErrWrite \<and> (\<exists>st e. load c NoFault d1 = (d1, st, Some e)) \<and>
    (\<forall>st. load_snapshot c NoFault d = (st, None) \<longrightarrow>
       load c NoFault d1 = (d1, foldl absorb st bs, Some (if go_len (take n l) < max_line then ErrDecodeWal else ErrScan)))"
proof -
  let ?p = "take n l"
  obtain rec where rec: "json_record c rec = Some l"
    using enc(1) unfolding encode_record_def by (auto split: Option.bind_splits)
  then have l: "nl \<notin> set l" "l \<noteq> []" "\<not> is_space (hd l)" using ok(1) by (auto simp: codecs_ok_def)
  have json: "unjson_record c (trim_space (drop_cr ?p)) = None" using ok(2) rec n by (simp add: json_objects_def)
  have d1: "d1 = d\<lparr>dir_made := True, wal_file := Some (wal_text d @ ?p)\<rparr>" "r = Some ErrWrite"
    using app enc n(2) by (auto simp: append_wal_def real_batch_def ensure_dir_def wal_text_def Let_def
        split: option.splits)
  have p: "nl \<notin> set ?p" "?p \<noteq> []" "hd ?p = hd l"
    using l n by (auto dest: in_set_takeD)
  have "drop_cr ?p \<noteq> []" "hd (drop_cr ?p) = hd l"
    using p(2,3) l(3) by (cases ?p; auto simp: drop_cr_def)+
  then have ne: "trim_space (drop_cr ?p) \<noteq> []" using l(3) by (intro trim_space_ne) simp_all
  obtain ls where ls: "scan_lines max_line (wal_text d) = (ls, False)" "line_aligned (wal_text d)"
    "list_all2 (\<lambda>l b. encode_record c (fst b) (snd b) = Some l) ls bs" using h by (auto simp: holds_def)
  have same: "load_snapshot c NoFault d1 = load_snapshot c NoFault d" "ensure_dir NoFault d1 = (d1, None)"
    "wal_file d1 = Some (wal_text d @ ?p)"
    using d1 by (simp_all add: load_snapshot_def ensure_dir_def)
  have readable: "load c NoFault d1 = (d1, foldl absorb st bs, Some (if go_len ?p < max_line then ErrDecodeWal else ErrScan))"
    if st: "load_snapshot c NoFault d = (st, None)" for st
  proof (cases "go_len ?p < max_line")
    case True
    have "scan_lines max_line (wal_text d @ ?p) = (ls @ [drop_cr ?p], False)"
      using ls scan_last_line [OF p(1,2) True] by (simp add: scan_lines_append)
    moreover have "for_range (load_line c) st (ls @ [drop_cr ?p]) = (foldl absorb st bs, Some ErrDecodeWal)"
      using load_records [OF ok(1) ls(3), of st] json ne by (simp add: for_range_append load_line_def Let_def)
    ultimately show ?thesis using True same st by (simp add: load_def)
  next
    case False
    then have "scan_lines max_line (wal_text d @ ?p) = (ls, True)"
      using ls scan_last_too_long [OF p(1,2)] by (simp add: scan_lines_append)
    then show ?thesis using False same st load_records [OF ok(1) ls(3), of st] by (simp add: load_def)
  qed
  have "\<exists>st e. load c NoFault d1 = (d1, st, Some e)"
  proof (cases "load_snapshot c NoFault d")
    case (Pair st e)
    then show ?thesis using readable [of st] same by (cases e) (auto simp: load_def)
  qed
  then show ?thesis using d1(2) readable by blast
qed

theorem torn_append_blocks_restart_witness:
  "\<exists>st. load (one_codecs \<lparr>hterm = 5, hvote = 2, hcommit = 3\<rparr> \<lparr>eindex = 4, eterm = 5, etype = EntryNormal, edata = []\<rparr>
           zero_snap) NoFault
      \<lparr>dir_made = True, wal_file = Some ''{'', snap_file = Some ''s'', tmp_file = None\<rparr> =
     (\<lparr>dir_made = True, wal_file = Some ''{'', snap_file = Some ''s'', tmp_file = None\<rparr>, st, Some ErrDecodeWal)"
proof -
  let ?h = "\<lparr>hterm = 5, hvote = 2, hcommit = 3\<rparr>"
  let ?e = "\<lparr>eindex = 4, eterm = 5, etype = EntryNormal, edata = []\<rparr>"
  let ?c = "one_codecs ?h ?e zero_snap"
  let ?d = "fresh_disk\<lparr>snap_file := Some ''s''\<rparr>"
  have enc: "encode_record ?c ?h [?e] = Some ''{}''"
    by (simp add: encode_record_def one_codecs_def is_empty_hard_def zero_hard_def)
  have app: "append_wal ?c (WriteFault (Suc 0)) ?h [?e] ?d =
      (\<lparr>dir_made = True, wal_file = Some ''{'', snap_file = Some ''s'', tmp_file = None\<rparr>, Some ErrWrite)"
    by (simp add: append_wal_def enc ensure_dir_def fresh_disk_def)
  have holds: "holds ?c (wal_text ?d) []" by (simp add: wal_text_def fresh_disk_def)
  have "\<exists>st. load_snapshot ?c NoFault ?d = (st, None)" by (simp add: load_snapshot_def one_codecs_def)
  then show ?thesis
    using torn_append_blocks_restart [OF one_codecs_ok one_codecs_objects holds enc _ _ _ app]
    by (auto simp: real_batch_def utf8_len_def max_line_def)
qed

text \<open>
  Raft overwrites entries after a conflict by appending entries with earlier indices; \<open>load\<close> keeps
  both, since nothing truncates the log at the first index of a later batch.
\<close>

lemma raft_load_keeps_overwritten:
  assumes "codecs_ok c" "append_all c fresh_disk [(h1, [e1, e2]), (h2, [e3])] = (d, None)"
    "short_records c [(h1, [e1, e2]), (h2, [e3])]" and "eindex e3 = eindex e2" "eterm e3 \<noteq> eterm e2"
  shows "\<exists>d' st. load c NoFault d = (d', st, None) \<and> entries st = [e1, e2, e3] \<and>
           \<not> distinct (map eindex (entries st))"
  using raft_load [OF assms(1-3), of zero_snap d] assms(4)
  by (simp add: save_snapshot_def is_empty_snap_def zero_snap_def)

end
