(* ===== verification/RaftNode.thy ===== *)
theory RaftNode
  imports RaftDisk "HOL-Library.AList"
begin

text \<open>
  The nodes and the cluster of \<open>etcd/raft-wal-restart/main.go\<close>. The raft library (\<open>MemoryStorage\<close> and
  \<open>raft.Node\<close>) is not code of the repository: its state has types of its own (\<open>'m\<close>, \<open>'n\<close>) and its
  operations are the fields of \<open>raft_lib\<close>. The cluster is an association list whose order is the order
  in which Go iterates over the map. Polling loops take the clusters seen at the polls made before
  the deadline.
\<close>

section \<open>The library and the node\<close>

datatype storage_error = ErrCompacted | ErrSnapOutOfDate | ErrStorage

record message =
  mto :: nat
  mfrom :: nat
  mbody :: string

record config =
  cfg_id :: nat
  cfg_applied :: nat
  election_tick :: nat
  heartbeat_tick :: nat
  max_size_per_msg :: nat
  max_inflight :: nat
  check_quorum :: bool
  pre_vote :: bool

record ('m, 'n) raft_lib =
  new_storage :: 'm
  ms_apply_snapshot :: "snapshot \<Rightarrow> 'm \<Rightarrow> (storage_error, 'm) result"
  ms_append :: "entry list \<Rightarrow> 'm \<Rightarrow> (storage_error, 'm) result"
  ms_set_hard :: "hard_state \<Rightarrow> 'm \<Rightarrow> 'm"
  ms_create_snapshot :: "nat \<Rightarrow> nat list \<Rightarrow> string \<Rightarrow> 'm \<Rightarrow> (storage_error, 'm \<times> snapshot) result"
  ms_compact :: "nat \<Rightarrow> 'm \<Rightarrow> (storage_error, 'm) result"
  start_node :: "config \<Rightarrow> 'm \<Rightarrow> nat list \<Rightarrow> 'n"
  restart_node :: "config \<Rightarrow> 'm \<Rightarrow> 'n"
  nd_tick :: "'n \<Rightarrow> 'n"
  nd_advance :: "'n \<Rightarrow> 'n"
  nd_stop :: "'n \<Rightarrow> 'n"
  nd_step :: "message \<Rightarrow> 'n \<Rightarrow> (string, 'n) result"
  nd_propose :: "string \<Rightarrow> 'n \<Rightarrow> (string, 'n) result"
  nd_is_leader :: "'n \<Rightarrow> bool"
  nd_apply_conf :: "entry_type \<Rightarrow> string \<Rightarrow> 'n \<Rightarrow> ('n \<times> nat list option) option"
    \<comment> \<open>\<open>None\<close> when the bytes do not decode as a change of this version\<close>

record ready =
  rd_hard :: hard_state
  rd_entries :: "entry list"
  rd_snapshot :: snapshot
  rd_committed :: "entry list"
  rd_messages :: "message list"

record ('m, 'n) rnode =
  nid :: nat
  storage :: 'm
  node :: 'n
  ndisk :: disk
  kv :: "string \<rightharpoonup> string"
  applied :: nat
  stopped :: bool
  conf :: "nat list"
  last_snap :: nat
  snap_every :: nat
  snap_catch_up :: nat
  stop_closed :: bool   \<comment> \<open>\<open>stopCh\<close>\<close>
  done_closed :: bool   \<comment> \<open>\<open>doneCh\<close>\<close>

type_synonym ('m, 'n) cluster = "(nat \<times> ('m, 'n) rnode) list"

datatype boot_error = ErrLoad disk_error | ErrApplySnapshot storage_error | ErrRestoreData | ErrAppendBoot storage_error

definition peer_ids :: "nat list \<Rightarrow> nat list" where
  "peer_ids peers = sort peers"

section \<open>The state machine\<close>

definition sm_data :: "codecs \<Rightarrow> ('m, 'n) rnode \<Rightarrow> string option" where
  "sm_data c n = json_sm c \<lparr>sm_kv = Some (kv n), sm_applied = applied n\<rparr>"

definition restore_sm :: "codecs \<Rightarrow> string \<Rightarrow> ('m, 'n) rnode \<Rightarrow> ('m, 'n) rnode \<times> bool" where
  "restore_sm c dat n =
     (if dat = [] then (n, False)
      else (case unjson_sm c dat of
         None \<Rightarrow> (n, True)
       | Some s \<Rightarrow>
           (n\<lparr>kv := (case sm_kv s of None \<Rightarrow> Map.empty | Some m \<Rightarrow> m),
              applied := (if 0 < sm_applied s then sm_applied s else applied n)\<rparr>, False)))"

text \<open>One turn of the loop of \<open>applyCommitted\<close>.\<close>

definition apply_entry :: "('m, 'n) raft_lib \<Rightarrow> codecs \<Rightarrow> ('m, 'n) rnode \<Rightarrow> entry \<Rightarrow> ('m, 'n) rnode" where
  "apply_entry L c n e =
     (let n = n\<lparr>applied := eindex e\<rparr>
      in (case etype e of
            EntryNormal \<Rightarrow>
              if edata e = [] then n
              else (case unjson_command c (edata e) of
                      None \<Rightarrow> n
                    | Some cmd \<Rightarrow> n\<lparr>kv := (kv n)(ckey cmd \<mapsto> cvalue cmd)\<rparr>)
          | _ \<Rightarrow>
              (case nd_apply_conf L (etype e) (edata e) (node n) of
                 None \<Rightarrow> n
               | Some (nd, cs) \<Rightarrow>
                   n\<lparr>node := nd, conf := (case cs of None \<Rightarrow> conf n | Some v \<Rightarrow> v)\<rparr>)))"

definition maybe_snapshot :: "('m, 'n) raft_lib \<Rightarrow> codecs \<Rightarrow> disk_fault \<Rightarrow> ('m, 'n) rnode \<Rightarrow> ('m, 'n) rnode" where
  "maybe_snapshot L c flt n =
     (if applied n = 0 then n
      else if applied n \<le> last_snap n \<or> applied n - last_snap n < snap_every n then n
      else (case sm_data c n of
         None \<Rightarrow> n
       | Some dat \<Rightarrow>
          (case ms_create_snapshot L (applied n) (conf n) dat (storage n) of
             Inl _ \<Rightarrow> n
           | Inr (m, s) \<Rightarrow>
              (case save_snapshot c flt s (ndisk n) of
                 (d, Some _) \<Rightarrow> n\<lparr>storage := m, ndisk := d\<rparr>
               | (d, None) \<Rightarrow>
                   (let n = n\<lparr>storage := m, ndisk := d, last_snap := sindex s\<rparr>;
                        compact_to = (if sindex s > snap_catch_up n then sindex s - snap_catch_up n else 1)
                    in (case ms_compact L compact_to (storage n) of
                          Inl _ \<Rightarrow> n
                        | Inr m' \<Rightarrow> n\<lparr>storage := m'\<rparr>))))))"

definition apply_committed ::
    "('m, 'n) raft_lib \<Rightarrow> codecs \<Rightarrow> disk_fault \<Rightarrow> ('m, 'n) rnode \<Rightarrow> entry list \<Rightarrow> ('m, 'n) rnode" where
  "apply_committed L c flt n es =
     (if es = [] then n else maybe_snapshot L c flt (foldl (apply_entry L c) n es))"

section \<open>Starting a node\<close>

definition blank_node :: "('m, 'n) raft_lib \<Rightarrow> nat \<Rightarrow> disk \<Rightarrow> 'n \<Rightarrow> ('m, 'n) rnode" where
  "blank_node L i d nd =
     \<lparr>nid = i, storage = new_storage L, node = nd, ndisk = d, kv = Map.empty, applied = 0,
      stopped = False, conf = [], last_snap = 0, snap_every = 5, snap_catch_up = 2,
      stop_closed = False, done_closed = False\<rparr>"

definition boot_snapshot ::
    "('m, 'n) raft_lib \<Rightarrow> codecs \<Rightarrow> boot_state \<Rightarrow> ('m, 'n) rnode \<Rightarrow> (boot_error, ('m, 'n) rnode) result" where
  "boot_snapshot L c b n =
     (if is_empty_snap (snap b) then Inr n
      else (case ms_apply_snapshot L (snap b) (storage n) of
         Inl e \<Rightarrow> Inl (ErrApplySnapshot e)
       | Inr m \<Rightarrow>
          (case restore_sm c (sdata (snap b)) (n\<lparr>storage := m\<rparr>) of
             (_, True) \<Rightarrow> Inl ErrRestoreData
           | (n, False) \<Rightarrow>
               (let n = n\<lparr>last_snap := sindex (snap b), conf := sconf (snap b)\<rparr>
                in Inr (if applied n = 0 then n\<lparr>applied := sindex (snap b)\<rparr> else n)))))"

definition node_config :: "nat \<Rightarrow> nat \<Rightarrow> config" where
  "node_config i a =
     \<lparr>cfg_id = i, cfg_applied = a, election_tick = 10, heartbeat_tick = 1, max_size_per_msg = 1024 * 1024,
      max_inflight = 256, check_quorum = True, pre_vote = True\<rparr>"

text \<open>The node field has no value before \<open>StartNode\<close> or \<open>RestartNode\<close>; \<open>nd0\<close> stands for nil.\<close>

definition new_raft_node ::
    "('m, 'n) raft_lib \<Rightarrow> codecs \<Rightarrow> 'n \<Rightarrow> disk_fault \<Rightarrow> nat \<Rightarrow> nat list \<Rightarrow> disk \<Rightarrow>
     (boot_error, ('m, 'n) rnode) result" where
  "new_raft_node L c nd0 flt i peers d =
     (case load c flt d of
        (_, _, Some e) \<Rightarrow> Inl (ErrLoad e)
      | (d, b, None) \<Rightarrow>
         (case boot_snapshot L c b (blank_node L i d nd0) of
            Inl e \<Rightarrow> Inl e
          | Inr n \<Rightarrow>
             (case (if entries b = [] then Inr (storage n) else ms_append L (entries b) (storage n)) of
                Inl e \<Rightarrow> Inl (ErrAppendBoot e)
              | Inr m \<Rightarrow>
                 (let m = (if is_empty_hard (hard b) then m else ms_set_hard L (hard b) m);
                      n = n\<lparr>storage := m\<rparr>;
                      cfg = node_config i (applied n)
                  in Inr (if has_state b then n\<lparr>node := restart_node L cfg m\<rparr>
                          else n\<lparr>node := start_node L cfg m peers, conf := peer_ids peers\<rparr>)))))"

section \<open>The run loop and the cluster\<close>

definition find_node :: "nat \<Rightarrow> ('m, 'n) cluster \<Rightarrow> ('m, 'n) rnode option" where
  "find_node i cl = map_of cl i"

definition put_node :: "nat \<Rightarrow> ('m, 'n) rnode \<Rightarrow> ('m, 'n) cluster \<Rightarrow> ('m, 'n) cluster" where
  "put_node i n cl = map (\<lambda>(j, m). (j, if j = i then n else m)) cl"

definition deliver_one :: "('m, 'n) raft_lib \<Rightarrow> ('m, 'n) cluster \<Rightarrow> message \<Rightarrow> ('m, 'n) cluster" where
  "deliver_one L cl msg =
     (case find_node (mto msg) cl of
        None \<Rightarrow> cl
      | Some t \<Rightarrow>
          if stopped t then cl
          else (case nd_step L msg (node t) of
                  Inl _ \<Rightarrow> cl
                | Inr nd \<Rightarrow> put_node (mto msg) (t\<lparr>node := nd\<rparr>) cl))"

definition deliver :: "('m, 'n) raft_lib \<Rightarrow> ('m, 'n) cluster \<Rightarrow> message list \<Rightarrow> ('m, 'n) cluster" where
  "deliver L cl msgs = foldl (deliver_one L) cl msgs"

record ready_faults =
  f_save :: disk_fault
  f_append :: disk_fault
  f_local :: disk_fault

definition persist_ready :: "codecs \<Rightarrow> ready_faults \<Rightarrow> ready \<Rightarrow> disk \<Rightarrow> disk \<times> disk_error option" where
  "persist_ready c f rd d =
     (if is_empty_snap (rd_snapshot rd) then append_wal c (f_append f) (rd_hard rd) (rd_entries rd) d
      else (case save_snapshot c (f_save f) (rd_snapshot rd) d of
              (d, Some e) \<Rightarrow> (d, Some e)
            | (d, None) \<Rightarrow> append_wal c (f_append f) (rd_hard rd) (rd_entries rd) d))"

text \<open>The \<open>Ready\<close> case between \<open>persistReady\<close> and \<open>deliver\<close>.\<close>

definition accept_snapshot :: "('m, 'n) raft_lib \<Rightarrow> codecs \<Rightarrow> snapshot \<Rightarrow> ('m, 'n) rnode \<Rightarrow> ('m, 'n) rnode" where
  "accept_snapshot L c s n =
     (if is_empty_snap s then n
      else (case ms_apply_snapshot L s (storage n) of
              Inl _ \<Rightarrow> n
            | Inr m \<Rightarrow>
                (fst (restore_sm c (sdata s) (n\<lparr>storage := m\<rparr>)))\<lparr>last_snap := sindex s, conf := sconf s\<rparr>))"

definition accept_ready :: "('m, 'n) raft_lib \<Rightarrow> codecs \<Rightarrow> ready \<Rightarrow> ('m, 'n) rnode \<Rightarrow> ('m, 'n) rnode" where
  "accept_ready L c rd n =
     (let n = accept_snapshot L c (rd_snapshot rd) n;
          n = (if is_empty_hard (rd_hard rd) then n else n\<lparr>storage := ms_set_hard L (rd_hard rd) (storage n)\<rparr>)
      in (case ms_append L (rd_entries rd) (storage n) of
            Inl _ \<Rightarrow> n
          | Inr m \<Rightarrow> n\<lparr>storage := m\<rparr>))"

text \<open>The \<open>Ready\<close> case up to \<open>deliver\<close>: a failed persist is only logged.\<close>

definition take_ready :: "('m, 'n) raft_lib \<Rightarrow> codecs \<Rightarrow> ready_faults \<Rightarrow> ready \<Rightarrow> ('m, 'n) rnode \<Rightarrow> ('m, 'n) rnode" where
  "take_ready L c f rd n =
     accept_ready L c rd (n\<lparr>ndisk := fst (persist_ready c f rd (ndisk n))\<rparr>)"

definition handle_ready ::
    "('m, 'n) raft_lib \<Rightarrow> codecs \<Rightarrow> ready_faults \<Rightarrow> ready \<Rightarrow> nat \<Rightarrow> ('m, 'n) cluster \<Rightarrow> ('m, 'n) cluster" where
  "handle_ready L c f rd i cl =
     (case find_node i cl of
        None \<Rightarrow> cl
      | Some n \<Rightarrow>
         (let cl = deliver L (put_node i (take_ready L c f rd n) cl) (rd_messages rd)
          in (case find_node i cl of
                None \<Rightarrow> cl
              | Some n \<Rightarrow>
                 (let n = apply_committed L c (f_local f) n (rd_committed rd)
                  in put_node i (n\<lparr>node := nd_advance L (node n)\<rparr>) cl))))"

datatype run_event = TickEv | ReadyEv ready_faults ready | StopEv

text \<open>One turn of the \<open>select\<close> of node \<open>i\<close>; its goroutine is gone once \<open>doneCh\<close> is closed.\<close>

definition run_event :: "('m, 'n) raft_lib \<Rightarrow> codecs \<Rightarrow> nat \<Rightarrow> run_event \<Rightarrow> ('m, 'n) cluster \<Rightarrow> ('m, 'n) cluster" where
  "run_event L c i ev cl =
     (case find_node i cl of
        None \<Rightarrow> cl
      | Some n \<Rightarrow>
         if done_closed n then cl
         else (case ev of
            TickEv \<Rightarrow> put_node i (n\<lparr>node := nd_tick L (node n)\<rparr>) cl
          | ReadyEv f rd \<Rightarrow> handle_ready L c f rd i cl
          | StopEv \<Rightarrow> if stop_closed n then put_node i (n\<lparr>node := nd_stop L (node n), done_closed := True\<rparr>) cl
                     else cl))"

text \<open>Closing a closed channel panics.\<close>

definition close_chan :: "bool \<Rightarrow> bool option" where
  "close_chan closed = (if closed then None else Some True)"

definition stop_rnode :: "('m, 'n) rnode \<Rightarrow> ('m, 'n) rnode option" where
  "stop_rnode n =
     (if stopped n then Some n
      else (case close_chan (stop_closed n) of
              None \<Rightarrow> None
            | Some b \<Rightarrow> Some (n\<lparr>stopped := True, stop_closed := b\<rparr>)))"

fun stop_all :: "('m, 'n) cluster \<Rightarrow> ('m, 'n) cluster option" where
  "stop_all [] = Some []"
| "stop_all ((i, n) # cl) = do { n' \<leftarrow> stop_rnode n; cl' \<leftarrow> stop_all cl; Some ((i, n') # cl') }"

text \<open>The outer option is a panic, the sum the error that the node was not found.\<close>

definition stop_node :: "nat \<Rightarrow> ('m, 'n) cluster \<Rightarrow> (string, ('m, 'n) cluster) result option" where
  "stop_node i cl =
     (case find_node i cl of
        None \<Rightarrow> Some (Inl (''node '' @ nat_digits i @ '' not found''))
      | Some n \<Rightarrow> map_option (\<lambda>n'. Inr (put_node i n' cl)) (stop_rnode n))"

definition active_node_ids :: "('m, 'n) cluster \<Rightarrow> nat list" where
  "active_node_ids cl = sort (map fst (filter (\<lambda>(i, n). \<not> stopped n) cl))"

definition choose_follower :: "nat \<Rightarrow> ('m, 'n) cluster \<Rightarrow> nat option" where
  "choose_follower leader cl = find (\<lambda>i. i \<noteq> leader) (active_node_ids cl)"

definition leader_now :: "('m, 'n) raft_lib \<Rightarrow> ('m, 'n) cluster \<Rightarrow> nat option" where
  "leader_now L cl =
     find (\<lambda>i. case find_node i cl of None \<Rightarrow> False | Some n \<Rightarrow> nd_is_leader L (node n)) (active_node_ids cl)"

fun wait_leader :: "('m, 'n) raft_lib \<Rightarrow> ('m, 'n) cluster list \<Rightarrow> nat option" where
  "wait_leader L [] = None"
| "wait_leader L (cl # polls) =
     (case leader_now L cl of Some i \<Rightarrow> Some i | None \<Rightarrow> wait_leader L polls)"

definition value_everywhere :: "string \<Rightarrow> string \<Rightarrow> ('m, 'n) cluster \<Rightarrow> bool" where
  "value_everywhere k v cl =
     list_all (\<lambda>i. case find_node i cl of None \<Rightarrow> False | Some n \<Rightarrow> kv n k = Some v) (active_node_ids cl)"

text \<open>\<open>True\<close> is a nil error, \<open>False\<close> the timeout.\<close>

fun wait_value :: "string \<Rightarrow> string \<Rightarrow> ('m, 'n) cluster list \<Rightarrow> bool" where
  "wait_value k v [] = False"
| "wait_value k v (cl # polls) = (value_everywhere k v cl \<or> wait_value k v polls)"

datatype propose_error = LeaderNotFound | LeaderStopped | ErrJson | ErrPropose string

definition propose_kv ::
    "('m, 'n) raft_lib \<Rightarrow> codecs \<Rightarrow> nat \<Rightarrow> string \<Rightarrow> string \<Rightarrow> ('m, 'n) cluster \<Rightarrow>
     (propose_error, ('m, 'n) cluster) result" where
  "propose_kv L c leader k v cl =
     (case find_node leader cl of
        None \<Rightarrow> Inl LeaderNotFound
      | Some n \<Rightarrow>
          if stopped n then Inl LeaderStopped
          else (case json_command c \<lparr>ckey = k, cvalue = v\<rparr> of
             None \<Rightarrow> Inl ErrJson
           | Some dat \<Rightarrow>
              (case nd_propose L dat (node n) of
                 Inl e \<Rightarrow> Inl (ErrPropose e)
               | Inr nd \<Rightarrow> Inr (put_node leader (n\<lparr>node := nd\<rparr>) cl))))"

fun start_nodes ::
    "('m, 'n) raft_lib \<Rightarrow> codecs \<Rightarrow> 'n \<Rightarrow> (nat \<Rightarrow> disk) \<Rightarrow> nat list \<Rightarrow> nat list \<Rightarrow>
     ('m, 'n) cluster \<Rightarrow> (boot_error, ('m, 'n) cluster) result" where
  "start_nodes L c nd0 disks peers [] cl = Inr cl"
| "start_nodes L c nd0 disks peers (i # ids) cl =
     (case new_raft_node L c nd0 NoFault i peers (disks i) of
        Inl e \<Rightarrow> Inl e
      | Inr n \<Rightarrow> start_nodes L c nd0 disks peers ids (AList.update i n cl))"

definition new_persistent_cluster ::
    "('m, 'n) raft_lib \<Rightarrow> codecs \<Rightarrow> 'n \<Rightarrow> (nat \<Rightarrow> disk) \<Rightarrow> nat list \<Rightarrow> (boot_error, ('m, 'n) cluster) result" where
  "new_persistent_cluster L c nd0 disks ids = start_nodes L c nd0 disks ids ids []"

text \<open>\<open>formatKV\<close> over the pairs of the map in the order Go iterates.\<close>

definition format_kv :: "(string \<times> string) list \<Rightarrow> string" where
  "format_kv m =
     (if m = [] then []
      else join_with '', ''
        (map (\<lambda>k. k @ ''='' @ (case map_of m k of None \<Rightarrow> [] | Some v \<Rightarrow> v)) (sort (map fst m))))"

section \<open>The state machine is a fold of commands\<close>

definition entry_command :: "codecs \<Rightarrow> entry \<Rightarrow> command option" where
  "entry_command c e =
     (if etype e = EntryNormal \<and> edata e \<noteq> [] then unjson_command c (edata e) else None)"

definition sm_step :: "codecs \<Rightarrow> (string \<rightharpoonup> string) \<times> nat \<Rightarrow> entry \<Rightarrow> (string \<rightharpoonup> string) \<times> nat" where
  "sm_step c s e =
     ((case entry_command c e of None \<Rightarrow> fst s | Some cmd \<Rightarrow> (fst s)(ckey cmd \<mapsto> cvalue cmd)), eindex e)"

definition sm_state :: "('m, 'n) rnode \<Rightarrow> (string \<rightharpoonup> string) \<times> nat" where
  "sm_state n = (kv n, applied n)"

lemma apply_entry_sm: "sm_state (apply_entry L c n e) = sm_step c (sm_state n) e"
  by (auto simp: apply_entry_def sm_step_def sm_state_def entry_command_def Let_def
      split: entry_type.splits option.splits)

lemma apply_entries_sm: "sm_state (foldl (apply_entry L c) n es) = foldl (sm_step c) (sm_state n) es"
  by (induction es arbitrary: n) (simp_all add: apply_entry_sm)

lemma maybe_snapshot_sm: "sm_state (maybe_snapshot L c flt n) = sm_state n"
  by (auto simp: maybe_snapshot_def sm_state_def Let_def split: option.splits sum.splits prod.splits)

lemma apply_committed_sm: "sm_state (apply_committed L c flt n es) = foldl (sm_step c) (sm_state n) es"
  by (simp add: apply_committed_def maybe_snapshot_sm apply_entries_sm)

definition sm_codec_ok :: "codecs \<Rightarrow> bool" where
  "sm_codec_ok c = (\<forall>s r. json_sm c s = Some r \<longrightarrow> unjson_sm c r = Some s \<and> r \<noteq> [])"

lemma restore_sm_data:
  assumes "sm_codec_ok c" "sm_data c n = Some dat" "0 < applied n"
  shows "\<exists>n'. restore_sm c dat m = (n', False) \<and> sm_state n' = sm_state n \<and> stopped n' = stopped m"
  using assms by (auto simp: sm_codec_ok_def sm_data_def restore_sm_def sm_state_def)

section \<open>Lookups and updates of the cluster\<close>

lemma find_put_same: "find_node i cl = Some n \<Longrightarrow> find_node i (put_node i n' cl) = Some n'"
  by (induction cl) (auto simp: find_node_def put_node_def)

lemma find_put_other: "i \<noteq> j \<Longrightarrow> find_node i (put_node j n cl) = find_node i cl"
  by (induction cl) (auto simp: find_node_def put_node_def)

lemma find_put: "find_node j (put_node i n cl) =
    (if j = i then map_option (\<lambda>_. n) (find_node j cl) else find_node j cl)"
  by (induction cl) (auto simp: find_node_def put_node_def)

lemma put_node_ids [simp]: "map fst (put_node i n cl) = map fst cl"
  by (induction cl) (auto simp: put_node_def)

lemma set_active: "set (active_node_ids cl) = {i. \<exists>n. (i, n) \<in> set cl \<and> \<not> stopped n}"
  by (force simp: active_node_ids_def)

lemma active_sorted: "sorted (active_node_ids cl)"
  by (simp add: active_node_ids_def)

lemma find_sorted_least:
  "sorted xs \<Longrightarrow> find P xs = Some x \<Longrightarrow> P x \<and> x \<in> set xs \<and> (\<forall>y \<in> set xs. P y \<longrightarrow> x \<le> y)"
  by (induction xs) (auto split: if_splits)

section \<open>Stopping\<close>

definition chan_inv :: "('m, 'n) rnode \<Rightarrow> bool" where
  "chan_inv n = (stopped n = stop_closed n \<and> (done_closed n \<longrightarrow> stop_closed n))"

lemma stop_rnode_ok:
  "chan_inv n \<Longrightarrow> \<exists>n'. stop_rnode n = Some n' \<and> chan_inv n' \<and> stopped n' \<and> sm_state n' = sm_state n"
  by (auto simp: stop_rnode_def close_chan_def chan_inv_def sm_state_def)

lemma take_ready_chan:
  "stopped (take_ready L c f rd n) = stopped n" "stop_closed (take_ready L c f rd n) = stop_closed n"
  "done_closed (take_ready L c f rd n) = done_closed n"
  by (auto simp: take_ready_def accept_ready_def accept_snapshot_def restore_sm_def Let_def
      split: sum.splits option.splits)

lemma apply_entry_chan:
  "stopped (apply_entry L c n e) = stopped n \<and> stop_closed (apply_entry L c n e) = stop_closed n \<and>
   done_closed (apply_entry L c n e) = done_closed n"
  by (auto simp: apply_entry_def Let_def split: entry_type.splits option.splits)

lemma maybe_snapshot_chan:
  "stopped (maybe_snapshot L c f n) = stopped n \<and> stop_closed (maybe_snapshot L c f n) = stop_closed n \<and>
   done_closed (maybe_snapshot L c f n) = done_closed n"
  by (auto simp: maybe_snapshot_def Let_def split: option.splits sum.splits prod.splits)

lemma apply_committed_chan:
  "stopped (apply_committed L c f n es) = stopped n \<and> stop_closed (apply_committed L c f n es) = stop_closed n \<and>
   done_closed (apply_committed L c f n es) = done_closed n"
proof -
  have "stopped (foldl (apply_entry L c) n es) = stopped n \<and>
      stop_closed (foldl (apply_entry L c) n es) = stop_closed n \<and>
      done_closed (foldl (apply_entry L c) n es) = done_closed n"
    by (induction es arbitrary: n) (simp_all add: apply_entry_chan)
  then show ?thesis by (simp add: apply_committed_def maybe_snapshot_chan)
qed

definition cluster_inv :: "('m, 'n) cluster \<Rightarrow> bool" where
  "cluster_inv cl = (\<forall>i n. (i, n) \<in> set cl \<longrightarrow> chan_inv n)"

lemma cluster_inv_find: "cluster_inv cl \<Longrightarrow> find_node i cl = Some n \<Longrightarrow> chan_inv n"
  by (auto simp: cluster_inv_def find_node_def dest: map_of_SomeD)

lemma cluster_inv_put: "cluster_inv cl \<Longrightarrow> chan_inv n \<Longrightarrow> cluster_inv (put_node i n cl)"
  by (auto simp: cluster_inv_def put_node_def split: if_splits)

lemma cluster_inv_deliver:
  fixes cl :: "('a, 'b) cluster"
  shows "cluster_inv cl \<Longrightarrow> cluster_inv (deliver L cl msgs)"
  unfolding deliver_def
proof (rule foldl_invariant)
  fix s :: "('a, 'b) cluster" and m :: message
  assume s: "cluster_inv s"
  show "cluster_inv (deliver_one L s m)"
    using cluster_inv_find [OF s] s
    by (auto simp: deliver_one_def chan_inv_def split: option.splits sum.splits intro!: cluster_inv_put [OF s])
qed

lemma cluster_inv_ready: "cluster_inv cl \<Longrightarrow> cluster_inv (handle_ready L c f rd i cl)"
proof (cases "find_node i cl")
  case None
  assume "cluster_inv cl"
  with None show ?thesis by (simp add: handle_ready_def)
next
  case (Some n)
  assume cl: "cluster_inv cl"
  let ?cl = "deliver L (put_node i (take_ready L c f rd n) cl) (rd_messages rd)"
  have "chan_inv (take_ready L c f rd n)"
    using cluster_inv_find [OF cl Some] by (simp add: chan_inv_def take_ready_chan)
  then have inv: "cluster_inv ?cl" by (intro cluster_inv_deliver cluster_inv_put cl)
  then show ?thesis
    using Some cluster_inv_find [OF inv]
    by (auto simp: handle_ready_def Let_def chan_inv_def apply_committed_chan split: option.splits
        intro!: cluster_inv_put)
qed

lemma cluster_inv_event: "cluster_inv cl \<Longrightarrow> cluster_inv (run_event L c i ev cl)"
  using cluster_inv_find [of cl i]
  by (auto simp: run_event_def chan_inv_def cluster_inv_ready split: option.splits run_event.splits
      intro!: cluster_inv_put)

lemma stop_all_ok: "cluster_inv cl \<Longrightarrow> \<exists>cl'. stop_all cl = Some cl' \<and> cluster_inv cl' \<and> active_node_ids cl' = [] \<and>
    map fst cl' = map fst cl"
proof (induction cl)
  case Nil
  then show ?case by (simp add: active_node_ids_def)
next
  case (Cons p cl)
  obtain i n where p: "p = (i, n)" by (cases p)
  have "chan_inv n" "cluster_inv cl" using Cons.prems p by (auto simp: cluster_inv_def)
  with Cons.IH stop_rnode_ok [of n] obtain n' cl' where
    "stop_rnode n = Some n'" "chan_inv n'" "stopped n'" "stop_all cl = Some cl'" "cluster_inv cl'"
    "active_node_ids cl' = []" "map fst cl' = map fst cl" by blast
  then show ?case using p by (auto simp: cluster_inv_def active_node_ids_def)
qed

lemma accept_snapshot_disk: "accept_snapshot L c s (n\<lparr>ndisk := d\<rparr>) = (accept_snapshot L c s n)\<lparr>ndisk := d\<rparr>"
  by (cases n) (simp add: accept_snapshot_def restore_sm_def split: sum.split option.split)

lemma accept_ready_disk: "accept_ready L c rd (n\<lparr>ndisk := d\<rparr>) = (accept_ready L c rd n)\<lparr>ndisk := d\<rparr>"
  by (cases "accept_snapshot L c (rd_snapshot rd) n")
     (simp add: accept_ready_def accept_snapshot_disk Let_def split: sum.split)

text \<open>What the program does with a cluster: events of the node goroutines, and stops.\<close>

datatype cluster_op = Run nat run_event | StopAll | StopNode nat

definition cluster_op :: "('m, 'n) raft_lib \<Rightarrow> codecs \<Rightarrow> ('m, 'n) cluster \<Rightarrow> cluster_op \<Rightarrow> ('m, 'n) cluster option" where
  "cluster_op L c cl op =
     (case op of
        Run i ev \<Rightarrow> Some (run_event L c i ev cl)
      | StopAll \<Rightarrow> stop_all cl
      | StopNode i \<Rightarrow> (case stop_node i cl of None \<Rightarrow> None | Some (Inl _) \<Rightarrow> Some cl | Some (Inr cl') \<Rightarrow> Some cl'))"

fun cluster_ops :: "('m, 'n) raft_lib \<Rightarrow> codecs \<Rightarrow> ('m, 'n) cluster \<Rightarrow> cluster_op list \<Rightarrow> ('m, 'n) cluster option" where
  "cluster_ops L c cl [] = Some cl"
| "cluster_ops L c cl (op # ops) = Option.bind (cluster_op L c cl op) (\<lambda>cl. cluster_ops L c cl ops)"

lemma cluster_op_ok: "cluster_inv cl \<Longrightarrow> \<exists>cl'. cluster_op L c cl op = Some cl' \<and> cluster_inv cl'"
proof (cases op)
  case (StopNode i)
  assume cl: "cluster_inv cl"
  show ?thesis
  proof (cases "find_node i cl")
    case None
    then show ?thesis using StopNode cl by (simp add: cluster_op_def stop_node_def)
  next
    case (Some n)
    then obtain n' where "stop_rnode n = Some n'" "chan_inv n'"
      using stop_rnode_ok cluster_inv_find [OF cl] by blast
    then show ?thesis using StopNode Some cl by (simp add: cluster_op_def stop_node_def cluster_inv_put)
  qed
next
  case StopAll
  assume "cluster_inv cl"
  then show ?thesis using StopAll stop_all_ok by (auto simp: cluster_op_def)
next
  case (Run i ev)
  assume "cluster_inv cl"
  then show ?thesis using Run by (simp add: cluster_op_def cluster_inv_event)
qed

section \<open>Properties\<close>

text \<open>
  C5. Recovery is equivalent to not having crashed. A node applies committed entries and saves a
  snapshot of its state machine; after a restart from the disk the key-value map and the applied
  index are those of the snapshot, and applying the later entries again leads to the same state as
  applying them in the running node, whatever snapshots are taken on the way.
\<close>

theorem raft_restart_equivalence:
  assumes ok: "codecs_ok c" "sm_codec_ok c"
    and app: "append_all c fresh_disk bs = (d1, None)" "short_records c bs"
    and snap: "sm_data c n = Some (sdata s)" "0 < applied n" "0 < sindex s"
    and sv: "save_snapshot c NoFault s d1 = (d2, None)"
    and boot: "new_raft_node L c nd0 NoFault i peers d2 = Inr n'"
  shows "sm_state n' = sm_state n \<and> last_snap n' = sindex s \<and> \<not> stopped n' \<and>
         sm_state (apply_committed L c flt n' es) = sm_state (apply_committed L c flt' n es)"
proof -
  let ?b = "blank_node L i (d2\<lparr>dir_made := True\<rparr>) nd0"
  obtain b where load: "load c NoFault d2 = (d2\<lparr>dir_made := True\<rparr>, b, None)" "snap b = s" "has_state b"
    using raft_load [OF ok(1) app sv] snap(3) by (auto simp: )
  then obtain n1 where n1: "boot_snapshot L c b ?b = Inr n1"
    and rest: "sm_state n' = sm_state n1" "last_snap n' = last_snap n1" "stopped n' = stopped n1"
    using boot
    by (auto simp: new_raft_node_def Let_def sm_state_def split: sum.splits if_splits)
  obtain m where m: "ms_apply_snapshot L s (storage ?b) = Inr m"
    using n1 load(2) snap(3) by (auto simp: boot_snapshot_def is_empty_snap_def split: sum.splits)
  obtain n2 where n2: "restore_sm c (sdata s) (?b\<lparr>storage := m\<rparr>) = (n2, False)"
    "sm_state n2 = sm_state n" "stopped n2 = stopped (?b\<lparr>storage := m\<rparr>)"
    using restore_sm_data [OF ok(2) snap(1,2)] by blast
  have "n1 = n2\<lparr>last_snap := sindex s, conf := sconf s\<rparr>"
    using n1 load(2) snap(2,3) m n2(1,2)
    by (auto simp: boot_snapshot_def is_empty_snap_def Let_def sm_state_def)
  then have "sm_state n1 = sm_state n" "last_snap n1 = sindex s" "\<not> stopped n1"
    using n2 by (auto simp: sm_state_def blank_node_def)
  then show ?thesis using rest by (simp add: apply_committed_sm)
qed

text \<open>A library in which every operation succeeds and a codec for one key, for the examples.\<close>

definition mute_lib :: "(unit, unit) raft_lib" where
  "mute_lib =
     \<lparr>new_storage = (), ms_apply_snapshot = (\<lambda>_ _. Inr ()), ms_append = (\<lambda>_ _. Inr ()),
      ms_set_hard = (\<lambda>_ _. ()),
      ms_create_snapshot = (\<lambda>i v dat _. Inr ((), \<lparr>sindex = i, sterm = 0, sconf = v, sdata = dat\<rparr>)),
      ms_compact = (\<lambda>_ _. Inr ()), start_node = (\<lambda>_ _ _. ()), restart_node = (\<lambda>_ _. ()),
      nd_tick = id, nd_advance = id, nd_stop = id, nd_step = (\<lambda>_ _. Inr ()), nd_propose = (\<lambda>_ _. Inr ()),
      nd_is_leader = (\<lambda>_. True), nd_apply_conf = (\<lambda>_ _ _. None)\<rparr>"

definition one_kv_codecs :: "snapshot \<Rightarrow> codecs" where
  "one_kv_codecs s =
     (one_codecs zero_hard \<lparr>eindex = 4, eterm = 5, etype = EntryNormal, edata = []\<rparr> s)
       \<lparr>json_sm := (\<lambda>x. if x = \<lparr>sm_kv = Some Map.empty, sm_applied = 4\<rparr> then Some ''j'' else None),
        unjson_sm := (\<lambda>r. if r = ''j'' then Some \<lparr>sm_kv = Some Map.empty, sm_applied = 4\<rparr> else None)\<rparr>"

lemma one_kv_codecs_ok: "codecs_ok (one_kv_codecs s)" "sm_codec_ok (one_kv_codecs s)"
  using one_codecs_ok [of zero_hard "\<lparr>eindex = 4, eterm = 5, etype = EntryNormal, edata = []\<rparr>" s]
  by (auto simp: one_kv_codecs_def codecs_ok_def sm_codec_ok_def)

theorem raft_restart_equivalence_witness:
  "\<exists>n'. new_raft_node mute_lib (one_kv_codecs \<lparr>sindex = 4, sterm = 5, sconf = [], sdata = ''j''\<rparr>) () NoFault 7 [7]
      (fresh_disk\<lparr>dir_made := True, snap_file := Some ''s''\<rparr>) = Inr n' \<and>
    sm_state n' = (Map.empty, 4) \<and> last_snap n' = 4"
proof -
  let ?s = "\<lparr>sindex = 4, sterm = 5, sconf = [], sdata = ''j''\<rparr>"
  let ?c = "one_kv_codecs ?s"
  let ?n = "(blank_node mute_lib 7 fresh_disk ())\<lparr>applied := 4\<rparr>"
  have app: "append_all ?c fresh_disk [] = (fresh_disk, None)" "short_records ?c []"
    by (simp_all add: append_all_def short_records_def)
  have sv: "save_snapshot ?c NoFault ?s fresh_disk =
      (fresh_disk\<lparr>dir_made := True, snap_file := Some ''s''\<rparr>, None)"
    by (simp add: save_snapshot_def is_empty_snap_def ensure_dir_def fresh_disk_def one_kv_codecs_def one_codecs_def)
  have sm: "sm_data ?c ?n = Some (sdata ?s)"
    by (simp add: sm_data_def one_kv_codecs_def blank_node_def)
  have load: "load ?c NoFault (fresh_disk\<lparr>dir_made := True, snap_file := Some ''s''\<rparr>) =
      (fresh_disk\<lparr>dir_made := True, snap_file := Some ''s''\<rparr>,
       \<lparr>has_state = True, hard = zero_hard, entries = [], snap = ?s\<rparr>, None)"
    using raft_load [OF one_kv_codecs_ok(1) app sv] by (simp add: last_hard_def fresh_disk_def)
  obtain n' where n': "new_raft_node mute_lib ?c () NoFault 7 [7]
      (fresh_disk\<lparr>dir_made := True, snap_file := Some ''s''\<rparr>) = Inr n'"
    unfolding new_raft_node_def load
    by (auto simp: boot_snapshot_def is_empty_snap_def mute_lib_def restore_sm_def one_kv_codecs_def Let_def)
  show ?thesis
    using raft_restart_equivalence [OF one_kv_codecs_ok app sm _ _ sv n', of NoFault "[]" NoFault] n'
    by (simp add: sm_state_def blank_node_def)
qed

text \<open>
  A node goes on after it failed to persist. Up to the files on its disk, a node that could not
  save the snapshot or append the entries of a \<open>Ready\<close> is in the same state as one that could: it has
  taken the entries into its memory storage and has the same answers for its peers, which raft
  permits only for entries on stable storage.
\<close>

lemma persist_failure_ignored:
  "(take_ready L c f rd n)\<lparr>ndisk := d\<rparr> = (take_ready L c f' rd n)\<lparr>ndisk := d\<rparr>"
  by (simp add: take_ready_def accept_ready_disk)

text \<open>
  No channel is closed twice. Starting from nodes with open channels, no sequence of node events,
  \<open>stopAll\<close> and \<open>stopNode\<close> calls panics, and \<open>stopNode\<close> of a stopped node is a no-op.
\<close>

lemma stops_never_panic:
  assumes "cluster_inv cl"
  shows "cluster_ops L c cl ops \<noteq> None"
  using assms
proof (induction ops arbitrary: cl)
  case Nil
  then show ?case by simp
next
  case (Cons op ops)
  then obtain cl' where "cluster_op L c cl op = Some cl'" "cluster_inv cl'"
    using cluster_op_ok by blast
  then show ?case using Cons.IH by simp
qed

theorem stops_never_panic_witness:
  "cluster_ops mute_lib (one_kv_codecs zero_snap) [(7, blank_node mute_lib 7 fresh_disk ())]
     [StopNode 7, Run 7 StopEv, StopAll, StopNode 7] \<noteq> None"
  by (rule stops_never_panic) (simp add: cluster_inv_def chan_inv_def blank_node_def)

text \<open>
  \<open>chooseFollower\<close> returns the least running node other than the leader, and its error exactly
  when there is none, whatever the order Go iterates over the map in.
\<close>

lemma choose_follower_least:
  "(case choose_follower leader cl of
      None \<Rightarrow> {i. \<exists>n. (i, n) \<in> set cl \<and> \<not> stopped n} \<subseteq> {leader}
    | Some i \<Rightarrow> i \<noteq> leader \<and> (\<exists>n. (i, n) \<in> set cl \<and> \<not> stopped n) \<and>
        (\<forall>j n. (j, n) \<in> set cl \<longrightarrow> \<not> stopped n \<longrightarrow> j \<noteq> leader \<longrightarrow> i \<le> j))"
proof (cases "choose_follower leader cl")
  case None
  then have "\<forall>i \<in> set (active_node_ids cl). i = leader"
    by (simp add: choose_follower_def find_None_iff)
  then show ?thesis using None by (auto simp: set_active)
next
  case (Some i)
  then have "i \<noteq> leader \<and> i \<in> set (active_node_ids cl) \<and> (\<forall>j \<in> set (active_node_ids cl). j \<noteq> leader \<longrightarrow> i \<le> j)"
    using find_sorted_least [OF active_sorted, of "\<lambda>i. i \<noteq> leader" cl i] by (simp add: choose_follower_def)
  then show ?thesis using Some by (auto simp: set_active)
qed

theorem choose_follower_least_witness:
  "choose_follower 7 [(9, blank_node mute_lib 9 fresh_disk ()), (7, blank_node mute_lib 7 fresh_disk ()),
      (8, blank_node mute_lib 8 fresh_disk ())] = Some 8 \<and>
   (\<exists>n. (8 :: nat, n) \<in> set [(9, blank_node mute_lib 9 fresh_disk ()), (7, blank_node mute_lib 7 fresh_disk ()),
      (8, blank_node mute_lib 8 fresh_disk ())] \<and> \<not> stopped n)"
proof -
  let ?cl = "[(9, blank_node mute_lib 9 fresh_disk ()), (7, blank_node mute_lib 7 fresh_disk ()),
      (8, blank_node mute_lib 8 fresh_disk ())]"
  have c: "choose_follower 7 ?cl = Some 8"
    by (simp add: choose_follower_def active_node_ids_def blank_node_def)
  have "\<exists>n. (8 :: nat, n) \<in> set ?cl \<and> \<not> stopped n"
    using choose_follower_least [where leader = 7 and cl = ?cl] unfolding c option.case by blast
  with c show ?thesis by blast
qed

text \<open>With every node stopped \<open>waitValueOnActiveNodes\<close> succeeds at its first poll, for any key and value.\<close>

lemma wait_value_no_nodes: "stop_all cl = Some cl' \<Longrightarrow> cluster_inv cl \<Longrightarrow> wait_value k v (cl' # polls)"
  using stop_all_ok [of cl] by (auto simp: value_everywhere_def)

text \<open>A local snapshot is taken only after five more applied entries, and keeps two entries before it.\<close>

lemma maybe_snapshot_every:
  assumes "maybe_snapshot L c flt n \<noteq> n"
  shows "last_snap n + snap_every n \<le> applied n"
  using assms by (auto simp: maybe_snapshot_def split: if_splits)

end
