(* ===== verification/RaftMem.thy ===== *)
theory RaftMem
  imports RaftNode
begin

text \<open>
  The in-memory cluster of \<open>etcd/raft/main.go\<close>: the nodes share a Go map and hand each other their
  messages directly. The raft library and the codecs are those of \<open>RaftNode\<close>; nothing is written to
  disk. A run is a list of turns of the nodes' loops, in any order; polling loops take the clusters
  seen at their polls.
\<close>

section \<open>The nodes\<close>

record ('m, 'n) mem_node =
  mm_id :: nat
  mm_node :: 'n
  mm_storage :: 'm
  mm_kv :: "string \<rightharpoonup> string"
  mm_applied :: nat
  mm_stopped :: bool
  mm_stop_closed :: bool   \<comment> \<open>\<open>stopCh\<close>\<close>
  mm_done_closed :: bool   \<comment> \<open>\<open>doneCh\<close>\<close>

type_synonym ('m, 'n) mem_cluster = "(nat \<times> ('m, 'n) mem_node) list"

definition mem_config :: "nat \<Rightarrow> config" where
  "mem_config i =
     \<lparr>cfg_id = i, cfg_applied = 0, election_tick = 10, heartbeat_tick = 1, max_size_per_msg = 1024 * 1024,
      max_inflight = 256, check_quorum = True, pre_vote = True\<rparr>"

definition mem_start :: "('m, 'n) raft_lib \<Rightarrow> nat list \<Rightarrow> nat \<Rightarrow> ('m, 'n) mem_node" where
  "mem_start L peers i =
     \<lparr>mm_id = i, mm_node = start_node L (mem_config i) (new_storage L) peers, mm_storage = new_storage L,
      mm_kv = Map.empty, mm_applied = 0, mm_stopped = False, mm_stop_closed = False, mm_done_closed = False\<rparr>"

definition new_cluster :: "('m, 'n) raft_lib \<Rightarrow> nat list \<Rightarrow> ('m, 'n) mem_cluster" where
  "new_cluster L ids = foldl (\<lambda>cl i. AList.update i (mem_start L ids i) cl) [] ids"

definition mem_find :: "nat \<Rightarrow> ('m, 'n) mem_cluster \<Rightarrow> ('m, 'n) mem_node option" where
  "mem_find i cl = map_of cl i"

text \<open>The nodes are shared pointers: an assignment through one changes the entry of the map.\<close>

definition mem_put :: "nat \<Rightarrow> ('m, 'n) mem_node \<Rightarrow> ('m, 'n) mem_cluster \<Rightarrow> ('m, 'n) mem_cluster" where
  "mem_put i n cl = map (\<lambda>(j, m). (j, if j = i then n else m)) cl"

section \<open>The loop of a node\<close>

definition mem_apply_one :: "('m, 'n) raft_lib \<Rightarrow> codecs \<Rightarrow> ('m, 'n) mem_node \<Rightarrow> entry \<Rightarrow> ('m, 'n) mem_node" where
  "mem_apply_one L c n e =
     (let n = n\<lparr>mm_applied := eindex e\<rparr>
      in case etype e of
           EntryNormal \<Rightarrow>
             if edata e = [] then n
             else (case unjson_command c (edata e) of
                     None \<Rightarrow> n
                   | Some cmd \<Rightarrow> n\<lparr>mm_kv := (mm_kv n)(ckey cmd \<mapsto> cvalue cmd)\<rparr>)
         | EntryConfChange \<Rightarrow>
             (case nd_apply_conf L EntryConfChange (edata e) (mm_node n) of
                None \<Rightarrow> n
              | Some (nd, _) \<Rightarrow> n\<lparr>mm_node := nd\<rparr>)
         | EntryConfChangeV2 \<Rightarrow> n)"

definition mem_apply_committed :: "('m, 'n) raft_lib \<Rightarrow> codecs \<Rightarrow> ('m, 'n) mem_node \<Rightarrow> entry list \<Rightarrow> ('m, 'n) mem_node" where
  "mem_apply_committed L c n es = foldl (mem_apply_one L c) n es"

definition mem_deliver_one :: "('m, 'n) raft_lib \<Rightarrow> ('m, 'n) mem_cluster \<Rightarrow> message \<Rightarrow> ('m, 'n) mem_cluster" where
  "mem_deliver_one L cl msg =
     (case mem_find (mto msg) cl of
        None \<Rightarrow> cl
      | Some t \<Rightarrow>
          if mm_stopped t then cl
          else (case nd_step L msg (mm_node t) of
                  Inl _ \<Rightarrow> cl
                | Inr nd \<Rightarrow> mem_put (mto msg) (t\<lparr>mm_node := nd\<rparr>) cl))"

definition mem_deliver :: "('m, 'n) raft_lib \<Rightarrow> ('m, 'n) mem_cluster \<Rightarrow> message list \<Rightarrow> ('m, 'n) mem_cluster" where
  "mem_deliver L cl msgs = foldl (mem_deliver_one L) cl msgs"

text \<open>The storage part of a \<open>Ready\<close>: its errors are logged and the turn goes on.\<close>

definition mem_store :: "('m, 'n) raft_lib \<Rightarrow> ready \<Rightarrow> 'm \<Rightarrow> 'm" where
  "mem_store L rd m =
     (let m = (if is_empty_snap (rd_snapshot rd) then m
               else case ms_apply_snapshot L (rd_snapshot rd) m of Inl _ \<Rightarrow> m | Inr m' \<Rightarrow> m');
          m = (if is_empty_hard (rd_hard rd) then m else ms_set_hard L (rd_hard rd) m)
      in case ms_append L (rd_entries rd) m of Inl _ \<Rightarrow> m | Inr m' \<Rightarrow> m')"

datatype mem_event = MTick | MReady ready | MStop

text \<open>One turn of the \<open>select\<close> of node \<open>i\<close>.\<close>

definition mem_turn :: "('m, 'n) raft_lib \<Rightarrow> codecs \<Rightarrow> ('m, 'n) mem_cluster \<Rightarrow> nat \<times> mem_event \<Rightarrow> ('m, 'n) mem_cluster" where
  "mem_turn L c cl ev =
     (case mem_find (fst ev) cl of
        None \<Rightarrow> cl
      | Some n \<Rightarrow>
          if mm_done_closed n then cl
          else
            (case snd ev of
               MTick \<Rightarrow> mem_put (fst ev) (n\<lparr>mm_node := nd_tick L (mm_node n)\<rparr>) cl
             | MReady rd \<Rightarrow>
                 (let cl = mem_put (fst ev) (n\<lparr>mm_storage := mem_store L rd (mm_storage n)\<rparr>) cl;
                      cl = mem_deliver L cl (rd_messages rd)
                  in case mem_find (fst ev) cl of
                       None \<Rightarrow> cl
                     | Some n \<Rightarrow>
                         (let n = mem_apply_committed L c n (rd_committed rd)
                          in mem_put (fst ev) (n\<lparr>mm_node := nd_advance L (mm_node n)\<rparr>) cl))
             | MStop \<Rightarrow>
                 if mm_stop_closed n
                 then mem_put (fst ev) (n\<lparr>mm_node := nd_stop L (mm_node n), mm_done_closed := True\<rparr>) cl
                 else cl))"

section \<open>The cluster's operations\<close>

text \<open>\<open>stop\<close>, up to the wait for \<open>doneCh\<close>: closing a closed channel would panic.\<close>

definition mem_stop :: "('m, 'n) mem_node \<Rightarrow> ('m, 'n) mem_node option" where
  "mem_stop n =
     (if mm_stopped n then Some n
      else if mm_stop_closed n then None
      else Some (n\<lparr>mm_stopped := True, mm_stop_closed := True\<rparr>))"

definition mem_get :: "string \<Rightarrow> ('m, 'n) mem_node \<Rightarrow> string option" where
  "mem_get k n = mm_kv n k"

definition mem_snapshot :: "('m, 'n) mem_node \<Rightarrow> nat \<times> (string \<rightharpoonup> string)" where
  "mem_snapshot n = (mm_applied n, mm_kv n)"

definition mem_active :: "('m, 'n) mem_cluster \<Rightarrow> nat list" where
  "mem_active cl = sort (map fst (filter (\<lambda>(i, n). \<not> mm_stopped n) cl))"

definition mem_stop_node :: "nat \<Rightarrow> ('m, 'n) mem_cluster \<Rightarrow> (string, ('m, 'n) mem_cluster) result option" where
  "mem_stop_node i cl =
     (case mem_find i cl of
        None \<Rightarrow> Some (Inl (''node '' @ nat_digits i @ '' not found''))
      | Some n \<Rightarrow> map_option (\<lambda>n'. Inr (mem_put i n' cl)) (mem_stop n))"

fun mem_stop_all :: "('m, 'n) mem_cluster \<Rightarrow> ('m, 'n) mem_cluster option" where
  "mem_stop_all [] = Some []"
| "mem_stop_all ((i, n) # cl) = do { n' \<leftarrow> mem_stop n; cl' \<leftarrow> mem_stop_all cl; Some ((i, n') # cl') }"

definition mem_is_leader :: "('m, 'n) raft_lib \<Rightarrow> ('m, 'n) mem_cluster \<Rightarrow> nat \<Rightarrow> bool" where
  "mem_is_leader L cl i = (case mem_find i cl of None \<Rightarrow> False | Some n \<Rightarrow> nd_is_leader L (mm_node n))"

fun mem_wait_leader :: "('m, 'n) raft_lib \<Rightarrow> ('m, 'n) mem_cluster list \<Rightarrow> nat option" where
  "mem_wait_leader L [] = None"
| "mem_wait_leader L (cl # polls) =
     (case find (mem_is_leader L cl) (mem_active cl) of Some i \<Rightarrow> Some i | None \<Rightarrow> mem_wait_leader L polls)"

definition mem_choose_follower :: "('m, 'n) raft_lib \<Rightarrow> nat \<Rightarrow> ('m, 'n) mem_cluster \<Rightarrow> nat option" where
  "mem_choose_follower L leader cl = find (\<lambda>i. i \<noteq> leader \<and> \<not> mem_is_leader L cl i) (mem_active cl)"

definition mem_propose ::
    "('m, 'n) raft_lib \<Rightarrow> codecs \<Rightarrow> nat \<Rightarrow> string \<Rightarrow> string \<Rightarrow> ('m, 'n) mem_cluster \<Rightarrow>
     (propose_error, ('m, 'n) mem_cluster) result" where
  "mem_propose L c leader k v cl =
     (case mem_find leader cl of
        None \<Rightarrow> Inl LeaderNotFound
      | Some n \<Rightarrow>
          if mm_stopped n then Inl LeaderStopped
          else
            (case json_command c \<lparr>ckey = k, cvalue = v\<rparr> of
               None \<Rightarrow> Inl ErrJson
             | Some dat \<Rightarrow>
                 (case nd_propose L dat (mm_node n) of
                    Inl e \<Rightarrow> Inl (ErrPropose e)
                  | Inr nd \<Rightarrow> Inr (mem_put leader (n\<lparr>mm_node := nd\<rparr>) cl))))"

definition mem_everywhere :: "string \<Rightarrow> string \<Rightarrow> ('m, 'n) mem_cluster \<Rightarrow> bool" where
  "mem_everywhere k v cl =
     list_all (\<lambda>i. case mem_find i cl of None \<Rightarrow> False | Some n \<Rightarrow> mem_get k n = Some v) (mem_active cl)"

fun mem_wait_value :: "string \<Rightarrow> string \<Rightarrow> ('m, 'n) mem_cluster list \<Rightarrow> bool" where
  "mem_wait_value k v [] = False"
| "mem_wait_value k v (cl # polls) = (mem_everywhere k v cl \<or> mem_wait_value k v polls)"

text \<open>The line \<open>printState\<close> logs for a node.\<close>

definition mem_state_line :: "(string \<times> string) list \<Rightarrow> nat \<Rightarrow> nat \<Rightarrow> string" where
  "mem_state_line pairs i ap = ''node='' @ nat_digits i @ '' appliedIndex='' @ nat_digits ap @ '' kv={'' @ format_kv pairs @ ''}''"

text \<open>\<open>main\<close>, between its waits the nodes run: \<open>polls k cl\<close> are the clusters seen by the polls of the
\<open>k\<close>-th wait, which starts from \<open>cl\<close>; it goes on from the last of them.\<close>

datatype mem_main_error = ElectionTimeout | MainPropose propose_error | NotReplicated string | NoFollower | StopFailed string | StopPanic

definition propose_wait ::
    "('m, 'n) raft_lib \<Rightarrow> codecs \<Rightarrow> (nat \<Rightarrow> ('m, 'n) mem_cluster \<Rightarrow> ('m, 'n) mem_cluster list) \<Rightarrow> nat \<Rightarrow>
     ('m, 'n) mem_cluster \<Rightarrow> nat \<times> string \<times> string \<Rightarrow> ('m, 'n) mem_cluster \<times> mem_main_error option" where
  "propose_wait L c polls leader cl p =
     (case p of (k, key, v) \<Rightarrow>
        (case mem_propose L c leader key v cl of
           Inl e \<Rightarrow> (cl, Some (MainPropose e))
         | Inr cl \<Rightarrow>
             (let seen = polls k cl
              in if mem_wait_value key v seen then (last seen, None) else (cl, Some (NotReplicated key)))))"

definition mem_main ::
    "('m, 'n) raft_lib \<Rightarrow> codecs \<Rightarrow> (nat \<Rightarrow> ('m, 'n) mem_cluster \<Rightarrow> ('m, 'n) mem_cluster list) \<Rightarrow>
     (mem_main_error, ('m, 'n) mem_cluster) result" where
  "mem_main L c polls =
     (let cl = new_cluster L [1, 2, 3];
          seen = polls 0 cl
      in case mem_wait_leader L seen of
           None \<Rightarrow> Inl ElectionTimeout
         | Some leader \<Rightarrow>
             (case for_range (propose_wait L c polls leader) (last seen) [(1, ''x'', ''10''), (2, ''y'', ''20'')] of
                (_, Some e) \<Rightarrow> Inl e
              | (cl, None) \<Rightarrow>
                  (case mem_choose_follower L leader cl of
                     None \<Rightarrow> Inl NoFollower
                   | Some f \<Rightarrow>
                       (case mem_stop_node f cl of
                          None \<Rightarrow> Inl StopPanic
                        | Some (Inl msg) \<Rightarrow> Inl (StopFailed msg)
                        | Some (Inr cl) \<Rightarrow>
                            (case propose_wait L c polls leader cl (3, ''z'', ''30'') of
                               (_, Some e) \<Rightarrow> Inl e
                             | (cl, None) \<Rightarrow>
                                 (case mem_stop_all cl of None \<Rightarrow> Inl StopPanic | Some cl \<Rightarrow> Inr cl))))))"

section \<open>Runs\<close>

text \<open>What can happen to a cluster: turns of the nodes' loops, and the calls \<open>main\<close> makes between them.\<close>

datatype mem_action = Turn nat mem_event | StopNode nat | Propose nat string string

definition mem_act :: "('m, 'n) raft_lib \<Rightarrow> codecs \<Rightarrow> ('m, 'n) mem_cluster \<Rightarrow> mem_action \<Rightarrow> ('m, 'n) mem_cluster" where
  "mem_act L c cl a =
     (case a of
        Turn i ev \<Rightarrow> mem_turn L c cl (i, ev)
      | StopNode i \<Rightarrow> (case mem_stop_node i cl of Some (Inr cl') \<Rightarrow> cl' | _ \<Rightarrow> cl)
      | Propose i k v \<Rightarrow> (case mem_propose L c i k v cl of Inr cl' \<Rightarrow> cl' | Inl _ \<Rightarrow> cl))"

text \<open>The committed entries a run hands to node \<open>i\<close>: those of its \<open>Ready\<close>s, until its loop is gone.\<close>

definition handed_now :: "('m, 'n) mem_cluster \<Rightarrow> nat \<Rightarrow> mem_action \<Rightarrow> entry list" where
  "handed_now cl i a =
     (case a of
        Turn j (MReady rd) \<Rightarrow>
          (case mem_find i cl of
             Some n \<Rightarrow> if j = i \<and> \<not> mm_done_closed n then rd_committed rd else []
           | None \<Rightarrow> [])
      | _ \<Rightarrow> [])"

fun handed :: "('m, 'n) raft_lib \<Rightarrow> codecs \<Rightarrow> nat \<Rightarrow> ('m, 'n) mem_cluster \<Rightarrow> mem_action list \<Rightarrow> entry list" where
  "handed L c i cl [] = []"
| "handed L c i cl (a # acts) = handed_now cl i a @ handed L c i (mem_act L c cl a) acts"

section \<open>Lemmas\<close>

definition mem_sm :: "('m, 'n) mem_node \<Rightarrow> (string \<rightharpoonup> string) \<times> nat" where
  "mem_sm n = (mm_kv n, mm_applied n)"

lemma mem_apply_one_sm: "mem_sm (mem_apply_one L c n e) = sm_step c (mem_sm n) e"
  by (auto simp: mem_apply_one_def sm_step_def mem_sm_def entry_command_def Let_def
      split: entry_type.splits option.splits)

lemma mem_apply_sm: "mem_sm (mem_apply_committed L c n es) = foldl (sm_step c) (mem_sm n) es"
  unfolding mem_apply_committed_def by (induction es arbitrary: n) (simp_all add: mem_apply_one_sm)

lemma mem_find_put: "mem_find j (mem_put i n cl) = (if j = i then map_option (\<lambda>_. n) (mem_find j cl) else mem_find j cl)"
  by (induction cl) (auto simp: mem_find_def mem_put_def)

text \<open>The state machine of a node, as the cluster shows it.\<close>

definition sm_at :: "nat \<Rightarrow> ('m, 'n) mem_cluster \<Rightarrow> ((string \<rightharpoonup> string) \<times> nat) option" where
  "sm_at i cl = map_option mem_sm (mem_find i cl)"

lemma sm_at_put_same: "mem_find j cl = Some m \<Longrightarrow> mem_sm n = mem_sm m \<Longrightarrow> sm_at i (mem_put j n cl) = sm_at i cl"
  by (simp add: sm_at_def mem_find_put)

lemma deliver_one_sm: "sm_at i (mem_deliver_one L cl msg) = sm_at i cl"
proof (cases "mem_find (mto msg) cl")
  case (Some t)
  then have "sm_at i (mem_put (mto msg) (t\<lparr>mm_node := nd\<rparr>) cl) = sm_at i cl" for nd
    by (rule sm_at_put_same) (simp add: mem_sm_def)
  with Some show ?thesis by (simp add: mem_deliver_one_def split: sum.split)
qed (simp add: mem_deliver_one_def)

lemma deliver_sm: "sm_at i (mem_deliver L cl msgs) = sm_at i cl"
  unfolding mem_deliver_def by (induction msgs arbitrary: cl) (simp_all add: deliver_one_sm)

lemma ready_sm:
  assumes "mem_find j cl = Some n" "\<not> mm_done_closed n"
  shows "sm_at i (mem_turn L c cl (j, MReady rd)) =
    map_option (\<lambda>s. if i = j then foldl (sm_step c) s (rd_committed rd) else s) (sm_at i cl)"
proof -
  let ?cl = "mem_deliver L (mem_put j (n\<lparr>mm_storage := mem_store L rd (mm_storage n)\<rparr>) cl) (rd_messages rd)"
  have "sm_at k (mem_put j (n\<lparr>mm_storage := mem_store L rd (mm_storage n)\<rparr>) cl) = sm_at k cl" for k
    using assms(1) by (rule sm_at_put_same) (simp add: mem_sm_def)
  then have eq: "sm_at k ?cl = sm_at k cl" for k by (simp add: deliver_sm)
  from eq [of j] assms(1) obtain n1 where n1: "mem_find j ?cl = Some n1" "mem_sm n1 = mem_sm n"
    by (auto simp: sm_at_def)
  let ?n = "mem_apply_committed L c n1 (rd_committed rd)"
  have "mem_sm (?n\<lparr>mm_node := nd_advance L (mm_node ?n)\<rparr>) = foldl (sm_step c) (mem_sm n) (rd_committed rd)"
    using n1(2) mem_apply_sm [of L c n1 "rd_committed rd"] by (simp add: mem_sm_def)
  then have "sm_at i (mem_put j (?n\<lparr>mm_node := nd_advance L (mm_node ?n)\<rparr>) ?cl) =
      map_option (\<lambda>s. if i = j then foldl (sm_step c) s (rd_committed rd) else s) (sm_at i cl)"
    using eq [of i] n1(1) assms(1) by (auto simp: sm_at_def mem_find_put option.map_ident)
  moreover have "mem_turn L c cl (j, MReady rd) = mem_put j (?n\<lparr>mm_node := nd_advance L (mm_node ?n)\<rparr>) ?cl"
    using assms n1(1) by (simp add: mem_turn_def Let_def)
  ultimately show ?thesis by simp
qed

lemma quiet_sm:
  "sm_at i (mem_turn L c cl (j, MTick)) = sm_at i cl" "sm_at i (mem_turn L c cl (j, MStop)) = sm_at i cl"
  by (auto simp: mem_turn_def mem_sm_def split: option.split intro!: sm_at_put_same)

lemma stop_node_sm: "mem_stop_node j cl = Some (Inr cl') \<Longrightarrow> sm_at i cl' = sm_at i cl"
  by (auto simp: mem_stop_node_def mem_stop_def mem_sm_def split: option.splits if_splits intro!: sm_at_put_same)

lemma propose_sm: "mem_propose L c j k v cl = Inr cl' \<Longrightarrow> sm_at i cl' = sm_at i cl"
  by (auto simp: mem_propose_def mem_sm_def split: option.splits if_splits sum.splits intro!: sm_at_put_same)

lemma act_sm: "sm_at i (mem_act L c cl a) = map_option (\<lambda>s. foldl (sm_step c) s (handed_now cl i a)) (sm_at i cl)"
proof (cases a)
  case (Turn j ev)
  show ?thesis
  proof (cases ev)
    case (MReady rd)
    show ?thesis
    proof (cases "mem_find j cl")
      case None
      then show ?thesis
        using Turn MReady
        by (auto simp: mem_act_def mem_turn_def handed_now_def sm_at_def option.map_ident split: option.splits)
    next
      case (Some n)
      show ?thesis
      proof (cases "mm_done_closed n")
        case True
        then show ?thesis
          using Turn MReady Some
          by (auto simp: mem_act_def mem_turn_def handed_now_def sm_at_def option.map_ident split: option.splits)
      next
        case False
        then show ?thesis
          using Turn MReady ready_sm [OF Some False, of i L c rd] Some
          by (auto simp: mem_act_def handed_now_def sm_at_def split: option.splits)
      qed
    qed
  qed (use Turn quiet_sm in \<open>simp_all add: mem_act_def handed_now_def option.map_ident\<close>)
next
  case (StopNode j)
  then show ?thesis
    using stop_node_sm [of j cl _ i]
    by (auto simp: mem_act_def handed_now_def option.map_ident split: option.splits sum.splits)
next
  case (Propose j k v)
  then show ?thesis
    using propose_sm [of L c j k v cl _ i]
    by (auto simp: mem_act_def handed_now_def option.map_ident split: sum.splits)
qed

lemma run_sm:
  "sm_at i (foldl (mem_act L c) cl acts) = map_option (\<lambda>s. foldl (sm_step c) s (handed L c i cl acts)) (sm_at i cl)"
proof (induction acts arbitrary: cl)
  case Nil
  then show ?case by (simp add: option.map_ident)
next
  case (Cons a acts)
  then show ?case by (simp add: act_sm option.map_comp comp_def)
qed

lemma new_cluster_sm: "i \<in> set ids \<Longrightarrow> sm_at i (new_cluster L ids) = Some (Map.empty, 0)"
proof -
  have "i \<in> set js \<or> sm_at i cl = Some (Map.empty, 0) \<Longrightarrow>
      sm_at i (foldl (\<lambda>cl i. AList.update i (mem_start L ids i) cl) cl js) = Some (Map.empty, 0)" for js cl
  proof (induction js arbitrary: cl)
    case (Cons j js)
    have "j = i \<or> sm_at i cl = Some (Map.empty, 0) \<Longrightarrow> sm_at i (AList.update j (mem_start L ids j) cl) = Some (Map.empty, 0)"
      by (auto simp: sm_at_def mem_find_def update_conv mem_sm_def mem_start_def)
    then show ?case using Cons by auto
  qed simp
  then show "i \<in> set ids \<Longrightarrow> sm_at i (new_cluster L ids) = Some (Map.empty, 0)" by (simp add: new_cluster_def)
qed

lemma mem_run_state:
  assumes "i \<in> set ids"
  shows "sm_at i (foldl (mem_act L c) (new_cluster L ids) acts) =
    Some (foldl (sm_step c) (Map.empty, 0) (handed L c i (new_cluster L ids) acts))"
  by (simp add: run_sm new_cluster_sm [OF assms])

section \<open>Properties\<close>

text \<open>
  C9. In every run, if raft hands node \<open>j\<close> the entries it hands node \<open>i\<close> and then possibly more, both
  nodes exist and \<open>j\<close>'s map and applied index are those of \<open>i\<close> after the further entries; nodes that have
  been handed the same entries agree.
\<close>

theorem replicas_agree:
  assumes "i \<in> set ids" "j \<in> set ids"
    and "handed L c j (new_cluster L ids) acts = handed L c i (new_cluster L ids) acts @ rest"
  shows "\<exists>ni nj. mem_find i (foldl (mem_act L c) (new_cluster L ids) acts) = Some ni \<and>
    mem_find j (foldl (mem_act L c) (new_cluster L ids) acts) = Some nj \<and>
    prod.swap (mem_snapshot nj) = foldl (sm_step c) (prod.swap (mem_snapshot ni)) rest"
  using mem_run_state [OF assms(1), of L c acts] mem_run_state [OF assms(2), of L c acts] assms(3)
  by (auto simp: sm_at_def mem_sm_def mem_snapshot_def prod.swap_def)

definition set_x_codecs :: codecs where
  "set_x_codecs = (one_kv_codecs zero_snap)\<lparr>unjson_command := (\<lambda>d. if d = ''x'' then Some \<lparr>ckey = ''x'', cvalue = ''10''\<rparr> else None)\<rparr>"

definition set_x_ready :: ready where
  "set_x_ready =
     \<lparr>rd_hard = zero_hard, rd_entries = [], rd_snapshot = zero_snap,
      rd_committed = [\<lparr>eindex = 5, eterm = 3, etype = EntryNormal, edata = ''x''\<rparr>], rd_messages = []\<rparr>"

lemma replicas_agree_witness:
  "\<exists>ni nj. mem_find 2 (foldl (mem_act mute_lib set_x_codecs) (new_cluster mute_lib [2, 3]) [Turn 3 (MReady set_x_ready)]) = Some ni \<and>
     mem_find 3 (foldl (mem_act mute_lib set_x_codecs) (new_cluster mute_lib [2, 3]) [Turn 3 (MReady set_x_ready)]) = Some nj \<and>
     prod.swap (mem_snapshot nj) = foldl (sm_step set_x_codecs) (prod.swap (mem_snapshot ni)) (rd_committed set_x_ready)"
  by (rule replicas_agree) (simp_all add: new_cluster_def handed_now_def mem_find_def mem_start_def)

text \<open>Stopping is idempotent and never panics on a node whose channel is closed only by \<open>stop\<close>.\<close>

lemma mem_stop_twice:
  assumes "mm_stopped n = mm_stop_closed n"
  shows "\<exists>n'. mem_stop n = Some n' \<and> mm_stopped n' \<and> mm_stop_closed n' \<and> mem_stop n' = Some n'"
  using assms by (auto simp: mem_stop_def)

text \<open>A successful wait has seen the value on every running node at one of its polls.\<close>

lemma mem_wait_value_seen: "mem_wait_value k v polls \<longleftrightarrow> (\<exists>cl \<in> set polls. mem_everywhere k v cl)"
  by (induction polls) auto

end
