(* ===== verification/Metcd.thy ===== *)
theory Metcd
  imports RaftNode
begin

text \<open>
  The unfinished key-value server \<open>etcd/metcd\<close>: the start of a node, the goroutine that forwards
  proposals, the loop over raft's \<open>Ready\<close>s, the HTTP server goroutine and their shutdown, as a step
  relation over one state. The raft library is \<open>raft_lib\<close>; proposing a configuration change, the
  snapshot directory and the write-ahead log of etcd are parameters of their own.
\<close>

section \<open>Starting a node\<close>

record wal_snapshot =
  ws_index :: nat
  ws_term :: nat
  ws_conf :: "nat list"

text \<open>What is on disk, and which operations on it fail. \<open>newest_snap\<close> is \<open>LoadNewestAvailable\<close>, which
documents an error when no snapshot matches.\<close>

record metcd_fs =
  snapdir_exists :: bool
  wal_exists :: bool
  mkdir_ok :: bool
  wal_snaps_ok :: bool   \<comment> \<open>\<open>ValidSnapshotEntries\<close>\<close>
  newest_snap :: "snapshot option"
  wal_create_ok :: bool
  wal_open :: "nat \<Rightarrow> nat \<Rightarrow> (hard_state \<times> entry list) option option"   \<comment> \<open>\<open>Open\<close>, then \<open>ReadAll\<close>\<close>

datatype fatal = NoSnapDir | ListSnapshots | LoadSnapshotFailed | NoWalDir | CreateWal | OpenWal | ReadWal | OldSnapshot nat nat | ServerFailed

definition metcd_load_snapshot :: "metcd_fs \<Rightarrow> (fatal, snapshot) result" where
  "metcd_load_snapshot fs =
     (if wal_exists fs then
        if \<not> wal_snaps_ok fs then Inl ListSnapshots
        else (case newest_snap fs of None \<Rightarrow> Inl LoadSnapshotFailed | Some s \<Rightarrow> Inr s)
      else Inr zero_snap)"

definition open_wal :: "metcd_fs \<Rightarrow> snapshot \<Rightarrow> (fatal, (hard_state \<times> entry list) option) result" where
  "open_wal fs s =
     (if \<not> wal_exists fs \<and> \<not> mkdir_ok fs then Inl NoWalDir
      else if \<not> wal_exists fs \<and> \<not> wal_create_ok fs then Inl CreateWal
      else (case wal_open fs (sindex s) (sterm s) of None \<Rightarrow> Inl OpenWal | Some contents \<Rightarrow> Inr contents))"

definition replay_wal :: "('m, 'n) raft_lib \<Rightarrow> metcd_fs \<Rightarrow> (fatal, 'm) result" where
  "replay_wal L fs =
     (case metcd_load_snapshot fs of
        Inl e \<Rightarrow> Inl e
      | Inr s \<Rightarrow>
          (case open_wal fs s of
             Inl e \<Rightarrow> Inl e
           | Inr None \<Rightarrow> Inl ReadWal
           | Inr (Some (hs, es)) \<Rightarrow>
               (let m = new_storage L;
                    m = (case ms_apply_snapshot L s m of Inl _ \<Rightarrow> m | Inr m' \<Rightarrow> m');
                    m = ms_set_hard L hs m
                in Inr (case ms_append L es m of Inl _ \<Rightarrow> m | Inr m' \<Rightarrow> m'))))"

definition metcd_config :: "nat \<Rightarrow> config" where
  "metcd_config i =
     \<lparr>cfg_id = i, cfg_applied = 0, election_tick = 10, heartbeat_tick = 1, max_size_per_msg = 1024 * 1024,
      max_inflight = 256, check_quorum = False, pre_vote = False\<rparr>"

text \<open>\<open>startRaft\<close> up to the goroutines: the storage and the node.\<close>

definition start_raft :: "('m, 'n) raft_lib \<Rightarrow> metcd_fs \<Rightarrow> nat \<Rightarrow> nat \<Rightarrow> bool \<Rightarrow> (fatal, 'm \<times> 'n) result" where
  "start_raft L fs i peers join =
     (if \<not> snapdir_exists fs \<and> \<not> mkdir_ok fs then Inl NoSnapDir
      else
        (case replay_wal L fs of
           Inl e \<Rightarrow> Inl e
         | Inr m \<Rightarrow>
             Inr (m, if wal_exists fs \<or> join then restart_node L (metcd_config i) m
                     else start_node L (metcd_config i) m [1..<peers + 1])))"

text \<open>The peers the transport is given: all but the node itself.\<close>

definition transport_peers :: "nat \<Rightarrow> string list \<Rightarrow> (nat \<times> string) list" where
  "transport_peers i peers = filter (\<lambda>(j, url). j \<noteq> i) (zip [1..<length peers + 1] peers)"

section \<open>The running node\<close>

datatype metcd_pc = Running | Publishing snapshot | WaitHttp | Stopped

record conf_change =
  cc_id :: nat
  cc_node :: nat

text \<open>The channels a goroutine reads are nil when their field is not set; a closed one is set to nil.\<close>

record ('m, 'n) metcd =
  propose_set :: bool        \<comment> \<open>\<open>rn.proposeC != nil\<close>\<close>
  conf_set :: bool           \<comment> \<open>\<open>rn.confChangeC != nil\<close>\<close>
  stopc :: bool              \<comment> \<open>closed\<close>
  http_stopc :: bool
  http_donec :: bool
  commit_closed :: bool
  error_closed :: bool
  proposer :: bool           \<comment> \<open>the forwarding goroutine runs\<close>
  conf_count :: nat
  loop :: metcd_pc
  http_serving :: bool
  fatal_exit :: "fatal option"
  mt_storage :: 'm
  mt_node :: 'n
  wal_saved :: "(hard_state \<times> entry list) list"
  wal_snaps :: "wal_snapshot list"
  snap_files :: "snapshot list"
  lock_index :: nat
  conf_state :: "nat list"
  snapshot_index :: nat
  applied_index :: nat
  committed_nils :: nat      \<comment> \<open>received from \<open>commitC\<close>\<close>
  proposed :: "string list"
  conf_proposed :: "conf_change list"

text \<open>\<open>newRaftNode\<close> sets \<open>proposeC\<close> but not \<open>confChangeC\<close>; \<open>serveChannels\<close> starts from the storage's snapshot.\<close>

definition new_metcd :: "'m \<Rightarrow> 'n \<Rightarrow> snapshot \<Rightarrow> ('m, 'n) metcd" where
  "new_metcd m nd s =
     \<lparr>propose_set = True, conf_set = False, stopc = False, http_stopc = False, http_donec = False,
      commit_closed = False, error_closed = False, proposer = True, conf_count = 0, loop = Running,
      http_serving = True, fatal_exit = None, mt_storage = m, mt_node = nd, wal_saved = [], wal_snaps = [],
      snap_files = [], lock_index = 0, conf_state = sconf s, snapshot_index = sindex s,
      applied_index = sindex s, committed_nils = 0, proposed = [], conf_proposed = []\<rparr>"

text \<open>The forwarding goroutine.\<close>

datatype 'a received = Got 'a | ChanClosed

definition recv_propose :: "('m, 'n) raft_lib \<Rightarrow> string received \<Rightarrow> ('m, 'n) metcd \<Rightarrow> ('m, 'n) metcd" where
  "recv_propose L r s =
     (case r of
        ChanClosed \<Rightarrow> s\<lparr>propose_set := False\<rparr>
      | Got v \<Rightarrow>
          s\<lparr>proposed := proposed s @ [v],
            mt_node := (case nd_propose L v (mt_node s) of Inl _ \<Rightarrow> mt_node s | Inr nd \<Rightarrow> nd)\<rparr>)"

definition recv_conf :: "(conf_change \<Rightarrow> 'n \<Rightarrow> 'n) \<Rightarrow> conf_change received \<Rightarrow> ('m, 'n) metcd \<Rightarrow> ('m, 'n) metcd" where
  "recv_conf propose_conf r s =
     (case r of
        ChanClosed \<Rightarrow> s\<lparr>conf_set := False\<rparr>
      | Got cc \<Rightarrow>
          (let k = conf_count s + 1; cc = cc\<lparr>cc_id := k\<rparr>
           in s\<lparr>conf_count := k, conf_proposed := conf_proposed s @ [cc], mt_node := propose_conf cc (mt_node s)\<rparr>))"

text \<open>The snapshot part of a \<open>Ready\<close>, with the outcome of each file operation; its error is dropped.\<close>

record snap_outcome =
  file_ok :: bool
  wal_ok :: bool
  release_ok :: bool

definition metcd_save_snap :: "snap_outcome \<Rightarrow> snapshot \<Rightarrow> ('m, 'n) metcd \<Rightarrow> ('m, 'n) metcd \<times> bool" where
  "metcd_save_snap f sn s =
     (let ws = \<lparr>ws_index = sindex sn, ws_term = sterm sn, ws_conf = sconf sn\<rparr>
      in if \<not> file_ok f then (s, False)
         else (let s = s\<lparr>snap_files := snap_files s @ [sn]\<rparr>
               in if \<not> wal_ok f then (s, False)
                  else (let s = s\<lparr>wal_snaps := wal_snaps s @ [ws]\<rparr>
                        in if release_ok f then (s\<lparr>lock_index := sindex sn\<rparr>, True) else (s, False))))"

text \<open>\<open>publishSnapshot\<close> up to its send on \<open>commitC\<close>, and after it.\<close>

definition publish_snapshot :: "snapshot \<Rightarrow> ('m, 'n) metcd \<Rightarrow> ('m, 'n) metcd" where
  "publish_snapshot sn s =
     (if is_empty_snap sn then s
      else if sindex sn \<le> snapshot_index s then s\<lparr>fatal_exit := Some (OldSnapshot (sindex sn) (snapshot_index s))\<rparr>
      else s\<lparr>loop := Publishing sn\<rparr>)"

definition published :: "snapshot \<Rightarrow> ('m, 'n) metcd \<Rightarrow> ('m, 'n) metcd" where
  "published sn s =
     s\<lparr>committed_nils := committed_nils s + 1, conf_state := sconf sn, snapshot_index := sindex sn,
       applied_index := sindex sn, loop := Running\<rparr>"

definition metcd_ready :: "('m, 'n) raft_lib \<Rightarrow> snap_outcome \<Rightarrow> bool \<Rightarrow> ready \<Rightarrow> ('m, 'n) metcd \<Rightarrow> ('m, 'n) metcd" where
  "metcd_ready L f save_ok rd s =
     (let sn = rd_snapshot rd;
          s = (if is_empty_snap sn then s else fst (metcd_save_snap f sn s));
          s = (if save_ok then s\<lparr>wal_saved := wal_saved s @ [(rd_hard rd, rd_entries rd)]\<rparr> else s)
      in if is_empty_snap sn then s
         else publish_snapshot sn
           (s\<lparr>mt_storage := (case ms_apply_snapshot L sn (mt_storage s) of Inl _ \<Rightarrow> mt_storage s | Inr m \<Rightarrow> m)\<rparr>))"

text \<open>One step of one goroutine. The listener has no stop channel of its own in \<open>Accept\<close>, so \<open>Serve\<close>
returns only when accepting fails (\<open>accept_fails\<close>).\<close>

inductive metcd_step :: "('m, 'n) raft_lib \<Rightarrow> (conf_change \<Rightarrow> 'n \<Rightarrow> 'n) \<Rightarrow> bool \<Rightarrow> ('m, 'n) metcd \<Rightarrow> ('m, 'n) metcd \<Rightarrow> bool"
  for L pc accept_fails where
  forward: "fatal_exit s = None \<Longrightarrow> proposer s \<Longrightarrow> propose_set s \<Longrightarrow> conf_set s \<Longrightarrow>
    metcd_step L pc accept_fails s (recv_propose L r s)"
| forward_conf: "fatal_exit s = None \<Longrightarrow> proposer s \<Longrightarrow> propose_set s \<Longrightarrow> conf_set s \<Longrightarrow>
    metcd_step L pc accept_fails s (recv_conf pc rc s)"
| proposer_end: "fatal_exit s = None \<Longrightarrow> proposer s \<Longrightarrow> \<not> (propose_set s \<and> conf_set s) \<Longrightarrow>
    metcd_step L pc accept_fails s (s\<lparr>proposer := False, stopc := True\<rparr>)"
| tick: "fatal_exit s = None \<Longrightarrow> loop s = Running \<Longrightarrow>
    metcd_step L pc accept_fails s (s\<lparr>mt_node := nd_tick L (mt_node s)\<rparr>)"
| got_ready: "fatal_exit s = None \<Longrightarrow> loop s = Running \<Longrightarrow>
    metcd_step L pc accept_fails s (metcd_ready L f save_ok rd s)"
| commit_read: "fatal_exit s = None \<Longrightarrow> loop s = Publishing sn \<Longrightarrow>
    metcd_step L pc accept_fails s (published sn s)"
| loop_stop: "fatal_exit s = None \<Longrightarrow> loop s = Running \<Longrightarrow> stopc s \<Longrightarrow>
    metcd_step L pc accept_fails s (s\<lparr>http_stopc := True, loop := WaitHttp\<rparr>)"
| http_down: "fatal_exit s = None \<Longrightarrow> loop s = WaitHttp \<Longrightarrow> http_donec s \<Longrightarrow>
    metcd_step L pc accept_fails s
      (s\<lparr>commit_closed := True, error_closed := True, mt_node := nd_stop L (mt_node s), loop := Stopped\<rparr>)"
| http_end: "fatal_exit s = None \<Longrightarrow> http_serving s \<Longrightarrow> accept_fails \<Longrightarrow>
    metcd_step L pc accept_fails s
      (if http_stopc s then s\<lparr>http_donec := True, http_serving := False\<rparr> else s\<lparr>fatal_exit := Some ServerFailed\<rparr>)"

inductive_simps proposer_can_forward: "metcd_step L pc af s (recv_propose L (Got v) s)"

section \<open>The HTTP handler and the store\<close>

datatype http_action = Reply nat | ProposeThenReply string nat | EncodeFatal

definition store_propose :: "(string \<Rightarrow> string \<Rightarrow> string option) \<Rightarrow> string \<Rightarrow> string \<Rightarrow> http_action" where
  "store_propose gob key v =
     (case gob key v of None \<Rightarrow> EncodeFatal | Some enc \<Rightarrow> ProposeThenReply enc 204)"

text \<open>\<open>ServeHTTP\<close>: a body that cannot be read is \<open>None\<close>; a send on \<open>proposeC\<close> comes before the reply.\<close>

definition serve_http :: "(string \<Rightarrow> string \<Rightarrow> string option) \<Rightarrow> string \<Rightarrow> string \<Rightarrow> string option \<Rightarrow> http_action" where
  "serve_http gob method uri body =
     (if method = ''PUT'' then (case body of None \<Rightarrow> Reply 400 | Some v \<Rightarrow> store_propose gob uri v)
      else if method = ''POST'' then Reply 200
      else Reply 405)"

section \<open>Invariant\<close>

definition metcd_inv :: "bool \<Rightarrow> ('m, 'n) metcd \<Rightarrow> bool" where
  "metcd_inv accept_fails s =
     (\<not> conf_set s \<and> proposed s = [] \<and> conf_proposed s = [] \<and> (stopc s \<longleftrightarrow> \<not> proposer s) \<and>
      (loop s = WaitHttp \<longrightarrow> stopc s) \<and>
      (http_donec s \<longrightarrow> accept_fails) \<and> (loop s = Stopped \<longrightarrow> http_donec s) \<and>
      (commit_closed s \<longleftrightarrow> loop s = Stopped) \<and> (error_closed s \<longleftrightarrow> loop s = Stopped))"

lemma ready_fields:
  "conf_set (metcd_ready L f ok rd s) = conf_set s" "proposed (metcd_ready L f ok rd s) = proposed s"
  "conf_proposed (metcd_ready L f ok rd s) = conf_proposed s" "stopc (metcd_ready L f ok rd s) = stopc s"
  "proposer (metcd_ready L f ok rd s) = proposer s" "http_donec (metcd_ready L f ok rd s) = http_donec s"
  "commit_closed (metcd_ready L f ok rd s) = commit_closed s" "error_closed (metcd_ready L f ok rd s) = error_closed s"
  "loop s = Running \<Longrightarrow> loop (metcd_ready L f ok rd s) \<in> {Running, Publishing (rd_snapshot rd)}"
  by (simp_all add: metcd_ready_def metcd_save_snap_def publish_snapshot_def Let_def)

lemma metcd_inv_step: "metcd_inv af s \<Longrightarrow> metcd_step L pc af s t \<Longrightarrow> metcd_inv af t"
proof (rotate_tac, induction rule: metcd_step.induct)
  case (got_ready s f ok rd)
  then show ?case using ready_fields(9) [of s L f ok rd] by (auto simp: metcd_inv_def ready_fields)
qed (auto simp: metcd_inv_def published_def)

interpretation metcd: step_invariant "\<lambda>s. \<exists>m nd sn. s = new_metcd m nd sn" "metcd_step L pc af" "metcd_inv af" for L pc af
proof
  show "\<And>s. \<exists>m nd sn. s = new_metcd m nd sn \<Longrightarrow> metcd_inv af s" by (auto simp: metcd_inv_def new_metcd_def)
qed (rule metcd_inv_step)

section \<open>Properties\<close>

text \<open>
  A node of this server never proposes anything: since \<open>confChangeC\<close> is never set, the forwarding
  goroutine ends at its first test, in every interleaving. Its end closes the stop channel, and if the
  listener does not fail the shutdown never completes: the loop waits for the HTTP server for ever and
  neither the commit nor the error channel is closed.
\<close>

lemma metcd_never_proposes:
  assumes "(metcd_step L pc accept_fails)\<^sup>*\<^sup>* (new_metcd m nd sn) s"
  shows "proposed s = [] \<and> conf_proposed s = [] \<and> (stopc s \<longleftrightarrow> \<not> proposer s) \<and>
    \<not> metcd_step L pc accept_fails s (recv_propose L (Got v) s) \<and>
    (\<not> error_closed s \<and> \<not> commit_closed s \<and> loop s \<noteq> Stopped \<or> accept_fails)"
proof -
  have inv: "metcd_inv accept_fails s"
    using metcd.inv_reachable [OF _ assms] by blast
  moreover have "\<not> metcd_step L pc accept_fails s (recv_propose L (Got v) s)"
  proof
    assume "metcd_step L pc accept_fails s (recv_propose L (Got v) s)"
    then have "metcd_inv accept_fails (recv_propose L (Got v) s)" by (rule metcd_inv_step [OF inv])
    then show False by (simp add: metcd_inv_def recv_propose_def)
  qed
  ultimately show ?thesis by (auto simp: metcd_inv_def)
qed

text \<open>The shutdown is reached: the goroutine ends and the loop sees the closed channel.\<close>

lemma metcd_stops_itself:
  "(metcd_step L pc af)\<^sup>*\<^sup>* (new_metcd m nd sn) ((new_metcd m nd sn)\<lparr>proposer := False, stopc := True, http_stopc := True, loop := WaitHttp\<rparr>)"
proof -
  have "metcd_step L pc af (new_metcd m nd sn) ((new_metcd m nd sn)\<lparr>proposer := False, stopc := True\<rparr>)"
    by (rule metcd_step.proposer_end) (simp_all add: new_metcd_def)
  moreover have "metcd_step L pc af ((new_metcd m nd sn)\<lparr>proposer := False, stopc := True\<rparr>)
      ((new_metcd m nd sn)\<lparr>proposer := False, stopc := True\<rparr>\<lparr>http_stopc := True, loop := WaitHttp\<rparr>)"
    by (rule metcd_step.loop_stop) (simp_all add: new_metcd_def)
  ultimately show ?thesis by (simp add: converse_rtranclp_into_rtranclp)
qed

lemma metcd_never_proposes_witness:
  "\<not> metcd_step mute_lib (\<lambda>_ _. ()) False
     ((new_metcd () () zero_snap)\<lparr>proposer := False, stopc := True, http_stopc := True, loop := WaitHttp\<rparr>)
     (recv_propose mute_lib (Got ''set'')
       ((new_metcd () () zero_snap)\<lparr>proposer := False, stopc := True, http_stopc := True, loop := WaitHttp\<rparr>))"
  using metcd_never_proposes [OF metcd_stops_itself [of mute_lib "\<lambda>_ _. ()" False "()" "()" zero_snap], of "''set''"] by blast

text \<open>A second start of a node that has a log and no snapshot yet ends the process.\<close>

lemma restart_needs_snapshot:
  assumes "wal_exists fs" "wal_snaps_ok fs" "newest_snap fs = None" "snapdir_exists fs"
  shows "start_raft L fs i peers join = Inl LoadSnapshotFailed"
  using assms by (simp add: start_raft_def replay_wal_def metcd_load_snapshot_def)

text \<open>A first start with a working file system is a start of all peers.\<close>

lemma first_start:
  assumes "\<not> wal_exists fs" "mkdir_ok fs" "wal_create_ok fs" "wal_open fs 0 0 = Some (Some (hs, es))"
  shows "\<exists>m. start_raft L fs i peers False = Inr (m, start_node L (metcd_config i) m [1..<peers + 1])"
  using assms by (simp add: start_raft_def replay_wal_def metcd_load_snapshot_def open_wal_def zero_snap_def Let_def)

end
