(* ===== verification/LinRead.thy ===== *)
theory LinRead
  imports GoPrelude
begin

text \<open>
  The batched linearizable reads of \<open>etcd/linearizable-read-demo/main.go\<close>: readers share a notifier,
  one loop takes a batch, waits until the confirmed index is applied and wakes the batch. Every
  goroutine has a program point; a step is what one of them does between two synchronisation
  operations. Channels and notifiers are numbered in the order they are made.
\<close>

section \<open>The server\<close>

datatype read_result = ReadOk | CtxErr | ServerStopping

datatype reader_pc =
  RStart                    \<comment> \<open>before the notifier is read\<close>
| RGot nat                  \<comment> \<open>holding a notifier, before the send on \<open>readwaitc\<close>\<close>
| RWait nat                 \<comment> \<open>in the select on the notifier\<close>
| RDone read_result

datatype loop_pc =
  LSelect                   \<comment> \<open>in the select on \<open>readwaitc\<close>\<close>
| LSwap
| LCheck nat                \<comment> \<open>holding the notifier of the batch, before the load of \<open>appliedIndex\<close>\<close>
| LCall nat                 \<comment> \<open>before \<open>applyWait.Wait\<close>\<close>
| LWait nat nat             \<comment> \<open>the batch and the channel waited on\<close>
| LNotify nat
| LExit

datatype apply_pc = AStore nat | ATrigger nat | ADone

record apply_wait =
  last_done :: nat
  waiting :: "(nat \<times> nat) list"   \<comment> \<open>deadline and channel\<close>
  next_chan :: nat
  chan_closed :: "nat \<Rightarrow> bool"

record server =
  token :: bool             \<comment> \<open>the buffer of \<open>readwaitc\<close> is full\<close>
  notifier :: nat
  next_notifier :: nat
  notified :: "nat \<Rightarrow> bool"  \<comment> \<open>the channel of the notifier is closed\<close>
  stopping :: bool
  apply_w :: apply_wait
  applied_index :: nat
  req_id :: nat
  loop :: loop_pc
  applier :: apply_pc
  readers :: "nat \<Rightarrow> reader_pc"

definition new_apply_wait :: apply_wait where
  "new_apply_wait = \<lparr>last_done = 0, waiting = [], next_chan = 0, chan_closed = (\<lambda>_. False)\<rparr>"

definition new_server :: server where
  "new_server =
     \<lparr>token = False, notifier = 0, next_notifier = 1, notified = (\<lambda>_. False), stopping = False,
      apply_w = new_apply_wait, applied_index = 0, req_id = 0, loop = LSelect, applier = AStore 1,
      readers = (\<lambda>_. RStart)\<rparr>"

definition wait_for :: "nat \<Rightarrow> apply_wait \<Rightarrow> nat \<times> apply_wait" where
  "wait_for deadline w =
     (if last_done w \<ge> deadline
      then (next_chan w, w\<lparr>chan_closed := (chan_closed w)(next_chan w := True), next_chan := next_chan w + 1\<rparr>)
      else (case map_of (waiting w) deadline of
              Some ch \<Rightarrow> (ch, w)
            | None \<Rightarrow> (next_chan w,
                       w\<lparr>waiting := (deadline, next_chan w) # waiting w, next_chan := next_chan w + 1\<rparr>)))"

definition trigger :: "nat \<Rightarrow> apply_wait \<Rightarrow> apply_wait" where
  "trigger deadline w =
     w\<lparr>last_done := deadline,
       waiting := filter (\<lambda>(d, ch). \<not> d \<le> deadline) (waiting w),
       chan_closed := (\<lambda>ch. chan_closed w ch \<or> (\<exists>p \<in> set (waiting w). fst p \<le> deadline \<and> snd p = ch))\<rparr>"

definition confirmed_index :: nat where
  "confirmed_index = 10"

inductive lin_step :: "server \<Rightarrow> server \<Rightarrow> bool" where
  reader_get [go_intros]: "readers s i = RStart \<Longrightarrow>
     lin_step s (s\<lparr>readers := (readers s)(i := RGot (notifier s))\<rparr>)"
| reader_send [go_intros]: "readers s i = RGot nc \<Longrightarrow>
     lin_step s (s\<lparr>token := True, readers := (readers s)(i := RWait nc)\<rparr>)"
| reader_woken [go_intros]: "readers s i = RWait nc \<Longrightarrow> notified s nc \<Longrightarrow>
     lin_step s (s\<lparr>readers := (readers s)(i := RDone ReadOk)\<rparr>)"
| reader_timeout [go_intros]: "readers s i = RWait nc \<Longrightarrow>
     lin_step s (s\<lparr>readers := (readers s)(i := RDone CtxErr)\<rparr>)"
| reader_stopped [go_intros]: "readers s i = RWait nc \<Longrightarrow> stopping s \<Longrightarrow>
     lin_step s (s\<lparr>readers := (readers s)(i := RDone ServerStopping)\<rparr>)"
| loop_token [go_intros]: "loop s = LSelect \<Longrightarrow> token s \<Longrightarrow>
     lin_step s (s\<lparr>token := False, loop := LSwap\<rparr>)"
| loop_stop [go_intros]: "loop s = LSelect \<Longrightarrow> stopping s \<Longrightarrow> lin_step s (s\<lparr>loop := LExit\<rparr>)"
| loop_swap [go_intros]: "loop s = LSwap \<Longrightarrow>
     lin_step s (s\<lparr>req_id := req_id s + 1, notifier := next_notifier s,
                   next_notifier := next_notifier s + 1, loop := LCheck (notifier s)\<rparr>)"
| loop_check [go_intros]: "loop s = LCheck nr \<Longrightarrow>
     lin_step s (s\<lparr>loop := (if applied_index s < confirmed_index then LCall nr else LNotify nr)\<rparr>)"
| loop_call [go_intros]: "loop s = LCall nr \<Longrightarrow> wait_for confirmed_index (apply_w s) = (ch, w) \<Longrightarrow>
     lin_step s (s\<lparr>apply_w := w, loop := LWait nr ch\<rparr>)"
| loop_released [go_intros]: "loop s = LWait nr ch \<Longrightarrow> chan_closed (apply_w s) ch \<Longrightarrow>
     lin_step s (s\<lparr>loop := LNotify nr\<rparr>)"
| loop_wait_stop [go_intros]: "loop s = LWait nr ch \<Longrightarrow> stopping s \<Longrightarrow> lin_step s (s\<lparr>loop := LExit\<rparr>)"
| loop_notify [go_intros]: "loop s = LNotify nr \<Longrightarrow> \<not> notified s nr \<Longrightarrow>
     lin_step s (s\<lparr>notified := (notified s)(nr := True), loop := LSelect\<rparr>)"
| apply_store [go_intros]: "applier s = AStore i \<Longrightarrow>
     lin_step s (s\<lparr>applied_index := i, applier := ATrigger i\<rparr>)"
| apply_trigger [go_intros]: "applier s = ATrigger i \<Longrightarrow>
     lin_step s (s\<lparr>apply_w := trigger i (apply_w s), applier := (if i < 10 then AStore (i + 1) else ADone)\<rparr>)"
| stop [go_intros]: "\<not> stopping s \<Longrightarrow> lin_step s (s\<lparr>stopping := True\<rparr>)"

inductive_cases lin_stepE: "lin_step s t"

section \<open>The invariant\<close>

definition batch_of :: "loop_pc \<Rightarrow> nat option" where
  "batch_of l =
     (case l of LCheck nr \<Rightarrow> Some nr | LCall nr \<Rightarrow> Some nr | LWait nr ch \<Rightarrow> Some nr | LNotify nr \<Rightarrow> Some nr
      | _ \<Rightarrow> None)"

text \<open>Who will wake a reader holding the notifier \<open>nc\<close>.\<close>

definition served :: "server \<Rightarrow> nat \<Rightarrow> bool" where
  "served s nc =
     (notified s nc \<or> batch_of (loop s) = Some nc \<or> (loop s = LExit \<and> stopping s) \<or>
      (nc = notifier s \<and> (token s \<or> loop s = LSwap)))"

definition applier_inv :: "server \<Rightarrow> bool" where
  "applier_inv s =
     (case applier s of
        AStore i \<Rightarrow> 1 \<le> i \<and> i \<le> 10 \<and> applied_index s = i - 1 \<and> last_done (apply_w s) = i - 1
      | ATrigger i \<Rightarrow> 1 \<le> i \<and> i \<le> 10 \<and> applied_index s = i \<and> last_done (apply_w s) = i - 1
      | ADone \<Rightarrow> applied_index s = 10 \<and> last_done (apply_w s) = 10)"

definition chan_known :: "server \<Rightarrow> nat \<Rightarrow> bool" where
  "chan_known s ch =
     (chan_closed (apply_w s) ch \<or> (10, ch) \<in> set (waiting (apply_w s)))"

definition chans_inv :: "server \<Rightarrow> bool" where
  "chans_inv s =
     ((\<forall>ch. chan_closed (apply_w s) ch \<longrightarrow> 10 \<le> last_done (apply_w s)) \<and>
      (\<forall>p \<in> set (waiting (apply_w s)). fst p = 10 \<and> last_done (apply_w s) < 10) \<and>
      (\<forall>nr ch. loop s = LWait nr ch \<longrightarrow> chan_known s ch))"

definition notifiers_inv :: "server \<Rightarrow> bool" where
  "notifiers_inv s =
     (notifier s < next_notifier s \<and> \<not> notified s (notifier s) \<and>
      (\<forall>n. next_notifier s \<le> n \<longrightarrow> \<not> notified s n) \<and>
      (\<forall>nr. batch_of (loop s) = Some nr \<longrightarrow> \<not> notified s nr \<and> nr \<noteq> notifier s \<and> nr < next_notifier s) \<and>
      (\<forall>n. notified s n \<longrightarrow> 10 \<le> applied_index s) \<and>
      (\<forall>nr. loop s = LNotify nr \<longrightarrow> 10 \<le> applied_index s))"

text \<open>The loop only returns when the server stops.\<close>

definition exit_inv :: "server \<Rightarrow> bool" where
  "exit_inv s \<longleftrightarrow> (loop s = LExit \<longrightarrow> stopping s)"

definition readers_inv :: "server \<Rightarrow> bool" where
  "readers_inv s =
     (\<forall>i. case readers s i of
            RStart \<Rightarrow> True
          | RGot nc \<Rightarrow> nc = notifier s \<or> served s nc
          | RWait nc \<Rightarrow> served s nc
          | RDone r \<Rightarrow> r = ReadOk \<longrightarrow> 10 \<le> applied_index s)"

definition lin_inv :: "server \<Rightarrow> bool" where
  "lin_inv s = (applier_inv s \<and> chans_inv s \<and> notifiers_inv s \<and> exit_inv s \<and> readers_inv s)"

lemmas lin_defs = applier_inv_def chans_inv_def notifiers_inv_def exit_inv_def readers_inv_def served_def
  batch_of_def chan_known_def

lemma wait_for_10:
  assumes "wait_for 10 w = (ch, w')"
    and "\<forall>p \<in> set (waiting w). fst p = 10 \<and> last_done w < 10"
    and "\<forall>ch. chan_closed w ch \<longrightarrow> 10 \<le> last_done w"
  shows "last_done w' = last_done w \<and> (chan_closed w' ch \<or> (10, ch) \<in> set (waiting w')) \<and>
    (\<forall>p \<in> set (waiting w'). fst p = 10 \<and> last_done w' < 10) \<and>
    (\<forall>ch. chan_closed w' ch \<longrightarrow> 10 \<le> last_done w')"
  using assms by (auto simp: wait_for_def split: if_splits option.splits dest: map_of_SomeD)

lemma lin_inv_init: "lin_inv new_server"
  by (simp add: lin_inv_def new_server_def new_apply_wait_def lin_defs)

lemma applier_step: "lin_inv s \<Longrightarrow> lin_step s t \<Longrightarrow> applier_inv t"
  by (erule lin_stepE)
     (auto simp: lin_inv_def applier_inv_def trigger_def wait_for_def confirmed_index_def
        split: apply_pc.splits if_splits option.splits)

lemma chans_step:
  assumes "lin_inv s" "lin_step s t"
  shows "chans_inv t"
  using assms(2)
proof cases
  case (loop_call nr ch w)
  then show ?thesis
    using assms(1) wait_for_10 [of "apply_w s" ch w]
    by (auto simp: lin_inv_def chans_inv_def chan_known_def confirmed_index_def)
next
  case (apply_trigger i)
  then show ?thesis
    using assms(1)
    by (auto simp: lin_inv_def chans_inv_def chan_known_def applier_inv_def trigger_def
        split: apply_pc.splits) force
qed (use assms(1) in \<open>auto simp: lin_inv_def chans_inv_def chan_known_def split: if_splits\<close>)

lemma notifiers_step:
  assumes "lin_inv s" "lin_step s t"
  shows "notifiers_inv t"
  using assms(2)
proof cases
  case (loop_released nr ch)
  then have "10 \<le> last_done (apply_w s)" using assms(1) by (auto simp: lin_inv_def chans_inv_def)
  then have "10 \<le> applied_index s"
    using assms(1) by (auto simp: lin_inv_def applier_inv_def split: apply_pc.splits)
  then show ?thesis
    using loop_released assms(1) by (auto simp: lin_inv_def notifiers_inv_def batch_of_def)
next
  case (loop_swap)
  then show ?thesis
    using assms(1) by (auto simp: lin_inv_def notifiers_inv_def batch_of_def)
next
  case (loop_notify nr)
  then show ?thesis
    using assms(1) by (auto simp: lin_inv_def notifiers_inv_def batch_of_def)
next
  case (apply_store i)
  then show ?thesis
    using assms(1)
    by (auto simp: lin_inv_def notifiers_inv_def applier_inv_def split: apply_pc.splits)
qed (use assms(1) in \<open>auto simp: lin_inv_def notifiers_inv_def batch_of_def confirmed_index_def split: if_splits\<close>)

lemma exit_step: "lin_inv s \<Longrightarrow> lin_step s t \<Longrightarrow> exit_inv t"
  by (erule lin_stepE) (auto simp: lin_inv_def exit_inv_def split: if_splits)

text \<open>Whoever is served stays served.\<close>

lemma served_step:
  assumes "lin_step s t" "served s nc"
  shows "served t nc"
  using assms(1) by cases (use assms(2) in \<open>auto simp: served_def batch_of_def split: if_splits\<close>)

lemma applied_step: "lin_inv s \<Longrightarrow> lin_step s t \<Longrightarrow> applied_index s \<le> applied_index t"
  by (erule lin_stepE) (auto simp: lin_inv_def applier_inv_def split: apply_pc.splits)

text \<open>A reader that has not registered yet holds the current notifier or a served one.\<close>

lemma current_step:
  assumes "lin_step s t"
  shows "served t (notifier s) \<or> notifier t = notifier s"
  using assms by cases (auto simp: served_def batch_of_def)

lemma reader_pc_step:
  assumes "lin_step s t" "readers t i \<noteq> readers s i"
  shows "(readers t i = RGot (notifier s) \<and> notifier t = notifier s) \<or>
    (\<exists>nc. readers s i = RGot nc \<and> readers t i = RWait nc \<and> token t \<and> notifier t = notifier s) \<or>
    (\<exists>nc r. readers s i = RWait nc \<and> readers t i = RDone r \<and> (r = ReadOk \<longrightarrow> notified s nc))"
  using assms(1) by cases (use assms(2) in \<open>auto split: if_splits\<close>)

lemma readers_step:
  assumes inv: "lin_inv s" and step: "lin_step s t"
  shows "readers_inv t"
  unfolding readers_inv_def
proof
  fix i
  have old: "case readers s i of RStart \<Rightarrow> True | RGot nc \<Rightarrow> nc = notifier s \<or> served s nc
      | RWait nc \<Rightarrow> served s nc | RDone r \<Rightarrow> r = ReadOk \<longrightarrow> 10 \<le> applied_index s"
    using inv by (auto simp: lin_inv_def readers_inv_def)
  have not10: "notified s nc \<Longrightarrow> 10 \<le> applied_index s" for nc
    using inv by (auto simp: lin_inv_def notifiers_inv_def)
  note mono = served_step [OF step] applied_step [OF inv step]
  show "case readers t i of RStart \<Rightarrow> True | RGot nc \<Rightarrow> nc = notifier t \<or> served t nc
      | RWait nc \<Rightarrow> served t nc | RDone r \<Rightarrow> r = ReadOk \<longrightarrow> 10 \<le> applied_index t"
  proof (cases "readers t i = readers s i")
    case True
    then show ?thesis
      using old mono current_step [OF step] by (auto split: reader_pc.splits)
  next
    case False
    from reader_pc_step [OF step this] show ?thesis
    proof (elim disjE exE conjE)
      assume "readers t i = RGot (notifier s)" "notifier t = notifier s"
      then show ?thesis by simp
    next
      fix nc assume "readers s i = RGot nc" "readers t i = RWait nc" "token t" "notifier t = notifier s"
      then show ?thesis using old mono(1) [of nc] by (auto simp: served_def)
    next
      fix nc r assume "readers t i = RDone r" "r = ReadOk \<longrightarrow> notified s nc"
      then show ?thesis using not10 [of nc] mono(2) by auto
    qed
  qed
qed

lemma readers_invD: "readers_inv s \<Longrightarrow> case readers s i of RStart \<Rightarrow> True | RGot nc \<Rightarrow> nc = notifier s \<or> served s nc
      | RWait nc \<Rightarrow> served s nc | RDone r \<Rightarrow> r = ReadOk \<longrightarrow> 10 \<le> applied_index s"
  unfolding readers_inv_def by blast

interpretation lin: step_invariant "\<lambda>s. s = new_server" lin_step lin_inv
proof
  show "\<And>s. s = new_server \<Longrightarrow> lin_inv s" by (simp add: lin_inv_init)
  fix s t assume "lin_inv s" "lin_step s t"
  then show "lin_inv t"
    unfolding lin_inv_def [of t]
    by (intro conjI applier_step chans_step notifiers_step exit_step readers_step)
qed

section \<open>A run in which a read succeeds\<close>

definition applied_state :: "nat \<Rightarrow> server" where
  "applied_state k =
     new_server\<lparr>applied_index := k, apply_w := new_apply_wait\<lparr>last_done := k\<rparr>,
       applier := (if k < 10 then AStore (k + 1) else ADone)\<rparr>"

lemma applied_run: "k \<le> 10 \<Longrightarrow> lin_step\<^sup>*\<^sup>* new_server (applied_state k)"
proof (induction k)
  case 0
  have "applied_state 0 = new_server" by (simp add: applied_state_def new_server_def new_apply_wait_def)
  then show ?case by simp
next
  case (Suc k)
  let ?s = "applied_state k" and ?m = "(applied_state k)\<lparr>applied_index := Suc k, applier := ATrigger (Suc k)\<rparr>"
  have "lin_step ?s ?m" using Suc.prems by (intro apply_store) (simp add: applied_state_def)
  moreover have "lin_step ?m (?m\<lparr>apply_w := trigger (Suc k) (apply_w ?m),
      applier := (if Suc k < 10 then AStore (Suc k + 1) else ADone)\<rparr>)"
    by (intro apply_trigger) simp
  moreover have "?m\<lparr>apply_w := trigger (Suc k) (apply_w ?m),
      applier := (if Suc k < 10 then AStore (Suc k + 1) else ADone)\<rparr> = applied_state (Suc k)"
    by (simp add: applied_state_def trigger_def new_server_def new_apply_wait_def)
  ultimately show ?case using Suc by (auto intro: rtranclp.rtrancl_into_rtrancl)
qed

lemma read_run: "\<exists>s. lin_step\<^sup>*\<^sup>* new_server s \<and> readers s i = RDone ReadOk"
proof -
  let ?s0 = "applied_state 10"
  let ?s1 = "?s0\<lparr>readers := (readers ?s0)(i := RGot (notifier ?s0))\<rparr>"
  let ?s2 = "?s1\<lparr>token := True, readers := (readers ?s1)(i := RWait 0)\<rparr>"
  let ?s3 = "?s2\<lparr>token := False, loop := LSwap\<rparr>"
  let ?s4 = "?s3\<lparr>req_id := req_id ?s3 + 1, notifier := next_notifier ?s3,
      next_notifier := next_notifier ?s3 + 1, loop := LCheck (notifier ?s3)\<rparr>"
  let ?s5 = "?s4\<lparr>loop := (if applied_index ?s4 < confirmed_index then LCall 0 else LNotify 0)\<rparr>"
  let ?s6 = "?s5\<lparr>notified := (notified ?s5)(0 := True), loop := LSelect\<rparr>"
  let ?s7 = "?s6\<lparr>readers := (readers ?s6)(i := RDone ReadOk)\<rparr>"
  note d = applied_state_def new_server_def confirmed_index_def
  have s1: "lin_step ?s0 ?s1" by (rule reader_get) (simp add: d)
  have s2: "lin_step ?s1 ?s2" by (rule reader_send) (simp add: d)
  have s3: "lin_step ?s2 ?s3" by (rule loop_token) (simp_all add: d)
  have s4: "lin_step ?s3 ?s4" by (rule loop_swap) simp
  have s5: "lin_step ?s4 ?s5" by (rule loop_check) (simp add: d)
  have s6: "lin_step ?s5 ?s6" by (rule loop_notify) (simp_all add: d)
  have s7: "lin_step ?s6 ?s7" by (rule reader_woken [where nc = 0]) simp_all
  have s0: "lin_step\<^sup>*\<^sup>* new_server ?s0" by (rule applied_run) simp
  note run = rtranclp.rtrancl_into_rtrancl [of lin_step]
  have "lin_step\<^sup>*\<^sup>* new_server ?s7"
    by (rule run [OF run [OF run [OF run [OF run [OF run [OF run [OF s0 s1] s2] s3] s4] s5] s6] s7])
  then show ?thesis by (intro exI [of _ ?s7]) simp
qed

section \<open>A waiting reader can be served\<close>

text \<open>
  What is left until the notifier \<open>nc\<close> is notified: the apply goroutine's statements and the loop's, with one
  more round where the loop still has another batch.
\<close>

definition loop_left :: "nat \<Rightarrow> server \<Rightarrow> nat" where
  "loop_left nc s = (if notified s nc then 0 else
     (case loop s of LNotify _ \<Rightarrow> 1 | LWait _ _ \<Rightarrow> 2 | LCall _ \<Rightarrow> 3 | LCheck _ \<Rightarrow> 4 | LSwap \<Rightarrow> 5 | LSelect \<Rightarrow> 6 | LExit \<Rightarrow> 0) +
     (if batch_of (loop s) \<noteq> None \<and> batch_of (loop s) \<noteq> Some nc then 6 else 0))"

definition apply_left :: "server \<Rightarrow> nat" where
  "apply_left s = (case applier s of AStore i \<Rightarrow> 2 * (11 - i) | ATrigger i \<Rightarrow> 2 * (11 - i) - 1 | ADone \<Rightarrow> 0)"

definition waits_on :: "nat \<Rightarrow> nat \<Rightarrow> server \<Rightarrow> bool" where
  "waits_on i nc s \<longleftrightarrow> lin_inv s \<and> \<not> stopping s \<and> readers s i = RWait nc"

definition quiet_step :: "server \<Rightarrow> server \<Rightarrow> bool" where
  "quiet_step s t \<longleftrightarrow> lin_step s t \<and> stopping t = stopping s \<and> readers t = readers s"

lemma waits_on_step: "waits_on i nc s \<Longrightarrow> quiet_step s t \<Longrightarrow> waits_on i nc t"
  using lin.inv_step by (auto simp: waits_on_def quiet_step_def)

lemma applier_moves:
  assumes "lin_inv s" "applier s \<noteq> ADone"
  shows "\<exists>t. quiet_step s t \<and> loop t = loop s \<and> apply_left t < apply_left s"
proof (cases "applier s")
  case (AStore i)
  then have "1 \<le> i" "i \<le> 10" using assms(1) by (simp_all add: lin_inv_def applier_inv_def)
  then show ?thesis
    using apply_store [OF AStore] AStore
    by (intro exI [of _ "s\<lparr>applied_index := i, applier := ATrigger i\<rparr>"]) (auto simp: quiet_step_def apply_left_def)
next
  case (ATrigger i)
  then have "1 \<le> i" "i \<le> 10" using assms(1) by (simp_all add: lin_inv_def applier_inv_def)
  then show ?thesis
    using apply_trigger [OF ATrigger] ATrigger
    by (intro exI [of _ "s\<lparr>apply_w := trigger i (apply_w s), applier := (if i < 10 then AStore (i + 1) else ADone)\<rparr>"])
      (auto simp: quiet_step_def apply_left_def)
qed (use assms in simp)

lemma waiting_progress:
  assumes w: "waits_on i nc s" and n: "\<not> notified s nc"
  shows "\<exists>t. quiet_step s t \<and> apply_left t + loop_left nc t < apply_left s + loop_left nc s"
proof -
  have inv: "lin_inv s" "\<not> stopping s" using w by (simp_all add: waits_on_def)
  have "served s nc" using w readers_invD [of s i] by (simp add: waits_on_def lin_inv_def)
  then have sv: "batch_of (loop s) = Some nc \<or> nc = notifier s \<and> (token s \<or> loop s = LSwap)"
    using n inv(2) by (auto simp: served_def)
  have loop_moves: "\<exists>t. quiet_step s t \<and> apply_left t + loop_left nc t < apply_left s + loop_left nc s"
    if "lin_step s t" "stopping t = stopping s" "readers t = readers s" "applier t = applier s" "loop_left nc t < loop_left nc s" for t
    using that by (intro exI [of _ t]) (simp add: quiet_step_def apply_left_def)
  show ?thesis
  proof (cases "loop s")
    case LSelect
    then have tok: "token s" using sv by (simp add: batch_of_def)
    show ?thesis by (rule loop_moves [OF loop_token [OF LSelect tok]]) (use LSelect n sv in \<open>auto simp: loop_left_def batch_of_def\<close>)
  next
    case LSwap
    then have "nc = notifier s" using sv by (simp add: batch_of_def)
    show ?thesis by (rule loop_moves [OF loop_swap [OF LSwap]]) (use LSwap n sv in \<open>auto simp: loop_left_def batch_of_def\<close>)
  next
    case (LCheck nr)
    show ?thesis by (rule loop_moves [OF loop_check [OF LCheck]]) (use LCheck n sv in \<open>auto simp: loop_left_def batch_of_def split: if_splits\<close>)
  next
    case (LCall nr)
    obtain ch w where call: "wait_for confirmed_index (apply_w s) = (ch, w)" by fastforce
    show ?thesis by (rule loop_moves [OF loop_call [OF LCall call]]) (use LCall n sv in \<open>auto simp: loop_left_def batch_of_def\<close>)
  next
    case (LWait nr ch)
    show ?thesis
    proof (cases "chan_closed (apply_w s) ch")
      case True
      show ?thesis by (rule loop_moves [OF loop_released [OF LWait True]]) (use LWait n sv in \<open>auto simp: loop_left_def batch_of_def\<close>)
    next
      case False
      then have "(10, ch) \<in> set (waiting (apply_w s))" "last_done (apply_w s) < 10"
        using inv(1) LWait by (fastforce simp: lin_inv_def chans_inv_def chan_known_def)+
      then have "applier s \<noteq> ADone" using inv(1) by (auto simp: lin_inv_def applier_inv_def)
      from applier_moves [OF inv(1) this] obtain t where t: "quiet_step s t" "loop t = loop s" "apply_left t < apply_left s" by blast
      then have "loop_left nc t \<le> loop_left nc s" by (simp add: loop_left_def n)
      then show ?thesis using t by (intro exI [of _ t]) simp
    qed
  next
    case (LNotify nr)
    have fresh: "\<not> notified s nr" using inv(1) LNotify by (simp add: lin_inv_def notifiers_inv_def batch_of_def)
    show ?thesis by (rule loop_moves [OF loop_notify [OF LNotify fresh]]) (use LNotify n in \<open>auto simp: loop_left_def batch_of_def\<close>)
  next
    case LExit
    then show ?thesis using inv by (simp add: lin_inv_def exit_inv_def)
  qed
qed

interpretation waiting: progress_run "\<lambda>s. waits_on i nc s" quiet_step "\<lambda>s. waits_on i nc s"
  "\<lambda>s. apply_left s + loop_left nc s" "\<lambda>s. notified s nc" for i nc
  by unfold_locales (use waits_on_step waiting_progress in blast)+

lemma quiet_run: "quiet_step\<^sup>*\<^sup>* s t \<Longrightarrow> lin_step\<^sup>*\<^sup>* s t"
  by (rule mono_rtranclp [rule_format, of quiet_step]) (simp_all add: quiet_step_def)

lemma reader_can_return:
  assumes "waits_on i nc s"
  shows "\<exists>t. lin_step\<^sup>*\<^sup>* s t \<and> readers t i = RDone ReadOk"
proof -
  obtain t where t: "quiet_step\<^sup>*\<^sup>* s t" "notified t nc" using waiting.ends [OF assms] by blast
  have "readers t i = RWait nc" using waiting.inv_steps [OF t(1) assms] by (simp add: waits_on_def)
  from reader_woken [OF this t(2)] have "lin_step\<^sup>*\<^sup>* s (t\<lparr>readers := (readers t)(i := RDone ReadOk)\<rparr>)"
    using quiet_run [OF t(1)] by simp
  moreover have "readers (t\<lparr>readers := (readers t)(i := RDone ReadOk)\<rparr>) i = RDone ReadOk" by simp
  ultimately show ?thesis by blast
qed

section \<open>Properties\<close>

text \<open>
  C21. A read that returns nil sees the confirmed index: in every interleaving of readers, loop, apply
  goroutine and stop, a reader has returned without an error only when index 10 has been applied.
\<close>

theorem linearizable_read:
  assumes "lin_step\<^sup>*\<^sup>* new_server s" "readers s i = RDone ReadOk"
  shows "confirmed_index \<le> applied_index s"
proof -
  have "readers_inv s" using lin.inv_reachable [OF refl assms(1)] by (simp add: lin_inv_def)
  from readers_invD [OF this, of i] show ?thesis
    using assms(2) by (simp add: confirmed_index_def)
qed

theorem linearizable_read_witness:
  "\<exists>s. lin_step\<^sup>*\<^sup>* new_server s \<and> readers s 3 = RDone ReadOk \<and> confirmed_index \<le> applied_index s"
proof -
  obtain s where "lin_step\<^sup>*\<^sup>* new_server s" "readers s 3 = RDone ReadOk"
    using read_run by blast
  with linearizable_read [of s 3] show ?thesis by blast
qed

text \<open>
  C3. No wakeup is lost. A reader that waits on a notifier finds it notified already, or the loop holds
  this notifier as its batch, or it is the current one and the loop has a token to take it up; the loop
  has only returned where the server is stopping. A batch held at \<open>applyWait\<close> is on a channel
  that is closed or that the apply goroutine, which is not finished, will still close. So as long as the
  server is not stopped every waiting reader can be served: from there, without any other reader moving, there
  is a run in which its read returns without an error.
\<close>

theorem read_wakeup_not_lost:
  assumes "lin_step\<^sup>*\<^sup>* new_server s"
  shows "(readers s i = RWait nc \<longrightarrow>
            notified s nc \<or> batch_of (loop s) = Some nc \<or> (loop s = LExit \<and> stopping s) \<or>
            (nc = notifier s \<and> (token s \<or> loop s = LSwap))) \<and>
         (loop s = LWait nr ch \<longrightarrow>
            chan_closed (apply_w s) ch \<or> ((10, ch) \<in> set (waiting (apply_w s)) \<and> applier s \<noteq> ADone)) \<and>
         (loop s = LNotify nr \<longrightarrow> \<not> notified s nr) \<and>
         (readers s i = RWait nc \<longrightarrow> \<not> stopping s \<longrightarrow> (\<exists>t. lin_step\<^sup>*\<^sup>* s t \<and> readers t i = RDone ReadOk))"
proof -
  have inv: "lin_inv s" using lin.inv_reachable [OF refl assms] .
  have "served s nc" if "readers s i = RWait nc"
  proof -
    have "readers_inv s" using inv by (simp add: lin_inv_def)
    from readers_invD [OF this, of i] show ?thesis using that by simp
  qed
  moreover have "chan_closed (apply_w s) ch \<or> ((10, ch) \<in> set (waiting (apply_w s)) \<and> applier s \<noteq> ADone)"
    if "loop s = LWait nr ch"
  proof -
    have "chans_inv s" "applier_inv s" using inv by (simp_all add: lin_inv_def)
    then show ?thesis using that by (fastforce simp: chans_inv_def chan_known_def applier_inv_def)
  qed
  moreover have "\<not> notified s nr" if "loop s = LNotify nr"
    using inv that by (simp add: lin_inv_def notifiers_inv_def batch_of_def)
  moreover have "\<exists>t. lin_step\<^sup>*\<^sup>* s t \<and> readers t i = RDone ReadOk" if "readers s i = RWait nc" "\<not> stopping s"
    using reader_can_return [of i nc s] inv that by (simp add: waits_on_def)
  ultimately show ?thesis unfolding served_def by blast
qed

theorem read_wakeup_not_lost_witness:
  "\<exists>s t. lin_step\<^sup>*\<^sup>* new_server s \<and> readers s 3 = RWait 0 \<and> lin_step\<^sup>*\<^sup>* s t \<and> readers t 3 = RDone ReadOk"
proof -
  let ?s1 = "new_server\<lparr>readers := (readers new_server)(3 := RGot (notifier new_server))\<rparr>"
  let ?s2 = "?s1\<lparr>token := True, readers := (readers ?s1)(3 := RWait 0)\<rparr>"
  have "lin_step new_server ?s1" by (rule reader_get) (simp add: new_server_def)
  moreover have "lin_step ?s1 ?s2" by (rule reader_send) (simp add: new_server_def)
  ultimately have run: "lin_step\<^sup>*\<^sup>* new_server ?s2" by (meson converse_rtranclp_into_rtranclp rtranclp.rtrancl_refl)
  have wait: "readers ?s2 3 = RWait 0" "\<not> stopping ?s2" by (simp_all add: new_server_def)
  have "readers ?s2 3 = RWait 0 \<longrightarrow> \<not> stopping ?s2 \<longrightarrow> (\<exists>t. lin_step\<^sup>*\<^sup>* ?s2 t \<and> readers t 3 = RDone ReadOk)"
    by (rule read_wakeup_not_lost [OF run, THEN conjunct2, THEN conjunct2, THEN conjunct2])
  then show ?thesis using run wait by blast
qed

end
