(* ===== verification/AsyncStart.thy ===== *)
theory AsyncStart
  imports GoPrelude
begin

text \<open>
  The lifecycle of \<open>etcd/async-start/main.go\<close>: a server goroutine announces that it is ready, that it
  stopped and why it failed on three channels; a launcher waits for the first two, and \<open>main\<close> for the
  last two. A step is what one goroutine does between two channel operations; timers may fire and a
  signal may arrive at any time.
\<close>

section \<open>Configuration\<close>

record server_config =
  startup_delay :: int
  tick_interval :: int
  run_duration :: int
  fail_startup :: bool

definition validate_config :: "server_config \<Rightarrow> string option" where
  "validate_config cfg =
     (if startup_delay cfg < 0 then Some ''startup delay cannot be negative''
      else if tick_interval cfg \<le> 0 then Some ''tick interval must be > 0''
      else if run_duration cfg \<le> 0 then Some ''run duration must be > 0''
      else None)"

section \<open>Goroutines and channels\<close>

datatype run_pc =
  RSelectStart            \<comment> \<open>the select on the context and the start timer\<close>
| RCheckFail              \<comment> \<open>the timer fired\<close>
| RCloseReady
| RLoop                   \<comment> \<open>the select of the loop\<close>
| ROnce "string option"   \<comment> \<open>at \<open>once.Do\<close> in \<open>finish\<close>\<close>
| RSendErr string
| RCloseStop
| RCloseErr
| RExit

datatype main_pc =
  MLaunch                 \<comment> \<open>the select in \<open>startAsyncServer\<close>\<close>
| MSelect                 \<comment> \<open>the select in \<open>main\<close>\<close>
| MGotErr string | MErrClosed | MStopped

record async_server =
  ready_closed :: bool
  stop_closed :: bool
  err_buf :: "string list"   \<comment> \<open>capacity 1\<close>
  err_closed :: bool
  ctx_done :: bool
  once_done :: bool
  run_at :: run_pc
  main_at :: main_pc
  ticks :: nat

definition startup_error :: string where
  "startup_error = ''startup failed: simulated error''"

definition start_async_server :: "server_config \<Rightarrow> (string, async_server) result" where
  "start_async_server cfg =
     (case validate_config cfg of
        Some e \<Rightarrow> Inl e
      | None \<Rightarrow> Inr \<lparr>ready_closed = False, stop_closed = False, err_buf = [], err_closed = False,
                     ctx_done = False, once_done = False, run_at = RSelectStart, main_at = MLaunch,
                     ticks = 0\<rparr>)"

inductive async_step :: "server_config \<Rightarrow> async_server \<Rightarrow> async_server \<Rightarrow> bool" for cfg where
  ctx_at_start [go_intros]: "run_at s = RSelectStart \<Longrightarrow> ctx_done s \<Longrightarrow>
     async_step cfg s (s\<lparr>run_at := ROnce None\<rparr>)"
| start_timer [go_intros]: "run_at s = RSelectStart \<Longrightarrow> async_step cfg s (s\<lparr>run_at := RCheckFail\<rparr>)"
| check_fail [go_intros]: "run_at s = RCheckFail \<Longrightarrow>
     async_step cfg s (s\<lparr>run_at := (if fail_startup cfg then ROnce (Some startup_error) else RCloseReady)\<rparr>)"
| close_ready [go_intros]: "run_at s = RCloseReady \<Longrightarrow> \<not> ready_closed s \<Longrightarrow>
     async_step cfg s (s\<lparr>ready_closed := True, run_at := RLoop\<rparr>)"
| tick [go_intros]: "run_at s = RLoop \<Longrightarrow> async_step cfg s (s\<lparr>ticks := ticks s + 1\<rparr>)"
| ctx_in_loop [go_intros]: "run_at s = RLoop \<Longrightarrow> ctx_done s \<Longrightarrow> async_step cfg s (s\<lparr>run_at := ROnce None\<rparr>)"
| stop_timer [go_intros]: "run_at s = RLoop \<Longrightarrow> async_step cfg s (s\<lparr>run_at := ROnce None\<rparr>)"
| once_first [go_intros]: "run_at s = ROnce e \<Longrightarrow> \<not> once_done s \<Longrightarrow>
     async_step cfg s (s\<lparr>once_done := True,
        run_at := (case e of None \<Rightarrow> RCloseStop | Some m \<Rightarrow> RSendErr m)\<rparr>)"
| once_again [go_intros]: "run_at s = ROnce e \<Longrightarrow> once_done s \<Longrightarrow> async_step cfg s (s\<lparr>run_at := RExit\<rparr>)"
| send_err [go_intros]: "run_at s = RSendErr m \<Longrightarrow> err_buf s = [] \<Longrightarrow> \<not> err_closed s \<Longrightarrow>
     async_step cfg s (s\<lparr>err_buf := [m], run_at := RCloseStop\<rparr>)"
| close_stop [go_intros]: "run_at s = RCloseStop \<Longrightarrow> \<not> stop_closed s \<Longrightarrow>
     async_step cfg s (s\<lparr>stop_closed := True, run_at := RCloseErr\<rparr>)"
| close_err [go_intros]: "run_at s = RCloseErr \<Longrightarrow> \<not> err_closed s \<Longrightarrow>
     async_step cfg s (s\<lparr>err_closed := True, run_at := RExit\<rparr>)"
| signal [go_intros]: "async_step cfg s (s\<lparr>ctx_done := True\<rparr>)"
| launch_ready [go_intros]: "main_at s = MLaunch \<Longrightarrow> ready_closed s \<Longrightarrow> async_step cfg s (s\<lparr>main_at := MSelect\<rparr>)"
| launch_stop [go_intros]: "main_at s = MLaunch \<Longrightarrow> stop_closed s \<Longrightarrow> async_step cfg s (s\<lparr>main_at := MSelect\<rparr>)"
| main_err [go_intros]: "main_at s = MSelect \<Longrightarrow> err_buf s = m # ms \<Longrightarrow>
     async_step cfg s (s\<lparr>err_buf := ms, main_at := MGotErr m\<rparr>)"
| main_err_closed [go_intros]: "main_at s = MSelect \<Longrightarrow> err_buf s = [] \<Longrightarrow> err_closed s \<Longrightarrow>
     async_step cfg s (s\<lparr>main_at := MErrClosed\<rparr>)"
| main_stop [go_intros]: "main_at s = MSelect \<Longrightarrow> stop_closed s \<Longrightarrow> async_step cfg s (s\<lparr>main_at := MStopped\<rparr>)"

inductive_cases async_stepE: "async_step cfg s t"

section \<open>The invariant\<close>

text \<open>What the position of the server goroutine says about the channels.\<close>

definition run_inv :: "server_config \<Rightarrow> async_server \<Rightarrow> bool" where
  "run_inv cfg s =
     (case run_at s of
        RSelectStart \<Rightarrow> \<not> ready_closed s \<and> \<not> stop_closed s \<and> \<not> err_closed s \<and> \<not> once_done s
      | RCheckFail \<Rightarrow> \<not> ready_closed s \<and> \<not> stop_closed s \<and> \<not> err_closed s \<and> \<not> once_done s
      | RCloseReady \<Rightarrow> \<not> ready_closed s \<and> \<not> stop_closed s \<and> \<not> err_closed s \<and> \<not> once_done s \<and> \<not> fail_startup cfg
      | RLoop \<Rightarrow> ready_closed s \<and> \<not> stop_closed s \<and> \<not> err_closed s \<and> \<not> once_done s \<and> \<not> fail_startup cfg
      | ROnce e \<Rightarrow> \<not> stop_closed s \<and> \<not> err_closed s \<and> \<not> once_done s \<and>
          (e \<noteq> None \<longrightarrow> fail_startup cfg \<and> \<not> ready_closed s)
      | RSendErr m \<Rightarrow> \<not> stop_closed s \<and> \<not> err_closed s \<and> once_done s \<and> fail_startup cfg \<and> \<not> ready_closed s
      | RCloseStop \<Rightarrow> \<not> stop_closed s \<and> \<not> err_closed s \<and> once_done s
      | RCloseErr \<Rightarrow> stop_closed s \<and> \<not> err_closed s \<and> once_done s
      | RExit \<Rightarrow> stop_closed s \<and> err_closed s \<and> once_done s)"

definition err_inv :: "server_config \<Rightarrow> async_server \<Rightarrow> bool" where
  "err_inv cfg s =
     ((err_buf s \<noteq> [] \<or> (\<exists>m. main_at s = MGotErr m) \<longrightarrow> fail_startup cfg \<and> \<not> ready_closed s \<and> once_done s) \<and>
      length (err_buf s) \<le> 1 \<and>
      (\<forall>m. run_at s = RSendErr m \<longrightarrow> err_buf s = [] \<and> (\<forall>m. main_at s \<noteq> MGotErr m)) \<and>
      (err_buf s \<noteq> [] \<longrightarrow> (\<forall>m. main_at s \<noteq> MGotErr m)) \<and>
      (ready_closed s \<longrightarrow> \<not> fail_startup cfg))"

definition async_inv :: "server_config \<Rightarrow> async_server \<Rightarrow> bool" where
  "async_inv cfg s = (run_inv cfg s \<and> err_inv cfg s)"

lemma async_inv_start: "start_async_server cfg = Inr s \<Longrightarrow> async_inv cfg s"
  by (auto simp: start_async_server_def async_inv_def run_inv_def err_inv_def split: option.splits)

lemma run_step: "run_inv cfg s \<Longrightarrow> async_step cfg s t \<Longrightarrow> run_inv cfg t"
  by (erule async_stepE) (auto simp: run_inv_def split: run_pc.splits option.splits if_splits)

lemma err_step: "run_inv cfg s \<Longrightarrow> err_inv cfg s \<Longrightarrow> async_step cfg s t \<Longrightarrow> err_inv cfg t"
  by (erule async_stepE) (auto simp: err_inv_def run_inv_def split: option.splits if_splits)

interpretation async: step_invariant "\<lambda>s. start_async_server cfg = Inr s" "async_step cfg" "async_inv cfg" for cfg
proof
  fix s t assume "async_inv cfg s" "async_step cfg s t"
  then show "async_inv cfg t" unfolding async_inv_def using run_step err_step by blast
qed (rule async_inv_start)

section \<open>Properties\<close>

text \<open>
  C24. The channels keep their promises in every interleaving: the server is never both ready and
  failed, at most one error is ever sent, the error channel is closed only after the stop channel,
  and the goroutine never closes a closed channel or sends on one that is full or closed.
\<close>

theorem async_lifecycle:
  assumes "start_async_server cfg = Inr s0" "(async_step cfg)\<^sup>*\<^sup>* s0 s"
  shows "\<not> (ready_closed s \<and> (err_buf s \<noteq> [] \<or> (\<exists>m. main_at s = MGotErr m))) \<and>
         length (err_buf s) \<le> 1 \<and> (err_closed s \<longrightarrow> stop_closed s) \<and>
         (run_at s = RCloseReady \<longrightarrow> \<not> ready_closed s) \<and> (run_at s = RCloseStop \<longrightarrow> \<not> stop_closed s) \<and>
         (run_at s = RCloseErr \<longrightarrow> \<not> err_closed s) \<and>
         (\<forall>m. run_at s = RSendErr m \<longrightarrow> err_buf s = [] \<and> \<not> err_closed s)"
proof -
  have "async_inv cfg s" using async.inv_reachable [OF assms] .
  then show ?thesis
    by (auto simp: async_inv_def run_inv_def err_inv_def split: run_pc.splits)
qed

definition failing_config :: server_config where
  "failing_config = \<lparr>startup_delay = 0, tick_interval = 1, run_duration = 5, fail_startup = True\<rparr>"

definition failed_server :: "main_pc \<Rightarrow> async_server" where
  "failed_server m =
     \<lparr>ready_closed = False, stop_closed = True, err_buf = [startup_error], err_closed = True,
      ctx_done = False, once_done = True, run_at = RExit, main_at = m, ticks = 0\<rparr>"

lemma failing_run:
  "\<exists>s0. start_async_server failing_config = Inr s0 \<and> (async_step failing_config)\<^sup>*\<^sup>* s0 (failed_server MSelect)"
proof -
  let ?c = failing_config
  let ?s0 = "\<lparr>ready_closed = False, stop_closed = False, err_buf = [], err_closed = False, ctx_done = False,
      once_done = False, run_at = RSelectStart, main_at = MLaunch, ticks = 0\<rparr>"
  let ?s1 = "?s0\<lparr>run_at := RCheckFail\<rparr>"
  let ?s2 = "?s1\<lparr>run_at := ROnce (Some startup_error)\<rparr>"
  let ?s3 = "?s2\<lparr>once_done := True, run_at := RSendErr startup_error\<rparr>"
  let ?s4 = "?s3\<lparr>err_buf := [startup_error], run_at := RCloseStop\<rparr>"
  let ?s5 = "?s4\<lparr>stop_closed := True, run_at := RCloseErr\<rparr>"
  let ?s6 = "?s5\<lparr>err_closed := True, run_at := RExit\<rparr>"
  let ?s7 = "?s6\<lparr>main_at := MSelect\<rparr>"
  have s1: "async_step ?c ?s0 ?s1" by (rule start_timer) simp
  have s2: "async_step ?c ?s1 ?s2" using check_fail [of ?s1 ?c] by (simp add: failing_config_def)
  have s3: "async_step ?c ?s2 ?s3" using once_first [of ?s2 "Some startup_error" ?c] by simp
  have s4: "async_step ?c ?s3 ?s4" using send_err [of ?s3 startup_error ?c] by simp
  have s5: "async_step ?c ?s4 ?s5" using close_stop [of ?s4 ?c] by simp
  have s6: "async_step ?c ?s5 ?s6" using close_err [of ?s5 ?c] by simp
  have s7: "async_step ?c ?s6 ?s7" using launch_stop [of ?s6 ?c] by simp
  note run = rtranclp.rtrancl_into_rtrancl [of "async_step ?c"]
  have "(async_step ?c)\<^sup>*\<^sup>* ?s0 ?s7"
    by (rule run [OF run [OF run [OF run [OF run [OF run [OF run [OF rtranclp.rtrancl_refl
      s1] s2] s3] s4] s5] s6] s7])
  moreover have "start_async_server ?c = Inr ?s0"
    by (simp add: start_async_server_def validate_config_def failing_config_def)
  moreover have "?s7 = failed_server MSelect" by (simp add: failed_server_def)
  ultimately show ?thesis by metis
qed

theorem async_lifecycle_witness:
  "\<not> ready_closed (failed_server MSelect) \<and> length (err_buf (failed_server MSelect)) \<le> 1"
proof -
  obtain s0 where "start_async_server failing_config = Inr s0"
      "(async_step failing_config)\<^sup>*\<^sup>* s0 (failed_server MSelect)" using failing_run by blast
  from async_lifecycle [OF this] show ?thesis by (simp add: failed_server_def)
qed

text \<open>
  The error of a failed start can be lost. When \<open>main\<close> reaches its select after the server has
  failed, the stop channel is closed and the error is in its buffer, so the select may report a
  stopped server and leave the error unread.
\<close>

lemma startup_error_dropped:
  "\<exists>s0. start_async_server failing_config = Inr s0 \<and>
        (async_step failing_config)\<^sup>*\<^sup>* s0 (failed_server MStopped) \<and>
        err_buf (failed_server MStopped) = [startup_error]"
proof -
  obtain s0 where s0: "start_async_server failing_config = Inr s0"
      "(async_step failing_config)\<^sup>*\<^sup>* s0 (failed_server MSelect)" using failing_run by blast
  have "async_step failing_config (failed_server MSelect) (failed_server MStopped)"
    using main_stop [of "failed_server MSelect" failing_config] by (simp add: failed_server_def)
  then show ?thesis
    using s0 by (auto intro: rtranclp.rtrancl_into_rtrancl simp: failed_server_def)
qed

text \<open>\<open>StartAsyncServer\<close> refuses exactly the configurations a timer or ticker would not take.\<close>

lemma start_async_server_ok:
  "is_ok (start_async_server cfg) \<longleftrightarrow>
     0 \<le> startup_delay cfg \<and> 0 < tick_interval cfg \<and> 0 < run_duration cfg"
  by (auto simp: start_async_server_def validate_config_def is_ok_def)

end
