(* ===== verification/MoneyTransfer.thy ===== *)
theory MoneyTransfer
  imports GoPrelude "HOL-Library.Word"
begin

text \<open>
  The transfer services of \<open>uuid/uuid1\<close>, \<open>uuid/uuid2\<close> and \<open>uuid/uuid3\<close>: a map of balances behind a mutex,
  where the later versions remember the ids of handled requests. Balances are Go's \<open>int\<close>, 64-bit words
  compared as signed numbers. Decoding the JSON body is the option in the request.
\<close>

section \<open>Accounts and requests\<close>

type_synonym accounts = "string \<rightharpoonup> 64 word"

definition balance :: "accounts \<Rightarrow> string \<Rightarrow> 64 word" where
  "balance a k = (case a k of None \<Rightarrow> 0 | Some v \<Rightarrow> v)"

definition initial_accounts :: accounts where
  "initial_accounts = [''A'' \<mapsto> 1000, ''B'' \<mapsto> 1000]"

record transfer_request =
  request_id :: string
  from_account :: string
  to_account :: string
  amount :: "64 word"

datatype http_method = MethodGet | MethodPost | MethodOther

record http_request =
  hmethod :: http_method
  hbody :: "transfer_request option"   \<comment> \<open>\<open>None\<close> when the body does not decode\<close>

datatype response =
  MethodNotAllowed | InvalidRequest | InsufficientBalance | AlreadyHandled string
| TransferSuccess "64 word" "64 word"

text \<open>The two assignments of the handlers; a missing account reads as 0 and is created.\<close>

definition move_money :: "transfer_request \<Rightarrow> accounts \<Rightarrow> accounts" where
  "move_money r a =
     (let a1 = a(from_account r \<mapsto> balance a (from_account r) - amount r)
      in a1(to_account r \<mapsto> balance a1 (to_account r) + amount r))"

definition insufficient :: "transfer_request \<Rightarrow> accounts \<Rightarrow> bool" where
  "insufficient r a =
     (case a (from_account r) of None \<Rightarrow> True | Some b \<Rightarrow> b <s amount r)"

definition success :: "accounts \<Rightarrow> response" where
  "success a = TransferSuccess (balance a ''A'') (balance a ''B'')"

section \<open>The first version\<close>

definition transfer1 :: "http_request \<Rightarrow> accounts \<Rightarrow> accounts \<times> response" where
  "transfer1 h a =
     (if hmethod h \<noteq> MethodPost then (a, MethodNotAllowed)
      else (case hbody h of
         None \<Rightarrow> (a, InvalidRequest)
       | Some r \<Rightarrow>
           if insufficient r a then (a, InsufficientBalance)
           else (let a' = move_money r a in (a', success a'))))"

section \<open>The versions with request ids\<close>

record bank =
  accts :: accounts
  handled :: "string \<Rightarrow> bool"

definition new_bank :: bank where
  "new_bank = \<lparr>accts = initial_accounts, handled = (\<lambda>_. False)\<rparr>"

text \<open>Up to the mutex: the answer, or the request to go on with. \<open>requestHandle\<close> is read here.\<close>

definition precheck :: "http_request \<Rightarrow> bank \<Rightarrow> (response, transfer_request) result" where
  "precheck h b =
     (if hmethod h \<noteq> MethodPost then Inl MethodNotAllowed
      else (case hbody h of
         None \<Rightarrow> Inl InvalidRequest
       | Some r \<Rightarrow> if handled b (request_id r) then Inl (AlreadyHandled (request_id r)) else Inr r))"

text \<open>Under the mutex.\<close>

definition commit :: "transfer_request \<Rightarrow> bank \<Rightarrow> bank \<times> response" where
  "commit r b =
     (if insufficient r (accts b) then (b, InsufficientBalance)
      else (let a = move_money r (accts b)
            in (b\<lparr>accts := a, handled := (handled b)(request_id r := True)\<rparr>, success a)))"

definition transfer2 :: "http_request \<Rightarrow> bank \<Rightarrow> bank \<times> response" where
  "transfer2 h b = (case precheck h b of Inl resp \<Rightarrow> (b, resp) | Inr r \<Rightarrow> commit r b)"

text \<open>\<open>uuid3\<close> adds a handler that hands out ids; \<open>uuid.NewUUID\<close> is its argument.\<close>

datatype uuid_response = UuidMethodNotAllowed | UuidFailed | UuidGenerated string

definition generate_uuid :: "string option \<Rightarrow> http_method \<Rightarrow> uuid_response" where
  "generate_uuid new m =
     (if m \<noteq> MethodGet then UuidMethodNotAllowed
      else (case new of None \<Rightarrow> UuidFailed | Some u \<Rightarrow> UuidGenerated u))"

definition serve3 :: "string \<Rightarrow> string option \<Rightarrow> http_request \<Rightarrow> bank \<Rightarrow> (bank \<times> (uuid_response + response)) option" where
  "serve3 path new h b =
     (if path = ''/transfer'' then (let (b', r) = transfer2 h b in Some (b', Inr r))
      else if path = ''/uuid'' then Some (b, Inl (generate_uuid new (hmethod h)))
      else None)"

text \<open>Concurrent requests: each passes \<open>precheck\<close> and then, at some later point, the critical section.\<close>

datatype request_pc = Arrived http_request | Checked transfer_request | Answered response

record service =
  bank_of :: bank
  requests :: "nat \<Rightarrow> request_pc"

inductive service_step :: "service \<Rightarrow> service \<Rightarrow> bool" where
  check_answer [go_intros]: "requests s i = Arrived h \<Longrightarrow> precheck h (bank_of s) = Inl resp \<Longrightarrow>
     service_step s (s\<lparr>requests := (requests s)(i := Answered resp)\<rparr>)"
| check_pass [go_intros]: "requests s i = Arrived h \<Longrightarrow> precheck h (bank_of s) = Inr r \<Longrightarrow>
     service_step s (s\<lparr>requests := (requests s)(i := Checked r)\<rparr>)"
| critical [go_intros]: "requests s i = Checked r \<Longrightarrow> commit r (bank_of s) = (b, resp) \<Longrightarrow>
     service_step s (s\<lparr>bank_of := b, requests := (requests s)(i := Answered resp)\<rparr>)"

inductive_cases service_stepE: "service_step s t"

section \<open>Conservation\<close>

text \<open>The money in all accounts, as Go's \<open>int\<close> adds it up.\<close>

definition total :: "accounts \<Rightarrow> 64 word" where
  "total a = sum (balance a) (dom a)"

lemma sum_balance_mono:
  assumes "finite K" "dom a \<subseteq> K"
  shows "total a = sum (balance a) K"
  unfolding total_def
  by (rule sum.mono_neutral_left) (use assms in \<open>auto simp: balance_def split: option.splits\<close>)

lemma balance_upd: "balance (a(k \<mapsto> v)) x = (if x = k then v else balance a x)"
  by (simp add: balance_def)

lemma total_upd:
  assumes "finite (dom a)"
  shows "total (a(k \<mapsto> v)) = total a - balance a k + v"
proof -
  let ?K = "insert k (dom a)"
  have fin: "finite ?K" using assms by simp
  have "total (a(k \<mapsto> v)) = sum (balance (a(k \<mapsto> v))) ?K"
    by (rule sum_balance_mono [OF fin]) auto
  also have "\<dots> = v + sum (balance a) (?K - {k})"
    using fin by (subst sum.remove [of ?K k]) (auto simp: balance_upd intro: sum.cong)
  also have "sum (balance a) (?K - {k}) = sum (balance a) ?K - balance a k"
    using fin by (subst sum.remove [of ?K k]) auto
  also have "sum (balance a) ?K = total a"
    by (rule sum_balance_mono [OF fin, symmetric]) auto
  finally show ?thesis by (simp only: add.commute)
qed

lemma total_move: "finite (dom a) \<Longrightarrow> total (move_money r a) = total a"
  by (simp add: move_money_def Let_def total_upd)

lemma finite_move: "finite (dom a) \<Longrightarrow> finite (dom (move_money r a))"
  by (simp add: move_money_def Let_def)

definition bank_ok :: "64 word \<Rightarrow> bank \<Rightarrow> bool" where
  "bank_ok t b = (finite (dom (accts b)) \<and> total (accts b) = t)"

lemma bank_ok_commit: "bank_ok t b \<Longrightarrow> commit r b = (b', resp) \<Longrightarrow> bank_ok t b'"
  by (auto simp: bank_ok_def commit_def Let_def total_move finite_move split: if_splits)

interpretation service: step_invariant "\<lambda>s. bank_ok t (bank_of s)" service_step "\<lambda>s. bank_ok t (bank_of s)" for t
proof
  fix s u assume "bank_ok t (bank_of s)" "service_step s u"
  from this(2,1) show "bank_ok t (bank_of u)"
    by cases (auto dest: bank_ok_commit)
qed simp

section \<open>Properties\<close>

text \<open>
  C7. No interleaving of transfers creates or destroys money: the sum of all balances, as a 64-bit
  integer, is the same in every state the service reaches.
\<close>

theorem transfers_conserve_money:
  assumes "finite (dom (accts (bank_of s)))" "service_step\<^sup>*\<^sup>* s u"
  shows "total (accts (bank_of u)) = total (accts (bank_of s))"
  using service.inv_reachable [of "total (accts (bank_of s))" s u] assms by (simp add: bank_ok_def)

definition pay :: "string \<Rightarrow> 64 word \<Rightarrow> http_request" where
  "pay rid n = \<lparr>hmethod = MethodPost, hbody = Some \<lparr>request_id = rid, from_account = ''A'', to_account = ''B'', amount = n\<rparr>\<rparr>"

definition two_requests :: service where
  "two_requests = \<lparr>bank_of = new_bank, requests = (\<lambda>_. Arrived (pay ''id'' 100))\<rparr>"

lemma race_run:
  "\<exists>s. service_step\<^sup>*\<^sup>* two_requests s \<and> balance (accts (bank_of s)) ''A'' = 800 \<and>
       requests s 0 = Answered (TransferSuccess 900 1100) \<and> requests s 1 = Answered (TransferSuccess 800 1200)"
proof -
  let ?r = "\<lparr>request_id = ''id'', from_account = ''A'', to_account = ''B'', amount = 100\<rparr> :: transfer_request"
  let ?b1 = "\<lparr>accts = move_money ?r initial_accounts, handled = (\<lambda>_. False)(''id'' := True)\<rparr>"
  let ?b2 = "\<lparr>accts = move_money ?r (move_money ?r initial_accounts), handled = (\<lambda>_. False)(''id'' := True)\<rparr>"
  let ?s0 = two_requests
  let ?s1 = "?s0\<lparr>requests := (requests ?s0)(0 := Checked ?r)\<rparr>"
  let ?s2 = "?s1\<lparr>requests := (requests ?s1)(1 := Checked ?r)\<rparr>"
  let ?s3 = "?s2\<lparr>bank_of := ?b1, requests := (requests ?s2)(0 := Answered (TransferSuccess 900 1100))\<rparr>"
  let ?s4 = "?s3\<lparr>bank_of := ?b2, requests := (requests ?s3)(1 := Answered (TransferSuccess 800 1200))\<rparr>"
  note d = two_requests_def pay_def precheck_def new_bank_def commit_def insufficient_def success_def
    move_money_def balance_def initial_accounts_def Let_def
  have pre: "precheck (pay ''id'' 100) new_bank = Inr ?r"
    by (simp add: precheck_def pay_def new_bank_def)
  have c1: "commit ?r new_bank = (?b1, TransferSuccess 900 1100)"
    by (simp add: d word_sless_alt)
  have c2: "commit ?r ?b1 = (?b2, TransferSuccess 800 1200)"
    by (simp add: d word_sless_alt)
  have s1: "service_step ?s0 ?s1"
    by (rule check_pass [of _ _ "pay ''id'' 100"]) (simp_all add: two_requests_def pre)
  have s2: "service_step ?s1 ?s2"
    by (rule check_pass [of _ _ "pay ''id'' 100"]) (simp_all add: two_requests_def pre)
  have s3: "service_step ?s2 ?s3"
    by (rule critical [of _ _ ?r]) (simp_all add: two_requests_def c1)
  have s4: "service_step ?s3 ?s4"
    by (rule critical [of _ _ ?r]) (simp_all add: c2)
  note run = rtranclp.rtrancl_into_rtrancl [of service_step]
  have "service_step\<^sup>*\<^sup>* ?s0 ?s4"
    by (rule run [OF run [OF run [OF run [OF rtranclp.rtrancl_refl s1] s2] s3] s4])
  moreover have "balance (accts ?b2) ''A'' = 800" by (simp add: d)
  ultimately show ?thesis by (intro exI [of _ ?s4]) simp
qed

theorem transfers_conserve_money_witness:
  "\<exists>s. service_step\<^sup>*\<^sup>* two_requests s \<and> balance (accts (bank_of s)) ''A'' = 800 \<and>
       total (accts (bank_of s)) = total initial_accounts"
proof -
  obtain s where s: "service_step\<^sup>*\<^sup>* two_requests s" "balance (accts (bank_of s)) ''A'' = 800"
    using race_run by blast
  have "finite (dom (accts (bank_of two_requests)))"
    by (simp add: two_requests_def new_bank_def initial_accounts_def)
  from transfers_conserve_money [OF this s(1)] s show ?thesis
    by (auto simp: two_requests_def new_bank_def)
qed

text \<open>
  The request id does not make concurrent requests idempotent. Two requests with the same id can
  both pass the check, which is made before the mutex is taken, and both are then carried out.
\<close>

lemma same_id_transfers_twice:
  "\<exists>s i j. i \<noteq> j \<and> requests two_requests i = requests two_requests j \<and> service_step\<^sup>*\<^sup>* two_requests s \<and>
     requests s i = Answered (TransferSuccess 900 1100) \<and> requests s j = Answered (TransferSuccess 800 1200)"
proof -
  obtain s where "service_step\<^sup>*\<^sup>* two_requests s" "requests s 0 = Answered (TransferSuccess 900 1100)"
      "requests s 1 = Answered (TransferSuccess 800 1200)"
    using race_run by blast
  then show ?thesis
    by (intro exI [of _ s] exI [of _ 0] exI [of _ 1]) (simp add: two_requests_def)
qed

definition serve_all :: "http_request list \<Rightarrow> bank \<Rightarrow> bank" where
  "serve_all hs b = foldl (\<lambda>b h. fst (transfer2 h b)) b hs"

lemma handled_step: "handled b k \<Longrightarrow> handled (fst (transfer2 h b)) k"
  by (auto simp: transfer2_def precheck_def commit_def Let_def split: sum.splits option.splits if_splits)

lemma handled_all: "handled b k \<Longrightarrow> handled (serve_all hs b) k"
  unfolding serve_all_def by (rule foldl_invariant [where P = "\<lambda>b. handled b k"]) (auto intro: handled_step)

text \<open>
  One request after another is handled at most once: after a transfer has succeeded, sending the
  same request again, however often other requests come between, moves nothing.
\<close>

lemma sequential_requests_idempotent:
  assumes "transfer2 h b = (b', TransferSuccess x y)"
  shows "\<exists>rid. transfer2 h (serve_all hs b') = (serve_all hs b', AlreadyHandled rid)"
proof -
  obtain r where r: "hmethod h = MethodPost" "hbody h = Some r" "commit r b = (b', TransferSuccess x y)"
    using assms by (auto simp: transfer2_def precheck_def split: sum.splits option.splits if_splits)
  then have "handled b' (request_id r)"
    by (auto simp: commit_def Let_def split: if_splits)
  then have "handled (serve_all hs b') (request_id r)" by (rule handled_all)
  then show ?thesis using r by (simp add: transfer2_def precheck_def)
qed

theorem sequential_requests_idempotent_witness:
  "\<exists>b' rid. transfer2 (pay ''id'' 100) new_bank = (b', TransferSuccess 900 1100) \<and>
     transfer2 (pay ''id'' 100) (serve_all [pay ''other'' 5] b') = (serve_all [pay ''other'' 5] b', AlreadyHandled rid)"
proof -
  obtain b' where b': "transfer2 (pay ''id'' 100) new_bank = (b', TransferSuccess 900 1100)"
    by (simp add: transfer2_def precheck_def pay_def new_bank_def commit_def insufficient_def success_def
        move_money_def balance_def initial_accounts_def Let_def word_sless_alt)
  with sequential_requests_idempotent [OF b', of "[pay ''other'' 5]"] show ?thesis by blast
qed

text \<open>
  The first version is not idempotent, and no version looks at the sign of the amount: a negative
  amount passes the check of any account with a balance that is not negative and takes money from
  the receiving account.
\<close>

lemma transfer1_repeats:
  "fst (transfer1 (pay ''id'' 100) (fst (transfer1 (pay ''id'' 100) initial_accounts))) ''A'' = Some 800"
  by (simp add: transfer1_def pay_def insufficient_def move_money_def balance_def initial_accounts_def
      Let_def word_sless_alt)

lemma negative_amount_steals:
  "fst (transfer1 (pay ''id'' (-500)) initial_accounts) ''A'' = Some 1500 \<and>
   fst (transfer1 (pay ''id'' (-500)) initial_accounts) ''B'' = Some 500"
  by (simp add: transfer1_def pay_def insufficient_def move_money_def balance_def initial_accounts_def
      Let_def word_sless_alt)

end
