(* ===== verification/Codec.thy ===== *)
theory Codec
  imports GoText "HOL-Library.Word"
begin

text \<open>
  The message codec of \<open>io/message-codec/main.go\<close>: a message is its length as eight bytes, most
  significant first, and its bytes. A reader is the list of bytes it still holds; \<open>binary.Read\<close> and
  \<open>io.ReadFull\<close> are the library's: nothing read is \<open>io.EOF\<close>, too little is \<open>io.ErrUnexpectedEOF\<close>.
\<close>

section \<open>Bytes, readers and writers\<close>

type_synonym byte = "8 word"

datatype codec_error = ErrEOF | ErrUnexpectedEOF | ErrExceedSizeLimit

datatype 'a outcome = Ok 'a | Err codec_error | Panic

definition utf8 :: "string \<Rightarrow> byte list" where
  "utf8 s = concat (map (\<lambda>c. let n = (of_char c :: nat)
     in if n < 128 then [of_nat n] else [of_nat (192 + n div 64), of_nat (128 + n mod 64)]) s)"

definition read_full :: "nat \<Rightarrow> byte list \<Rightarrow> (codec_error, byte list) result \<times> byte list" where
  "read_full n r =
     (if n = 0 then (Inr [], r)
      else if r = [] then (Inl ErrEOF, [])
      else if length r < n then (Inl ErrUnexpectedEOF, [])
      else (Inr (take n r), drop n r))"

fun be_bytes :: "nat \<Rightarrow> nat \<Rightarrow> byte list" where
  "be_bytes 0 n = []"
| "be_bytes (Suc k) n = be_bytes k (n div 256) @ [of_nat (n mod 256)]"

definition be_value :: "byte list \<Rightarrow> nat" where
  "be_value bs = foldl (\<lambda>n b. n * 256 + unat b) 0 bs"

text \<open>The writer is the buffer written so far.\<close>

definition encode_message :: "byte list \<Rightarrow> byte list \<Rightarrow> byte list" where
  "encode_message w msg = (w @ be_bytes 8 (length msg mod 2 ^ 64)) @ msg"

definition decode_limit :: "byte list \<Rightarrow> nat \<Rightarrow> byte list outcome \<times> byte list" where
  "decode_limit r limit =
     (case read_full 8 r of
        (Inl e, r) \<Rightarrow> (Err e, r)
      | (Inr pre, r) \<Rightarrow>
         (let l = be_value pre
          in if l > limit then (Err ErrExceedSizeLimit, r)
             else if l \<ge> 2 ^ 63 then (Panic, r)
             else (case read_full l r of
                     (Inl e, r) \<Rightarrow> (Err e, r)
                   | (Inr buf, r) \<Rightarrow> (Ok buf, r))))"

definition new_stream :: "string \<Rightarrow> string \<Rightarrow> byte list" where
  "new_stream message rest = encode_message [] (utf8 message) @ utf8 (trim_space rest)"

text \<open>The four parts of \<open>main\<close>; a panic is \<open>None\<close>.\<close>

definition codec_main :: "((byte list \<times> byte list) \<times> byte list outcome \<times> byte list outcome \<times> (byte list \<times> byte list)) option" where
  "codec_main =
     (let s = encode_message [] (utf8 ''raft MsgSnap metadata'')
              @ utf8 (''boltdb-page-1'' @ nl # ''boltdb-page-2'' @ [nl])
      in (case decode_limit s 1024 of
            (Ok m1, rest1) \<Rightarrow>
              (let (e1, _) = decode_limit (new_stream ''this message is too large'' ''snapshot bytes'') 8;
                   (e2, _) = decode_limit (be_bytes 8 10 @ utf8 ''abc'') 1024
               in (case decode_limit (encode_message [] (utf8 ''raft MsgApp msg'') @ utf8 ''abc'') 1024 of
                     (Ok m2, rest2) \<Rightarrow> Some ((m1, rest1), e1, e2, (m2, rest2))
                   | _ \<Rightarrow> None))
          | _ \<Rightarrow> None))"

section \<open>The length prefix\<close>

lemma length_be_bytes [simp]: "length (be_bytes k n) = k"
  by (induction k arbitrary: n) simp_all

lemma be_value_snoc: "be_value (bs @ [b]) = be_value bs * 256 + unat b"
  by (simp add: be_value_def)

lemma unat_byte: "unat (of_nat (n mod 256) :: byte) = n mod 256"
  by (simp add: unat_of_nat)

lemma be_value_bytes: "n < 256 ^ k \<Longrightarrow> be_value (be_bytes k n) = n"
proof (induction k arbitrary: n)
  case 0
  then show ?case by (simp add: be_value_def)
next
  case (Suc k)
  then have "n div 256 < 256 ^ k" by (simp add: less_mult_imp_div_less mult.commute)
  then show ?case
    using Suc.IH [of "n div 256"] by (simp add: be_value_snoc unat_byte)
qed

lemma encode_length: "length (encode_message [] msg) = 8 + length msg"
  by (simp add: encode_message_def)

lemma encode_form:
  "length msg < 2 ^ 63 \<Longrightarrow> encode_message w msg = w @ be_bytes 8 (length msg) @ msg"
  by (simp add: encode_message_def)

lemma prefix_value: "length msg < 2 ^ 63 \<Longrightarrow> be_value (be_bytes 8 (length msg)) = length msg"
  by (rule be_value_bytes) simp

lemma decode_prefixed:
  assumes "length pre = 8"
  shows "decode_limit (pre @ r) limit =
    (let l = be_value pre
     in if l > limit then (Err ErrExceedSizeLimit, r)
        else if l \<ge> 2 ^ 63 then (Panic, r)
        else (case read_full l r of (Inl e, r) \<Rightarrow> (Err e, r) | (Inr buf, r) \<Rightarrow> (Ok buf, r)))"
proof -
  have "read_full 8 (pre @ r) = (Inr pre, r)" using assms by (cases pre) (auto simp: read_full_def)
  then show ?thesis by (simp add: decode_limit_def)
qed

lemma decode_encoded:
  assumes "length msg < 2 ^ 63"
  shows "decode_limit (encode_message [] msg @ rest) limit =
     (if length msg \<le> limit then (Ok msg, rest) else (Err ErrExceedSizeLimit, msg @ rest))"
  using assms decode_prefixed [of "be_bytes 8 (length msg)" "msg @ rest" limit]
  by (auto simp: encode_form prefix_value read_full_def Let_def)

section \<open>Streams of messages\<close>

text \<open>Reading messages until the first error.\<close>

fun decode_all :: "nat \<Rightarrow> nat \<Rightarrow> byte list \<Rightarrow> byte list list \<times> byte list outcome" where
  "decode_all 0 limit r = ([], Err ErrEOF)"
| "decode_all (Suc fuel) limit r =
     (case decode_limit r limit of
        (Ok m, r') \<Rightarrow> (case decode_all fuel limit r' of (ms, e) \<Rightarrow> (m # ms, e))
      | (e, r') \<Rightarrow> ([], e))"

section \<open>Properties\<close>

text \<open>
  C10. Round trip: what \<open>encodeMessage\<close> writes, \<open>decodeLimit\<close> reads back exactly, leaving whatever
  follows in the reader; and a message over the limit is refused without reading its body.
\<close>

theorem codec_roundtrip:
  assumes "length msg < 2 ^ 63"
  shows "decode_limit (encode_message [] msg @ rest) limit =
     (if length msg \<le> limit then (Ok msg, rest) else (Err ErrExceedSizeLimit, msg @ rest))"
  using assms by (rule decode_encoded)

theorem codec_roundtrip_witness:
  "decode_limit (encode_message [] [1, 2, 3] @ [9]) 1024 = (Ok [1, 2, 3], [9]) \<and>
   decode_limit (encode_message [] [1, 2, 3] @ [9]) 2 = (Err ErrExceedSizeLimit, [1, 2, 3, 9])"
  using codec_roundtrip [of "[1, 2, 3]" "[9]" 1024] codec_roundtrip [of "[1, 2, 3]" "[9]" 2] by simp

text \<open>
  A stream cut off anywhere is never misread: a proper prefix of an encoded message gives
  \<open>io.EOF\<close> when it ends before the length or exactly after it, and \<open>io.ErrUnexpectedEOF\<close> otherwise.
\<close>

lemma decode_truncated:
  assumes "length msg < 2 ^ 63" "length msg \<le> limit" "n < length (encode_message [] msg)"
  shows "decode_limit (take n (encode_message [] msg)) limit =
           (Err (if n = 0 \<or> n = 8 then ErrEOF else ErrUnexpectedEOF), [])"
proof (cases "n < 8")
  case True
  let ?t = "take n (encode_message [] msg)"
  have "length ?t = n" using True by (simp add: encode_length)
  then have "read_full 8 ?t = (Inl (if n = 0 then ErrEOF else ErrUnexpectedEOF), [])"
    using True by (auto simp: read_full_def)
  then show ?thesis using True by (simp add: decode_limit_def)
next
  case False
  have t: "take n (encode_message [] msg) = be_bytes 8 (length msg) @ take (n - 8) msg"
    using False assms(1) by (simp add: encode_form)
  have "n - 8 < length msg" using assms(3) False by (simp add: encode_length)
  then have "read_full (length msg) (take (n - 8) msg) =
      (Inl (if n = 8 then ErrEOF else ErrUnexpectedEOF), [])"
    using False by (auto simp: read_full_def)
  then show ?thesis
    unfolding t using assms(1,2) False by (simp add: decode_prefixed prefix_value Let_def)
qed

theorem decode_truncated_witness:
  "decode_limit (take 8 (encode_message [] [1, 2, 3])) 1024 = (Err ErrEOF, []) \<and>
   decode_limit (take 9 (encode_message [] [1, 2, 3])) 1024 = (Err ErrUnexpectedEOF, [])"
  using decode_truncated [of "[1, 2, 3]" 1024 8] decode_truncated [of "[1, 2, 3]" 1024 9]
  by (simp add: encode_length)

text \<open>Messages written one after the other are read back one after the other.\<close>

lemma decode_all_messages:
  assumes "\<forall>m \<in> set ms. length m < 2 ^ 63 \<and> length m \<le> limit"
  shows "decode_all (Suc (length ms)) limit (foldl encode_message [] ms) = (ms, Err ErrEOF)"
proof -
  have split: "foldl encode_message w ms = w @ concat (map (encode_message []) ms)" for w ms
    by (induction ms arbitrary: w) (simp_all add: encode_message_def)
  have "decode_all (Suc (length ms)) limit (concat (map (encode_message []) ms)) = (ms, Err ErrEOF)"
    using assms
  proof (induction ms)
    case Nil
    then show ?case by (simp add: decode_limit_def read_full_def)
  next
    case (Cons m ms)
    then show ?case using decode_encoded [of m "concat (map (encode_message []) ms)" limit] by simp
  qed
  then show ?thesis by (simp add: split)
qed

lemma codec_main_prints:
  "codec_main = Some ((utf8 ''raft MsgSnap metadata'', utf8 (''boltdb-page-1'' @ nl # ''boltdb-page-2'' @ [nl])),
     Err ErrExceedSizeLimit, Err ErrUnexpectedEOF, (utf8 ''raft MsgApp msg'', utf8 ''abc''))"
proof -
  have len: "length (utf8 ''raft MsgSnap metadata'') = 21" "length (utf8 ''this message is too large'') = 25"
    "length (utf8 ''raft MsgApp msg'') = 15" "length (utf8 ''abc'') = 3"
    by (simp_all add: utf8_def)
  have "be_value (be_bytes 8 10) = 10" by (rule be_value_bytes) simp
  then have short: "decode_limit (be_bytes 8 10 @ utf8 ''abc'') 1024 = (Err ErrUnexpectedEOF, [])"
    using len(4) by (auto simp: decode_prefixed read_full_def)
  show ?thesis
    by (simp add: codec_main_def decode_encoded len short new_stream_def Let_def)
qed

end
