(* ===== verification/LoadBalance.thy ===== *)
theory LoadBalance
  imports GoPrelude
begin

text \<open>
  The round-robin and the weighted round-robin of \<open>loadbalancer/main.go\<close>. The map with the keys
  \<open>0, ..., n - 1\<close> is the list of its values.
\<close>

section \<open>The two loops\<close>

text \<open>\<open>rr_run server k i\<close>: what \<open>k\<close> rounds print from index \<open>i\<close>. An index out of range or an empty list panics.\<close>

fun rr_run :: "int list \<Rightarrow> nat \<Rightarrow> nat \<Rightarrow> int list option" where
  "rr_run server 0 i = Some []"
| "rr_run server (Suc k) i =
     (if length server \<le> i then None
      else (let i' = i + 1; i'' = (if i' mod length server = 0 then 0 else i')
            in map_option (\<lambda>out. server ! i # out) (rr_run server k i'')))"

record weight =
  max_weight :: int
  current_weight :: int

text \<open>A key that is not in the map reads as the zero value and is added by the assignment.\<close>

definition wrr_step :: "weight list \<times> nat \<Rightarrow> (nat \<times> weight) \<times> (weight list \<times> nat)" where
  "wrr_step s =
     (case s of (ws, i) \<Rightarrow>
        let w = (if i < length ws then ws ! i else \<lparr>max_weight = 0, current_weight = 0\<rparr>);
            ext = (\<lambda>v. if i < length ws then ws[i := v] else ws @ [v]);
            (ws', i') =
              (if current_weight w + 1 = max_weight w
               then (ext \<lparr>max_weight = max_weight w, current_weight = 0\<rparr>, i + 1)
               else (ext \<lparr>max_weight = max_weight w, current_weight = current_weight w + 1\<rparr>, i))
        in ((i, w), (ws', if i' mod length ws' = 0 then 0 else i')))"

fun wrr_run :: "nat \<Rightarrow> weight list \<times> nat \<Rightarrow> (nat \<times> weight) list \<times> (weight list \<times> nat)" where
  "wrr_run 0 s = ([], s)"
| "wrr_run (Suc k) s =
     (let (out, s') = wrr_step s; (outs, s'') = wrr_run k s' in (out # outs, s''))"

definition fresh :: "int \<Rightarrow> weight" where
  "fresh m = \<lparr>max_weight = m, current_weight = 0\<rparr>"

definition lb_main :: "int list option \<times> (nat \<times> weight) list" where
  "lb_main = (rr_run [1, 2, 3] 10 0, fst (wrr_run 10 (map fresh [3, 2, 1], 0)))"

section \<open>Runs\<close>

lemma wrr_run_add:
  "wrr_run (a + b) s = (let (o1, s1) = wrr_run a s; (o2, s2) = wrr_run b s1 in (o1 @ o2, s2))"
  by (induction a arbitrary: s) (simp_all add: case_prod_beta Let_def)

text \<open>The turns of one server, from the current weight \<open>c\<close> up.\<close>

definition turns :: "nat \<Rightarrow> int \<Rightarrow> nat \<Rightarrow> nat \<Rightarrow> (nat \<times> weight) list" where
  "turns i m c k = map (\<lambda>j. (i, \<lparr>max_weight = m, current_weight = int (c + j)\<rparr>)) [0..<k]"

lemma turns_Suc: "turns i m c (Suc k) = (i, \<lparr>max_weight = m, current_weight = int c\<rparr>) # turns i m (Suc c) k"
  unfolding turns_def by (subst upt_conv_Cons) (simp_all add: map_Suc_upt [symmetric] del: upt_Suc)

lemma wrr_turns:
  assumes "i < length ws" "ws ! i = \<lparr>max_weight = int c + int k + 1, current_weight = int c\<rparr>"
  shows "wrr_run (Suc k) (ws, i) =
    (turns i (int c + int k + 1) c (Suc k),
     (ws[i := fresh (int c + int k + 1)], if Suc i = length ws then 0 else Suc i))"
  using assms
proof (induction k arbitrary: c ws)
  case 0
  have "(Suc i mod length ws = 0) = (Suc i = length ws)"
    using 0(1) by (metis Suc_leI mod_less mod_self nat_less_le nat.simps(3))
  then show ?case
    using 0 by (simp add: wrr_step_def Let_def turns_def fresh_def mod_Suc)
next
  case (Suc k)
  let ?m = "int c + int (Suc k) + 1"
  let ?ws = "ws[i := \<lparr>max_weight = ?m, current_weight = int (Suc c)\<rparr>]"
  have i: "i mod length ws = i" using Suc.prems(1) by simp
  have step: "wrr_step (ws, i) = ((i, \<lparr>max_weight = ?m, current_weight = int c\<rparr>), (?ws, i))"
    using Suc.prems by (simp add: wrr_step_def Let_def i add.commute)
  have "wrr_run (Suc k) (?ws, i) =
      (turns i ?m (Suc c) (Suc k), (?ws[i := fresh ?m], if Suc i = length ws then 0 else Suc i))"
    using Suc.IH [of ?ws "Suc c"] Suc.prems(1) by (simp add: add.commute add.left_commute)
  then show ?case
    using step by (simp only: wrr_run.simps(2) [of "Suc k"] Let_def prod.case turns_Suc [of i ?m c "Suc k"])
      simp
qed

definition cycle_from :: "int list \<Rightarrow> nat \<Rightarrow> (nat \<times> weight) list" where
  "cycle_from ms i = concat (map (\<lambda>j. turns j (ms ! j) 0 (nat (ms ! j))) [i..<length ms])"

lemma wrr_cycle_from:
  assumes "i < length ms" "\<forall>m \<in> set ms. 1 \<le> m"
  shows "wrr_run (sum_list (map nat (drop i ms))) (map fresh ms, i) = (cycle_from ms i, (map fresh ms, 0))"
  using assms(1)
proof (induction "length ms - i" arbitrary: i)
  case 0
  then show ?case by simp
next
  case (Suc d)
  let ?m = "ms ! i"
  have m: "1 \<le> ?m" using assms(2) Suc.prems by simp
  define k where "k = nat ?m - 1"
  have k: "nat ?m = Suc k" "?m = int 0 + int k + 1" using m by (simp_all add: k_def)
  have "wrr_run (nat ?m) (map fresh ms, i) =
      (turns i ?m 0 (nat ?m), ((map fresh ms)[i := fresh ?m], if Suc i = length ms then 0 else Suc i))"
    using wrr_turns [of i "map fresh ms" 0 k] Suc.prems k by (simp add: fresh_def)
  moreover have "(map fresh ms)[i := fresh ?m] = map fresh ms"
    using Suc.prems by (metis list_update_id nth_map)
  ultimately have first: "wrr_run (nat ?m) (map fresh ms, i) =
      (turns i ?m 0 (nat ?m), (map fresh ms, if Suc i = length ms then 0 else Suc i))" by simp
  have drop: "drop i ms = ?m # drop (Suc i) ms" using Suc.prems by (simp add: Cons_nth_drop_Suc)
  have upt: "[i..<length ms] = i # [Suc i..<length ms]" using Suc.prems by (simp add: upt_conv_Cons)
  show ?case
  proof (cases "Suc i = length ms")
    case True
    then show ?thesis using first drop upt by (simp add: cycle_from_def)
  next
    case False
    then have "wrr_run (sum_list (map nat (drop (Suc i) ms))) (map fresh ms, Suc i) =
        (cycle_from ms (Suc i), (map fresh ms, 0))"
      using Suc.hyps(2) Suc.prems by (intro Suc.hyps(1)) simp_all
    then show ?thesis
      using first drop upt False by (simp add: wrr_run_add cycle_from_def)
  qed
qed

lemma rr_run_nth:
  assumes "i < length server"
  shows "rr_run server k i = Some (map (\<lambda>j. server ! ((i + j) mod length server)) [0..<k])"
  using assms
proof (induction k arbitrary: i)
  case 0
  then show ?case by simp
next
  case (Suc k)
  let ?n = "length server"
  let ?i = "if Suc i mod ?n = 0 then 0 else Suc i"
  have i: "?i < ?n" "?i mod ?n = Suc i mod ?n"
    using Suc.prems by (auto simp: mod_Suc)
  have "rr_run server k ?i = Some (map (\<lambda>j. server ! ((?i + j) mod ?n)) [0..<k])"
    by (rule Suc.IH [OF i(1)])
  moreover have "(?i + j) mod ?n = (i + Suc j) mod ?n" for j
    by (metis i(2) mod_add_left_eq add_Suc_shift)
  moreover have "map (\<lambda>j. server ! ((i + j) mod ?n)) [0..<Suc k] =
      server ! i # map (\<lambda>j. server ! ((i + Suc j) mod ?n)) [0..<k]"
    using Suc.prems by (simp add: upt_conv_Cons map_Suc_upt [symmetric] del: upt_Suc)
  ultimately show ?case using Suc.prems by (simp add: Let_def)
qed

section \<open>Properties\<close>

text \<open>
  One cycle of the weighted round-robin. With positive weights, as many rounds as the weights add up
  to give every server its weight in consecutive turns, in the order of the servers, and lead back to
  the start; so every further cycle does the same.
\<close>

lemma weighted_cycle:
  assumes "ms \<noteq> []" "\<forall>m \<in> set ms. 1 \<le> m"
  shows "wrr_run (nat (sum_list ms)) (map fresh ms, 0) =
    (concat (map (\<lambda>j. turns j (ms ! j) 0 (nat (ms ! j))) [0..<length ms]), (map fresh ms, 0))"
proof -
  have "nat (sum_list ms) = sum_list (map nat ms)"
    using assms(2)
  proof (induction ms)
    case (Cons m ms)
    have "0 \<le> sum_list ms" by (rule sum_list_nonneg) (use Cons.prems in auto)
    then show ?case using Cons by (simp add: nat_add_distrib)
  qed simp
  then show ?thesis using wrr_cycle_from [of 0 ms] assms by (simp add: cycle_from_def)
qed

theorem weighted_cycle_witness:
  "map fst (fst (wrr_run 6 (map fresh [3, 2, 1], 0))) = [0, 0, 0, 1, 1, 2]"
  using weighted_cycle [of "[3, 2, 1]"] by (simp add: turns_def upt_rec numeral_eq_Suc)

text \<open>The plain round-robin prints the servers in turn, and \<open>main\<close> gives ten turns of both.\<close>

lemma rr_run_in_turn:
  "server \<noteq> [] \<Longrightarrow> rr_run server k 0 = Some (map (\<lambda>j. server ! (j mod length server)) [0..<k])"
  using rr_run_nth [of 0 server k] by simp

lemma lb_main_prints:
  "fst lb_main = Some [1, 2, 3, 1, 2, 3, 1, 2, 3, 1] \<and>
   map fst (snd lb_main) = [0, 0, 0, 1, 1, 2, 0, 0, 0, 1]"
  by code_simp

text \<open>A server with weight 0 is never left: the comparison with the maximum never holds again.\<close>

lemma zero_weight_keeps_turn:
  assumes "i < length ws" "max_weight (ws ! i) \<le> 0" "0 \<le> current_weight (ws ! i)"
  shows "map fst (fst (wrr_run k (ws, i))) = replicate k i"
  using assms
proof (induction k arbitrary: ws)
  case 0
  then show ?case by simp
next
  case (Suc k)
  let ?ws = "ws[i := \<lparr>max_weight = max_weight (ws ! i), current_weight = current_weight (ws ! i) + 1\<rparr>]"
  have "wrr_step (ws, i) = ((i, ws ! i), (?ws, i))"
    using Suc.prems by (auto simp: wrr_step_def Let_def)
  then show ?case using Suc.IH [of ?ws] Suc.prems by (simp add: case_prod_beta Let_def)
qed

end
