(* ===== verification/RateLimit.thy ===== *)
theory RateLimit
  imports GoPrelude
begin

text \<open>
  The combined rate limiters of \<open>concurrency/rate/multirate\<close> and \<open>concurrency/rate/typerate\<close>. The limiter
  of \<open>golang.org/x/time/rate\<close> is not code of the repository: its \<open>Limit\<close> is a value of an ordered type
  \<open>'l\<close>, \<open>rate.Every\<close> and \<open>Wait\<close> are parameters, the latter a function on the state \<open>'w\<close> of the world.
\<close>

section \<open>Limiters\<close>

datatype 'l limiter = Basic nat 'l nat   \<comment> \<open>name, limit and burst of a \<open>rate.Limiter\<close>\<close>
  | Multi "'l limiter list"

text \<open>\<open>Limit\<close>; the first of no limiters panics.\<close>

fun limit :: "'l limiter \<Rightarrow> 'l option" where
  "limit (Basic i l b) = Some l"
| "limit (Multi ls) = (case ls of [] \<Rightarrow> None | m # _ \<Rightarrow> limit m)"

text \<open>
  \<open>sort.Slice\<close>, which sorts up to twelve elements by insertion; the comparison panics if a limit does.
\<close>

fun limits :: "'l limiter list \<Rightarrow> ('l \<times> 'l limiter) list option" where
  "limits [] = Some []"
| "limits (m # ms) = do { l \<leftarrow> limit m; r \<leftarrow> limits ms; Some ((l, m) # r) }"

definition multi_limiter :: "'l::linorder limiter list \<Rightarrow> 'l limiter option" where
  "multi_limiter ls =
     (if length ls \<le> 1 then Some (Multi ls)
      else map_option (\<lambda>ps. Multi (map snd (sort_key fst ps))) (limits ls))"

section \<open>Waiting\<close>

type_synonym 'w waiter = "nat \<Rightarrow> 'w \<Rightarrow> 'w \<times> string option"

fun wait_limiter :: "'w waiter \<Rightarrow> 'l limiter \<Rightarrow> 'w \<Rightarrow> 'w \<times> string option"
  and wait_list :: "'w waiter \<Rightarrow> 'l limiter list \<Rightarrow> 'w \<Rightarrow> 'w \<times> string option" where
  "wait_limiter wt (Basic i l b) w = wt i w"
| "wait_limiter wt (Multi ls) w = wait_list wt ls w"
| "wait_list wt [] w = (w, None)"
| "wait_list wt (m # ms) w =
     (case wait_limiter wt m w of (w', Some e) \<Rightarrow> (w', Some e) | (w', None) \<Rightarrow> wait_list wt ms w')"

text \<open>\<open>Per\<close>: Go's integer division by zero panics; both numbers are positive in the program.\<close>

definition per :: "(nat \<Rightarrow> 'l) \<Rightarrow> nat \<Rightarrow> nat \<Rightarrow> 'l option" where
  "per every events duration = (if events = 0 then None else Some (every (duration div events)))"

definition second :: nat where "second = 1000000000"
definition minute :: nat where "minute = 60 * second"

section \<open>The connections\<close>

definition open_single :: "(nat \<Rightarrow> 'l) \<Rightarrow> 'l \<Rightarrow> 'l limiter" where
  "open_single every one = Basic 0 one 1"

definition open_multi :: "(nat \<Rightarrow> 'l::linorder) \<Rightarrow> 'l limiter option" where
  "open_multi every = do {
     l2 \<leftarrow> per every 2 second;
     l10 \<leftarrow> per every 10 minute;
     multi_limiter [Basic 0 l2 1, Basic 1 l10 10]
   }"

record 'l api =
  network_limit :: "'l limiter"
  disk_limit :: "'l limiter"
  api_limit :: "'l limiter"

definition open_types :: "(nat \<Rightarrow> 'l::linorder) \<Rightarrow> 'l \<Rightarrow> 'l api option" where
  "open_types every one = do {
     l2 \<leftarrow> per every 2 second;
     l10 \<leftarrow> per every 10 minute;
     a \<leftarrow> multi_limiter [Basic 0 l2 2, Basic 1 l10 10];
     d \<leftarrow> multi_limiter [Basic 2 one 1];
     l3 \<leftarrow> per every 3 second;
     n \<leftarrow> multi_limiter [Basic 3 l3 3];
     Some \<lparr>network_limit = n, disk_limit = d, api_limit = a\<rparr>
   }"

text \<open>\<open>ReadFile\<close> and \<open>ResolveAddress\<close> wait and then do their work; the outer option is a panic.\<close>

definition use_limiter :: "'w waiter \<Rightarrow> ('w \<Rightarrow> 'w) \<Rightarrow> 'l limiter \<Rightarrow> 'w \<Rightarrow> 'w \<times> string option" where
  "use_limiter wt work m w =
     (case wait_limiter wt m w of (w', Some e) \<Rightarrow> (w', Some e) | (w', None) \<Rightarrow> (work w', None))"

definition read_file :: "'w waiter \<Rightarrow> ('w \<Rightarrow> 'w) \<Rightarrow> 'l::linorder api \<Rightarrow> 'w \<Rightarrow> ('w \<times> string option) option" where
  "read_file wt work a w =
     map_option (\<lambda>m. use_limiter wt work m w) (multi_limiter [api_limit a, disk_limit a])"

definition resolve_address :: "'w waiter \<Rightarrow> ('w \<Rightarrow> 'w) \<Rightarrow> 'l::linorder api \<Rightarrow> 'w \<Rightarrow> ('w \<times> string option) option" where
  "resolve_address wt work a w =
     map_option (\<lambda>m. use_limiter wt work m w) (multi_limiter [api_limit a, network_limit a])"

section \<open>Lemmas\<close>

text \<open>The basic limiters below a limiter, in the order they are waited for.\<close>

fun leaves :: "'l limiter \<Rightarrow> (nat \<times> 'l) list" and leaves_list :: "'l limiter list \<Rightarrow> (nat \<times> 'l) list" where
  "leaves (Basic i l b) = [(i, l)]"
| "leaves (Multi ls) = leaves_list ls"
| "leaves_list [] = []"
| "leaves_list (m # ms) = leaves m @ leaves_list ms"

lemma wait_leaves:
  fixes m :: "'l limiter"
  shows "wait_limiter wt m w = for_range (\<lambda>w i. wt i w) w (map fst (leaves m))"
    "wait_list wt (ms :: 'l limiter list) w = for_range (\<lambda>w i. wt i w) w (map fst (leaves_list ms))"
  by (induction wt m w and wt ms w rule: wait_limiter_wait_list.induct)
     (auto simp: for_range_append split: prod.splits option.splits)

lemma limits_Some:
  "limits ls = Some ps \<Longrightarrow> map snd ps = ls \<and> (\<forall>p \<in> set ps. limit (snd p) = Some (fst p))"
  by (induction ls arbitrary: ps) (auto split: Option.bind_splits)

lemma multi_limiter_shape:
  assumes "multi_limiter ls = Some (Multi ms)" "2 \<le> length ls"
  obtains ps where "limits ls = Some ps" "ms = map snd (sort_key fst ps)" "length ps = length ls"
proof -
  obtain ps where ps: "limits ls = Some ps" "ms = map snd (sort_key fst ps)"
    using assms by (auto simp: multi_limiter_def)
  moreover have "length ps = length ls" using limits_Some [OF ps(1)] by auto
  ultimately show ?thesis by (rule that)
qed

lemma leaves_list_mset: "mset ms = mset ns \<Longrightarrow> mset (leaves_list ms) = mset (leaves_list ns)"
proof -
  have "mset (leaves_list ms) = (\<Sum>m \<in># mset ms. mset (leaves m))" for ms :: "'a limiter list"
    by (induction ms) simp_all
  then show "mset ms = mset ns \<Longrightarrow> mset (leaves_list ms) = mset (leaves_list ns)" by metis
qed

section \<open>Properties\<close>

text \<open>
  A combined limiter is as strict as its strictest part: \<open>MultiLimiter\<close> keeps the given limiters,
  orders them by limit, and its \<open>Limit\<close> is the least of theirs.
\<close>

lemma multi_limiter_strictest:
  fixes ls :: "'l::linorder limiter list"
  assumes "multi_limiter ls = Some m" "ls \<noteq> []" "\<forall>x \<in> set ls. limit x \<noteq> None"
  shows "\<exists>l ms. m = Multi ms \<and> mset ms = mset ls \<and> limit m = Some l \<and>
           l \<in> (the \<circ> limit) ` set ls \<and> (\<forall>x \<in> set ls. l \<le> the (limit x))"
proof (cases "2 \<le> length ls")
  case False
  then obtain x where "ls = [x]" using assms(2) by (cases ls; cases "tl ls") auto
  then show ?thesis using assms by (auto simp: multi_limiter_def)
next
  case True
  then obtain ms where m: "m = Multi ms" using assms(1) by (auto simp: multi_limiter_def)
  obtain ps where ps: "limits ls = Some ps" "ms = map snd (sort_key fst ps)" "length ps = length ls"
    using multi_limiter_shape True assms(1) m by metis
  note lim = limits_Some [OF ps(1)]
  have ne: "sort_key fst ps \<noteq> []" using ps(3) True by (metis length_0_conv length_sort not_numeral_le_zero)
  then obtain p qs where p: "sort_key fst ps = p # qs" by (cases "sort_key fst ps") auto
  have least: "fst p \<le> fst q" if "q \<in> set ps" for q
  proof -
    have "sorted (map fst (p # qs))" using sorted_sort_key [of fst ps] p by metis
    moreover have "q \<in> set (p # qs)" using that p by (metis set_sort)
    ultimately show ?thesis by auto
  qed
  have pin: "p \<in> set ps" using p by (metis list.set_intros(1) set_sort)
  have "limit m = Some (fst p)" using m ps(2) p lim pin by simp
  moreover have "mset ms = mset ls"
    using ps(2) lim by (metis mset_map mset_sort)
  moreover have "fst p \<le> the (limit x)" if x: "x \<in> set ls" for x
  proof -
    have "x \<in> snd ` set ps" using x lim by (metis list.set_map)
    then obtain q where q: "q \<in> set ps" "x = snd q" by blast
    then have "limit x = Some (fst q)" using lim by blast
    then show ?thesis using least [OF q(1)] by simp
  qed
  moreover have "fst p \<in> (the \<circ> limit) ` set ls"
  proof -
    have "snd p \<in> set ls" using pin lim by (metis image_eqI list.set_map)
    then show ?thesis using pin lim by force
  qed
  ultimately show ?thesis using m by auto
qed

theorem multi_limiter_strictest_witness:
  "\<exists>m. multi_limiter [Basic 0 (7 :: int) 1, Basic 1 3 10, Multi [Basic 2 5 1]] = Some m \<and> limit m = Some 3"
proof -
  let ?ls = "[Basic 0 (7 :: int) 1, Basic 1 3 10, Multi [Basic 2 5 1]]"
  obtain m where m: "multi_limiter ?ls = Some m" by (simp add: multi_limiter_def)
  obtain l where "limit m = Some l" "l \<in> (the \<circ> limit) ` set ?ls" "\<forall>x \<in> set ?ls. l \<le> the (limit x)"
    using multi_limiter_strictest [OF m] by auto
  then show ?thesis using m by auto
qed

text \<open>
  \<open>Wait\<close> of a combined limiter, however nested, waits for every basic limiter below it exactly once
  and returns nil only if all waits did; it stops at the first one that fails.
\<close>

lemma multi_wait_all:
  assumes "multi_limiter ls = Some m"
  shows "\<exists>ids. mset ids = mset (map fst (leaves_list ls)) \<and>
           wait_limiter wt m w = for_range (\<lambda>w i. wt i w) w ids"
proof -
  obtain ms where m: "m = Multi ms" "mset ms = mset ls"
  proof (cases "length ls \<le> 1")
    case True
    then show ?thesis using that assms by (auto simp: multi_limiter_def)
  next
    case False
    then obtain ps where "limits ls = Some ps" "m = Multi (map snd (sort_key fst ps))"
      using assms by (auto simp: multi_limiter_def)
    then show ?thesis using that limits_Some by (metis mset_map mset_sort)
  qed
  have "wait_limiter wt m w = for_range (\<lambda>w i. wt i w) w (map fst (leaves_list ms))"
    using m(1) wait_leaves(1) [of wt m w] by simp
  moreover have "mset (map fst (leaves_list ms)) = mset (map fst (leaves_list ls))"
    using leaves_list_mset [OF m(2)] by simp
  ultimately show ?thesis by blast
qed

theorem multi_wait_all_witness:
  "\<exists>m ids. multi_limiter [Basic 0 (7 :: int) 1, Basic 1 3 10] = Some m \<and> mset ids = {#0, 1#} \<and>
     wait_limiter (\<lambda>i w. (w @ [i], None)) m [] = for_range (\<lambda>w i. (w @ [i], None)) [] ids"
proof -
  obtain m where m: "multi_limiter [Basic 0 (7 :: int) 1, Basic 1 3 10] = Some m"
    by (simp add: multi_limiter_def)
  from multi_wait_all [OF this, of "\<lambda>i w. (w @ [i], None)" "[]"] m show ?thesis by auto
qed

end
