(* ===== verification/FileLock.thy ===== *)
theory FileLock
  imports GoPrelude
begin

text \<open>
  The advisory lock of \<open>flock/flock.go\<close>: three goroutines, each with a file of its own on the same path,
  the first blocking on the lock, the others trying it first. The kernel's lock is the goroutine that
  holds it, if any; \<open>flock\<close> may fail at any call.
\<close>

section \<open>The lock\<close>

datatype flock_error = EWOULDBLOCK | EOTHER

datatype goroutine_pc =
  GOpen
| GLock       \<comment> \<open>in the blocking \<open>Lock\<close>\<close>
| GTry        \<comment> \<open>before \<open>TryLock\<close>\<close>
| GRetry      \<comment> \<open>the lock was busy: sleeping, then in the blocking \<open>Lock\<close>\<close>
| GHold
| GClose      \<comment> \<open>the deferred \<open>Close\<close>\<close>
| GDone

record flock_state =
  holder :: "nat option"
  gpc :: "nat \<Rightarrow> goroutine_pc"

text \<open>A blocking call has a result only when the lock is free or fails.\<close>

definition lock_file :: "nat \<Rightarrow> bool \<Rightarrow> nat option \<Rightarrow> (flock_error, nat option) result option" where
  "lock_file i fails h =
     (if fails then Some (Inl EOTHER) else if h = None \<or> h = Some i then Some (Inr (Some i)) else None)"

definition try_lock_file :: "nat \<Rightarrow> bool \<Rightarrow> nat option \<Rightarrow> (flock_error, nat option) result" where
  "try_lock_file i fails h =
     (if fails then Inl EOTHER else if h = None \<or> h = Some i then Inr (Some i) else Inl EWOULDBLOCK)"

text \<open>Unlocking and closing release the lock if this file has it.\<close>

definition release :: "nat \<Rightarrow> nat option \<Rightarrow> nat option" where
  "release i h = (if h = Some i then None else h)"

definition start :: flock_state where
  "start = \<lparr>holder = None, gpc = (\<lambda>_. GOpen)\<rparr>"

inductive flock_step :: "flock_state \<Rightarrow> flock_state \<Rightarrow> bool" where
  open_ok [go_intros]: "gpc s i = GOpen \<Longrightarrow>
     flock_step s (s\<lparr>gpc := (gpc s)(i := (if i = 1 then GLock else GTry))\<rparr>)"
| open_failed [go_intros]: "gpc s i = GOpen \<Longrightarrow> flock_step s (s\<lparr>gpc := (gpc s)(i := GDone)\<rparr>)"
| lock_returns [go_intros]: "gpc s i = GLock \<or> gpc s i = GRetry \<Longrightarrow> lock_file i fails (holder s) = Some r \<Longrightarrow>
     flock_step s (case r of Inl e \<Rightarrow> s\<lparr>gpc := (gpc s)(i := GClose)\<rparr>
                           | Inr h \<Rightarrow> s\<lparr>holder := h, gpc := (gpc s)(i := GHold)\<rparr>)"
| try_returns [go_intros]: "gpc s i = GTry \<Longrightarrow> try_lock_file i fails (holder s) = r \<Longrightarrow>
     flock_step s (case r of Inl EWOULDBLOCK \<Rightarrow> s\<lparr>gpc := (gpc s)(i := GRetry)\<rparr>
                           | Inl EOTHER \<Rightarrow> s\<lparr>gpc := (gpc s)(i := GClose)\<rparr>
                           | Inr h \<Rightarrow> s\<lparr>holder := h, gpc := (gpc s)(i := GHold)\<rparr>)"
| unlock [go_intros]: "gpc s i = GHold \<Longrightarrow>
     flock_step s (s\<lparr>holder := release i (holder s), gpc := (gpc s)(i := GClose)\<rparr>)"
| close [go_intros]: "gpc s i = GClose \<Longrightarrow>
     flock_step s (s\<lparr>holder := release i (holder s), gpc := (gpc s)(i := GDone)\<rparr>)"

inductive_cases flock_stepE: "flock_step s t"

definition flock_inv :: "flock_state \<Rightarrow> bool" where
  "flock_inv s = (\<forall>i. gpc s i = GHold \<longleftrightarrow> holder s = Some i)"

lemma flock_inv_step: "flock_inv s \<Longrightarrow> flock_step s t \<Longrightarrow> flock_inv t"
  by (erule flock_stepE;
      auto simp: flock_inv_def lock_file_def try_lock_file_def release_def split: if_splits sum.splits flock_error.splits;
      metis goroutine_pc.distinct)

interpretation flock: step_invariant "\<lambda>s. s = start" flock_step flock_inv
proof
  show "\<And>s. s = start \<Longrightarrow> flock_inv s" by (simp add: flock_inv_def start_def)
qed (rule flock_inv_step)

section \<open>Properties\<close>

text \<open>
  Mutual exclusion, and no lock is leaked: in every reachable state at most one goroutine is
  between acquiring and releasing, and the lock is taken only while one is.
\<close>

lemma flock_mutual_exclusion:
  assumes "flock_step\<^sup>*\<^sup>* start s"
  shows "(gpc s i = GHold \<longrightarrow> gpc s j = GHold \<longrightarrow> i = j) \<and> (holder s = Some i \<longrightarrow> gpc s i = GHold)"
  using flock.inv_reachable [OF refl assms] by (auto simp: flock_inv_def)

theorem flock_mutual_exclusion_witness:
  "\<exists>s. flock_step\<^sup>*\<^sup>* start s \<and> gpc s 1 = GHold \<and> (gpc s 2 = GHold \<longrightarrow> (1 :: nat) = 2)"
proof -
  let ?s1 = "start\<lparr>gpc := (gpc start)(1 := GLock)\<rparr>"
  let ?s2 = "?s1\<lparr>holder := Some 1, gpc := (gpc ?s1)(1 := GHold)\<rparr>"
  have 1: "flock_step start ?s1" using open_ok [of start 1] by (simp add: start_def)
  have 2: "flock_step ?s1 ?s2"
    using lock_returns [of ?s1 1 False "Inr (Some 1)"] by (simp add: start_def lock_file_def)
  have run: "flock_step\<^sup>*\<^sup>* start ?s2"
    using 1 2 by (metis rtranclp.rtrancl_into_rtrancl rtranclp.rtrancl_refl)
  show ?thesis
    by (rule exI [of _ ?s2]) (use run flock_mutual_exclusion [OF run, of 1 2] in simp)
qed

end
