(* ===== verification/Locks.thy ===== *)
theory Locks
  imports GoPrelude
begin

text \<open>
  The small programs on mutexes and condition variables: \<open>concurrency/dead-lock\<close>,
  \<open>concurrency/etcd-example\<close>, \<open>sync/cond\<close> and \<open>sync/cond2\<close>. Each goroutine has a program point; a machine
  is a function that runs one named goroutine for one step, or has no value when it is blocked. A
  \<open>sync.Cond\<close> is the list of goroutines waiting, in the order they joined: \<open>Wait\<close> joins it, and then
  releases the lock; \<open>Signal\<close> wakes the first and \<open>Broadcast\<close> all, which then need the lock again.
\<close>

section \<open>Machines\<close>

fun run_machine :: "('l \<Rightarrow> 's \<Rightarrow> 's option) \<Rightarrow> 'l list \<Rightarrow> 's \<Rightarrow> 's option" where
  "run_machine step [] s = Some s"
| "run_machine step (l # ls) s = Option.bind (step l s) (run_machine step ls)"

lemma run_machine_invariant:
  assumes "run_machine step ls s = Some t" "P s" "\<And>l s t. P s \<Longrightarrow> step l s = Some t \<Longrightarrow> P t"
  shows "P t"
  using assms(1,2)
  by (induction ls arbitrary: s) (auto split: Option.bind_splits intro: assms(3))

section \<open>Two locks in opposite order (dead-lock)\<close>

datatype lock_id = LockC | LockD

datatype lock_op = Acquire lock_id | Release lock_id

definition a_sum :: "lock_op list" where
  "a_sum = [Acquire LockD, Acquire LockC, Release LockC, Release LockD]"

definition b_sum :: "lock_op list" where
  "b_sum = [Acquire LockC, Acquire LockD, Release LockD, Release LockC]"

record two_locks =
  owners :: "(lock_id \<times> bool) list"   \<comment> \<open>the locks taken, and by which goroutine: \<open>True\<close> is \<open>aSum\<close>\<close>
  a_left :: "lock_op list"
  b_left :: "lock_op list"

definition lock_op_step :: "bool \<Rightarrow> lock_op \<Rightarrow> (lock_id \<times> bool) list \<Rightarrow> (lock_id \<times> bool) list option" where
  "lock_op_step who op own =
     (case op of
        Acquire l \<Rightarrow> if map_of own l = None then Some ((l, who) # own) else None
      | Release l \<Rightarrow> Some (filter (\<lambda>(l', _). l' \<noteq> l) own))"

fun dead_step :: "bool \<Rightarrow> two_locks \<Rightarrow> two_locks option" where
  "dead_step True s =
     (case a_left s of [] \<Rightarrow> None
      | op # ops \<Rightarrow> map_option (\<lambda>own. s\<lparr>owners := own, a_left := ops\<rparr>) (lock_op_step True op (owners s)))"
| "dead_step False s =
     (case b_left s of [] \<Rightarrow> None
      | op # ops \<Rightarrow> map_option (\<lambda>own. s\<lparr>owners := own, b_left := ops\<rparr>) (lock_op_step False op (owners s)))"

definition dead_start :: two_locks where
  "dead_start = \<lparr>owners = [], a_left = a_sum, b_left = b_sum\<rparr>"

section \<open>A condition set without its lock (etcd-example)\<close>

datatype eater_pc = EStart | ETell | ECheck | EJoin | ESleep | EWoken | ELeave | EDone

datatype cook_pc = CReceive | CCook | CBroadcast

record kitchen =
  klock :: "nat option"
  condition :: bool
  asleep :: "nat list"
  eaters :: "eater_pc list"
  cook :: cook_pc

datatype kitchen_label = Eater nat | Cook

definition set_eater :: "nat \<Rightarrow> eater_pc \<Rightarrow> kitchen \<Rightarrow> kitchen" where
  "set_eater i p s = s\<lparr>eaters := (eaters s)[i := p]\<rparr>"

definition eat_step :: "nat \<Rightarrow> kitchen \<Rightarrow> kitchen option" where
  "eat_step i s =
     (if length (eaters s) \<le> i then None
      else (case eaters s ! i of
         EStart \<Rightarrow> if klock s = None then Some (set_eater i ETell (s\<lparr>klock := Some i\<rparr>)) else None
       | ETell \<Rightarrow> Some (set_eater i ECheck (if cook s = CReceive then s\<lparr>cook := CCook\<rparr> else s))
       | ECheck \<Rightarrow> Some (set_eater i (if condition s then ELeave else EJoin) s)
       | EJoin \<Rightarrow> Some (set_eater i ESleep (s\<lparr>asleep := asleep s @ [i], klock := None\<rparr>))
       | ESleep \<Rightarrow> None
       | EWoken \<Rightarrow> if klock s = None then Some (set_eater i ECheck (s\<lparr>klock := Some i\<rparr>)) else None
       | ELeave \<Rightarrow> Some (set_eater i EDone (s\<lparr>klock := None\<rparr>))
       | EDone \<Rightarrow> None))"

definition cook_step :: "kitchen \<Rightarrow> kitchen option" where
  "cook_step s =
     (case cook s of
        CReceive \<Rightarrow> None
      | CCook \<Rightarrow> Some (s\<lparr>condition := True, cook := CBroadcast\<rparr>)
      | CBroadcast \<Rightarrow> Some (foldl (\<lambda>s i. set_eater i EWoken s) (s\<lparr>asleep := [], cook := CReceive\<rparr>) (asleep s)))"

definition kitchen_step :: "kitchen_label \<Rightarrow> kitchen \<Rightarrow> kitchen option" where
  "kitchen_step l s = (case l of Eater i \<Rightarrow> eat_step i s | Cook \<Rightarrow> cook_step s)"

definition kitchen_start :: "nat \<Rightarrow> kitchen" where
  "kitchen_start n = \<lparr>klock = None, condition = False, asleep = [], eaters = replicate n EStart, cook = CReceive\<rparr>"

definition stuck_kitchen :: "kitchen \<Rightarrow> bool" where
  "stuck_kitchen s =
     (cook_step s = None \<and> list_all (\<lambda>i. eat_step i s = None) [0..<length (eaters s)] \<and>
      list_ex (\<lambda>p. p \<noteq> EDone) (eaters s))"

section \<open>One signal for three waiters (sync/cond)\<close>

datatype waiter_pc = WStart | WCheck | WJoin | WSleep | WWoken | WLeave | WDone

datatype signaller_pc = NStart | NSignal | NUnlock | NDone

record signalling =
  slock :: "nat option"
  shared_resource :: bool
  sleeping :: "nat list"
  waiters :: "waiter_pc list"
  signaller :: signaller_pc

datatype signal_label = Waiter nat | Notifier

definition set_waiter :: "nat \<Rightarrow> waiter_pc \<Rightarrow> signalling \<Rightarrow> signalling" where
  "set_waiter i p s = s\<lparr>waiters := (waiters s)[i := p]\<rparr>"

definition waiter_step :: "nat \<Rightarrow> signalling \<Rightarrow> signalling option" where
  "waiter_step i s =
     (if length (waiters s) \<le> i then None
      else (case waiters s ! i of
         WStart \<Rightarrow> if slock s = None then Some (set_waiter i WCheck (s\<lparr>slock := Some i\<rparr>)) else None
       | WCheck \<Rightarrow> Some (set_waiter i (if shared_resource s then WLeave else WJoin) s)
       | WJoin \<Rightarrow> Some (set_waiter i WSleep (s\<lparr>sleeping := sleeping s @ [i], slock := None\<rparr>))
       | WSleep \<Rightarrow> None
       | WWoken \<Rightarrow> if slock s = None then Some (set_waiter i WCheck (s\<lparr>slock := Some i\<rparr>)) else None
       | WLeave \<Rightarrow> Some (set_waiter i WDone (s\<lparr>slock := None\<rparr>))
       | WDone \<Rightarrow> None))"

definition notifier_step :: "signalling \<Rightarrow> signalling option" where
  "notifier_step s =
     (case signaller s of
        NStart \<Rightarrow> if slock s = None
                  then Some (s\<lparr>slock := Some (length (waiters s)), shared_resource := True, signaller := NSignal\<rparr>)
                  else None
      | NSignal \<Rightarrow> Some ((case sleeping s of
            [] \<Rightarrow> s
          | i # is \<Rightarrow> set_waiter i WWoken (s\<lparr>sleeping := is\<rparr>))\<lparr>signaller := NUnlock\<rparr>)
      | NUnlock \<Rightarrow> Some (s\<lparr>slock := None, signaller := NDone\<rparr>)
      | NDone \<Rightarrow> None)"

definition signal_step :: "signal_label \<Rightarrow> signalling \<Rightarrow> signalling option" where
  "signal_step l s = (case l of Waiter i \<Rightarrow> waiter_step i s | Notifier \<Rightarrow> notifier_step s)"

definition signal_start :: signalling where
  "signal_start =
     \<lparr>slock = None, shared_resource = False, sleeping = [], waiters = replicate 3 WStart, signaller = NStart\<rparr>"

section \<open>Producer and consumers (sync/cond2)\<close>

datatype producer_pc = PStart | PAppend | PSignal | PUnlock

datatype consumer_pc = KStart | KCheck | KJoin | KSleep | KWoken | KTake | KUnlock

record shop =
  mutex :: "nat option"              \<comment> \<open>0 is the producer\<close>
  buffer :: "int list"
  waiting_for :: "nat list"
  producer_id :: int
  producer :: producer_pc
  consumers :: "consumer_pc list"
  produced :: "int list"             \<comment> \<open>what has been printed so far\<close>
  consumed :: "int list"

datatype shop_label = Producer | Consumer nat

definition producer_step :: "shop \<Rightarrow> shop option" where
  "producer_step s =
     (case producer s of
        PStart \<Rightarrow> if mutex s = None then Some (s\<lparr>mutex := Some 0, producer := PAppend\<rparr>) else None
      | PAppend \<Rightarrow> Some (s\<lparr>buffer := buffer s @ [producer_id s], produced := produced s @ [producer_id s],
                          producer := PSignal\<rparr>)
      | PSignal \<Rightarrow> Some ((case waiting_for s of
            [] \<Rightarrow> s
          | i # is \<Rightarrow> s\<lparr>waiting_for := is, consumers := (consumers s)[i := KWoken]\<rparr>)\<lparr>producer := PUnlock\<rparr>)
      | PUnlock \<Rightarrow> Some (s\<lparr>mutex := None, producer := PStart\<rparr>))"

text \<open>Taking from an empty buffer would panic: there is no step.\<close>

definition consumer_step :: "nat \<Rightarrow> shop \<Rightarrow> shop option" where
  "consumer_step i s =
     (if length (consumers s) \<le> i then None
      else (case consumers s ! i of
         KStart \<Rightarrow> if mutex s = None
                   then Some (s\<lparr>mutex := Some (Suc i), consumers := (consumers s)[i := KCheck]\<rparr>) else None
       | KCheck \<Rightarrow> Some (s\<lparr>consumers := (consumers s)[i := (if buffer s = [] then KJoin else KTake)]\<rparr>)
       | KJoin \<Rightarrow> Some (s\<lparr>waiting_for := waiting_for s @ [i], mutex := None,
                         consumers := (consumers s)[i := KSleep]\<rparr>)
       | KSleep \<Rightarrow> None
       | KWoken \<Rightarrow> if mutex s = None
                   then Some (s\<lparr>mutex := Some (Suc i), consumers := (consumers s)[i := KCheck]\<rparr>) else None
       | KTake \<Rightarrow> (case buffer s of [] \<Rightarrow> None
                   | x # xs \<Rightarrow> Some (s\<lparr>buffer := xs, consumed := consumed s @ [x],
                                      consumers := (consumers s)[i := KUnlock]\<rparr>))
       | KUnlock \<Rightarrow> Some (s\<lparr>mutex := None, consumers := (consumers s)[i := KStart]\<rparr>)))"

definition shop_step :: "shop_label \<Rightarrow> shop \<Rightarrow> shop option" where
  "shop_step l s = (case l of Producer \<Rightarrow> producer_step s | Consumer i \<Rightarrow> consumer_step i s)"

definition shop_start :: "nat \<Rightarrow> shop" where
  "shop_start n =
     \<lparr>mutex = None, buffer = [], waiting_for = [], producer_id = 1, producer = PStart,
      consumers = replicate n KStart, produced = [], consumed = []\<rparr>"

definition holds_mutex :: "consumer_pc \<Rightarrow> bool" where
  "holds_mutex p = (p \<in> {KCheck, KJoin, KTake, KUnlock})"

definition shop_inv :: "shop \<Rightarrow> bool" where
  "shop_inv s =
     (produced s = consumed s @ buffer s \<and>
      (producer s \<noteq> PStart \<longleftrightarrow> mutex s = Some 0) \<and>
      (\<forall>i < length (consumers s). holds_mutex (consumers s ! i) \<longleftrightarrow> mutex s = Some (Suc i)) \<and>
      (\<forall>i < length (consumers s). consumers s ! i = KTake \<longrightarrow> buffer s \<noteq> []) \<and>
      distinct (waiting_for s) \<and>
      (\<forall>i \<in> set (waiting_for s). i < length (consumers s) \<and> consumers s ! i = KSleep))"

lemma shop_inv_start: "shop_inv (shop_start n)"
  by (auto simp: shop_inv_def shop_start_def holds_mutex_def)

lemma shop_inv_producer: "shop_inv s \<Longrightarrow> producer_step s = Some t \<Longrightarrow> shop_inv t"
  by (cases "producer s")
     (auto simp: shop_inv_def producer_step_def holds_mutex_def nth_list_update split: if_splits list.splits)

lemma shop_inv_consumer:
  assumes "shop_inv s" "consumer_step i s = Some t"
  shows "shop_inv t"
proof -
  have i: "i < length (consumers s)" using assms(2) by (auto simp: consumer_step_def split: if_splits)
  have w: "i \<in> set (waiting_for s) \<Longrightarrow> consumers s ! i = KSleep"
    using assms(1) by (auto simp: shop_inv_def)
  note d = shop_inv_def consumer_step_def holds_mutex_def nth_list_update
  show ?thesis
  proof (cases "consumers s ! i")
    case KStart
    then show ?thesis using assms i w by (auto simp: d split: if_splits)
  next
    case KCheck
    then have t: "t = s\<lparr>consumers := (consumers s)[i := (if buffer s = [] then KJoin else KTake)]\<rparr>"
      and m: "mutex s = Some (Suc i)" and nw: "i \<notin> set (waiting_for s)"
      using assms i w by (auto simp: consumer_step_def shop_inv_def holds_mutex_def)
    have "holds_mutex (consumers t ! j) \<longleftrightarrow> mutex t = Some (Suc j)" if "j < length (consumers t)" for j
      using assms(1) that t m i by (cases "j = i") (simp_all add: shop_inv_def holds_mutex_def)
    moreover have "consumers t ! j = KTake \<longrightarrow> buffer t \<noteq> []" if "j < length (consumers t)" for j
      using assms(1) that t i by (cases "j = i") (simp_all add: shop_inv_def)
    moreover have "j < length (consumers t) \<and> consumers t ! j = KSleep" if "j \<in> set (waiting_for t)" for j
      using assms(1) that t nw by (cases "j = i") (simp_all add: shop_inv_def)
    moreover have "produced t = consumed t @ buffer t" "(producer t \<noteq> PStart) = (mutex t = Some 0)"
      "distinct (waiting_for t)"
      using assms(1) t by (simp_all add: shop_inv_def)
    ultimately show ?thesis unfolding shop_inv_def by blast
  next
    case KJoin
    then have t: "t = s\<lparr>waiting_for := waiting_for s @ [i], mutex := None, consumers := (consumers s)[i := KSleep]\<rparr>"
      and m: "mutex s = Some (Suc i)" and nw: "i \<notin> set (waiting_for s)"
      using assms i w by (auto simp: consumer_step_def shop_inv_def holds_mutex_def)
    have "\<not> holds_mutex (consumers t ! j)" if "j < length (consumers t)" for j
      using assms(1) that t m i by (cases "j = i") (simp_all add: shop_inv_def holds_mutex_def)
    moreover have "consumers t ! j = KTake \<longrightarrow> buffer t \<noteq> []" if "j < length (consumers t)" for j
      using assms(1) that t i by (cases "j = i") (simp_all add: shop_inv_def)
    moreover have "j < length (consumers t) \<and> consumers t ! j = KSleep" if "j \<in> set (waiting_for t)" for j
      using assms(1) that t nw i by (cases "j = i") (auto simp: shop_inv_def)
    moreover have "produced t = consumed t @ buffer t" "producer t = PStart" "mutex t = None" "distinct (waiting_for t)"
      using assms(1) t m nw by (simp_all add: shop_inv_def)
    ultimately show ?thesis unfolding shop_inv_def by auto
  next
    case KSleep
    then show ?thesis using assms i by (simp add: consumer_step_def)
  next
    case KWoken
    then show ?thesis using assms i w by (auto simp: d split: if_splits)
  next
    case KTake
    then obtain x xs where b: "buffer s = x # xs"
      and t: "t = s\<lparr>buffer := xs, consumed := consumed s @ [x], consumers := (consumers s)[i := KUnlock]\<rparr>"
      and m: "mutex s = Some (Suc i)" and nw: "i \<notin> set (waiting_for s)"
      using assms i w by (auto simp: consumer_step_def shop_inv_def holds_mutex_def split: list.splits)
    have "holds_mutex (consumers t ! j) \<longleftrightarrow> mutex t = Some (Suc j)" if "j < length (consumers t)" for j
      using assms(1) that t m i by (cases "j = i") (simp_all add: shop_inv_def holds_mutex_def)
    moreover have "consumers t ! j \<noteq> KTake" if j: "j < length (consumers t)" for j
    proof (cases "j = i")
      case False
      have "\<not> holds_mutex (consumers s ! j)" using assms(1) j t m False by (simp add: shop_inv_def)
      then show ?thesis using False t j by (auto simp: holds_mutex_def)
    qed (use t i in simp)
    moreover have "j < length (consumers t) \<and> consumers t ! j = KSleep" if "j \<in> set (waiting_for t)" for j
      using assms(1) that t nw by (cases "j = i") (simp_all add: shop_inv_def)
    moreover have "produced t = consumed t @ buffer t" "(producer t \<noteq> PStart) = (mutex t = Some 0)"
      "distinct (waiting_for t)"
      using assms(1) t b by (simp_all add: shop_inv_def)
    ultimately show ?thesis unfolding shop_inv_def by blast
  next
    case KUnlock
    then have t: "t = s\<lparr>mutex := None, consumers := (consumers s)[i := KStart]\<rparr>"
      and m: "mutex s = Some (Suc i)" and nw: "i \<notin> set (waiting_for s)"
      using assms i w by (auto simp: consumer_step_def shop_inv_def holds_mutex_def)
    have "\<not> holds_mutex (consumers t ! j)" if "j < length (consumers t)" for j
      using assms(1) that t m i by (cases "j = i") (simp_all add: shop_inv_def holds_mutex_def)
    moreover have "consumers t ! j = KTake \<longrightarrow> buffer t \<noteq> []" if "j < length (consumers t)" for j
      using assms(1) that t i by (cases "j = i") (simp_all add: shop_inv_def)
    moreover have "j < length (consumers t) \<and> consumers t ! j = KSleep" if "j \<in> set (waiting_for t)" for j
      using assms(1) that t nw by (cases "j = i") (simp_all add: shop_inv_def)
    moreover have "produced t = consumed t @ buffer t" "producer t = PStart" "mutex t = None" "distinct (waiting_for t)"
      using assms(1) t m by (simp_all add: shop_inv_def)
    ultimately show ?thesis unfolding shop_inv_def by auto
  qed
qed

lemma shop_inv_step: "shop_inv s \<Longrightarrow> shop_step l s = Some t \<Longrightarrow> shop_inv t"
  by (auto simp: shop_step_def intro: shop_inv_producer shop_inv_consumer split: shop_label.splits)

definition lost_wakeup_run :: "kitchen_label list" where
  "lost_wakeup_run =
     concat (map (\<lambda>i. replicate 4 (Eater i)) [0, 1, 2, 3]) @ [Eater 4, Eater 4, Eater 4, Cook, Cook, Eater 4]
     @ concat (map (\<lambda>i. replicate 3 (Eater i)) [0, 1, 2, 3])"

section \<open>Properties\<close>

text \<open>
  Nothing produced is lost, duplicated or reordered: at every moment the consumers have taken, in
  order, what the producer has made, except what is still in the buffer; and a consumer that is about
  to take finds the buffer not empty.
\<close>

lemma shop_fifo:
  assumes "run_machine shop_step ls (shop_start n) = Some s"
  shows "produced s = consumed s @ buffer s \<and>
         (\<forall>i < length (consumers s). consumers s ! i = KTake \<longrightarrow> buffer s \<noteq> [])"
proof -
  have "shop_inv s"
    by (rule run_machine_invariant [OF assms, of shop_inv]) (auto intro: shop_inv_start shop_inv_step)
  then show ?thesis by (simp add: shop_inv_def)
qed

theorem shop_fifo_witness:
  "\<exists>s. run_machine shop_step [Consumer 1, Consumer 1, Consumer 1, Producer, Producer, Producer, Producer,
      Consumer 1, Consumer 1, Consumer 1] (shop_start 2) = Some s \<and> consumed s = [1] \<and> produced s = consumed s @ buffer s"
proof -
  obtain s where s: "run_machine shop_step [Consumer 1, Consumer 1, Consumer 1, Producer, Producer, Producer, Producer,
      Consumer 1, Consumer 1, Consumer 1] (shop_start 2) = Some s" "consumed s = [1]"
    by (simp add: shop_step_def shop_start_def consumer_step_def producer_step_def numeral_eq_Suc)
  with shop_fifo [OF s(1)] show ?thesis by blast
qed

text \<open>
  The cook's broadcast can be lost. The cook sets the condition and broadcasts without holding the
  lock, so it may do both between a waiter's test of the condition and its joining the list: with
  the five waiters of \<open>main\<close>, a run ends with the condition true, the last waiter asleep for ever, and
  the cook and every other goroutine blocked or done.
\<close>

lemma cook_broadcast_lost:
  "\<exists>s. run_machine kitchen_step lost_wakeup_run (kitchen_start 5) = Some s \<and> condition s \<and> stuck_kitchen s"
proof -
  have "(case run_machine kitchen_step lost_wakeup_run (kitchen_start 5) of
      None \<Rightarrow> False | Some s \<Rightarrow> condition s \<and> stuck_kitchen s)"
    by code_simp
  then show ?thesis by (auto split: option.splits)
qed

text \<open>
  One \<open>Signal\<close> for three waiters leaves two asleep: when all three wait before the notifier comes,
  one proceeds, and the machine stops with the resource set and two waiters asleep for ever.
\<close>

lemma signal_wakes_one:
  "\<exists>ls s. run_machine signal_step ls signal_start = Some s \<and> shared_resource s \<and>
     waiters s = [WDone, WSleep, WSleep] \<and> (\<forall>l. signal_step l s = None)"
proof -
  define ls where "ls = concat (map (\<lambda>i. replicate 3 (Waiter i)) [0, 1, 2]) @ replicate 3 Notifier @ replicate 3 (Waiter 0)"
  have "\<exists>s. run_machine signal_step ls signal_start = Some s \<and> shared_resource s \<and>
      waiters s = [WDone, WSleep, WSleep] \<and> signaller s = NDone"
    by (simp add: ls_def signal_step_def signal_start_def waiter_step_def notifier_step_def set_waiter_def
        numeral_eq_Suc)
  then obtain s where s: "run_machine signal_step ls signal_start = Some s" "shared_resource s"
      "waiters s = [WDone, WSleep, WSleep]" "signaller s = NDone" by blast
  have "signal_step l s = None" for l
  proof (cases l)
    case (Waiter i)
    then show ?thesis using s by (auto simp: signal_step_def waiter_step_def nth_Cons split: nat.splits)
  next
    case Notifier
    then show ?thesis using s by (simp add: signal_step_def notifier_step_def)
  qed
  with s show ?thesis by blast
qed

text \<open>The two goroutines of \<open>dead-lock\<close> block each other after one step each.\<close>

lemma dead_lock_reached:
  "\<exists>s. run_machine dead_step [True, False] dead_start = Some s \<and> dead_step True s = None \<and>
       dead_step False s = None \<and> a_left s \<noteq> [] \<and> b_left s \<noteq> []"
  by (simp add: dead_start_def a_sum_def b_sum_def lock_op_step_def)

end
