(* ===== verification/Pipelines.thy ===== *)
theory Pipelines
  imports GoText "HOL-Library.Word"
begin

text \<open>
  Goroutines connected by unbuffered channels: the pipeline of \<open>concurrency/pipeline/main.go\<close>, the
  fan-out and fan-in of \<open>concurrency/fan/main.go\<close> and the two handlers of \<open>concurrency/tee/main.go\<close>. A
  stage is what it holds between a receive and the next send; a send on an unbuffered channel and the
  receive are one step. The interleaving is arbitrary, sleeps are left out.
\<close>

section \<open>The pipeline\<close>

text \<open>The \<open>int\<close>s are words. A stage has returned when its output channel is closed.\<close>

record pipe =
  todo :: "64 word list"              \<comment> \<open>what the generator has not sent\<close>
  gen_closed :: bool
  held1 :: "64 word option"           \<comment> \<open>received by the first \<open>multiply\<close>\<close>
  closed1 :: bool
  held2 :: "64 word option"           \<comment> \<open>received by \<open>add\<close>\<close>
  closed2 :: bool
  held3 :: "64 word option"           \<comment> \<open>received by the second \<open>multiply\<close>\<close>
  closed3 :: bool
  lines :: "64 word list"
  main_done :: bool

definition pipe_start :: "64 word list \<Rightarrow> pipe" where
  "pipe_start xs =
     \<lparr>todo = xs, gen_closed = False, held1 = None, closed1 = False, held2 = None, closed2 = False,
      held3 = None, closed3 = False, lines = [], main_done = False\<rparr>"

text \<open>The closing of the generator's channel is commented out in the code: \<open>closes\<close> is False there. The
channel \<open>done\<close> is closed by \<open>main\<close> only on its return, so its cases are never taken before.\<close>

inductive pipe_step :: "bool \<Rightarrow> pipe \<Rightarrow> pipe \<Rightarrow> bool" for closes where
  gen_send: "todo s = x # xs \<Longrightarrow> held1 s = None \<Longrightarrow> pipe_step closes s (s\<lparr>todo := xs, held1 := Some x\<rparr>)"
| gen_end: "closes \<Longrightarrow> todo s = [] \<Longrightarrow> \<not> gen_closed s \<Longrightarrow> pipe_step closes s (s\<lparr>gen_closed := True\<rparr>)"
| mul_send: "held1 s = Some i \<Longrightarrow> held2 s = None \<Longrightarrow> pipe_step closes s (s\<lparr>held1 := None, held2 := Some (i * 2)\<rparr>)"
| mul_end: "held1 s = None \<Longrightarrow> gen_closed s \<Longrightarrow> \<not> closed1 s \<Longrightarrow> pipe_step closes s (s\<lparr>closed1 := True\<rparr>)"
| add_send: "held2 s = Some i \<Longrightarrow> held3 s = None \<Longrightarrow> pipe_step closes s (s\<lparr>held2 := None, held3 := Some (i + 1)\<rparr>)"
| add_end: "held2 s = None \<Longrightarrow> closed1 s \<Longrightarrow> \<not> closed2 s \<Longrightarrow> pipe_step closes s (s\<lparr>closed2 := True\<rparr>)"
| mul2_send: "held3 s = Some i \<Longrightarrow> \<not> main_done s \<Longrightarrow>
    pipe_step closes s (s\<lparr>held3 := None, lines := lines s @ [i * 2]\<rparr>)"
| mul2_end: "held3 s = None \<Longrightarrow> closed2 s \<Longrightarrow> \<not> closed3 s \<Longrightarrow> pipe_step closes s (s\<lparr>closed3 := True\<rparr>)"
| main_end: "closed3 s \<Longrightarrow> \<not> main_done s \<Longrightarrow> pipe_step closes s (s\<lparr>main_done := True\<rparr>)"

inductive_cases pipe_stepE: "pipe_step closes s t"

definition opt_list :: "'a option \<Rightarrow> 'a list" where
  "opt_list x = (case x of None \<Rightarrow> [] | Some a \<Rightarrow> [a])"

lemma opt_list_simps [simp]: "opt_list None = []" "opt_list (Some a) = [a]"
  by (simp_all add: opt_list_def)

text \<open>What a value becomes on its way.\<close>

definition through :: "64 word \<Rightarrow> 64 word" where
  "through x = (x * 2 + 1) * 2"

definition pipe_inv :: "bool \<Rightarrow> 64 word list \<Rightarrow> pipe \<Rightarrow> bool" where
  "pipe_inv closes xs s =
     (lines s @ map (\<lambda>i. i * 2) (opt_list (held3 s)) @ map (\<lambda>i. (i + 1) * 2) (opt_list (held2 s)) @
        map through (opt_list (held1 s)) @ map through (todo s) = map through xs \<and>
      (gen_closed s \<longrightarrow> closes \<and> todo s = []) \<and> (closed1 s \<longrightarrow> gen_closed s \<and> held1 s = None) \<and>
      (closed2 s \<longrightarrow> closed1 s \<and> held2 s = None) \<and> (closed3 s \<longrightarrow> closed2 s \<and> held3 s = None) \<and>
      (main_done s \<longrightarrow> closed3 s))"

lemma pipe_inv_step: "pipe_inv closes xs s \<Longrightarrow> pipe_step closes s t \<Longrightarrow> pipe_inv closes xs t"
  by (erule pipe_stepE) (auto simp: pipe_inv_def through_def)

interpretation pipe: step_invariant "\<lambda>s. s = pipe_start xs" "pipe_step closes" "pipe_inv closes xs" for closes xs
proof
  show "\<And>s. s = pipe_start xs \<Longrightarrow> pipe_inv closes xs s" by (simp add: pipe_inv_def pipe_start_def)
qed (rule pipe_inv_step)

text \<open>Every run ends: each step brings a value or a close nearer to \<open>main\<close>.\<close>

definition pipe_left :: "pipe \<Rightarrow> nat" where
  "pipe_left s =
     4 * length (todo s) + 3 * length (opt_list (held1 s)) + 2 * length (opt_list (held2 s)) + length (opt_list (held3 s)) +
     length (filter Not [gen_closed s, closed1 s, closed2 s, closed3 s, main_done s])"

lemma pipe_left_less: "pipe_step closes s t \<Longrightarrow> pipe_left t < pipe_left s"
  by (erule pipe_stepE) (auto simp: pipe_left_def)

interpretation pipe_run: ending_run "\<lambda>_. True" "pipe_step closes" "\<lambda>_. True" pipe_left "\<lambda>s. \<forall>u. \<not> pipe_step closes s u" for closes
  by unfold_locales (use pipe_left_less in blast)+

lemma pipe_ends: "\<exists>t. (pipe_step closes)\<^sup>*\<^sup>* s t \<and> (\<forall>u. \<not> pipe_step closes t u)"
  by (rule pipe_run.ends) simp

lemma pipe_stuck:
  assumes inv: "pipe_inv closes xs s" and stuck: "\<And>u. \<not> pipe_step closes s u"
  shows "lines s = map through xs \<and> main_done s = closes"
proof -
  have n: "\<not> main_done s \<or> held3 s = None" using inv by (auto simp: pipe_inv_def)
  have h3: "held3 s = None"
  proof (rule ccontr)
    assume "held3 s \<noteq> None"
    then obtain i where "held3 s = Some i" by blast
    with n stuck mul2_send [of s i closes] show False by simp
  qed
  have h2: "held2 s = None" by (rule ccontr) (use stuck add_send [OF _ h3] in blast)
  have h1: "held1 s = None" by (rule ccontr) (use stuck mul_send [OF _ h2] in blast)
  have t: "todo s = []" by (metis gen_send h1 neq_Nil_conv stuck)
  have "lines s = map through xs" using inv h1 h2 h3 t by (simp add: pipe_inv_def)
  moreover have "main_done s" if c: closes
  proof -
    have "gen_closed s" using stuck gen_end [OF c t] by blast
    then have "closed1 s" using stuck mul_end [OF h1] by blast
    then have "closed2 s" using stuck add_end [OF h2] by blast
    then have "closed3 s" using stuck mul2_end [OF h3] by blast
    then show ?thesis using stuck main_end by blast
  qed
  moreover have "closes" if "main_done s" using that inv by (simp add: pipe_inv_def)
  ultimately show ?thesis by blast
qed

section \<open>Primes\<close>

text \<open>The loop that is not commented out: there is no test for numbers below 2.\<close>

function no_divisor_from :: "int \<Rightarrow> int \<Rightarrow> bool" where
  "no_divisor_from i n = (if i < n then if n mod i = 0 then False else no_divisor_from (i + 1) n else True)"
  by pat_completeness auto
termination
  by (relation "measure (\<lambda>(i, n). nat (n - i))") auto

declare no_divisor_from.simps [simp del]

definition is_prime :: "int \<Rightarrow> bool" where
  "is_prime n = no_divisor_from 2 n"

lemma no_divisor_from_iff: "no_divisor_from i n \<longleftrightarrow> (\<forall>d \<in> {i..<n}. n mod d \<noteq> 0)"
proof (induction i n rule: no_divisor_from.induct)
  case (1 i n)
  have "i < n \<Longrightarrow> {i..<n} = insert i {i + 1..<n}" by auto
  with 1 show ?case by (subst no_divisor_from.simps) auto
qed

text \<open>\<open>isPrime\<close> is right from 2 on and accepts every smaller number.\<close>

lemma is_prime_iff: "is_prime n \<longleftrightarrow> n < 2 \<or> (\<forall>d. d dvd n \<and> 0 < d \<longrightarrow> d = 1 \<or> d = n)"
proof (cases "n < 2")
  case True
  then show ?thesis by (simp add: is_prime_def no_divisor_from_iff)
next
  case False
  have "(\<forall>d \<in> {2..<n}. n mod d \<noteq> 0) \<longleftrightarrow> (\<forall>d. d dvd n \<and> 0 < d \<longrightarrow> d = 1 \<or> d = n)" (is "?l \<longleftrightarrow> ?r")
  proof
    assume l: ?l
    show ?r
    proof (intro allI impI)
      fix d assume d: "d dvd n \<and> 0 < d"
      then have "d \<le> n" using False by (simp add: zdvd_imp_le)
      moreover have "n mod d = 0" using d by presburger
      ultimately have "\<not> (2 \<le> d \<and> d < n)" using l by (metis atLeastLessThan_iff)
      then show "d = 1 \<or> d = n" using d \<open>d \<le> n\<close> by linarith
    qed
  next
    assume r: ?r
    show ?l
    proof
      fix d assume d: "d \<in> {2..<n}"
      then have "\<not> d dvd n" using r by fastforce
      then show "n mod d \<noteq> 0" by (simp add: dvd_eq_mod_eq_0)
    qed
  qed
  with False show ?thesis by (simp add: is_prime_def no_divisor_from_iff)
qed

section \<open>Fan-out and fan-in\<close>

text \<open>
  \<open>main\<close> of the fan: one goroutine repeats the random source, one converts, \<open>n\<close> finders share its
  channel and keep the primes, \<open>n\<close> multiplexers share one channel, and \<open>take\<close> passes ten values to
  \<open>main\<close>. \<open>done\<close> is closed by \<open>main\<close> on its return only, so no stage returns before.
\<close>

record fan =
  source :: "int option"             \<comment> \<open>the value of \<open>fn()\<close> waiting to be sent\<close>
  converted :: "int option"
  finders :: "nat \<Rightarrow> int option"
  muxes :: "nat \<Rightarrow> int option"
  take_held :: "int option"
  taken :: nat                       \<comment> \<open>the counter of \<open>take\<close>\<close>
  primes :: "int list"               \<comment> \<open>what \<open>main\<close> has printed\<close>
  fan_done :: bool
  produced :: "int list"             \<comment> \<open>the values of \<open>rand.Intn\<close> so far\<close>

definition fan_start :: fan where
  "fan_start =
     \<lparr>source = None, converted = None, finders = (\<lambda>_. None), muxes = (\<lambda>_. None), take_held = None, taken = 0,
      primes = [], fan_done = False, produced = []\<rparr>"

text \<open>A finder tests what it receives and goes on to the next value if it is no prime.\<close>

definition find_prime :: "nat \<Rightarrow> int \<Rightarrow> fan \<Rightarrow> fan" where
  "find_prime k v s = (if is_prime v then s\<lparr>finders := (finders s)(k := Some v)\<rparr> else s)"

inductive fan_step :: "nat \<Rightarrow> fan \<Rightarrow> fan \<Rightarrow> bool" for n where
  produce: "\<not> fan_done s \<Longrightarrow> source s = None \<Longrightarrow> 0 \<le> v \<Longrightarrow> v < 50000000 \<Longrightarrow>
    fan_step n s (s\<lparr>source := Some v, produced := produced s @ [v]\<rparr>)"
| convert: "\<not> fan_done s \<Longrightarrow> source s = Some v \<Longrightarrow> converted s = None \<Longrightarrow>
    fan_step n s (s\<lparr>source := None, converted := Some v\<rparr>)"
| fan_out: "\<not> fan_done s \<Longrightarrow> converted s = Some v \<Longrightarrow> k < n \<Longrightarrow> finders s k = None \<Longrightarrow>
    fan_step n s (find_prime k v (s\<lparr>converted := None\<rparr>))"
| multiplex: "\<not> fan_done s \<Longrightarrow> k < n \<Longrightarrow> finders s k = Some v \<Longrightarrow> muxes s k = None \<Longrightarrow>
    fan_step n s (s\<lparr>finders := (finders s)(k := None), muxes := (muxes s)(k := Some v)\<rparr>)"
| fan_in: "\<not> fan_done s \<Longrightarrow> k < n \<Longrightarrow> muxes s k = Some v \<Longrightarrow> take_held s = None \<Longrightarrow> taken s < 10 \<Longrightarrow>
    fan_step n s (s\<lparr>muxes := (muxes s)(k := None), take_held := Some v\<rparr>)"
| pass_on: "\<not> fan_done s \<Longrightarrow> take_held s = Some v \<Longrightarrow>
    fan_step n s (s\<lparr>take_held := None, taken := taken s + 1, primes := primes s @ [v]\<rparr>)"
| finish: "\<not> fan_done s \<Longrightarrow> taken s = 10 \<Longrightarrow> fan_step n s (s\<lparr>fan_done := True\<rparr>)"

inductive_cases fan_stepE: "fan_step n s t"

definition opt_mset :: "'a option \<Rightarrow> 'a multiset" where
  "opt_mset x = (case x of None \<Rightarrow> {#} | Some a \<Rightarrow> {#a#})"

lemma opt_mset_simps [simp]: "opt_mset None = {#}" "opt_mset (Some a) = {#a#}"
  by (simp_all add: opt_mset_def)

definition all_held :: "nat \<Rightarrow> (nat \<Rightarrow> 'a option) \<Rightarrow> 'a multiset" where
  "all_held n f = (\<Sum>k<n. opt_mset (f k))"

lemma all_held_put: "k < n \<Longrightarrow> f k = None \<Longrightarrow> all_held n (f(k := Some v)) = add_mset v (all_held n f)"
proof -
  assume k: "k < n" "f k = None"
  then have "{..<n} = insert k ({..<n} - {k})" by auto
  then have split: "all_held n g = opt_mset (g k) + (\<Sum>j\<in>{..<n} - {k}. opt_mset (g j))" for g
    unfolding all_held_def using k(1) by (simp add: sum.remove)
  have "(\<Sum>j\<in>{..<n} - {k}. opt_mset ((f(k := Some v)) j)) = (\<Sum>j\<in>{..<n} - {k}. opt_mset (f j))"
    by (rule sum.cong) auto
  then show ?thesis using k(2) split [of f] split [of "f(k := Some v)"] by simp
qed

lemma all_held_take: "k < n \<Longrightarrow> f k = Some v \<Longrightarrow> all_held n f = add_mset v (all_held n (f(k := None)))"
  using all_held_put [of k n "f(k := None)" v] by (simp add: fun_upd_idem)

text \<open>Everything produced is printed, on its way, or was no prime.\<close>

definition fan_inv :: "nat \<Rightarrow> fan \<Rightarrow> bool" where
  "fan_inv n s =
     (\<exists>dropped. mset (produced s) = mset (primes s) + opt_mset (take_held s) + all_held n (muxes s) +
          all_held n (finders s) + opt_mset (converted s) + opt_mset (source s) + dropped \<and>
        (\<forall>v \<in># mset (primes s) + opt_mset (take_held s) + all_held n (muxes s) + all_held n (finders s). is_prime v) \<and>
        (\<forall>v \<in># dropped. \<not> is_prime v) \<and>
        length (primes s) = taken s \<and> taken s \<le> 10 \<and> (taken s = 10 \<longrightarrow> take_held s = None) \<and>
        (fan_done s \<longrightarrow> taken s = 10))"

lemma fan_invI:
  assumes "mset (produced s) = mset (primes s) + opt_mset (take_held s) + all_held n (muxes s) +
          all_held n (finders s) + opt_mset (converted s) + opt_mset (source s) + dropped"
    and "\<forall>v \<in># mset (primes s) + opt_mset (take_held s) + all_held n (muxes s) + all_held n (finders s). is_prime v"
    and "\<forall>v \<in># dropped. \<not> is_prime v" "length (primes s) = taken s" "taken s \<le> 10"
    and "taken s = 10 \<longrightarrow> take_held s = None" "fan_done s \<longrightarrow> taken s = 10"
  shows "fan_inv n s"
  unfolding fan_inv_def using assms by blast

lemma fan_inv_step:
  assumes "fan_inv n s" "fan_step n s t"
  shows "fan_inv n t"
proof -
  from assms(1) obtain d where d: "mset (produced s) = mset (primes s) + opt_mset (take_held s) + all_held n (muxes s) +
          all_held n (finders s) + opt_mset (converted s) + opt_mset (source s) + d"
      "\<forall>v \<in># mset (primes s) + opt_mset (take_held s) + all_held n (muxes s) + all_held n (finders s). is_prime v"
      "\<forall>v \<in># d. \<not> is_prime v" "length (primes s) = taken s" "taken s \<le> 10"
      "taken s = 10 \<longrightarrow> take_held s = None" "fan_done s \<longrightarrow> taken s = 10"
    by (auto simp: fan_inv_def)
  from assms(2) show ?thesis
  proof cases
    case (produce v)
    then show ?thesis using d by (intro fan_invI [of _ _ d]) simp_all
  next
    case (convert v)
    then show ?thesis using d by (intro fan_invI [of _ _ d]) simp_all
  next
    case (fan_out v k)
    then show ?thesis
      using d by (intro fan_invI [of _ _ "if is_prime v then d else add_mset v d"]) (simp_all add: find_prime_def all_held_put)
  next
    case (multiplex k v)
    then show ?thesis
      using d all_held_take [of k n "finders s" v] by (intro fan_invI [of _ _ d]) (simp_all add: all_held_put)
  next
    case (fan_in k v)
    then show ?thesis
      using d all_held_take [of k n "muxes s" v] by (intro fan_invI [of _ _ d]) simp_all
  next
    case (pass_on v)
    then show ?thesis using d by (intro fan_invI [of _ _ d]) (auto simp: le_less)
  next
    case finish
    then show ?thesis using d by (intro fan_invI [of _ _ d]) simp_all
  qed
qed

interpretation fan: step_invariant "\<lambda>s. s = fan_start" "fan_step n" "fan_inv n" for n
proof
  show "\<And>s. s = fan_start \<Longrightarrow> fan_inv n s"
    by (intro fan_invI [of _ _ "{#}"]) (simp_all add: fan_start_def all_held_def)
qed (rule fan_inv_step)

section \<open>Two handlers\<close>

text \<open>The producer sends to the file stream and to the console stream in turn, \<open>sent\<close> counts its sends;
a handler holds a value between its receive and its line. \<open>main\<close> closes \<open>done\<close> after the producer.\<close>

record tee =
  sent :: nat
  file_held :: "string option"
  console_held :: "string option"
  file_lines :: "string list"
  console_lines :: "string list"
  done_closed :: bool
  file_gone :: bool
  console_gone :: bool

definition tee_start :: tee where
  "tee_start =
     \<lparr>sent = 0, file_held = None, console_held = None, file_lines = [], console_lines = [], done_closed = False,
      file_gone = False, console_gone = False\<rparr>"

definition file_text :: "nat \<Rightarrow> string" where "file_text i = ''file '' @ nat_digits i"
definition console_text :: "nat \<Rightarrow> string" where "console_text i = ''console '' @ nat_digits i"

inductive tee_step :: "tee \<Rightarrow> tee \<Rightarrow> bool" where
  send_file: "sent s < 20 \<Longrightarrow> even (sent s) \<Longrightarrow> file_held s = None \<Longrightarrow> \<not> file_gone s \<Longrightarrow>
    tee_step s (s\<lparr>sent := sent s + 1, file_held := Some (file_text (sent s div 2))\<rparr>)"
| send_console: "sent s < 20 \<Longrightarrow> odd (sent s) \<Longrightarrow> console_held s = None \<Longrightarrow> \<not> console_gone s \<Longrightarrow>
    tee_step s (s\<lparr>sent := sent s + 1, console_held := Some (console_text (sent s div 2))\<rparr>)"
| print_file: "file_held s = Some v \<Longrightarrow> tee_step s (s\<lparr>file_held := None, file_lines := file_lines s @ [v]\<rparr>)"
| print_console: "console_held s = Some v \<Longrightarrow>
    tee_step s (s\<lparr>console_held := None, console_lines := console_lines s @ [v]\<rparr>)"
| close_done: "sent s = 20 \<Longrightarrow> \<not> done_closed s \<Longrightarrow> tee_step s (s\<lparr>done_closed := True\<rparr>)"
| file_end: "done_closed s \<Longrightarrow> file_held s = None \<Longrightarrow> \<not> file_gone s \<Longrightarrow> tee_step s (s\<lparr>file_gone := True\<rparr>)"
| console_end: "done_closed s \<Longrightarrow> console_held s = None \<Longrightarrow> \<not> console_gone s \<Longrightarrow> tee_step s (s\<lparr>console_gone := True\<rparr>)"

inductive_cases tee_stepE: "tee_step s t"

definition tee_inv :: "tee \<Rightarrow> bool" where
  "tee_inv s =
     (file_lines s @ opt_list (file_held s) = map file_text [0..<(sent s + 1) div 2] \<and>
      console_lines s @ opt_list (console_held s) = map console_text [0..<sent s div 2] \<and> sent s \<le> 20 \<and>
      (done_closed s \<longrightarrow> sent s = 20) \<and> (file_gone s \<longrightarrow> done_closed s) \<and> (console_gone s \<longrightarrow> done_closed s))"

lemma tee_inv_step:
  assumes "tee_inv s" "tee_step s t"
  shows "tee_inv t"
  using assms(2)
proof cases
  case send_file
  then have "(sent s + 1 + 1) div 2 = Suc (sent s div 2)" "(sent s + 1) div 2 = sent s div 2" by presburger+
  then show ?thesis using send_file assms(1) by (auto simp: tee_inv_def)
next
  case send_console
  then have "(sent s + 1 + 1) div 2 = (sent s + 1) div 2" "(sent s + 1) div 2 = Suc (sent s div 2)" by presburger+
  then show ?thesis using send_console assms(1) by (auto simp: tee_inv_def)
qed (use assms(1) in \<open>auto simp: tee_inv_def\<close>)

interpretation tee: step_invariant "\<lambda>s. s = tee_start" tee_step tee_inv
proof
  show "\<And>s. s = tee_start \<Longrightarrow> tee_inv s" by (simp add: tee_inv_def tee_start_def)
qed (rule tee_inv_step)

text \<open>When nothing can move, both handlers have printed their ten lines in order and have returned.\<close>

lemma tee_complete:
  assumes "tee_step\<^sup>*\<^sup>* tee_start s" "\<And>t. \<not> tee_step s t"
  shows "file_lines s = map file_text [0..<10] \<and> console_lines s = map console_text [0..<10] \<and> file_gone s \<and> console_gone s"
proof -
  have inv: "tee_inv s" using tee.inv_reachable [OF refl assms(1)] .
  have f: "file_held s = None" by (rule ccontr) (use assms(2) print_file in blast)
  have c: "console_held s = None" by (rule ccontr) (use assms(2) print_console in blast)
  have "sent s = 20"
  proof (rule ccontr)
    assume "sent s \<noteq> 20"
    then have l: "sent s < 20" "\<not> file_gone s" "\<not> console_gone s" using inv by (auto simp: tee_inv_def)
    show False
      using assms(2) send_file [OF l(1) _ f l(2)] send_console [OF l(1) _ c l(3)] by (cases "even (sent s)") blast+
  qed
  moreover from this have "done_closed s" using assms(2) close_done by blast
  then have "file_gone s" "console_gone s" using assms(2) file_end [OF _ f] console_end [OF _ c] by blast+
  ultimately show ?thesis using inv f c by (simp add: tee_inv_def)
qed

section \<open>Properties\<close>

text \<open>
  Every run of the pipeline comes to a state where nothing can move, and in each such state \<open>main\<close> has
  printed every value once, in order, each multiplied, increased and multiplied again modulo
  \<open>2^64\<close>; but it has returned only if the generator closes its channel, which the code does not: as it is
  written the program ends in a deadlock after its last line.
\<close>

lemma pipeline_output:
  assumes "(pipe_step closes)\<^sup>*\<^sup>* (pipe_start xs) s"
  shows "\<exists>t. (pipe_step closes)\<^sup>*\<^sup>* s t \<and> (\<forall>u. \<not> pipe_step closes t u) \<and>
    lines t = map (\<lambda>x. (x * 2 + 1) * 2) xs \<and> main_done t = closes \<and> (\<exists>rest. lines t = lines s @ rest)"
proof -
  obtain t where t: "(pipe_step closes)\<^sup>*\<^sup>* s t" "\<forall>u. \<not> pipe_step closes t u" using pipe_ends by blast
  have "(pipe_step closes)\<^sup>*\<^sup>* (pipe_start xs) t" using assms t(1) by simp
  then have "pipe_inv closes xs t" using pipe.inv_reachable by blast
  then have l: "lines t = map through xs \<and> main_done t = closes" using pipe_stuck t(2) by blast
  have "pipe_inv closes xs s" using pipe.inv_reachable assms by blast
  then have "\<exists>rest. map through xs = lines s @ rest" by (metis pipe_inv_def)
  moreover have "map through xs = map (\<lambda>x. (x * 2 + 1) * 2) xs" by (rule list.map_cong0) (simp only: through_def)
  ultimately show ?thesis using t l by metis
qed

lemma pipeline_output_witness:
  "\<exists>t. (pipe_step False)\<^sup>*\<^sup>* (pipe_start [1, 2, 3, 4]) t \<and> lines t = [6, 10, 14, 18] \<and> main_done t = False"
  using pipeline_output [of False "[1, 2, 3, 4]" "pipe_start [1, 2, 3, 4]"] by auto

text \<open>
  In every interleaving of the fan \<open>main\<close> prints at most ten numbers, all among those the random source
  gave and none more often than given, each accepted by \<open>isPrime\<close>, which is to say below 2 or prime; when
  it has returned it has printed exactly ten.
\<close>

lemma fan_prints_primes:
  assumes "(fan_step n)\<^sup>*\<^sup>* fan_start s"
  shows "mset (primes s) \<subseteq># mset (produced s) \<and> length (primes s) \<le> 10 \<and>
    list_all (\<lambda>v. v < 2 \<or> (\<forall>d. d dvd v \<and> 0 < d \<longrightarrow> d = 1 \<or> d = v)) (primes s) \<and>
    (fan_done s \<longrightarrow> length (primes s) = 10)"
proof -
  have "fan_inv n s" using fan.inv_reachable [OF refl assms] .
  then obtain d where d: "mset (produced s) = mset (primes s) + opt_mset (take_held s) + all_held n (muxes s) +
          all_held n (finders s) + opt_mset (converted s) + opt_mset (source s) + d"
      "\<forall>v \<in># mset (primes s) + opt_mset (take_held s) + all_held n (muxes s) + all_held n (finders s). is_prime v"
      "length (primes s) = taken s" "taken s \<le> 10" "fan_done s \<longrightarrow> taken s = 10"
    unfolding fan_inv_def by blast
  have "mset (primes s) \<subseteq># mset (produced s)" unfolding d(1) by (simp add: add.assoc)
  moreover have "list_all is_prime (primes s)" using d(2) by (simp add: list_all_iff)
  ultimately show ?thesis using d(3-5) by (simp add: is_prime_iff [abs_def])
qed

text \<open>One number through all the stages: 1, which is no prime.\<close>

lemma fan_one_passes:
  "(fan_step 2)\<^sup>*\<^sup>* fan_start (fan_start\<lparr>produced := [1], primes := [1], taken := 1\<rparr>)"
proof -
  note d = fan_start_def
  let ?s1 = "fan_start\<lparr>source := Some 1, produced := [1]\<rparr>"
  let ?s2 = "fan_start\<lparr>converted := Some 1, produced := [1]\<rparr>"
  let ?s3 = "fan_start\<lparr>finders := (\<lambda>_. None)(1 := Some 1), produced := [1]\<rparr>"
  let ?s4 = "fan_start\<lparr>muxes := (\<lambda>_. None)(1 := Some 1), produced := [1]\<rparr>"
  let ?s5 = "fan_start\<lparr>take_held := Some 1, produced := [1]\<rparr>"
  have "fan_step 2 fan_start ?s1" using produce [of fan_start 1 2] by (simp add: d)
  moreover have "fan_step 2 ?s1 ?s2" using convert [of ?s1 1 2] by (simp add: d)
  moreover have "is_prime 1" by (simp add: is_prime_iff)
  then have "fan_step 2 ?s2 ?s3" using fan_out [of ?s2 1 1 2] by (simp add: d find_prime_def)
  moreover have "fan_step 2 ?s3 ?s4" using multiplex [of ?s3 1 2 1] by (simp add: d fun_upd_idem)
  moreover have "fan_step 2 ?s4 ?s5" using fan_in [of ?s4 1 2 1] by (simp add: d fun_upd_idem)
  moreover have "fan_step 2 ?s5 (fan_start\<lparr>produced := [1], primes := [1], taken := 1\<rparr>)"
    using pass_on [of ?s5 1 2] by (simp add: d)
  ultimately show ?thesis by (meson converse_rtranclp_into_rtranclp rtranclp.rtrancl_refl)
qed

lemma fan_prints_primes_witness:
  "\<exists>s. (fan_step 2)\<^sup>*\<^sup>* fan_start s \<and> primes s = [1] \<and> mset (primes s) \<subseteq># mset (produced s)"
  using fan_prints_primes [OF fan_one_passes] fan_one_passes by (intro exI conjI) auto

end
