(* ===== verification/TxnRev.thy ===== *)
theory TxnRev
  imports Codec
begin

text \<open>
  The transaction demo \<open>etcd/txn-rev-main-sub/main.go\<close>, which reads the records of one revision from a
  snapshot of etcd's database, and the endpoint parsing of \<open>etcd/mvcc/main.go\<close>. The etcd client is a
  function from requests to answers, the database the list of pairs a cursor visits, and decoding a
  protobuf value a parameter.
\<close>

section \<open>Revision keys\<close>

definition rev_bytes_len :: nat where "rev_bytes_len = 17"
definition marked_rev_bytes_len :: nat where "marked_rev_bytes_len = 18"
definition underscore :: byte where "underscore = 0x5F"
definition mark_tombstone :: byte where "mark_tombstone = 0x74"

definition int64 :: "byte list \<Rightarrow> 64 word" where
  "int64 bs = of_nat (be_value bs)"

text \<open>The results \<open>main\<close>, \<open>sub\<close>, \<open>tombstone\<close>; \<open>None\<close> when \<open>ok\<close> is false.\<close>

definition decode_revision_key :: "byte list \<Rightarrow> (64 word \<times> 64 word \<times> bool) option" where
  "decode_revision_key raw =
     (if length raw \<noteq> rev_bytes_len \<and> length raw \<noteq> marked_rev_bytes_len then None
      else if raw ! 8 \<noteq> underscore then None
      else Some (int64 (take 8 raw), int64 (take 8 (drop 9 raw)),
                 length raw = marked_rev_bytes_len \<and> raw ! 17 = mark_tombstone))"

section \<open>Reading the records of a revision\<close>

record key_value =
  kv_key :: "byte list"
  kv_value :: "byte list"
  create_revision :: "64 word"
  mod_revision :: "64 word"
  version :: "64 word"

record rev_record =
  rmain :: "64 word"
  rsub :: "64 word"
  tombstone :: bool
  rkv :: key_value

datatype read_error = ErrOpenDb | ErrNoBucket | ErrUnmarshal "64 word" "64 word"

definition has_prefix :: "byte list \<Rightarrow> byte list \<Rightarrow> bool" where
  "has_prefix s p = (take (length p) s = p)"

text \<open>One turn of the cursor loop.\<close>

definition read_one :: "(byte list \<Rightarrow> key_value option) \<Rightarrow> byte list \<Rightarrow> 64 word \<Rightarrow> rev_record list \<Rightarrow>
    byte list \<times> byte list \<Rightarrow> rev_record list \<times> read_error option" where
  "read_one unm prefix target recs kv =
     (case decode_revision_key (fst kv) of
        None \<Rightarrow> (recs, None)
      | Some (m, s, t) \<Rightarrow>
          if m \<noteq> target then (recs, None)
          else (case unm (snd kv) of
                  None \<Rightarrow> (recs, Some (ErrUnmarshal m s))
                | Some v \<Rightarrow>
                    if \<not> has_prefix (kv_key v) (prefix @ [0x2F]) then (recs, None)
                    else (recs @ [\<lparr>rmain = m, rsub = s, tombstone = t, rkv = v\<rparr>], None)))"

text \<open>The database: \<open>None\<close> if it does not open, and in it the bucket \<open>key\<close>, if there is one.\<close>

definition read_records ::
    "(byte list \<Rightarrow> key_value option) \<Rightarrow> (byte list \<times> byte list) list option option \<Rightarrow> byte list \<Rightarrow> 64 word \<Rightarrow>
     (read_error, rev_record list) result" where
  "read_records unm db prefix target =
     (case db of
        None \<Rightarrow> Inl ErrOpenDb
      | Some None \<Rightarrow> Inl ErrNoBucket
      | Some (Some bucket) \<Rightarrow>
          (case for_range (read_one unm prefix target) [] bucket of
             (_, Some e) \<Rightarrow> Inl e
           | (recs, None) \<Rightarrow> Inr (sort_key (\<lambda>r. sint (rsub r)) recs)))"

section \<open>Configuration\<close>

definition comma :: char where "comma = CHR '',''"

definition trimmed_parts :: "string \<Rightarrow> string list" where
  "trimmed_parts raw = filter (\<lambda>p. p \<noteq> []) (map trim_space (split_on comma raw))"

definition parse_endpoints :: "string \<Rightarrow> string list" where
  "parse_endpoints raw = (let raw = trim_space raw in if raw = [] then [] else trimmed_parts raw)"

record config =
  endpoints :: "string list"
  snapshot_path :: string
  prefix :: string

definition load_config :: "(string \<Rightarrow> string) \<Rightarrow> config" where
  "load_config env =
     (let es = parse_endpoints (env ''ETCD_ENDPOINTS'');
          sp = trim_space (env ''ETCD_SNAPSHOT'');
          px = trim_space (env ''DEMO_PREFIX'')
      in \<lparr>endpoints = (if es = [] then [''127.0.0.1:2379''] else es),
          snapshot_path = (if sp = [] then ''.tmp/txn-rev-snapshot.db'' else sp),
          prefix = (if px = [] then ''demo/txn-rev'' else px)\<rparr>)"

definition default_endpoints :: "string list" where
  "default_endpoints = [''localhost:2379'', ''localhost:22379'', ''localhost:32379'']"

definition mvcc_endpoints :: "string \<Rightarrow> string list" where
  "mvcc_endpoints raw =
     (if trim_space raw = [] then default_endpoints
      else (let out = trimmed_parts raw in if out = [] then default_endpoints else out))"

section \<open>The run\<close>

datatype compare_op = VersionEq string nat | VersionGt string nat

datatype txn_op = OpPut string string | OpGet string | OpDelete string

datatype etcd_request =
  DeletePrefix string
| PutReq string string
| TxnReq "compare_op list" "txn_op list" "txn_op list"
| GetPrefix string
| SnapshotReq

datatype etcd_answer =
  Done
| TxnAnswer bool "64 word"
| Listing "64 word" "key_value list"
| SnapshotData "(byte list \<times> byte list) list option option"

definition txn_request :: "string \<Rightarrow> etcd_request" where
  "txn_request p =
     TxnReq [VersionEq (p @ ''/guard'') 0, VersionGt (p @ ''/to-delete'') 0]
            [OpPut (p @ ''/guard'') ''created-in-txn-v2'', OpPut (p @ ''/a'') ''A1'',
             OpPut (p @ ''/b'') ''B1'', OpDelete (p @ ''/to-delete'')]
            [OpGet (p @ ''/guard'')]"

datatype run_error =
  CleanupFailed | SeedFailed | TxnFailed | CompareFailed | ApiViewFailed | SnapshotFailed
| ReadFailed read_error | NoRecords

text \<open>
  A client answers a request in a state \<open>'w\<close>, with \<open>None\<close> for an error. \<open>printAPIView\<close> has the lines of the
  listing; a revision record has its own line in \<open>printRecords\<close>.
\<close>

type_synonym 'w client = "etcd_request \<Rightarrow> 'w \<Rightarrow> 'w \<times> etcd_answer option"

datatype rev_line =
  ConfigLines "string list" string string
| CommittedAt "64 word"
| ApiViewTitle | HeaderRevision "64 word" | ApiKey key_value | ApiNote
| BackendTitle | RecordLine rev_record
| DoneComparing

definition print_api_view :: "'w client \<Rightarrow> string \<Rightarrow> 'w \<Rightarrow> 'w \<times> rev_line list option" where
  "print_api_view cl p w =
     (case cl (GetPrefix (p @ ''/'')) w of
        (w, Some (Listing now kvs)) \<Rightarrow> (w, Some (HeaderRevision now # map ApiKey kvs @ [ApiNote]))
      | (w, _) \<Rightarrow> (w, None))"

definition print_records :: "rev_record list \<Rightarrow> rev_line list" where
  "print_records recs = map RecordLine recs"

text \<open>
  \<open>saveSnapshot\<close>: the directory, the request, the file, the copy and the sync, each of which may fail. \<open>disk\<close>
  says which of the steps on the disk do; the result is the database the saved file holds.
\<close>

record disk_steps =
  mkdir_ok :: bool
  create_ok :: bool
  copy_ok :: bool
  sync_ok :: bool

definition save_snapshot_file ::
    "'w client \<Rightarrow> disk_steps \<Rightarrow> 'w \<Rightarrow> 'w \<times> (byte list \<times> byte list) list option option option" where
  "save_snapshot_file cl disk w =
     (if \<not> mkdir_ok disk then (w, None)
      else (case cl SnapshotReq w of
              (w, Some (SnapshotData db)) \<Rightarrow>
                (w, if \<not> create_ok disk then None
                    else if \<not> copy_ok disk then None
                    else if \<not> sync_ok disk then None
                    else Some db)
            | (w, _) \<Rightarrow> (w, None)))"

text \<open>\<open>main\<close>, its lines and the reason it exits, if it does not reach its end.\<close>

definition txn_main ::
    "'w client \<Rightarrow> (byte list \<Rightarrow> key_value option) \<Rightarrow> disk_steps \<Rightarrow> config \<Rightarrow> 'w \<Rightarrow> 'w \<times> rev_line list \<times> run_error option" where
  "txn_main cl unm disk cfg w =
     (let p = prefix cfg; l0 = [ConfigLines (endpoints cfg) (snapshot_path cfg) p] in
      case cl (DeletePrefix (p @ ''/'')) w of (w, None) \<Rightarrow> (w, l0, Some CleanupFailed) | (w, Some _) \<Rightarrow>
      (case cl (PutReq (p @ ''/to-delete'') ''seed'') w of (w, None) \<Rightarrow> (w, l0, Some SeedFailed) | (w, Some _) \<Rightarrow>
      (case cl (txn_request p) w of
         (w, Some (TxnAnswer ok main_rev)) \<Rightarrow>
           if \<not> ok then (w, l0, Some CompareFailed)
           else
           (let l1 = l0 @ [CommittedAt main_rev, ApiViewTitle] in
            case print_api_view cl p w of (w, None) \<Rightarrow> (w, l1, Some ApiViewFailed) | (w, Some ls) \<Rightarrow>
            (let l2 = l1 @ ls @ [BackendTitle] in
             case save_snapshot_file cl disk w of (w, None) \<Rightarrow> (w, l2, Some SnapshotFailed) | (w, Some db) \<Rightarrow>
             (case read_records unm db (utf8 p) main_rev of
                Inl e \<Rightarrow> (w, l2, Some (ReadFailed e))
              | Inr recs \<Rightarrow>
                  (w, if recs = [] then (l2, Some NoRecords) else (l2 @ print_records recs @ [DoneComparing], None)))))
       | (w, _) \<Rightarrow> (w, l0, Some TxnFailed))))"

section \<open>Lemmas\<close>

text \<open>The keys etcd writes: main revision, separator, sub revision and, for a delete, a mark.\<close>

definition encode_revision_key :: "64 word \<Rightarrow> 64 word \<Rightarrow> bool \<Rightarrow> byte list" where
  "encode_revision_key m s t =
     be_bytes 8 (unat m) @ [underscore] @ be_bytes 8 (unat s) @ (if t then [mark_tombstone] else [])"

lemma int64_be: "int64 (be_bytes 8 (unat (w :: 64 word))) = w"
proof -
  have "unat w < 2 ^ 64" using unsigned_less [of w] by simp
  then have "be_value (be_bytes 8 (unat w)) = unat w" by (intro be_value_bytes) simp
  then show ?thesis by (simp add: int64_def)
qed

lemma decode_encode: "decode_revision_key (encode_revision_key m s t) = Some (m, s, t)"
  by (auto simp: decode_revision_key_def encode_revision_key_def rev_bytes_len_def marked_rev_bytes_len_def
      nth_append int64_be underscore_def)

definition wanted :: "(byte list \<Rightarrow> key_value option) \<Rightarrow> byte list \<Rightarrow> 64 word \<Rightarrow> byte list \<times> byte list \<Rightarrow> rev_record list" where
  "wanted unm px target kv =
     (case decode_revision_key (fst kv) of
        None \<Rightarrow> []
      | Some (m, s, t) \<Rightarrow>
          (case unm (snd kv) of
             None \<Rightarrow> []
           | Some v \<Rightarrow> if m = target \<and> has_prefix (kv_key v) (px @ [0x2F])
                      then [\<lparr>rmain = m, rsub = s, tombstone = t, rkv = v\<rparr>] else []))"

definition readable_row :: "(byte list \<Rightarrow> key_value option) \<Rightarrow> 64 word \<Rightarrow> byte list \<times> byte list \<Rightarrow> bool" where
  "readable_row unm target kv =
     (case decode_revision_key (fst kv) of None \<Rightarrow> True | Some (m, s, t) \<Rightarrow> m = target \<longrightarrow> unm (snd kv) \<noteq> None)"

lemma read_one_wanted:
  "readable_row unm target kv \<Longrightarrow> read_one unm px target recs kv = (recs @ wanted unm px target kv, None)"
  by (auto simp: readable_row_def read_one_def wanted_def split: option.splits prod.splits)

lemma read_all_wanted:
  "list_all (readable_row unm target) rows \<Longrightarrow>
     for_range (read_one unm px target) recs rows = (recs @ concat (map (wanted unm px target) rows), None)"
  by (induction rows arbitrary: recs) (auto simp: read_one_wanted)

lemma read_unreadable:
  "\<not> list_all (readable_row unm target) rows \<Longrightarrow>
     \<exists>recs' m s. for_range (read_one unm px target) recs rows = (recs', Some (ErrUnmarshal m s))"
proof (induction rows arbitrary: recs)
  case Nil
  then show ?case by simp
next
  case (Cons kv rows)
  show ?case
  proof (cases "readable_row unm target kv")
    case True
    then show ?thesis using Cons by (simp add: read_one_wanted)
  next
    case False
    then show ?thesis
      by (auto simp: readable_row_def read_one_def split: option.splits prod.splits if_splits)
  qed
qed

lemma trimmed_parts_clean:
  "p \<in> set (trimmed_parts raw) \<Longrightarrow> p \<noteq> [] \<and> comma \<notin> set p \<and> trim_space p = p"
  using split_on_no_sep set_trim_space by (fastforce simp: trimmed_parts_def)

section \<open>Properties\<close>

text \<open>
  The backend view shows exactly the revision asked for: when every row of that revision decodes,
  the records are those of the rows of that main revision under the prefix, each once, in the order
  of their sub revisions; if one does not decode, the result is that error.
\<close>

lemma read_records_exact:
  "(if list_all (readable_row unm target) rows
    then \<exists>recs. read_records unm (Some (Some rows)) px target = Inr recs \<and>
           mset recs = mset (concat (map (wanted unm px target) rows)) \<and>
           sorted (map (\<lambda>r. sint (rsub r)) recs)
    else \<exists>m s. read_records unm (Some (Some rows)) px target = Inl (ErrUnmarshal m s))"
proof (cases "list_all (readable_row unm target) rows")
  case True
  then show ?thesis by (simp add: read_records_def read_all_wanted)
next
  case False
  then obtain recs' m s where "for_range (read_one unm px target) [] rows = (recs', Some (ErrUnmarshal m s))"
    using read_unreadable by blast
  then show ?thesis using False by (simp add: read_records_def)
qed

text \<open>Revision keys round trip, and the endpoint lists hold clean entries only.\<close>

lemma revision_key_roundtrip: "decode_revision_key (encode_revision_key m s t) = Some (m, s, t)"
  by (rule decode_encode)

lemma parse_endpoints_clean:
  "p \<in> set (parse_endpoints raw) \<Longrightarrow> p \<noteq> [] \<and> comma \<notin> set p \<and> trim_space p = p"
  by (auto simp: parse_endpoints_def Let_def trimmed_parts_clean split: if_splits)

lemma endpoints_not_empty: "endpoints (load_config env) \<noteq> []" "mvcc_endpoints raw \<noteq> []"
  by (auto simp: load_config_def Let_def mvcc_endpoints_def default_endpoints_def)

text \<open>
  What the demo is for. etcd gives the changes of a transaction the sub revisions from zero on, in their
  order, and marks a deletion. If the snapshot holds the four changes so, among rows of other
  revisions, the records are printed in the order of the operations, the deletion with its mark, whatever the
  order of the rows.
\<close>

definition txn_rows :: "(key_value \<Rightarrow> byte list) \<Rightarrow> 64 word \<Rightarrow> key_value list \<Rightarrow> (byte list \<times> byte list) list" where
  "txn_rows enc m kvs = map (\<lambda>i. (encode_revision_key m (of_nat i) (i = 3), enc (kvs ! i))) [0..<length kvs]"

definition txn_records :: "64 word \<Rightarrow> key_value list \<Rightarrow> rev_record list" where
  "txn_records m kvs = map (\<lambda>i. \<lparr>rmain = m, rsub = of_nat i, tombstone = (i = 3), rkv = kvs ! i\<rparr>) [0..<length kvs]"

lemma mset_eq_short: "length xs \<le> 1 \<Longrightarrow> mset xs = mset ys \<Longrightarrow> xs = ys"
  by (cases xs) (auto dest: sym)

lemma four_records_in_order:
  assumes enc: "\<And>kv. unm (enc kv) = Some kv"
    and four: "length kvs = 4" "\<And>kv. kv \<in> set kvs \<Longrightarrow> has_prefix (kv_key kv) (px @ [0x2F])"
    and others: "\<And>row. row \<in> set others \<Longrightarrow> (case decode_revision_key (fst row) of None \<Rightarrow> True | Some (m', s, t) \<Rightarrow> m' \<noteq> m)"
    and rows: "mset rows = mset (others @ txn_rows enc m kvs)"
  shows "read_records unm (Some (Some rows)) px m = Inr (txn_records m kvs)"
proof -
  have mine: "wanted unm px m row = [] \<and> readable_row unm m row" if "row \<in> set others" for row
    using others [OF that] by (auto simp: wanted_def readable_row_def split: option.splits)
  obtain k0 k1 k2 k3 where k: "kvs = [k0, k1, k2, k3]" using four(1) by (auto simp: numeral_eq_Suc length_Suc_conv)
  have t: "concat (map (wanted unm px m) (txn_rows enc m kvs)) = txn_records m kvs"
    using four(2) by (simp add: k txn_rows_def txn_records_def wanted_def decode_encode enc upt_rec)
  have r: "list_all (readable_row unm m) rows"
  proof (unfold list_all_iff, rule ballI)
    fix row assume "row \<in> set rows"
    then have "row \<in> set others \<union> set (txn_rows enc m kvs)" using rows by (metis set_append set_mset_mset)
    then show "readable_row unm m row"
    proof (unfold Un_iff, elim disjE)
      assume "row \<in> set others"
      then show ?thesis using mine by blast
    next
      assume "row \<in> set (txn_rows enc m kvs)"
      then show ?thesis by (auto simp: txn_rows_def readable_row_def decode_encode enc)
    qed
  qed
  have c: "mset (concat (map f xs)) = sum_list (map (\<lambda>x. mset (f x)) xs)" for f :: "'x \<Rightarrow> 'y list" and xs
    by (induction xs) simp_all
  have cm: "mset (concat (map f xs)) = (\<Sum>x\<in>#mset xs. mset (f x))" for f :: "'x \<Rightarrow> 'y list" and xs
    by (simp add: c sum_mset_sum_list [symmetric])
  have "concat (map (wanted unm px m) others) = []" using mine by simp
  then have m: "mset (concat (map (wanted unm px m) rows)) = mset (txn_records m kvs)"
    unfolding cm [of _ rows] rows by (simp add: cm [symmetric] t)
  let ?k = "\<lambda>r. sint (rsub r)"
  have keys: "map ?k (txn_records m kvs) = [0, 1, 2, 3]" by (simp add: k txn_records_def upt_rec)
  have "sort_key ?k (concat (map (wanted unm px m) rows)) = txn_records m kvs"
  proof (rule properties_for_sort_key)
    show "mset (txn_records m kvs) = mset (concat (map (wanted unm px m) rows))" using m by simp
    show "sorted (map ?k (txn_records m kvs))" unfolding keys by simp
    fix x assume "x \<in> set (txn_records m kvs)"
    have one: "length (filter (\<lambda>y. ?k x = ?k y) (txn_records m kvs)) \<le> 1"
      by (auto simp: k txn_records_def upt_rec)
    have "mset (filter (\<lambda>y. ?k x = ?k y) (txn_records m kvs)) = mset (filter (\<lambda>y. ?k x = ?k y) (concat (map (wanted unm px m) rows)))"
      by (simp only: mset_filter m)
    then show "filter (\<lambda>y. ?k x = ?k y) (txn_records m kvs) = filter (\<lambda>y. ?k x = ?k y) (concat (map (wanted unm px m) rows))"
      using mset_eq_short [OF one] by simp
  qed
  then show ?thesis using r by (simp add: read_records_def read_all_wanted)
qed

text \<open>The whole demo then runs to its end, when the calls and the disk do not fail.\<close>

lemma demo_prints_sub_order:
  assumes "\<And>w. \<exists>w'. cl (DeletePrefix (prefix cfg @ ''/'')) w = (w', Some Done)"
    and "\<And>w. \<exists>w'. cl (PutReq (prefix cfg @ ''/to-delete'') ''seed'') w = (w', Some Done)"
    and "\<And>w. \<exists>w'. cl (txn_request (prefix cfg)) w = (w', Some (TxnAnswer True m))"
    and "\<And>w. \<exists>w'. cl (GetPrefix (prefix cfg @ ''/'')) w = (w', Some (Listing m listed))"
    and "\<And>w. \<exists>w'. cl SnapshotReq w = (w', Some (SnapshotData (Some (Some rows))))"
    and "mkdir_ok disk" "create_ok disk" "copy_ok disk" "sync_ok disk"
    and "read_records unm (Some (Some rows)) (utf8 (prefix cfg)) m = Inr (txn_records m kvs)" "kvs \<noteq> []"
  shows "snd (txn_main cl unm disk cfg w) =
    ([ConfigLines (endpoints cfg) (snapshot_path cfg) (prefix cfg), CommittedAt m, ApiViewTitle, HeaderRevision m] @
     map ApiKey listed @ [ApiNote, BackendTitle] @ map RecordLine (txn_records m kvs) @ [DoneComparing], None)"
proof -
  obtain w1 where 1: "cl (DeletePrefix (prefix cfg @ ''/'')) w = (w1, Some Done)" using assms(1) by blast
  obtain w2 where 2: "cl (PutReq (prefix cfg @ ''/to-delete'') ''seed'') w1 = (w2, Some Done)" using assms(2) by blast
  obtain w3 where 3: "cl (txn_request (prefix cfg)) w2 = (w3, Some (TxnAnswer True m))" using assms(3) by blast
  obtain w4 where 4: "cl (GetPrefix (prefix cfg @ ''/'')) w3 = (w4, Some (Listing m listed))" using assms(4) by blast
  obtain w5 where 5: "cl SnapshotReq w4 = (w5, Some (SnapshotData (Some (Some rows))))" using assms(5) by blast
  have "txn_records m kvs \<noteq> []" using \<open>kvs \<noteq> []\<close> by (simp add: txn_records_def)
  then show ?thesis
    using assms(6-10) by (simp add: txn_main_def Let_def 1 2 3 4 5 print_api_view_def save_snapshot_file_def print_records_def)
qed

end
