(* ===== verification/BPlusViz.thy ===== *)
theory BPlusViz
  imports Codec "HOL-Library.Product_Lexorder"
begin

text \<open>
  The visualiser \<open>etcd/b+ tree/etcd_bptree_viz.go\<close>: it dumps the rows of a snapshot as text lines, parses
  the lines back, cuts the sorted rows into leaves and prints a Graphviz graph. Protobuf decoding,
  UTF-8 validation, base64, \<open>strconv.Quote\<close> and the compiled regular expression are the fields of
  \<open>viz_lib\<close>.
\<close>

section \<open>Rows and library\<close>

record kv_row =
  row_rev :: int
  row_key :: string
  row_val :: string

record kv_item =
  item_key :: "byte list"
  item_value :: "byte list"
  item_mod :: int
  item_create :: int

record viz_lib =
  unmarshal_item :: "byte list \<Rightarrow> kv_item option"
  valid_text :: "byte list \<Rightarrow> string option"     \<comment> \<open>the text of valid UTF-8\<close>
  base64_text :: "byte list \<Rightarrow> string"
  go_quote :: "string \<Rightarrow> string"                \<comment> \<open>\<open>%q\<close>\<close>
  go_unquote :: "string \<Rightarrow> string option"
  dump_re :: "string \<Rightarrow> (string \<times> string \<times> string) option"   \<comment> \<open>the groups of \<open>dumpLineRE\<close>\<close>

definition default_page_size :: int where "default_page_size = 4"

definition dq :: char where "dq = CHR 0x22"
definition bs :: char where "bs = CHR 0x5C"

section \<open>Dumping\<close>

definition decode_main_revision :: "byte list \<Rightarrow> int" where
  "decode_main_revision raw =
     (if length raw < 8 then 0 else sint (of_nat (be_value (take 8 raw)) :: 64 word))"

definition render_raw_bytes :: "viz_lib \<Rightarrow> byte list \<Rightarrow> string" where
  "render_raw_bytes L raw =
     (if raw = [] then []
      else (case valid_text L raw of
              Some s \<Rightarrow> concat (map (\<lambda>c. if c = nl then [bs, CHR ''n''] else [c]) s)
            | None \<Rightarrow> ''base64:'' @ base64_text L raw))"

definition dump_line :: "viz_lib \<Rightarrow> kv_row \<Rightarrow> string" where
  "dump_line L r =
     ''rev='' @ itoa (row_rev r) @ '' key='' @ go_quote L (row_key r) @ '' value='' @ row_val r"

text \<open>The row of one pair of the cursor, or none for \<open>continue\<close>.\<close>

definition dump_row :: "viz_lib \<Rightarrow> byte list \<times> byte list \<Rightarrow> kv_row option" where
  "dump_row L kv =
     (case unmarshal_item L (snd kv) of
        None \<Rightarrow> None
      | Some it \<Rightarrow>
          (let r = item_mod it;
               r = (if r = 0 then item_create it else r);
               r = (if r = 0 then decode_main_revision (fst kv) else r)
           in if r = 0 then None
              else Some \<lparr>row_rev = r, row_key = render_raw_bytes L (item_key it),
                         row_val = render_raw_bytes L (item_value it)\<rparr>))"

datatype viz_error = ErrOpenSnapshot | ErrBucketMissing | ErrNoEntries | ErrScanner | ErrNoRows | ErrWriteFile

definition dump_text :: "viz_lib \<Rightarrow> kv_row list \<Rightarrow> string" where
  "dump_text L rows = concat (map (\<lambda>r. dump_line L r @ [nl]) rows)"

definition dump_snapshot ::
    "viz_lib \<Rightarrow> (byte list \<times> byte list) list option option \<Rightarrow> (viz_error, string) result" where
  "dump_snapshot L db =
     (case db of
        None \<Rightarrow> Inl ErrOpenSnapshot
      | Some None \<Rightarrow> Inl ErrBucketMissing
      | Some (Some pairs) \<Rightarrow>
          (let t = dump_text L (List.map_filter (dump_row L) pairs)
           in if t = [] then Inl ErrNoEntries else Inr t))"

section \<open>Parsing\<close>

definition trim_char :: "char \<Rightarrow> string \<Rightarrow> string" where
  "trim_char c s = rev (dropWhile (\<lambda>x. x = c) (rev (dropWhile (\<lambda>x. x = c) s)))"

definition parse_line :: "viz_lib \<Rightarrow> string \<Rightarrow> kv_row option" where
  "parse_line L line =
     (case dump_re L line of
        None \<Rightarrow> None
      | Some (r, k, v) \<Rightarrow>
          (case atoi r of
             None \<Rightarrow> None
           | Some n \<Rightarrow>
               Some \<lparr>row_rev = n,
                     row_key = (case go_unquote L k of Some u \<Rightarrow> u | None \<Rightarrow> trim_char dq k),
                     row_val = v\<rparr>))"

definition row_order :: "kv_row \<Rightarrow> int \<times> string" where
  "row_order r = (row_rev r, row_key r)"

definition token_limit :: nat where
  "token_limit = 64 * 1024"

definition parse_dump :: "viz_lib \<Rightarrow> string \<Rightarrow> (viz_error, kv_row list) result" where
  "parse_dump L output =
     (case scan_lines token_limit output of
        (ls, too_long) \<Rightarrow>
          (let rows = List.map_filter (parse_line L) ls
           in if too_long then Inl ErrScanner
              else if rows = [] then Inl ErrNoRows
              else Inr (sort_key row_order rows)))"

section \<open>Leaves and graph\<close>

definition build_leaves :: "kv_row list \<Rightarrow> int \<Rightarrow> kv_row list list" where
  "build_leaves rows page =
     batches_from (nat (if page \<le> 0 then default_page_size else page)) 0 rows"

text \<open>
  The replacer tries its pairs in order at each position: two backslashes become four, each of the
  special characters gets two backslashes in front.
\<close>

fun escape_record_field :: "string \<Rightarrow> string" where
  "escape_record_field [] = []"
| "escape_record_field (c # s) =
     (case s of
        d # s' \<Rightarrow> if c = bs \<and> d = bs then [bs, bs, bs, bs] @ escape_record_field s'
                  else (if c \<in> {CHR ''{'', CHR ''}'', CHR ''|'', CHR ''<'', CHR ''>'', CHR 0x22} then [bs, bs, c] else [c])
                       @ escape_record_field s
      | [] \<Rightarrow> (if c \<in> {CHR ''{'', CHR ''}'', CHR ''|'', CHR ''<'', CHR ''>'', CHR 0x22} then [bs, bs, c] else [c]))"

definition field_text :: "bool \<Rightarrow> kv_row \<Rightarrow> string" where
  "field_text show_value r =
     (let e = itoa (row_rev r) @ '':'' @ escape_record_field (row_key r)
      in if show_value then e @ ''='' @ escape_record_field (row_val r) else e)"

definition leaf_line :: "bool \<Rightarrow> nat \<Rightarrow> kv_row list \<Rightarrow> string" where
  "leaf_line show_value i leaf =
     ''leaf'' @ itoa (int i) @ '' [label='' @ [dq] @ join_with ''|'' (map (field_text show_value) leaf) @ [dq]
     @ '', fillcolor='' @ [dq] @ ''#f7fbff'' @ [dq] @ ''];'' @ [nl]"

definition next_line :: "nat \<Rightarrow> string" where
  "next_line i =
     ''leaf'' @ itoa (int i) @ '' -> leaf'' @ itoa (int (i + 1)) @ '' [label='' @ [dq] @ ''next'' @ [dq] @ ''];'' @ [nl]"

text \<open>\<open>leaf[0].Rev\<close> of an empty leaf panics.\<close>

fun root_fields :: "kv_row list list \<Rightarrow> string list option" where
  "root_fields [] = Some []"
| "root_fields (leaf # ls) =
     (case leaf of [] \<Rightarrow> None | r # _ \<Rightarrow> map_option (\<lambda>fs. itoa (row_rev r) # fs) (root_fields ls))"

definition dot_header :: string where
  "dot_header =
     ''digraph BPlusTree {'' @ [nl] @ ''rankdir=TB;'' @ [nl]
     @ ''node [shape=record, style=filled, fillcolor='' @ [dq] @ ''#e9f2ff'' @ [dq] @ '', color='' @ [dq] @ ''#4d79ff'' @ [dq] @ ''];'' @ [nl]
     @ ''edge [color='' @ [dq] @ ''#5c5c5c'' @ [dq] @ ''];'' @ [nl]"

definition generate_dot :: "kv_row list list \<Rightarrow> bool \<Rightarrow> string option" where
  "generate_dot leaves show_value =
     map_option (\<lambda>fs.
       dot_header
       @ concat (map (\<lambda>(i, leaf). leaf_line show_value i leaf) (enumerate 0 leaves))
       @ concat (map next_line [0..<length leaves - 1])
       @ (if fs = [] then []
          else ''root [label='' @ [dq] @ join_with ''|'' fs @ [dq] @ '', fillcolor='' @ [dq] @ ''#d7e6ff'' @ [dq] @ ''];'' @ [nl]
               @ concat (map (\<lambda>i. ''root -> leaf'' @ itoa (int i) @ '';'' @ [nl]) [0..<length leaves]))
       @ ''}'' @ [nl]) (root_fields leaves)"

text \<open>\<open>main\<close>: the error it exits with, or the text written; the outer option is a panic. \<open>writes\<close> says which files can be written.\<close>

definition viz_main ::
    "viz_lib \<Rightarrow> (byte list \<times> byte list) list option option \<Rightarrow> int \<Rightarrow> bool \<Rightarrow> bool \<Rightarrow> bool \<Rightarrow> (viz_error, string) result option" where
  "viz_main L db page show_value dump_ok dot_ok =
     (case dump_snapshot L db of
        Inl e \<Rightarrow> Some (Inl e)
      | Inr dump \<Rightarrow>
          if \<not> dump_ok then Some (Inl ErrWriteFile)
          else (case parse_dump L dump of
             Inl e \<Rightarrow> Some (Inl e)
           | Inr rows \<Rightarrow>
               map_option (\<lambda>dot. if dot_ok then Inr dot else Inl ErrWriteFile)
                 (generate_dot (build_leaves rows page) show_value)))"

section \<open>Lemmas\<close>

text \<open>A row whose line the scanner and the expression give back.\<close>

definition row_ok :: "viz_lib \<Rightarrow> kv_row \<Rightarrow> bool" where
  "row_ok L r =
     (nl \<notin> set (dump_line L r) \<and> last (dump_line L r) \<noteq> cr \<and> go_len (dump_line L r) < token_limit \<and>
      - (2 ^ 63) \<le> row_rev r \<and> row_rev r < 2 ^ 63 \<and>
      dump_re L (dump_line L r) = Some (itoa (row_rev r), go_quote L (row_key r), row_val r) \<and>
      go_unquote L (go_quote L (row_key r)) = Some (row_key r))"

lemma parse_dump_line: "row_ok L r \<Longrightarrow> parse_line L (dump_line L r) = Some r"
  by (simp add: row_ok_def parse_line_def atoi_itoa)

lemma scan_dump:
  "list_all (row_ok L) rows \<Longrightarrow> scan_lines token_limit (dump_text L rows) = (map (dump_line L) rows, False)"
proof (induction rows)
  case Nil
  then show ?case by (simp add: dump_text_def)
next
  case (Cons r rows)
  then have "drop_cr (dump_line L r) = dump_line L r" by (intro drop_cr_id) (simp add: row_ok_def)
  then show ?case
    using Cons scan_lines_line [of "dump_line L r" token_limit "dump_text L rows"]
    by (simp add: dump_text_def row_ok_def)
qed

lemma parse_dumped:
  assumes "list_all (row_ok L) rows"
  shows "List.map_filter (parse_line L) (map (dump_line L) rows) = rows"
  using assms by (induction rows) (simp_all add: map_filter_simps parse_dump_line)

lemma root_fields_ok: "(\<forall>l \<in> set leaves. l \<noteq> []) \<Longrightarrow> root_fields leaves = Some (map (\<lambda>l. itoa (row_rev (hd l))) leaves)"
  by (induction leaves) (auto split: list.splits)

section \<open>Properties\<close>

text \<open>
  The leaves partition the rows: put one after the other they are the rows in order, none is empty or
  larger than the page, all but the last are full, there are as many as needed, a page size that is
  not positive counts as 4, and the graph of such leaves is generated without a panic.
\<close>

lemma leaves_partition:
  "let n = nat (if page \<le> 0 then 4 else page); leaves = build_leaves rows page in
     concat leaves = rows \<and> (list_all (\<lambda>l. l \<noteq> [] \<and> length l \<le> n) leaves) \<and>
     list_all (\<lambda>l. length l = n) (butlast leaves) \<and> length leaves = (length rows + n - 1) div n \<and>
     generate_dot leaves show_value \<noteq> None"
proof -
  let ?n = "nat (if page \<le> 0 then 4 else page)"
  have n: "0 < ?n" by simp
  have b: "build_leaves rows page = batches_from ?n 0 rows"
    by (simp add: build_leaves_def default_page_size_def)
  have ne: "\<forall>l \<in> set (batches_from ?n 0 rows). l \<noteq> [] \<and> length l \<le> ?n"
    using batches_from_sizes [OF n] by blast
  have "generate_dot (batches_from ?n 0 rows) show_value \<noteq> None"
    using root_fields_ok [of "batches_from ?n 0 rows"] ne by (simp add: generate_dot_def)
  moreover have "list_all (\<lambda>l. l \<noteq> [] \<and> length l \<le> ?n) (batches_from ?n 0 rows)"
    using ne by (simp add: list_all_iff)
  moreover have "list_all (\<lambda>l. length l = ?n) (butlast (batches_from ?n 0 rows))"
    using batches_from_full [OF n] by (auto simp: list_all_iff)
  moreover have "concat (batches_from ?n 0 rows) = rows" using concat_batches_from [OF n, of 0 rows] by simp
  moreover have "length (batches_from ?n 0 rows) = (length rows + ?n - 1) div ?n"
    using length_batches_from [OF n, of 0 rows] by simp
  ultimately show ?thesis unfolding Let_def b by blast
qed

text \<open>
  The text dump is lossless: parsing the dump of any rows whose lines the scanner can hold and the
  expression matches gives back those rows, ordered by revision and key.
\<close>

lemma dump_roundtrip:
  assumes "list_all (row_ok L) rows" "rows \<noteq> []"
  shows "parse_dump L (dump_text L rows) = Inr (sort_key row_order rows)"
  using assms by (simp add: parse_dump_def scan_dump parse_dumped Let_def)

definition one_row_lib :: viz_lib where
  "one_row_lib =
     \<lparr>unmarshal_item = (\<lambda>_. None), valid_text = (\<lambda>_. None), base64_text = (\<lambda>_. []),
      go_quote = (\<lambda>s. s), go_unquote = Some,
      dump_re = (\<lambda>l. if l = ''rev=7 key=k value=v'' then Some (''7'', ''k'', ''v'') else None)\<rparr>"

theorem dump_roundtrip_witness:
  "parse_dump one_row_lib (''rev=7 key=k value=v'' @ [nl]) = Inr [\<lparr>row_rev = 7, row_key = ''k'', row_val = ''v''\<rparr>]"
proof -
  let ?r = "\<lparr>row_rev = 7, row_key = ''k'', row_val = ''v''\<rparr>"
  have i: "itoa 7 = ''7''"
    by code_simp
  have l: "dump_line one_row_lib ?r = ''rev=7 key=k value=v''"
    by (simp add: dump_line_def one_row_lib_def i)
  have "row_ok one_row_lib ?r"
    unfolding row_ok_def l by (simp add: one_row_lib_def i token_limit_def utf8_len_def)
  then show ?thesis
    using dump_roundtrip [of one_row_lib "[?r]"] by (simp add: dump_text_def l)
qed

text \<open>A value longer than the scanner's buffer makes the whole run fail, and a brace gets two backslashes.\<close>

lemma long_line_fails:
  assumes "nl \<notin> set l" "token_limit \<le> go_len l"
  shows "parse_dump L (l @ nl # s) = Inl ErrScanner"
proof -
  have "0 < token_limit" by (simp add: token_limit_def)
  with assms(2) have "l \<noteq> []" by auto
  then show ?thesis using scan_lines_too_long [OF assms] by (simp add: parse_dump_def)
qed

lemma escape_doubles: "escape_record_field ''a{b'' = [CHR ''a'', bs, bs, CHR ''{'', CHR ''b'']"
  by (simp add: bs_def)

end
