(* ===== verification/UserStore.thy ===== *)
theory UserStore
  imports GoText "HOL-Library.List_Lexorder" "HOL-Library.Char_ord"
begin

text \<open>
  The two programs that keep users in an ordered store: \<open>etcd/bbolt/main.go\<close> over a bbolt bucket and
  \<open>etcd/b tree example/main.go\<close> over a \<open>google/btree\<close> tree. The stores and the JSON codec are not code of
  the repository: they are the records \<open>bolt_lib\<close>, \<open>user_codec\<close> and \<open>btree_lib\<close>, with what their
  documentation promises in \<open>bolt_lawful\<close>, \<open>codec_lawful\<close> and \<open>btree_lawful\<close>. Bytes are characters.
  A \<open>main\<close> is the list of its statements, run by \<open>for_range\<close>, whose first error is the
  \<open>log.Fatal\<close>; the headings it prints are left out.
\<close>

section \<open>Users and the library\<close>

record user =
  uid :: int
  uname :: string
  uscore :: int

definition no_user :: user where
  "no_user = \<lparr>uid = 0, uname = [], uscore = 0\<rparr>"

text \<open>\<open>int\<close> arithmetic on a 64-bit platform.\<close>

definition wrap64 :: "int \<Rightarrow> int" where
  "wrap64 i = (i + 2 ^ 63) mod 2 ^ 64 - 2 ^ 63"

lemma wrap64_id: "- (2 ^ 63) \<le> i \<Longrightarrow> i < 2 ^ 63 \<Longrightarrow> wrap64 i = i"
  by (simp add: wrap64_def)

record 'b bolt_lib =
  bk_empty :: 'b
  bk_get :: "'b \<Rightarrow> string \<Rightarrow> string option"
  bk_put :: "string \<Rightarrow> string \<Rightarrow> 'b \<Rightarrow> 'b option"
  bk_delete :: "string \<Rightarrow> 'b \<Rightarrow> 'b option"
  bk_rows :: "'b \<Rightarrow> (string \<times> string) list"   \<comment> \<open>what a cursor visits\<close>

text \<open>\<open>json.Unmarshal\<close> writes into the variable it is given, so that variable is an argument.\<close>

record user_codec =
  marshal :: "user \<Rightarrow> string option"
  unmarshal :: "string \<Rightarrow> user \<Rightarrow> user \<times> bool"

section \<open>The operations over bbolt\<close>

definition user_key :: "int \<Rightarrow> string" where
  "user_key i = itoa i"

datatype users_error = NoUsersBucket | MarshalFailed | UnmarshalFailed | PutFailed | DeleteFailed | CommitFailed | NilBucket

text \<open>\<open>db.Update\<close>: the callback works on the transaction's copy; an error, or a failed commit, drops it.\<close>

definition db_update :: "bool \<Rightarrow> ('b option \<Rightarrow> (users_error, 'b option) result) \<Rightarrow> 'b option \<Rightarrow> 'b option \<times> users_error option" where
  "db_update commit_fails f db =
     (case f db of
        Inl e \<Rightarrow> (db, Some e)
      | Inr db' \<Rightarrow> if commit_fails then (db, Some CommitFailed) else (db', None))"

definition upsert_user :: "'b bolt_lib \<Rightarrow> user_codec \<Rightarrow> bool \<Rightarrow> user \<Rightarrow> 'b option \<Rightarrow> 'b option \<times> users_error option" where
  "upsert_user L c fails u =
     db_update fails (\<lambda>db. case db of
        None \<Rightarrow> Inl NoUsersBucket
      | Some b \<Rightarrow>
          (case marshal c u of
             None \<Rightarrow> Inl MarshalFailed
           | Some dat \<Rightarrow>
               (case bk_put L (user_key (uid u)) dat b of None \<Rightarrow> Inl PutFailed | Some b' \<Rightarrow> Inr (Some b'))))"

definition upsert_big_user :: "'b bolt_lib \<Rightarrow> bool \<Rightarrow> 'b option \<Rightarrow> 'b option \<times> users_error option" where
  "upsert_big_user L fails =
     db_update fails (\<lambda>db. case db of
        None \<Rightarrow> Inl NoUsersBucket
      | Some b \<Rightarrow>
          (case bk_put L ''big'' (replicate 20000 (CHR 0x00)) b of None \<Rightarrow> Inl PutFailed | Some b' \<Rightarrow> Inr (Some b')))"

text \<open>The user variable, the flag and the error \<open>getUser\<close> returns.\<close>

definition get_user :: "'b bolt_lib \<Rightarrow> user_codec \<Rightarrow> int \<Rightarrow> 'b option \<Rightarrow> user \<times> bool \<times> users_error option" where
  "get_user L c i db =
     (case db of
        None \<Rightarrow> (no_user, False, Some NoUsersBucket)
      | Some b \<Rightarrow>
          (case bk_get L b (user_key i) of
             None \<Rightarrow> (no_user, False, None)
           | Some v \<Rightarrow>
               (case unmarshal c v no_user of
                  (u, False) \<Rightarrow> (u, False, Some UnmarshalFailed)
                | (u, True) \<Rightarrow>
                    (let i = wrap64 (i + 1)
                     in case bk_get L b (user_key i) of
                          None \<Rightarrow> (u, False, None)
                        | Some v \<Rightarrow>
                            (case unmarshal c v u of
                               (u, False) \<Rightarrow> (u, False, Some UnmarshalFailed)
                             | (u, True) \<Rightarrow> (u, True, None))))))"

definition delete_user :: "'b bolt_lib \<Rightarrow> bool \<Rightarrow> int \<Rightarrow> 'b option \<Rightarrow> 'b option \<times> users_error option" where
  "delete_user L fails i =
     db_update fails (\<lambda>db. case db of
        None \<Rightarrow> Inl NoUsersBucket
      | Some b \<Rightarrow> (case bk_delete L (user_key i) b of None \<Rightarrow> Inl DeleteFailed | Some b' \<Rightarrow> Inr (Some b')))"

datatype printed = Row string user | Hit user | Miss int | Gone int

definition print_row :: "user_codec \<Rightarrow> printed list \<Rightarrow> string \<times> string \<Rightarrow> printed list \<times> users_error option" where
  "print_row c lines kv =
     (case unmarshal c (snd kv) no_user of
        (_, False) \<Rightarrow> (lines, Some UnmarshalFailed)
      | (u, True) \<Rightarrow> (lines @ [Row (fst kv) u], None))"

definition print_all_users :: "'b bolt_lib \<Rightarrow> user_codec \<Rightarrow> 'b option \<Rightarrow> printed list \<Rightarrow> printed list \<times> users_error option" where
  "print_all_users L c db lines =
     (case db of
        None \<Rightarrow> (lines, Some NoUsersBucket)
      | Some b \<Rightarrow> for_range (print_row c) lines (bk_rows L b))"

section \<open>Its main\<close>

text \<open>A put whose callback does not test the bucket: a nil bucket is a nil dereference.\<close>

definition put_raw :: "'b bolt_lib \<Rightarrow> bool \<Rightarrow> string \<Rightarrow> string \<Rightarrow> 'b option \<Rightarrow> 'b option \<times> users_error option" where
  "put_raw L fails k v =
     db_update fails (\<lambda>db. case db of
        None \<Rightarrow> Inl NilBucket
      | Some b \<Rightarrow> (case bk_put L k v b of None \<Rightarrow> Inl PutFailed | Some b' \<Rightarrow> Inr (Some b')))"

definition init_bucket :: "'b bolt_lib \<Rightarrow> bool \<Rightarrow> 'b option \<Rightarrow> 'b option \<times> users_error option" where
  "init_bucket L fails = db_update fails (\<lambda>db. Inr (Some (case db of None \<Rightarrow> bk_empty L | Some b \<Rightarrow> b)))"

datatype stmt = InitBucket | Upsert user | PrintAll | Query int bool | Remove int | PutRaw string string

text \<open>The state: the database, the lines printed, and the number of the next write transaction, by
which the oracle \<open>fails\<close> says whether its commit fails.\<close>

record 'b run =
  rdb :: "'b option"
  out :: "printed list"
  txs :: nat

definition write_tx :: "(bool \<Rightarrow> 'b option \<Rightarrow> 'b option \<times> users_error option) \<Rightarrow> (nat \<Rightarrow> bool) \<Rightarrow> 'b run \<Rightarrow> 'b run \<times> users_error option" where
  "write_tx f fails s =
     (case f (fails (txs s)) (rdb s) of (db, e) \<Rightarrow> (s\<lparr>rdb := db, txs := txs s + 1\<rparr>, e))"

definition exec :: "'b bolt_lib \<Rightarrow> user_codec \<Rightarrow> (nat \<Rightarrow> bool) \<Rightarrow> 'b run \<Rightarrow> stmt \<Rightarrow> 'b run \<times> users_error option" where
  "exec L c fails s st =
     (case st of
        InitBucket \<Rightarrow> write_tx (init_bucket L) fails s
      | Upsert u \<Rightarrow> write_tx (\<lambda>f. upsert_user L c f u) fails s
      | PrintAll \<Rightarrow> (case print_all_users L c (rdb s) (out s) of (ls, e) \<Rightarrow> (s\<lparr>out := ls\<rparr>, e))
      | Query i report_miss \<Rightarrow>
          (case get_user L c i (rdb s) of
             (u, ok, Some e) \<Rightarrow> (s, Some e)
           | (u, ok, None) \<Rightarrow>
               (s\<lparr>out := out s @ (if ok then [Hit u] else if report_miss then [Miss i] else [])\<rparr>, None))
      | Remove i \<Rightarrow>
          (case write_tx (\<lambda>f. delete_user L f i) fails s of
             (s, Some e) \<Rightarrow> (s, Some e)
           | (s, None) \<Rightarrow> (s\<lparr>out := out s @ [Gone i]\<rparr>, None))
      | PutRaw k v \<Rightarrow> write_tx (\<lambda>f. put_raw L f k v) fails s)"

definition alice :: user where "alice = \<lparr>uid = 1001, uname = ''Alice'', uscore = 88\<rparr>"
definition bob :: user where "bob = \<lparr>uid = 1002, uname = ''Bob'', uscore = 76\<rparr>"
definition cindy :: user where "cindy = \<lparr>uid = 1003, uname = ''Cindy'', uscore = 93\<rparr>"
definition bob2 :: user where "bob2 = \<lparr>uid = 1002, uname = ''Bob'', uscore = 84\<rparr>"

definition class_user :: "nat \<Rightarrow> user" where
  "class_user i = \<lparr>uid = int i, uname = ''user_class_'' @ itoa (int i), uscore = 100\<rparr>"

text \<open>\<open>fmt.Sprintf("idx_%s", 0)\<close>: the verb does not fit an integer, and Sprintf says so in its result.\<close>

definition bad_verb :: "int \<Rightarrow> string" where
  "bad_verb i = ''%!s(int='' @ itoa i @ '')''"

definition users_start :: "stmt list" where
  "users_start = [InitBucket, Upsert alice, Upsert bob, Upsert cindy]"

definition users_rest :: "stmt list" where
  "users_rest =
     [Query 1002 True, Upsert bob2, Query 1002 False, Remove 1001, Query 1001 True, PrintAll]
       @ map (\<lambda>i. Upsert (class_user i)) [0..<100]
       @ [Upsert \<lparr>uid = 1130, uname = ''xing'', uscore = 100\<rparr>, Query 1002 False,
          PutRaw (''idx_'' @ bad_verb 0) [], PutRaw (''idx_'' @ bad_verb 1) [], PutRaw ''idx_test'' ''huyun'']"

definition users_script :: "stmt list" where
  "users_script = users_start @ [PrintAll] @ users_rest"

definition users_main :: "'b bolt_lib \<Rightarrow> user_codec \<Rightarrow> (nat \<Rightarrow> bool) \<Rightarrow> 'b option \<Rightarrow> 'b run \<times> users_error option" where
  "users_main L c fails db = for_range (exec L c fails) \<lparr>rdb = db, out = [], txs = 0\<rparr> users_script"

section \<open>The tree program\<close>

record user_item =
  ikey :: int
  ivalue :: user

definition item_less :: "user_item \<Rightarrow> user_item \<Rightarrow> bool" where
  "item_less u than = (ikey u < ikey than)"

record 't btree_lib =
  bt_new :: "nat \<Rightarrow> 't"
  bt_insert :: "user_item \<Rightarrow> 't \<Rightarrow> 't"   \<comment> \<open>\<open>ReplaceOrInsert\<close>\<close>
  bt_get :: "'t \<Rightarrow> user_item \<Rightarrow> user_item option"
  bt_delete :: "user_item \<Rightarrow> 't \<Rightarrow> 't \<times> user_item option"
  bt_items :: "'t \<Rightarrow> user_item list"   \<comment> \<open>what \<open>Ascend\<close> visits\<close>

definition tree_upsert :: "'t btree_lib \<Rightarrow> user \<Rightarrow> 't \<Rightarrow> 't" where
  "tree_upsert T u t = bt_insert T \<lparr>ikey = uid u, ivalue = u\<rparr> t"

definition user_tree_get :: "'t btree_lib \<Rightarrow> 't \<Rightarrow> int \<Rightarrow> user option" where
  "user_tree_get T t i = map_option ivalue (bt_get T t \<lparr>ikey = i, ivalue = no_user\<rparr>)"

definition user_tree_get_v :: "'t btree_lib \<Rightarrow> 't \<Rightarrow> user \<Rightarrow> user option" where
  "user_tree_get_v T t u = map_option ivalue (bt_get T t \<lparr>ikey = 0, ivalue = u\<rparr>)"

definition tree_delete :: "'t btree_lib \<Rightarrow> int \<Rightarrow> 't \<Rightarrow> 't \<times> bool" where
  "tree_delete T i t =
     (case bt_delete T \<lparr>ikey = i, ivalue = no_user\<rparr> t of (t', item) \<Rightarrow> (t', item \<noteq> None))"

definition tree_rows :: "'t btree_lib \<Rightarrow> 't \<Rightarrow> user list" where
  "tree_rows T t = map ivalue (bt_items T t)"

datatype tree_line = TRows "user list" | TFound user | TMissing int | TDeleted int | TNotDeleted int

definition tree_main :: "'t btree_lib \<Rightarrow> tree_line list" where
  "tree_main T =
     (let t = tree_upsert T cindy (tree_upsert T bob (tree_upsert T alice (bt_new T 3)));
          l1 = [TRows (tree_rows T t)];
          l2 = [case user_tree_get T t 1002 of Some u \<Rightarrow> TFound u | None \<Rightarrow> TMissing 1002];
          l3 = [case user_tree_get_v T t bob of Some u \<Rightarrow> TFound u | None \<Rightarrow> TMissing 1002];
          t = tree_upsert T bob2 t;
          l4 = (case user_tree_get T t 1002 of Some u \<Rightarrow> [TFound u] | None \<Rightarrow> []);
          (t, deleted) = tree_delete T 1001 t;
          l5 = [if deleted then TDeleted 1001 else TNotDeleted 1001];
          l6 = [case user_tree_get T t 1001 of Some u \<Rightarrow> TFound u | None \<Rightarrow> TMissing 1001]
      in l1 @ l2 @ l3 @ l4 @ l5 @ l6 @ [TRows (tree_rows T t)])"

section \<open>What the libraries promise\<close>

text \<open>The rows of a bucket are in the byte order of their keys.\<close>

fun put_row :: "string \<Rightarrow> string \<Rightarrow> (string \<times> string) list \<Rightarrow> (string \<times> string) list" where
  "put_row k v [] = [(k, v)]"
| "put_row k v ((k', v') # rows) =
     (if k = k' then (k, v) # rows
      else if k < k' then (k, v) # (k', v') # rows else (k', v') # put_row k v rows)"

definition row_fits :: "string \<Rightarrow> string \<Rightarrow> bool" where
  "row_fits k v = (k \<noteq> [] \<and> length k \<le> 32768 \<and> length v \<le> 2 ^ 31 - 2)"

definition bolt_lawful :: "'b bolt_lib \<Rightarrow> bool" where
  "bolt_lawful L =
     (bk_rows L (bk_empty L) = [] \<and>
      (\<forall>b. bk_get L b = map_of (bk_rows L b)) \<and>
      (\<forall>b k v. row_fits k v \<longrightarrow> (\<exists>b'. bk_put L k v b = Some b' \<and> bk_rows L b' = put_row k v (bk_rows L b))) \<and>
      (\<forall>b k. \<exists>b'. bk_delete L k b = Some b' \<and> bk_rows L b' = filter (\<lambda>r. fst r \<noteq> k) (bk_rows L b)))"

text \<open>Users whose JSON reads back as they are: integers of the machine, a name of ASCII characters.\<close>

definition plain_user :: "user \<Rightarrow> bool" where
  "plain_user u =
     (- (2 ^ 63) \<le> uid u \<and> uid u < 2 ^ 63 \<and> - (2 ^ 63) \<le> uscore u \<and> uscore u < 2 ^ 63 \<and>
      length (uname u) \<le> 4096 \<and> list_all (\<lambda>c. of_char c < (128 :: nat)) (uname u))"

definition codec_lawful :: "user_codec \<Rightarrow> bool" where
  "codec_lawful c =
     ((\<forall>u. plain_user u \<longrightarrow>
        (\<exists>dat. marshal c u = Some dat \<and> length dat \<le> 2 ^ 31 - 2 \<and> (\<forall>u0. unmarshal c dat u0 = (u, True)))) \<and>
      (\<forall>u0. unmarshal c [] u0 = (u0, False) \<and> unmarshal c ''huyun'' u0 = (u0, False)))"

text \<open>A sorted list of rows and a simple record format satisfy the two contracts.\<close>

definition list_lib :: "(string \<times> string) list bolt_lib" where
  "list_lib =
     \<lparr>bk_empty = [], bk_get = map_of, bk_put = (\<lambda>k v b. if row_fits k v then Some (put_row k v b) else None),
      bk_delete = (\<lambda>k b. Some (filter (\<lambda>r. fst r \<noteq> k) b)), bk_rows = (\<lambda>b. b)\<rparr>"

definition csv_codec :: user_codec where
  "csv_codec =
     \<lparr>marshal = (\<lambda>u. Some (itoa (uid u) @ '','' @ itoa (uscore u) @ '','' @ uname u)),
      unmarshal = (\<lambda>s u0. case split_on (CHR '','') s of
         i # sc # n # ns \<Rightarrow>
           (case (atoi i, atoi sc) of
              (Some i, Some sc) \<Rightarrow> (\<lparr>uid = i, uname = join_with '','' (n # ns), uscore = sc\<rparr>, True)
            | _ \<Rightarrow> (u0, False))
       | _ \<Rightarrow> (u0, False))\<rparr>"

lemma list_lib_lawful: "bolt_lawful list_lib"
  by (simp add: bolt_lawful_def list_lib_def)

lemma no_comma_itoa: "CHR '','' \<notin> set (itoa i)"
proof -
  have "is_digit c" if "c \<in> set (nat_digits n)" for c n
    using nat_digits_digits [of n] that by (simp add: list_all_iff)
  then have d: "CHR '','' \<notin> set (nat_digits n)" for n by (fastforce simp: is_digit_def)
  show ?thesis by (simp add: itoa_def d)
qed

lemma short_digits: "n < 10 ^ k \<Longrightarrow> 0 < k \<Longrightarrow> length (nat_digits n) \<le> k"
proof (induction k arbitrary: n)
  case 0
  then show ?case by simp
next
  case (Suc k)
  show ?case
  proof (cases "n < 10")
    case True
    then show ?thesis by (subst nat_digits.simps) simp
  next
    case False
    have "n div 10 < 10 ^ k" using Suc.prems(1) by (simp add: less_mult_imp_div_less mult.commute)
    moreover from this have "0 < k" using False by (cases k) auto
    ultimately have "length (nat_digits (n div 10)) \<le> k" by (rule Suc.IH)
    then show ?thesis using False by (subst nat_digits.simps) simp
  qed
qed

lemma short_itoa:
  assumes "- (2 ^ 63) \<le> i" "i < 2 ^ 63"
  shows "length (itoa i) \<le> 20"
proof -
  have "nat (- i) < 10 ^ 19" "nat i < 10 ^ 19" using assms by auto
  then have "length (nat_digits (nat (- i))) \<le> 19" "length (nat_digits (nat i)) \<le> 19"
    using short_digits by force+
  then show ?thesis by (simp add: itoa_def)
qed

lemma csv_codec_lawful: "codec_lawful csv_codec"
proof -
  have parse: "unmarshal csv_codec (the (marshal csv_codec u)) u0 = (u, True)" if u: "plain_user u" for u u0
  proof -
    obtain n ns where n: "split_on (CHR '','') (uname u) = n # ns"
      by (metis neq_Nil_conv split_on_not_Nil)
    then have "join_with '','' (n # ns) = uname u" using join_split_on by metis
    moreover have "split_on (CHR '','') (itoa (uid u) @ '','' @ itoa (uscore u) @ '','' @ uname u) = itoa (uid u) # itoa (uscore u) # n # ns"
      using n by (simp add: split_on_append no_comma_itoa)
    ultimately show ?thesis using u by (simp add: csv_codec_def plain_user_def atoi_itoa)
  qed
  have "length (the (marshal csv_codec u)) \<le> 2 ^ 31 - 2" if "plain_user u" for u
    using that short_itoa [of "uid u"] short_itoa [of "uscore u"] by (simp add: plain_user_def csv_codec_def)
  with parse have "\<forall>u. plain_user u \<longrightarrow> (\<exists>dat. marshal csv_codec u = Some dat \<and> length dat \<le> 2 ^ 31 - 2 \<and>
      (\<forall>u0. unmarshal csv_codec dat u0 = (u, True)))"
    by (simp add: csv_codec_def)
  moreover have "\<forall>u0. unmarshal csv_codec [] u0 = (u0, False) \<and> unmarshal csv_codec ''huyun'' u0 = (u0, False)"
    by (simp add: csv_codec_def)
  ultimately show ?thesis by (simp add: codec_lawful_def)
qed

section \<open>The bucket as its rows\<close>

text \<open>A run over any lawful store is the run over the list of its rows.\<close>

definition rows_view :: "'b bolt_lib \<Rightarrow> 'b run \<Rightarrow> (string \<times> string) list run" where
  "rows_view L s = \<lparr>rdb = map_option (bk_rows L) (rdb s), out = out s, txs = txs s\<rparr>"

fun stmt_fits :: "user_codec \<Rightarrow> stmt \<Rightarrow> bool" where
  "stmt_fits c (Upsert u) = plain_user u"
| "stmt_fits c (PutRaw k v) = row_fits k v"
| "stmt_fits c _ = True"

lemma marshal_plain:
  assumes "codec_lawful c" "plain_user u"
  obtains dat where "marshal c u = Some dat" "row_fits (user_key (uid u)) dat" "\<And>u0. unmarshal c dat u0 = (u, True)"
proof -
  have "user_key (uid u) \<noteq> []" by (simp add: user_key_def itoa_def)
  moreover have "length (user_key (uid u)) \<le> 32768"
    using short_itoa [of "uid u"] assms(2) by (simp add: plain_user_def user_key_def)
  ultimately show ?thesis
    using assms that by (auto simp: codec_lawful_def row_fits_def)
qed

lemma bolt_laws:
  assumes "bolt_lawful L"
  shows "bk_rows L (bk_empty L) = []" and "bk_get L b = map_of (bk_rows L b)"
    and "row_fits k v \<Longrightarrow> \<exists>b'. bk_put L k v b = Some b' \<and> bk_rows L b' = put_row k v (bk_rows L b)"
    and "\<exists>b'. bk_delete L k b = Some b' \<and> bk_rows L b' = filter (\<lambda>r. fst r \<noteq> k) (bk_rows L b)"
  using assms by (simp_all add: bolt_lawful_def)

lemma list_lib_simps [simp]:
  "bk_empty list_lib = []" "bk_get list_lib = map_of" "bk_rows list_lib b = b"
  "bk_put list_lib k v b = (if row_fits k v then Some (put_row k v b) else None)"
  "bk_delete list_lib k b = Some (filter (\<lambda>r. fst r \<noteq> k) b)"
  by (simp_all add: list_lib_def)

lemma get_user_rows:
  "bolt_lawful L \<Longrightarrow> get_user L c i db = get_user list_lib c i (map_option (bk_rows L) db)"
  by (cases db) (auto simp: get_user_def bolt_laws(2) Let_def split: option.splits prod.splits bool.splits)

lemmas exec_defs = exec_def write_tx_def upsert_user_def put_raw_def delete_user_def init_bucket_def
  db_update_def rows_view_def

lemma exec_rows:
  assumes L: "bolt_lawful L" and c: "codec_lawful c" and st: "stmt_fits c st"
  shows "exec list_lib c fails (rows_view L s) st = map_prod (rows_view L) id (exec L c fails s st)"
proof (cases "rdb s")
  case None
  then show ?thesis
    by (cases st) (simp_all add: exec_defs print_all_users_def get_user_def bolt_laws(1) [OF L])
next
  case db: (Some b)
  show ?thesis
  proof (cases st)
    case (Upsert u)
    with st have "plain_user u" by simp
    then obtain dat where d: "marshal c u = Some dat" "row_fits (user_key (uid u)) dat"
      using marshal_plain [OF c] by metis
    moreover obtain b' where "bk_put L (user_key (uid u)) dat b = Some b'"
      "bk_rows L b' = put_row (user_key (uid u)) dat (bk_rows L b)" using bolt_laws(3) [OF L d(2)] by blast
    ultimately show ?thesis using Upsert db by (simp add: exec_defs)
  next
    case (PutRaw k v)
    with st have d: "row_fits k v" by simp
    then obtain b' where "bk_put L k v b = Some b'" "bk_rows L b' = put_row k v (bk_rows L b)"
      using bolt_laws(3) [OF L d] by blast
    then show ?thesis using PutRaw db d by (simp add: exec_defs)
  next
    case (Remove i)
    obtain b' where "bk_delete L (user_key i) b = Some b'"
      "bk_rows L b' = filter (\<lambda>r. fst r \<noteq> user_key i) (bk_rows L b)" using bolt_laws(4) [OF L] by blast
    then show ?thesis using Remove db by (simp add: exec_defs)
  next
    case (Query i r)
    then show ?thesis
      using get_user_rows [OF L, of c i "rdb s"]
      by (auto simp: exec_def rows_view_def split: prod.splits option.splits)
  qed (auto simp: exec_defs db print_all_users_def split: prod.splits)
qed

lemma run_rows:
  assumes "bolt_lawful L" "codec_lawful c" "list_all (stmt_fits c) sts"
  shows "for_range (exec list_lib c fails) (rows_view L s) sts = map_prod (rows_view L) id (for_range (exec L c fails) s sts)"
  using assms(3)
proof (induction sts arbitrary: s)
  case Nil
  then show ?case by simp
next
  case (Cons st sts)
  obtain s' e where e: "exec L c fails s st = (s', e)" by (cases "exec L c fails s st")
  with exec_rows [OF assms(1,2), of st fails s] Cons.prems
  have "exec list_lib c fails (rows_view L s) st = (rows_view L s', e)" by simp
  with e Cons show ?case by (cases e) simp_all
qed

section \<open>Evaluating the scripts\<close>

lemma map_of_put_row: "map_of (put_row k v rows) = (map_of rows)(k \<mapsto> v)"
  by (induction rows) (auto simp: fun_eq_iff)

lemma map_of_delete_row: "map_of (filter (\<lambda>r. fst r \<noteq> k) rows) = (map_of rows)(k := None)"
  by (induction rows) auto

lemma user_key_inj: "user_key i = user_key j \<longleftrightarrow> i = j"
  by (auto simp: user_key_def dest: itoa_inj)

definition json :: "user_codec \<Rightarrow> user \<Rightarrow> string" where
  "json c u = the (marshal c u)"

lemma json_laws:
  assumes "codec_lawful c" "plain_user u"
  shows "marshal c u = Some (json c u)" "row_fits (user_key (uid u)) (json c u)" "unmarshal c (json c u) u0 = (u, True)"
  using marshal_plain [OF assms] by (metis json_def option.sel)+

lemma exec_upsert:
  assumes "codec_lawful c" "plain_user u" "rdb s = Some b"
  shows "exec list_lib c (\<lambda>_. False) s (Upsert u) =
    (s\<lparr>rdb := Some (put_row (user_key (uid u)) (json c u) b), txs := txs s + 1\<rparr>, None)"
  using assms by (simp add: exec_defs json_laws)

lemma exec_remove:
  "rdb s = Some b \<Longrightarrow> exec list_lib c (\<lambda>_. False) s (Remove i) =
    (s\<lparr>rdb := Some (filter (\<lambda>r. fst r \<noteq> user_key i) b), txs := txs s + 1, out := out s @ [Gone i]\<rparr>, None)"
  by (simp add: exec_defs)

lemma exec_put_raw:
  "rdb s = Some b \<Longrightarrow> row_fits k v \<Longrightarrow> exec list_lib c (\<lambda>_. False) s (PutRaw k v) =
    (s\<lparr>rdb := Some (put_row k v b), txs := txs s + 1\<rparr>, None)"
  by (simp add: exec_defs)

text \<open>The abstract contents: the users by their number.\<close>

fun users_after :: "(int \<rightharpoonup> user) \<Rightarrow> stmt list \<Rightarrow> (int \<rightharpoonup> user)" where
  "users_after m [] = m"
| "users_after m (Upsert u # sts) = users_after (m(uid u \<mapsto> u)) sts"
| "users_after m (Remove i # sts) = users_after (m(i := None)) sts"
| "users_after m (_ # sts) = users_after m sts"

fun user_write :: "stmt \<Rightarrow> bool" where
  "user_write (Upsert u) = plain_user u"
| "user_write (Remove i) = True"
| "user_write _ = False"

definition represents :: "user_codec \<Rightarrow> (string \<times> string) list \<Rightarrow> (int \<rightharpoonup> user) \<Rightarrow> bool" where
  "represents c rows m =
     ((\<forall>j. map_of rows (user_key j) = map_option (json c) (m j)) \<and> (\<forall>j u. m j = Some u \<longrightarrow> plain_user u))"

lemma writes_represent:
  assumes "codec_lawful c" "list_all user_write sts" "rdb s = Some rows" "represents c rows m"
  shows "\<exists>s' rows'. for_range (exec list_lib c (\<lambda>_. False)) s sts = (s', None) \<and> rdb s' = Some rows' \<and>
           represents c rows' (users_after m sts)"
  using assms(2-)
proof (induction sts arbitrary: s rows m)
  case Nil
  then show ?case by auto
next
  case (Cons st sts)
  show ?case
  proof (cases st)
    case (Upsert u)
    with Cons.prems have "plain_user u" by simp
    moreover have "represents c (put_row (user_key (uid u)) (json c u) rows) (m(uid u \<mapsto> u))"
      using Cons.prems(3) \<open>plain_user u\<close> by (simp add: represents_def map_of_put_row user_key_inj)
    ultimately show ?thesis
      using Cons.prems Upsert Cons.IH exec_upsert [OF assms(1)] by simp
  next
    case (Remove i)
    have "represents c (filter (\<lambda>r. fst r \<noteq> user_key i) rows) (m(i := None))"
      using Cons.prems(3) by (simp add: represents_def map_of_delete_row user_key_inj)
    then show ?thesis
      using Cons.prems Remove Cons.IH exec_remove [of s rows] by simp
  qed (use Cons.prems in simp_all)
qed

lemma get_user_represents:
  assumes "codec_lawful c" "represents c rows m"
  shows "get_user list_lib c i (Some rows) =
    (case m i of None \<Rightarrow> (no_user, False, None)
     | Some u \<Rightarrow> (case m (wrap64 (i + 1)) of None \<Rightarrow> (u, False, None) | Some v \<Rightarrow> (v, True, None)))"
  using assms by (auto simp: get_user_def represents_def json_laws Let_def split: option.splits)

text \<open>The loop of a hundred upserts.\<close>

lemma class_plain: "i < 100 \<Longrightarrow> plain_user (class_user i)"
proof -
  assume i: "i < 100"
  have "list_all (\<lambda>c. of_char c < (128 :: nat)) (nat_digits i)"
    by (rule list.pred_mono_strong [OF nat_digits_digits]) (simp add: is_digit_def)
  moreover have "length (itoa (int i)) \<le> 20" by (rule short_itoa) (use i in simp_all)
  ultimately show ?thesis using i by (simp add: plain_user_def class_user_def itoa_def)
qed

lemma class_loop:
  assumes "codec_lawful c" "rdb s = Some rows" "\<And>i. i \<in> set idxs \<Longrightarrow> i < 100"
  shows "\<exists>s' rows'. for_range (exec list_lib c (\<lambda>_. False)) s (map (\<lambda>i. Upsert (class_user i)) idxs) = (s', None) \<and>
           rdb s' = Some rows' \<and> out s' = out s \<and>
           (\<forall>k. (\<forall>i < 100. k \<noteq> user_key (int i)) \<longrightarrow> map_of rows' k = map_of rows k)"
  using assms(2-)
proof (induction idxs arbitrary: s rows)
  case Nil
  then show ?case by auto
next
  case (Cons i idxs)
  let ?s = "s\<lparr>rdb := Some (put_row (user_key (int i)) (json c (class_user i)) rows), txs := txs s + 1\<rparr>"
  have i: "i < 100" using Cons.prems(2) by simp
  have "exec list_lib c (\<lambda>_. False) s (Upsert (class_user i)) = (?s, None)"
    using exec_upsert [OF assms(1) class_plain [OF i] Cons.prems(1)] by (simp add: class_user_def)
  moreover have "\<exists>s' rows'. for_range (exec list_lib c (\<lambda>_. False)) ?s (map (\<lambda>i. Upsert (class_user i)) idxs) = (s', None) \<and>
      rdb s' = Some rows' \<and> out s' = out ?s \<and>
      (\<forall>k. (\<forall>i < 100. k \<noteq> user_key (int i)) \<longrightarrow>
         map_of rows' k = map_of (put_row (user_key (int i)) (json c (class_user i)) rows) k)"
    by (rule Cons.IH) (use Cons.prems(2) in simp_all)
  ultimately show ?case using i by (fastforce simp: map_of_put_row)
qed

lemma demo_plain: "plain_user alice" "plain_user bob" "plain_user cindy" "plain_user bob2"
  "plain_user \<lparr>uid = 1130, uname = ''xing'', uscore = 100\<rparr>"
  by (simp_all add: plain_user_def alice_def bob_def cindy_def bob2_def)

lemma demo_ids [simp]: "uid alice = 1001" "uid bob = 1002" "uid cindy = 1003" "uid bob2 = 1002"
  by (simp_all add: alice_def bob_def cindy_def bob2_def)

lemma demo_keys: "user_key 1001 = ''1001''" "user_key 1002 = ''1002''" "user_key 1003 = ''1003''" "user_key 1130 = ''1130''"
  by (simp_all add: user_key_def itoa_def nat_digits.simps digit_char_def char_of_def bit_Suc_0_iff)

lemma idx_key: "user_key i \<noteq> ''idx_'' @ k"
proof -
  have "is_digit (hd (nat_digits n))" for n
    using nat_digits_digits [of n] by (cases "nat_digits n") auto
  moreover have "\<not> is_digit (CHR ''i'')" by (simp add: is_digit_def)
  ultimately have "hd (nat_digits n) \<noteq> CHR ''i''" for n by metis
  then have "hd (itoa i) \<noteq> CHR ''i''" by (simp add: itoa_def)
  then show ?thesis by (auto simp: user_key_def)
qed

lemma wrap64_demo: "wrap64 1002 = 1002" "wrap64 1003 = 1003"
  by (simp_all add: wrap64_id)

lemma first_part:
  assumes c: "codec_lawful c"
  shows "for_range (exec list_lib c (\<lambda>_. False)) \<lparr>rdb = None, out = [], txs = 0\<rparr> (users_start @ [PrintAll] @ take 6 users_rest) =
    (\<lparr>rdb = Some [(''1002'', json c bob2), (''1003'', json c cindy)],
      out = [Row ''1001'' alice, Row ''1002'' bob, Row ''1003'' cindy, Hit cindy, Hit cindy, Gone 1001, Miss 1001,
             Row ''1002'' bob2, Row ''1003'' cindy], txs = 6\<rparr>, None)"
  using json_laws [OF c demo_plain(1)] json_laws [OF c demo_plain(2)] json_laws [OF c demo_plain(3)] json_laws [OF c demo_plain(4)]
  by (simp add: users_start_def users_rest_def exec_defs print_all_users_def print_row_def get_user_def demo_keys wrap64_demo)

lemma last_part:
  assumes c: "codec_lawful c" and s: "rdb s = Some rows"
    and k: "map_of rows (user_key 1002) = Some (json c bob2)" "map_of rows (user_key 1003) = Some (json c cindy)"
  shows "\<exists>s' rows'. for_range (exec list_lib c (\<lambda>_. False)) s (drop 106 users_rest) = (s', None) \<and>
           rdb s' = Some rows' \<and> out s' = out s @ [Hit cindy] \<and> map_of rows' ''idx_test'' = Some ''huyun''"
proof -
  have rest: "drop 106 users_rest =
      [Upsert \<lparr>uid = 1130, uname = ''xing'', uscore = 100\<rparr>, Query 1002 False,
       PutRaw (''idx_'' @ bad_verb 0) [], PutRaw (''idx_'' @ bad_verb 1) [], PutRaw ''idx_test'' ''huyun'']"
    by (simp add: users_rest_def)
  have fits: "row_fits (''idx_'' @ bad_verb 0) []" "row_fits (''idx_'' @ bad_verb 1) []" "row_fits ''idx_test'' ''huyun''"
    using short_itoa [of 0] short_itoa [of 1] by (simp_all add: row_fits_def bad_verb_def)
  show ?thesis
    unfolding rest
    using json_laws [OF c demo_plain(5)] json_laws [OF c demo_plain(3)] json_laws [OF c demo_plain(4)] k s fits
    by (simp add: exec_defs get_user_def map_of_put_row user_key_inj wrap64_demo)
qed

lemma main_rows:
  assumes c: "codec_lawful c"
  shows "\<exists>s rows. users_main list_lib c (\<lambda>_. False) None = (s, None) \<and> rdb s = Some rows \<and>
           out s = [Row ''1001'' alice, Row ''1002'' bob, Row ''1003'' cindy, Hit cindy, Hit cindy, Gone 1001, Miss 1001,
                    Row ''1002'' bob2, Row ''1003'' cindy, Hit cindy] \<and>
           map_of rows ''idx_test'' = Some ''huyun''"
proof -
  let ?run = "for_range (exec list_lib c (\<lambda>_. False))"
  have split: "users_script = (users_start @ [PrintAll] @ take 6 users_rest) @
      map (\<lambda>i. Upsert (class_user i)) [0..<100] @ drop 106 users_rest"
    by (simp add: users_script_def users_rest_def)
  define s0 where "s0 = \<lparr>rdb = Some [(''1002'', json c bob2), (''1003'', json c cindy)],
      out = [Row ''1001'' alice, Row ''1002'' bob, Row ''1003'' cindy, Hit cindy, Hit cindy, Gone 1001, Miss 1001,
             Row ''1002'' bob2, Row ''1003'' cindy], txs = 6\<rparr>"
  obtain s1 rows1 where s1: "?run s0 (map (\<lambda>i. Upsert (class_user i)) [0..<100]) = (s1, None)" "rdb s1 = Some rows1"
      "out s1 = out s0" and get: "\<forall>k. (\<forall>i < 100. k \<noteq> user_key (int i)) \<longrightarrow>
        map_of rows1 k = map_of [(''1002'', json c bob2), (''1003'', json c cindy)] k"
    using class_loop [OF c, of s0 _ "[0..<100]"] by (fastforce simp: s0_def)
  have "\<forall>i < 100. user_key 1002 \<noteq> user_key (int i)" "\<forall>i < 100. user_key 1003 \<noteq> user_key (int i)"
    by (auto simp: user_key_inj)
  then have "map_of rows1 (user_key 1002) = Some (json c bob2)" "map_of rows1 (user_key 1003) = Some (json c cindy)"
    using get by (simp_all add: demo_keys)
  from last_part [OF c s1(2) this] obtain s2 rows2 where s2: "?run s1 (drop 106 users_rest) = (s2, None)"
      "rdb s2 = Some rows2" "out s2 = out s1 @ [Hit cindy]" "map_of rows2 ''idx_test'' = Some ''huyun''"
    by blast
  have "users_main list_lib c (\<lambda>_. False) None = (s2, None)"
    using first_part [OF c] s1(1) s2(1) unfolding users_main_def split for_range_append [of _ _ "users_start @ [PrintAll] @ take 6 users_rest"]
    by (simp add: for_range_append s0_def)
  with s2 s1(3) show ?thesis by (simp add: s0_def)
qed

lemma print_stuck:
  assumes "map_of rows k = Some v" "\<And>u0. unmarshal c v u0 = (u0, False)"
  shows "\<exists>ls. for_range (print_row c) ls0 rows = (ls, Some UnmarshalFailed)"
  using assms(1)
proof (induction rows arbitrary: ls0)
  case (Cons r rows)
  then show ?case using assms(2) by (auto simp: print_row_def split: if_splits prod.splits bool.splits)
qed simp

lemma start_keeps_idx:
  assumes c: "codec_lawful c" and m: "map_of rows ''idx_test'' = Some ''huyun''"
  shows "\<exists>s. users_main list_lib c (\<lambda>_. False) (Some rows) = (s, Some UnmarshalFailed)"
proof -
  let ?p = "\<lambda>u. put_row (user_key (uid u)) (json c u)"
  let ?rows = "?p cindy (?p bob (?p alice rows))"
  let ?s = "\<lparr>rdb = Some ?rows, out = [], txs = 4\<rparr>"
  have "''idx_test'' \<noteq> user_key i" for i using idx_key [of i "''test''"] by auto
  then have "map_of ?rows ''idx_test'' = Some ''huyun''" using m by (simp add: map_of_put_row)
  moreover have "\<And>u0. unmarshal c ''huyun'' u0 = (u0, False)" using c by (simp add: codec_lawful_def)
  ultimately obtain ls where "for_range (print_row c) [] ?rows = (ls, Some UnmarshalFailed)"
    using print_stuck by blast
  moreover have "for_range (exec list_lib c (\<lambda>_. False)) \<lparr>rdb = Some rows, out = [], txs = 0\<rparr> users_start = (?s, None)"
    using json_laws [OF c demo_plain(1)] json_laws [OF c demo_plain(2)] json_laws [OF c demo_plain(3)]
    by (simp add: users_start_def exec_defs)
  ultimately show ?thesis
    by (simp add: users_main_def users_script_def for_range_append exec_def print_all_users_def)
qed

section \<open>The tree\<close>

text \<open>A tree of the library is, in order, a list of items no two of which are equal under \<open>Less\<close>.\<close>

fun put_item :: "user_item \<Rightarrow> user_item list \<Rightarrow> user_item list" where
  "put_item i [] = [i]"
| "put_item i (j # js) = (if item_less i j then i # j # js else if item_less j i then j # put_item i js else i # js)"

definition same_item :: "user_item \<Rightarrow> user_item \<Rightarrow> bool" where
  "same_item i j = (\<not> item_less i j \<and> \<not> item_less j i)"

definition btree_lawful :: "'t btree_lib \<Rightarrow> bool" where
  "btree_lawful T =
     ((\<forall>d. bt_items T (bt_new T d) = []) \<and>
      (\<forall>t i. bt_items T (bt_insert T i t) = put_item i (bt_items T t)) \<and>
      (\<forall>t i. bt_get T t i = find (same_item i) (bt_items T t)) \<and>
      (\<forall>t i. bt_items T (fst (bt_delete T i t)) = filter (\<lambda>j. \<not> same_item i j) (bt_items T t) \<and>
             snd (bt_delete T i t) = find (same_item i) (bt_items T t)))"

definition list_tree :: "user_item list btree_lib" where
  "list_tree =
     \<lparr>bt_new = (\<lambda>_. []), bt_insert = put_item, bt_get = (\<lambda>t i. find (same_item i) t),
      bt_delete = (\<lambda>i t. (filter (\<lambda>j. \<not> same_item i j) t, find (same_item i) t)), bt_items = (\<lambda>t. t)\<rparr>"

lemma list_tree_lawful: "btree_lawful list_tree"
  by (simp add: btree_lawful_def list_tree_def)

lemma same_item_key: "same_item i j \<longleftrightarrow> ikey i = ikey j"
  by (auto simp: same_item_def item_less_def)

lemma btree_laws:
  assumes "btree_lawful T"
  shows "bt_items T (bt_new T d) = []" "bt_items T (bt_insert T i t) = put_item i (bt_items T t)"
    "bt_get T t i = find (same_item i) (bt_items T t)"
    "bt_delete T i t = (t', r) \<Longrightarrow> bt_items T t' = filter (\<lambda>j. \<not> same_item i j) (bt_items T t) \<and> r = find (same_item i) (bt_items T t)"
proof -
  show "bt_items T (bt_new T d) = []" "bt_items T (bt_insert T i t) = put_item i (bt_items T t)"
    "bt_get T t i = find (same_item i) (bt_items T t)" using assms by (simp_all add: btree_lawful_def)
  assume "bt_delete T i t = (t', r)"
  then show "bt_items T t' = filter (\<lambda>j. \<not> same_item i j) (bt_items T t) \<and> r = find (same_item i) (bt_items T t)"
    using assms unfolding btree_lawful_def by (metis fst_conv snd_conv)
qed

text \<open>The search by value has key 0, so what it finds does not depend on the value.\<close>

lemma user_tree_get_v_ignores_value: "btree_lawful T \<Longrightarrow> user_tree_get_v T t u = user_tree_get T t 0"
  by (simp add: user_tree_get_v_def user_tree_get_def btree_laws same_item_key [abs_def])

section \<open>Properties\<close>

text \<open>
  C8. After the bucket is created and users are written and removed in any order, \<open>getUser\<close> of a
  number is what the map of users says, but of the next number: nothing when the number is absent, the
  user itself reported as not found when only it is present, and its successor as found when both are.
  The repository's own account differs: the sample output of \<open>etcd/bbolt/README.md\<close> (line 58) has the query of 1002
  answered with user 1002, Bob, where this says that it is answered with user 1003, Cindy.
\<close>

theorem get_user_reads_next:
  assumes "bolt_lawful L" "codec_lawful c" "list_all user_write sts"
  shows "\<exists>s. for_range (exec L c (\<lambda>_. False)) \<lparr>rdb = None, out = [], txs = 0\<rparr> (InitBucket # sts) = (s, None) \<and>
    get_user L c i (rdb s) =
      (let m = users_after Map.empty sts
       in case m i of None \<Rightarrow> (no_user, False, None)
          | Some u \<Rightarrow> (case m (wrap64 (i + 1)) of None \<Rightarrow> (u, False, None) | Some v \<Rightarrow> (v, True, None)))"
proof -
  let ?s0 = "\<lparr>rdb = None, out = [], txs = 0\<rparr> :: 'a run"
  have v0: "rows_view L ?s0 = \<lparr>rdb = None, out = [], txs = 0\<rparr>" by (simp add: rows_view_def)
  have fits: "stmt_fits c st" if "user_write st" for st using that by (cases st) auto
  have "list_all (stmt_fits c) (InitBucket # sts)"
    using assms(3) fits by (auto intro: list.pred_mono_strong)
  note sim = run_rows [OF assms(1,2) this, of "\<lambda>_. False" ?s0, unfolded v0]
  have e: "represents c [] Map.empty" by (simp add: represents_def)
  obtain s' rows' where r: "for_range (exec list_lib c (\<lambda>_. False)) \<lparr>rdb = Some [], out = [], txs = 1\<rparr> sts = (s', None)"
      "rdb s' = Some rows'" "represents c rows' (users_after Map.empty sts)"
    using writes_represent [OF assms(2,3) _ e, of "\<lparr>rdb = Some [], out = [], txs = 1\<rparr>"] by fastforce
  have "for_range (exec list_lib c (\<lambda>_. False)) \<lparr>rdb = None, out = [], txs = 0\<rparr> (InitBucket # sts) = (s', None)"
    using r(1) by (simp add: exec_defs)
  with sim obtain s where s: "for_range (exec L c (\<lambda>_. False)) ?s0 (InitBucket # sts) = (s, None)" "rows_view L s = s'"
    by (cases "for_range (exec L c (\<lambda>_. False)) ?s0 (InitBucket # sts)") (metis id_apply map_prod_simp prod.inject)
  moreover have "map_option (bk_rows L) (rdb s) = Some rows'" using s(2) r(2) by (auto simp: rows_view_def)
  then have "get_user L c i (rdb s) = get_user list_lib c i (Some rows')"
    by (simp only: get_user_rows [OF assms(1), of c i "rdb s"])
  ultimately show ?thesis using get_user_represents [OF assms(2) r(3), of i] by (simp add: Let_def)
qed

lemma get_user_reads_next_witness:
  "\<exists>s. for_range (exec list_lib csv_codec (\<lambda>_. False)) \<lparr>rdb = None, out = [], txs = 0\<rparr> [InitBucket, Upsert bob, Upsert cindy, Upsert alice, Remove 1001] = (s, None) \<and>
     get_user list_lib csv_codec 1002 (rdb s) = (cindy, True, None)"
  using get_user_reads_next [OF list_lib_lawful csv_codec_lawful, of "[Upsert bob, Upsert cindy, Upsert alice, Remove 1001]" 1002]
  by (simp add: demo_plain Let_def wrap64_demo)

text \<open>
  The first run of the program over an empty database ends without an error, having answered the
  queries for 1002 with user 1003; the second run over what it left stops at its first listing,
  because the index entries written at the end do not decode as users.
\<close>

lemma users_second_run_fails:
  assumes "bolt_lawful L" "codec_lawful c"
  shows "\<exists>s1 s2. users_main L c (\<lambda>_. False) None = (s1, None) \<and>
    out s1 = [Row ''1001'' alice, Row ''1002'' bob, Row ''1003'' cindy, Hit cindy, Hit cindy, Gone 1001, Miss 1001,
              Row ''1002'' bob2, Row ''1003'' cindy, Hit cindy] \<and>
    users_main L c (\<lambda>_. False) (rdb s1) = (s2, Some UnmarshalFailed)"
proof -
  have fits: "list_all (stmt_fits c) users_script"
    using demo_plain short_itoa [of 0] short_itoa [of 1] class_plain
    by (simp add: users_script_def users_start_def users_rest_def row_fits_def bad_verb_def list_all_iff)
  have sim: "users_main list_lib c (\<lambda>_. False) (map_option (bk_rows L) db) = map_prod (rows_view L) id (users_main L c (\<lambda>_. False) db)" for db
    using run_rows [OF assms fits, of "\<lambda>_. False" "\<lparr>rdb = db, out = [], txs = 0\<rparr>"]
    by (simp add: users_main_def rows_view_def)
  obtain s rows where s: "users_main list_lib c (\<lambda>_. False) None = (s, None)" "rdb s = Some rows"
      "out s = [Row ''1001'' alice, Row ''1002'' bob, Row ''1003'' cindy, Hit cindy, Hit cindy, Gone 1001, Miss 1001,
              Row ''1002'' bob2, Row ''1003'' cindy, Hit cindy]" "map_of rows ''idx_test'' = Some ''huyun''"
    using main_rows [OF assms(2)] by blast
  obtain s1 where s1: "users_main L c (\<lambda>_. False) None = (s1, None)" "rows_view L s1 = s"
    using sim [of None] s(1) by (cases "users_main L c (\<lambda>_. False) None") auto
  have "map_option (bk_rows L) (rdb s1) = Some rows" using s1(2) s(2) by (auto simp: rows_view_def)
  then obtain s2 where "users_main L c (\<lambda>_. False) (rdb s1) = (s2, Some UnmarshalFailed)"
    using sim [of "rdb s1"] start_keeps_idx [OF assms(2) s(4)]
    by (cases "users_main L c (\<lambda>_. False) (rdb s1)") auto
  moreover have "out s1 = out s" using s1(2) by (auto simp: rows_view_def)
  ultimately show ?thesis using s1(1) s(3) by (metis (no_types))
qed

lemma users_second_run_fails_witness:
  "\<exists>s1 s2. users_main list_lib csv_codec (\<lambda>_. False) None = (s1, None) \<and> Hit cindy \<in> set (out s1) \<and>
     users_main list_lib csv_codec (\<lambda>_. False) (rdb s1) = (s2, Some UnmarshalFailed)"
  using users_second_run_fails [OF list_lib_lawful csv_codec_lawful] by fastforce

text \<open>
  The tree program over any lawful tree: it lists the users in the order of their numbers, finds user
  1002 by number but not by value, and after the update and the deletion lists what is left.
\<close>

lemma tree_main_prints:
  assumes "btree_lawful T"
  shows "tree_main T = [TRows [alice, bob, cindy], TFound bob, TMissing 1002, TFound bob2, TDeleted 1001, TMissing 1001,
           TRows [bob2, cindy]]"
proof -
  obtain t r where d: "bt_delete T \<lparr>ikey = 1001, ivalue = no_user\<rparr>
      (tree_upsert T bob2 (tree_upsert T cindy (tree_upsert T bob (tree_upsert T alice (bt_new T 3))))) = (t, r)"
    by (cases "bt_delete T \<lparr>ikey = 1001, ivalue = no_user\<rparr>
      (tree_upsert T bob2 (tree_upsert T cindy (tree_upsert T bob (tree_upsert T alice (bt_new T 3)))))")
  show ?thesis
    using d btree_laws(4) [OF assms d]
    by (simp add: tree_main_def tree_delete_def tree_upsert_def user_tree_get_def user_tree_get_v_def tree_rows_def
        btree_laws(1-3) [OF assms] same_item_key item_less_def)
qed

end
