(* ===== verification/MysqlBatch.thy ===== *)
theory MysqlBatch
  imports GoText
begin

text \<open>
  The batch insertion of \<open>mysql/main.go\<close> and the configuration of \<open>mysql/config.go\<close>. The server is a
  record of parameters whose \<open>tx_exec\<close> is \<open>tx.Exec\<close> within the transaction; the transaction works on a
  copy of the database, which a commit installs and a rollback drops. The random source is a
  parameter with a state of its own, so the type of a score is the parameter's.
\<close>

section \<open>Configuration\<close>

record mysql_config =
  db_host :: string
  db_port :: int
  db_user :: string
  db_password :: string
  db_name :: string
  batch_size :: int
  num_records :: int

definition get_env :: "(string \<Rightarrow> string) \<Rightarrow> string \<Rightarrow> string \<Rightarrow> string" where
  "get_env env key dflt = (let v = env key in if v = [] then dflt else v)"

definition get_env_as_int :: "(string \<Rightarrow> string) \<Rightarrow> string \<Rightarrow> int \<Rightarrow> int" where
  "get_env_as_int env key dflt =
     (let v = get_env env key []
      in if v = [] then dflt else (case atoi v of None \<Rightarrow> dflt | Some i \<Rightarrow> i))"

definition mysql_load_config :: "(string \<Rightarrow> string) \<Rightarrow> mysql_config" where
  "mysql_load_config env =
     \<lparr>db_host = get_env env ''DB_HOST'' ''127.0.0.1'',
      db_port = get_env_as_int env ''DB_PORT'' 3306,
      db_user = get_env env ''DB_USER'' ''root'',
      db_password = get_env env ''DB_PASSWORD'' ''password'',
      db_name = get_env env ''DB_NAME'' ''testdb'',
      batch_size = get_env_as_int env ''BATCH_SIZE'' 1000,
      num_records = get_env_as_int env ''NUM_RECORDS'' 1000\<rparr>"

definition dsn :: "mysql_config \<Rightarrow> string" where
  "dsn c = db_user c @ '':'' @ db_password c @ ''@tcp('' @ db_host c @ '':'' @ itoa (db_port c) @ '')/'' @ db_name c"

section \<open>The data\<close>

record 'f test_data =
  td_id :: int
  td_name :: string
  td_age :: int
  td_score :: 'f

record ('r, 'f) rng =
  intn :: "int \<Rightarrow> 'r \<Rightarrow> int \<times> 'r"
  score100 :: "'r \<Rightarrow> 'f \<times> 'r"   \<comment> \<open>\<open>r.Float64() * 100\<close>\<close>

fun fill :: "('r, 'f) rng \<Rightarrow> nat \<Rightarrow> nat \<Rightarrow> 'r \<Rightarrow> 'f test_data list" where
  "fill R i 0 r = []"
| "fill R i (Suc k) r =
     (let (a, r) = intn R 50 r; (sc, r) = score100 R r
      in \<lparr>td_id = int i + 1, td_name = ''User'' @ itoa (int i + 1), td_age = a + 18, td_score = sc\<rparr> # fill R (i + 1) k r)"

text \<open>\<open>make\<close> of a negative length panics.\<close>

definition generate_test_data :: "('r, 'f) rng \<Rightarrow> int \<Rightarrow> 'r \<Rightarrow> 'f test_data list option" where
  "generate_test_data R n r = (if n < 0 then None else Some (fill R 0 (nat n) r))"

section \<open>The insertion\<close>

datatype 'f sql_value = SqlString string | SqlInt int | SqlFloat 'f

record ('d, 'f) server =
  can_begin :: bool
  tx_exec :: "string \<Rightarrow> 'f sql_value list \<Rightarrow> 'd \<Rightarrow> (string, 'd) result"
  can_commit :: bool

datatype insert_result = Inserted | BeginFailed | ExecFailed string string | CommitFailed | SlicePanic

definition insert_head :: string where
  "insert_head = ''INSERT INTO test (name, age, score) VALUES ''"

text \<open>The inner loop, from record \<open>j\<close> of the batch on.\<close>

fun build_statement :: "nat \<Rightarrow> 'f test_data list \<Rightarrow> string \<times> 'f sql_value list \<Rightarrow> string \<times> 'f sql_value list" where
  "build_statement j [] acc = acc"
| "build_statement j (rec # recs) (query, params) =
     build_statement (j + 1) recs
       ((if j > 0 then query @ '', '' else query) @ ''(?, ?, ?)'',
        params @ [SqlString (td_name rec), SqlInt (td_age rec), SqlFloat (td_score rec)])"

text \<open>The loop over the batches. A batch size of 0 does not advance \<open>i\<close>, so the loop is partial.\<close>

partial_function (option) insert_loop ::
    "('d, 'f) server \<Rightarrow> int \<Rightarrow> 'f test_data list \<Rightarrow> int \<Rightarrow> 'd \<Rightarrow> ('d \<times> insert_result option) option" where
  "insert_loop S bsize recs i d =
     (if int (length recs) \<le> i then Some (d, None)
      else
        (let e = (if i + bsize > int (length recs) then int (length recs) else i + bsize)
         in if i < 0 \<or> e < i then Some (d, Some SlicePanic)
            else
              (let batch = take (nat (e - i)) (drop (nat i) recs);
                   (query, params) = build_statement 0 batch (insert_head, [])
               in case tx_exec S query params d of
                    Inl msg \<Rightarrow> Some (d, Some (ExecFailed msg query))
                  | Inr d' \<Rightarrow> insert_loop S bsize recs (i + bsize) d')))"

definition batch_insert :: "('d, 'f) server \<Rightarrow> 'f test_data list \<Rightarrow> int \<Rightarrow> 'd \<Rightarrow> ('d \<times> insert_result) option" where
  "batch_insert S recs bsize db =
     (if \<not> can_begin S then Some (db, BeginFailed)
      else
        (case insert_loop S bsize recs 0 db of
           None \<Rightarrow> None
         | Some (tx, Some r) \<Rightarrow> Some (db, r)
         | Some (tx, None) \<Rightarrow> Some (if can_commit S then (tx, Inserted) else (db, CommitFailed))))"

datatype mysql_error = OpenFailed | PingFailed | CreateFailed string | MakePanic | InsertFailed insert_result

definition create_table :: string where
  "create_table =
     nl # tab # ''CREATE TABLE IF NOT EXISTS test ('' @
     nl # tab # tab # ''id INT AUTO_INCREMENT PRIMARY KEY,'' @
     nl # tab # tab # ''name VARCHAR(100) NOT NULL,'' @
     nl # tab # tab # ''age INT NOT NULL,'' @
     nl # tab # tab # ''score FLOAT NOT NULL'' @
     nl # tab # '')'' @ [nl, tab]"

text \<open>\<open>main\<close>: \<open>open_ok\<close> and \<open>ping_ok\<close> say whether the driver accepts the DSN and the server answers;
\<open>exec_db\<close> is \<open>db.Exec\<close>, outside any transaction. The result is the number reported.\<close>

definition mysql_main ::
    "(string \<Rightarrow> string) \<Rightarrow> (string \<Rightarrow> bool) \<Rightarrow> bool \<Rightarrow> (string \<Rightarrow> 'd \<Rightarrow> (string, 'd) result) \<Rightarrow> ('d, 'f) server \<Rightarrow>
     ('r, 'f) rng \<Rightarrow> 'r \<Rightarrow> 'd \<Rightarrow> ('d \<times> (mysql_error, int) result) option" where
  "mysql_main env open_ok ping_ok exec_db S R r d =
     (let c = mysql_load_config env
      in if \<not> open_ok (dsn c) then Some (d, Inl OpenFailed)
         else if \<not> ping_ok then Some (d, Inl PingFailed)
         else
           (case exec_db create_table d of
              Inl msg \<Rightarrow> Some (d, Inl (CreateFailed msg))
            | Inr d \<Rightarrow>
                (case generate_test_data R (num_records c) r of
                   None \<Rightarrow> Some (d, Inl MakePanic)
                 | Some recs \<Rightarrow>
                     (case batch_insert S recs (batch_size c) d of
                        None \<Rightarrow> None
                      | Some (d, Inserted) \<Rightarrow> Some (d, Inr (num_records c))
                      | Some (d, res) \<Rightarrow> Some (d, Inl (InsertFailed res))))))"

section \<open>Lemmas\<close>

definition row_tuple :: "nat \<Rightarrow> string" where
  "row_tuple n = join_with '', '' (replicate n ''(?, ?, ?)'')"

definition row_params :: "'f test_data \<Rightarrow> 'f sql_value list" where
  "row_params rec = [SqlString (td_name rec), SqlInt (td_age rec), SqlFloat (td_score rec)]"

text \<open>The statement of a batch: as many tuples as records, and their columns in order.\<close>

definition batch_statement :: "'f test_data list \<Rightarrow> string \<times> 'f sql_value list" where
  "batch_statement batch = (insert_head @ row_tuple (length batch), concat (map row_params batch))"

lemma build_more:
  "0 < j \<Longrightarrow> build_statement j recs (q, ps) =
     (q @ concat (replicate (length recs) ('', '' @ ''(?, ?, ?)'')), ps @ concat (map row_params recs))"
  by (induction recs arbitrary: j q ps) (simp_all add: row_params_def)

lemma row_tuple_Suc: "row_tuple (Suc n) = ''(?, ?, ?)'' @ concat (replicate n ('', '' @ ''(?, ?, ?)''))"
proof (induction n)
  case 0
  then show ?case by (simp add: row_tuple_def)
next
  case (Suc n)
  then show ?case by (simp add: row_tuple_def)
qed

lemma build_statement_batch: "batch \<noteq> [] \<Longrightarrow> build_statement 0 batch (insert_head, []) = batch_statement batch"
  by (cases batch) (simp_all add: build_more batch_statement_def row_tuple_Suc row_params_def)

lemma build_statement_empty: "build_statement 0 [] (insert_head, []) = (insert_head, [])"
  by simp

text \<open>The statements of a batch size are run in order, up to the first that fails.\<close>

fun run_statements :: "('d, 'f) server \<Rightarrow> 'f test_data list list \<Rightarrow> 'd \<Rightarrow> 'd \<times> insert_result option" where
  "run_statements S [] d = (d, None)"
| "run_statements S (b # bs) d =
     (case tx_exec S (fst (batch_statement b)) (snd (batch_statement b)) d of
        Inl msg \<Rightarrow> (d, Some (ExecFailed msg (fst (batch_statement b))))
      | Inr d' \<Rightarrow> run_statements S bs d')"

lemma insert_loop_batches:
  assumes n: "0 < n"
  shows "insert_loop S (int n) recs (int i) d = Some (run_statements S (batches_from n i recs) d)"
  using n
proof (induction n i recs arbitrary: d rule: batches_from.induct)
  case (1 n i recs)
  show ?case
  proof (cases "i < length recs")
    case False
    then show ?thesis by (subst insert_loop.simps) (simp add: batches_from_stop)
  next
    case True
    let ?batch = "take n (drop i recs)"
    let ?e = "if int i + int n > int (length recs) then int (length recs) else int i + int n"
    have ne: "?batch \<noteq> []" using True 1(2) by simp
    have c: "(int (length recs) \<le> int i) = False" "(int i < 0 \<or> ?e < int i) = False" using True by auto
    have e: "take (nat (?e - int i)) (drop (nat (int i)) recs) = ?batch" by auto
    have step: "insert_loop S (int n) recs (int i) d =
        (case tx_exec S (fst (batch_statement ?batch)) (snd (batch_statement ?batch)) d of
           Inl msg \<Rightarrow> Some (d, Some (ExecFailed msg (fst (batch_statement ?batch))))
         | Inr d' \<Rightarrow> insert_loop S (int n) recs (int i + int n) d')"
      by (subst insert_loop.simps)
        (simp only: Let_def c e if_False build_statement_batch [OF ne] case_prod_unfold)
    have "insert_loop S (int n) recs (int i + int n) d' = Some (run_statements S (batches_from n (i + n) recs) d')" for d'
      using 1(1) [of _ d'] 1(2) True by simp
    then show ?thesis
      unfolding step using True 1(2) by (simp add: batches_from_step split: sum.split)
  qed
qed

text \<open>What the documentation of MySQL promises of the table: a statement that succeeds has appended its
rows, and has at least one tuple and at most 65535 placeholders. A server that is \<open>reliable\<close> refuses no
other statement; one that is not may fail at any (a deadlock, a lost connection).\<close>

definition fitting :: "'f test_data list \<Rightarrow> bool" where
  "fitting b = (b \<noteq> [] \<and> 3 * length b \<le> 65535)"

definition accepts :: "('d, 'f) server \<Rightarrow> ('d \<Rightarrow> 'f sql_value list list) \<Rightarrow> bool \<Rightarrow> bool" where
  "accepts S rows reliable =
     (\<forall>b d. case tx_exec S (fst (batch_statement b)) (snd (batch_statement b)) d of
              Inl msg \<Rightarrow> \<not> (reliable \<and> fitting b)
            | Inr d' \<Rightarrow> fitting b \<and> rows d' = rows d @ map row_params b)"

lemma accepts_cases:
  assumes "accepts S rows reliable"
  obtains msg where "tx_exec S (fst (batch_statement b)) (snd (batch_statement b)) d = Inl msg" "\<not> (reliable \<and> fitting b)"
  | d' where "tx_exec S (fst (batch_statement b)) (snd (batch_statement b)) d = Inr d'" "fitting b"
      "rows d' = rows d @ map row_params b"
  using assms [unfolded accepts_def, rule_format, of b d]
  by (cases "tx_exec S (fst (batch_statement b)) (snd (batch_statement b)) d") auto

definition exec_failure :: "insert_result option \<Rightarrow> bool" where
  "exec_failure r = (case r of Some (ExecFailed msg q) \<Rightarrow> True | _ \<Rightarrow> False)"

lemma run_statements_result:
  assumes "accepts S rows reliable"
  shows "case run_statements S bs d of
      (d', None) \<Rightarrow> list_all fitting bs \<and> rows d' = rows d @ map row_params (concat bs)
    | (d', r) \<Rightarrow> exec_failure r \<and> \<not> (reliable \<and> list_all fitting bs)"
proof (induction bs arbitrary: d)
  case Nil
  then show ?case by simp
next
  case (Cons b bs)
  show ?case
  proof (rule accepts_cases [OF assms, of b d])
    fix d' assume "tx_exec S (fst (batch_statement b)) (snd (batch_statement b)) d = Inr d'" "fitting b"
      "rows d' = rows d @ map row_params b"
    then show ?thesis using Cons.IH [of d'] by (auto split: prod.splits option.splits)
  qed (auto simp: exec_failure_def)
qed

lemma insert_loop_zero:
  assumes "accepts S rows reliable" "recs \<noteq> []"
  shows "\<exists>msg q. insert_loop S 0 recs 0 d = Some (d, Some (ExecFailed msg q))"
proof -
  have b: "batch_statement (take 0 recs) = (insert_head, [])" by (simp add: batch_statement_def row_tuple_def)
  have "\<not> fitting (take 0 recs)" by (simp add: fitting_def)
  then obtain msg where "tx_exec S insert_head [] d = Inl msg"
    using assms(1) [unfolded accepts_def, rule_format, of "take 0 recs" d, unfolded b]
    by (cases "tx_exec S insert_head [] d") simp_all
  then show ?thesis using assms(2) by (subst insert_loop.simps) (simp add: Let_def)
qed

lemma insert_loop_negative: "bs < 0 \<Longrightarrow> recs \<noteq> [] \<Longrightarrow> insert_loop S bs recs 0 d = Some (d, Some SlicePanic)"
  by (subst insert_loop.simps) (simp add: Let_def)

lemma insert_loop_none: "insert_loop S bs [] 0 d = Some (d, None)"
  by (subst insert_loop.simps) simp

lemma length_in_concat: "b \<in> set bs \<Longrightarrow> length b \<le> length (concat bs)"
  by (induction bs) auto

section \<open>Properties\<close>

text \<open>
  C12. The insertion always returns and is all or nothing, whichever statement the server refuses: either
  every record is in the table, in order, or the database is as it was. With a reliable server it succeeds
  exactly when there is nothing to insert or the batch size is positive and a batch has at most 21845
  records; a negative size panics.
\<close>

theorem batch_insert_all_or_nothing:
  assumes "accepts S rows reliable"
  shows "\<exists>db' r. batch_insert S recs bs db = Some (db', r) \<and>
    (if r = Inserted then rows db' = rows db @ map row_params recs else db' = db) \<and>
    (r = Inserted \<longrightarrow> recs = [] \<or> 0 < bs \<and> min bs (int (length recs)) \<le> 21845) \<and>
    (reliable \<and> can_begin S \<and> can_commit S \<and> (recs = [] \<or> 0 < bs \<and> min bs (int (length recs)) \<le> 21845) \<longrightarrow> r = Inserted) \<and>
    (can_begin S \<longrightarrow> (r = SlicePanic \<longleftrightarrow> recs \<noteq> [] \<and> bs < 0))"
proof (cases "\<not> can_begin S \<or> recs = [] \<or> bs \<le> 0")
  case True
  consider "\<not> can_begin S" | "can_begin S" "recs = []" | "can_begin S" "recs \<noteq> []" "bs = 0"
    | "can_begin S" "recs \<noteq> []" "bs < 0" using True by linarith
  then show ?thesis
  proof cases
    case 3
    then obtain msg q where "insert_loop S bs recs 0 db = Some (db, Some (ExecFailed msg q))"
      using insert_loop_zero [OF assms 3(2), of db] by blast
    then show ?thesis using 3 by (simp add: batch_insert_def)
  qed (simp_all add: batch_insert_def insert_loop_none insert_loop_negative)
next
  case False
  define n where "n = nat bs"
  have n: "0 < n" "bs = int n" using False by (simp_all add: n_def)
  let ?bs = "batches_from n 0 recs"
  have loop: "insert_loop S bs recs 0 db = Some (run_statements S ?bs db)"
    using insert_loop_batches [OF n(1), of S recs 0 db] n(2) by simp
  have fit: "list_all fitting ?bs \<longleftrightarrow> min n (length recs) \<le> 21845"
  proof
    assume "list_all fitting ?bs"
    moreover have "?bs = take n recs # batches_from n n recs" using batches_from_step [OF n(1), of 0 recs] False by simp
    ultimately have "fitting (take n recs)" by simp
    then show "min n (length recs) \<le> 21845" by (simp add: fitting_def min.commute)
  next
    assume le: "min n (length recs) \<le> 21845"
    have "length b \<le> min n (length recs)" if "b \<in> set ?bs" for b
      using length_in_concat [OF that] batches_from_sizes [OF n(1) that] concat_batches_from [OF n(1), of 0 recs] by simp
    then show "list_all fitting ?bs" using le batches_from_sizes [OF n(1)] by (fastforce simp: list_all_iff fitting_def)
  qed
  have size: "min bs (int (length recs)) \<le> 21845 \<longleftrightarrow> min n (length recs) \<le> 21845" using n(2) by linarith
  obtain d' r where r: "run_statements S ?bs db = (d', r)" by (cases "run_statements S ?bs db")
  show ?thesis
  proof (cases r)
    case None
    then have "list_all fitting ?bs" "rows d' = rows db @ map row_params recs"
      using run_statements_result [OF assms, of ?bs db] r concat_batches_from [OF n(1), of 0 recs] by simp_all
    then show ?thesis using None r loop False fit size by (auto simp: batch_insert_def)
  next
    case (Some e)
    then have "exec_failure (Some e)" "\<not> (reliable \<and> list_all fitting ?bs)"
      using run_statements_result [OF assms, of ?bs db] r by simp_all
    then show ?thesis
      using Some r loop False fit size by (auto simp: batch_insert_def exec_failure_def split: insert_result.splits)
  qed
qed

text \<open>A table that reads its statements: three values a tuple.\<close>

fun triples :: "'a list \<Rightarrow> 'a list list" where
  "triples (a # b # c # xs) = [a, b, c] # triples xs"
| "triples _ = []"

definition table_server :: "(int sql_value list list, int) server" where
  "table_server =
     \<lparr>can_begin = True,
      tx_exec = (\<lambda>q ps d. if ps \<noteq> [] \<and> length ps \<le> 65535 \<and> q = insert_head @ row_tuple (length ps div 3)
                          then Inr (d @ triples ps) else Inl ''syntax''),
      can_commit = True\<rparr>"

lemma triples_params: "triples (concat (map row_params recs)) = map row_params recs"
  by (induction recs) (simp_all add: row_params_def)

lemma length_params: "length (concat (map row_params recs)) = 3 * length recs"
  by (induction recs) (simp_all add: row_params_def)

lemma params_Nil: "concat (map row_params recs) = [] \<longleftrightarrow> recs = []"
  by (cases recs) (simp_all add: row_params_def)

lemma table_server_accepts: "accepts table_server (\<lambda>d. d) True"
  by (auto simp: accepts_def table_server_def batch_statement_def triples_params length_params params_Nil fitting_def simp del: length_concat concat_eq_Nil_conv)

lemma batch_insert_all_or_nothing_witness:
  "\<exists>db'. batch_insert table_server [\<lparr>td_id = 5, td_name = ''User5'', td_age = 20, td_score = 7\<rparr>] 2 [] = Some (db', Inserted) \<and>
     db' = [[SqlString ''User5'', SqlInt 20, SqlFloat 7]]"
  using batch_insert_all_or_nothing [OF table_server_accepts, of "[\<lparr>td_id = 5, td_name = ''User5'', td_age = 20, td_score = 7\<rparr>]" 2 "[]"]
  by (auto simp: table_server_def row_params_def)

text \<open>The generated records: their numbers, names and ages.\<close>

lemma generated_records:
  assumes "\<And>r. 0 \<le> fst (intn R 50 r) \<and> fst (intn R 50 r) < 50" "generate_test_data R n r = Some recs"
  shows "int (length recs) = n \<and> map td_id recs = map int [1..<Suc (nat n)] \<and> list_all (\<lambda>d. 18 \<le> td_age d \<and> td_age d < 68) recs"
proof -
  have "length (fill R i k r) = k \<and> map td_id (fill R i k r) = map int [Suc i..<Suc (i + k)] \<and>
      list_all (\<lambda>d. 18 \<le> td_age d \<and> td_age d < 68) (fill R i k r)" for i k r
  proof (induction k arbitrary: i r)
    case 0
    then show ?case by simp
  next
    case (Suc k)
    have "[Suc i..<Suc (i + Suc k)] = Suc i # [Suc (Suc i)..<Suc (Suc i + k)]" by (simp add: upt_rec)
    moreover have "fst (intn R 50 r) + 18 \<ge> 18 \<and> fst (intn R 50 r) + 18 < 68" using assms(1) [of r] by simp
    ultimately show ?case
      using Suc.IH [of "Suc i"] by (simp add: case_prod_unfold Let_def del: upt_Suc)
  qed
  from this [of 0 "nat n" r] show ?thesis using assms(2) by (simp add: generate_test_data_def split: if_splits)
qed

end
