(* ===== verification/Informer410.thy ===== *)
theory Informer410
  imports GoText
begin

text \<open>
  The demonstration of recovery from \<open>410 Gone\<close>, \<open>client-go/informer-410-gone-real/main.go\<close>. The
  Kubernetes API is the record \<open>kube\<close> of its calls over a state \<open>'w\<close>; what the documentation says of
  them is \<open>kube_lawful\<close>. A watch yields the list of what the select of \<open>watchOnce\<close> receives. Log lines
  are left out.
\<close>

section \<open>Objects and calls\<close>

record config_map =
  cm_ns :: string
  cm_name :: string
  cm_rv :: string
  cm_labels :: "(string \<rightharpoonup> string) option"   \<comment> \<open>\<open>None\<close> is the nil map\<close>
  cm_data :: "(string \<rightharpoonup> string) option"

text \<open>What \<open>apierrors\<close> distinguishes: \<open>IsNotFound\<close>, \<open>IsGone\<close>, \<open>IsResourceExpired\<close> and the rest.\<close>

datatype kube_error = NotFound | GoneError | ExpiredError | OtherError string

datatype kobject = StatusObj int string string | MetaObj string string string | OtherObj string

datatype event_type = Added | Modified | Deleted | Bookmark | WatchError

datatype seen = CtxDone | Closed | Event event_type kobject

record list_opts =
  label_selector :: string
  field_selector :: string
  list_rv :: string
  timeout_seconds :: "int option"
  bookmarks :: bool

record 'w kube =
  get_cm :: "string \<Rightarrow> string \<Rightarrow> 'w \<Rightarrow> 'w \<times> (kube_error, config_map) result"
  create_cm :: "string \<Rightarrow> config_map \<Rightarrow> 'w \<Rightarrow> 'w \<times> kube_error option"
  update_cm :: "string \<Rightarrow> config_map \<Rightarrow> 'w \<Rightarrow> 'w \<times> kube_error option"
  delete_cm :: "string \<Rightarrow> string \<Rightarrow> 'w \<Rightarrow> 'w \<times> kube_error option"
  list_cm :: "string \<Rightarrow> list_opts \<Rightarrow> 'w \<Rightarrow> 'w \<times> (kube_error, config_map list \<times> string) result"
  watch_cm :: "string \<Rightarrow> list_opts \<Rightarrow> 'w \<Rightarrow> 'w \<times> (kube_error, seen list) result"
  delete_cms :: "string \<Rightarrow> list_opts \<Rightarrow> 'w \<Rightarrow> 'w \<times> kube_error option"
  get_ns :: "string \<Rightarrow> 'w \<Rightarrow> 'w \<times> kube_error option"
  create_ns :: "string \<Rightarrow> 'w \<Rightarrow> 'w \<times> kube_error option"

section \<open>Small functions\<close>

definition demo_label_key :: string where "demo_label_key = ''app.kubernetes.io/name''"
definition demo_label_value :: string where "demo_label_value = ''informer-410-gone-real''"

definition demo_label_selector :: string where
  "demo_label_selector = demo_label_key @ ''='' @ demo_label_value"

definition is_gone_error :: "kube_error option \<Rightarrow> bool" where
  "is_gone_error e = (e = Some GoneError)"

definition is_gone_object :: "kobject \<Rightarrow> bool" where
  "is_gone_object ob = (case ob of StatusObj code reason _ \<Rightarrow> code = 410 \<or> reason = ''Expired'' | _ \<Rightarrow> False)"

text \<open>\<open>quote\<close> is the verb \<open>%q\<close>; the name of a type is what \<open>%T\<close> prints.\<close>

definition status_message :: "(string \<Rightarrow> string) \<Rightarrow> kobject \<Rightarrow> string" where
  "status_message quote ob =
     (case ob of
        StatusObj code reason msg \<Rightarrow> ''code='' @ itoa code @ '' reason='' @ reason @ '' message='' @ quote msg
      | MetaObj _ _ _ \<Rightarrow> ''*v1.ConfigMap''
      | OtherObj ty \<Rightarrow> ty)"

definition object_name :: "kobject \<Rightarrow> string" where
  "object_name ob =
     (case ob of
        MetaObj ns name rv \<Rightarrow> ns @ ''/'' @ name @ '' rv='' @ rv
      | StatusObj _ _ _ \<Rightarrow> ''*v1.Status''
      | OtherObj ty \<Rightarrow> ty)"

definition plain_opts :: list_opts where
  "plain_opts = \<lparr>label_selector = demo_label_selector, field_selector = [], list_rv = [], timeout_seconds = None, bookmarks = False\<rparr>"

definition list_demo :: "'w kube \<Rightarrow> string \<Rightarrow> 'w \<Rightarrow> 'w \<times> (kube_error, config_map list \<times> string) result" where
  "list_demo K ns = list_cm K ns plain_opts"

definition cleanup_demo :: "'w kube \<Rightarrow> string \<Rightarrow> 'w \<Rightarrow> 'w \<times> kube_error option" where
  "cleanup_demo K ns = delete_cms K ns plain_opts"

definition ensure_namespace :: "'w kube \<Rightarrow> string \<Rightarrow> 'w \<Rightarrow> 'w \<times> kube_error option" where
  "ensure_namespace K ns w =
     (case get_ns K ns w of
        (w, None) \<Rightarrow> (w, None)
      | (w, Some NotFound) \<Rightarrow> create_ns K ns w
      | (w, Some e) \<Rightarrow> (w, Some e))"

section \<open>Churn\<close>

definition create_or_update :: "'w kube \<Rightarrow> string \<Rightarrow> string \<Rightarrow> string \<Rightarrow> 'w \<Rightarrow> 'w \<times> kube_error option" where
  "create_or_update K ns name v w =
     (case get_cm K ns name w of
        (w, Inl NotFound) \<Rightarrow>
          create_cm K ns \<lparr>cm_ns = ns, cm_name = name, cm_rv = [], cm_labels = Some [demo_label_key \<mapsto> demo_label_value],
                          cm_data = Some [''value'' \<mapsto> v]\<rparr> w
      | (w, Inl e) \<Rightarrow> (w, Some e)
      | (w, Inr existing) \<Rightarrow>
          (let labels = (case cm_labels existing of None \<Rightarrow> Map.empty | Some m \<Rightarrow> m);
               existing = existing\<lparr>cm_labels := Some (labels(demo_label_key \<mapsto> demo_label_value))\<rparr>;
               dat = (case cm_data existing of None \<Rightarrow> Map.empty | Some m \<Rightarrow> m);
               existing = existing\<lparr>cm_data := Some (dat(''value'' \<mapsto> v))\<rparr>
           in update_cm K ns existing w))"

text \<open>\<open>%05d\<close> of a natural number.\<close>

definition pad5 :: "nat \<Rightarrow> string" where
  "pad5 n = (let ds = nat_digits n in replicate (5 - length ds) (CHR ''0'') @ ds)"

definition churn_name :: "nat \<Rightarrow> string" where
  "churn_name i = ''rv-churn-'' @ pad5 i"

datatype demo_error =
  ApiError kube_error
| CreateUpdateFailed string kube_error
| DeleteFailed string kube_error
| CaptureFailed kube_error
| StartWatchFailed kube_error
| WatchEventFailed string
| ContextDone
| RelistFailed kube_error
| NotSynced
| UnknownMode string
| ClientFailed
| NamespaceFailed kube_error

definition churn_one :: "'w kube \<Rightarrow> string \<Rightarrow> 'w \<Rightarrow> nat \<Rightarrow> 'w \<times> demo_error option" where
  "churn_one K ns w i =
     (let name = churn_name i
      in case create_or_update K ns name (itoa (int i)) w of
           (w, Some e) \<Rightarrow> (w, Some (CreateUpdateFailed name e))
         | (w, None) \<Rightarrow>
             if i mod 2 = 1 then
               (case delete_cm K ns name w of
                  (w, None) \<Rightarrow> (w, None)
                | (w, Some NotFound) \<Rightarrow> (w, None)
                | (w, Some e) \<Rightarrow> (w, Some (DeleteFailed name e)))
             else (w, None))"

definition churn_config_maps :: "'w kube \<Rightarrow> string \<Rightarrow> int \<Rightarrow> 'w \<Rightarrow> 'w \<times> demo_error option" where
  "churn_config_maps K ns n w = for_range (churn_one K ns) w [0..<nat n]"

section \<open>Watching\<close>

text \<open>The loop over what the select receives; \<open>None\<close> while it is still waiting.\<close>

fun watch_loop :: "(string \<Rightarrow> string) \<Rightarrow> seen list \<Rightarrow> (demo_error, bool) result option" where
  "watch_loop quote [] = None"
| "watch_loop quote (CtxDone # _) = Some (Inl ContextDone)"
| "watch_loop quote (Closed # _) = Some (Inr False)"
| "watch_loop quote (Event ty ob # rest) =
     (if ty = WatchError then
        if is_gone_object ob then Some (Inr True) else Some (Inl (WatchEventFailed (status_message quote ob)))
      else watch_loop quote rest)"

definition watch_opts :: "string \<Rightarrow> int \<Rightarrow> list_opts" where
  "watch_opts rv secs =
     \<lparr>label_selector = demo_label_selector, field_selector = [], list_rv = rv, timeout_seconds = Some secs, bookmarks = True\<rparr>"

definition watch_once ::
    "'w kube \<Rightarrow> (string \<Rightarrow> string) \<Rightarrow> string \<Rightarrow> string \<Rightarrow> int \<Rightarrow> 'w \<Rightarrow> ('w \<times> (demo_error, bool) result) option" where
  "watch_once K quote ns rv secs w =
     (case watch_cm K ns (watch_opts rv secs) w of
        (w, Inl e) \<Rightarrow> if is_gone_error (Some e) then Some (w, Inr True) else Some (w, Inl (StartWatchFailed e))
      | (w, Inr evs) \<Rightarrow> map_option (Pair w) (watch_loop quote evs))"

section \<open>The two modes\<close>

record options =
  kubeconfig :: string
  namespace :: string
  mode :: string
  resource_ver :: string
  churn :: int
  cleanup :: bool
  timeout :: int          \<comment> \<open>durations in seconds\<close>
  watch_timeout :: int
  informer_run_for :: int

text \<open>The defaults of the flags; \<open>flag.Parse\<close> is the argument that overrides them.\<close>

definition parse_flags :: "string \<Rightarrow> (options \<Rightarrow> options) \<Rightarrow> options" where
  "parse_flags home override =
     override
       \<lparr>kubeconfig = (if home \<noteq> [] then home @ ''/.kube/config'' else []), namespace = ''informer-410-demo'',
        mode = ''manual'', resource_ver = [], churn = 3000, cleanup = True, timeout = 180, watch_timeout = 20,
        informer_run_for = 45\<rparr>"

definition stale_resource_version :: "'w kube \<Rightarrow> options \<Rightarrow> 'w \<Rightarrow> 'w \<times> (demo_error, string) result" where
  "stale_resource_version K o1 w =
     (if resource_ver o1 \<noteq> [] then (w, Inr (resource_ver o1))
      else
        (case list_demo K (namespace o1) w of
           (w, Inl e) \<Rightarrow> (w, Inl (CaptureFailed e))
         | (w, Inr (items, rv)) \<Rightarrow>
             if churn o1 \<le> 0 then (w, Inr rv)
             else (case churn_config_maps K (namespace o1) (churn o1) w of
                     (w, Some e) \<Rightarrow> (w, Inl e)
                   | (w, None) \<Rightarrow> (w, Inr rv))))"

definition run_manual :: "'w kube \<Rightarrow> (string \<Rightarrow> string) \<Rightarrow> options \<Rightarrow> 'w \<Rightarrow> ('w \<times> demo_error option) option" where
  "run_manual K quote o1 w =
     (case stale_resource_version K o1 w of
        (w, Inl e) \<Rightarrow> Some (w, Some e)
      | (w, Inr stale_rv) \<Rightarrow>
          (case watch_once K quote (namespace o1) stale_rv (watch_timeout o1) w of
             None \<Rightarrow> None
           | Some (w, Inl e) \<Rightarrow> Some (w, Some e)
           | Some (w, Inr False) \<Rightarrow> Some (w, None)
           | Some (w, Inr True) \<Rightarrow>
               (case list_demo K (namespace o1) w of
                  (w, Inl e) \<Rightarrow> Some (w, Some (RelistFailed e))
                | (w, Inr (items, rv)) \<Rightarrow>
                    (case watch_once K quote (namespace o1) rv 5 w of
                       None \<Rightarrow> None
                     | Some (w, Inl e) \<Rightarrow> Some (w, Some e)
                     | Some (w, Inr _) \<Rightarrow> Some (w, None)))))"

text \<open>The two functions given to the informer; \<open>calls\<close> is \<open>watchCalls\<close>.\<close>

definition informer_list :: "'w kube \<Rightarrow> options \<Rightarrow> list_opts \<Rightarrow> 'w \<Rightarrow> 'w \<times> (kube_error, config_map list \<times> string) result" where
  "informer_list K o1 lo = list_cm K (namespace o1) (lo\<lparr>label_selector := demo_label_selector\<rparr>)"

definition informer_watch ::
    "'w kube \<Rightarrow> options \<Rightarrow> string \<Rightarrow> list_opts \<Rightarrow> nat \<times> 'w \<Rightarrow> (nat \<times> 'w) \<times> (kube_error, seen list) result" where
  "informer_watch K o1 stale_rv lo s =
     (let (calls, w) = s;
          call = calls + 1;
          lo = lo\<lparr>label_selector := demo_label_selector, timeout_seconds := Some (watch_timeout o1)\<rparr>;
          lo = (if call = 1 then lo\<lparr>list_rv := stale_rv\<rparr> else lo);
          (w, r) = watch_cm K (namespace o1) lo w
      in ((call, w), r))"

text \<open>The event handlers print a line. A delete may bring the last known state; anything else in it panics.\<close>

datatype handler_object = Live config_map | Tombstone "config_map option"

definition add_line :: "config_map \<Rightarrow> string" where
  "add_line cm = ''[handler] ADD '' @ cm_ns cm @ ''/'' @ cm_name cm @ '' rv='' @ cm_rv cm"

definition update_line :: "config_map \<Rightarrow> config_map \<Rightarrow> string" where
  "update_line old cm = ''[handler] UPDATE '' @ cm_ns cm @ ''/'' @ cm_name cm @ '' rv='' @ cm_rv cm"

definition delete_line :: "handler_object \<Rightarrow> string option" where
  "delete_line ob =
     map_option (\<lambda>cm. ''[handler] DELETE '' @ cm_ns cm @ ''/'' @ cm_name cm @ '' rv='' @ cm_rv cm)
       (case ob of Live cm \<Rightarrow> Some cm | Tombstone cm \<Rightarrow> cm)"

text \<open>The informer is the library's: \<open>reflect\<close> is what it does with the two functions until the run ends,
\<open>synced\<close> whether the cache was filled in time.\<close>

definition run_informer ::
    "'w kube \<Rightarrow> ((list_opts \<Rightarrow> 'w \<Rightarrow> 'w \<times> (kube_error, config_map list \<times> string) result) \<Rightarrow>
        (list_opts \<Rightarrow> nat \<times> 'w \<Rightarrow> (nat \<times> 'w) \<times> (kube_error, seen list) result) \<Rightarrow> nat \<times> 'w \<Rightarrow> nat \<times> 'w) \<Rightarrow>
     bool \<Rightarrow> bool \<Rightarrow> options \<Rightarrow> 'w \<Rightarrow> 'w \<times> demo_error option" where
  "run_informer K reflect handler_ok synced o1 w =
     (case stale_resource_version K o1 w of
        (w, Inl e) \<Rightarrow> (w, Some e)
      | (w, Inr stale_rv) \<Rightarrow>
          if \<not> handler_ok then (w, Some (ApiError (OtherError ''add event handler'')))
          else
            (let w = snd (reflect (informer_list K o1) (informer_watch K o1 stale_rv) (0, w))
             in if \<not> synced then (w, Some NotSynced)
                else (case create_or_update K (namespace o1) ''informer-after-recover'' ''after-recover'' w of
                        (w, Some e) \<Rightarrow> (w, Some (ApiError e))
                      | (w, None) \<Rightarrow> (w, None))))"

text \<open>\<open>new_client\<close> says whether the configuration builds a client.\<close>

definition new_clientset :: "(string \<Rightarrow> bool) \<Rightarrow> string \<Rightarrow> bool" where
  "new_clientset build kubeconf = (kubeconf \<noteq> [] \<and> build kubeconf)"

text \<open>\<open>main\<close>, up to its exit. The deferred clean-up runs when \<open>main\<close> returns; \<open>log.Fatalf\<close> exits the
process without running it.\<close>

definition demo_main ::
    "'w kube \<Rightarrow> (string \<Rightarrow> string) \<Rightarrow> (string \<Rightarrow> bool) \<Rightarrow> (options \<Rightarrow> 'w \<Rightarrow> 'w \<times> demo_error option) \<Rightarrow> options \<Rightarrow> 'w \<Rightarrow>
     ('w \<times> demo_error option) option" where
  "demo_main K quote build informer o1 w =
     (if \<not> new_clientset build (kubeconfig o1) then Some (w, Some ClientFailed)
      else
        (case ensure_namespace K (namespace o1) w of
           (w, Some e) \<Rightarrow> Some (w, Some (NamespaceFailed e))
         | (w, None) \<Rightarrow>
             (let run = (if mode o1 = ''manual'' then run_manual K quote o1 w
                         else if mode o1 = ''informer'' then Some (informer o1 w)
                         else Some (w, Some (UnknownMode (mode o1))))
              in case run of
                   None \<Rightarrow> None
                 | Some (w, Some e) \<Rightarrow> Some (w, Some e)
                 | Some (w, None) \<Rightarrow>
                     Some (if cleanup o1 then (fst (cleanup_demo K (namespace o1) w), None) else (w, None)))))"

section \<open>What the API promises\<close>

definition labelled :: "config_map \<Rightarrow> bool" where
  "labelled cm = (case cm_labels cm of None \<Rightarrow> False | Some m \<Rightarrow> m demo_label_key = Some demo_label_value)"

text \<open>\<open>view w\<close> gives the stored config maps. Calls of one client, one after the other, do not conflict:
an update carries the resource version just read.\<close>

definition kube_lawful :: "'w kube \<Rightarrow> ('w \<Rightarrow> string \<times> string \<rightharpoonup> config_map) \<Rightarrow> bool" where
  "kube_lawful K view =
     ((\<forall>w ns n. view (fst (get_cm K ns n w)) = view w \<and>
         snd (get_cm K ns n w) = (case view w (ns, n) of None \<Rightarrow> Inl NotFound | Some cm \<Rightarrow> Inr cm)) \<and>
      (\<forall>w ns n cm. view w (ns, n) = Some cm \<longrightarrow> cm_name cm = n) \<and>
      (\<forall>w ns cm. view w (ns, cm_name cm) = None \<longrightarrow>
         (\<exists>rv. view (fst (create_cm K ns cm w)) = (view w)((ns, cm_name cm) \<mapsto> cm\<lparr>cm_rv := rv\<rparr>)) \<and>
         snd (create_cm K ns cm w) = None) \<and>
      (\<forall>w ns cm. map_option cm_rv (view w (ns, cm_name cm)) = Some (cm_rv cm) \<longrightarrow>
         (\<exists>rv. view (fst (update_cm K ns cm w)) = (view w)((ns, cm_name cm) \<mapsto> cm\<lparr>cm_rv := rv\<rparr>)) \<and>
         snd (update_cm K ns cm w) = None) \<and>
      (\<forall>w ns n. view (fst (delete_cm K ns n w)) = (view w)((ns, n) := None) \<and>
         snd (delete_cm K ns n w) = (if view w (ns, n) = None then Some NotFound else None)) \<and>
      (\<forall>w ns. view (fst (delete_cms K ns plain_opts w)) =
         (\<lambda>k. case view w k of None \<Rightarrow> None | Some cm \<Rightarrow> if fst k = ns \<and> labelled cm then None else Some cm)))"

lemma kube_laws:
  assumes "kube_lawful K view"
  shows "get_cm K ns n w = (w', r) \<Longrightarrow> view w' = view w \<and> r = (case view w (ns, n) of None \<Rightarrow> Inl NotFound | Some cm \<Rightarrow> Inr cm)"
    and "view w (ns, n) = Some cm \<Longrightarrow> cm_name cm = n"
    and "view w (ns, cm_name cm) = None \<Longrightarrow>
      \<exists>rv w'. create_cm K ns cm w = (w', None) \<and> view w' = (view w)((ns, cm_name cm) \<mapsto> cm\<lparr>cm_rv := rv\<rparr>)"
    and "view w (ns, cm_name cm) = Some old \<Longrightarrow> cm_rv old = cm_rv cm \<Longrightarrow>
      \<exists>rv w'. update_cm K ns cm w = (w', None) \<and> view w' = (view w)((ns, cm_name cm) \<mapsto> cm\<lparr>cm_rv := rv\<rparr>)"
    and "view w (ns, n) \<noteq> None \<Longrightarrow> \<exists>w'. delete_cm K ns n w = (w', None) \<and> view w' = (view w)((ns, n) := None)"
proof -
  note L = assms [unfolded kube_lawful_def]
  show "get_cm K ns n w = (w', r) \<Longrightarrow> view w' = view w \<and> r = (case view w (ns, n) of None \<Rightarrow> Inl NotFound | Some cm \<Rightarrow> Inr cm)"
    using L [THEN conjunct1, rule_format, of ns n w] by simp
  show "view w (ns, n) = Some cm \<Longrightarrow> cm_name cm = n" using L by blast
  show "\<exists>rv w'. create_cm K ns cm w = (w', None) \<and> view w' = (view w)((ns, cm_name cm) \<mapsto> cm\<lparr>cm_rv := rv\<rparr>)"
    if "view w (ns, cm_name cm) = None"
    using L [THEN conjunct2, THEN conjunct2, THEN conjunct1, rule_format, OF that] by (cases "create_cm K ns cm w") auto
  show "\<exists>rv w'. update_cm K ns cm w = (w', None) \<and> view w' = (view w)((ns, cm_name cm) \<mapsto> cm\<lparr>cm_rv := rv\<rparr>)"
    if "view w (ns, cm_name cm) = Some old" "cm_rv old = cm_rv cm"
    using L [THEN conjunct2, THEN conjunct2, THEN conjunct2, THEN conjunct1, rule_format, of w ns cm] that
    by (cases "update_cm K ns cm w") auto
  show "\<exists>w'. delete_cm K ns n w = (w', None) \<and> view w' = (view w)((ns, n) := None)" if "view w (ns, n) \<noteq> None"
    using L [THEN conjunct2, THEN conjunct2, THEN conjunct2, THEN conjunct2, THEN conjunct1, rule_format, of ns n w] that
    by (cases "delete_cm K ns n w") auto
qed

section \<open>Lemmas\<close>

text \<open>What \<open>createOrUpdateConfigMap\<close> leaves under the name: the label set and the value.\<close>

definition holds_value :: "(string \<times> string \<rightharpoonup> config_map) \<Rightarrow> string \<Rightarrow> string \<Rightarrow> string \<Rightarrow> bool" where
  "holds_value m ns name v =
     (case m (ns, name) of
        None \<Rightarrow> False
      | Some cm \<Rightarrow> labelled cm \<and> (case cm_data cm of None \<Rightarrow> False | Some d \<Rightarrow> d ''value'' = Some v))"

lemma create_or_update_sets:
  assumes "kube_lawful K view"
  shows "\<exists>w'. create_or_update K ns name v w = (w', None) \<and> holds_value (view w') ns name v \<and>
           (\<forall>k. k \<noteq> (ns, name) \<longrightarrow> view w' k = view w k)"
proof -
  obtain w1 r where g: "get_cm K ns name w = (w1, r)" by (cases "get_cm K ns name w")
  note g' = kube_laws(1) [OF assms g]
  show ?thesis
  proof (cases "view w (ns, name)")
    case None
    let ?cm = "\<lparr>cm_ns = ns, cm_name = name, cm_rv = [], cm_labels = Some [demo_label_key \<mapsto> demo_label_value],
        cm_data = Some [''value'' \<mapsto> v]\<rparr>"
    have "view w1 (ns, cm_name ?cm) = None" using g' None by simp
    with kube_laws(3) [OF assms, of w1 ns ?cm] obtain rv w2 where "create_cm K ns ?cm w1 = (w2, None)"
      "view w2 = (view w1)((ns, name) \<mapsto> ?cm\<lparr>cm_rv := rv\<rparr>)" by auto
    then show ?thesis using g g' None by (auto simp: create_or_update_def holds_value_def labelled_def)
  next
    case (Some old)
    define cm where "cm = old\<lparr>cm_labels := Some ((case cm_labels old of None \<Rightarrow> Map.empty | Some m \<Rightarrow> m)(demo_label_key \<mapsto> demo_label_value)),
        cm_data := Some ((case cm_data old of None \<Rightarrow> Map.empty | Some m \<Rightarrow> m)(''value'' \<mapsto> v))\<rparr>"
    have n: "cm_name cm = name" "cm_rv old = cm_rv cm" using kube_laws(2) [OF assms Some] by (simp_all add: cm_def)
    then have "view w1 (ns, cm_name cm) = Some old" using g' Some by simp
    with kube_laws(4) [OF assms, of w1 ns cm old] n obtain rv w2 where "update_cm K ns cm w1 = (w2, None)"
      "view w2 = (view w1)((ns, name) \<mapsto> cm\<lparr>cm_rv := rv\<rparr>)" by auto
    then show ?thesis using g g' Some by (auto simp: create_or_update_def holds_value_def labelled_def Let_def cm_def)
  qed
qed

lemma churn_name_inj: "churn_name i = churn_name j \<Longrightarrow> i = j"
proof -
  have z: "digits_val (replicate k (CHR ''0'') @ ds) = digits_val ds" for k ds
    by (induction k) (simp_all add: digits_val_def digit_val_def)
  have "digits_val (pad5 n) = n" for n by (simp add: pad5_def Let_def z digits_val_nat_digits)
  then show "churn_name i = churn_name j \<Longrightarrow> i = j" by (metis churn_name_def same_append_eq)
qed

definition churned :: "(string \<times> string \<rightharpoonup> config_map) \<Rightarrow> string \<Rightarrow> nat \<Rightarrow> bool" where
  "churned m ns i =
     (if i mod 2 = 1 then m (ns, churn_name i) = None else holds_value m ns (churn_name i) (itoa (int i)))"

lemma churn_one_step:
  assumes L: "kube_lawful K view"
  shows "\<exists>w'. churn_one K ns w i = (w', None) \<and> churned (view w') ns i \<and>
           (\<forall>k. k \<noteq> (ns, churn_name i) \<longrightarrow> view w' k = view w k)"
proof -
  obtain w1 where w1: "create_or_update K ns (churn_name i) (itoa (int i)) w = (w1, None)"
      "holds_value (view w1) ns (churn_name i) (itoa (int i))" "\<forall>k. k \<noteq> (ns, churn_name i) \<longrightarrow> view w1 k = view w k"
    using create_or_update_sets [OF L] by blast
  show ?thesis
  proof (cases "i mod 2 = 1")
    case True
    have "view w1 (ns, churn_name i) \<noteq> None" using w1(2) by (auto simp: holds_value_def split: option.splits)
    from kube_laws(5) [OF L this] w1 True show ?thesis by (auto simp: churn_one_def churned_def)
  qed (use w1 in \<open>auto simp: churn_one_def churned_def\<close>)
qed

lemma churn_range:
  assumes L: "kube_lawful K view" and "distinct idxs"
  shows "\<exists>w'. for_range (churn_one K ns) w idxs = (w', None) \<and> (\<forall>i \<in> set idxs. churned (view w') ns i) \<and>
           (\<forall>k. k \<notin> (\<lambda>i. (ns, churn_name i)) ` set idxs \<longrightarrow> view w' k = view w k)"
  using assms(2)
proof (induction idxs arbitrary: w)
  case Nil
  then show ?case by simp
next
  case (Cons i idxs)
  obtain w1 where w1: "churn_one K ns w i = (w1, None)" "churned (view w1) ns i"
      "\<forall>k. k \<noteq> (ns, churn_name i) \<longrightarrow> view w1 k = view w k"
    using churn_one_step [OF L] by blast
  obtain w2 where w2: "for_range (churn_one K ns) w1 idxs = (w2, None)" "\<forall>i \<in> set idxs. churned (view w2) ns i"
      "\<forall>k. k \<notin> (\<lambda>i. (ns, churn_name i)) ` set idxs \<longrightarrow> view w2 k = view w1 k"
    using Cons.IH [of w1] Cons.prems by auto
  have "(ns, churn_name i) \<notin> (\<lambda>i. (ns, churn_name i)) ` set idxs"
    using Cons.prems by (auto dest: churn_name_inj)
  then have "view w2 (ns, churn_name i) = view w1 (ns, churn_name i)" using w2(3) by blast
  then have "churned (view w2) ns i" using w1(2) by (simp only: churned_def holds_value_def)
  then show ?case using w1 w2 by auto
qed

lemma is_gone_simps [simp]: "is_gone_error (Some GoneError)" "\<not> is_gone_error (Some ExpiredError)"
  "\<not> is_gone_error (Some NotFound)" "\<not> is_gone_error (Some (OtherError m))"
  by (simp_all add: is_gone_error_def)

text \<open>The first event that is not an ordinary one decides the result of the watch.\<close>

lemma watch_loop_skips:
  "list_all (\<lambda>e. case e of Event ty _ \<Rightarrow> ty \<noteq> WatchError | _ \<Rightarrow> False) evs \<Longrightarrow> watch_loop quote (evs @ rest) = watch_loop quote rest"
  by (induction evs) (auto split: seen.splits)

text \<open>The first watch starts from the stale version, the later ones from the reflector's.\<close>

lemma informer_watch_first:
  "informer_watch K o1 rv lo (0, w) = map_prod (Pair 1) id
     (watch_cm K (namespace o1) (lo\<lparr>label_selector := demo_label_selector, timeout_seconds := Some (watch_timeout o1), list_rv := rv\<rparr>) w)"
  "0 < n \<Longrightarrow> informer_watch K o1 rv lo (n, w) = map_prod (Pair (n + 1)) id
     (watch_cm K (namespace o1) (lo\<lparr>label_selector := demo_label_selector, timeout_seconds := Some (watch_timeout o1)\<rparr>) w)"
  by (simp_all add: informer_watch_def Let_def case_prod_unfold map_prod_def)

text \<open>Reading calls leave the objects alone, and a list succeeds.\<close>

definition reads_keep :: "'w kube \<Rightarrow> ('w \<Rightarrow> string \<times> string \<rightharpoonup> config_map) \<Rightarrow> bool" where
  "reads_keep K view =
     (\<forall>w ns lo. view (fst (list_cm K ns lo w)) = view w \<and> is_ok (snd (list_cm K ns lo w)) \<and>
                view (fst (watch_cm K ns lo w)) = view w)"

text \<open>An API server in memory: the stored objects and a version counter; every watch has expired.\<close>

definition mem_kube :: "((string \<times> string \<rightharpoonup> config_map) \<times> nat) kube" where
  "mem_kube =
     \<lparr>get_cm = (\<lambda>ns n w. (w, case fst w (ns, n) of None \<Rightarrow> Inl NotFound | Some cm \<Rightarrow> Inr (cm\<lparr>cm_name := n\<rparr>))),
      create_cm = (\<lambda>ns cm (m, v). if m (ns, cm_name cm) = None then ((m((ns, cm_name cm) \<mapsto> cm\<lparr>cm_rv := nat_digits v\<rparr>), v + 1), None)
                                 else ((m, v), Some (OtherError ''exists''))),
      update_cm = (\<lambda>ns cm (m, v). if map_option cm_rv (m (ns, cm_name cm)) = Some (cm_rv cm)
                                 then ((m((ns, cm_name cm) \<mapsto> cm\<lparr>cm_rv := nat_digits v\<rparr>), v + 1), None)
                                 else ((m, v), Some (OtherError ''conflict''))),
      delete_cm = (\<lambda>ns n (m, v). ((m((ns, n) := None), v + 1), if m (ns, n) = None then Some NotFound else None)),
      list_cm = (\<lambda>ns lo w. (w, Inr ([], nat_digits (snd w)))),
      watch_cm = (\<lambda>ns lo w. (w, Inl ExpiredError)),
      delete_cms = (\<lambda>ns lo (m, v). ((\<lambda>k. case m k of None \<Rightarrow> None | Some cm \<Rightarrow> if fst k = ns \<and> labelled cm then None else Some cm, v + 1), None)),
      get_ns = (\<lambda>ns w. (w, None)), create_ns = (\<lambda>ns w. (w, None))\<rparr>"

definition mem_view :: "(string \<times> string \<rightharpoonup> config_map) \<times> nat \<Rightarrow> string \<times> string \<rightharpoonup> config_map" where
  "mem_view w = (\<lambda>(ns, n). map_option (\<lambda>cm. cm\<lparr>cm_name := n\<rparr>) (fst w (ns, n)))"

lemma mem_kube_lawful: "kube_lawful mem_kube mem_view"
  by (auto simp: kube_lawful_def mem_kube_def mem_view_def fun_eq_iff labelled_def split: option.splits)

lemma mem_kube_reads: "reads_keep mem_kube mem_view"
  by (simp add: reads_keep_def mem_kube_def mem_view_def)

section \<open>Properties\<close>

text \<open>
  C25. The churn always ends well, and leaves under the namespace exactly the config maps of the even
  rounds, each with the demo label and its round as the value; those of the odd rounds are gone and every
  other object is as it was.
\<close>

theorem churn_leaves_even:
  assumes "kube_lawful K view"
  shows "\<exists>w'. churn_config_maps K ns n w = (w', None) \<and> list_all (churned (view w') ns) [0..<nat n] \<and>
    (\<forall>k. view w' k = view w k \<or> k \<in> (\<lambda>i. (ns, churn_name i)) ` {0..<nat n})"
  using churn_range [OF assms, of "[0..<nat n]" ns w] by (auto simp: churn_config_maps_def list_all_iff)

lemma churn_leaves_even_witness:
  "\<exists>w'. churn_config_maps mem_kube ''demo'' 2 (Map.empty, 1) = (w', None) \<and>
     holds_value (mem_view w') ''demo'' (churn_name 0) (itoa 0) \<and> mem_view w' (''demo'', churn_name 1) = None"
proof -
  obtain w' where "churn_config_maps mem_kube ''demo'' 2 (Map.empty, 1) = (w', None)"
    "list_all (churned (mem_view w') ''demo'') [0..<nat 2]"
    using churn_leaves_even [OF mem_kube_lawful, of "''demo''" 2 "(Map.empty, 1)"] by blast
  then show ?thesis by (simp add: churned_def upt_rec numeral_2_eq_2)
qed

text \<open>
  In manual mode with churn, when the server answers the stale watch with a \<open>410\<close> of reason
  \<open>Expired\<close>, the program does not take it for gone: it fails, and since it exits by \<open>log.Fatalf\<close> the
  clean-up it was asked for does not run and the config maps of the churn stay.
\<close>

lemma expired_watch_leaves_objects:
  assumes "kube_lawful K view" "reads_keep K view" "new_clientset build (kubeconfig o1)"
    and "get_ns K (namespace o1) w = (w, None)" "mode o1 = ''manual''" "resource_ver o1 = []" "0 < churn o1"
    and "\<And>rv w'. snd (watch_cm K (namespace o1) (watch_opts rv (watch_timeout o1)) w') = Inl ExpiredError"
  shows "\<exists>w'. demo_main K quote build informer o1 w = Some (w', Some (StartWatchFailed ExpiredError)) \<and>
    list_all (churned (view w') (namespace o1)) [0..<nat (churn o1)]"
proof -
  let ?ns = "namespace o1"
  obtain w1 items rv where l: "list_cm K ?ns plain_opts w = (w1, Inr (items, rv))"
    using assms(2) unfolding reads_keep_def by (metis is_okE prod.collapse)
  obtain w2 where c: "churn_config_maps K ?ns (churn o1) w1 = (w2, None)"
      "list_all (churned (view w2) ?ns) [0..<nat (churn o1)]"
    using churn_range [OF assms(1), of "[0..<nat (churn o1)]" ?ns w1] by (auto simp: churn_config_maps_def list_all_iff)
  obtain w3 where v: "watch_cm K ?ns (watch_opts rv (watch_timeout o1)) w2 = (w3, Inl ExpiredError)"
    using assms(8) by (metis prod.collapse)
  have "view w3 = view w2" using assms(2) v unfolding reads_keep_def by (metis fst_conv)
  moreover have "run_manual K quote o1 w = Some (w3, Some (StartWatchFailed ExpiredError))"
    using l c(1) v assms(6,7)
    by (simp add: run_manual_def stale_resource_version_def list_demo_def watch_once_def)
  ultimately show ?thesis
    using assms(3-5) c(2) by (simp add: demo_main_def ensure_namespace_def)
qed

definition demo_options :: options where
  "demo_options = parse_flags ''/root'' (\<lambda>o1. o1\<lparr>churn := 2\<rparr>)"

lemma expired_watch_leaves_objects_witness:
  "\<exists>w'. demo_main mem_kube (\<lambda>s. s) (\<lambda>_. True) (\<lambda>_ w. (w, None)) demo_options (Map.empty, 1) =
       Some (w', Some (StartWatchFailed ExpiredError)) \<and>
     list_all (churned (mem_view w') ''informer-410-demo'') [0..<2]"
  using expired_watch_leaves_objects [OF mem_kube_lawful mem_kube_reads, of "\<lambda>_. True" demo_options "(Map.empty, 1)" "\<lambda>s. s" "\<lambda>_ w. (w, None)"]
  by (simp add: demo_options_def parse_flags_def new_clientset_def mem_kube_def)

text \<open>A run that succeeds cleans up.\<close>

lemma success_cleans_up:
  assumes "kube_lawful K view" "demo_main K quote build informer o1 w = Some (w', None)" "cleanup o1"
  shows "view w' (namespace o1, n) = Some cm \<Longrightarrow> \<not> labelled cm"
proof -
  assume v: "view w' (namespace o1, n) = Some cm"
  obtain w1 where "w' = fst (delete_cms K (namespace o1) plain_opts w1)"
    using assms(2,3) by (auto simp: demo_main_def cleanup_demo_def Let_def split: if_splits prod.splits option.splits)
  then have "view w' = (\<lambda>k. case view w1 k of None \<Rightarrow> None | Some cm \<Rightarrow> if fst k = namespace o1 \<and> labelled cm then None else Some cm)"
    using assms(1) by (simp add: kube_lawful_def)
  then show "\<not> labelled cm" using v by (auto split: option.splits if_splits)
qed

end
