(* ===== verification/GoScript.thy ===== *)
theory GoScript
  imports GoPrelude
begin

text \<open>
  Programs that run from top to bottom over a service, print lines and may stop early. A script
  takes the state of the service to a new state, the lines printed and either the reason it
  stopped or a result; \<open>and_then\<close> is the sequencing of Go statements whose errors end the program.
  \<open>run_to\<close> says that a script runs to its end; its rules let a run be followed statement by
  statement.
\<close>

type_synonym ('s, 'l, 'e, 'a) script = "'s \<Rightarrow> 's \<times> 'l list \<times> ('e + 'a)"

definition give :: "'a \<Rightarrow> ('s, 'l, 'e, 'a) script" where
  "give x s = (s, [], Inr x)"

definition stop :: "'e \<Rightarrow> ('s, 'l, 'e, 'a) script" where
  "stop e s = (s, [], Inl e)"

definition say :: "'l \<Rightarrow> ('s, 'l, 'e, unit) script" where
  "say l s = (s, [l], Inr ())"

definition and_then :: "('s, 'l, 'e, 'a) script \<Rightarrow> ('a \<Rightarrow> ('s, 'l, 'e, 'b) script) \<Rightarrow> ('s, 'l, 'e, 'b) script" where
  "and_then m f s =
     (case m s of
        (s1, o1, Inl e) \<Rightarrow> (s1, o1, Inl e)
      | (s1, o1, Inr x) \<Rightarrow> (case f x s1 of (s2, o2, r) \<Rightarrow> (s2, o1 @ o2, r)))"

text \<open>\<open>for _, x := range xs { f(x) }\<close>\<close>

fun each :: "('x \<Rightarrow> ('s, 'l, 'e, unit) script) \<Rightarrow> 'x list \<Rightarrow> ('s, 'l, 'e, unit) script" where
  "each f [] = give ()"
| "each f (x # xs) = and_then (f x) (\<lambda>_. each f xs)"

definition run_to :: "('s, 'l, 'e, 'a) script \<Rightarrow> 's \<Rightarrow> 's \<Rightarrow> 'l list \<Rightarrow> 'a \<Rightarrow> bool" where
  "run_to m s s' out x = (m s = (s', out, Inr x))"

definition stops_with :: "('s, 'l, 'e, 'a) script \<Rightarrow> 's \<Rightarrow> 's \<Rightarrow> 'l list \<Rightarrow> 'e \<Rightarrow> bool" where
  "stops_with m s s' out e = (m s = (s', out, Inl e))"

lemma run_to_give: "run_to (give x) s s [] x"
  by (simp add: run_to_def give_def)

lemma run_to_say: "run_to (say l) s s [l] ()"
  by (simp add: run_to_def say_def)

lemma run_to_and_then:
  "run_to m s s1 o1 x \<Longrightarrow> run_to (f x) s1 s2 o2 y \<Longrightarrow> run_to (and_then m f) s s2 (o1 @ o2) y"
  by (simp add: run_to_def and_then_def)

lemma run_to_then:
  "run_to m s s1 o1 x \<Longrightarrow> run_to n s1 s2 o2 y \<Longrightarrow> run_to (and_then m (\<lambda>_. n)) s s2 (o1 @ o2) y"
  by (rule run_to_and_then)

lemma run_to_say_then: "run_to (f ()) s s' out y \<Longrightarrow> run_to (and_then (say l) f) s s' (l # out) y"
  by (simp add: run_to_def and_then_def say_def)

lemma run_to_triple: "run_to (g x y z) s s' out r \<Longrightarrow> run_to (case (x, y, z) of (a, b, c) \<Rightarrow> g a b c) s s' out r"
  by simp

lemma stops_first: "stops_with m s s1 o1 e \<Longrightarrow> stops_with (and_then m f) s s1 o1 e"
  by (simp add: stops_with_def and_then_def)

lemma stops_later:
  "run_to m s s1 o1 x \<Longrightarrow> stops_with (f x) s1 s2 o2 e \<Longrightarrow> stops_with (and_then m f) s s2 (o1 @ o2) e"
  by (simp add: run_to_def stops_with_def and_then_def)

lemma run_or_stop:
  "(\<exists>s' out x. run_to m s s' out x) \<or> (\<exists>s' out e. stops_with m s s' out e)"
  by (cases "m s"; cases "snd (snd (m s))") (auto simp: run_to_def stops_with_def)

lemma run_not_stop: "run_to m s s1 o1 x \<Longrightarrow> \<not> stops_with m s s2 o2 e"
  by (simp add: run_to_def stops_with_def)

lemma run_unique: "run_to m s s1 o1 x \<Longrightarrow> run_to m s s2 o2 y \<Longrightarrow> s1 = s2 \<and> o1 = o2 \<and> x = y"
  by (simp add: run_to_def)

text \<open>Monad laws, so that scripts may be regrouped.\<close>

lemma and_then_give [simp]: "and_then (give x) f = f x" "and_then m give = m"
  by (auto simp: fun_eq_iff and_then_def give_def split: prod.splits sum.splits)

lemma and_then_assoc: "and_then (and_then m f) g = and_then m (\<lambda>x. and_then (f x) g)"
  by (auto simp: fun_eq_iff and_then_def split: prod.splits sum.splits)

lemma and_then_stop [simp]: "and_then (stop e) f = stop e"
  by (simp add: fun_eq_iff and_then_def stop_def)

lemma each_append: "each f (xs @ ys) = and_then (each f xs) (\<lambda>_. each f ys)"
  by (induction xs) (simp_all add: and_then_assoc)

section \<open>Triples\<close>

text \<open>From a state with \<open>P\<close> the script either stops for a reason in \<open>E\<close> or ends in a state, with lines and a
result, in \<open>Q\<close>. The lines before are an argument of \<open>Q\<close>, so that rules compose without appending.\<close>

definition triple ::
    "('l list \<Rightarrow> 's \<Rightarrow> bool) \<Rightarrow> ('s, 'l, 'e, 'a) script \<Rightarrow> ('a \<Rightarrow> 'l list \<Rightarrow> 's \<Rightarrow> bool) \<Rightarrow> ('e \<Rightarrow> bool) \<Rightarrow> bool" where
  "triple P m Q E \<longleftrightarrow> (\<forall>o1 s. P o1 s \<longrightarrow>
     (case m s of (s', o2, r) \<Rightarrow> (case r of Inl e \<Rightarrow> E e | Inr x \<Rightarrow> Q x (o1 @ o2) s')))"

lemma tripleI:
  "(\<And>o1 s s' o2 e. P o1 s \<Longrightarrow> m s = (s', o2, Inl e) \<Longrightarrow> E e) \<Longrightarrow>
   (\<And>o1 s s' o2 x. P o1 s \<Longrightarrow> m s = (s', o2, Inr x) \<Longrightarrow> Q x (o1 @ o2) s') \<Longrightarrow> triple P m Q E"
  unfolding triple_def by (auto split: prod.splits sum.splits)

lemma triple_ok: "triple P m Q E \<Longrightarrow> P o1 s \<Longrightarrow> m s = (s', o2, Inr x) \<Longrightarrow> Q x (o1 @ o2) s'"
  by (fastforce simp: triple_def)

lemma triple_stopped: "triple P m Q E \<Longrightarrow> P o1 s \<Longrightarrow> m s = (s', o2, Inl e) \<Longrightarrow> E e"
  by (fastforce simp: triple_def)

lemma triple_then:
  assumes m: "triple P m Q E" and f: "\<And>x. triple (Q x) (f x) R E"
  shows "triple P (and_then m f) R E"
proof (rule tripleI)
  fix o1 s s' o2 e assume p: "P o1 s" and r: "and_then m f s = (s', o2, Inl e)"
  show "E e"
  proof (cases "m s")
    case (fields s1 oa ra)
    show ?thesis
    proof (cases ra)
      case (Inl e')
      then show ?thesis using r fields triple_stopped [OF m p] by (simp add: and_then_def)
    next
      case (Inr x)
      have q: "Q x (o1 @ oa) s1" using triple_ok [OF m p] fields Inr by blast
      obtain ob where "f x s1 = (s', ob, Inl e)" using r fields Inr by (auto simp: and_then_def split: prod.splits)
      then show ?thesis using triple_stopped [OF f q] by blast
    qed
  qed
next
  fix o1 s s' o2 y assume p: "P o1 s" and r: "and_then m f s = (s', o2, Inr y)"
  obtain s1 oa x where 1: "m s = (s1, oa, Inr x)"
    using r by (auto simp: and_then_def split: prod.splits sum.splits)
  have q: "Q x (o1 @ oa) s1" by (rule triple_ok [OF m p 1])
  obtain ob where 2: "f x s1 = (s', ob, Inr y)" "o2 = oa @ ob" using r 1 by (auto simp: and_then_def split: prod.splits)
  show "R y (o1 @ o2) s'" using triple_ok [OF f q 2(1)] 2(2) by simp
qed

lemma triple_say: "(\<And>ls s. P ls s \<Longrightarrow> Q () (ls @ [l]) s) \<Longrightarrow> triple P (say l) Q E"
  by (auto simp: triple_def say_def)

lemma triple_give: "(\<And>ls s. P ls s \<Longrightarrow> Q x ls s) \<Longrightarrow> triple P (give x) Q E"
  by (auto simp: triple_def give_def)

lemma triple_each: "(\<And>x. x \<in> set xs \<Longrightarrow> triple I (f x) (\<lambda>_. I) E) \<Longrightarrow> triple I (each f xs) (\<lambda>_. I) E"
proof (induction xs)
  case Nil
  then show ?case by (simp add: triple_give)
next
  case (Cons x xs)
  then show ?case by (auto intro!: triple_then [where Q = "\<lambda>_. I"])
qed

lemma triple_ex: "(\<And>y. triple (P y) m Q E) \<Longrightarrow> triple (\<lambda>ls s. \<exists>y. P y ls s) m Q E"
  by (rule tripleI) (blast dest: triple_ok triple_stopped)+

lemma triple_conseq:
  "triple P m Q E \<Longrightarrow> (\<And>ls s. P' ls s \<Longrightarrow> P ls s) \<Longrightarrow> (\<And>x ls s. Q x ls s \<Longrightarrow> Q' x ls s) \<Longrightarrow> triple P' m Q' E"
  by (fastforce simp: triple_def split: sum.splits prod.splits)

end
