(* ===== verification/RaftMain.thy ===== *)
theory RaftMain
  imports RaftNode GoScript
begin

text \<open>
  \<open>main\<close> of \<open>etcd/raft-wal-restart/main.go\<close>: a new cluster, three writes, a stop of all nodes, a restart
  from their disks, a write, the stop of a follower and a last write. The state of the script is the
  cluster. Between two statements, and between two polls of a waiting loop, the goroutines of the
  nodes run: what they do then is a batch of events, and the batches of a waiting loop are those that
  fit before its deadline. They are parameters, like the raft library.
\<close>

section \<open>Events between the statements\<close>

type_synonym batch = "(nat \<times> run_event) list"

definition run_batch :: "('m, 'n) raft_lib \<Rightarrow> codecs \<Rightarrow> batch \<Rightarrow> ('m, 'n) cluster \<Rightarrow> ('m, 'n) cluster" where
  "run_batch L c b cl = foldl (\<lambda>cl (i, ev). run_event L c i ev cl) cl b"

text \<open>A polling loop: a test after each batch, until one succeeds or the deadline is over.\<close>

fun poll_until ::
    "('m, 'n) raft_lib \<Rightarrow> codecs \<Rightarrow> (('m, 'n) cluster \<Rightarrow> 'a option) \<Rightarrow> batch list \<Rightarrow> ('m, 'n) cluster \<Rightarrow> ('m, 'n) cluster \<times> 'a option" where
  "poll_until L c P [] cl = (cl, None)"
| "poll_until L c P (b # bs) cl =
     (let cl' = run_batch L c b cl
      in case P cl' of Some x \<Rightarrow> (cl', Some x) | None \<Rightarrow> poll_until L c P bs cl')"

text \<open>The clusters a loop sees when it never succeeds.\<close>

fun polled :: "('m, 'n) raft_lib \<Rightarrow> codecs \<Rightarrow> batch list \<Rightarrow> ('m, 'n) cluster \<Rightarrow> ('m, 'n) cluster list" where
  "polled L c [] cl = []"
| "polled L c (b # bs) cl = run_batch L c b cl # polled L c bs (run_batch L c b cl)"

text \<open>\<open>stop\<close> of a node waits until its goroutine has taken the stop channel's case.\<close>

definition halt_node ::
    "('m, 'n) raft_lib \<Rightarrow> codecs \<Rightarrow> nat \<Rightarrow> batch \<Rightarrow> ('m, 'n) cluster \<Rightarrow> (string, ('m, 'n) cluster) result option" where
  "halt_node L c i b cl =
     map_option (map_sum id (\<lambda>cl. run_event L c i StopEv (run_batch L c b cl))) (stop_node i cl)"

fun halt_all :: "('m, 'n) raft_lib \<Rightarrow> codecs \<Rightarrow> (nat \<Rightarrow> batch) \<Rightarrow> nat list \<Rightarrow> ('m, 'n) cluster \<Rightarrow> ('m, 'n) cluster option" where
  "halt_all L c bs [] cl = Some cl"
| "halt_all L c bs (i # is) cl =
     (case halt_node L c i (bs i) cl of
        None \<Rightarrow> None
      | Some (Inl _) \<Rightarrow> halt_all L c bs is cl
      | Some (Inr cl') \<Rightarrow> halt_all L c bs is cl')"

section \<open>The script\<close>

datatype raft_line =
  Phase nat
| LeaderIs nat nat
| StateOf string "(nat \<times> nat \<times> (string \<rightharpoonup> string)) list"
| StopFollower nat
| DemoFinished

datatype raft_fatal =
  RemoveAllFailed | BootFailed boot_error | NoLeader | ProposeFailed string propose_error
| NotConverged string | NoFollower | NodeNotFound string | ClosedTwice

type_synonym ('m, 'n, 'a) raft_script = "(('m, 'n) cluster, raft_line, raft_fatal, 'a) script"

definition boot_cluster :: "('m, 'n) raft_lib \<Rightarrow> codecs \<Rightarrow> 'n \<Rightarrow> nat list \<Rightarrow> (nat \<Rightarrow> disk) \<Rightarrow> ('m, 'n, unit) raft_script" where
  "boot_cluster L c nd0 ids disks cl =
     (case new_persistent_cluster L c nd0 disks ids of
        Inl e \<Rightarrow> (cl, [], Inl (BootFailed e))
      | Inr cl' \<Rightarrow> (cl', [], Inr ()))"

definition await_leader :: "('m, 'n) raft_lib \<Rightarrow> codecs \<Rightarrow> batch list \<Rightarrow> ('m, 'n, nat) raft_script" where
  "await_leader L c bs cl =
     (case poll_until L c (leader_now L) bs cl of
        (cl', None) \<Rightarrow> (cl', [], Inl NoLeader)
      | (cl', Some i) \<Rightarrow> (cl', [], Inr i))"

definition propose :: "('m, 'n) raft_lib \<Rightarrow> codecs \<Rightarrow> batch \<Rightarrow> nat \<Rightarrow> string \<Rightarrow> string \<Rightarrow> ('m, 'n, unit) raft_script" where
  "propose L c b leader k v cl =
     (case propose_kv L c leader k v (run_batch L c b cl) of
        Inl e \<Rightarrow> (cl, [], Inl (ProposeFailed k e))
      | Inr cl' \<Rightarrow> (cl', [], Inr ()))"

definition await_value :: "('m, 'n) raft_lib \<Rightarrow> codecs \<Rightarrow> batch list \<Rightarrow> string \<Rightarrow> string \<Rightarrow> ('m, 'n, unit) raft_script" where
  "await_value L c bs k v cl =
     (case poll_until L c (\<lambda>cl. if value_everywhere k v cl then Some () else None) bs cl of
        (cl', None) \<Rightarrow> (cl', [], Inl (NotConverged k))
      | (cl', Some _) \<Rightarrow> (cl', [], Inr ()))"

definition kv_snapshot :: "('m, 'n) rnode \<Rightarrow> nat \<times> (string \<rightharpoonup> string)" where
  "kv_snapshot n = (applied n, kv n)"

fun show_nodes ::
    "('m, 'n) raft_lib \<Rightarrow> codecs \<Rightarrow> (nat \<Rightarrow> batch) \<Rightarrow> nat list \<Rightarrow> ('m, 'n) cluster \<Rightarrow>
     ('m, 'n) cluster \<times> (nat \<times> nat \<times> (string \<rightharpoonup> string)) list" where
  "show_nodes L c bs [] cl = (cl, [])"
| "show_nodes L c bs (i # is) cl =
     (let cl1 = run_batch L c (bs i) cl;
          row = (case find_node i cl1 of None \<Rightarrow> (0, Map.empty) | Some n \<Rightarrow> kv_snapshot n)
      in case show_nodes L c bs is cl1 of (cl2, rows) \<Rightarrow> (cl2, (i, row) # rows))"

definition print_cluster :: "('m, 'n) raft_lib \<Rightarrow> codecs \<Rightarrow> batch \<Rightarrow> (nat \<Rightarrow> batch) \<Rightarrow> string \<Rightarrow> ('m, 'n, unit) raft_script" where
  "print_cluster L c b bs title cl =
     (let cl1 = run_batch L c b cl
      in case show_nodes L c bs (active_node_ids cl1) cl1 of (cl2, rows) \<Rightarrow> (cl2, [StateOf title rows], Inr ()))"

definition halt_cluster :: "('m, 'n) raft_lib \<Rightarrow> codecs \<Rightarrow> (nat \<Rightarrow> batch) \<Rightarrow> ('m, 'n, unit) raft_script" where
  "halt_cluster L c bs cl =
     (case halt_all L c bs (map fst cl) cl of None \<Rightarrow> (cl, [], Inl ClosedTwice) | Some cl' \<Rightarrow> (cl', [], Inr ()))"

definition stop_follower :: "('m, 'n) raft_lib \<Rightarrow> codecs \<Rightarrow> batch \<Rightarrow> nat \<Rightarrow> ('m, 'n, unit) raft_script" where
  "stop_follower L c b leader cl =
     (case choose_follower leader cl of
        None \<Rightarrow> (cl, [], Inl NoFollower)
      | Some i \<Rightarrow>
          (case halt_node L c i b cl of
             None \<Rightarrow> (cl, [StopFollower i], Inl ClosedTwice)
           | Some (Inl e) \<Rightarrow> (cl, [StopFollower i], Inl (NodeNotFound e))
           | Some (Inr cl') \<Rightarrow> (cl', [StopFollower i], Inr ())))"

definition initial_writes :: "(string \<times> string) list" where
  "initial_writes = [(''x'', ''10''), (''y'', ''20''), (''user'', ''alice'')]"

definition node_ids :: "nat list" where
  "node_ids = [1, 2, 3]"

text \<open>What happens around \<open>main\<close>: whether the old data is removed, the batches of each waiting loop, named
by phase and key, the batches while nodes stop, and those just before a proposal, a print or a row of a print.\<close>

record schedule =
  removed :: bool
  leader_polls :: "nat \<Rightarrow> batch list"
  value_polls :: "nat \<Rightarrow> string \<Rightarrow> batch list"
  stop_batches :: "nat \<Rightarrow> nat \<Rightarrow> batch"
  follower_batch :: batch
  gaps :: "nat \<Rightarrow> string \<Rightarrow> batch"
  row_gaps :: "nat \<Rightarrow> string \<Rightarrow> nat \<Rightarrow> batch"

definition phase_one :: "('m, 'n) raft_lib \<Rightarrow> codecs \<Rightarrow> 'n \<Rightarrow> schedule \<Rightarrow> (nat \<Rightarrow> disk) \<Rightarrow> ('m, 'n, unit) raft_script" where
  "phase_one L c nd0 S disks =
     and_then (say (Phase 1)) (\<lambda>_.
     and_then (boot_cluster L c nd0 node_ids disks) (\<lambda>_.
     and_then (await_leader L c (leader_polls S 1)) (\<lambda>leader1.
     and_then (say (LeaderIs 1 leader1)) (\<lambda>_.
     and_then (each (\<lambda>(k, v). and_then (propose L c (gaps S 1 k) leader1 k v) (\<lambda>_. await_value L c (value_polls S 1 k) k v)) initial_writes) (\<lambda>_.
     and_then (print_cluster L c (gaps S 1 ''shown'') (row_gaps S 1 ''shown'') ''phase 1 committed:'') (\<lambda>_.
     halt_cluster L c (stop_batches S 1)))))))"

definition phase_two :: "('m, 'n) raft_lib \<Rightarrow> codecs \<Rightarrow> 'n \<Rightarrow> schedule \<Rightarrow> (nat \<Rightarrow> disk) \<Rightarrow> ('m, 'n, unit) raft_script" where
  "phase_two L c nd0 S disks =
     and_then (say (Phase 2)) (\<lambda>_.
     and_then (boot_cluster L c nd0 node_ids disks) (\<lambda>_.
     and_then (await_leader L c (leader_polls S 2)) (\<lambda>leader2.
     and_then (say (LeaderIs 2 leader2)) (\<lambda>_.
     and_then (each (\<lambda>(k, v). await_value L c (value_polls S 2 k) k v) initial_writes) (\<lambda>_.
     and_then (print_cluster L c (gaps S 2 ''recovered'') (row_gaps S 2 ''recovered'') ''after restart recovered:'') (\<lambda>_.
     and_then (propose L c (gaps S 2 ''z'') leader2 ''z'' ''30'') (\<lambda>_.
     and_then (await_value L c (value_polls S 2 ''z'') ''z'' ''30'') (\<lambda>_.
     and_then (print_cluster L c (gaps S 2 ''written'') (row_gaps S 2 ''written'') ''after restart new write:'') (\<lambda>_.
     and_then (stop_follower L c (follower_batch S) leader2) (\<lambda>_.
     and_then (propose L c (gaps S 2 ''k'') leader2 ''k'' ''v'') (\<lambda>_.
     and_then (await_value L c (value_polls S 2 ''k'') ''k'' ''v'') (\<lambda>_.
     and_then (print_cluster L c (gaps S 2 ''end'') (row_gaps S 2 ''end'') ''one follower down, majority still commits:'') (\<lambda>_.
     and_then (say DemoFinished) (\<lambda>_.
     halt_cluster L c (stop_batches S 2)))))))))))))))"

text \<open>\<open>main\<close>. The second cluster reads the disks the first one left. The deferred \<open>stopAll\<close> is not run by
\<open>log.Fatal\<close>.\<close>

definition disks_of :: "('m, 'n) cluster \<Rightarrow> nat \<Rightarrow> disk" where
  "disks_of cl i = (case find_node i cl of None \<Rightarrow> fresh_disk | Some n \<Rightarrow> ndisk n)"

definition raft_main :: "('m, 'n) raft_lib \<Rightarrow> codecs \<Rightarrow> 'n \<Rightarrow> schedule \<Rightarrow> ('m, 'n, unit) raft_script" where
  "raft_main L c nd0 S =
     (if \<not> removed S then stop RemoveAllFailed
      else and_then (phase_one L c nd0 S (\<lambda>_. fresh_disk)) (\<lambda>_ cl. phase_two L c nd0 S (disks_of cl) cl))"

section \<open>Polling\<close>

lemma poll_leader: "snd (poll_until L c (leader_now L) bs cl) = wait_leader L (polled L c bs cl)"
  by (induction bs arbitrary: cl) (auto simp: Let_def split: option.splits)

lemma poll_value:
  "snd (poll_until L c (\<lambda>cl. if value_everywhere k v cl then Some () else None) bs cl) =
     (if wait_value k v (polled L c bs cl) then Some () else None)"
  by (induction bs arbitrary: cl) (auto simp: Let_def)

text \<open>A loop that succeeds stops at a cluster that passes the test.\<close>

lemma poll_until_holds: "poll_until L c P bs cl = (cl', Some x) \<Longrightarrow> P cl' = Some x"
  by (induction bs arbitrary: cl) (auto simp: Let_def split: option.splits)

section \<open>Which nodes run\<close>

text \<open>The identifiers of the cluster with their \<open>stopped\<close> flags; the events of the goroutines leave them alone.\<close>

definition flags_of :: "('m, 'n) cluster \<Rightarrow> (nat \<times> bool) list" where
  "flags_of cl = map (\<lambda>(i, n). (i, stopped n)) cl"

definition whole :: "(nat \<times> bool) list \<Rightarrow> ('m, 'n) cluster \<Rightarrow> bool" where
  "whole fs cl \<longleftrightarrow> cluster_inv cl \<and> flags_of cl = fs \<and> distinct (map fst fs)"

lemma active_flags: "active_node_ids cl = sort (map fst (filter (\<lambda>(i, b). \<not> b) (flags_of cl)))"
  by (simp add: active_node_ids_def flags_of_def filter_map comp_def case_prod_beta')

lemma map_fst_flags: "map fst (flags_of cl) = map fst cl"
  by (simp add: flags_of_def comp_def case_prod_beta')

lemma flags_put:
  assumes "distinct (map fst cl)" "find_node i cl = Some n" "stopped n' = stopped n"
  shows "flags_of (put_node i n' cl) = flags_of cl"
  using assms by (induction cl) (auto simp: flags_of_def put_node_def find_node_def map_of_eq_None_iff image_iff split: if_splits)

lemma flags_deliver: "distinct (map fst cl) \<Longrightarrow> flags_of (deliver L cl msgs) = flags_of cl"
proof (induction msgs arbitrary: cl)
  case Nil
  then show ?case by (simp add: deliver_def)
next
  case (Cons m msgs)
  have "flags_of (deliver_one L cl m) = flags_of cl"
    using Cons.prems by (auto simp: deliver_one_def flags_put split: option.splits sum.splits)
  moreover from this have "distinct (map fst (deliver_one L cl m))" using Cons.prems by (metis map_fst_flags)
  ultimately show ?case using Cons.IH by (simp add: deliver_def)
qed

lemma flags_event: "distinct (map fst cl) \<Longrightarrow> flags_of (run_event L c i ev cl) = flags_of cl"
proof -
  assume d: "distinct (map fst cl)"
  have "flags_of (handle_ready L c f rd i cl) = flags_of cl" for f rd
  proof (cases "find_node i cl")
    case None
    then show ?thesis by (simp add: handle_ready_def)
  next
    case (Some n)
    let ?cl1 = "put_node i (take_ready L c f rd n) cl"
    let ?cl2 = "deliver L ?cl1 (rd_messages rd)"
    have 1: "flags_of ?cl1 = flags_of cl" using d Some by (simp add: flags_put take_ready_chan)
    have d1: "distinct (map fst ?cl1)" using d by simp
    have 2: "flags_of ?cl2 = flags_of cl" using flags_deliver [OF d1] 1 by simp
    have d2: "distinct (map fst ?cl2)" using 2 d by (metis map_fst_flags)
    show ?thesis
      using Some 2 d2 by (auto simp: handle_ready_def Let_def flags_put apply_committed_chan split: option.splits)
  qed
  then show ?thesis using d by (auto simp: run_event_def flags_put split: option.splits run_event.splits)
qed

lemma whole_event: "whole fs cl \<Longrightarrow> whole fs (run_event L c i ev cl)"
  using map_fst_flags [of cl] by (auto simp: whole_def cluster_inv_event flags_event)

lemma whole_batch: "whole fs cl \<Longrightarrow> whole fs (run_batch L c b cl)"
  unfolding run_batch_def by (rule foldl_invariant [where P = "whole fs"]) (auto intro: whole_event)

lemma whole_poll: "whole fs cl \<Longrightarrow> poll_until L c P bs cl = (cl', x) \<Longrightarrow> whole fs cl'"
proof (induction bs arbitrary: cl)
  case (Cons b bs)
  show ?case
    using Cons.IH [OF whole_batch [OF Cons.prems(1)]] Cons.prems whole_batch [OF Cons.prems(1), of L c b]
    by (auto simp: Let_def split: option.splits)
qed simp

lemma whole_propose:
  assumes "whole fs cl" "propose_kv L c i k v cl = Inr cl'"
  shows "whole fs cl'"
proof -
  obtain n nd where n: "find_node i cl = Some n" and cl': "cl' = put_node i (n\<lparr>node := nd\<rparr>) cl"
    using assms(2) by (auto simp: propose_kv_def split: option.splits sum.splits if_splits)
  have "chan_inv (n\<lparr>node := nd\<rparr>)" using assms(1) cluster_inv_find [OF _ n] by (auto simp: whole_def chan_inv_def)
  moreover have "distinct (map fst cl)" using assms(1) by (metis map_fst_flags whole_def)
  ultimately show ?thesis using assms(1) n by (auto simp: whole_def cl' cluster_inv_put flags_put)
qed

definition halted :: "nat \<Rightarrow> (nat \<times> bool) list \<Rightarrow> (nat \<times> bool) list" where
  "halted i fs = map (\<lambda>(j, b). (j, b \<or> j = i)) fs"

lemma map_fst_halted [simp]: "map fst (halted i fs) = map fst fs"
  by (simp add: halted_def comp_def case_prod_beta')

lemma flags_stop:
  assumes "distinct (map fst cl)" "find_node i cl = Some n" "stopped n'"
  shows "flags_of (put_node i n' cl) = halted i (flags_of cl)"
  using assms by (induction cl) (auto simp: flags_of_def put_node_def halted_def find_node_def map_of_eq_None_iff image_iff split: if_splits)

lemma whole_halt:
  assumes w: "whole fs cl" and i: "i \<in> set (map fst fs)"
  shows "\<exists>cl'. halt_node L c i b cl = Some (Inr cl') \<and> whole (halted i fs) cl'"
proof -
  have d: "distinct (map fst cl)" and inv: "cluster_inv cl" and ids: "map fst cl = map fst fs"
    using w by (metis map_fst_flags whole_def)+
  obtain n where n: "find_node i cl = Some n"
    using i ids by (metis domIff dom_map_of_conv_image_fst find_node_def list.set_map not_None_eq)
  obtain n' where n': "stop_rnode n = Some n'" "chan_inv n'" "stopped n'"
    using stop_rnode_ok cluster_inv_find [OF inv n] by blast
  have "whole (halted i fs) (put_node i n' cl)"
    using w n n' d inv by (simp add: whole_def cluster_inv_put flags_stop)
  then have "whole (halted i fs) (run_event L c i StopEv (run_batch L c b (put_node i n' cl)))"
    by (intro whole_event whole_batch)
  then show ?thesis using n n'(1) by (simp add: halt_node_def stop_node_def)
qed

lemma whole_halt_all:
  assumes "whole fs cl" "set is \<subseteq> set (map fst fs)"
  shows "\<exists>cl'. halt_all L c bs is cl = Some cl' \<and> whole (fold halted is fs) cl'"
  using assms
proof (induction "is" arbitrary: cl fs)
  case Nil
  then show ?case by simp
next
  case (Cons i js)
  have i: "i \<in> set (map fst fs)" using Cons.prems(2) by simp
  obtain cl1 where cl1: "halt_node L c i (bs i) cl = Some (Inr cl1)" "whole (halted i fs) cl1"
    using whole_halt [OF Cons.prems(1) i] by blast
  have "set js \<subseteq> set (map fst (halted i fs))" using Cons.prems(2) by simp
  from Cons.IH [OF cl1(2) this] show ?case by (simp add: cl1(1))
qed

lemma boot_snapshot_open:
  "boot_snapshot L c b n = Inr n1 \<Longrightarrow>
     stopped n1 = stopped n \<and> stop_closed n1 = stop_closed n \<and> done_closed n1 = done_closed n"
  by (auto simp: boot_snapshot_def restore_sm_def Let_def split: if_splits sum.splits option.splits prod.splits bool.splits)

lemma new_node_open:
  assumes "new_raft_node L c nd0 flt i peers d = Inr n"
  shows "\<not> stopped n" "chan_inv n"
proof -
  obtain d' b e where l: "load c flt d = (d', b, e)" by (metis prod_cases3)
  have e: "e = None" using assms l by (cases e) (simp_all add: new_raft_node_def)
  obtain n1 where n1: "boot_snapshot L c b (blank_node L i d' nd0) = Inr n1"
    using assms l e by (cases "boot_snapshot L c b (blank_node L i d' nd0)") (simp_all add: new_raft_node_def)
  obtain m where m: "(if entries b = [] then Inr (storage n1) else ms_append L (entries b) (storage n1)) = Inr m"
    using assms l e n1
    by (cases "if entries b = [] then Inr (storage n1) else ms_append L (entries b) (storage n1)")
      (simp_all add: new_raft_node_def del: if_split split del: if_split)
  have "stopped n = stopped n1 \<and> stop_closed n = stop_closed n1 \<and> done_closed n = done_closed n1"
    using assms unfolding new_raft_node_def l e prod.case option.case n1 sum.case m Let_def by (auto split: if_splits)
  then have "\<not> stopped n \<and> \<not> stop_closed n \<and> \<not> done_closed n"
    using boot_snapshot_open [OF n1] by (simp add: blank_node_def)
  then show "\<not> stopped n" "chan_inv n" by (simp_all add: chan_inv_def)
qed

lemma start_nodes_whole:
  assumes "start_nodes L c nd0 disks peers ids cl0 = Inr cl" "whole fs cl0" "distinct (map fst fs @ ids)"
  shows "whole (fs @ map (\<lambda>i. (i, False)) ids) cl"
  using assms
proof (induction ids arbitrary: cl0 fs)
  case Nil
  then show ?case by simp
next
  case (Cons i ids)
  then obtain n where n: "new_raft_node L c nd0 NoFault i peers (disks i) = Inr n"
    and rest: "start_nodes L c nd0 disks peers ids (AList.update i n cl0) = Inr cl"
    by (auto split: sum.splits)
  have "i \<notin> set (map fst cl0)" using Cons.prems(2,3) by (metis disjoint_iff distinct_append list.set_intros(1) map_fst_flags whole_def)
  then have upd: "AList.update i n cl0 = cl0 @ [(i, n)]"
    by (induction cl0) auto
  have "whole (fs @ [(i, False)]) (AList.update i n cl0)"
    using Cons.prems(2,3) new_node_open [OF n] unfolding upd by (auto simp: whole_def cluster_inv_def flags_of_def)
  from Cons.IH [OF rest this] Cons.prems(3) show ?case by simp
qed

section \<open>The statements keep the cluster whole\<close>

text \<open>\<open>on fs A\<close>: the cluster has the nodes and flags \<open>fs\<close>, and the lines so far satisfy \<open>A\<close>.\<close>

definition on :: "(nat \<times> bool) list \<Rightarrow> (raft_line list \<Rightarrow> bool) \<Rightarrow> raft_line list \<Rightarrow> ('m, 'n) cluster \<Rightarrow> bool" where
  "on fs A ls cl \<longleftrightarrow> whole fs cl \<and> A ls"

abbreviation no_panic :: "raft_fatal \<Rightarrow> bool" where
  "no_panic e \<equiv> e \<noteq> ClosedTwice \<and> (\<forall>t. e \<noteq> NodeNotFound t)"

definition running :: "(nat \<times> bool) list \<Rightarrow> nat list" where
  "running fs = sort (map fst (filter (\<lambda>(i, b). \<not> b) fs))"

lemma whole_running: "whole fs cl \<Longrightarrow> active_node_ids cl = running fs"
  by (simp add: whole_def active_flags running_def)

lemma on_boot:
  assumes "distinct ids"
  shows "triple (\<lambda>ls _. A ls) (boot_cluster L c nd0 ids disks) (\<lambda>_. on (map (\<lambda>i. (i, False)) ids) A) no_panic"
proof (rule tripleI)
  fix o1 and s s' :: "('a, 'b) cluster" and o2 x
  assume A: "A o1" and r: "boot_cluster L c nd0 ids disks s = (s', o2, Inr x)"
  then have "new_persistent_cluster L c nd0 disks ids = Inr s'" "o2 = []"
    by (auto simp: boot_cluster_def split: sum.splits)
  moreover have "whole [] ([] :: ('a, 'b) cluster)" by (simp add: whole_def cluster_inv_def flags_of_def)
  ultimately show "on (map (\<lambda>i. (i, False)) ids) A (o1 @ o2) s'"
    using start_nodes_whole [of L c nd0 disks ids ids "[]" s' "[]"] assms A
    by (simp add: new_persistent_cluster_def on_def)
qed (auto simp: boot_cluster_def split: sum.splits)

lemma on_leader:
  "triple (on fs A) (await_leader L c bs) (\<lambda>i. on fs (\<lambda>ls. A ls \<and> i \<in> set (running fs))) no_panic"
proof (rule tripleI)
  fix o1 and s s' :: "('a, 'b) cluster" and o2 i
  assume A: "on fs A o1 s" and r: "await_leader L c bs s = (s', o2, Inr i)"
  then have p: "poll_until L c (leader_now L) bs s = (s', Some i)" "o2 = []"
    by (auto simp: await_leader_def split: prod.splits option.splits)
  then have w: "whole fs s'" using whole_poll A unfolding on_def by blast
  have "leader_now L s' = Some i" by (rule poll_until_holds [OF p(1)])
  then have "i \<in> set (active_node_ids s')" by (auto simp: leader_now_def find_Some_iff)
  then show "on fs (\<lambda>ls. A ls \<and> i \<in> set (running fs)) (o1 @ o2) s'"
    using w A p(2) whole_running [OF w] by (simp add: on_def)
qed (auto simp: await_leader_def split: prod.splits option.splits)

lemma on_value: "triple (on fs A) (await_value L c bs k v) (\<lambda>_. on fs A) no_panic"
proof (rule tripleI)
  fix o1 and s s' :: "('a, 'b) cluster" and o2 x
  assume A: "on fs A o1 s" and r: "await_value L c bs k v s = (s', o2, Inr x)"
  then obtain y where p: "poll_until L c (\<lambda>cl. if value_everywhere k v cl then Some () else None) bs s = (s', Some y)" "o2 = []"
    by (auto simp: await_value_def split: prod.splits option.splits)
  then have "whole fs s'" using whole_poll A unfolding on_def by blast
  then show "on fs A (o1 @ o2) s'" using A p(2) by (simp add: on_def)
qed (auto simp: await_value_def split: prod.splits option.splits)

lemma on_propose: "triple (on fs A) (propose L c b i k v) (\<lambda>_. on fs A) no_panic"
proof (rule tripleI)
  fix o1 and s s' :: "('a, 'b) cluster" and o2 x
  assume A: "on fs A o1 s" and r: "propose L c b i k v s = (s', o2, Inr x)"
  then have p: "propose_kv L c i k v (run_batch L c b s) = Inr s'" "o2 = []"
    by (auto simp: propose_def split: sum.splits)
  then have "whole fs s'" using whole_propose whole_batch A unfolding on_def by blast
  then show "on fs A (o1 @ o2) s'" using A p(2) by (simp add: on_def)
qed (auto simp: propose_def split: sum.splits)

lemma whole_show:
  "whole fs cl \<Longrightarrow> show_nodes L c bs is cl = (cl', rows) \<Longrightarrow> whole fs cl' \<and> map fst rows = is"
proof (induction "is" arbitrary: cl rows)
  case (Cons i js)
  then show ?case using Cons.IH [OF whole_batch [OF Cons.prems(1)]] by (auto simp: Let_def split: prod.splits)
qed simp

lemma on_print:
  "triple (on fs A) (print_cluster L c b bs t) (\<lambda>_. on fs (\<lambda>ls. \<exists>pre rows. ls = pre @ [StateOf t rows] \<and> A pre \<and> map fst rows = running fs)) no_panic"
proof (rule tripleI)
  fix o1 and s s' :: "('a, 'b) cluster" and o2 x
  assume A: "on fs A o1 s" and r: "print_cluster L c b bs t s = (s', o2, Inr x)"
  have w: "whole fs (run_batch L c b s)" using A whole_batch by (auto simp: on_def)
  obtain rows where sh: "show_nodes L c bs (active_node_ids (run_batch L c b s)) (run_batch L c b s) = (s', rows)"
    and o2: "o2 = [StateOf t rows]"
    using r by (auto simp: print_cluster_def Let_def split: prod.splits)
  from whole_show [OF w sh] have w': "whole fs s'" "map fst rows = running fs" using whole_running [OF w] by auto
  show "on fs (\<lambda>ls. \<exists>pre rows. ls = pre @ [StateOf t rows] \<and> A pre \<and> map fst rows = running fs) (o1 @ o2) s'"
    using w' A unfolding o2 on_def by blast
qed (auto simp: print_cluster_def Let_def split: prod.splits)

lemma on_halt:
  "triple (on fs A) (halt_cluster L c bs) (\<lambda>_ ls _. A ls) no_panic"
proof (rule tripleI)
  fix o1 and s s' :: "('a, 'b) cluster" and o2 e
  assume A: "on fs A o1 s" and r: "halt_cluster L c bs s = (s', o2, Inl e)"
  have "set (map fst s) \<subseteq> set (map fst fs)" using A map_fst_flags [of s] by (simp add: on_def whole_def)
  then show "no_panic e" using whole_halt_all [of fs s "map fst s" L c bs] A r
    by (auto simp: on_def halt_cluster_def)
qed (auto simp: on_def halt_cluster_def split: option.splits)

lemma on_stop_follower:
  assumes "set (running fs) \<subseteq> set (map fst fs)"
  shows "triple (on fs A) (stop_follower L c b l)
    (\<lambda>_ ls cl. \<exists>f. on (halted f fs)
      (\<lambda>ls. \<exists>pre. ls = pre @ [StopFollower f] \<and> A pre \<and> f \<in> set (running fs) \<and> f \<noteq> l) ls cl) no_panic"
proof (rule tripleI)
  fix o1 and s s' :: "('a, 'b) cluster" and o2 e
  assume A: "on fs A o1 s" and r: "stop_follower L c b l s = (s', o2, Inl e)"
  have w: "whole fs s" using A by (simp add: on_def)
  show "no_panic e"
  proof (cases "choose_follower l s")
    case None
    then show ?thesis using r by (auto simp: stop_follower_def)
  next
    case (Some f)
    then have "f \<in> set (map fst fs)" using assms whole_running [OF w] by (auto simp: choose_follower_def find_Some_iff)
    then show ?thesis using whole_halt [OF w, of f L c b] r Some by (auto simp: stop_follower_def)
  qed
next
  fix o1 and s s' :: "('a, 'b) cluster" and o2 x
  assume A: "on fs A o1 s" and r: "stop_follower L c b l s = (s', o2, Inr x)"
  have w: "whole fs s" using A by (simp add: on_def)
  from r obtain f where f: "choose_follower l s = Some f" "halt_node L c f b s = Some (Inr s')" "o2 = [StopFollower f]"
    by (auto simp: stop_follower_def split: option.splits sum.splits)
  then have m: "f \<in> set (running fs)" "f \<noteq> l" using whole_running [OF w] by (auto simp: choose_follower_def find_Some_iff)
  then have "whole (halted f fs) s'" using whole_halt [OF w, of f L c b] f(2) assms by auto
  then show "\<exists>f. on (halted f fs)
      (\<lambda>ls. \<exists>pre. ls = pre @ [StopFollower f] \<and> A pre \<and> f \<in> set (running fs) \<and> f \<noteq> l) (o1 @ o2) s'"
    using m A f(3) by (auto simp: on_def)
qed

lemma on_say: "triple (on fs A) (say l) (\<lambda>_. on fs (\<lambda>ls. \<exists>pre. ls = pre @ [l] \<and> A pre)) E"
  by (rule triple_say) (simp add: on_def)

lemma any_say: "triple (\<lambda>ls _. A ls) (say l) (\<lambda>_ ls _. \<exists>pre. ls = pre @ [l] \<and> A pre) E"
  by (rule triple_say) simp

lemma running_node_ids: "running (map (\<lambda>i. (i, False)) node_ids) = node_ids"
  "f \<in> set node_ids \<Longrightarrow> running (halted f (map (\<lambda>i. (i, False)) node_ids)) = filter (\<lambda>i. i \<noteq> f) node_ids"
  by (auto simp: running_def node_ids_def halted_def)

lemma distinct_node_ids: "distinct node_ids"
  by (simp add: node_ids_def)

section \<open>The run\<close>

text \<open>The lines of the two phases.\<close>

definition phase_one_lines :: "raft_line list \<Rightarrow> bool" where
  "phase_one_lines ls \<longleftrightarrow>
     (\<exists>l rows. ls = [Phase 1, LeaderIs 1 l, StateOf ''phase 1 committed:'' rows] \<and>
        l \<in> set node_ids \<and> map fst rows = node_ids)"

definition phase_two_lines :: "raft_line list \<Rightarrow> bool" where
  "phase_two_lines ls \<longleftrightarrow>
     (\<exists>l r1 r2 f r3. ls = [Phase 2, LeaderIs 2 l, StateOf ''after restart recovered:'' r1,
          StateOf ''after restart new write:'' r2, StopFollower f,
          StateOf ''one follower down, majority still commits:'' r3, DemoFinished] \<and>
        l \<in> set node_ids \<and> f \<in> set node_ids \<and> f \<noteq> l \<and> map fst r1 = node_ids \<and> map fst r2 = node_ids \<and>
        map fst r3 = filter (\<lambda>i. i \<noteq> f) node_ids)"

lemma phase_one_triple:
  "triple (\<lambda>ls _. ls = []) (phase_one L c nd0 S disks) (\<lambda>_ ls _. phase_one_lines ls) no_panic"
  unfolding phase_one_def
  apply (rule triple_then [OF any_say [where A = "\<lambda>ls. ls = []"]])
  apply (rule triple_then [OF on_boot [OF distinct_node_ids]])
  apply (rule triple_then [OF on_leader])
  apply (rule triple_then [OF on_say])
  apply (rule triple_then [OF triple_each])
   apply (auto simp: case_prod_beta' intro: triple_then [OF on_propose on_value])[1]
  apply (rule triple_then [OF on_print])
  apply (rule triple_conseq [OF on_halt])
   apply assumption
  apply (auto simp: phase_one_lines_def running_node_ids)
  done

lemma phase_two_triple:
  "triple (\<lambda>ls _. A ls) (phase_two L c nd0 S disks)
     (\<lambda>_ ls _. \<exists>pre post. ls = pre @ post \<and> A pre \<and> phase_two_lines post) no_panic"
  unfolding phase_two_def
  apply (rule triple_then [OF any_say])
  apply (rule triple_then [OF on_boot [OF distinct_node_ids]])
  apply (rule triple_then [OF on_leader])
  apply (rule triple_then [OF on_say])
  apply (rule triple_then [OF triple_each])
   apply (simp add: case_prod_beta' on_value)
  apply (rule triple_then [OF on_print])
  apply (rule triple_then [OF on_propose])
  apply (rule triple_then [OF on_value])
  apply (rule triple_then [OF on_print])
  apply (rule triple_then [OF on_stop_follower])
   apply (simp add: running_node_ids)
  apply (rule triple_ex)
  apply (rule triple_then [OF on_propose])
  apply (rule triple_then [OF on_value])
  apply (rule triple_then [OF on_print])
  apply (rule triple_then [OF on_say])
  apply (rule triple_conseq [OF on_halt])
   apply assumption
  apply (clarsimp simp: running_node_ids)
  apply (rule exI, rule exI, rule conjI [OF refl])
  apply (simp add: phase_two_lines_def)
  done

text \<open>
  C33. However the goroutines of the nodes are scheduled and whatever the library does, \<open>main\<close> never
  closes a stop channel twice and never looks for a node that is not there. When it comes to its end
  it has shown the three nodes after the writes, after the restart and after the new write, then has
  stopped a follower, never the leader of the second phase, and shown the two others.
\<close>

theorem raft_main_finishes:
  "case raft_main L c nd0 S cl of (_, ls, r) \<Rightarrow>
     (case r of
        Inl e \<Rightarrow> e \<noteq> ClosedTwice \<and> (\<forall>t. e \<noteq> NodeNotFound t)
      | Inr _ \<Rightarrow> \<exists>l1 l2 f r1 r2 r3 r4.
          ls = [Phase 1, LeaderIs 1 l1, StateOf ''phase 1 committed:'' r1, Phase 2, LeaderIs 2 l2,
                StateOf ''after restart recovered:'' r2, StateOf ''after restart new write:'' r3, StopFollower f,
                StateOf ''one follower down, majority still commits:'' r4, DemoFinished] \<and>
          l1 \<in> set node_ids \<and> l2 \<in> set node_ids \<and> f \<in> set node_ids \<and> f \<noteq> l2 \<and>
          map fst r1 = node_ids \<and> map fst r2 = node_ids \<and> map fst r3 = node_ids \<and>
          map fst r4 = filter (\<lambda>i. i \<noteq> f) node_ids)"
proof -
  have two: "triple (\<lambda>ls _. phase_one_lines ls) (\<lambda>cl. phase_two L c nd0 S (disks_of cl) cl)
      (\<lambda>_ ls _. \<exists>pre post. ls = pre @ post \<and> phase_one_lines pre \<and> phase_two_lines post) no_panic"
    unfolding triple_def
    by (intro allI impI) (rule phase_two_triple [of phase_one_lines L c nd0 S, unfolded triple_def, rule_format])
  have "triple (\<lambda>ls _. ls = []) (raft_main L c nd0 S)
      (\<lambda>_ ls _. \<exists>pre post. ls = pre @ post \<and> phase_one_lines pre \<and> phase_two_lines post) no_panic"
  proof (cases "removed S")
    case True
    then show ?thesis using triple_then [OF phase_one_triple two] by (simp add: raft_main_def)
  next
    case False
    then show ?thesis by (simp add: raft_main_def triple_def stop_def)
  qed
  from triple_ok [OF this refl] triple_stopped [OF this refl] show ?thesis
    by (fastforce simp: phase_one_lines_def phase_two_lines_def split: prod.splits sum.splits)
qed

section \<open>A run to the end\<close>

text \<open>A library in which everyone leads, and every node commits each write in the next batch.\<close>

definition easy_writes :: "(string \<times> string) list" where
  "easy_writes = initial_writes @ [(''z'', ''30''), (''k'', ''v'')]"

definition easy_codecs :: codecs where
  "easy_codecs =
     (one_codecs zero_hard \<lparr>eindex = 4, eterm = 5, etype = EntryNormal, edata = []\<rparr> zero_snap)
       \<lparr>json_command := (\<lambda>x. Some (ckey x)),
        unjson_command := (\<lambda>r. map_option (\<lambda>v. \<lparr>ckey = r, cvalue = v\<rparr>) (map_of easy_writes r))\<rparr>"

definition no_faults :: ready_faults where
  "no_faults = \<lparr>f_save = NoFault, f_append = NoFault, f_local = NoFault\<rparr>"

definition commit_ready :: "string \<Rightarrow> ready" where
  "commit_ready k =
     \<lparr>rd_hard = zero_hard, rd_entries = [], rd_snapshot = zero_snap,
      rd_committed = [\<lparr>eindex = 1, eterm = 1, etype = EntryNormal, edata = k\<rparr>], rd_messages = []\<rparr>"

definition commit_everywhere :: "string \<Rightarrow> batch" where
  "commit_everywhere k =
     map (\<lambda>i. (i, ReadyEv no_faults (commit_ready k))) node_ids"

definition easy_schedule :: schedule where
  "easy_schedule =
     \<lparr>removed = True, leader_polls = (\<lambda>_. [[]]), value_polls = (\<lambda>_ k. [[], commit_everywhere k]),
      stop_batches = (\<lambda>_ _. []), follower_batch = [], gaps = (\<lambda>_ _. []), row_gaps = (\<lambda>_ _ _. [])\<rparr>"

definition easy_disk :: disk where
  "easy_disk = fresh_disk\<lparr>dir_made := True\<rparr>"

text \<open>Node \<open>i\<close> with the map \<open>K\<close> and the index \<open>a\<close>, closed when \<open>b\<close>.\<close>

definition easy_node :: "(string \<rightharpoonup> string) \<Rightarrow> nat \<Rightarrow> bool \<Rightarrow> nat \<Rightarrow> (unit, unit) rnode" where
  "easy_node K a b i =
     (blank_node mute_lib i easy_disk ())
       \<lparr>kv := K, applied := a, conf := peer_ids node_ids, stopped := b, stop_closed := b, done_closed := b\<rparr>"

definition easy_cluster :: "(nat \<Rightarrow> (string \<rightharpoonup> string)) \<Rightarrow> (nat \<Rightarrow> nat) \<Rightarrow> (nat \<Rightarrow> bool) \<Rightarrow> (unit, unit) cluster" where
  "easy_cluster K a st = map (\<lambda>i. (i, easy_node (K i) (a i) (st i) i)) node_ids"

lemma easy_load: "d = fresh_disk \<or> d = easy_disk \<Longrightarrow> load easy_codecs NoFault d = (easy_disk, zero_boot, None)"
  by (auto simp: load_def ensure_dir_def load_snapshot_def fresh_disk_def easy_disk_def)

lemma easy_boot:
  assumes "\<And>i. disks i = fresh_disk \<or> disks i = easy_disk"
  shows "new_persistent_cluster mute_lib easy_codecs () disks node_ids =
    Inr (easy_cluster (\<lambda>_. Map.empty) (\<lambda>_. 0) (\<lambda>_. False))"
proof -
  have "new_raft_node mute_lib easy_codecs () NoFault i node_ids (disks i) = Inr (easy_node Map.empty 0 False i)" for i
    unfolding new_raft_node_def easy_load [OF assms [of i]]
    by (simp add: zero_boot_def boot_snapshot_def is_empty_snap_def zero_snap_def zero_hard_def is_empty_hard_def
        mute_lib_def easy_node_def blank_node_def Let_def)
  then show ?thesis
    by (simp add: new_persistent_cluster_def easy_cluster_def node_ids_def [symmetric])
      (simp add: node_ids_def)
qed

lemma easy_find: "i \<in> set node_ids \<Longrightarrow> find_node i (easy_cluster K a st) = Some (easy_node (K i) (a i) (st i) i)"
  by (auto simp: find_node_def easy_cluster_def node_ids_def)

lemma easy_put:
  "put_node i (easy_node k x b i) (easy_cluster K a st) = easy_cluster (K(i := k)) (a(i := x)) (st(i := b))"
  by (auto simp: put_node_def easy_cluster_def)

lemma easy_active: "active_node_ids (easy_cluster K a st) = filter (\<lambda>i. \<not> st i) node_ids"
  by (simp add: active_node_ids_def easy_cluster_def node_ids_def easy_node_def)

lemma easy_same [simp]: "easy_cluster (K(i := K i)) (a(i := a i)) (st(i := st i)) = easy_cluster K a st"
  by simp

lemma easy_disks: "disks_of (easy_cluster K a st) i = fresh_disk \<or> disks_of (easy_cluster K a st) i = easy_disk"
  by (auto simp: disks_of_def find_node_def easy_node_def blank_node_def easy_cluster_def split: option.splits dest!: map_of_SomeD)

lemma easy_apply:
  assumes "map_of easy_writes k = Some v"
  shows "apply_committed mute_lib easy_codecs NoFault (easy_node K a b i) [\<lparr>eindex = 1, eterm = 1, etype = EntryNormal, edata = k\<rparr>] =
    easy_node (K(k \<mapsto> v)) 1 b i"
proof -
  have "k \<noteq> []" using assms by (auto simp: easy_writes_def initial_writes_def split: if_splits)
  then show ?thesis using assms
    by (simp add: apply_committed_def apply_entry_def maybe_snapshot_def easy_codecs_def easy_node_def blank_node_def)
qed

lemma easy_take: "take_ready mute_lib easy_codecs no_faults (commit_ready k) (easy_node K a b i) = easy_node K a b i"
  by (simp add: take_ready_def persist_ready_def accept_ready_def accept_snapshot_def append_wal_def is_empty_hard_def
      is_empty_snap_def zero_hard_def zero_snap_def mute_lib_def easy_node_def blank_node_def no_faults_def commit_ready_def)

lemma easy_event:
  assumes "map_of easy_writes k = Some v" "i \<in> set node_ids"
  shows "run_event mute_lib easy_codecs i (ReadyEv no_faults (commit_ready k)) (easy_cluster K a st) =
    (if st i then easy_cluster K a st else easy_cluster (K(i := (K i)(k \<mapsto> v))) (a(i := 1)) st)"
proof (cases "st i")
  case True
  then show ?thesis using assms(2) by (simp add: run_event_def easy_find) (simp add: easy_node_def)
next
  case False
  have node: "n\<lparr>node := ()\<rparr> = n" for n :: "(unit, unit) rnode" by (cases n) simp
  have same: "st(i := False) = st" using False by (simp add: fun_eq_iff)
  have rd: "rd_committed (commit_ready k) = [\<lparr>eindex = 1, eterm = 1, etype = EntryNormal, edata = k\<rparr>]"
      "rd_messages (commit_ready k) = []" "f_local no_faults = NoFault"
    by (simp_all add: commit_ready_def no_faults_def)
  have open_: "\<not> done_closed (easy_node (K i) (a i) (st i) i)" using False by (simp add: easy_node_def)
  show ?thesis using False assms(2) open_
    by (simp add: run_event_def easy_find handle_ready_def easy_take easy_put deliver_def easy_apply [OF assms(1)] node same
        rd del: One_nat_def)
qed

text \<open>After a batch of commits every running node has the value.\<close>

definition easy :: "(nat \<Rightarrow> bool) \<Rightarrow> (unit, unit) cluster \<Rightarrow> bool" where
  "easy st cl \<longleftrightarrow> (\<exists>K a. cl = easy_cluster K a st)"

lemma easyI: "easy st (easy_cluster K a st)"
  by (auto simp: easy_def)

lemma easy_value:
  "value_everywhere k v (easy_cluster K a st) \<longleftrightarrow> (\<forall>i\<in>set node_ids. \<not> st i \<longrightarrow> K i k = Some v)"
  by (auto simp: value_everywhere_def easy_active list_all_iff easy_find easy_node_def)

lemma easy_commit:
  assumes "map_of easy_writes k = Some v"
  shows "\<exists>K' a'. run_batch mute_lib easy_codecs (commit_everywhere k) (easy_cluster K a st) = easy_cluster K' a' st \<and>
    (\<forall>i\<in>set node_ids. \<not> st i \<longrightarrow> K' i k = Some v)"
proof -
  have "\<exists>K' a'. run_batch mute_lib easy_codecs (map (\<lambda>i. (i, ReadyEv no_faults (commit_ready k))) is) (easy_cluster K a st) =
        easy_cluster K' a' st \<and> (\<forall>i\<in>set is \<union> done. \<not> st i \<longrightarrow> K' i k = Some v)"
    if "set is \<subseteq> set node_ids" "\<forall>i\<in>done. \<not> st i \<longrightarrow> K i k = Some v" for "is" "done" K a
    using that
  proof (induction "is" arbitrary: K a "done")
    case Nil
    then show ?case by (auto simp: run_batch_def)
  next
    case (Cons i js)
    have i: "i \<in> set node_ids" and js: "set js \<subseteq> set node_ids" using Cons.prems(1) by auto
    show ?case
    proof (cases "st i")
      case True
      then show ?thesis
        using Cons.IH [OF js, of "insert i done" K a] Cons.prems(2) by (simp add: run_batch_def easy_event [OF assms i] del: One_nat_def)
    next
      case False
      have "\<forall>j\<in>insert i done. \<not> st j \<longrightarrow> (K(i := (K i)(k \<mapsto> v))) j k = Some v" using Cons.prems(2) by simp
      with Cons.IH [OF js, of "insert i done" "K(i := (K i)(k \<mapsto> v))" "a(i := 1)"] False show ?thesis
        by (simp add: run_batch_def easy_event [OF assms i] del: One_nat_def fun_upd_apply)
    qed
  qed
  from this [of node_ids "{}" K a] show ?thesis by (simp add: commit_everywhere_def del: One_nat_def)
qed

definition goes ::
    "(('m, 'n) cluster \<Rightarrow> bool) \<Rightarrow> ('m, 'n, 'a) raft_script \<Rightarrow> (('m, 'n) cluster \<Rightarrow> bool) \<Rightarrow> 'a \<Rightarrow> bool" where
  "goes P m Q x \<longleftrightarrow> (\<forall>cl. P cl \<longrightarrow> (\<exists>cl' out. run_to m cl cl' out x \<and> Q cl'))"

lemma goes_then: "goes P m Q x \<Longrightarrow> goes Q (f x) R y \<Longrightarrow> goes P (and_then m f) R y"
  unfolding goes_def by (meson run_to_and_then)

lemma goes_say: "goes P (say l) P ()"
  by (auto simp: goes_def intro: run_to_say)

lemma goes_each: "(\<And>x. x \<in> set xs \<Longrightarrow> goes P (f x) P ()) \<Longrightarrow> goes P (each f xs) P ()"
proof (induction xs)
  case Nil
  then show ?case by (auto simp: goes_def give_def run_to_def)
next
  case (Cons x xs)
  show ?case unfolding each.simps by (rule goes_then [where Q = P]) (use Cons in simp_all)
qed

definition all_run :: "nat \<Rightarrow> bool" where
  "all_run = (\<lambda>_. False)"

lemma easy_goes_boot:
  "(\<And>i. disks i = fresh_disk \<or> disks i = easy_disk) \<Longrightarrow>
     goes (\<lambda>_. True) (boot_cluster mute_lib easy_codecs () node_ids disks) (easy all_run) ()"
  by (auto simp: goes_def run_to_def boot_cluster_def easy_boot easy_def all_run_def)

lemma easy_goes_leader: "goes (easy all_run) (await_leader mute_lib easy_codecs [[]]) (easy all_run) 1"
proof -
  have "leader_now mute_lib (easy_cluster K a all_run) = Some 1" for K a
    by (simp add: leader_now_def easy_active all_run_def easy_find)
      (simp add: node_ids_def easy_find mute_lib_def)
  then have "run_to (await_leader mute_lib easy_codecs [[]]) (easy_cluster K a all_run) (easy_cluster K a all_run) [] 1" for K a
    by (simp add: run_to_def await_leader_def run_batch_def)
  then show ?thesis unfolding goes_def easy_def by blast
qed

lemma easy_goes_propose:
  assumes "\<not> st 1"
  shows "goes (easy st) (propose mute_lib easy_codecs [] 1 k v) (easy st) ()"
proof -
  have n: "1 \<in> set node_ids" by (simp add: node_ids_def)
  have same: "(easy_node k x b i)\<lparr>node := ()\<rparr> = easy_node k x b i" for k x b i
    by (cases "easy_node k x b i") simp
  have put: "put_node 1 (easy_node (K 1) (a 1) False 1) (easy_cluster K a st) = easy_cluster K a st" for K a
    using easy_put [of 1 "K 1" "a 1" False K a st] assms by (simp add: fun_upd_idem del: One_nat_def)
  have lib: "nd_propose mute_lib d x = Inr ()" "json_command easy_codecs y = Some (ckey y)" for d x y
    by (simp_all add: mute_lib_def easy_codecs_def)
  have open_: "\<not> stopped (easy_node k x False i)" for k x i by (simp add: easy_node_def)
  have "propose_kv mute_lib easy_codecs 1 k v (easy_cluster K a st) = Inr (easy_cluster K a st)" for K a
    using assms by (simp add: propose_kv_def easy_find [OF n] same put lib open_ del: One_nat_def)
  then have "run_to (propose mute_lib easy_codecs [] 1 k v) (easy_cluster K a st) (easy_cluster K a st) [] ()" for K a
    by (simp add: run_to_def propose_def run_batch_def)
  then show ?thesis unfolding goes_def easy_def by blast
qed

lemma easy_goes_value:
  assumes "map_of easy_writes k = Some v"
  shows "goes (easy st) (await_value mute_lib easy_codecs [[], commit_everywhere k] k v) (easy st) ()"
  unfolding goes_def easy_def
proof (intro allI impI)
  fix cl assume "\<exists>K a. cl = easy_cluster K a st"
  then obtain K a where cl: "cl = easy_cluster K a st" by blast
  obtain K' a' where c: "run_batch mute_lib easy_codecs (commit_everywhere k) (easy_cluster K a st) = easy_cluster K' a' st"
      "\<forall>i\<in>set node_ids. \<not> st i \<longrightarrow> K' i k = Some v"
    using easy_commit [OF assms] by blast
  show "\<exists>cl' out. run_to (await_value mute_lib easy_codecs [[], commit_everywhere k] k v) cl cl' out () \<and> (\<exists>K a. cl' = easy_cluster K a st)"
  proof (cases "value_everywhere k v (easy_cluster K a st)")
    case True
    then show ?thesis by (auto simp: run_to_def await_value_def cl run_batch_def)
  next
    case False
    have "run_batch mute_lib easy_codecs [] (easy_cluster K a st) = easy_cluster K a st" by (simp add: run_batch_def)
    moreover have "value_everywhere k v (easy_cluster K' a' st)" using c(2) by (simp add: easy_value)
    ultimately show ?thesis using False by (auto simp: run_to_def await_value_def cl c(1))
  qed
qed

lemma easy_halt:
  assumes i: "i \<in> set node_ids"
  shows "halt_node mute_lib easy_codecs i [] (easy_cluster K a st) = Some (Inr (easy_cluster K a (st(i := True))))"
proof (cases "st i")
  case True
  have put: "put_node i (easy_node (K i) (a i) True i) (easy_cluster K a st) = easy_cluster K a st"
    using easy_put [of i "K i" "a i" True K a st] True by (simp add: fun_upd_idem)
  have closed: "stop_rnode (easy_node k x True i) = Some (easy_node k x True i)" "done_closed (easy_node k x True i)" for k x
    by (simp_all add: stop_rnode_def easy_node_def)
  have "st(i := True) = st" using True by (simp add: fun_eq_iff)
  then show ?thesis using True
    by (simp add: halt_node_def stop_node_def easy_find [OF i] closed put run_batch_def run_event_def)
next
  case False
  let ?n = "(easy_node (K i) (a i) False i)\<lparr>stopped := True, stop_closed := True\<rparr>"
  have stop: "stop_rnode (easy_node (K i) (a i) False i) = Some ?n"
    by (simp add: stop_rnode_def close_chan_def easy_node_def)
  have over: "?n\<lparr>node := (), done_closed := True\<rparr> = easy_node (K i) (a i) True i"
    by (simp add: easy_node_def blank_node_def)
  have find: "find_node i (put_node i ?n (easy_cluster K a st)) = Some ?n"
    using find_put_same easy_find [OF i] by metis
  have put: "put_node i n' (put_node i n cl) = put_node i n' cl" for n n' :: "(unit, unit) rnode" and cl
    by (simp add: put_node_def case_prod_beta')
  have "done_closed ?n = False" "stop_closed ?n" by (simp_all add: easy_node_def)
  then have "run_event mute_lib easy_codecs i StopEv (put_node i ?n (easy_cluster K a st)) =
      put_node i (easy_node (K i) (a i) True i) (easy_cluster K a st)"
    unfolding run_event_def find by (simp add: put over [simplified])
  then show ?thesis using False easy_put [of i "K i" "a i" True K a st]
    by (simp add: halt_node_def stop_node_def easy_find [OF i] stop run_batch_def)
qed

lemma easy_goes_print: "goes (easy st) (print_cluster mute_lib easy_codecs [] (\<lambda>_. []) t) (easy st) ()"
proof -
  have "fst (show_nodes mute_lib easy_codecs (\<lambda>_. []) is cl) = cl" for "is" cl
    by (induction "is" arbitrary: cl) (simp_all add: run_batch_def Let_def case_prod_beta')
  then have "\<exists>out. run_to (print_cluster mute_lib easy_codecs [] (\<lambda>_. []) t) cl cl out ()" for cl
    by (simp add: run_to_def print_cluster_def run_batch_def Let_def case_prod_beta')
  then show ?thesis unfolding goes_def by blast
qed

lemma easy_goes_follower:
  "goes (easy all_run) (stop_follower mute_lib easy_codecs [] 1) (easy (all_run(2 := True))) ()"
proof -
  have "choose_follower 1 (easy_cluster K a all_run) = Some 2" for K a
    by (simp add: choose_follower_def easy_active all_run_def) (simp add: node_ids_def)
  moreover have "2 \<in> set node_ids" by (simp add: node_ids_def)
  ultimately have "run_to (stop_follower mute_lib easy_codecs [] 1) (easy_cluster K a all_run)
      (easy_cluster K a (all_run(2 := True))) [StopFollower 2] ()" for K a
    by (simp add: run_to_def stop_follower_def easy_halt del: One_nat_def)
  then show ?thesis unfolding goes_def easy_def by blast
qed

lemma easy_goes_halt: "goes (easy st) (halt_cluster mute_lib easy_codecs (\<lambda>_. [])) (\<lambda>cl. \<exists>st. easy st cl) ()"
proof -
  have all: "\<exists>K' a' st'. halt_all mute_lib easy_codecs (\<lambda>_. []) is (easy_cluster K a st) = Some (easy_cluster K' a' st')"
    if "set is \<subseteq> set node_ids" for "is" K a st
    using that by (induction "is" arbitrary: K a st) (auto simp: easy_halt)
  have ids: "map fst (easy_cluster K a st) = node_ids" for K a
    by (simp add: easy_cluster_def comp_def)
  show ?thesis unfolding goes_def easy_def
  proof (intro allI impI)
    fix cl assume "\<exists>K a. cl = easy_cluster K a st"
    then obtain K a where cl: "cl = easy_cluster K a st" by blast
    show "\<exists>cl' out. run_to (halt_cluster mute_lib easy_codecs (\<lambda>_. [])) cl cl' out () \<and> (\<exists>st K a. cl' = easy_cluster K a st)"
      using all [of node_ids K a st] unfolding cl halt_cluster_def run_to_def ids by fastforce
  qed
qed

lemma goes_weaken: "goes P m Q x \<Longrightarrow> (\<And>cl. P' cl \<Longrightarrow> P cl) \<Longrightarrow> goes P' m Q x"
  by (auto simp: goes_def)

lemma easy_goes_writes:
  "goes (easy all_run) (each (\<lambda>(k, v). await_value mute_lib easy_codecs [[], commit_everywhere k] k v) initial_writes) (easy all_run) ()"
  "goes (easy all_run) (each (\<lambda>(k, v). and_then (propose mute_lib easy_codecs [] 1 k v)
     (\<lambda>_. await_value mute_lib easy_codecs [[], commit_everywhere k] k v)) initial_writes) (easy all_run) ()"
proof -
  have w: "goes (easy all_run) (await_value mute_lib easy_codecs [[], commit_everywhere k] k v) (easy all_run) ()"
    if "(k, v) \<in> set initial_writes" for k v
    using that by (intro easy_goes_value) (auto simp: easy_writes_def initial_writes_def)
  have p: "goes (easy all_run) (propose mute_lib easy_codecs [] 1 k v) (easy all_run) ()" for k v
    by (rule easy_goes_propose) (simp add: all_run_def)
  show "goes (easy all_run) (each (\<lambda>(k, v). await_value mute_lib easy_codecs [[], commit_everywhere k] k v) initial_writes) (easy all_run) ()"
    by (rule goes_each) (use w in auto)
  show "goes (easy all_run) (each (\<lambda>(k, v). and_then (propose mute_lib easy_codecs [] 1 k v)
     (\<lambda>_. await_value mute_lib easy_codecs [[], commit_everywhere k] k v)) initial_writes) (easy all_run) ()"
  proof (rule goes_each)
    fix x assume "x \<in> set initial_writes"
    then show "goes (easy all_run) (case x of (k, v) \<Rightarrow> and_then (propose mute_lib easy_codecs [] 1 k v)
        (\<lambda>_. await_value mute_lib easy_codecs [[], commit_everywhere k] k v)) (easy all_run) ()"
      unfolding case_prod_beta by (intro goes_then [where Q = "easy all_run" and x = "()"] p w) simp
  qed
qed

lemma easy_goes_one:
  "goes (\<lambda>_. True) (phase_one mute_lib easy_codecs () easy_schedule (\<lambda>_. fresh_disk)) (\<lambda>cl. \<exists>st. easy st cl) ()"
  unfolding phase_one_def easy_schedule_def schedule.simps
  by (intro goes_then [OF goes_say] goes_then [OF easy_goes_boot] goes_then [OF easy_goes_leader] easy_goes_halt
      goes_then [OF easy_goes_writes(2)] goes_then [OF easy_goes_print]) simp

lemma easy_goes_two:
  assumes d: "\<And>i. disks i = fresh_disk \<or> disks i = easy_disk"
  shows "goes (\<lambda>_. True) (phase_two mute_lib easy_codecs () easy_schedule disks) (\<lambda>cl. \<exists>st. easy st cl) ()"
proof -
  have p: "goes (easy all_run) (propose mute_lib easy_codecs [] 1 k v) (easy all_run) ()"
    "goes (easy (all_run(2 := True))) (propose mute_lib easy_codecs [] 1 k v) (easy (all_run(2 := True))) ()" for k v
    by (rule easy_goes_propose, simp add: all_run_def)+
  have z: "map_of easy_writes ''z'' = Some ''30''" "map_of easy_writes ''k'' = Some ''v''"
    by (simp_all add: easy_writes_def initial_writes_def)
  show ?thesis
    unfolding phase_two_def easy_schedule_def schedule.simps
    by (intro goes_then [OF goes_say] goes_then [OF easy_goes_boot] goes_then [OF easy_goes_leader] easy_goes_halt
        goes_then [OF easy_goes_writes(1)] goes_then [OF easy_goes_print] goes_then [OF easy_goes_follower]
        goes_then [OF p(1)] goes_then [OF p(2)]
        goes_then [OF easy_goes_value [OF z(1)]] goes_then [OF easy_goes_value [OF z(2)]]) (rule d)
qed

lemma easy_run: "\<exists>cl out. run_to (raft_main mute_lib easy_codecs () easy_schedule) [] cl out ()"
proof -
  obtain cl1 o1 st where 1: "run_to (phase_one mute_lib easy_codecs () easy_schedule (\<lambda>_. fresh_disk)) [] cl1 o1 ()" "easy st cl1"
    using easy_goes_one unfolding goes_def by blast
  have "goes (\<lambda>_. True) (phase_two mute_lib easy_codecs () easy_schedule (disks_of cl1)) (\<lambda>cl. \<exists>st. easy st cl) ()"
    using 1(2) easy_disks by (intro easy_goes_two) (auto simp: easy_def)
  then obtain cl2 o2 where 2: "run_to (phase_two mute_lib easy_codecs () easy_schedule (disks_of cl1)) cl1 cl2 o2 ()"
    unfolding goes_def by blast
  have "removed easy_schedule" by (simp add: easy_schedule_def)
  then show ?thesis using run_to_and_then [OF 1(1), of "\<lambda>_ cl. phase_two mute_lib easy_codecs () easy_schedule (disks_of cl) cl"] 2
    unfolding raft_main_def run_to_def by auto
qed

theorem raft_main_finishes_witness:
  "\<exists>cl out l1 l2 f r1 r2 r3 r4. run_to (raft_main mute_lib easy_codecs () easy_schedule) [] cl out () \<and>
     out = [Phase 1, LeaderIs 1 l1, StateOf ''phase 1 committed:'' r1, Phase 2, LeaderIs 2 l2,
       StateOf ''after restart recovered:'' r2, StateOf ''after restart new write:'' r3, StopFollower f,
       StateOf ''one follower down, majority still commits:'' r4, DemoFinished] \<and>
     f \<noteq> l2 \<and> map fst r4 = filter (\<lambda>i. i \<noteq> f) node_ids"
proof -
  obtain cl out where r: "run_to (raft_main mute_lib easy_codecs () easy_schedule) [] cl out ()"
    using easy_run by blast
  show ?thesis
    using raft_main_finishes [of mute_lib easy_codecs "()" easy_schedule "[]"] r unfolding run_to_def by fastforce
qed

end
