(* ===== verification/MvccDemo.thy ===== *)
theory MvccDemo
  imports TxnRev GoScript
begin

text \<open>
  \<open>etcd/mvcc/main.go\<close>: a tour of etcd's revisions. The etcd cluster is not code of the repository: it
  is the record \<open>etcd_lib\<close> of the calls the program makes, and \<open>etcd_lawful\<close> states what etcd's
  documentation promises of them over a view of the cluster's state: the current and the compacted
  revision and the events of each key. Other clients may write other keys at any time. \<open>main\<close> is a
  script that stops at the first failing call, as \<open>log.Fatalf\<close> does.
\<close>

section \<open>Keys with their history\<close>

datatype event = PutEv int string | DelEv int

fun ev_rev :: "event \<Rightarrow> int" where
  "ev_rev (PutEv r _) = r"
| "ev_rev (DelEv r) = r"

record mvcc_kv =
  kval :: string
  kcreate :: int
  kmod :: int
  kversion :: int

text \<open>\<open>KeyValue\<close> after one more event: the version counts the puts since the key was created.\<close>

fun kv_step :: "mvcc_kv option \<Rightarrow> event \<Rightarrow> mvcc_kv option" where
  "kv_step None (PutEv r v) = Some \<lparr>kval = v, kcreate = r, kmod = r, kversion = 1\<rparr>"
| "kv_step (Some kv) (PutEv r v) = Some (kv\<lparr>kval := v, kmod := r, kversion := kversion kv + 1\<rparr>)"
| "kv_step _ (DelEv r) = None"

definition kv_now :: "event list \<Rightarrow> mvcc_kv option" where
  "kv_now es = foldl kv_step None es"

definition kv_at :: "event list \<Rightarrow> int \<Rightarrow> mvcc_kv option" where
  "kv_at es r = kv_now (filter (\<lambda>e. ev_rev e \<le> r) es)"

section \<open>The calls\<close>

datatype get_error = Compacted | OtherError

text \<open>
  Reading from revision 0 is reading the latest. \<open>ed_cas k r v\<close> is the transaction that compares the
  modification revision of \<open>k\<close> with \<open>r\<close>, then puts \<open>v\<close>, or else gets \<open>k\<close>; it answers \<open>Succeeded\<close>.
  \<open>ed_recv k r\<close> is the first response of a watch of \<open>k\<close> opened at revision \<open>r\<close>, \<open>None\<close> when the
  watch is closed without one.
\<close>

record 's etcd_lib =
  ed_delete :: "string \<Rightarrow> 's \<Rightarrow> 's \<times> bool"
  ed_put :: "string \<Rightarrow> string \<Rightarrow> 's \<Rightarrow> 's \<times> int option"
  ed_get :: "string \<Rightarrow> int \<Rightarrow> 's \<Rightarrow> 's \<times> (get_error + mvcc_kv list)"
  ed_cas :: "string \<Rightarrow> int \<Rightarrow> string \<Rightarrow> 's \<Rightarrow> 's \<times> bool option"
  ed_recv :: "string \<Rightarrow> int \<Rightarrow> 's \<Rightarrow> 's \<times> (get_error + event list) option"
  ed_compact :: "int \<Rightarrow> 's \<Rightarrow> 's \<times> bool"

datatype mvcc_line =
  Connecting "string list"
| PutLine string string int
| KvLine string string mvcc_kv
| AtRevLine int string mvcc_kv
| ClusterNow int
| CasLine bool
| StaleCasLine bool
| EventLine event
| CompactedLine int
| ReadFailedAsExpected int
| ReadFailedOther int
| ReadSucceeded int
| Finished

datatype mvcc_fatal =
  ClientFailed | KeyCleanupFailed | PutKeyFailed string | GetKeyFailed | GetKeyEmpty
| CasFailed | StaleCasFailed | WatchFailed | CompactFailed

type_synonym ('s, 'a) mvcc_script = "('s, mvcc_line, mvcc_fatal, 'a) script"

definition demo_key :: string where
  "demo_key = ''demo/mvcc/order''"

definition must_put :: "'s etcd_lib \<Rightarrow> string \<Rightarrow> string \<Rightarrow> ('s, int) mvcc_script" where
  "must_put L key val s =
     (case ed_put L key val s of
        (s', None) \<Rightarrow> (s', [], Inl (PutKeyFailed key))
      | (s', Some r) \<Rightarrow> (s', [PutLine key val r], Inr r))"

definition must_get_single_at_rev :: "'s etcd_lib \<Rightarrow> string \<Rightarrow> int \<Rightarrow> ('s, mvcc_kv) mvcc_script" where
  "must_get_single_at_rev L key r s =
     (case ed_get L key r s of
        (s', Inl _) \<Rightarrow> (s', [], Inl GetKeyFailed)
      | (s', Inr []) \<Rightarrow> (s', [], Inl GetKeyEmpty)
      | (s', Inr (kv # _)) \<Rightarrow> (s', [], Inr kv))"

definition must_get_single :: "'s etcd_lib \<Rightarrow> string \<Rightarrow> ('s, mvcc_kv) mvcc_script" where
  "must_get_single L key = must_get_single_at_rev L key 0"

definition clean_key :: "'s etcd_lib \<Rightarrow> string \<Rightarrow> ('s, unit) mvcc_script" where
  "clean_key L key s =
     (case ed_delete L key s of (s', ok) \<Rightarrow> (s', [], if ok then Inr () else Inl KeyCleanupFailed))"

definition cas :: "'s etcd_lib \<Rightarrow> mvcc_fatal \<Rightarrow> string \<Rightarrow> int \<Rightarrow> string \<Rightarrow> ('s, bool) mvcc_script" where
  "cas L e key r v s =
     (case ed_cas L key r v s of (s', None) \<Rightarrow> (s', [], Inl e) | (s', Some ok) \<Rightarrow> (s', [], Inr ok))"

text \<open>The loop over the watch channel leaves after its first response.\<close>

definition first_response :: "'s etcd_lib \<Rightarrow> string \<Rightarrow> int \<Rightarrow> ('s, unit) mvcc_script" where
  "first_response L key r s =
     (case ed_recv L key r s of
        (s', None) \<Rightarrow> (s', [], Inr ())
      | (s', Some (Inl _)) \<Rightarrow> (s', [], Inl WatchFailed)
      | (s', Some (Inr evs)) \<Rightarrow> (s', map EventLine evs, Inr ()))"

definition compact_to :: "'s etcd_lib \<Rightarrow> int \<Rightarrow> ('s, unit) mvcc_script" where
  "compact_to L r s =
     (case ed_compact L r s of
        (s', ok) \<Rightarrow> if ok then (s', [CompactedLine r], Inr ()) else (s', [], Inl CompactFailed))"

definition read_compacted :: "'s etcd_lib \<Rightarrow> string \<Rightarrow> int \<Rightarrow> ('s, unit) mvcc_script" where
  "read_compacted L key r s =
     (case ed_get L key r s of
        (s', Inl Compacted) \<Rightarrow> (s', [ReadFailedAsExpected r], Inr ())
      | (s', Inl OtherError) \<Rightarrow> (s', [ReadFailedOther r], Inr ())
      | (s', Inr _) \<Rightarrow> (s', [ReadSucceeded r], Inr ()))"

definition loop_value :: "nat \<Rightarrow> string" where
  "loop_value i = ''v'' @ itoa (int i) @ ''-updated''"

section \<open>main\<close>

text \<open>The sections of \<open>main\<close>, in its order; \<open>created\<close> says whether \<open>clientv3.New\<close> succeeds.\<close>

definition seed_puts :: "'s etcd_lib \<Rightarrow> string \<Rightarrow> ('s, int \<times> int \<times> int) mvcc_script" where
  "seed_puts L key =
     and_then (clean_key L key) (\<lambda>_.
     and_then (must_put L key ''v1-created'') (\<lambda>p1.
     and_then (must_put L key ''v2-updated'') (\<lambda>p2.
     and_then (must_put L key ''v3-updated'') (\<lambda>p3.
     and_then (each (\<lambda>i. and_then (must_put L key (loop_value i)) (\<lambda>_. give ())) [0..<100]) (\<lambda>_.
     give (p1, p2, p3))))))"

definition show_reads :: "'s etcd_lib \<Rightarrow> string \<Rightarrow> int \<times> int \<times> int \<Rightarrow> ('s, mvcc_kv) mvcc_script" where
  "show_reads L key p = (case p of (p1, p2, p3) \<Rightarrow>
     and_then (must_get_single L key) (\<lambda>latest.
     and_then (say (KvLine ''latest'' key latest)) (\<lambda>_.
     and_then (say (ClusterNow p3)) (\<lambda>_.
     and_then (must_get_single_at_rev L key p1) (\<lambda>h1.
     and_then (must_get_single_at_rev L key p2) (\<lambda>h2.
     and_then (must_get_single_at_rev L key p3) (\<lambda>h3.
     and_then (say (AtRevLine p1 key h1)) (\<lambda>_.
     and_then (say (AtRevLine p2 key h2)) (\<lambda>_.
     and_then (say (AtRevLine p3 key h3)) (\<lambda>_.
     give latest))))))))))"

definition swap_latest :: "'s etcd_lib \<Rightarrow> string \<Rightarrow> mvcc_kv \<Rightarrow> ('s, unit) mvcc_script" where
  "swap_latest L key latest =
     and_then (cas L CasFailed key (kmod latest) ''v4-by-cas'') (\<lambda>ok.
     and_then (say (CasLine ok)) (\<lambda>_.
     if ok then and_then (must_get_single L key) (\<lambda>after_cas. say (KvLine ''after cas'' key after_cas))
     else give ()))"

definition swap_stale :: "'s etcd_lib \<Rightarrow> string \<Rightarrow> int \<Rightarrow> ('s, unit) mvcc_script" where
  "swap_stale L key p1 =
     and_then (cas L StaleCasFailed key p1 ''should-not-write'') (\<lambda>ok. say (StaleCasLine ok))"

definition watch_section :: "'s etcd_lib \<Rightarrow> string \<Rightarrow> int \<Rightarrow> ('s, unit) mvcc_script" where
  "watch_section L key p2 =
     (let watch_start_rev = p2 + 1 in
      and_then (must_put L key ''v5-watch-event'') (\<lambda>_. first_response L key watch_start_rev))"

definition mvcc_main :: "'s etcd_lib \<Rightarrow> string \<Rightarrow> bool \<Rightarrow> ('s, unit) mvcc_script" where
  "mvcc_main L env created =
     and_then (say (Connecting (mvcc_endpoints env))) (\<lambda>_.
     if \<not> created then stop ClientFailed else
     (let key = demo_key in
      and_then (seed_puts L key) (\<lambda>(p1, p2, p3).
      and_then (show_reads L key (p1, p2, p3)) (\<lambda>latest.
      and_then (swap_latest L key latest) (\<lambda>_.
      and_then (swap_stale L key p1) (\<lambda>_.
      and_then (watch_section L key p2) (\<lambda>_.
      and_then (compact_to L p2) (\<lambda>_.
      and_then (read_compacted L key p1) (\<lambda>_.
      say Finished)))))))))"

section \<open>What etcd promises\<close>

text \<open>
  The view of a cluster state. Revisions only grow, the events of a key have increasing revisions,
  and the compacted revision is one the cluster has had. They are \<open>int64\<close> in the code; a cluster
  that reaches 2^63 writes is out of the model.
\<close>

record etcd_view =
  now :: int
  compacted :: int
  events :: "string \<Rightarrow> event list"

definition view_ok :: "etcd_view \<Rightarrow> bool" where
  "view_ok w \<longleftrightarrow> 0 \<le> compacted w \<and> compacted w \<le> now w \<and>
     (\<forall>k. sorted_wrt (<) (map ev_rev (events w k)) \<and> (\<forall>e \<in> set (events w k). 0 < ev_rev e \<and> ev_rev e \<le> now w))"

text \<open>Nothing happens to \<open>k\<close> and no compaction, though other keys may be written.\<close>

definition same_key :: "string \<Rightarrow> etcd_view \<Rightarrow> etcd_view \<Rightarrow> bool" where
  "same_key k w w' \<longleftrightarrow> view_ok w' \<and> now w \<le> now w' \<and> compacted w' = compacted w \<and> events w' k = events w k"

definition one_put :: "string \<Rightarrow> string \<Rightarrow> int \<Rightarrow> etcd_view \<Rightarrow> etcd_view \<Rightarrow> bool" where
  "one_put k v r w w' \<longleftrightarrow> view_ok w' \<and> now w < r \<and> r \<le> now w' \<and> compacted w' = compacted w \<and>
     events w' k = events w k @ [PutEv r v]"

definition read_result :: "event list \<Rightarrow> int \<Rightarrow> mvcc_kv list" where
  "read_result es r = (case (if r = 0 then kv_now es else kv_at es r) of None \<Rightarrow> [] | Some kv \<Rightarrow> [kv])"

definition get_lawful :: "'s etcd_lib \<Rightarrow> ('s \<Rightarrow> etcd_view) \<Rightarrow> bool" where
  "get_lawful L view \<longleftrightarrow> (\<forall>k r s s' x. view_ok (view s) \<longrightarrow> ed_get L k r s = (s', x) \<longrightarrow>
     same_key k (view s) (view s') \<and>
     (case x of
        Inl Compacted \<Rightarrow> 0 < r \<and> r < compacted (view s)
      | Inl OtherError \<Rightarrow> True
      | Inr kvs \<Rightarrow> (r = 0 \<or> compacted (view s) \<le> r) \<and> kvs = read_result (events (view s) k) r))"

definition write_lawful :: "'s etcd_lib \<Rightarrow> ('s \<Rightarrow> etcd_view) \<Rightarrow> bool" where
  "write_lawful L view \<longleftrightarrow> (\<forall>k v r s s'. view_ok (view s) \<longrightarrow>
     (ed_delete L k s = (s', True) \<longrightarrow>
        view_ok (view s') \<and> now (view s) \<le> now (view s') \<and> compacted (view s') = compacted (view s) \<and> kv_now (events (view s') k) = None) \<and>
     (ed_put L k v s = (s', Some r) \<longrightarrow> one_put k v r (view s) (view s')))"

definition current_mod :: "event list \<Rightarrow> int" where
  "current_mod es = (case kv_now es of None \<Rightarrow> 0 | Some kv \<Rightarrow> kmod kv)"

definition cas_lawful :: "'s etcd_lib \<Rightarrow> ('s \<Rightarrow> etcd_view) \<Rightarrow> bool" where
  "cas_lawful L view \<longleftrightarrow> (\<forall>k v r s s' ok. view_ok (view s) \<longrightarrow> ed_cas L k r v s = (s', Some ok) \<longrightarrow>
     (if current_mod (events (view s) k) = r then ok \<and> (\<exists>r'. one_put k v r' (view s) (view s'))
      else \<not> ok \<and> same_key k (view s) (view s')))"

text \<open>A watch delivers the events of its key from its revision on, in order, some at a time.\<close>

definition watch_lawful :: "'s etcd_lib \<Rightarrow> ('s \<Rightarrow> etcd_view) \<Rightarrow> bool" where
  "watch_lawful L view \<longleftrightarrow> (\<forall>k r s s' x. view_ok (view s) \<longrightarrow> ed_recv L k r s = (s', x) \<longrightarrow>
     same_key k (view s) (view s') \<and>
     (\<forall>evs. x = Some (Inr evs) \<longrightarrow> evs \<noteq> [] \<and> (\<exists>rest. filter (\<lambda>e. r \<le> ev_rev e) (events (view s) k) = evs @ rest)))"

definition compact_lawful :: "'s etcd_lib \<Rightarrow> ('s \<Rightarrow> etcd_view) \<Rightarrow> bool" where
  "compact_lawful L view \<longleftrightarrow> (\<forall>r s s'. view_ok (view s) \<longrightarrow> ed_compact L r s = (s', True) \<longrightarrow>
     view_ok (view s') \<and> now (view s) \<le> now (view s') \<and> compacted (view s') = r \<and> events (view s') = events (view s))"

definition etcd_lawful :: "'s etcd_lib \<Rightarrow> ('s \<Rightarrow> etcd_view) \<Rightarrow> bool" where
  "etcd_lawful L view \<longleftrightarrow> get_lawful L view \<and> write_lawful L view \<and> cas_lawful L view \<and> watch_lawful L view \<and> compact_lawful L view"

text \<open>A cluster that answers every call it can.\<close>

definition etcd_available :: "'s etcd_lib \<Rightarrow> ('s \<Rightarrow> etcd_view) \<Rightarrow> bool" where
  "etcd_available L view \<longleftrightarrow> (\<forall>s k v r. view_ok (view s) \<longrightarrow>
     snd (ed_delete L k s) \<and> snd (ed_put L k v s) \<noteq> None \<and> snd (ed_cas L k r v s) \<noteq> None \<and>
     (0 \<le> r \<and> r \<le> now (view s) \<longrightarrow> snd (ed_get L k r s) \<noteq> Inl OtherError) \<and>
     (\<forall>e. compacted (view s) < r \<longrightarrow> snd (ed_recv L k r s) \<noteq> Some (Inl e)) \<and>
     (compacted (view s) < r \<and> r \<le> now (view s) \<longrightarrow> snd (ed_compact L r s)))"

section \<open>Histories of puts\<close>

definition puts :: "int list \<Rightarrow> string list \<Rightarrow> event list" where
  "puts rs vs = map2 PutEv rs vs"

lemma kv_now_append: "kv_now (es @ fs) = foldl kv_step (kv_now es) fs"
  by (simp add: kv_now_def)

lemma puts_Nil [simp]: "puts [] vs = []" "puts rs [] = []"
  by (simp_all add: puts_def)

lemma puts_Cons [simp]: "puts (r # rs) (v # vs) = PutEv r v # puts rs vs"
  by (simp add: puts_def)

lemma puts_snoc: "length rs = length vs \<Longrightarrow> puts rs vs @ [PutEv r v] = puts (rs @ [r]) (vs @ [v])"
  by (simp add: puts_def)

lemma map_ev_rev_puts: "length rs = length vs \<Longrightarrow> map ev_rev (puts rs vs) = rs"
  by (induction rs vs rule: list_induct2) simp_all

lemma foldl_puts:
  "length rs = length vs \<Longrightarrow> foldl kv_step (Some kv) (puts rs vs) =
     Some (if rs = [] then kv else kv\<lparr>kval := last vs, kmod := last rs, kversion := kversion kv + int (length rs)\<rparr>)"
  by (induction rs vs arbitrary: kv rule: list_induct2) auto

text \<open>A key created at \<open>r\<close> after a deletion and put again and again.\<close>

lemma kv_now_puts:
  assumes "kv_now es = None" "length rs = length vs"
  shows "kv_now (es @ PutEv r v # puts rs vs) =
     Some \<lparr>kval = last (v # vs), kcreate = r, kmod = last (r # rs), kversion = 1 + int (length rs)\<rparr>"
proof -
  have "rs = [] \<longleftrightarrow> vs = []" using assms(2) by (cases rs; cases vs) simp_all
  then show ?thesis using assms by (simp add: kv_now_append foldl_puts)
qed

lemma kv_at_prefix:
  assumes "\<forall>e \<in> set es. ev_rev e \<le> r" "\<forall>e \<in> set fs. r < ev_rev e"
  shows "kv_at (es @ fs) r = kv_now es"
proof -
  have "filter (\<lambda>e. ev_rev e \<le> r) es = es" using assms(1) by simp
  moreover have "filter (\<lambda>e. ev_rev e \<le> r) fs = []" using assms(2) by (auto simp: filter_empty_conv)
  ultimately show ?thesis by (simp add: kv_at_def)
qed

lemma view_okD:
  assumes "view_ok w"
  shows "0 \<le> compacted w" "compacted w \<le> now w" "sorted_wrt (<) (map ev_rev (events w k))"
    "e \<in> set (events w k) \<Longrightarrow> ev_rev e \<le> now w"
  using assms by (auto simp: view_ok_def)

section \<open>One statement at a time\<close>

text \<open>The rules by which a run over an available lawful cluster is followed.\<close>

lemma run_clean_key:
  assumes "etcd_lawful L view" "etcd_available L view" "view_ok (view s)"
  shows "\<exists>s'. run_to (clean_key L k) s s' [] () \<and> view_ok (view s') \<and> now (view s) \<le> now (view s') \<and>
     compacted (view s') = compacted (view s) \<and> kv_now (events (view s') k) = None"
proof -
  obtain s' b where d: "ed_delete L k s = (s', b)" by (cases "ed_delete L k s")
  have "snd (ed_delete L k s)" using assms(2,3) unfolding etcd_available_def by blast
  then have "b" using d by simp
  then show ?thesis
    using assms d unfolding etcd_lawful_def write_lawful_def by (auto simp: run_to_def clean_key_def)
qed

lemma run_must_put:
  assumes "etcd_lawful L view" "etcd_available L view" "view_ok (view s)"
  shows "\<exists>s' r. run_to (must_put L k v) s s' [PutLine k v r] r \<and> one_put k v r (view s) (view s')"
proof -
  obtain s' x where d: "ed_put L k v s = (s', x)" by (cases "ed_put L k v s")
  have "snd (ed_put L k v s) \<noteq> None" using assms by (auto simp: etcd_available_def)
  then obtain r where "x = Some r" using d by auto
  then show ?thesis
    using assms d unfolding etcd_lawful_def write_lawful_def by (auto simp: run_to_def must_put_def)
qed

lemma run_get:
  assumes "etcd_lawful L view" "etcd_available L view" "view_ok (view s)"
    and "r = 0 \<or> compacted (view s) \<le> r" "0 \<le> r" "r \<le> now (view s)"
    and "read_result (events (view s) k) r = [kv]"
  shows "\<exists>s'. run_to (must_get_single_at_rev L k r) s s' [] kv \<and> same_key k (view s) (view s')"
proof -
  obtain s' x where d: "ed_get L k r s = (s', x)" by (cases "ed_get L k r s")
  have "snd (ed_get L k r s) \<noteq> Inl OtherError" using assms unfolding etcd_available_def by blast
  moreover have law: "same_key k (view s) (view s') \<and>
     (case x of
        Inl Compacted \<Rightarrow> 0 < r \<and> r < compacted (view s)
      | Inl OtherError \<Rightarrow> True
      | Inr kvs \<Rightarrow> (r = 0 \<or> compacted (view s) \<le> r) \<and> kvs = read_result (events (view s) k) r)"
    using assms(1,3) d unfolding etcd_lawful_def get_lawful_def by blast
  ultimately have "x = Inr [kv]"
    using d assms(4,7) by (cases x) (auto split: get_error.splits)
  then have "must_get_single_at_rev L k r s = (s', [], Inr kv)"
    using d by (simp add: must_get_single_at_rev_def)
  then show ?thesis using law by (auto simp: run_to_def)
qed

lemma run_cas:
  assumes "etcd_lawful L view" "etcd_available L view" "view_ok (view s)"
  shows "if current_mod (events (view s) k) = r
    then \<exists>s' r'. run_to (cas L e k r v) s s' [] True \<and> one_put k v r' (view s) (view s')
    else \<exists>s'. run_to (cas L e k r v) s s' [] False \<and> same_key k (view s) (view s')"
proof -
  obtain s' x where d: "ed_cas L k r v s = (s', x)" by (cases "ed_cas L k r v s")
  have "snd (ed_cas L k r v s) \<noteq> None" using assms by (auto simp: etcd_available_def)
  then obtain ok where x: "x = Some ok" using d by auto
  then have law: "if current_mod (events (view s) k) = r then ok \<and> (\<exists>r'. one_put k v r' (view s) (view s'))
      else \<not> ok \<and> same_key k (view s) (view s')"
    using assms(1,3) d unfolding etcd_lawful_def cas_lawful_def by blast
  then show ?thesis using d x by (cases "current_mod (events (view s) k) = r") (auto simp: run_to_def cas_def)
qed

lemma run_watch:
  assumes "etcd_lawful L view" "etcd_available L view" "view_ok (view s)" "compacted (view s) < r"
    and "filter (\<lambda>e. r \<le> ev_rev e) (events (view s) k) = e # es"
  shows "\<exists>s' out. run_to (first_response L k r) s s' out () \<and> same_key k (view s) (view s') \<and>
     (out = [] \<or> (\<exists>more_lines. out = EventLine e # more_lines))"
proof -
  obtain s' x where d: "ed_recv L k r s = (s', x)" by (cases "ed_recv L k r s")
  have no_err: "x \<noteq> Some (Inl er)" for er
    using assms(2,3,4) d unfolding etcd_available_def by (metis snd_conv)
  have law: "same_key k (view s) (view s')"
     "\<And>evs. x = Some (Inr evs) \<Longrightarrow> evs \<noteq> [] \<and> (\<exists>rest. filter (\<lambda>e. r \<le> ev_rev e) (events (view s) k) = evs @ rest)"
    using assms(1,3) d unfolding etcd_lawful_def watch_lawful_def by blast+
  show ?thesis
  proof (cases x)
    case None
    then show ?thesis using d law(1) by (auto simp: run_to_def first_response_def)
  next
    case (Some y)
    then obtain evs where x: "x = Some (Inr evs)" using no_err by (cases y) auto
    then obtain evs' where "evs = e # evs'" using law(2) [OF x] assms(5) by (cases evs) auto
    then show ?thesis using d x law(1) by (auto simp: run_to_def first_response_def)
  qed
qed

lemma run_compact:
  assumes "etcd_lawful L view" "etcd_available L view" "view_ok (view s)" "compacted (view s) < r" "r \<le> now (view s)"
  shows "\<exists>s'. run_to (compact_to L r) s s' [CompactedLine r] () \<and> view_ok (view s') \<and> compacted (view s') = r \<and>
     now (view s) \<le> now (view s')"
proof -
  obtain s' b where d: "ed_compact L r s = (s', b)" by (cases "ed_compact L r s")
  have "snd (ed_compact L r s)" using assms(2-5) unfolding etcd_available_def by blast
  then have "b" using d by simp
  moreover have "view_ok (view s') \<and> now (view s) \<le> now (view s') \<and> compacted (view s') = r" if "b"
    using assms(1,3) d that unfolding etcd_lawful_def compact_lawful_def by simp
  ultimately show ?thesis using d by (auto simp: run_to_def compact_to_def)
qed

lemma run_read_compacted:
  assumes "etcd_lawful L view" "etcd_available L view" "view_ok (view s)" "0 < r" "r < compacted (view s)"
  shows "\<exists>s'. run_to (read_compacted L k r) s s' [ReadFailedAsExpected r] ()"
proof -
  obtain s' x where d: "ed_get L k r s = (s', x)" by (cases "ed_get L k r s")
  have "0 \<le> r" "r \<le> now (view s)" using assms(4,5) view_okD(2) [OF assms(3)] by simp_all
  then have "snd (ed_get L k r s) \<noteq> Inl OtherError" using assms(2,3) unfolding etcd_available_def by blast
  moreover have "\<not> (\<exists>kvs. x = Inr kvs)"
    using assms(1,3,4,5) d unfolding etcd_lawful_def get_lawful_def by fastforce
  ultimately have "x = Inl Compacted"
    using d by (cases x; cases "projl x") auto
  then show ?thesis using d by (auto simp: run_to_def read_compacted_def)
qed

text \<open>The loop of a hundred puts extends the history by a hundred events.\<close>

lemma one_put_keeps: "one_put k v r w w' \<Longrightarrow> view_ok w'"
  by (simp add: one_put_def)

lemma run_loop:
  assumes "etcd_lawful L view" "etcd_available L view" "view_ok (view s)"
  shows "\<exists>s' rs. run_to (each (\<lambda>i. and_then (must_put L k (f i)) (\<lambda>_. give ())) is) s s' (map2 (PutLine k) (map f is) rs) () \<and>
     length rs = length is \<and> view_ok (view s') \<and> compacted (view s') = compacted (view s) \<and> now (view s) \<le> now (view s') \<and>
     events (view s') k = events (view s) k @ puts rs (map f is) \<and> (\<forall>r \<in> set rs. now (view s) < r)"
  using assms(3)
proof (induction "is" arbitrary: s)
  case Nil
  then show ?case by (auto intro!: exI [of _ s] simp: run_to_give)
next
  case (Cons i js)
  obtain s1 r where 1: "run_to (must_put L k (f i)) s s1 [PutLine k (f i) r] r" and p: "one_put k (f i) r (view s) (view s1)"
    using run_must_put [OF assms(1,2) Cons.prems] by blast
  obtain s2 rs where 2: "run_to (each (\<lambda>i. and_then (must_put L k (f i)) (\<lambda>_. give ())) js) s1 s2 (map2 (PutLine k) (map f js) rs) ()"
    and rs: "length rs = length js" "view_ok (view s2)" "compacted (view s2) = compacted (view s1)" "now (view s1) \<le> now (view s2)"
      "events (view s2) k = events (view s1) k @ puts rs (map f js)" "\<forall>r \<in> set rs. now (view s1) < r"
    using Cons.IH [OF one_put_keeps [OF p]] by blast
  have "run_to (each (\<lambda>i. and_then (must_put L k (f i)) (\<lambda>_. give ())) (i # js)) s s2 ([PutLine k (f i) r] @ map2 (PutLine k) (map f js) rs) ()"
    using run_to_then [OF run_to_then [OF 1 run_to_give] 2] by simp
  then show ?case
    using rs p by (intro exI [of _ s2] exI [of _ "r # rs"]) (auto simp: one_put_def)
qed

section \<open>The history the program writes\<close>

text \<open>
  \<open>wrote k es0 rs vs\<close>: since the key was last absent (after \<open>es0\<close>) its events are the puts of \<open>vs\<close> at
  the revisions \<open>rs\<close>, none of them compacted.
\<close>

definition wrote :: "string \<Rightarrow> event list \<Rightarrow> int list \<Rightarrow> string list \<Rightarrow> etcd_view \<Rightarrow> bool" where
  "wrote k es0 rs vs w \<longleftrightarrow> view_ok w \<and> kv_now es0 = None \<and> length rs = length vs \<and>
     events w k = es0 @ puts rs vs \<and> (\<forall>r \<in> set rs. compacted w < r)"

definition kv_of :: "int list \<Rightarrow> string list \<Rightarrow> mvcc_kv" where
  "kv_of rs vs = \<lparr>kval = last vs, kcreate = hd rs, kmod = last rs, kversion = int (length rs)\<rparr>"

lemma wrote_put: "wrote k es0 rs vs w \<Longrightarrow> one_put k v r w w' \<Longrightarrow> wrote k es0 (rs @ [r]) (vs @ [v]) w'"
  using view_okD(2) [of w] by (auto simp: wrote_def one_put_def puts_snoc)

lemma wrote_same: "wrote k es0 rs vs w \<Longrightarrow> same_key k w w' \<Longrightarrow> wrote k es0 rs vs w'"
  by (simp add: wrote_def same_key_def)

lemma wrote_start:
  "view_ok w \<Longrightarrow> kv_now (events w k) = None \<Longrightarrow> wrote k (events w k) [] [] w"
  by (simp add: wrote_def)

lemma wrote_sorted:
  assumes "wrote k es0 rs vs w"
  shows "sorted_wrt (<) rs"
  using assms view_okD(3) [of w k] by (auto simp: wrote_def sorted_wrt_append map_ev_rev_puts)

lemma wrote_bounds:
  assumes "wrote k es0 rs vs w" "r \<in> set rs"
  shows "0 < r" "compacted w < r" "r \<le> now w"
proof -
  have "r \<in> ev_rev ` set (puts rs vs)"
    using assms map_ev_rev_puts [of rs vs] by (metis list.set_map wrote_def)
  then obtain e where e: "e \<in> set (events w k)" "r = ev_rev e"
    using assms(1) by (auto simp: wrote_def)
  have "view_ok w" using assms(1) by (simp add: wrote_def)
  with e show "r \<le> now w" "0 < r" unfolding view_ok_def by blast+
  show "compacted w < r" using assms by (simp add: wrote_def)
qed

lemma kv_now_wrote:
  assumes "kv_now es0 = None" "length rs = length vs" "rs \<noteq> []"
  shows "kv_now (es0 @ puts rs vs) = Some (kv_of rs vs)"
  using assms by (cases rs; cases vs) (auto simp: kv_now_puts kv_of_def)

lemma wrote_latest: "wrote k es0 rs vs w \<Longrightarrow> rs \<noteq> [] \<Longrightarrow> kv_now (events w k) = Some (kv_of rs vs)"
  by (simp add: wrote_def kv_now_wrote)

lemma puts_take_drop:
  "length rs = length vs \<Longrightarrow> puts rs vs = puts (take n rs) (take n vs) @ puts (drop n rs) (drop n vs)"
  by (simp add: puts_def flip: take_zip drop_zip map_append)

lemma wrote_at:
  assumes w: "wrote k es0 rs vs w" and i: "i < length rs"
  shows "kv_at (events w k) (rs ! i) = Some (kv_of (take (Suc i) rs) (take (Suc i) vs))"
proof -
  let ?pre = "es0 @ puts (take (Suc i) rs) (take (Suc i) vs)" and ?post = "puts (drop (Suc i) rs) (drop (Suc i) vs)"
  have len: "length rs = length vs" and ev: "events w k = ?pre @ ?post"
    using w puts_take_drop [of rs vs "Suc i"] by (simp_all add: wrote_def)
  have sorted: "sorted_wrt (<) (map ev_rev es0 @ rs)"
    using w view_okD(3) [of w k] by (simp add: wrote_def map_ev_rev_puts)
  have split: "rs = take (Suc i) rs @ drop (Suc i) rs" by simp
  have s: "sorted_wrt (<) (take (Suc i) rs @ drop (Suc i) rs)" using sorted by (simp add: sorted_wrt_append)
  have post: "ev_rev ` set ?post = set (drop (Suc i) rs)"
    using map_ev_rev_puts [of "drop (Suc i) rs" "drop (Suc i) vs"] len by (metis length_drop list.set_map)
  have pre: "ev_rev ` set (puts (take (Suc i) rs) (take (Suc i) vs)) = set (take (Suc i) rs)"
    using map_ev_rev_puts [of "take (Suc i) rs" "take (Suc i) vs"] len by (metis length_take list.set_map)
  have last: "rs ! i \<in> set (take (Suc i) rs)" using i by (simp add: take_Suc_conv_app_nth)
  have "\<forall>e \<in> set ?post. rs ! i < ev_rev e"
    using s last post unfolding sorted_wrt_append by (metis imageI)
  moreover have "\<forall>r \<in> set (take (Suc i) rs). r \<le> rs ! i"
    using s i by (auto simp: take_Suc_conv_app_nth sorted_wrt_append)
  then have "\<forall>e \<in> set ?pre. ev_rev e \<le> rs ! i"
    using pre sorted i by (auto simp: sorted_wrt_append less_imp_le)
  ultimately have "kv_at (events w k) (rs ! i) = kv_now ?pre"
    unfolding ev by (rule kv_at_prefix [rotated])
  also have "\<dots> = Some (kv_of (take (Suc i) rs) (take (Suc i) vs))"
    using w i len by (intro kv_now_wrote) (auto simp: wrote_def)
  finally show ?thesis .
qed

text \<open>What a watch from just after the \<open>i\<close>-th put sees first is the next one.\<close>

lemma wrote_after:
  assumes w: "wrote k es0 (rs @ p # q # ss) (vs @ v # v' # us) w" and len: "length rs = length vs"
  shows "\<exists>es. filter (\<lambda>e. p + 1 \<le> ev_rev e) (events w k) = PutEv q v' # es"
proof -
  have ev: "events w k = (es0 @ puts rs vs @ [PutEv p v]) @ PutEv q v' # puts ss us"
    using w len by (simp add: wrote_def puts_def)
  have s: "sorted_wrt (<) (map ev_rev ((es0 @ puts rs vs @ [PutEv p v]) @ PutEv q v' # puts ss us))"
    using w view_okD(3) [of w k] ev by (simp add: wrote_def)
  have "filter (\<lambda>e. p + 1 \<le> ev_rev e) (es0 @ puts rs vs @ [PutEv p v]) = []"
    using s by (auto simp: filter_empty_conv sorted_wrt_append)
  moreover have "p + 1 \<le> q" using s by (simp add: sorted_wrt_append)
  ultimately show ?thesis unfolding ev filter_append by simp
qed

section \<open>The run of main\<close>

definition seed_values :: "string list" where
  "seed_values = [''v1-created'', ''v2-updated'', ''v3-updated''] @ map loop_value [0..<100]"

lemma last_seed_value: "last seed_values = ''v99-updated''"
proof -
  have "last (map loop_value [0..<100]) = loop_value 99"
    using last_map [of "[0..<100]" loop_value] by (simp add: last_upt)
  also have "\<dots> = ''v99-updated''" by code_simp
  finally show ?thesis by (simp add: seed_values_def)
qed

lemma run_seed:
  assumes E: "etcd_lawful L view" "etcd_available L view" and ok: "view_ok (view s)"
  shows "\<exists>s' es0 p1 p2 p3 rs. run_to (seed_puts L k) s s' (map2 (PutLine k) seed_values (p1 # p2 # p3 # rs)) (p1, p2, p3) \<and>
     length rs = 100 \<and> wrote k es0 (p1 # p2 # p3 # rs) seed_values (view s')"
proof -
  obtain s1 where 1: "run_to (clean_key L k) s s1 [] ()" and v1: "view_ok (view s1)" "kv_now (events (view s1) k) = None"
    using run_clean_key [OF E ok] by blast
  have w1: "wrote k (events (view s1) k) [] [] (view s1)" by (rule wrote_start [OF v1])
  obtain s2 p1 where 2: "run_to (must_put L k ''v1-created'') s1 s2 [PutLine k ''v1-created'' p1] p1"
    and q2: "one_put k ''v1-created'' p1 (view s1) (view s2)" using run_must_put [OF E v1(1)] by blast
  obtain s3 p2 where 3: "run_to (must_put L k ''v2-updated'') s2 s3 [PutLine k ''v2-updated'' p2] p2"
    and q3: "one_put k ''v2-updated'' p2 (view s2) (view s3)" using run_must_put [OF E one_put_keeps [OF q2]] by blast
  obtain s4 p3 where 4: "run_to (must_put L k ''v3-updated'') s3 s4 [PutLine k ''v3-updated'' p3] p3"
    and q4: "one_put k ''v3-updated'' p3 (view s3) (view s4)" using run_must_put [OF E one_put_keeps [OF q3]] by blast
  have w4: "wrote k (events (view s1) k) [p1, p2, p3] [''v1-created'', ''v2-updated'', ''v3-updated''] (view s4)"
    using wrote_put [OF wrote_put [OF wrote_put [OF w1 q2] q3] q4] by simp
  obtain s5 rs where 5: "run_to (each (\<lambda>i. and_then (must_put L k (loop_value i)) (\<lambda>_. give ())) [0..<100]) s4 s5
      (map2 (PutLine k) (map loop_value [0..<100]) rs) ()"
    and l: "length rs = 100" "view_ok (view s5)" "compacted (view s5) = compacted (view s4)"
      "events (view s5) k = events (view s4) k @ puts rs (map loop_value [0..<100])" "\<forall>r \<in> set rs. now (view s4) < r"
    using run_loop [OF E one_put_keeps [OF q4], of k loop_value "[0..<100]"] by auto
  have "compacted (view s4) \<le> now (view s4)" using w4 by (intro view_okD) (simp add: wrote_def)
  then have "wrote k (events (view s1) k) (p1 # p2 # p3 # rs) seed_values (view s5)"
    using w4 l by (auto simp: wrote_def seed_values_def puts_def)
  moreover have "run_to (seed_puts L k) s s5
      ([] @ [PutLine k ''v1-created'' p1] @ [PutLine k ''v2-updated'' p2] @ [PutLine k ''v3-updated'' p3] @
       map2 (PutLine k) (map loop_value [0..<100]) rs @ []) (p1, p2, p3)"
    unfolding seed_puts_def
    by (intro run_to_and_then [OF 1] run_to_and_then [OF 2] run_to_and_then [OF 3] run_to_and_then [OF 4]
        run_to_and_then [OF 5] run_to_give)
  ultimately show ?thesis
    using l(1) by (intro exI [of _ s5] exI [of _ "events (view s1) k"]) (fastforce simp: seed_values_def)
qed

lemma same_key_ok: "same_key k w w' \<Longrightarrow> view_ok w'"
  by (simp add: same_key_def)

lemma wrote_ok: "wrote k es0 rs vs w \<Longrightarrow> view_ok w"
  by (simp add: wrote_def)

lemma run_latest:
  assumes E: "etcd_lawful L view" "etcd_available L view" and w: "wrote k es0 rs vs (view s)" and ne: "rs \<noteq> []"
  shows "\<exists>s'. run_to (must_get_single L k) s s' [] (kv_of rs vs) \<and> wrote k es0 rs vs (view s')"
proof -
  have "0 \<le> now (view s)" using view_okD(1,2) [OF wrote_ok [OF w]] by simp
  moreover have "read_result (events (view s) k) 0 = [kv_of rs vs]"
    using wrote_latest [OF w ne] by (simp add: read_result_def)
  ultimately obtain s' where "run_to (must_get_single_at_rev L k 0) s s' [] (kv_of rs vs)" "same_key k (view s) (view s')"
    using run_get [OF E wrote_ok [OF w]] by blast
  then show ?thesis using wrote_same [OF w] by (auto simp: must_get_single_def)
qed

lemma run_history:
  assumes E: "etcd_lawful L view" "etcd_available L view" and w: "wrote k es0 rs vs (view s)" and i: "i < length rs"
  shows "\<exists>s'. run_to (must_get_single_at_rev L k (rs ! i)) s s' [] (kv_of (take (Suc i) rs) (take (Suc i) vs)) \<and>
     wrote k es0 rs vs (view s')"
proof -
  note b = wrote_bounds [OF w nth_mem [OF i]]
  have "read_result (events (view s) k) (rs ! i) = [kv_of (take (Suc i) rs) (take (Suc i) vs)]"
    using wrote_at [OF w i] b(1) by (simp add: read_result_def)
  then obtain s' where "run_to (must_get_single_at_rev L k (rs ! i)) s s' [] (kv_of (take (Suc i) rs) (take (Suc i) vs))"
      "same_key k (view s) (view s')"
    using run_get [OF E wrote_ok [OF w], of "rs ! i"] b by (auto simp: less_imp_le)
  then show ?thesis using wrote_same [OF w] by blast
qed

lemma run_reads:
  assumes E: "etcd_lawful L view" "etcd_available L view"
    and w: "wrote k es0 (p1 # p2 # p3 # rs) (v1 # v2 # v3 # vs) (view s)"
  shows "\<exists>s'. run_to (show_reads L k (p1, p2, p3)) s s'
       [KvLine ''latest'' k (kv_of (p1 # p2 # p3 # rs) (v1 # v2 # v3 # vs)), ClusterNow p3,
        AtRevLine p1 k (kv_of [p1] [v1]), AtRevLine p2 k (kv_of [p1, p2] [v1, v2]),
        AtRevLine p3 k (kv_of [p1, p2, p3] [v1, v2, v3])]
       (kv_of (p1 # p2 # p3 # rs) (v1 # v2 # v3 # vs)) \<and>
     wrote k es0 (p1 # p2 # p3 # rs) (v1 # v2 # v3 # vs) (view s')"
proof -
  obtain s1 where 1: "run_to (must_get_single L k) s s1 [] (kv_of (p1 # p2 # p3 # rs) (v1 # v2 # v3 # vs))"
    and w1: "wrote k es0 (p1 # p2 # p3 # rs) (v1 # v2 # v3 # vs) (view s1)" using run_latest [OF E w] by auto
  obtain s2 where 2: "run_to (must_get_single_at_rev L k p1) s1 s2 [] (kv_of [p1] [v1])"
    and w2: "wrote k es0 (p1 # p2 # p3 # rs) (v1 # v2 # v3 # vs) (view s2)" using run_history [OF E w1, of 0] by auto
  obtain s3 where 3: "run_to (must_get_single_at_rev L k p2) s2 s3 [] (kv_of [p1, p2] [v1, v2])"
    and w3: "wrote k es0 (p1 # p2 # p3 # rs) (v1 # v2 # v3 # vs) (view s3)" using run_history [OF E w2, of "Suc 0"] by auto
  obtain s4 where 4: "run_to (must_get_single_at_rev L k p3) s3 s4 [] (kv_of [p1, p2, p3] [v1, v2, v3])"
    and w4: "wrote k es0 (p1 # p2 # p3 # rs) (v1 # v2 # v3 # vs) (view s4)" using run_history [OF E w3, of "Suc (Suc 0)"] by auto
  let ?kv = "kv_of (p1 # p2 # p3 # rs) (v1 # v2 # v3 # vs)"
  have "run_to (show_reads L k (p1, p2, p3)) s s4
     ([] @ KvLine ''latest'' k ?kv # ClusterNow p3 # [] @ [] @ [] @ AtRevLine p1 k (kv_of [p1] [v1]) #
      AtRevLine p2 k (kv_of [p1, p2] [v1, v2]) # AtRevLine p3 k (kv_of [p1, p2, p3] [v1, v2, v3]) # []) ?kv"
    unfolding show_reads_def prod.case
    by (intro run_to_and_then [OF 1] run_to_say_then run_to_and_then [OF 2] run_to_and_then [OF 3]
        run_to_and_then [OF 4] run_to_give)
  then show ?thesis using w4 by auto
qed

lemma run_swaps:
  assumes E: "etcd_lawful L view" "etcd_available L view" and w: "wrote k es0 (p1 # rs) (v1 # vs) (view s)" and ne: "rs \<noteq> []"
  shows "\<exists>s1 s2 r4. run_to (swap_latest L k (kv_of (p1 # rs) (v1 # vs))) s s1
       [CasLine True, KvLine ''after cas'' k (kv_of (p1 # rs @ [r4]) (v1 # vs @ [''v4-by-cas'']))] () \<and>
     run_to (swap_stale L k p1) s1 s2 [StaleCasLine False] () \<and>
     wrote k es0 (p1 # rs @ [r4]) (v1 # vs @ [''v4-by-cas'']) (view s2)"
proof -
  have m: "current_mod (events (view s) k) = kmod (kv_of (p1 # rs) (v1 # vs))"
    using wrote_latest [OF w] by (simp add: current_mod_def)
  obtain s1 r4 where 1: "run_to (cas L CasFailed k (kmod (kv_of (p1 # rs) (v1 # vs))) ''v4-by-cas'') s s1 [] True"
    and q1: "one_put k ''v4-by-cas'' r4 (view s) (view s1)"
    using run_cas [OF E wrote_ok [OF w], of k "kmod (kv_of (p1 # rs) (v1 # vs))" CasFailed "''v4-by-cas''"] m by auto
  let ?rs = "p1 # rs @ [r4]" and ?vs = "v1 # vs @ [''v4-by-cas'']"
  have w1: "wrote k es0 ?rs ?vs (view s1)" using wrote_put [OF w q1] by simp
  obtain s2 where 2: "run_to (must_get_single L k) s1 s2 [] (kv_of ?rs ?vs)" and w2: "wrote k es0 ?rs ?vs (view s2)"
    using run_latest [OF E w1] by auto
  have "p1 < r4" using wrote_sorted [OF w1] by simp
  then have "current_mod (events (view s2) k) \<noteq> p1"
    using wrote_latest [OF w2] by (simp add: current_mod_def kv_of_def)
  then obtain s3 where 3: "run_to (cas L StaleCasFailed k p1 ''should-not-write'') s2 s3 [] False"
    and q3: "same_key k (view s2) (view s3)"
    using run_cas [OF E wrote_ok [OF w2], of k p1 StaleCasFailed "''should-not-write''"] by auto
  have "run_to (and_then (must_get_single L k) (\<lambda>after_cas. say (KvLine ''after cas'' k after_cas))) s1 s2
      ([] @ [KvLine ''after cas'' k (kv_of ?rs ?vs)]) ()"
    by (rule run_to_and_then [OF 2]) (rule run_to_say)
  then have "run_to (swap_latest L k (kv_of (p1 # rs) (v1 # vs))) s s2
      ([] @ CasLine True # [] @ [KvLine ''after cas'' k (kv_of ?rs ?vs)]) ()"
    unfolding swap_latest_def
    by (intro run_to_and_then [OF 1] run_to_say_then) simp
  moreover have "run_to (swap_stale L k p1) s2 s3 ([] @ [StaleCasLine False]) ()"
    unfolding swap_stale_def by (intro run_to_and_then [OF 3] run_to_say)
  ultimately show ?thesis using wrote_same [OF w2 q3] by fastforce
qed

lemma run_watch_section:
  assumes E: "etcd_lawful L view" "etcd_available L view"
    and w: "wrote k es0 (p1 # p2 # p3 # rs) (v1 # v2 # v3 # vs) (view s)"
  shows "\<exists>s' r5 watched. run_to (watch_section L k p2) s s' (PutLine k ''v5-watch-event'' r5 # watched) () \<and>
     wrote k es0 (p1 # p2 # p3 # rs @ [r5]) (v1 # v2 # v3 # vs @ [''v5-watch-event'']) (view s') \<and>
     (watched = [] \<or> (\<exists>further. watched = EventLine (PutEv p3 v3) # further))"
proof -
  obtain s1 r5 where 1: "run_to (must_put L k ''v5-watch-event'') s s1 [PutLine k ''v5-watch-event'' r5] r5"
    and q1: "one_put k ''v5-watch-event'' r5 (view s) (view s1)" using run_must_put [OF E wrote_ok [OF w]] by blast
  have w1: "wrote k es0 (p1 # p2 # p3 # rs @ [r5]) (v1 # v2 # v3 # vs @ [''v5-watch-event'']) (view s1)"
    using wrote_put [OF w q1] by simp
  obtain es where f: "filter (\<lambda>e. p2 + 1 \<le> ev_rev e) (events (view s1) k) = PutEv p3 v3 # es"
    using wrote_after [of k es0 "[p1]" p2 p3 "rs @ [r5]" "[v1]" v2 v3 "vs @ [''v5-watch-event'']"] w1 by auto
  have "compacted (view s1) < p2 + 1" using wrote_bounds(2) [OF w1, of p2] by simp
  then obtain s2 out where 2: "run_to (first_response L k (p2 + 1)) s1 s2 out ()" "same_key k (view s1) (view s2)"
      "out = [] \<or> (\<exists>further. out = EventLine (PutEv p3 v3) # further)"
    using run_watch [OF E wrote_ok [OF w1] _ f] by blast
  have "run_to (watch_section L k p2) s s2 ([PutLine k ''v5-watch-event'' r5] @ out) ()"
    unfolding watch_section_def Let_def by (rule run_to_then [OF 1 2(1)])
  then show ?thesis using wrote_same [OF w1 2(2)] 2(3) by auto
qed

text \<open>The lines of a run whose puts get the revisions \<open>p1 p2 p3 rs r4 r5\<close>.\<close>

definition tour_lines :: "string \<Rightarrow> int \<Rightarrow> int \<Rightarrow> int \<Rightarrow> int list \<Rightarrow> int \<Rightarrow> int \<Rightarrow> mvcc_line list \<Rightarrow> mvcc_line list" where
  "tour_lines env p1 p2 p3 rs r4 r5 watched =
     Connecting (mvcc_endpoints env) # map2 (PutLine demo_key) seed_values (p1 # p2 # p3 # rs) @
     [KvLine ''latest'' demo_key \<lparr>kval = ''v99-updated'', kcreate = p1, kmod = last rs, kversion = 103\<rparr>, ClusterNow p3,
      AtRevLine p1 demo_key \<lparr>kval = ''v1-created'', kcreate = p1, kmod = p1, kversion = 1\<rparr>,
      AtRevLine p2 demo_key \<lparr>kval = ''v2-updated'', kcreate = p1, kmod = p2, kversion = 2\<rparr>,
      AtRevLine p3 demo_key \<lparr>kval = ''v3-updated'', kcreate = p1, kmod = p3, kversion = 3\<rparr>,
      CasLine True, KvLine ''after cas'' demo_key \<lparr>kval = ''v4-by-cas'', kcreate = p1, kmod = r4, kversion = 104\<rparr>,
      StaleCasLine False, PutLine demo_key ''v5-watch-event'' r5] @ watched @
     [CompactedLine p2, ReadFailedAsExpected p1, Finished]"

section \<open>Properties\<close>

text \<open>
  C18. On a cluster that answers, with no other writer of its key, the tour runs to its end: the latest
  value is that of the last of the 103 puts, created by the first; the reads at the first three
  revisions return the first three values with versions 1 to 3; the swap with the latest
  modification revision succeeds and the one with the first revision does not; the watch, if it
  delivers at all, starts with the third put and not with the put made for it; and after the
  compaction the first revision cannot be read. The line "cluster revision now" shows the third
  put's revision, which by then is old.
\<close>

theorem mvcc_tour:
  assumes "etcd_lawful L view" "etcd_available L view" "view_ok (view s)"
  shows "\<exists>s' p1 p2 p3 rs r4 r5 watched.
     run_to (mvcc_main L env True) s s' (tour_lines env p1 p2 p3 rs r4 r5 watched) () \<and>
     length rs = 100 \<and> sorted_wrt (<) (p1 # p2 # p3 # rs @ [r4, r5]) \<and>
     (watched = [] \<or> (\<exists>further. watched = EventLine (PutEv p3 ''v3-updated'') # further))"
proof -
  note E = assms(1,2)
  obtain s1 es0 p1 p2 p3 rs where 1: "run_to (seed_puts L demo_key) s s1 (map2 (PutLine demo_key) seed_values (p1 # p2 # p3 # rs)) (p1, p2, p3)"
    and l: "length rs = 100" and w1: "wrote demo_key es0 (p1 # p2 # p3 # rs) seed_values (view s1)"
    using run_seed [OF E assms(3)] by blast
  obtain vs where vs: "seed_values = ''v1-created'' # ''v2-updated'' # ''v3-updated'' # vs"
    by (simp add: seed_values_def)
  let ?vs = "''v1-created'' # ''v2-updated'' # ''v3-updated'' # vs"
  obtain s2 where 2: "run_to (show_reads L demo_key (p1, p2, p3)) s1 s2
       [KvLine ''latest'' demo_key (kv_of (p1 # p2 # p3 # rs) ?vs), ClusterNow p3,
        AtRevLine p1 demo_key (kv_of [p1] [''v1-created'']), AtRevLine p2 demo_key (kv_of [p1, p2] [''v1-created'', ''v2-updated'']),
        AtRevLine p3 demo_key (kv_of [p1, p2, p3] [''v1-created'', ''v2-updated'', ''v3-updated''])] (kv_of (p1 # p2 # p3 # rs) ?vs)"
    and w2: "wrote demo_key es0 (p1 # p2 # p3 # rs) ?vs (view s2)"
    using run_reads [OF E w1 [unfolded vs]] by blast
  obtain s3 s4 r4 where 3: "run_to (swap_latest L demo_key (kv_of (p1 # p2 # p3 # rs) ?vs)) s2 s3
       [CasLine True, KvLine ''after cas'' demo_key (kv_of (p1 # p2 # p3 # rs @ [r4]) (?vs @ [''v4-by-cas'']))] ()"
    and 4: "run_to (swap_stale L demo_key p1) s3 s4 [StaleCasLine False] ()"
    and w4: "wrote demo_key es0 (p1 # p2 # p3 # rs @ [r4]) (?vs @ [''v4-by-cas'']) (view s4)"
    using run_swaps [OF E w2] by auto
  obtain s5 r5 watched where 5: "run_to (watch_section L demo_key p2) s4 s5 (PutLine demo_key ''v5-watch-event'' r5 # watched) ()"
    and w5: "wrote demo_key es0 (p1 # p2 # p3 # (rs @ [r4]) @ [r5])
        (''v1-created'' # ''v2-updated'' # ''v3-updated'' # (vs @ [''v4-by-cas'']) @ [''v5-watch-event'']) (view s5)"
    and wt: "watched = [] \<or> (\<exists>further. watched = EventLine (PutEv p3 ''v3-updated'') # further)"
    using run_watch_section [OF E, of demo_key es0 p1 p2 p3 "rs @ [r4]"] w4 by fastforce
  have b: "compacted (view s5) < p2" "p2 \<le> now (view s5)" "0 < p1" "p1 < p2"
    using wrote_bounds [OF w5] wrote_sorted [OF w5] by auto
  obtain s6 where 6: "run_to (compact_to L p2) s5 s6 [CompactedLine p2] ()" and q6: "view_ok (view s6)" "compacted (view s6) = p2"
    using run_compact [OF E wrote_ok [OF w5] b(1,2)] by blast
  obtain s7 where 7: "run_to (read_compacted L demo_key p1) s6 s7 [ReadFailedAsExpected p1] ()"
    using run_read_compacted [OF E q6(1) b(3), of demo_key] b(4) q6(2) by auto
  have kvs: "kv_of (p1 # p2 # p3 # rs) ?vs = \<lparr>kval = ''v99-updated'', kcreate = p1, kmod = last rs, kversion = 103\<rparr>"
      "kv_of (p1 # p2 # p3 # rs @ [r4]) (?vs @ [''v4-by-cas'']) = \<lparr>kval = ''v4-by-cas'', kcreate = p1, kmod = r4, kversion = 104\<rparr>"
    using l last_seed_value vs by (auto simp: kv_of_def)
  have "run_to (mvcc_main L env True) s s7
       (Connecting (mvcc_endpoints env) # map2 (PutLine demo_key) seed_values (p1 # p2 # p3 # rs) @
        [KvLine ''latest'' demo_key (kv_of (p1 # p2 # p3 # rs) ?vs), ClusterNow p3,
         AtRevLine p1 demo_key (kv_of [p1] [''v1-created'']), AtRevLine p2 demo_key (kv_of [p1, p2] [''v1-created'', ''v2-updated'']),
         AtRevLine p3 demo_key (kv_of [p1, p2, p3] [''v1-created'', ''v2-updated'', ''v3-updated''])] @
        [CasLine True, KvLine ''after cas'' demo_key (kv_of (p1 # p2 # p3 # rs @ [r4]) (?vs @ [''v4-by-cas'']))] @
        [StaleCasLine False] @ (PutLine demo_key ''v5-watch-event'' r5 # watched) @ [CompactedLine p2] @
        [ReadFailedAsExpected p1] @ [Finished]) ()"
    unfolding mvcc_main_def Let_def not_True_eq_False if_False
    by (intro run_to_say_then run_to_and_then [OF 1] run_to_triple run_to_and_then [OF 2] run_to_and_then [OF 3]
        run_to_and_then [OF 4] run_to_and_then [OF 5] run_to_and_then [OF 6] run_to_and_then [OF 7] run_to_say)
  then have main: "run_to (mvcc_main L env True) s s7 (tour_lines env p1 p2 p3 rs r4 r5 watched) ()"
    unfolding kvs tour_lines_def by (simp add: kv_of_def)
  have "sorted_wrt (<) (p1 # p2 # p3 # rs @ [r4, r5])" using wrote_sorted [OF w5] by simp
  with main l wt show ?thesis by blast
qed

text \<open>An etcd of one member that never fails, kept as its own view.\<close>

definition demo_put :: "string \<Rightarrow> string \<Rightarrow> etcd_view \<Rightarrow> etcd_view" where
  "demo_put k v w = w\<lparr>now := now w + 1, events := (events w)(k := events w k @ [PutEv (now w + 1) v])\<rparr>"

definition demo_etcd :: "etcd_view etcd_lib" where
  "demo_etcd = \<lparr>
     ed_delete = (\<lambda>k w. (w\<lparr>now := now w + 1, events := (events w)(k := events w k @ [DelEv (now w + 1)])\<rparr>, True)),
     ed_put = (\<lambda>k v w. (demo_put k v w, Some (now w + 1))),
     ed_get = (\<lambda>k r w. (w, if r \<noteq> 0 \<and> r < compacted w then Inl (if 0 < r then Compacted else OtherError)
        else Inr (read_result (events w k) r))),
     ed_cas = (\<lambda>k r v w. if current_mod (events w k) = r then (demo_put k v w, Some True) else (w, Some False)),
     ed_recv = (\<lambda>k r w. (w, case filter (\<lambda>e. r \<le> ev_rev e) (events w k) of [] \<Rightarrow> None | e # _ \<Rightarrow> Some (Inr [e]))),
     ed_compact = (\<lambda>r w. if compacted w < r \<and> r \<le> now w then (w\<lparr>compacted := r\<rparr>, True) else (w, False))\<rparr>"

lemma view_ok_grow:
  "view_ok w \<Longrightarrow> ev_rev e = now w + 1 \<Longrightarrow> view_ok (w\<lparr>now := now w + 1, events := (events w)(k := events w k @ [e])\<rparr>)"
  by (force simp: view_ok_def sorted_wrt_append)

lemma demo_etcd_lawful: "etcd_lawful demo_etcd id"
  unfolding etcd_lawful_def
proof (intro conjI)
  show "get_lawful demo_etcd id" by (auto simp: get_lawful_def demo_etcd_def same_key_def)
  show "write_lawful demo_etcd id"
    by (auto simp: write_lawful_def demo_etcd_def demo_put_def one_put_def view_ok_grow kv_now_append)
  show "cas_lawful demo_etcd id"
    by (auto simp: cas_lawful_def demo_etcd_def demo_put_def one_put_def same_key_def view_ok_grow)
  show "watch_lawful demo_etcd id"
    by (auto simp: watch_lawful_def demo_etcd_def same_key_def split: list.splits)
  show "compact_lawful demo_etcd id"
    by (auto simp: compact_lawful_def demo_etcd_def view_ok_def split: if_splits)
qed

lemma demo_etcd_available: "etcd_available demo_etcd id"
  by (auto simp: etcd_available_def demo_etcd_def view_ok_def split: list.splits)

lemma mvcc_tour_witness:
  "\<exists>s' p1 p2 p3 rs r4 r5 watched.
     run_to (mvcc_main demo_etcd '' '' True) \<lparr>now = 1, compacted = 0, events = \<lambda>_. []\<rparr> s'
       (tour_lines '' '' p1 p2 p3 rs r4 r5 watched) () \<and>
     length rs = 100 \<and> sorted_wrt (<) (p1 # p2 # p3 # rs @ [r4, r5]) \<and>
     (watched = [] \<or> (\<exists>further. watched = EventLine (PutEv p3 ''v3-updated'') # further))"
  by (rule mvcc_tour [OF demo_etcd_lawful demo_etcd_available]) (simp add: view_ok_def)

end
