(* ===== verification/TxExperiments.thy ===== *)
theory TxExperiments
  imports UserStore
begin

text \<open>
  The two experiments on bbolt's transactions: \<open>etcd/bbolt/tx-verify/main.go\<close> (does a long reader hold up
  a writer, or a long writer a reader) and \<open>etcd/bbolt/tx-no-mmap/main.go\<close> (the same for a write that
  reuses free pages). What the clock, \<open>os.Stat\<close> and the database answer is a \<open>probe\<close>; the bucket is the
  \<open>bolt_lib\<close> of \<open>UserStore\<close>. An outer \<open>None\<close> is a run that waits for ever: when the other goroutine's
  transaction cannot start, it never closes the channel \<open>main\<close> waits on. Durations are nanoseconds.
\<close>

section \<open>tx-verify\<close>

datatype scenario = ReadThenWrite | WriteThenRead
datatype verdict = WriteBlocked | WriteNotBlocked | ReadBlocked | ReadNotBlocked

record scenario_result =
  scenario_name :: scenario
  wait_to_enter_tx :: int
  callback_cost :: int
  wait_after_cb :: int
  total_call_cost :: int
  db_size_before :: int
  db_size_after :: int
  db_size_delta :: int
  judgement :: verdict

text \<open>The four readings of the clock, in their order, the sizes (\<open>None\<close> an error), and which calls succeed.\<close>

record probe =
  partner_enters :: bool
  partner_ok :: bool
  call_ok :: bool
  size_first :: "int option"
  size_last :: "int option"
  t_start :: int
  t_enter :: int
  t_left :: int
  t_end :: int

datatype tx_error = StatFailed | CallFailed | PartnerFailed

definition sum_option :: "'e \<Rightarrow> 'a option \<Rightarrow> ('e, 'a) result" where
  "sum_option e x = (case x of None \<Rightarrow> Inl e | Some a \<Rightarrow> Inr a)"

definition read_blocks_write :: "int \<Rightarrow> probe \<Rightarrow> (tx_error, scenario_result) result option" where
  "read_blocks_write hold p =
     (if \<not> partner_enters p then None
      else Some (
       case size_first p of None \<Rightarrow> Inl StatFailed | Some size_before \<Rightarrow>
       if \<not> call_ok p then Inl CallFailed
       else
        (let wait = t_enter p - t_start p;
             cb_cost = t_left p - t_enter p;
             total = t_end p - t_start p;
             post_cb_wait = total - (wait + cb_cost)
         in case size_last p of None \<Rightarrow> Inl StatFailed | Some size_after \<Rightarrow>
            if \<not> partner_ok p then Inl PartnerFailed
            else Inr \<lparr>scenario_name = ReadThenWrite, wait_to_enter_tx = wait, callback_cost = cb_cost,
              wait_after_cb = post_cb_wait, total_call_cost = total, db_size_before = size_before,
              db_size_after = size_after, db_size_delta = size_after - size_before,
              judgement = (if wait < hold div 2 \<and> post_cb_wait < hold div 2 then WriteNotBlocked else WriteBlocked)\<rparr>)))"

text \<open>The reverse: here the partner is waited for before the size is read again, and the wait after the
callback is not filled in.\<close>

definition write_blocks_read :: "int \<Rightarrow> probe \<Rightarrow> (tx_error, scenario_result) result option" where
  "write_blocks_read hold p =
     (if \<not> partner_enters p then None
      else Some (
       case size_first p of None \<Rightarrow> Inl StatFailed | Some size_before \<Rightarrow>
       if \<not> call_ok p then Inl CallFailed
       else
        (let wait = t_enter p - t_start p;
             cb_cost = t_left p - t_enter p;
             total = t_end p - t_start p
         in if \<not> partner_ok p then Inl PartnerFailed
            else (case size_last p of None \<Rightarrow> Inl StatFailed | Some size_after \<Rightarrow>
              Inr \<lparr>scenario_name = WriteThenRead, wait_to_enter_tx = wait, callback_cost = cb_cost,
                wait_after_cb = 0, total_call_cost = total, db_size_before = size_before,
                db_size_after = size_after, db_size_delta = size_after - size_before,
                judgement = (if wait < hold div 2 \<and> total < hold div 2 then ReadNotBlocked else ReadBlocked)\<rparr>))))"

datatype result_line =
  ScenarioLine scenario | WaitLine int | CallbackLine int | AfterLine int | TotalLine int
| SizeLine int int int | Grew | DidNotGrow | VerdictLine verdict

definition print_result :: "scenario_result \<Rightarrow> result_line list" where
  "print_result r =
     [ScenarioLine (scenario_name r), WaitLine (wait_to_enter_tx r)] @
     (if 0 < callback_cost r then [CallbackLine (callback_cost r)] else []) @
     (if 0 < wait_after_cb r then [AfterLine (wait_after_cb r)] else []) @
     [TotalLine (total_call_cost r), SizeLine (db_size_before r) (db_size_after r) (db_size_delta r),
      if 0 < db_size_delta r then Grew else DidNotGrow, VerdictLine (judgement r)]"

datatype tx_fatal = RemoveFailed | OpenFailed | InitFailed | ScenarioFailed scenario tx_error

definition two_seconds :: int where
  "two_seconds = 2 * 1000000000"

text \<open>\<open>main\<close>: the lines and the reason of a \<open>log.Fatalf\<close>; \<open>None\<close> when it waits for ever.\<close>

definition tx_verify_main :: "bool \<Rightarrow> bool \<Rightarrow> bool \<Rightarrow> probe \<Rightarrow> probe \<Rightarrow> (result_line list \<times> tx_fatal option) option" where
  "tx_verify_main removed opened bucket_ok p1 p2 =
     (if \<not> removed then Some ([], Some RemoveFailed)
      else if \<not> opened then Some ([], Some OpenFailed)
      else if \<not> bucket_ok then Some ([], Some InitFailed)
      else (case read_blocks_write two_seconds p1 of
              None \<Rightarrow> None
            | Some (Inl e) \<Rightarrow> Some ([], Some (ScenarioFailed ReadThenWrite e))
            | Some (Inr r1) \<Rightarrow>
                (case write_blocks_read two_seconds p2 of
                   None \<Rightarrow> None
                 | Some (Inl e) \<Rightarrow> Some (print_result r1, Some (ScenarioFailed WriteThenRead e))
                 | Some (Inr r2) \<Rightarrow> Some (print_result r1 @ print_result r2, None))))"

section \<open>tx-no-mmap\<close>

text \<open>\<open>fmt.Sprintf("k-%05d", i)\<close> for a natural number.\<close>

definition pad5 :: "nat \<Rightarrow> string" where
  "pad5 i = (let d = nat_digits i in replicate (5 - length d) (CHR ''0'') @ d)"

definition seed_key :: "nat \<Rightarrow> string" where
  "seed_key i = ''k-'' @ pad5 i"

definition hot_key :: string where "hot_key = ''hot-key''"

text \<open>A callback working on the bucket; a bucket that is not there is a nil dereference.\<close>

definition on_bucket :: "('b \<Rightarrow> 'b \<times> users_error option) \<Rightarrow> 'b option \<Rightarrow> (users_error, 'b option) result" where
  "on_bucket f db =
     (case db of
        None \<Rightarrow> Inl NilBucket
      | Some b \<Rightarrow> (case f b of (b', None) \<Rightarrow> Inr (Some b') | (_, Some e) \<Rightarrow> Inl e))"

definition put_in :: "'b bolt_lib \<Rightarrow> 'b \<Rightarrow> string \<times> string \<Rightarrow> 'b \<times> users_error option" where
  "put_in L b kv = (case bk_put L (fst kv) (snd kv) b of None \<Rightarrow> (b, Some PutFailed) | Some b' \<Rightarrow> (b', None))"

definition delete_in :: "'b bolt_lib \<Rightarrow> 'b \<Rightarrow> string \<Rightarrow> 'b \<times> users_error option" where
  "delete_in L b k = (case bk_delete L k b of None \<Rightarrow> (b, Some DeleteFailed) | Some b' \<Rightarrow> (b', None))"

definition seed_rows :: "(string \<times> string) list" where
  "seed_rows = map (\<lambda>i. (seed_key i, replicate 1024 (CHR ''A''))) [0..<4000] @ [(hot_key, replicate 1024 (CHR ''H''))]"

definition reused_keys :: "string list" where
  "reused_keys = map seed_key [0..<3500]"

text \<open>The four transactions; \<open>fails\<close> says for each whether its commit fails.\<close>

definition prepare_reusable_pages :: "'b bolt_lib \<Rightarrow> (nat \<Rightarrow> bool) \<Rightarrow> 'b option \<Rightarrow> 'b option \<times> users_error option" where
  "prepare_reusable_pages L fails db =
     (case db_update (fails 0) (\<lambda>db. Inr (Some (case db of None \<Rightarrow> bk_empty L | Some b \<Rightarrow> b))) db of
        (db, Some e) \<Rightarrow> (db, Some e)
      | (db, None) \<Rightarrow>
     (case db_update (fails 1) (on_bucket (\<lambda>b. for_range (put_in L) b seed_rows)) db of
        (db, Some e) \<Rightarrow> (db, Some e)
      | (db, None) \<Rightarrow>
     (case db_update (fails 2) (on_bucket (\<lambda>b. for_range (delete_in L) b reused_keys)) db of
        (db, Some e) \<Rightarrow> (db, Some e)
      | (db, None) \<Rightarrow>
          db_update (fails 3) (on_bucket (\<lambda>b. put_in L b (''warmup'', ''ok''))) db)))"

datatype no_mmap_line = TookLines int int int | NoMmapSize int int int | NotBlockedNotGrown | BlockedOrGrown

datatype no_mmap_fatal = NmRemove | NmOpen | NmPrepare users_error | NmStat | NmWrite | NmReader

definition no_mmap_main ::
    "'b bolt_lib \<Rightarrow> (nat \<Rightarrow> bool) \<Rightarrow> bool \<Rightarrow> bool \<Rightarrow> probe \<Rightarrow> ('b option \<times> (no_mmap_fatal, no_mmap_line list) result) option" where
  "no_mmap_main L fails removed opened p =
     (if \<not> removed then Some (None, Inl NmRemove)
      else if \<not> opened then Some (None, Inl NmOpen)
      else (case prepare_reusable_pages L fails None of
        (db, Some e) \<Rightarrow> Some (db, Inl (NmPrepare e))
      | (db, None) \<Rightarrow>
         (case size_first p of None \<Rightarrow> Some (db, Inl NmStat) | Some before_size \<Rightarrow>
          if \<not> partner_enters p then None
          else
          (case db_update (\<not> call_ok p) (on_bucket (\<lambda>b. put_in L b (hot_key, replicate 1024 (CHR ''W'')))) db of
             (db, Some e) \<Rightarrow> Some (db, Inl NmWrite)
           | (db, None) \<Rightarrow>
              (let total = t_end p - t_start p in
               if \<not> partner_ok p then Some (db, Inl NmReader)
               else (case size_last p of None \<Rightarrow> Some (db, Inl NmStat) | Some after_size \<Rightarrow>
                 Some (db, Inr [TookLines (t_enter p - t_start p) (t_left p - t_enter p) total,
                   NoMmapSize before_size after_size (after_size - before_size),
                   if total < two_seconds div 2 \<and> after_size = before_size then NotBlockedNotGrown else BlockedOrGrown])))))))"

section \<open>The keys\<close>

lemma digits_val_zeros: "digits_val (replicate n (CHR ''0'') @ ds) = digits_val ds"
  by (induction n) (simp_all add: digits_val_def digit_val_def)

lemma seed_key_inj: "seed_key i = seed_key j \<longleftrightarrow> i = j"
proof
  assume "seed_key i = seed_key j"
  then have "digits_val (pad5 i) = digits_val (pad5 j)" by (simp add: seed_key_def)
  then show "i = j" by (simp add: pad5_def Let_def digits_val_zeros digits_val_nat_digits)
qed simp

lemma nat_digits_short: "n < 10 ^ Suc k \<Longrightarrow> length (nat_digits n) \<le> Suc k"
proof (induction k arbitrary: n)
  case 0
  then show ?case by (subst nat_digits.simps) simp
next
  case (Suc k)
  have "n div 10 < 10 ^ Suc k" using Suc.prems by (simp add: div_less_iff_less_mult)
  with Suc.IH show ?case by (subst nat_digits.simps) simp
qed

lemma length_pad5: "i < 100000 \<Longrightarrow> length (pad5 i) = 5"
  using nat_digits_short [of i 4] by (simp add: pad5_def Let_def)

lemma seed_key_other: "seed_key i \<noteq> hot_key" "seed_key i \<noteq> ''warmup''"
  by (simp_all add: seed_key_def hot_key_def)

lemma seed_rows_fit: "list_all (\<lambda>(k, v). row_fits k v) seed_rows"
  by (auto simp: seed_rows_def list_all_iff row_fits_def seed_key_def hot_key_def length_pad5)

section \<open>What the transactions leave\<close>

lemma put_one:
  assumes "bolt_lawful L" "row_fits k v"
  shows "\<exists>b'. put_in L b (k, v) = (b', None) \<and> map_of (bk_rows L b') = (map_of (bk_rows L b))(k \<mapsto> v)"
proof -
  obtain b' where "bk_put L k v b = Some b'" "bk_rows L b' = put_row k v (bk_rows L b)"
    using bolt_laws(3) [OF assms(1), of k v b] assms(2) by auto
  then show ?thesis by (intro exI [of _ b']) (simp add: put_in_def map_of_put_row)
qed

lemma put_all:
  assumes "bolt_lawful L" "list_all (\<lambda>(k, v). row_fits k v) kvs"
  shows "\<exists>b'. for_range (put_in L) b kvs = (b', None) \<and>
     map_of (bk_rows L b') = map_of (bk_rows L b) ++ map_of (rev kvs)"
  using assms(2)
proof (induction kvs arbitrary: b)
  case Nil
  then show ?case by simp
next
  case (Cons kv kvs)
  obtain k v where kv: "kv = (k, v)" by (cases kv)
  with Cons.prems obtain b1 where b1: "put_in L b kv = (b1, None)" "map_of (bk_rows L b1) = (map_of (bk_rows L b))(k \<mapsto> v)"
    using put_one [OF assms(1)] by fastforce
  obtain b' where "for_range (put_in L) b1 kvs = (b', None)" "map_of (bk_rows L b') = map_of (bk_rows L b1) ++ map_of (rev kvs)"
    using Cons by auto
  then show ?case using kv b1 by simp
qed

lemma delete_all:
  assumes "bolt_lawful L"
  shows "\<exists>b'. for_range (delete_in L) b ks = (b', None) \<and> map_of (bk_rows L b') = map_of (bk_rows L b) |` (- set ks)"
proof (induction ks arbitrary: b)
  case Nil
  then show ?case by (simp add: restrict_map_def)
next
  case (Cons k ks)
  obtain b1 where b1: "bk_delete L k b = Some b1" "bk_rows L b1 = filter (\<lambda>r. fst r \<noteq> k) (bk_rows L b)"
    using bolt_laws(4) [OF assms] by blast
  have "map_of (bk_rows L b1) = (map_of (bk_rows L b))(k := None)"
    using map_of_filter_fst_neq [of k "bk_rows L b"] by (simp add: b1 case_prod_beta')
  moreover obtain b' where "for_range (delete_in L) b1 ks = (b', None)" "map_of (bk_rows L b') = map_of (bk_rows L b1) |` (- set ks)"
    using Cons by blast
  moreover have "delete_in L b k = (b1, None)" using b1(1) by (simp add: delete_in_def)
  ultimately show ?case by (intro exI [of _ b']) (auto simp: restrict_map_def fun_eq_iff)
qed

lemma map_of_seed_rows:
  "map_of (rev seed_rows) k =
     (if k = hot_key then Some (replicate 1024 (CHR ''H''))
      else if \<exists>i < 4000. k = seed_key i then Some (replicate 1024 (CHR ''A'')) else None)"
proof -
  have "map_of (rev (map (\<lambda>i. (seed_key i, v)) is)) k = (if \<exists>i \<in> set is. k = seed_key i then Some v else None)"
    for "is" and v :: string
    by (induction "is") (auto simp: map_add_def split: option.splits)
  then show ?thesis by (auto simp: seed_rows_def)
qed

lemma update_ok: "f db = Inr db' \<Longrightarrow> db_update False f db = (db', None)"
  by (simp add: db_update_def)

section \<open>Properties\<close>

text \<open>What the bucket holds after the first \<open>n\<close> of the four transactions.\<close>

definition pages_after :: "nat \<Rightarrow> string \<Rightarrow> string option" where
  "pages_after n k =
     (if n \<le> 1 then None
      else if 4 \<le> n \<and> k = ''warmup'' then Some ''ok''
      else if k = hot_key then Some (replicate 1024 (CHR ''H''))
      else if \<exists>i. i < 4000 \<and> (3 \<le> n \<longrightarrow> 3500 \<le> i) \<and> k = seed_key i then Some (replicate 1024 (CHR ''A''))
      else None)"

lemma pages_after_1: "pages_after 1 = Map.empty"
  by (simp add: pages_after_def fun_eq_iff)

lemma pages_after_2: "pages_after 2 k = map_of (rev seed_rows) k"
  unfolding map_of_seed_rows pages_after_def by simp

lemma pages_after_3: "pages_after 3 = map_of (rev seed_rows) |` (- set reused_keys)"
proof
  fix k
  show "pages_after 3 k = (map_of (rev seed_rows) |` (- set reused_keys)) k"
  proof (cases "\<exists>i<4000. k = seed_key i")
    case True
    then obtain i where i: "i < 4000" "k = seed_key i" by blast
    have "seed_key i \<in> set reused_keys \<longleftrightarrow> i < 3500" by (auto simp: reused_keys_def seed_key_inj)
    then show ?thesis
      using i seed_key_other [of i] unfolding restrict_map_def map_of_seed_rows pages_after_def by (auto simp: seed_key_inj)
  next
    case False
    moreover have "hot_key \<notin> set reused_keys" by (auto simp: reused_keys_def seed_key_other [symmetric])
    ultimately show ?thesis unfolding restrict_map_def map_of_seed_rows pages_after_def by auto
  qed
qed

lemma pages_after_4: "pages_after 4 = (pages_after 3)(''warmup'' \<mapsto> ''ok'')"
  by (auto simp: pages_after_def fun_eq_iff)

lemma update_fails: "f db = Inr db' \<Longrightarrow> db_update True f db = (db, Some CommitFailed)"
  by (simp add: db_update_def)

text \<open>How many transactions are committed when \<open>fails\<close> says which commits do not succeed.\<close>

definition committed :: "(nat \<Rightarrow> bool) \<Rightarrow> nat" where
  "committed fails = length (takeWhile (\<lambda>i. \<not> fails i) [0..<4])"

lemma committed_cases:
  "committed fails = (if fails 0 then 0 else if fails 1 then 1 else if fails 2 then 2 else if fails 3 then 3 else 4)"
  by (simp add: committed_def upt_rec eval_nat_numeral)

text \<open>
  C40. Preparing a new database, on a bucket store that keeps its promises and with whatever commits failing: the
  transactions up to the first failing commit take effect and none after it, the error is that of the commit, and the
  bucket then holds exactly what those transactions leave; after all four, the last five hundred of the four
  thousand seeded keys, the hot key and the warm-up key.
\<close>

theorem prepared_pages:
  assumes "bolt_lawful L"
  shows "\<exists>db. prepare_reusable_pages L fails None = (db, if committed fails = 4 then None else Some CommitFailed) \<and>
     (db = None \<longleftrightarrow> committed fails = 0) \<and> (\<forall>b. db = Some b \<longrightarrow> bk_get L b = pages_after (committed fails))"
proof -
  have g: "bk_get L b = map_of (bk_rows L b)" for b by (rule bolt_laws(2) [OF assms])
  have e: "map_of (bk_rows L (bk_empty L)) = pages_after 1" unfolding pages_after_1 by (simp add: bolt_laws(1) [OF assms])
  obtain b1 where b1: "for_range (put_in L) (bk_empty L) seed_rows = (b1, None)" "map_of (bk_rows L b1) = pages_after 2"
    using put_all [OF assms seed_rows_fit, of "bk_empty L"] by (auto simp: bolt_laws(1) [OF assms] pages_after_2 fun_eq_iff)
  obtain b2 where b2: "for_range (delete_in L) b1 reused_keys = (b2, None)" "map_of (bk_rows L b2) = pages_after 3"
    using delete_all [OF assms, of b1 reused_keys] b1(2) by (auto simp: pages_after_3 pages_after_2 [abs_def])
  have "row_fits ''warmup'' ''ok''" by (simp add: row_fits_def)
  then obtain b3 where b3: "put_in L b2 (''warmup'', ''ok'') = (b3, None)" "map_of (bk_rows L b3) = pages_after 4"
    using put_one [OF assms, of "''warmup''" "''ok''" b2] b2(2) unfolding pages_after_4 by auto
  have "prepare_reusable_pages L fails None =
     (if fails 0 then (None, Some CommitFailed) else if fails 1 then (Some (bk_empty L), Some CommitFailed)
      else if fails 2 then (Some b1, Some CommitFailed) else if fails 3 then (Some b2, Some CommitFailed) else (Some b3, None))"
    using b1(1) b2(1) b3(1) by (simp add: prepare_reusable_pages_def db_update_def on_bucket_def)
  then show ?thesis using b1(2) b2(2) b3(2) e by (simp add: committed_cases g)
qed

text \<open>With all commits, and with the third failing: the keys to be deleted are still there.\<close>

theorem prepared_pages_witness:
  "\<exists>b. prepare_reusable_pages list_lib (\<lambda>_. False) None = (Some b, None) \<and> bk_get list_lib b ''warmup'' = Some ''ok'' \<and>
     (\<exists>c. prepare_reusable_pages list_lib (\<lambda>i. i = 2) None = (Some c, Some CommitFailed) \<and>
        bk_get list_lib c (seed_key 7) = Some (replicate 1024 (CHR ''A'')) \<and> bk_get list_lib c ''warmup'' = None)"
proof -
  have c: "committed (\<lambda>_. False) = 4" "committed (\<lambda>i. i = 2) = 2" by (simp_all add: committed_cases)
  have p: "pages_after 4 ''warmup'' = Some ''ok''" "pages_after 2 (seed_key 7) = Some (replicate 1024 (CHR ''A''))" "pages_after 2 ''warmup'' = None"
    using seed_key_other by (simp_all add: pages_after_def hot_key_def) (auto simp: seed_key_inj seed_key_def intro!: exI [of _ 7])
  show ?thesis
    using prepared_pages [OF list_lib_lawful, of "\<lambda>_. False"] prepared_pages [OF list_lib_lawful, of "\<lambda>i. i = 2"] c p by fastforce
qed

text \<open>The experiments wait for ever when the other goroutine's transaction does not start.\<close>

lemma partner_never_enters:
  "\<not> partner_enters p \<Longrightarrow> read_blocks_write hold p = None \<and> write_blocks_read hold p = None"
  by (simp add: read_blocks_write_def write_blocks_read_def)

text \<open>The reader of the second experiment counts as not held up only if its whole call was short, its callback included.\<close>

lemma read_verdict:
  assumes "write_blocks_read hold p = Some (Inr r)" "t_start p \<le> t_enter p" "t_enter p \<le> t_left p" "t_left p \<le> t_end p"
  shows "judgement r = ReadNotBlocked \<longleftrightarrow> total_call_cost r < hold div 2"
  using assms by (auto simp: write_blocks_read_def Let_def split: if_splits option.splits)

text \<open>Reports leave out the parts that took no time; the verdict is always the last line.\<close>

lemma report_ends_with_verdict: "last (print_result r) = VerdictLine (judgement r)" "length (print_result r) \<in> {6, 7, 8}"
  by (simp_all add: print_result_def)

end
