(* ===== verification/WsServer.thy ===== *)
theory WsServer
  imports GoPrelude
begin

text \<open>
  The two websocket servers and their clients (\<open>websocket/v1\<close>, \<open>websocket/v2\<close>). A connection is a number,
  given out in the order of the upgrades; what arrives and whether a write fails is chosen by the
  step. The library's connection allows one writer at a time and panics otherwise
  (\<open>gorilla/websocket\<close> documents that the application must see to it), so who is inside
  \<open>WriteMessage\<close> is part of the state.
\<close>

section \<open>Version 2: a table of clients and a ticker\<close>

text \<open>\<open>clients map[string]*Client\<close>: the client is its connection; its ID is kept beside, in \<open>cid\<close>.\<close>

record client =
  cconn :: nat
  cid :: string

type_synonym clients = "string \<rightharpoonup> client"

definition register :: "client \<Rightarrow> clients \<Rightarrow> clients" where
  "register c t = t(cid c \<mapsto> c)"

definition unregister :: "client \<Rightarrow> clients \<Rightarrow> clients" where
  "unregister c t = t(cid c := None)"

definition get_client :: "clients \<Rightarrow> string \<Rightarrow> client option" where
  "get_client t i = t i"

text \<open>The keys of the copy, in an order of the runtime's choice.\<close>

definition get_all_clients :: "clients \<Rightarrow> string list \<Rightarrow> bool" where
  "get_all_clients t ids \<longleftrightarrow> distinct ids \<and> set ids = dom t"

datatype handler_pc =
  NotAccepted
| Registering     \<comment> \<open>upgraded, before \<open>s.clients[clientID] = client\<close>\<close>
| Reading
| Writing         \<comment> \<open>in the echo's \<open>WriteMessage\<close>\<close>
| Leaving         \<comment> \<open>out of the loop, before the deferred \<open>delete\<close>\<close>
| Gone

datatype ticker_pc = Waiting | Sending "string list" | SendingTo client "string list"

record ws2_state =
  table :: clients
  accepted :: nat
  id_of :: "nat \<Rightarrow> string"
  handler :: "nat \<Rightarrow> handler_pc"
  ticker :: ticker_pc

definition new_websocket_server :: ws2_state where
  "new_websocket_server = \<lparr>table = Map.empty, accepted = 0, id_of = (\<lambda>_. []), handler = (\<lambda>_. NotAccepted), ticker = Waiting\<rparr>"

abbreviation client_of :: "ws2_state \<Rightarrow> nat \<Rightarrow> client" where
  "client_of s c \<equiv> \<lparr>cconn = c, cid = id_of s c\<rparr>"

abbreviation live :: "handler_pc \<Rightarrow> bool" where
  "live p \<equiv> p \<noteq> NotAccepted \<and> p \<noteq> Gone"

text \<open>
  One step of the server. \<open>reuse\<close> says whether a peer may connect from an address while the server
  still holds an older connection from it; TCP excludes that until the older one is reset or closed.
\<close>

inductive ws2_step :: "bool \<Rightarrow> ws2_state \<Rightarrow> ws2_state \<Rightarrow> bool" for reuse where
  accept [go_intros]: "c = accepted s \<Longrightarrow> reuse \<or> (\<forall>d. live (handler s d) \<longrightarrow> id_of s d \<noteq> i) \<Longrightarrow>
     ws2_step reuse s (s\<lparr>accepted := Suc c, id_of := (id_of s)(c := i), handler := (handler s)(c := Registering)\<rparr>)"
| registers [go_intros]: "handler s c = Registering \<Longrightarrow>
     ws2_step reuse s (s\<lparr>table := register (client_of s c) (table s), handler := (handler s)(c := Reading)\<rparr>)"
| read_ok [go_intros]: "handler s c = Reading \<Longrightarrow> ws2_step reuse s (s\<lparr>handler := (handler s)(c := Writing)\<rparr>)"
| read_fails [go_intros]: "handler s c = Reading \<Longrightarrow> ws2_step reuse s (s\<lparr>handler := (handler s)(c := Leaving)\<rparr>)"
| echoed [go_intros]: "handler s c = Writing \<Longrightarrow> ws2_step reuse s (s\<lparr>handler := (handler s)(c := Reading)\<rparr>)"
| echo_fails [go_intros]: "handler s c = Writing \<Longrightarrow> ws2_step reuse s (s\<lparr>handler := (handler s)(c := Leaving)\<rparr>)"
| leaves [go_intros]: "handler s c = Leaving \<Longrightarrow>
     ws2_step reuse s (s\<lparr>table := unregister (client_of s c) (table s), handler := (handler s)(c := Gone)\<rparr>)"
| ticks [go_intros]: "ticker s = Waiting \<Longrightarrow> get_all_clients (table s) ids \<Longrightarrow> ws2_step reuse s (s\<lparr>ticker := Sending ids\<rparr>)"
| finds [go_intros]: "ticker s = Sending (i # ids) \<Longrightarrow> get_client (table s) i = Some c \<Longrightarrow>
     ws2_step reuse s (s\<lparr>ticker := SendingTo c ids\<rparr>)"
| misses [go_intros]: "ticker s = Sending (i # ids) \<Longrightarrow> get_client (table s) i = None \<Longrightarrow>
     ws2_step reuse s (s\<lparr>ticker := Sending ids\<rparr>)"
| sent [go_intros]: "ticker s = SendingTo c ids \<Longrightarrow> ws2_step reuse s (s\<lparr>ticker := Sending ids\<rparr>)"
| round_done [go_intros]: "ticker s = Sending [] \<Longrightarrow> ws2_step reuse s (s\<lparr>ticker := Waiting\<rparr>)"

inductive_cases ws2_stepE: "ws2_step reuse s t"

text \<open>How many goroutines are inside \<open>WriteMessage\<close> of a connection.\<close>

definition writers :: "ws2_state \<Rightarrow> nat \<Rightarrow> nat" where
  "writers s c = (if handler s c = Writing then 1 else 0) +
     (case ticker s of SendingTo cl _ \<Rightarrow> if cconn cl = c then 1 else 0 | _ \<Rightarrow> 0)"

text \<open>Every entry is stored under its own ID and belongs to a connection that was accepted and not yet removed.\<close>

definition ws2_typed :: "ws2_state \<Rightarrow> bool" where
  "ws2_typed s \<longleftrightarrow> (\<forall>i cl. table s i = Some cl \<longrightarrow> cid cl = i \<and> id_of s (cconn cl) = i \<and> cconn cl < accepted s) \<and>
     (\<forall>c. handler s c \<noteq> NotAccepted \<longrightarrow> c < accepted s) \<and>
     (\<forall>cl ids. ticker s = SendingTo cl ids \<longrightarrow> cconn cl < accepted s \<and> cid cl = id_of s (cconn cl))"

lemma ws2_typed_step:
  assumes "ws2_typed s" "ws2_step reuse s t"
  shows "ws2_typed t"
  using assms(2)
proof (cases rule: ws2_step.cases)
  case (accept c i)
  then show ?thesis using assms(1) unfolding ws2_typed_def by (simp add: less_Suc_eq) (metis less_irrefl)
next
  case (registers c)
  then show ?thesis using assms(1) by (simp add: ws2_typed_def register_def)
next
  case (leaves c)
  then show ?thesis using assms(1) by (simp add: ws2_typed_def unregister_def)
next
  case (finds i ids c)
  then show ?thesis using assms(1) unfolding ws2_typed_def get_client_def by simp
qed (use assms(1) in \<open>simp_all add: ws2_typed_def\<close>)

text \<open>The table holds exactly the connections whose handler is between registering and leaving.\<close>

abbreviation listed :: "handler_pc \<Rightarrow> bool" where
  "listed p \<equiv> p = Reading \<or> p = Writing \<or> p = Leaving"

definition ws2_exact :: "ws2_state \<Rightarrow> bool" where
  "ws2_exact s \<longleftrightarrow> (\<forall>c. handler s c \<noteq> NotAccepted \<longrightarrow> c < accepted s) \<and>
     (\<forall>c d. live (handler s c) \<longrightarrow> live (handler s d) \<longrightarrow> id_of s c = id_of s d \<longrightarrow> c = d) \<and>
     (\<forall>i cl. table s i = Some cl \<longrightarrow> cid cl = i \<and> id_of s (cconn cl) = i \<and> listed (handler s (cconn cl))) \<and>
     (\<forall>c. listed (handler s c) \<longrightarrow> table s (id_of s c) = Some (client_of s c))"

lemma ws2_exact_new: "ws2_exact s \<Longrightarrow> handler s (accepted s) = NotAccepted"
  unfolding ws2_exact_def by blast

lemma ws2_exact_listed: "ws2_exact s \<Longrightarrow> listed (handler s c) \<Longrightarrow> table s (id_of s c) = Some (client_of s c)"
  unfolding ws2_exact_def by blast

lemma ws2_exact_step:
  assumes "ws2_exact s" "ws2_step False s t"
  shows "ws2_exact t"
  using assms(2)
proof (cases rule: ws2_step.cases)
  case (accept c i)
  have new: "handler s c = NotAccepted" using ws2_exact_new [OF assms(1)] accept by simp
  have "\<forall>j cl. table s j = Some cl \<longrightarrow> cconn cl \<noteq> c"
    using assms(1) new unfolding ws2_exact_def by (metis handler_pc.distinct)
  then show ?thesis
    using assms(1) accept new unfolding ws2_exact_def by (auto simp: less_Suc_eq)
next
  case (registers c)
  then show ?thesis using assms(1) unfolding ws2_exact_def register_def by auto
next
  case (leaves c)
  then show ?thesis using assms(1) unfolding ws2_exact_def unregister_def by auto
qed (use assms(1) in \<open>auto simp: ws2_exact_def\<close>)

interpretation ws2_typing: step_invariant "\<lambda>s. s = new_websocket_server" "ws2_step reuse" ws2_typed for reuse
proof
  show "\<And>s. s = new_websocket_server \<Longrightarrow> ws2_typed s" by (simp add: ws2_typed_def new_websocket_server_def)
qed (rule ws2_typed_step)

interpretation ws2: step_invariant "\<lambda>s. s = new_websocket_server" "ws2_step False" ws2_exact
proof
  show "\<And>s. s = new_websocket_server \<Longrightarrow> ws2_exact s" by (simp add: ws2_exact_def new_websocket_server_def)
qed (rule ws2_exact_step)

section \<open>Version 1: one mutex for all writes\<close>

text \<open>
  \<open>socketHandler\<close> begins by asking the connection for its address, before it looks at the error of the
  upgrade, which leaves a nil connection: \<open>None\<close> is that panic.
\<close>

datatype entry = Serve nat

definition socket_handler_entry :: "nat option \<Rightarrow> entry option" where
  "socket_handler_entry upgraded = (case upgraded of None \<Rightarrow> None | Some conn \<Rightarrow> Some (Serve conn))"

datatype echo_pc =
  ENone
| ERead          \<comment> \<open>in \<open>ReadMessage\<close>\<close>
| ELock          \<comment> \<open>before \<open>mu.Lock()\<close>\<close>
| EWrite         \<comment> \<open>in \<open>WriteMessage\<close>, with the mutex\<close>
| EDone

datatype hello_pc = HNone | HLock | HWrite | HSleep

datatype goroutine = Echo nat | Hello nat

record ws1_state =
  mu :: "goroutine option"
  conns :: nat
  echo :: "nat \<Rightarrow> echo_pc"
  hello :: "nat \<Rightarrow> hello_pc"

definition ws1_start :: ws1_state where
  "ws1_start = \<lparr>mu = None, conns = 0, echo = (\<lambda>_. ENone), hello = (\<lambda>_. HNone)\<rparr>"

inductive ws1_step :: "ws1_state \<Rightarrow> ws1_state \<Rightarrow> bool" where
  ws1_accept [go_intros]: "socket_handler_entry (Some (conns s)) = Some (Serve c) \<Longrightarrow>
     ws1_step s (s\<lparr>conns := Suc c, echo := (echo s)(c := ERead), hello := (hello s)(c := HLock)\<rparr>)"
| ws1_read [go_intros]: "echo s c = ERead \<Longrightarrow> ws1_step s (s\<lparr>echo := (echo s)(c := ELock)\<rparr>)"
| ws1_read_fails [go_intros]: "echo s c = ERead \<Longrightarrow> ws1_step s (s\<lparr>echo := (echo s)(c := EDone)\<rparr>)"
| ws1_echo_locks [go_intros]: "echo s c = ELock \<Longrightarrow> mu s = None \<Longrightarrow>
     ws1_step s (s\<lparr>mu := Some (Echo c), echo := (echo s)(c := EWrite)\<rparr>)"
| ws1_echoed [go_intros]: "echo s c = EWrite \<Longrightarrow> ws1_step s (s\<lparr>mu := None, echo := (echo s)(c := ERead)\<rparr>)"
| ws1_echo_fails [go_intros]: "echo s c = EWrite \<Longrightarrow> ws1_step s (s\<lparr>echo := (echo s)(c := EDone)\<rparr>)"
| ws1_hello_locks [go_intros]: "hello s c = HLock \<Longrightarrow> mu s = None \<Longrightarrow>
     ws1_step s (s\<lparr>mu := Some (Hello c), hello := (hello s)(c := HWrite)\<rparr>)"
| ws1_hello_wrote [go_intros]: "hello s c = HWrite \<Longrightarrow> ws1_step s (s\<lparr>mu := None, hello := (hello s)(c := HSleep)\<rparr>)"
| ws1_wakes [go_intros]: "hello s c = HSleep \<Longrightarrow> ws1_step s (s\<lparr>hello := (hello s)(c := HLock)\<rparr>)"

inductive_cases ws1_stepE: "ws1_step s t"

definition writing :: "ws1_state \<Rightarrow> goroutine set" where
  "writing s = {Echo c | c. echo s c = EWrite} \<union> {Hello c | c. hello s c = HWrite}"

text \<open>The mutex left behind: held by an echo loop that has ended.\<close>

definition abandoned :: "ws1_state \<Rightarrow> bool" where
  "abandoned s = (case mu s of Some (Echo c) \<Rightarrow> echo s c = EDone | _ \<Rightarrow> False)"

text \<open>What holds of each connection: whoever writes has the mutex, whoever has it writes or has gone.\<close>

definition mutex_inv :: "goroutine option \<Rightarrow> nat \<Rightarrow> echo_pc \<Rightarrow> hello_pc \<Rightarrow> bool" where
  "mutex_inv m c e h \<longleftrightarrow>
     (if e = EWrite then m = Some (Echo c) else m = Some (Echo c) \<longrightarrow> e = EDone) \<and> (h = HWrite \<longleftrightarrow> m = Some (Hello c))"

definition known_inv :: "nat \<Rightarrow> nat \<Rightarrow> echo_pc \<Rightarrow> hello_pc \<Rightarrow> bool" where
  "known_inv n c e h \<longleftrightarrow> (e = ENone \<longleftrightarrow> n \<le> c) \<and> (h = HNone \<longleftrightarrow> n \<le> c)"

definition conn_inv :: "goroutine option \<Rightarrow> nat \<Rightarrow> nat \<Rightarrow> echo_pc \<Rightarrow> hello_pc \<Rightarrow> bool" where
  "conn_inv m n c e h \<longleftrightarrow> mutex_inv m c e h \<and> known_inv n c e h"

definition ws1_inv :: "ws1_state \<Rightarrow> bool" where
  "ws1_inv s \<longleftrightarrow> (\<forall>c. conn_inv (mu s) (conns s) c (echo s c) (hello s c))"

lemma ws1_invD: "ws1_inv s \<Longrightarrow> conn_inv (mu s) (conns s) c (echo s c) (hello s c)"
  by (simp add: ws1_inv_def)

lemma ws1_accepts_new: "ws1_inv s \<Longrightarrow> echo s (conns s) = ENone \<and> hello s (conns s) = HNone"
  using ws1_invD [of s "conns s"] by (simp add: conn_inv_def known_inv_def)

text \<open>The mutex changing hands leaves the other connections alone.\<close>

lemma conn_inv_release:
  "conn_inv (Some (Echo c)) n d e h \<Longrightarrow> d \<noteq> c \<Longrightarrow> conn_inv None n d e h"
  "conn_inv (Some (Hello c)) n d e h \<Longrightarrow> d \<noteq> c \<Longrightarrow> conn_inv None n d e h"
  by (auto simp: conn_inv_def mutex_inv_def split: if_splits)

lemma conn_inv_take:
  "conn_inv None n d e h \<Longrightarrow> d \<noteq> c \<Longrightarrow> conn_inv (Some (Echo c)) n d e h"
  "conn_inv None n d e h \<Longrightarrow> d \<noteq> c \<Longrightarrow> conn_inv (Some (Hello c)) n d e h"
  by (auto simp: conn_inv_def mutex_inv_def split: if_splits)

text \<open>The moves of one connection's own goroutines.\<close>

lemma conn_inv_own:
  "conn_inv m n c ERead h \<Longrightarrow> conn_inv m n c ELock h"
  "conn_inv m n c ERead h \<Longrightarrow> conn_inv m n c EDone h"
  "conn_inv None n c ELock h \<Longrightarrow> conn_inv (Some (Echo c)) n c EWrite h"
  "conn_inv m n c EWrite h \<Longrightarrow> conn_inv None n c ERead h"
  "conn_inv m n c EWrite h \<Longrightarrow> conn_inv m n c EDone h"
  "conn_inv None n c e HLock \<Longrightarrow> conn_inv (Some (Hello c)) n c e HWrite"
  "conn_inv m n c e HWrite \<Longrightarrow> conn_inv None n c e HSleep"
  "conn_inv m n c e HSleep \<Longrightarrow> conn_inv m n c e HLock"
  by (auto simp: conn_inv_def mutex_inv_def known_inv_def split: if_splits)

lemma conn_inv_mutex:
  "conn_inv m n c EWrite h \<Longrightarrow> m = Some (Echo c)" "conn_inv m n c e HWrite \<Longrightarrow> m = Some (Hello c)"
  by (simp_all add: conn_inv_def mutex_inv_def)

lemma conn_inv_enter: "conn_inv m n d e h \<Longrightarrow> n \<noteq> d \<Longrightarrow> conn_inv m (Suc n) d e h"
  by (auto simp: conn_inv_def known_inv_def)

lemma conn_inv_new: "conn_inv m n n ENone HNone \<Longrightarrow> conn_inv m (Suc n) n ERead HLock"
  by (auto simp: conn_inv_def mutex_inv_def known_inv_def)

lemma ws1_inv_step:
  assumes "ws1_inv s" "ws1_step s t"
  shows "ws1_inv t"
  unfolding ws1_inv_def
proof
  fix d
  note inv = ws1_invD [OF assms(1)]
  show "conn_inv (mu t) (conns t) d (echo t d) (hello t d)"
    using assms(2)
  proof (cases rule: ws1_step.cases)
    case (ws1_accept c)
    then have c: "c = conns s" by (simp add: socket_handler_entry_def)
    show ?thesis
      using inv [of d] ws1_accept c ws1_accepts_new [OF assms(1)]
      by (cases "d = c") (auto intro: conn_inv_enter conn_inv_new)
  next
    case (ws1_read c)
    then show ?thesis using inv [of d] inv [of c]
      by (cases "d = c") (auto dest: conn_inv_own(1))
  next
    case (ws1_read_fails c)
    then show ?thesis using inv [of d] inv [of c]
      by (cases "d = c") (auto dest: conn_inv_own(2))
  next
    case (ws1_echo_locks c)
    then show ?thesis using inv [of d] inv [of c]
      by (cases "d = c") (auto dest: conn_inv_own(3) conn_inv_take)
  next
    case (ws1_echoed c)
    then show ?thesis using inv [of d] inv [of c] conn_inv_mutex(1) [of "mu s" "conns s" c "hello s c"]
      by (cases "d = c") (auto dest: conn_inv_own(4) conn_inv_release)
  next
    case (ws1_echo_fails c)
    then show ?thesis using inv [of d] inv [of c]
      by (cases "d = c") (auto dest: conn_inv_own(5))
  next
    case (ws1_hello_locks c)
    then show ?thesis using inv [of d] inv [of c]
      by (cases "d = c") (auto dest: conn_inv_own(6) conn_inv_take)
  next
    case (ws1_hello_wrote c)
    then show ?thesis using inv [of d] inv [of c] conn_inv_mutex(2) [of "mu s" "conns s" c "echo s c"]
      by (cases "d = c") (auto dest: conn_inv_own(7) conn_inv_release)
  next
    case (ws1_wakes c)
    then show ?thesis using inv [of d] inv [of c]
      by (cases "d = c") (auto dest: conn_inv_own(8))
  qed
qed

interpretation ws1: step_invariant "\<lambda>s. s = ws1_start" ws1_step ws1_inv
proof
  show "\<And>s. s = ws1_start \<Longrightarrow> ws1_inv s" by (simp add: ws1_inv_def conn_inv_def mutex_inv_def known_inv_def ws1_start_def)
qed (rule ws1_inv_step)

text \<open>Once abandoned the mutex stays so, and nobody gets past it.\<close>

lemma abandoned_step:
  assumes "ws1_inv s" "abandoned s" "ws1_step s t"
  shows "abandoned t"
proof -
  obtain a where a: "mu s = Some (Echo a)" "echo s a = EDone"
    using assms(2) by (auto simp: abandoned_def split: option.splits goroutine.splits)
  have nobody: "echo s c \<noteq> EWrite \<and> hello s c \<noteq> HWrite" for c
    using ws1_invD [OF assms(1), of c] a by (auto simp: conn_inv_def mutex_inv_def known_inv_def)
  show ?thesis
    using assms(3)
  proof (cases rule: ws1_step.cases)
    case (ws1_accept c)
    then have "a \<noteq> c" using a ws1_accepts_new [OF assms(1)] by (auto simp: socket_handler_entry_def)
    then show ?thesis using a ws1_accept by (simp add: abandoned_def)
  qed (use a nobody in \<open>auto simp: abandoned_def\<close>)
qed

lemma abandoned_nobody_writes:
  assumes "ws1_inv s" "abandoned s"
  shows "echo s c \<noteq> EWrite \<and> hello s c \<noteq> HWrite"
  using ws1_invD [OF assms(1), of c] assms(2)
  by (auto simp: conn_inv_def mutex_inv_def abandoned_def split: option.splits goroutine.splits if_splits)

section \<open>The clients\<close>

text \<open>
  Version 2: \<open>NewWebSocketClient\<close>, one message sent, then reads until one fails. A dial, a write and
  the reads (\<open>None\<close> an error; after the last the connection is gone) are what the server gives.
\<close>

datatype client_line = DialFailed | SendFailed | FirstReadFailed | ClientReceived string | ReadStopped

fun read_on :: "string option list \<Rightarrow> client_line list" where
  "read_on [] = [ReadStopped]"
| "read_on (None # _) = [ReadStopped]"
| "read_on (Some m # rs) = ClientReceived m # read_on rs"

definition ws2_client_main :: "bool \<Rightarrow> bool \<Rightarrow> string option list \<Rightarrow> client_line list" where
  "ws2_client_main dialled sent rs =
     (if \<not> dialled then [DialFailed]
      else if \<not> sent then [SendFailed]
      else (case rs of
              Some m # rs' \<Rightarrow> ClientReceived m # read_on rs'
            | _ \<Rightarrow> [FirstReadFailed]))"

text \<open>
  Version 1: a select between a timer and an interrupt, beside a receiver that closes \<open>done\<close> when a read
  fails. An event carries whether the write it makes succeeds; the interrupt also whether the
  receiver is done before the last second is over.
\<close>

datatype ws1_event = Timer bool | Interrupt bool bool | Received string | ReceiveFailed

datatype ws1_line = SentHello | WriteFailed | GotMessage string | ReceiveError | Closing | CloseFailed | ReceiverClosed | CloseTimeout

record ws1_client =
  receiving :: bool     \<comment> \<open>\<open>done\<close> is not closed\<close>
  running :: bool
  shown :: "ws1_line list"

definition ws1_client_step :: "ws1_client \<Rightarrow> ws1_event \<Rightarrow> ws1_client" where
  "ws1_client_step s e =
     (if \<not> running s then s
      else (case e of
        Timer ok \<Rightarrow> if ok then s\<lparr>shown := shown s @ [SentHello]\<rparr> else s\<lparr>running := False, shown := shown s @ [WriteFailed]\<rparr>
      | Interrupt ok closed \<Rightarrow>
          s\<lparr>running := False, shown := shown s @ Closing #
             (if \<not> ok then [CloseFailed] else [if \<not> receiving s \<or> closed then ReceiverClosed else CloseTimeout])\<rparr>
      | Received m \<Rightarrow> if receiving s then s\<lparr>shown := shown s @ [GotMessage m]\<rparr> else s
      | ReceiveFailed \<Rightarrow> if receiving s then s\<lparr>receiving := False, shown := shown s @ [ReceiveError]\<rparr> else s))"

definition ws1_client_main :: "ws1_event list \<Rightarrow> ws1_client" where
  "ws1_client_main es = foldl ws1_client_step \<lparr>receiving = True, running = True, shown = []\<rparr> es"

lemma ws1_client_stopped: "\<not> running s \<Longrightarrow> foldl ws1_client_step s es = s"
  by (induction es) (simp_all add: ws1_client_step_def)

text \<open>The client ends with its first failed write or interrupt, and not when the receiver does.\<close>

lemma ws1_client_runs:
  "running (foldl ws1_client_step s es) \<longleftrightarrow>
     running s \<and> list_all (\<lambda>e. e \<noteq> Timer False \<and> (\<forall>ok closed. e \<noteq> Interrupt ok closed)) es"
  by (induction es arbitrary: s) (auto simp: ws1_client_step_def ws1_client_stopped split: ws1_event.splits)

lemma read_on_received: "read_on (map Some ms @ [None]) = map ClientReceived ms @ [ReadStopped]"
  by (induction ms) simp_all

section \<open>Properties\<close>

text \<open>
  C31. As long as no address is used again before its old connection is removed, the client table holds
  exactly the connections whose handler has registered and not yet removed them, each under its own ID.
\<close>

theorem ws2_table_exact:
  assumes "(ws2_step False)\<^sup>*\<^sup>* new_websocket_server s"
  shows "get_client (table s) i = Some cl \<longleftrightarrow>
     cid cl = i \<and> id_of s (cconn cl) = i \<and> handler s (cconn cl) \<in> {Reading, Writing, Leaving}"
proof -
  note inv = ws2.inv_reachable [OF refl assms]
  show ?thesis
  proof
    assume "get_client (table s) i = Some cl"
    then show "cid cl = i \<and> id_of s (cconn cl) = i \<and> handler s (cconn cl) \<in> {Reading, Writing, Leaving}"
      using inv by (simp add: ws2_exact_def get_client_def)
  next
    assume a: "cid cl = i \<and> id_of s (cconn cl) = i \<and> handler s (cconn cl) \<in> {Reading, Writing, Leaving}"
    then have "table s (id_of s (cconn cl)) = Some (client_of s (cconn cl))"
      using ws2_exact_listed [OF inv, of "cconn cl"] by auto
    moreover have "client_of s (cconn cl) = cl" using a by simp
    ultimately show "get_client (table s) i = Some cl" using a by (simp add: get_client_def)
  qed
qed

text \<open>A run in which the client of address \<open>i\<close> is served and the ticker has found it.\<close>

definition ws2_run :: "string \<Rightarrow> ws2_state" where
  "ws2_run i = \<lparr>table = [i \<mapsto> \<lparr>cconn = 0, cid = i\<rparr>], accepted = 1, id_of = (\<lambda>_. [])(0 := i),
     handler = (\<lambda>_. NotAccepted)(0 := Reading), ticker = Waiting\<rparr>"

lemma ws2_run_reachable: "(ws2_step reuse)\<^sup>*\<^sup>* new_websocket_server (ws2_run i)"
proof -
  let ?s1 = "new_websocket_server\<lparr>accepted := 1, id_of := (\<lambda>_. [])(0 := i), handler := (\<lambda>_. NotAccepted)(0 := Registering)\<rparr>"
  have 1: "ws2_step reuse new_websocket_server ?s1"
    using accept [of 0 new_websocket_server reuse i] by (simp add: new_websocket_server_def)
  have 2: "ws2_step reuse ?s1 (ws2_run i)"
    using registers [of ?s1 0 reuse] by (simp add: new_websocket_server_def ws2_run_def register_def)
  from 1 2 show ?thesis by (meson rtranclp.rtrancl_into_rtrancl rtranclp.rtrancl_refl)
qed

theorem ws2_table_exact_witness:
  "(ws2_step False)\<^sup>*\<^sup>* new_websocket_server (ws2_run ''a'') \<and>
   (get_client (table (ws2_run ''a'')) ''a'' = Some \<lparr>cconn = 0, cid = ''a''\<rparr> \<longleftrightarrow>
     cid \<lparr>cconn = 0, cid = ''a''\<rparr> = ''a'' \<and> id_of (ws2_run ''a'') 0 = ''a'' \<and>
     handler (ws2_run ''a'') 0 \<in> {Reading, Writing, Leaving})"
  using ws2_run_reachable [of False "''a''"] ws2_table_exact [OF ws2_run_reachable [of False "''a''"], of "''a''" "\<lparr>cconn = 0, cid = ''a''\<rparr>"]
  by simp

text \<open>
  When the address comes back first, the old connection's handler removes the new one's entry: an open,
  served connection that the ticker no longer finds.
\<close>

lemma ws2_entry_lost:
  "\<exists>s. (ws2_step True)\<^sup>*\<^sup>* (ws2_run i) s \<and> handler s 1 = Reading \<and> id_of s 1 = i \<and> get_client (table s) i = None"
proof -
  let ?s1 = "(ws2_run i)\<lparr>accepted := 2, id_of := (id_of (ws2_run i))(1 := i), handler := (handler (ws2_run i))(1 := Registering)\<rparr>"
  let ?s2 = "?s1\<lparr>table := [i \<mapsto> \<lparr>cconn = 1, cid = i\<rparr>], handler := (handler ?s1)(1 := Reading)\<rparr>"
  let ?s3 = "?s2\<lparr>handler := (handler ?s2)(0 := Leaving)\<rparr>"
  let ?s4 = "?s3\<lparr>table := Map.empty, handler := (handler ?s3)(0 := Gone)\<rparr>"
  have 1: "ws2_step True (ws2_run i) ?s1" using accept [of 1 "ws2_run i" True i] by (simp add: ws2_run_def numeral_2_eq_2)
  have 2: "ws2_step True ?s1 ?s2" using registers [of ?s1 1 True] by (simp add: ws2_run_def register_def)
  have 3: "ws2_step True ?s2 ?s3" using read_fails [of ?s2 0 True] by (simp add: ws2_run_def)
  have 4: "ws2_step True ?s3 ?s4" using leaves [of ?s3 0 True] by (simp add: ws2_run_def unregister_def)
  have "(ws2_step True)\<^sup>*\<^sup>* (ws2_run i) ?s4"
    using 1 2 3 4 by (meson rtranclp.rtrancl_into_rtrancl rtranclp.rtrancl_refl)
  then show ?thesis by (intro exI [of _ ?s4]) (simp add: ws2_run_def get_client_def)
qed

text \<open>
  The second server lets two goroutines write on one connection: while the echo of a message is being
  written the ticker can enter \<open>WriteMessage\<close> of the same connection, on which the library panics.
\<close>

lemma ws2_concurrent_writers:
  "\<exists>s. (ws2_step False)\<^sup>*\<^sup>* new_websocket_server s \<and> handler s 0 = Writing \<and> writers s 0 = 2"
proof -
  let ?s0 = "ws2_run ''a''" and ?cl = "\<lparr>cconn = 0, cid = ''a''\<rparr>"
  let ?s1 = "?s0\<lparr>handler := (handler ?s0)(0 := Writing)\<rparr>"
  let ?s2 = "?s1\<lparr>ticker := Sending [''a'']\<rparr>"
  let ?s3 = "?s2\<lparr>ticker := SendingTo ?cl []\<rparr>"
  have 1: "ws2_step False ?s0 ?s1" using read_ok [of ?s0 0 False] by (simp add: ws2_run_def)
  have 2: "ws2_step False ?s1 ?s2" using ticks [of ?s1 "[''a'']" False] by (simp add: ws2_run_def get_all_clients_def)
  have 3: "ws2_step False ?s2 ?s3" using finds [of ?s2 "''a''" "[]" ?cl False] by (simp add: ws2_run_def get_client_def)
  have "(ws2_step False)\<^sup>*\<^sup>* new_websocket_server ?s3"
    using ws2_run_reachable [of False "''a''"] 1 2 3 by (meson rtranclp.rtrancl_into_rtrancl)
  then show ?thesis by (intro exI [of _ ?s3]) (simp add: ws2_run_def writers_def)
qed

lemma ws2_two_writers_at_most: "writers s c \<le> 2"
  by (auto simp: writers_def split: ticker_pc.splits)

lemma writer_holds_mutex: "ws1_inv s \<Longrightarrow> g \<in> writing s \<Longrightarrow> mu s = Some g"
  unfolding writing_def by (elim UnE CollectE exE conjE) (metis ws1_invD conn_inv_mutex)+

text \<open>
  C23. The first server has one writer at a time over all its connections; but when the write of an echo
  fails, its loop ends with the mutex held, and from then on no goroutine ever writes again on any
  connection, the ones accepted later included.
\<close>

theorem ws1_write_error_stops_all:
  assumes "ws1_step\<^sup>*\<^sup>* ws1_start s" "echo s c = EWrite"
    and "ws1_step\<^sup>*\<^sup>* (s\<lparr>echo := (echo s)(c := EDone)\<rparr>) t"
  shows "writing s = {Echo c} \<and> ws1_step s (s\<lparr>echo := (echo s)(c := EDone)\<rparr>) \<and> writing t = {}"
proof -
  let ?f = "s\<lparr>echo := (echo s)(c := EDone)\<rparr>"
  note inv = ws1.inv_reachable [OF refl assms(1)]
  have mu: "mu s = Some (Echo c)"
    using ws1_invD [OF inv, of c] assms(2) conn_inv_mutex(1) by metis
  have fail: "ws1_step s ?f" by (rule ws1_echo_fails) (rule assms(2))
  have "Echo c \<in> writing s" using assms(2) by (simp add: writing_def)
  then have one: "writing s = {Echo c}" using writer_holds_mutex [OF inv] mu by (metis option.inject singletonI subsetI subset_antisym singletonD)
  have "ws1_inv t \<and> abandoned t"
    using assms(3)
  proof (induction rule: rtranclp_induct)
    case base
    then show ?case using ws1_inv_step [OF inv fail] mu by (simp add: abandoned_def)
  next
    case (step u v)
    then show ?case using ws1_inv_step abandoned_step by blast
  qed
  then have "writing t = {}" using abandoned_nobody_writes by (auto simp: writing_def)
  with one fail show ?thesis by blast
qed

text \<open>The connection 0, its message read and its echo being written.\<close>

definition ws1_echoing :: ws1_state where
  "ws1_echoing = \<lparr>mu = Some (Echo 0), conns = 1, echo = (\<lambda>_. ENone)(0 := EWrite), hello = (\<lambda>_. HNone)(0 := HLock)\<rparr>"

lemma ws1_echoing_reachable: "ws1_step\<^sup>*\<^sup>* ws1_start ws1_echoing"
proof -
  let ?s1 = "ws1_start\<lparr>conns := 1, echo := (\<lambda>_. ENone)(0 := ERead), hello := (\<lambda>_. HNone)(0 := HLock)\<rparr>"
  let ?s2 = "?s1\<lparr>echo := (echo ?s1)(0 := ELock)\<rparr>"
  have 1: "ws1_step ws1_start ?s1"
    using ws1_accept [of ws1_start 0] by (simp add: ws1_start_def socket_handler_entry_def)
  have 2: "ws1_step ?s1 ?s2" using ws1_read [of ?s1 0] by (simp add: ws1_start_def)
  have 3: "ws1_step ?s2 ws1_echoing"
    using ws1_echo_locks [of ?s2 0] by (simp add: ws1_start_def ws1_echoing_def)
  from 1 2 3 show ?thesis by (meson rtranclp.rtrancl_into_rtrancl rtranclp.rtrancl_refl)
qed

theorem ws1_write_error_stops_all_witness:
  "writing ws1_echoing = {Echo 0} \<and> ws1_step ws1_echoing (ws1_echoing\<lparr>echo := (echo ws1_echoing)(0 := EDone)\<rparr>) \<and>
   writing (ws1_echoing\<lparr>echo := (echo ws1_echoing)(0 := EDone)\<rparr>) = {}"
proof -
  have e: "echo ws1_echoing 0 = EWrite" by (simp add: ws1_echoing_def)
  show ?thesis using ws1_write_error_stops_all [OF ws1_echoing_reachable e rtranclp.rtrancl_refl] by simp
qed

text \<open>The goroutine that says hello has no end: every connection ever accepted keeps one.\<close>

lemma ws1_hello_never_ends:
  assumes "ws1_step\<^sup>*\<^sup>* ws1_start s" "c < conns s"
  shows "hello s c \<in> {HLock, HWrite, HSleep}"
  using ws1_invD [OF ws1.inv_reachable [OF refl assms(1)], of c] assms(2)
  by (cases "hello s c") (auto simp: conn_inv_def known_inv_def)

text \<open>The addresses are asked of a nil connection when an upgrade fails.\<close>

lemma ws1_failed_upgrade_panics: "socket_handler_entry None = None"
  by (simp add: socket_handler_entry_def)

end
