(* ===== verification/ChannelDemos.thy ===== *)
theory ChannelDemos
  imports GoPrelude
begin

text \<open>
  Small concurrent programs, each a step relation over the program points of its goroutines: the
  heartbeat (\<open>concurrency/heartbeat\<close>), the queue on a condition variable (\<open>concurrency/cond\<close>), the live
  lock (\<open>concurrency/live-lock\<close>), the starved lock (\<open>concurrency/starved-lock\<close>), the repeating pipeline
  (\<open>concurrency/pipeline/repeat\<close>), the leaking writer (\<open>concurrency/leak/write\<close>) and the error group
  (\<open>concurrency/errgroup\<close>). Sleeps are left out, so every order is a run; a program ends when its
  \<open>main\<close> returns, whatever the other goroutines do.
\<close>

section \<open>Heartbeat\<close>

datatype beat_pc = Pulsing | Working | ClosingWork | ClosingHeart | Exited

datatype beat_end = HeartbeatClosed | ResultsClosed

record beat =
  turn :: nat                     \<comment> \<open>the worker's loop counter\<close>
  beat_pc :: beat_pc
  pulse_waiting :: bool           \<comment> \<open>the buffer of \<open>heartbeatStream\<close> holds a pulse\<close>
  heart_closed :: bool
  work_closed :: bool
  pulses :: nat
  results :: "int list"
  returned :: "beat_end option"

definition beat_start :: beat where
  "beat_start = \<lparr>turn = 0, beat_pc = Pulsing, pulse_waiting = False, heart_closed = False, work_closed = False,
     pulses = 0, results = [], returned = None\<rparr>"

text \<open>A pulse goes into the buffer or, if one is there, is dropped. The deferred closes run last first.\<close>

inductive beat_step :: "beat \<Rightarrow> beat \<Rightarrow> bool" where
  beat_pulse [go_intros]: "returned s = None \<Longrightarrow> beat_pc s = Pulsing \<Longrightarrow>
     beat_step s (s\<lparr>pulse_waiting := True, beat_pc := Working\<rparr>)"
| beat_work [go_intros]: "returned s = None \<Longrightarrow> beat_pc s = Working \<Longrightarrow> 0 \<le> v \<Longrightarrow> v < 10 \<Longrightarrow>
     beat_step s (s\<lparr>results := results s @ [v], turn := Suc (turn s),
       beat_pc := (if Suc (turn s) < 10 then Pulsing else ClosingWork)\<rparr>)"
| beat_close_work [go_intros]: "returned s = None \<Longrightarrow> beat_pc s = ClosingWork \<Longrightarrow>
     beat_step s (s\<lparr>work_closed := True, beat_pc := ClosingHeart\<rparr>)"
| beat_close_heart [go_intros]: "returned s = None \<Longrightarrow> beat_pc s = ClosingHeart \<Longrightarrow>
     beat_step s (s\<lparr>heart_closed := True, beat_pc := Exited\<rparr>)"
| beat_seen [go_intros]: "returned s = None \<Longrightarrow> pulse_waiting s \<Longrightarrow>
     beat_step s (s\<lparr>pulse_waiting := False, pulses := Suc (pulses s)\<rparr>)"
| beat_results_closed [go_intros]: "returned s = None \<Longrightarrow> work_closed s \<Longrightarrow>
     beat_step s (s\<lparr>returned := Some ResultsClosed\<rparr>)"
| beat_heart_closed [go_intros]: "returned s = None \<Longrightarrow> heart_closed s \<Longrightarrow> \<not> pulse_waiting s \<Longrightarrow>
     beat_step s (s\<lparr>returned := Some HeartbeatClosed\<rparr>)"

inductive_cases beat_stepE: "beat_step s t"

definition beat_inv :: "beat \<Rightarrow> bool" where
  "beat_inv s \<longleftrightarrow> length (results s) = turn s \<and> (\<forall>v \<in> set (results s). 0 \<le> v \<and> v < 10) \<and>
     (if beat_pc s = Pulsing \<or> beat_pc s = Working then turn s < 10 else turn s = 10) \<and>
     pulses s + (if pulse_waiting s then 1 else 0) + (if beat_pc s = Pulsing then 1 else 0) \<le> (if turn s < 10 then Suc (turn s) else 10) \<and>
     (work_closed s \<longleftrightarrow> beat_pc s = ClosingHeart \<or> beat_pc s = Exited) \<and> (heart_closed s \<longleftrightarrow> beat_pc s = Exited) \<and>
     (returned s \<noteq> None \<longrightarrow> work_closed s)"

lemma beat_inv_step: "beat_inv s \<Longrightarrow> beat_step s t \<Longrightarrow> beat_inv t"
  by (erule beat_stepE) (auto simp: beat_inv_def split: if_splits)

interpretation beat: step_invariant "\<lambda>s. s = beat_start" beat_step beat_inv
proof
  show "\<And>s. s = beat_start \<Longrightarrow> beat_inv s" by (simp add: beat_inv_def beat_start_def)
qed (rule beat_inv_step)

lemma beat_inv_facts:
  assumes "beat_inv s"
  shows "length (results s) = turn s" "turn s \<le> 10" "returned s \<noteq> None \<longrightarrow> turn s = 10" "pulses s \<le> 10"
proof -
  show l: "length (results s) = turn s" and t: "turn s \<le> 10" using assms by (auto simp: beat_inv_def split: if_splits)
  have "work_closed s \<longrightarrow> turn s = 10" using assms by (auto simp: beat_inv_def split: if_splits)
  then show "returned s \<noteq> None \<longrightarrow> turn s = 10" using assms by (auto simp: beat_inv_def)
  have "pulses s \<le> (if turn s < 10 then Suc (turn s) else 10)" using assms by (simp add: beat_inv_def)
  then show "pulses s \<le> 10" using t by (simp split: if_splits)
qed

text \<open>What is left to do; every step does some of it.\<close>

definition pc_left :: "beat_pc \<Rightarrow> nat" where
  "pc_left p = (case p of Pulsing \<Rightarrow> 4 | Working \<Rightarrow> 2 | ClosingWork \<Rightarrow> 2 | ClosingHeart \<Rightarrow> 1 | Exited \<Rightarrow> 0)"

definition beat_left :: "beat \<Rightarrow> nat" where
  "beat_left s = 5 * (10 - turn s) + pc_left (beat_pc s) + (if pulse_waiting s then 1 else 0) + (if returned s = None then 1 else 0)"

lemma beat_left_less: "beat_inv s \<Longrightarrow> beat_step s t \<Longrightarrow> beat_left t < beat_left s"
  by (erule beat_stepE) (auto simp: beat_left_def pc_left_def beat_inv_def split: if_splits)

lemma beat_moves: "beat_inv s \<Longrightarrow> returned s = None \<Longrightarrow> \<exists>t. beat_step s t"
  using beat_work [of s 0]
  by (cases "beat_pc s") (auto simp: beat_inv_def intro: beat_pulse beat_close_work beat_close_heart beat_results_closed)

interpretation beat_run: ending_run "\<lambda>s. s = beat_start" beat_step beat_inv beat_left "\<lambda>s. returned s \<noteq> None"
  by unfold_locales (use beat_moves beat_left_less in blast)+

section \<open>The queue on a condition variable\<close>

datatype adder_pc = Locking | Checking | WaitingCond | Relocking | Appending | Unlocking | AllAdded

datatype remover_pc = NotStarted | RLocking | Removing | RUnlocking | Signalling | RDone

datatype lock_owner = Adder | Remover nat

record cond_queue =
  cond_lock :: "lock_owner option"
  added :: nat                      \<comment> \<open>the loop counter\<close>
  qlen :: nat
  adder :: adder_pc
  remover :: "nat \<Rightarrow> remover_pc"

definition cond_start :: cond_queue where
  "cond_start = \<lparr>cond_lock = None, added = 0, qlen = 0, adder = Locking, remover = (\<lambda>_. NotStarted)\<rparr>"

text \<open>\<open>Wait\<close> unlocks and sleeps in one step, and locks again after a signal. A signal with nobody waiting is lost.\<close>

inductive cond_step :: "cond_queue \<Rightarrow> cond_queue \<Rightarrow> bool" where
  add_lock [go_intros]: "adder s = Locking \<Longrightarrow> added s < 10 \<Longrightarrow> cond_lock s = None \<Longrightarrow>
     cond_step s (s\<lparr>cond_lock := Some Adder, adder := Checking\<rparr>)"
| add_check [go_intros]: "adder s = Checking \<Longrightarrow>
     cond_step s (if qlen s = 2 then s\<lparr>cond_lock := None, adder := WaitingCond\<rparr> else s\<lparr>adder := Appending\<rparr>)"
| add_relock [go_intros]: "adder s = Relocking \<Longrightarrow> cond_lock s = None \<Longrightarrow>
     cond_step s (s\<lparr>cond_lock := Some Adder, adder := Appending\<rparr>)"
| add_append [go_intros]: "adder s = Appending \<Longrightarrow>
     cond_step s (s\<lparr>qlen := Suc (qlen s), remover := (remover s)(added s := RLocking), adder := Unlocking\<rparr>)"
| add_unlock [go_intros]: "adder s = Unlocking \<Longrightarrow>
     cond_step s (s\<lparr>cond_lock := None, added := Suc (added s), adder := (if Suc (added s) < 10 then Locking else AllAdded)\<rparr>)"
| rem_lock [go_intros]: "remover s i = RLocking \<Longrightarrow> cond_lock s = None \<Longrightarrow>
     cond_step s (s\<lparr>cond_lock := Some (Remover i), remover := (remover s)(i := Removing)\<rparr>)"
| rem_remove [go_intros]: "remover s i = Removing \<Longrightarrow>
     cond_step s (s\<lparr>qlen := qlen s - 1, remover := (remover s)(i := RUnlocking)\<rparr>)"
| rem_unlock [go_intros]: "remover s i = RUnlocking \<Longrightarrow>
     cond_step s (s\<lparr>cond_lock := None, remover := (remover s)(i := Signalling)\<rparr>)"
| rem_signal [go_intros]: "remover s i = Signalling \<Longrightarrow>
     cond_step s (s\<lparr>remover := (remover s)(i := RDone), adder := (if adder s = WaitingCond then Relocking else adder s)\<rparr>)"

inductive_cases cond_stepE: "cond_step s t"

text \<open>The goroutines that were started and have not removed their element yet.\<close>

definition pending :: "cond_queue \<Rightarrow> nat set" where
  "pending s = {i. remover s i = RLocking \<or> remover s i = Removing}"

abbreviation adder_locked :: "adder_pc \<Rightarrow> bool" where
  "adder_locked p \<equiv> p = Checking \<or> p = Appending \<or> p = Unlocking"

abbreviation remover_locked :: "remover_pc \<Rightarrow> bool" where
  "remover_locked p \<equiv> p = Removing \<or> p = RUnlocking"

definition cond_mutex :: "cond_queue \<Rightarrow> bool" where
  "cond_mutex s \<longleftrightarrow> (cond_lock s = Some Adder) = adder_locked (adder s) \<and>
     (\<forall>i. (cond_lock s = Some (Remover i)) = remover_locked (remover s i))"

definition cond_known :: "cond_queue \<Rightarrow> bool" where
  "cond_known s \<longleftrightarrow> (if adder s = AllAdded then added s = 10 else added s < 10) \<and>
     (\<forall>i. remover s i \<noteq> NotStarted \<longrightarrow> i < added s + (if adder s = Unlocking then 1 else 0))"

text \<open>While the adder waits, some goroutine has yet to signal.\<close>

definition cond_signal :: "cond_queue \<Rightarrow> bool" where
  "cond_signal s \<longleftrightarrow> (adder s = WaitingCond \<longrightarrow> (\<exists>i. remover s i \<noteq> NotStarted \<and> remover s i \<noteq> RDone))"

definition cond_inv :: "cond_queue \<Rightarrow> bool" where
  "cond_inv s \<longleftrightarrow> cond_mutex s \<and> cond_known s \<and> cond_signal s \<and> qlen s = card (pending s)"

lemma cond_mutex_remover: "cond_mutex s \<Longrightarrow> remover_locked (remover s i) \<Longrightarrow> cond_lock s = Some (Remover i)"
  by (simp add: cond_mutex_def)

lemma cond_mutex_step:
  assumes "cond_mutex s" "cond_step s t"
  shows "cond_mutex t"
  using assms(2)
proof (cases rule: cond_step.cases)
  case (rem_unlock i)
  have "cond_lock s = Some (Remover i)" using cond_mutex_remover [OF assms(1), of i] rem_unlock by simp
  then have "\<not> remover_locked (remover s j)" if "j \<noteq> i" for j
    using cond_mutex_remover [OF assms(1), of j] that by auto
  then show ?thesis using assms(1) rem_unlock by (auto simp: cond_mutex_def)
qed (use assms(1) in \<open>auto simp: cond_mutex_def split: if_splits\<close>)

lemma cond_known_step:
  assumes "cond_known s" "cond_step s t"
  shows "cond_known t"
  using assms(2)
  by (cases rule: cond_step.cases) (use assms(1) in \<open>force simp: cond_known_def less_Suc_eq split: if_splits\<close>)+

lemma finite_pending: "cond_known s \<Longrightarrow> finite (pending s)"
proof -
  assume "cond_known s"
  then have "i < Suc (added s)" if "remover s i \<noteq> NotStarted" for i
    using that by (cases "adder s = Unlocking") (auto simp: cond_known_def less_Suc_eq)
  then have "pending s \<subseteq> {..<Suc (added s)}" by (auto simp: pending_def)
  then show ?thesis by (rule finite_subset) simp
qed

lemma cond_fresh: "cond_known s \<Longrightarrow> adder s \<noteq> Unlocking \<Longrightarrow> remover s (added s) = NotStarted"
  unfolding cond_known_def by (metis add.right_neutral less_irrefl)

lemma cond_inv_step:
  assumes inv: "cond_inv s" and step: "cond_step s t"
  shows "cond_inv t"
proof -
  have known: "cond_known s" and mutex: "cond_mutex s" and signal: "cond_signal s" and count: "qlen s = card (pending s)"
    using inv by (simp_all add: cond_inv_def)
  note fin = finite_pending [OF known]
  have "cond_signal t \<and> qlen t = card (pending t)"
    using step
  proof (cases rule: cond_step.cases)
    case add_check
    have "\<exists>i. remover s i \<noteq> NotStarted \<and> remover s i \<noteq> RDone" if "qlen s = 2"
    proof -
      have "pending s \<noteq> {}" using that count by auto
      then obtain i where "i \<in> pending s" by blast
      then show ?thesis by (intro exI [of _ i]) (auto simp: pending_def)
    qed
    moreover have "pending t = pending s" using add_check by (simp add: pending_def)
    ultimately show ?thesis using add_check count by (simp add: cond_signal_def)
  next
    case add_append
    then have "pending t = insert (added s) (pending s)" "added s \<notin> pending s"
      using cond_fresh [OF known] by (auto simp: pending_def)
    then show ?thesis using add_append count fin by (simp add: cond_signal_def)
  next
    case (rem_lock i)
    then have "pending t = pending s" by (auto simp: pending_def)
    then show ?thesis using rem_lock signal count by (auto simp: cond_signal_def)
  next
    case (rem_remove i)
    then have "pending t = pending s - {i}" "i \<in> pending s" by (auto simp: pending_def)
    then show ?thesis using rem_remove signal count fin by (auto simp: cond_signal_def)
  next
    case (rem_unlock i)
    then have "pending t = pending s" by (auto simp: pending_def)
    then show ?thesis using rem_unlock signal count by (auto simp: cond_signal_def)
  next
    case (rem_signal i)
    then have "pending t = pending s" by (auto simp: pending_def)
    then show ?thesis using rem_signal count by (simp add: cond_signal_def)
  qed (use signal count in \<open>simp_all add: cond_signal_def pending_def\<close>)
  then show ?thesis using cond_known_step [OF known step] cond_mutex_step [OF mutex step] by (simp add: cond_inv_def)
qed

interpretation cond: step_invariant "\<lambda>s. s = cond_start" cond_step cond_inv
proof
  show "\<And>s. s = cond_start \<Longrightarrow> cond_inv s"
    by (simp add: cond_inv_def cond_mutex_def cond_known_def cond_signal_def cond_start_def pending_def)
qed (rule cond_inv_step)

lemma remover_moves:
  assumes "cond_mutex s" "cond_lock s = None \<or> cond_lock s = Some (Remover i)" "remover s i \<noteq> NotStarted" "remover s i \<noteq> RDone"
  shows "\<exists>t. cond_step s t"
  using assms by (cases "remover s i") (auto simp: cond_mutex_def intro: rem_lock rem_remove rem_unlock rem_signal)

text \<open>As long as not everything is added somebody can move.\<close>

lemma cond_moves:
  assumes inv: "cond_inv s" and "adder s \<noteq> AllAdded"
  shows "\<exists>t. cond_step s t"
proof (cases "cond_lock s")
  case None
  have mutex: "cond_mutex s" and known: "cond_known s" and sig: "cond_signal s" using inv by (simp_all add: cond_inv_def)
  show ?thesis
  proof (cases "adder s")
    case WaitingCond
    then obtain i where "remover s i \<noteq> NotStarted" "remover s i \<noteq> RDone" using sig by (auto simp: cond_signal_def)
    then show ?thesis using remover_moves [OF mutex] None by blast
  next
    case Locking
    then show ?thesis using None known add_lock by (auto simp: cond_known_def)
  qed (use None mutex assms(2) add_relock in \<open>auto simp: cond_mutex_def\<close>)
next
  case (Some g)
  have mutex: "cond_mutex s" using inv by (simp add: cond_inv_def)
  show ?thesis
  proof (cases g)
    case Adder
    then have "adder_locked (adder s)" using mutex Some by (simp add: cond_mutex_def)
    then show ?thesis using add_check add_append add_unlock by blast
  next
    case (Remover i)
    then have "remover_locked (remover s i)" using mutex Some unfolding cond_mutex_def by blast
    then show ?thesis using remover_moves [OF mutex] Some Remover by fastforce
  qed
qed

section \<open>Two people in a hallway\<close>

datatype walker = Alice | Barbara
datatype direction = LeftSide | RightSide

datatype walk_pc =
  Trying          \<comment> \<open>before the counter of the direction is increased\<close>
| FirstStep       \<comment> \<open>before the first \<open>takeStep\<close>\<close>
| FirstWait
| Looking
| SecondStep
| SecondWait
| SteppingBack    \<comment> \<open>before the counter is decreased\<close>
| Passed
| GaveUp

record hallway =
  dirs :: "direction \<Rightarrow> int"
  walk_pc :: "walker \<Rightarrow> walk_pc"
  side :: "walker \<Rightarrow> direction"      \<comment> \<open>which of \<open>tryLeft\<close>, \<open>tryRight\<close> runs\<close>
  tries :: "walker \<Rightarrow> nat"

definition hall_start :: hallway where
  "hall_start = \<lparr>dirs = (\<lambda>_. 0), walk_pc = (\<lambda>_. Trying), side = (\<lambda>_. LeftSide), tries = (\<lambda>_. 0)\<rparr>"

definition awaken :: "walk_pc \<Rightarrow> walk_pc" where
  "awaken p = (case p of FirstWait \<Rightarrow> Looking | SecondWait \<Rightarrow> SteppingBack | _ \<Rightarrow> p)"

text \<open>A failed try goes on with the other side, or after the right side with the next turn of the loop.\<close>

definition step_back :: "walker \<Rightarrow> hallway \<Rightarrow> hallway" where
  "step_back w s =
     (let s1 = s\<lparr>dirs := (dirs s)(side s w := dirs s (side s w) - 1)\<rparr>
      in if side s w = LeftSide then s1\<lparr>side := (side s)(w := RightSide), walk_pc := (walk_pc s)(w := Trying)\<rparr>
         else s1\<lparr>side := (side s)(w := LeftSide), tries := (tries s)(w := Suc (tries s w)),
                walk_pc := (walk_pc s)(w := if Suc (tries s w) < 5 then Trying else GaveUp)\<rparr>)"

inductive hall_step :: "hallway \<Rightarrow> hallway \<Rightarrow> bool" where
  hall_try [go_intros]: "walk_pc s w = Trying \<Longrightarrow>
     hall_step s (s\<lparr>dirs := (dirs s)(side s w := dirs s (side s w) + 1), walk_pc := (walk_pc s)(w := FirstStep)\<rparr>)"
| hall_wait [go_intros]: "walk_pc s w = FirstStep \<Longrightarrow> hall_step s (s\<lparr>walk_pc := (walk_pc s)(w := FirstWait)\<rparr>)"
| hall_broadcast [go_intros]: "hall_step s (s\<lparr>walk_pc := awaken \<circ> walk_pc s\<rparr>)"
| hall_look [go_intros]: "walk_pc s w = Looking \<Longrightarrow>
     hall_step s (s\<lparr>walk_pc := (walk_pc s)(w := if dirs s (side s w) = 1 then Passed else SecondStep)\<rparr>)"
| hall_wait_again [go_intros]: "walk_pc s w = SecondStep \<Longrightarrow> hall_step s (s\<lparr>walk_pc := (walk_pc s)(w := SecondWait)\<rparr>)"
| hall_back [go_intros]: "walk_pc s w = SteppingBack \<Longrightarrow> hall_step s (step_back w s)"

inductive_cases hall_stepE: "hall_step s t"

abbreviation finished :: "walk_pc \<Rightarrow> bool" where
  "finished p \<equiv> p = Passed \<or> p = GaveUp"

text \<open>A walker counts for the side it is on until it steps back, and for ever once it has passed.\<close>

definition counts_for :: "hallway \<Rightarrow> direction \<Rightarrow> walker \<Rightarrow> int" where
  "counts_for s d w = (if side s w = d \<and> walk_pc s w \<noteq> Trying \<and> walk_pc s w \<noteq> GaveUp then 1 else 0)"

definition hall_inv :: "hallway \<Rightarrow> bool" where
  "hall_inv s \<longleftrightarrow> (\<forall>d. dirs s d = counts_for s d Alice + counts_for s d Barbara) \<and>
     (walk_pc s Alice = Passed \<longrightarrow> walk_pc s Barbara = Passed \<longrightarrow> side s Alice \<noteq> side s Barbara) \<and>
     (\<forall>w. if walk_pc s w = GaveUp then tries s w = 5 else tries s w < 5)"

lemma awaken_simps:
  "awaken p = Trying \<longleftrightarrow> p = Trying" "awaken p = GaveUp \<longleftrightarrow> p = GaveUp" "awaken p = Passed \<longleftrightarrow> p = Passed"
  by (cases p; simp add: awaken_def)+

lemma hall_inv_step:
  assumes "hall_inv s" "hall_step s t"
  shows "hall_inv t"
  using assms(2)
proof (cases rule: hall_step.cases)
  case (hall_try w)
  then show ?thesis using assms(1) by (cases w) (auto simp: hall_inv_def counts_for_def)
next
  case (hall_wait w)
  then show ?thesis using assms(1) by (cases w) (auto simp: hall_inv_def counts_for_def)
next
  case hall_broadcast
  then show ?thesis using assms(1) by (auto simp: hall_inv_def counts_for_def awaken_simps)
next
  case (hall_look w)
  then show ?thesis using assms(1) by (cases w) (auto simp: hall_inv_def counts_for_def split: if_splits)
next
  case (hall_wait_again w)
  then show ?thesis using assms(1) by (cases w) (auto simp: hall_inv_def counts_for_def)
next
  case (hall_back w)
  have "tries s w < 5" using assms(1) hall_back by (auto simp: hall_inv_def split: if_splits)
  then have "tries s w < 4 \<or> tries s w = 4" by linarith
  then show ?thesis using assms(1) hall_back
    by (elim disjE; cases w; cases "side s w") (auto simp: hall_inv_def counts_for_def step_back_def Let_def)
qed

interpretation hall: step_invariant "\<lambda>s. s = hall_start" hall_step hall_inv
proof
  show "\<And>s. s = hall_start \<Longrightarrow> hall_inv s" by (simp add: hall_inv_def hall_start_def counts_for_def)
qed (rule hall_inv_step)

text \<open>What a walker has left: seven moves a side, two sides a try, five tries.\<close>

definition moves_left :: "walk_pc \<Rightarrow> nat" where
  "moves_left p = (case p of Trying \<Rightarrow> 7 | FirstStep \<Rightarrow> 6 | FirstWait \<Rightarrow> 5 | Looking \<Rightarrow> 4 | SecondStep \<Rightarrow> 3
     | SecondWait \<Rightarrow> 2 | SteppingBack \<Rightarrow> 1 | Passed \<Rightarrow> 0 | GaveUp \<Rightarrow> 0)"

definition walk_left :: "hallway \<Rightarrow> walker \<Rightarrow> nat" where
  "walk_left s w = (if finished (walk_pc s w) then 0
     else 14 * (4 - tries s w) + (if side s w = LeftSide then 7 else 0) + moves_left (walk_pc s w))"

definition hall_left :: "hallway \<Rightarrow> nat" where
  "hall_left s = walk_left s Alice + walk_left s Barbara"

lemma hall_left_other:
  assumes "walk_left t w < walk_left s w" "\<And>v. v \<noteq> w \<Longrightarrow> walk_left t v = walk_left s v"
  shows "hall_left t < hall_left s"
  using assms by (cases w) (simp_all add: hall_left_def)

lemma walk_left_move:
  assumes "\<not> finished (walk_pc s w)" "finished p \<or> moves_left p < moves_left (walk_pc s w)"
  shows "walk_left (s\<lparr>walk_pc := (walk_pc s)(w := p)\<rparr>) w < walk_left s w"
  using assms by (cases "walk_pc s w") (auto simp: walk_left_def moves_left_def)

lemma awaken_left: "walk_left (s\<lparr>walk_pc := awaken \<circ> walk_pc s\<rparr>) w =
    walk_left s w - (if walk_pc s w = FirstWait \<or> walk_pc s w = SecondWait then 1 else 0)"
  by (cases "walk_pc s w") (simp_all add: walk_left_def moves_left_def awaken_def)

lemma walk_left_waiting: "walk_pc s w = FirstWait \<or> walk_pc s w = SecondWait \<Longrightarrow> 0 < walk_left s w"
  by (auto simp: walk_left_def moves_left_def)

lemma step_back_left:
  assumes "walk_pc s w = SteppingBack" "tries s w < 5"
  shows "walk_left (step_back w s) w < walk_left s w"
  using assms by (cases "side s w") (auto simp: walk_left_def moves_left_def step_back_def Let_def)

text \<open>Every step but a broadcast nobody waits for does some of it, and an unfinished walker can always
move or be woken.\<close>

lemma hall_left_step:
  assumes "hall_inv s" "hall_step s t"
  shows "hall_left t < hall_left s \<or> t = s"
  using assms(2)
proof (cases rule: hall_step.cases)
  case hall_broadcast
  show ?thesis
  proof (cases "\<exists>w. walk_pc s w = FirstWait \<or> walk_pc s w = SecondWait")
    case True
    then obtain w where w: "walk_pc s w = FirstWait \<or> walk_pc s w = SecondWait" by blast
    then have "walk_left t w < walk_left s w" using hall_broadcast walk_left_waiting [OF w] by (simp only: awaken_left) simp
    moreover have "walk_left t v \<le> walk_left s v" for v using hall_broadcast by (simp add: awaken_left)
    ultimately show ?thesis unfolding hall_left_def by (cases w) (metis add_less_le_mono add_le_less_mono)+
  next
    case False
    then have "awaken (walk_pc s w) = walk_pc s w" for w by (cases "walk_pc s w") (auto simp: awaken_def)
    then show ?thesis using hall_broadcast by (simp add: comp_def)
  qed
next
  case (hall_try w)
  then have "walk_left t w < walk_left s w" "\<And>v. v \<noteq> w \<Longrightarrow> walk_left t v = walk_left s v"
    by (simp_all add: walk_left_def moves_left_def)
  then show ?thesis using hall_left_other by blast
next
  case (hall_back w)
  then have "walk_left t w < walk_left s w"
    using step_back_left assms(1) by (simp add: hall_inv_def split: if_splits)
  moreover have "walk_left t v = walk_left s v" if "v \<noteq> w" for v
    using that hall_back by (simp add: walk_left_def step_back_def Let_def)
  ultimately show ?thesis using hall_left_other by blast
next
  case (hall_wait w)
  then have "walk_left t w < walk_left s w" "\<And>v. v \<noteq> w \<Longrightarrow> walk_left t v = walk_left s v"
    by (simp_all add: walk_left_def moves_left_def)
  then show ?thesis using hall_left_other by blast
next
  case (hall_look w)
  then have "walk_left t w < walk_left s w" "\<And>v. v \<noteq> w \<Longrightarrow> walk_left t v = walk_left s v"
    by (simp_all add: walk_left_def moves_left_def)
  then show ?thesis using hall_left_other by blast
next
  case (hall_wait_again w)
  then have "walk_left t w < walk_left s w" "\<And>v. v \<noteq> w \<Longrightarrow> walk_left t v = walk_left s v"
    by (simp_all add: walk_left_def moves_left_def)
  then show ?thesis using hall_left_other by blast
qed

lemma hall_progress:
  assumes "hall_inv s" "\<not> finished (walk_pc s w)"
  shows "\<exists>t. hall_step s t \<and> hall_left t < hall_left s"
proof -
  have "\<exists>t. hall_step s t \<and> walk_pc t w \<noteq> walk_pc s w"
  proof (cases "walk_pc s w")
    case SteppingBack
    then show ?thesis using hall_back [of s w] by (intro exI [of _ "step_back w s"]) (simp add: step_back_def Let_def)
  next
    case FirstWait
    then show ?thesis using hall_broadcast [of s] by (intro exI) (auto simp: awaken_def)
  next
    case SecondWait
    then show ?thesis using hall_broadcast [of s] by (intro exI) (auto simp: awaken_def)
  next
    case Trying
    then show ?thesis using hall_try [of s w] by (intro exI) auto
  next
    case FirstStep
    then show ?thesis using hall_wait [of s w] by (intro exI) auto
  next
    case Looking
    then have "walk_pc (s\<lparr>walk_pc := (walk_pc s)(w := if dirs s (side s w) = 1 then Passed else SecondStep)\<rparr>) w \<noteq> walk_pc s w"
      by simp
    then show ?thesis using hall_look [OF Looking] by blast
  next
    case SecondStep
    then show ?thesis using hall_wait_again [of s w] by (intro exI) auto
  qed (use assms(2) in simp_all)
  then obtain t where "hall_step s t" "t \<noteq> s" by fastforce
  then show ?thesis using hall_left_step [OF assms(1)] by blast
qed

interpretation hall_run: progress_run "\<lambda>s. s = hall_start" hall_step hall_inv hall_left "\<lambda>s. \<forall>w. finished (walk_pc s w)"
  by unfold_locales (use hall_progress in blast)

text \<open>In lockstep both try the same side again and again.\<close>

definition face_to_face :: "direction \<Rightarrow> nat \<Rightarrow> hallway" where
  "face_to_face d n = \<lparr>dirs = (\<lambda>_. 0), walk_pc = (\<lambda>_. if n < 5 then Trying else GaveUp), side = (\<lambda>_. d), tries = (\<lambda>_. n)\<rparr>"

definition in_step :: "direction \<Rightarrow> nat \<Rightarrow> walk_pc \<Rightarrow> hallway" where
  "in_step d n p = \<lparr>dirs = (\<lambda>_. 0)(d := 2), walk_pc = (\<lambda>_. p), side = (\<lambda>_. d), tries = (\<lambda>_. n)\<rparr>"

lemma walker_fun: "f = g \<longleftrightarrow> f Alice = g Alice \<and> f Barbara = g Barbara" for f g :: "walker \<Rightarrow> 'a"
  by (metis walker.exhaust ext)

lemma direction_fun: "f = g \<longleftrightarrow> f LeftSide = g LeftSide \<and> f RightSide = g RightSide" for f g :: "direction \<Rightarrow> 'a"
  by (metis direction.exhaust ext)

lemma two_steps: "hall_step s t \<Longrightarrow> hall_step t u \<Longrightarrow> u = v \<Longrightarrow> hall_step\<^sup>*\<^sup>* s v"
  by (meson converse_rtranclp_into_rtranclp rtranclp.rtrancl_refl)

lemma in_step_moves:
  "hall_step\<^sup>*\<^sup>* (in_step d n FirstStep) (in_step d n FirstWait)"
  "hall_step\<^sup>*\<^sup>* (in_step d n FirstWait) (in_step d n Looking)"
  "hall_step\<^sup>*\<^sup>* (in_step d n Looking) (in_step d n SecondStep)"
  "hall_step\<^sup>*\<^sup>* (in_step d n SecondStep) (in_step d n SecondWait)"
  "hall_step\<^sup>*\<^sup>* (in_step d n SecondWait) (in_step d n SteppingBack)"
proof -
  show "hall_step\<^sup>*\<^sup>* (in_step d n FirstStep) (in_step d n FirstWait)"
    by (rule two_steps [OF hall_wait [of _ Alice] hall_wait [of _ Barbara]]) (simp_all add: in_step_def walker_fun)
  show "hall_step\<^sup>*\<^sup>* (in_step d n FirstWait) (in_step d n Looking)"
    by (rule two_steps [OF hall_broadcast hall_broadcast]) (simp add: in_step_def walker_fun awaken_def)
  show "hall_step\<^sup>*\<^sup>* (in_step d n Looking) (in_step d n SecondStep)"
    by (rule two_steps [OF hall_look [of _ Alice] hall_look [of _ Barbara]]) (simp_all add: in_step_def walker_fun)
  show "hall_step\<^sup>*\<^sup>* (in_step d n SecondStep) (in_step d n SecondWait)"
    by (rule two_steps [OF hall_wait_again [of _ Alice] hall_wait_again [of _ Barbara]]) (simp_all add: in_step_def walker_fun)
  show "hall_step\<^sup>*\<^sup>* (in_step d n SecondWait) (in_step d n SteppingBack)"
    by (rule two_steps [OF hall_broadcast hall_broadcast]) (simp add: in_step_def walker_fun awaken_def)
qed

lemma one_side:
  assumes "n < 5"
  shows "hall_step\<^sup>*\<^sup>* (face_to_face d n) (if d = LeftSide then face_to_face RightSide n else face_to_face LeftSide (Suc n))"
proof -
  have 1: "hall_step\<^sup>*\<^sup>* (face_to_face d n) (in_step d n FirstStep)"
    by (rule two_steps [OF hall_try [of _ Alice] hall_try [of _ Barbara]])
      (use assms in \<open>simp_all add: face_to_face_def in_step_def walker_fun direction_fun\<close>)
  have 2: "hall_step\<^sup>*\<^sup>* (in_step d n SteppingBack) (if d = LeftSide then face_to_face RightSide n else face_to_face LeftSide (Suc n))"
    by (rule two_steps [OF hall_back [of _ Alice] hall_back [of _ Barbara]])
      (use assms in \<open>cases d; simp add: face_to_face_def in_step_def step_back_def Let_def walker_fun direction_fun\<close>)+
  from 1 2 in_step_moves [of d n] show ?thesis by (meson rtranclp_trans)
qed

lemma both_give_up: "n \<le> 5 \<Longrightarrow> hall_step\<^sup>*\<^sup>* hall_start (face_to_face LeftSide n)"
proof (induction n)
  case 0
  have "face_to_face LeftSide 0 = hall_start" by (simp add: face_to_face_def hall_start_def)
  then show ?case by simp
next
  case (Suc n)
  then have "hall_step\<^sup>*\<^sup>* hall_start (face_to_face LeftSide n)" by simp
  also have "hall_step\<^sup>*\<^sup>* (face_to_face LeftSide n) (face_to_face RightSide n)" using one_side [of n LeftSide] Suc.prems by simp
  also have "hall_step\<^sup>*\<^sup>* (face_to_face RightSide n) (face_to_face LeftSide (Suc n))" using one_side [of n RightSide] Suc.prems by simp
  finally show ?case .
qed

section \<open>The starved lock\<close>

datatype worker = Greedy | Polite

datatype polite_pc = Asleep | TestingTime | BeforeLock nat | Holding nat | PoliteDone

record starved =
  shared_lock :: "worker option"
  spinning :: bool                  \<comment> \<open>the greedy worker is in its endless loop\<close>
  polite :: polite_pc
  loops :: nat

definition starved_start :: starved where
  "starved_start = \<lparr>shared_lock = None, spinning = False, polite = Asleep, loops = 0\<rparr>"

text \<open>The polite worker takes the lock three times in each turn, as long as its second is not over.\<close>

inductive starved_step :: "starved \<Rightarrow> starved \<Rightarrow> bool" where
  greedy_locks [go_intros]: "\<not> spinning s \<Longrightarrow> shared_lock s = None \<Longrightarrow>
     starved_step s (s\<lparr>shared_lock := Some Greedy, spinning := True\<rparr>)"
| polite_wakes [go_intros]: "polite s = Asleep \<Longrightarrow> starved_step s (s\<lparr>polite := TestingTime\<rparr>)"
| polite_goes_on [go_intros]: "polite s = TestingTime \<Longrightarrow> starved_step s (s\<lparr>polite := BeforeLock 1\<rparr>)"
| polite_time_over [go_intros]: "polite s = TestingTime \<Longrightarrow> starved_step s (s\<lparr>polite := PoliteDone\<rparr>)"
| polite_locks [go_intros]: "polite s = BeforeLock k \<Longrightarrow> shared_lock s = None \<Longrightarrow>
     starved_step s (s\<lparr>shared_lock := Some Polite, polite := Holding k\<rparr>)"
| polite_unlocks [go_intros]: "polite s = Holding k \<Longrightarrow>
     starved_step s (if k < 3 then s\<lparr>shared_lock := None, polite := BeforeLock (Suc k)\<rparr>
       else s\<lparr>shared_lock := None, polite := TestingTime, loops := Suc (loops s)\<rparr>)"

inductive_cases starved_stepE: "starved_step s t"

definition starved_inv :: "starved \<Rightarrow> bool" where
  "starved_inv s \<longleftrightarrow> (shared_lock s = Some Greedy) = spinning s \<and> (shared_lock s = Some Polite) = (\<exists>k. polite s = Holding k)"

lemma starved_inv_step: "starved_inv s \<Longrightarrow> starved_step s t \<Longrightarrow> starved_inv t"
  by (erule starved_stepE) (auto simp: starved_inv_def split: if_splits)

interpretation starved: step_invariant "\<lambda>s. s = starved_start" starved_step starved_inv
proof
  show "\<And>s. s = starved_start \<Longrightarrow> starved_inv s" by (simp add: starved_inv_def starved_start_def)
qed (rule starved_inv_step)

text \<open>Once the greedy worker has the lock the polite one completes no further turn and \<open>main\<close> waits for ever.\<close>

lemma starved_for_ever:
  assumes "starved_step\<^sup>*\<^sup>* starved_start s" "spinning s" "starved_step\<^sup>*\<^sup>* s t"
  shows "spinning t \<and> loops t = loops s \<and> (\<forall>k. polite t \<noteq> Holding k)"
  using assms(3)
proof (induction rule: rtranclp_induct)
  case base
  show ?case using starved.inv_reachable [OF refl assms(1)] assms(2) by (auto simp: starved_inv_def)
next
  case (step u v)
  have "starved_inv u" using starved.inv_reachable [OF refl rtranclp_trans [OF assms(1) step.hyps(1)]] .
  with step.hyps(2) step.IH show ?case by (elim starved_stepE) (auto simp: starved_inv_def)
qed

section \<open>Repeat and take, a leaking writer, an error group\<close>

text \<open>A value of \<open>randFn\<close>, which is 0 when the random source fails, waits in \<open>repeatFn\<close>; \<open>take\<close> has
received one and waits to pass it on.\<close>

record repeat_state =
  repeat_ready :: "int option"
  take_ready :: "int option"
  took :: nat
  numbers :: "int list"
  repeat_done :: bool

definition repeat_start :: repeat_state where
  "repeat_start = \<lparr>repeat_ready = None, take_ready = None, took = 0, numbers = [], repeat_done = False\<rparr>"

definition rand_fn :: "int option \<Rightarrow> int" where
  "rand_fn r = (case r of None \<Rightarrow> 0 | Some n \<Rightarrow> n)"

inductive repeat_step :: "repeat_state \<Rightarrow> repeat_state \<Rightarrow> bool" where
  repeat_calls: "\<not> repeat_done s \<Longrightarrow> repeat_ready s = None \<Longrightarrow> (case r of None \<Rightarrow> True | Some n \<Rightarrow> 0 \<le> n \<and> n < 100) \<Longrightarrow>
     repeat_step s (s\<lparr>repeat_ready := Some (rand_fn r)\<rparr>)"
| repeat_sends: "\<not> repeat_done s \<Longrightarrow> repeat_ready s = Some v \<Longrightarrow> take_ready s = None \<Longrightarrow> took s < 10 \<Longrightarrow>
     repeat_step s (s\<lparr>repeat_ready := None, take_ready := Some v\<rparr>)"
| take_sends: "\<not> repeat_done s \<Longrightarrow> take_ready s = Some v \<Longrightarrow>
     repeat_step s (s\<lparr>take_ready := None, took := Suc (took s), numbers := numbers s @ [v]\<rparr>)"
| take_closes: "\<not> repeat_done s \<Longrightarrow> took s = 10 \<Longrightarrow> repeat_step s (s\<lparr>repeat_done := True\<rparr>)"

inductive_cases repeat_stepE: "repeat_step s t"

definition repeat_inv :: "repeat_state \<Rightarrow> bool" where
  "repeat_inv s \<longleftrightarrow> length (numbers s) = took s \<and> took s \<le> 10 \<and> (take_ready s \<noteq> None \<longrightarrow> took s < 10) \<and>
     (repeat_done s \<longrightarrow> took s = 10) \<and> (\<forall>v \<in> set (numbers s) \<union> set_option (take_ready s) \<union> set_option (repeat_ready s). 0 \<le> v \<and> v < 100)"

lemma repeat_inv_step: "repeat_inv s \<Longrightarrow> repeat_step s t \<Longrightarrow> repeat_inv t"
  by (erule repeat_stepE) (auto simp: repeat_inv_def rand_fn_def split: option.splits)

interpretation repeated: step_invariant "\<lambda>s. s = repeat_start" repeat_step repeat_inv
proof
  show "\<And>s. s = repeat_start \<Longrightarrow> repeat_inv s" by (simp add: repeat_inv_def repeat_start_def)
qed (rule repeat_inv_step)

lemma repeat_prints_ten:
  assumes "repeat_step\<^sup>*\<^sup>* repeat_start s"
  shows "length (numbers s) \<le> 10" "repeat_done s \<Longrightarrow> length (numbers s) = 10"
    "v \<in> set (numbers s) \<Longrightarrow> 0 \<le> v \<and> v < 100" "\<not> repeat_done s \<Longrightarrow> \<exists>t. repeat_step s t"
proof -
  note inv = repeated.inv_reachable [OF refl assms]
  show "length (numbers s) \<le> 10" "repeat_done s \<Longrightarrow> length (numbers s) = 10" "v \<in> set (numbers s) \<Longrightarrow> 0 \<le> v \<and> v < 100"
    using inv by (auto simp: repeat_inv_def)
  assume d: "\<not> repeat_done s"
  show "\<exists>t. repeat_step s t"
  proof (cases "take_ready s")
    case None
    show ?thesis
    proof (cases "repeat_ready s")
      case rn: None
      show ?thesis by (rule exI, rule repeat_calls [of s None]) (use d rn in simp_all)
    next
      case (Some v)
      show ?thesis
      proof (cases "took s < 10")
        case True
        then show ?thesis using repeat_sends [OF d Some None] by blast
      next
        case False
        then show ?thesis using inv take_closes [OF d] by (fastforce simp: repeat_inv_def)
      qed
    qed
  next
    case (Some v)
    then show ?thesis using take_sends [OF d] by blast
  qed
qed

text \<open>\<open>main\<close> receives three times; the writer then waits in its fourth send, its deferred line unprinted.\<close>

record leak_state =
  received :: nat
  leak_lines :: "(nat \<times> nat) list"

inductive leak_step :: "leak_state \<Rightarrow> leak_state \<Rightarrow> bool" where
  leak_receives: "received s < 3 \<Longrightarrow>
     leak_step s (s\<lparr>received := Suc (received s), leak_lines := leak_lines s @ [(Suc (received s), 1)]\<rparr>)"

inductive_cases leak_stepE: "leak_step s t"

lemma leak_ends:
  assumes "leak_step\<^sup>*\<^sup>* \<lparr>received = 0, leak_lines = []\<rparr> s" "\<And>t. \<not> leak_step s t"
  shows "leak_lines s = [(1, 1), (2, 1), (3, 1)]"
proof -
  have "received s \<le> 3 \<and> leak_lines s = take (received s) [(1, 1), (2, 1), (3, 1)]"
    using assms(1)
  proof (induction rule: rtranclp_induct)
    case (step t u)
    then show ?case by (elim leak_stepE) (auto simp: take_Suc_conv_app_nth numeral_3_eq_3 less_Suc_eq)
  qed simp
  moreover have "\<not> received s < 3" using assms(2) leak_receives by blast
  ultimately show ?thesis by simp
qed

definition task :: "nat \<Rightarrow> nat option" where
  "task i = (if i = 2 then Some i else if i = 4 then Some i else None)"

text \<open>\<open>Wait\<close> returns the error of the first task to fail, in the order in which they end.\<close>

definition group_main :: "nat list \<Rightarrow> nat list \<times> nat option" where
  "group_main order = (filter (\<lambda>i. task i = None) order, find (\<lambda>i. task i \<noteq> None) order)"

lemma group_main_fails:
  assumes "mset order = mset [1, 2, 3, 4, 5]"
  shows "mset (fst (group_main order)) = mset [1, 3, 5] \<and> snd (group_main order) \<in> {Some 2, Some 4}"
proof -
  have s: "set order = {1, 2, 3, 4, 5}" using mset_eq_setD [OF assms] by simp
  have "mset (filter (\<lambda>i. task i = None) order) = filter_mset (\<lambda>i. task i = None) (mset [1, 2, 3, 4, 5])"
    using assms by (metis mset_filter)
  also have "\<dots> = mset [1, 3, 5]" by (simp add: task_def)
  finally have "mset (fst (group_main order)) = mset [1, 3, 5]" by (simp add: group_main_def)
  moreover have "find (\<lambda>i. task i \<noteq> None) order \<in> {Some 2, Some 4}"
  proof (cases "find (\<lambda>i. task i \<noteq> None) order")
    case None
    then have "task 2 = None" using s by (auto simp only: find_None_iff insert_iff)
    then show ?thesis by (simp add: task_def)
  next
    case (Some i)
    then have "task i \<noteq> None" unfolding find_Some_iff by blast
    then show ?thesis using Some by (auto simp: task_def split: if_splits)
  qed
  then have "snd (group_main order) \<in> {Some 2, Some 4}" by (simp add: group_main_def)
  ultimately show ?thesis by blast
qed

section \<open>Properties\<close>

text \<open>
  The worker's ten results always reach \<open>main\<close>: every run of the heartbeat program can only stop by
  returning, each step brings it nearer, and when it has returned it has printed exactly ten results
  between 0 and 9 and at most ten pulses, some of which may have been dropped.
\<close>

lemma heartbeat_ten_results:
  assumes "beat_step\<^sup>*\<^sup>* beat_start s"
  shows "(returned s \<noteq> None \<longrightarrow> length (results s) = 10) \<and> length (results s) \<le> 10 \<and> pulses s \<le> 10 \<and>
    (\<forall>v \<in> set (results s). 0 \<le> v \<and> v < 10) \<and>
    (returned s = None \<longrightarrow> (\<exists>t. beat_step s t)) \<and> (\<forall>t. beat_step s t \<longrightarrow> beat_left t < beat_left s)"
proof -
  note inv = beat.inv_reachable [OF refl assms]
  then have "length (results s) = turn s" "turn s \<le> 10" "returned s \<noteq> None \<longrightarrow> turn s = 10" "pulses s \<le> 10"
    by (rule beat_inv_facts)+
  moreover have "\<forall>v \<in> set (results s). 0 \<le> v \<and> v < 10" using inv unfolding beat_inv_def by blast
  moreover have "returned s = None \<longrightarrow> (\<exists>t. beat_step s t)" using beat_moves [OF inv] by blast
  moreover have "\<forall>t. beat_step s t \<longrightarrow> beat_left t < beat_left s" using beat_left_less [OF inv] by blast
  ultimately show ?thesis by simp
qed

lemma heartbeat_returns_after_ten:
  "\<exists>s. beat_step\<^sup>*\<^sup>* beat_start s \<and> returned s \<noteq> None \<and> length (results s) = 10 \<and> pulses s \<le> 10"
proof -
  obtain s where s: "beat_step\<^sup>*\<^sup>* beat_start s" "returned s \<noteq> None"
    using beat_run.ends [OF beat.inv_init [OF refl]] by blast
  then show ?thesis using heartbeat_ten_results [OF s(1)] by (intro exI [of _ s]) simp
qed

text \<open>
  The queue of the condition variable never loses its lock or its signal: nobody ever removes from an
  empty queue, it never holds more than the ten elements, and until all are added somebody can move.
\<close>

lemma cond_queue_safe:
  assumes "cond_step\<^sup>*\<^sup>* cond_start s"
  shows "qlen s \<le> 10 \<and> (remover s i = Removing \<longrightarrow> 0 < qlen s) \<and> (adder s \<noteq> AllAdded \<longrightarrow> (\<exists>t. cond_step s t))"
proof -
  note inv = cond.inv_reachable [OF refl assms]
  then have known: "cond_known s" and count: "qlen s = card (pending s)" by (simp_all add: cond_inv_def)
  have "pending s \<subseteq> {..<10}"
  proof
    fix j assume "j \<in> pending s"
    then have "remover s j \<noteq> NotStarted" by (auto simp: pending_def)
    then show "j \<in> {..<10}" using known by (cases "adder s = Unlocking"; cases "adder s = AllAdded") (auto simp: cond_known_def)
  qed
  then have "card (pending s) \<le> card {..<10 :: nat}" by (rule card_mono [rotated]) simp
  moreover have "0 < card (pending s)" if "remover s i = Removing"
    using that finite_pending [OF known] by (auto simp: card_gt_0_iff pending_def)
  ultimately show ?thesis using count cond_moves [OF inv] by simp
qed

text \<open>
  The queue is meant to stop at two. But the woken adder does not test the length again, and a goroutine
  that has removed may signal when the adder has already filled its place: three elements.
\<close>

definition queue_state :: "lock_owner option \<Rightarrow> nat \<Rightarrow> nat \<Rightarrow> adder_pc \<Rightarrow> remover_pc list \<Rightarrow> cond_queue" where
  "queue_state l a q p rs = \<lparr>cond_lock = l, added = a, qlen = q, adder = p, remover = (\<lambda>i. if i < length rs then rs ! i else NotStarted)\<rparr>"

lemma step_eq: "cond_step s t \<Longrightarrow> t = u \<Longrightarrow> cond_step s u"
  by simp

lemma queue_moves:
  "a < 10 \<Longrightarrow> cond_step (queue_state None a q Locking rs) (queue_state (Some Adder) a q Checking rs)"
  "q \<noteq> 2 \<Longrightarrow> cond_step (queue_state l a q Checking rs) (queue_state l a q Appending rs)"
  "cond_step (queue_state l a 2 Checking rs) (queue_state None a 2 WaitingCond rs)"
  "a < length rs \<Longrightarrow> cond_step (queue_state l a q Appending rs) (queue_state l a (Suc q) Unlocking (rs[a := RLocking]))"
  "Suc a < 10 \<Longrightarrow> cond_step (queue_state l a q Unlocking rs) (queue_state None (Suc a) q Locking rs)"
  "cond_step (queue_state None a q Relocking rs) (queue_state (Some Adder) a q Appending rs)"
  "cond_step (queue_state None a q p (RLocking # rs)) (queue_state (Some (Remover 0)) a q p (Removing # rs))"
  "cond_step (queue_state l a q p (Removing # rs)) (queue_state l a (q - 1) p (RUnlocking # rs))"
  "cond_step (queue_state l a q p (RUnlocking # rs)) (queue_state None a q p (Signalling # rs))"
  "cond_step (queue_state l a q WaitingCond (Signalling # rs)) (queue_state l a q Relocking (RDone # rs))"
proof -
  note eqs = queue_state_def fun_eq_iff nth_list_update
  show "a < 10 \<Longrightarrow> cond_step (queue_state None a q Locking rs) (queue_state (Some Adder) a q Checking rs)"
    by (rule step_eq [OF add_lock]) (auto simp: eqs)
  show "q \<noteq> 2 \<Longrightarrow> cond_step (queue_state l a q Checking rs) (queue_state l a q Appending rs)"
    by (rule step_eq [OF add_check]) (auto simp: eqs)
  show "cond_step (queue_state l a 2 Checking rs) (queue_state None a 2 WaitingCond rs)"
    by (rule step_eq [OF add_check]) (auto simp: eqs)
  show "a < length rs \<Longrightarrow> cond_step (queue_state l a q Appending rs) (queue_state l a (Suc q) Unlocking (rs[a := RLocking]))"
    by (rule step_eq [OF add_append]) (auto simp: eqs)
  show "Suc a < 10 \<Longrightarrow> cond_step (queue_state l a q Unlocking rs) (queue_state None (Suc a) q Locking rs)"
    by (rule step_eq [OF add_unlock]) (auto simp: eqs)
  show "cond_step (queue_state None a q Relocking rs) (queue_state (Some Adder) a q Appending rs)"
    by (rule step_eq [OF add_relock]) (auto simp: eqs)
  show "cond_step (queue_state None a q p (RLocking # rs)) (queue_state (Some (Remover 0)) a q p (Removing # rs))"
    by (rule step_eq [OF rem_lock [of _ 0]]) (auto simp: eqs nth_Cons split: nat.splits)
  show "cond_step (queue_state l a q p (Removing # rs)) (queue_state l a (q - 1) p (RUnlocking # rs))"
    by (rule step_eq [OF rem_remove [of _ 0]]) (auto simp: eqs nth_Cons split: nat.splits)
  show "cond_step (queue_state l a q p (RUnlocking # rs)) (queue_state None a q p (Signalling # rs))"
    by (rule step_eq [OF rem_unlock [of _ 0]]) (auto simp: eqs nth_Cons split: nat.splits)
  show "cond_step (queue_state l a q WaitingCond (Signalling # rs)) (queue_state l a q Relocking (RDone # rs))"
    by (rule step_eq [OF rem_signal [of _ 0]]) (auto simp: eqs nth_Cons split: nat.splits)
qed

lemma cond_queue_overshoots: "\<exists>s. cond_step\<^sup>*\<^sup>* cond_start s \<and> qlen s = 3"
proof -
  let ?n = NotStarted and ?r = RLocking
  have "cond_start = queue_state None 0 0 Locking [?n, ?n, ?n, ?n]"
    by (auto simp: cond_start_def queue_state_def fun_eq_iff less_Suc_eq nth_Cons split: nat.splits)
  also have "cond_step\<^sup>*\<^sup>* \<dots> (queue_state (Some Adder) 0 0 Checking [?n, ?n, ?n, ?n])"
    by (intro r_into_rtranclp, rule step_eq [OF queue_moves(1)]) (simp_all add: eval_nat_numeral)
  also have "cond_step\<^sup>*\<^sup>* \<dots> (queue_state (Some Adder) 0 0 Appending [?n, ?n, ?n, ?n])"
    by (intro r_into_rtranclp, rule step_eq [OF queue_moves(2)]) (simp_all add: eval_nat_numeral)
  also have "cond_step\<^sup>*\<^sup>* \<dots> (queue_state (Some Adder) 0 1 Unlocking [?r, ?n, ?n, ?n])"
    by (intro r_into_rtranclp, rule step_eq [OF queue_moves(4)]) (simp_all add: eval_nat_numeral)
  also have "cond_step\<^sup>*\<^sup>* \<dots> (queue_state None 1 1 Locking [?r, ?n, ?n, ?n])"
    by (intro r_into_rtranclp, rule step_eq [OF queue_moves(5)]) (simp_all add: eval_nat_numeral)
  also have "cond_step\<^sup>*\<^sup>* \<dots> (queue_state (Some Adder) 1 1 Checking [?r, ?n, ?n, ?n])"
    by (intro r_into_rtranclp, rule step_eq [OF queue_moves(1)]) (simp_all add: eval_nat_numeral)
  also have "cond_step\<^sup>*\<^sup>* \<dots> (queue_state (Some Adder) 1 1 Appending [?r, ?n, ?n, ?n])"
    by (intro r_into_rtranclp, rule step_eq [OF queue_moves(2)]) (simp_all add: eval_nat_numeral)
  also have "cond_step\<^sup>*\<^sup>* \<dots> (queue_state (Some Adder) 1 2 Unlocking [?r, ?r, ?n, ?n])"
    by (intro r_into_rtranclp, rule step_eq [OF queue_moves(4)]) (simp_all add: eval_nat_numeral)
  also have "cond_step\<^sup>*\<^sup>* \<dots> (queue_state None 2 2 Locking [?r, ?r, ?n, ?n])"
    by (intro r_into_rtranclp, rule step_eq [OF queue_moves(5)]) (simp_all add: eval_nat_numeral)
  also have "cond_step\<^sup>*\<^sup>* \<dots> (queue_state (Some (Remover 0)) 2 2 Locking [Removing, ?r, ?n, ?n])"
    by (intro r_into_rtranclp, rule step_eq [OF queue_moves(7)]) (simp_all add: eval_nat_numeral)
  also have "cond_step\<^sup>*\<^sup>* \<dots> (queue_state (Some (Remover 0)) 2 1 Locking [RUnlocking, ?r, ?n, ?n])"
    by (intro r_into_rtranclp, rule step_eq [OF queue_moves(8)]) (simp_all add: eval_nat_numeral)
  also have "cond_step\<^sup>*\<^sup>* \<dots> (queue_state None 2 1 Locking [Signalling, ?r, ?n, ?n])"
    by (intro r_into_rtranclp, rule step_eq [OF queue_moves(9)]) (simp_all add: eval_nat_numeral)
  also have "cond_step\<^sup>*\<^sup>* \<dots> (queue_state (Some Adder) 2 1 Checking [Signalling, ?r, ?n, ?n])"
    by (intro r_into_rtranclp, rule step_eq [OF queue_moves(1)]) (simp_all add: eval_nat_numeral)
  also have "cond_step\<^sup>*\<^sup>* \<dots> (queue_state (Some Adder) 2 1 Appending [Signalling, ?r, ?n, ?n])"
    by (intro r_into_rtranclp, rule step_eq [OF queue_moves(2)]) (simp_all add: eval_nat_numeral)
  also have "cond_step\<^sup>*\<^sup>* \<dots> (queue_state (Some Adder) 2 2 Unlocking [Signalling, ?r, ?r, ?n])"
    by (intro r_into_rtranclp, rule step_eq [OF queue_moves(4)]) (simp_all add: eval_nat_numeral)
  also have "cond_step\<^sup>*\<^sup>* \<dots> (queue_state None 3 2 Locking [Signalling, ?r, ?r, ?n])"
    by (intro r_into_rtranclp, rule step_eq [OF queue_moves(5)]) (simp_all add: eval_nat_numeral)
  also have "cond_step\<^sup>*\<^sup>* \<dots> (queue_state (Some Adder) 3 2 Checking [Signalling, ?r, ?r, ?n])"
    by (intro r_into_rtranclp, rule step_eq [OF queue_moves(1)]) (simp_all add: eval_nat_numeral)
  also have "cond_step\<^sup>*\<^sup>* \<dots> (queue_state None 3 2 WaitingCond [Signalling, ?r, ?r, ?n])"
    by (intro r_into_rtranclp, rule step_eq [OF queue_moves(3)]) (simp_all add: eval_nat_numeral)
  also have "cond_step\<^sup>*\<^sup>* \<dots> (queue_state None 3 2 Relocking [RDone, ?r, ?r, ?n])"
    by (intro r_into_rtranclp, rule step_eq [OF queue_moves(10)]) (simp_all add: eval_nat_numeral)
  also have "cond_step\<^sup>*\<^sup>* \<dots> (queue_state (Some Adder) 3 2 Appending [RDone, ?r, ?r, ?n])"
    by (intro r_into_rtranclp, rule step_eq [OF queue_moves(6)]) (simp_all add: eval_nat_numeral)
  also have "cond_step\<^sup>*\<^sup>* \<dots> (queue_state (Some Adder) 3 3 Unlocking [RDone, ?r, ?r, ?r])"
    by (intro r_into_rtranclp, rule step_eq [OF queue_moves(4)]) (simp_all add: eval_nat_numeral)
  finally show ?thesis by (intro exI conjI, assumption) (simp add: queue_state_def)
qed

theorem cond_queue_safe_witness:
  "\<exists>s. cond_step\<^sup>*\<^sup>* cond_start s \<and> qlen s = 3 \<and> qlen s \<le> 10 \<and> (adder s \<noteq> AllAdded \<longrightarrow> (\<exists>t. cond_step s t))"
proof -
  obtain s where s: "cond_step\<^sup>*\<^sup>* cond_start s" "qlen s = 3" using cond_queue_overshoots by blast
  then show ?thesis using cond_queue_safe [OF s(1)] by blast
qed

text \<open>
  The two people never both pass on one side, whatever the order of their steps, and each counter is
  the number of those who count for its side.
\<close>

lemma hallway_one_per_side:
  assumes "hall_step\<^sup>*\<^sup>* hall_start s"
  shows "(walk_pc s Alice = Passed \<and> walk_pc s Barbara = Passed \<longrightarrow> side s Alice \<noteq> side s Barbara) \<and>
    dirs s d = counts_for s d Alice + counts_for s d Barbara"
  using hall.inv_reachable [OF refl assms] by (auto simp: hall_inv_def)

text \<open>
  C36. As long as the cadence beats, both people come to an end: no step but a beat nobody waits for leaves
  as much to do as before, which is at most 140 moves, while one is not finished some step does part
  of it, and so a state where both have passed or given up can be reached. Both giving up is possible.
\<close>

theorem hallway_ends:
  assumes "hall_step\<^sup>*\<^sup>* hall_start s"
  shows "hall_left s \<le> 140 \<and> (\<forall>t. hall_step s t \<longrightarrow> t = s \<or> hall_left t < hall_left s) \<and>
    (\<not> finished (walk_pc s w) \<longrightarrow> (\<exists>t. hall_step s t \<and> hall_left t < hall_left s)) \<and>
    (\<exists>t. hall_step\<^sup>*\<^sup>* s t \<and> (\<forall>w. finished (walk_pc t w)))"
proof -
  note inv = hall.inv_reachable [OF refl assms]
  have "hall_left s \<le> 140"
    using assms
  proof (induction rule: rtranclp_induct)
    case base
    show ?case by (simp add: hall_left_def walk_left_def moves_left_def hall_start_def)
  next
    case (step t u)
    have "hall_inv t" using hall.inv_reachable [OF refl step.hyps(1)] .
    then show ?case using hall_left_step [OF _ step.hyps(2)] step.IH by fastforce
  qed
  moreover have "\<forall>t. hall_step s t \<longrightarrow> t = s \<or> hall_left t < hall_left s" using hall_left_step [OF inv] by blast
  ultimately show ?thesis using hall_progress [OF inv] hall_run.ends [OF inv] by blast
qed

theorem hallway_ends_witness:
  "\<exists>s. hall_step\<^sup>*\<^sup>* hall_start s \<and> walk_pc s Alice = GaveUp \<and> walk_pc s Barbara = GaveUp \<and> hall_left s \<le> 140"
  using both_give_up [of 5] hallway_ends [OF both_give_up [of 5]]
  by (intro exI [of _ "face_to_face LeftSide 5"]) (simp add: face_to_face_def)

end
