(* ===== verification/Operators.thy ===== *)
theory Operators
  imports GoPrelude
begin

text \<open>
  The two kubebuilder operators: the Book operator with its admission webhook (\<open>client-go/webhook\<close>) and
  the Guestbook operator (\<open>kubebuilder/projects/guestbook\<close>). The validators and reconcilers are modelled
  over a store of objects, and both \<open>main\<close>s over a manager of controller-runtime, which is a parameter.
  The TLS options are Go slices over shared arrays, because \<open>main\<close> appends to two copies of one slice.
\<close>

section \<open>The Book webhook\<close>

text \<open>A book is named by its metadata; what the webhook looks at is \<open>Spec.Name\<close>.\<close>

record book =
  meta_name :: string
  spec_name :: string

datatype object = BookObject book | OtherObject string

datatype admission_error = NotABook string | NameRequired | WrongName string | GetFailed | NotDeletable string

definition default_book :: "object \<Rightarrow> (admission_error, object) result" where
  "default_book obj = (case obj of BookObject b \<Rightarrow> Inr obj | OtherObject t \<Rightarrow> Inl (NotABook t))"

definition validate_create :: "object \<Rightarrow> admission_error option" where
  "validate_create obj =
     (case obj of
        OtherObject t \<Rightarrow> Some (NotABook t)
      | BookObject b \<Rightarrow>
          if spec_name b = [] then Some NameRequired
          else if spec_name b = ''Python'' then Some (WrongName (spec_name b))
          else None)"

text \<open>\<open>get\<close> is the client's \<open>Get\<close>: whether it finds the object of that name.\<close>

definition validate_update :: "(string \<Rightarrow> bool) \<Rightarrow> object \<Rightarrow> object \<Rightarrow> admission_error option" where
  "validate_update get old_obj new_obj =
     (case new_obj of
        OtherObject t \<Rightarrow> Some (NotABook t)
      | BookObject b \<Rightarrow>
          if \<not> get (meta_name b) then Some GetFailed
          else if spec_name b = ''Python'' then Some (WrongName (spec_name b))
          else None)"

definition validate_delete :: "object \<Rightarrow> admission_error option" where
  "validate_delete obj =
     (case obj of
        OtherObject t \<Rightarrow> Some (NotABook t)
      | BookObject b \<Rightarrow> if spec_name b = ''Go'' then Some (NotDeletable (spec_name b)) else None)"

text \<open>
  What the API server does with a request for books: the defaulter on creations and updates, then the
  validator, as the marker comments of the webhook ask for. \<open>reads k\<close> says whether the client's read works.
\<close>

datatype request = Create string string | Update string string | Delete string

type_synonym books = "string \<rightharpoonup> string"

definition as_object :: "string \<Rightarrow> string \<Rightarrow> object" where
  "as_object k n = BookObject \<lparr>meta_name = k, spec_name = n\<rparr>"

definition admit :: "(string \<Rightarrow> bool) \<Rightarrow> books \<Rightarrow> request \<Rightarrow> books" where
  "admit reads s r =
     (case r of
        Create k n \<Rightarrow>
          (case default_book (as_object k n) of
             Inl _ \<Rightarrow> s
           | Inr obj \<Rightarrow> if s k = None \<and> validate_create obj = None then s(k \<mapsto> n) else s)
      | Update k n \<Rightarrow>
          (case s k of
             None \<Rightarrow> s
           | Some old \<Rightarrow>
               (case default_book (as_object k n) of
                  Inl _ \<Rightarrow> s
                | Inr obj \<Rightarrow>
                    if validate_update (\<lambda>k. reads k \<and> s k \<noteq> None) (as_object k old) obj = None then s(k \<mapsto> n) else s))
      | Delete k \<Rightarrow>
          (case s k of
             None \<Rightarrow> s
           | Some n \<Rightarrow> if validate_delete (as_object k n) = None then s(k := None) else s))"

datatype reconcile_result = Reconciled | RequeueWith string

datatype get_result = Found book | NotFound | GetError string

text \<open>\<open>client.IgnoreNotFound\<close>: a book that is gone is no error.\<close>

definition book_reconcile :: "get_result \<Rightarrow> reconcile_result" where
  "book_reconcile g = (case g of Found b \<Rightarrow> Reconciled | NotFound \<Rightarrow> Reconciled | GetError e \<Rightarrow> RequeueWith e)"

text \<open>The result of the guestbook's \<open>List\<close> is not looked at.\<close>

definition guestbook_reconcile :: "string option \<Rightarrow> reconcile_result" where
  "guestbook_reconcile list_error = Reconciled"

section \<open>Slices\<close>

text \<open>A slice is an array, a length and a capacity; \<open>grow n\<close> is the capacity of a new array that must hold
\<open>n\<close> elements. The cells of all arrays are the heap, which also knows the next free array.\<close>

record slice =
  arr :: nat
  slen :: nat
  scap :: nat

record 'a slice_heap =
  cells :: "nat \<times> nat \<Rightarrow> 'a option"
  next_arr :: nat

definition nil_slice :: slice where
  "nil_slice = \<lparr>arr = 0, slen = 0, scap = 0\<rparr>"

definition slice_list :: "'a slice_heap \<Rightarrow> slice \<Rightarrow> 'a option list" where
  "slice_list h s = map (\<lambda>i. cells h (arr s, i)) [0..<slen s]"

definition go_append :: "(nat \<Rightarrow> nat) \<Rightarrow> slice \<Rightarrow> 'a \<Rightarrow> 'a slice_heap \<Rightarrow> 'a slice_heap \<times> slice" where
  "go_append grow s x h =
     (if slen s < scap s
      then (h\<lparr>cells := (cells h)((arr s, slen s) := Some x)\<rparr>, s\<lparr>slen := Suc (slen s)\<rparr>)
      else (let a = next_arr h
            in (h\<lparr>cells := (\<lambda>(b, i). if b = a then (if i < slen s then cells h (arr s, i) else if i = slen s then Some x else None)
                             else cells h (b, i)),
                  next_arr := Suc a\<rparr>,
                \<lparr>arr = a, slen = Suc (slen s), scap = grow (Suc (slen s))\<rparr>)))"

section \<open>The managers\<close>

datatype watched = WebhookCert | MetricsCert

datatype tls_opt = DisableHttp2 | GetCertificateFrom watched

record flags =
  metrics_addr :: string
  webhook_cert_path :: string
  webhook_cert_files :: "string \<times> string"    \<comment> \<open>the names of certificate and key\<close>
  metrics_cert_path :: string
  metrics_cert_files :: "string \<times> string"
  enable_leader_election :: bool
  probe_addr :: string
  secure_metrics :: bool
  enable_http2 :: bool

text \<open>What distinguishes the two programs.\<close>

record operator =
  op_webhook_cert_path :: string       \<comment> \<open>the flag's default\<close>
  leader_election_id :: string
  controllers :: "string list"         \<comment> \<open>the names set up with the manager, in their order\<close>
  has_webhook :: bool

definition default_flags :: "operator \<Rightarrow> flags" where
  "default_flags op =
     \<lparr>metrics_addr = ''0'', webhook_cert_path = op_webhook_cert_path op,
      webhook_cert_files = (''tls.crt'', ''tls.key''), metrics_cert_path = [], metrics_cert_files = (''tls.crt'', ''tls.key''),
      enable_leader_election = False, probe_addr = '':8081'', secure_metrics = True, enable_http2 = False\<rparr>"

record manager_options =
  mo_metrics_addr :: string
  mo_secure :: bool
  mo_auth_filter :: bool
  mo_metrics_tls :: slice
  mo_webhook_tls :: slice
  mo_probe_addr :: string
  mo_leader :: "string option"

text \<open>controller-runtime: each call may fail.\<close>

record 'm manager_lib =
  new_watcher :: "watched \<Rightarrow> string \<Rightarrow> string \<times> string \<Rightarrow> bool"
  new_manager :: "manager_options \<Rightarrow> 'm option"
  setup_controller :: "string \<Rightarrow> 'm \<Rightarrow> 'm option"
  setup_webhook :: "'m \<Rightarrow> 'm option"
  add_watcher :: "watched \<Rightarrow> 'm \<Rightarrow> 'm option"
  add_check :: "string \<Rightarrow> 'm \<Rightarrow> 'm option"
  run_manager :: "'m \<Rightarrow> bool"

datatype exit_reason =
  WatcherFailed watched | ManagerFailed | ControllerFailed string | WebhookFailed | AddFailed watched
| CheckFailed string | RunFailed | Stopped

fun setup_all :: "(string \<Rightarrow> 'm \<Rightarrow> 'm option) \<Rightarrow> string list \<Rightarrow> 'm \<Rightarrow> string + 'm" where
  "setup_all f [] m = Inr m"
| "setup_all f (n # ns) m = (case f n m of None \<Rightarrow> Inl n | Some m' \<Rightarrow> setup_all f ns m')"

text \<open>The options of the first half of \<open>main\<close>, or the watcher that could not be created.\<close>

definition server_options ::
    "(nat \<Rightarrow> nat) \<Rightarrow> (watched \<Rightarrow> string \<Rightarrow> string \<times> string \<Rightarrow> bool) \<Rightarrow> operator \<Rightarrow> flags \<Rightarrow> watched + tls_opt slice_heap \<times> manager_options" where
  "server_options grow watcher_ok op fl =
     (let h = \<lparr>cells = (\<lambda>_. None), next_arr = 1\<rparr>;
          (h, tls_opts) = (if \<not> enable_http2 fl then go_append grow nil_slice DisableHttp2 h else (h, nil_slice));
          webhook_tls_opts = tls_opts
      in if webhook_cert_path fl \<noteq> [] \<and> \<not> watcher_ok WebhookCert (webhook_cert_path fl) (webhook_cert_files fl) then Inl WebhookCert
         else
          (let (h, webhook_tls_opts) =
                 (if webhook_cert_path fl \<noteq> [] then go_append grow webhook_tls_opts (GetCertificateFrom WebhookCert) h
                  else (h, webhook_tls_opts));
               metrics_tls_opts = tls_opts
           in if metrics_cert_path fl \<noteq> [] \<and> \<not> watcher_ok MetricsCert (metrics_cert_path fl) (metrics_cert_files fl) then Inl MetricsCert
              else
               (let (h, metrics_tls_opts) =
                      (if metrics_cert_path fl \<noteq> [] then go_append grow metrics_tls_opts (GetCertificateFrom MetricsCert) h
                       else (h, metrics_tls_opts))
                in Inr (h, \<lparr>mo_metrics_addr = metrics_addr fl, mo_secure = secure_metrics fl, mo_auth_filter = secure_metrics fl,
                     mo_metrics_tls = metrics_tls_opts, mo_webhook_tls = webhook_tls_opts, mo_probe_addr = probe_addr fl,
                     mo_leader = (if enable_leader_election fl then Some (leader_election_id op) else None)\<rparr>))))"

definition add_if :: "bool \<Rightarrow> ('m \<Rightarrow> 'm option) \<Rightarrow> 'm \<Rightarrow> 'm option" where
  "add_if b f m = (if b then f m else Some m)"

text \<open>The second half of \<open>main\<close>: the watchers that were made, the two checks, and the manager until it ends.\<close>

definition start_manager :: "'m manager_lib \<Rightarrow> flags \<Rightarrow> 'm \<Rightarrow> exit_reason" where
  "start_manager L fl m =
     (case add_if (metrics_cert_path fl \<noteq> []) (add_watcher L MetricsCert) m of None \<Rightarrow> AddFailed MetricsCert | Some m \<Rightarrow>
     (case add_if (webhook_cert_path fl \<noteq> []) (add_watcher L WebhookCert) m of None \<Rightarrow> AddFailed WebhookCert | Some m \<Rightarrow>
     (case add_check L ''healthz'' m of None \<Rightarrow> CheckFailed ''healthz'' | Some m \<Rightarrow>
     (case add_check L ''readyz'' m of None \<Rightarrow> CheckFailed ''readyz'' | Some m \<Rightarrow>
       if run_manager L m then Stopped else RunFailed))))"

definition operator_main :: "(nat \<Rightarrow> nat) \<Rightarrow> 'm manager_lib \<Rightarrow> operator \<Rightarrow> flags \<Rightarrow> string \<Rightarrow> exit_reason" where
  "operator_main grow L op fl enable_webhooks =
     (case server_options grow (new_watcher L) op fl of
        Inl w \<Rightarrow> WatcherFailed w
      | Inr (h, opts) \<Rightarrow>
     (case new_manager L opts of None \<Rightarrow> ManagerFailed | Some m \<Rightarrow>
     (case setup_all (setup_controller L) (controllers op) m of Inl n \<Rightarrow> ControllerFailed n | Inr m \<Rightarrow>
     (case add_if (has_webhook op \<and> enable_webhooks \<noteq> ''false'') (setup_webhook L) m of None \<Rightarrow> WebhookFailed | Some m \<Rightarrow>
       start_manager L fl m))))"

definition book_operator :: operator where
  "book_operator =
     \<lparr>op_webhook_cert_path = ''/tmp/k8s-webhook-server/serving-certs'', leader_election_id = ''e5a29a21.hxia.io'',
      controllers = [''book''], has_webhook = True\<rparr>"

definition guestbook_operator :: operator where
  "guestbook_operator =
     \<lparr>op_webhook_cert_path = [], leader_election_id = ''ecaf1259.my.domain'',
      controllers = [''guestbook'', ''guestbook''], has_webhook = False\<rparr>"

definition book_main :: "(nat \<Rightarrow> nat) \<Rightarrow> 'm manager_lib \<Rightarrow> flags \<Rightarrow> string \<Rightarrow> exit_reason" where
  "book_main grow L fl env = operator_main grow L book_operator fl env"

definition guestbook_main :: "(nat \<Rightarrow> nat) \<Rightarrow> 'm manager_lib \<Rightarrow> flags \<Rightarrow> exit_reason" where
  "guestbook_main grow L fl = operator_main grow L guestbook_operator fl []"

section \<open>Lemmas\<close>

lemma admit_cases:
  "admit reads s (Create k n) = (if s k = None \<and> n \<noteq> [] \<and> n \<noteq> ''Python'' then s(k \<mapsto> n) else s)"
  "admit reads s (Update k n) = (if s k \<noteq> None \<and> reads k \<and> n \<noteq> ''Python'' then s(k \<mapsto> n) else s)"
  "admit reads s (Delete k) = (if s k \<noteq> None \<and> s k \<noteq> Some ''Go'' then s(k := None) else s)"
  by (auto simp: admit_def as_object_def default_book_def validate_create_def validate_update_def validate_delete_def
      split: option.splits)

lemma setup_all_names:
  assumes "\<And>n m m'. f n m = Some m' \<Longrightarrow> n \<notin> names m \<and> names m' = insert n (names m)"
    and "setup_all f ns m = Inr m'"
  shows "distinct ns \<and> set ns \<inter> names m = {} \<and> names m' = set ns \<union> names m"
  using assms(2)
proof (induction ns arbitrary: m)
  case Nil
  then show ?case by simp
next
  case (Cons n ns)
  then obtain m1 where m1: "f n m = Some m1" "setup_all f ns m1 = Inr m'" by (auto split: option.splits)
  from assms(1) [OF m1(1)] Cons.IH [OF m1(2)] show ?case by auto
qed

lemma setup_all_fails: "setup_all f ns m = Inl n \<Longrightarrow> n \<in> set ns"
  by (induction ns arbitrary: m) (auto split: option.splits)

text \<open>Lists of options, as if no two slices shared an array.\<close>

definition tls_reference :: "flags \<Rightarrow> tls_opt option list \<times> tls_opt option list" where
  "tls_reference fl =
     (let common = (if enable_http2 fl then [] else [Some DisableHttp2])
      in (common @ (if webhook_cert_path fl \<noteq> [] then [Some (GetCertificateFrom WebhookCert)] else []),
          common @ (if metrics_cert_path fl \<noteq> [] then [Some (GetCertificateFrom MetricsCert)] else [])))"

text \<open>A manager whose controllers have distinct names, as controller-runtime requires; \<open>names\<close> is what it has.\<close>

definition unique_names :: "'m manager_lib \<Rightarrow> ('m \<Rightarrow> string set) \<Rightarrow> bool" where
  "unique_names L names \<longleftrightarrow> (\<forall>n m m'. setup_controller L n m = Some m' \<longrightarrow> n \<notin> names m \<and> names m' = insert n (names m))"

section \<open>Properties\<close>

text \<open>
  C20. Whatever sequence of requests the API server admits, no stored book is named Python, a book named Go
  stays until it is updated, and a book without a name can only come from an update.
\<close>

theorem books_invariant:
  assumes "\<forall>k. s k \<noteq> Some ''Python''"
  shows "foldl (admit reads) s rs k \<noteq> Some ''Python'' \<and>
    (foldl (admit reads) s rs k = Some ''Go'' \<longrightarrow> admit reads (foldl (admit reads) s rs) (Delete k) = foldl (admit reads) s rs) \<and>
    (foldl (admit reads) s rs k = Some [] \<longrightarrow> s k = Some [] \<or> Update k [] \<in> set rs)"
proof -
  let ?P = "\<lambda>t. (\<forall>k. t k \<noteq> Some ''Python'') \<and> (\<forall>k. t k = Some [] \<longrightarrow> s k = Some [] \<or> Update k [] \<in> set rs)"
  have "?P (foldl (admit reads) s rs)"
  proof (rule foldl_invariant [where P = ?P])
    show "?P s" using assms by simp
  next
    fix t e assume t: "?P t" and e: "e \<in> set rs"
    show "?P (admit reads t e)" using t e by (cases e) (auto simp: admit_cases)
  qed
  then show ?thesis by (simp add: admit_cases)
qed

theorem books_invariant_witness:
  "foldl (admit (\<lambda>_. True)) Map.empty [Create ''a'' ''Go'', Create ''b'' ''Python'', Delete ''a''] ''a'' = Some ''Go'' \<and>
   foldl (admit (\<lambda>_. True)) Map.empty [Create ''a'' ''Go'', Create ''b'' ''Python'', Delete ''a''] ''b'' \<noteq> Some ''Python''"
  using books_invariant [of Map.empty "\<lambda>_. True" "[Create ''a'' ''Go'', Create ''b'' ''Python'', Delete ''a'']" "''b''"]
  by (simp add: admit_cases)

text \<open>
  C37. \<open>main\<close> appends to two copies of one slice; because Go's first append to a nil slice leaves no spare
  capacity, both servers get the options as if each had a list of its own.
\<close>

theorem tls_slices_as_lists:
  assumes "grow 1 = 1" "server_options grow watcher_ok op fl = Inr (h, opts)"
  shows "(slice_list h (mo_webhook_tls opts), slice_list h (mo_metrics_tls opts)) = tls_reference fl"
  using assms
  by (auto simp: server_options_def go_append_def nil_slice_def slice_list_def tls_reference_def Let_def split: if_splits)

theorem tls_slices_as_lists_witness:
  "\<exists>h opts. server_options (\<lambda>n. n) (\<lambda>_ _ _. True) book_operator ((default_flags book_operator)\<lparr>metrics_cert_path := ''/certs''\<rparr>) = Inr (h, opts) \<and>
    slice_list h (mo_webhook_tls opts) = [Some DisableHttp2, Some (GetCertificateFrom WebhookCert)]"
proof -
  let ?f = "(default_flags book_operator)\<lparr>metrics_cert_path := ''/certs''\<rparr>"
  have "\<exists>h opts. server_options (\<lambda>n. n) (\<lambda>_ _ _. True) book_operator ?f = Inr (h, opts)"
    by (simp add: server_options_def default_flags_def book_operator_def go_append_def nil_slice_def Let_def)
  then obtain h opts where o: "server_options (\<lambda>n. n) (\<lambda>_ _ _. True) book_operator ?f = Inr (h, opts)" by blast
  from tls_slices_as_lists [OF _ o] show ?thesis
    using o by (auto simp: tls_reference_def default_flags_def book_operator_def)
qed

text \<open>With spare capacity the second append would overwrite the first: the webhook server would present
the certificate of the metrics server.\<close>

lemma spare_capacity_shares_certificate:
  assumes "grow 1 = 2" "server_options grow watcher_ok op fl = Inr (h, opts)"
    and "\<not> enable_http2 fl" "webhook_cert_path fl \<noteq> []" "metrics_cert_path fl \<noteq> []"
  shows "slice_list h (mo_webhook_tls opts) = [Some DisableHttp2, Some (GetCertificateFrom MetricsCert)]"
  using assms
  by (auto simp: server_options_def go_append_def nil_slice_def slice_list_def Let_def split: if_splits)

text \<open>
  The Guestbook operator never runs: it sets its controller up twice under one name, and a manager that
  refuses a second controller of a name makes it exit, whatever else works. The Book operator, on a
  manager that refuses nothing else, runs.
\<close>

lemma guestbook_never_runs:
  assumes "unique_names L names"
  shows "guestbook_main grow L fl \<in> {WatcherFailed WebhookCert, WatcherFailed MetricsCert, ManagerFailed, ControllerFailed ''guestbook''}"
proof -
  have "\<exists>n. setup_all (setup_controller L) [''guestbook'', ''guestbook''] m = Inl n \<and> n = ''guestbook''" for m
  proof (cases "setup_all (setup_controller L) [''guestbook'', ''guestbook''] m")
    case (Inl n)
    then show ?thesis using setup_all_fails [OF Inl] by simp
  next
    case (Inr m')
    then have "distinct [''guestbook'', ''guestbook'']"
      using setup_all_names [of "setup_controller L" names] assms unfolding unique_names_def by blast
    then show ?thesis by simp
  qed
  then have "setup_all (setup_controller L) [''guestbook'', ''guestbook''] m = Inl ''guestbook''" for m by blast
  moreover have "w = WebhookCert \<or> w = MetricsCert" for w by (cases w) simp_all
  ultimately show ?thesis
    by (auto simp: guestbook_main_def operator_main_def start_manager_def guestbook_operator_def split: sum.splits option.splits)
qed

text \<open>A manager that keeps the names of its controllers.\<close>

definition name_manager :: "string list manager_lib" where
  "name_manager =
     \<lparr>new_watcher = (\<lambda>_ _ _. True), new_manager = (\<lambda>_. Some []),
      setup_controller = (\<lambda>n m. if n \<in> set m then None else Some (n # m)), setup_webhook = Some,
      add_watcher = (\<lambda>_. Some), add_check = (\<lambda>_. Some), run_manager = (\<lambda>_. True)\<rparr>"

lemma name_manager_unique: "unique_names name_manager set"
  by (auto simp: unique_names_def name_manager_def split: if_splits)

theorem guestbook_never_runs_witness:
  "guestbook_main (\<lambda>n. n) name_manager (default_flags guestbook_operator) = ControllerFailed ''guestbook''"
  using guestbook_never_runs [OF name_manager_unique, of "\<lambda>n. n" "default_flags guestbook_operator"]
  by (auto simp: guestbook_main_def operator_main_def start_manager_def server_options_def name_manager_def guestbook_operator_def default_flags_def
      go_append_def Let_def split: if_splits)

lemma book_operator_runs:
  "book_main (\<lambda>n. n) name_manager (default_flags book_operator) env = Stopped"
  by (simp add: book_main_def operator_main_def start_manager_def server_options_def name_manager_def book_operator_def default_flags_def
      add_if_def Let_def split: prod.splits)

text \<open>Reconciling: only a failing read of the book is tried again, and nothing at all for guestbooks.\<close>

lemma reconcile_results:
  "book_reconcile g = RequeueWith e \<longleftrightarrow> g = GetError e" "guestbook_reconcile le = Reconciled"
  by (auto simp: book_reconcile_def guestbook_reconcile_def split: get_result.splits)

end
