(* ===== verification/PipeCopy.thy ===== *)
theory PipeCopy
  imports GoPrelude
begin

text \<open>
  \<open>io/pipe/main.go\<close>: a goroutine writes into an \<open>io.Pipe\<close> what \<open>main\<close> reads from it. A \<open>Write\<close> offers its
  bytes and returns when reads have taken all of them, a \<open>Read\<close> takes what is offered, at most the
  length of its buffer, and after \<open>CloseWithError\<close> it returns the error, \<open>io.EOF\<close> for nil. \<open>io.Copy\<close> into a
  \<open>bytes.Buffer\<close> reads with buffers of the sizes the buffer happens to have free, at least one byte.
\<close>

section \<open>The program\<close>

datatype 'e iopipe_line =
  Wrote string | ReadLine string | SawEOF | SawError 'e
| Streamed nat | FailedAfter nat 'e | Copied nat string | CopyError 'e

text \<open>What distinguishes \<open>manualPipe\<close> from \<open>snapshotStyle\<close>: the slices written, the lines printed, the size of the
buffer of each \<open>Read\<close> and the error the pipe is closed with.\<close>

record 'e iopipe_prog =
  chunks :: "string list"
  verbose :: bool
  buf_size :: "nat \<Rightarrow> nat"
  fault :: "'e option"

definition closing_lines :: "'e iopipe_prog \<Rightarrow> 'e iopipe_line list" where
  "closing_lines p =
     (let n = length (concat (chunks p))
      in if verbose p then [] else [case fault p of None \<Rightarrow> Streamed n | Some e \<Rightarrow> FailedAfter n e])"

definition ending_line :: "'e iopipe_prog \<Rightarrow> string \<Rightarrow> 'e iopipe_line" where
  "ending_line p received =
     (if verbose p then (case fault p of None \<Rightarrow> SawEOF | Some e \<Rightarrow> SawError e)
      else (case fault p of None \<Rightarrow> Copied (length received) received | Some e \<Rightarrow> CopyError e))"

text \<open>\<open>announced\<close>: the line of the first slice of \<open>todo\<close> is printed but its bytes are not offered yet. \<open>held\<close>: what
the last \<open>Read\<close> returned, whose line is not printed yet.\<close>

record 'e iopipe_run =
  todo :: "string list"
  announced :: bool
  offered :: "string option"
  iopipe_closed :: bool
  held :: "string option"
  got :: "string list"
  log :: "'e iopipe_line list"
  over :: bool

definition iopipe_start :: "'e iopipe_prog \<Rightarrow> 'e iopipe_run" where
  "iopipe_start p = \<lparr>todo = chunks p, announced = False, offered = None, iopipe_closed = False, held = None,
     got = [], log = [], over = False\<rparr>"

inductive iopipe_step :: "'e iopipe_prog \<Rightarrow> 'e iopipe_run \<Rightarrow> 'e iopipe_run \<Rightarrow> bool" for p where
  announce [go_intros]: "todo s = c # cs \<Longrightarrow> \<not> announced s \<Longrightarrow> offered s = None \<Longrightarrow>
     iopipe_step p s (s\<lparr>announced := True, log := log s @ (if verbose p then [Wrote c] else [])\<rparr>)"
| offer [go_intros]: "todo s = c # cs \<Longrightarrow> announced s \<Longrightarrow>
     iopipe_step p s (s\<lparr>todo := cs, announced := False, offered := Some c\<rparr>)"
| read_some [go_intros]: "offered s = Some b \<Longrightarrow> held s = None \<Longrightarrow> n = buf_size p (length (got s)) \<Longrightarrow>
     iopipe_step p s (s\<lparr>offered := (if drop n b = [] then None else Some (drop n b)), held := Some (take n b),
       got := got s @ [take n b]\<rparr>)"
| show_read [go_intros]: "held s = Some x \<Longrightarrow>
     iopipe_step p s (s\<lparr>held := None, log := log s @ (if verbose p \<and> x \<noteq> [] then [ReadLine x] else [])\<rparr>)"
| close_pipe [go_intros]: "todo s = [] \<Longrightarrow> offered s = None \<Longrightarrow> \<not> iopipe_closed s \<Longrightarrow>
     iopipe_step p s (s\<lparr>iopipe_closed := True, log := log s @ closing_lines p\<rparr>)"
| read_end [go_intros]: "iopipe_closed s \<Longrightarrow> held s = None \<Longrightarrow> \<not> over s \<Longrightarrow>
     iopipe_step p s (s\<lparr>over := True, log := log s @ [ending_line p (concat (got s))]\<rparr>)"

inductive_cases iopipe_stepE: "iopipe_step p s t"

definition manual_pipe :: "string iopipe_prog" where
  "manual_pipe = \<lparr>chunks = [''hello '', ''from '', ''pipe''], verbose = True, buf_size = (\<lambda>_. 5), fault = None\<rparr>"

text \<open>A \<open>strings.Reader\<close> hands all its bytes to the pipe in one \<open>Write\<close>. \<open>free\<close> is the room of the buffer.\<close>

definition pages :: string where
  "pages = ''db-page-1'' @ [CHR 0x0A] @ ''db-page-2'' @ [CHR 0x0A] @ ''db-page-3'' @ [CHR 0x0A]"

definition snapshot_style :: "(nat \<Rightarrow> nat) \<Rightarrow> string iopipe_prog" where
  "snapshot_style free = \<lparr>chunks = [pages], verbose = False, buf_size = free, fault = None\<rparr>"

text \<open>Between two buffers in memory \<open>io.Copy\<close> is one write.\<close>

definition copy_demo :: "string iopipe_line" where
  "copy_demo = (let dst = ''raft snapshot bytes'' in Copied (length dst) dst)"

inductive iopipe_main :: "(nat \<Rightarrow> nat) \<Rightarrow> string iopipe_line list \<Rightarrow> bool" for free where
  "(iopipe_step manual_pipe)\<^sup>*\<^sup>* (iopipe_start manual_pipe) s \<Longrightarrow> over s \<Longrightarrow>
   (iopipe_step (snapshot_style free))\<^sup>*\<^sup>* (iopipe_start (snapshot_style free)) t \<Longrightarrow> over t \<Longrightarrow>
   iopipe_main free (log s @ [copy_demo] @ log t)"

section \<open>No byte is lost, repeated or reordered\<close>

definition in_flight :: "'e iopipe_run \<Rightarrow> string" where
  "in_flight s = (case offered s of None \<Rightarrow> [] | Some b \<Rightarrow> b)"

definition iopipe_inv :: "'e iopipe_prog \<Rightarrow> 'e iopipe_run \<Rightarrow> bool" where
  "iopipe_inv p s \<longleftrightarrow> concat (got s) @ in_flight s @ concat (todo s) = concat (chunks p) \<and>
     (announced s \<longrightarrow> todo s \<noteq> [] \<and> offered s = None) \<and>
     (iopipe_closed s \<longrightarrow> todo s = [] \<and> offered s = None) \<and>
     (over s \<longrightarrow> iopipe_closed s \<and> held s = None)"

lemma take_drop_append [simp]: "take n b @ drop n b @ xs = b @ xs"
  by (simp flip: append_assoc)

lemma iopipe_inv_step: "iopipe_inv p s \<Longrightarrow> iopipe_step p s t \<Longrightarrow> iopipe_inv p t"
  by (erule iopipe_stepE) (auto simp: iopipe_inv_def in_flight_def append_eq_append_conv2)

interpretation iopipe: step_invariant "\<lambda>s. s = iopipe_start p" "iopipe_step p" "iopipe_inv p" for p
proof
  show "\<And>s. s = iopipe_start p \<Longrightarrow> iopipe_inv p s" by (simp add: iopipe_inv_def iopipe_start_def in_flight_def)
qed (rule iopipe_inv_step)

section \<open>Every run ends\<close>

definition slice_work :: "string \<Rightarrow> nat" where
  "slice_work b = 2 * max 1 (length b)"

definition iopipe_left :: "'e iopipe_run \<Rightarrow> nat" where
  "iopipe_left s = sum_list (map (\<lambda>c. slice_work c + 2) (todo s)) - (if announced s then 1 else 0)
     + (case offered s of None \<Rightarrow> 0 | Some b \<Rightarrow> slice_work b) + (if held s = None then 0 else 1)
     + (if iopipe_closed s then 0 else 1) + (if over s then 0 else 1)"

lemma iopipe_left_less:
  assumes "iopipe_inv p s" "\<forall>i. 0 < buf_size p i" "iopipe_step p s t"
  shows "iopipe_left t < iopipe_left s"
  using assms(3)
proof cases
  case (read_some b n)
  have "0 < n" using assms(2) read_some by simp
  then show ?thesis using read_some assms(1) by (auto simp: iopipe_left_def slice_work_def iopipe_inv_def)
qed (use assms(1) in \<open>auto simp: iopipe_left_def slice_work_def iopipe_inv_def\<close>)

lemma iopipe_moves:
  assumes "iopipe_inv p s" "\<not> over s"
  shows "\<exists>t. iopipe_step p s t"
  using assms
  by (cases "held s"; cases "offered s"; cases "todo s"; cases "announced s"; cases "iopipe_closed s")
    (auto simp: iopipe_inv_def intro: iopipe_step.intros)

text \<open>A reader whose buffer has room each time.\<close>

definition iopipe_reads :: "'e iopipe_prog \<Rightarrow> 'e iopipe_run \<Rightarrow> bool" where
  "iopipe_reads p s \<longleftrightarrow> iopipe_inv p s \<and> (\<forall>i. 0 < buf_size p i)"

interpretation iopipe_ended: ending_run "\<lambda>s. s = iopipe_start p \<and> (\<forall>i. 0 < buf_size p i)" "iopipe_step p" "iopipe_reads p" iopipe_left over for p
proof
  fix s t
  show less: "iopipe_left t < iopipe_left s" if "iopipe_reads p s" "iopipe_step p s t" for s t
    using that iopipe_left_less unfolding iopipe_reads_def by blast
  show "iopipe_reads p t" if "iopipe_reads p s" "iopipe_step p s t"
    using that iopipe_inv_step unfolding iopipe_reads_def by blast
  show "\<exists>t. iopipe_step p s t \<and> iopipe_left t < iopipe_left s" if "iopipe_reads p s" "\<not> over s"
    using that iopipe_moves less unfolding iopipe_reads_def by blast
qed (use iopipe.inv_init in \<open>auto simp: iopipe_reads_def\<close>)

section \<open>What is printed\<close>

fun wrote_lines :: "'e iopipe_line list \<Rightarrow> string list" where
  "wrote_lines [] = []"
| "wrote_lines (Wrote c # ls) = c # wrote_lines ls"
| "wrote_lines (_ # ls) = wrote_lines ls"

fun read_lines :: "'e iopipe_line list \<Rightarrow> string list" where
  "read_lines [] = []"
| "read_lines (ReadLine c # ls) = c # read_lines ls"
| "read_lines (_ # ls) = read_lines ls"

lemma wrote_lines_append [simp]: "wrote_lines (xs @ ys) = wrote_lines xs @ wrote_lines ys"
  by (induction xs rule: wrote_lines.induct) auto

lemma read_lines_append [simp]: "read_lines (xs @ ys) = read_lines xs @ read_lines ys"
  by (induction xs rule: read_lines.induct) auto

lemma other_lines [simp]:
  "wrote_lines (closing_lines p) = []" "read_lines (closing_lines p) = []"
  "wrote_lines [ending_line p x] = []" "read_lines [ending_line p x] = []"
  by (auto simp: closing_lines_def ending_line_def Let_def split: option.splits)

definition held_lines :: "'e iopipe_run \<Rightarrow> string list" where
  "held_lines s = filter (\<lambda>x. x \<noteq> []) (case held s of None \<Rightarrow> [] | Some x \<Rightarrow> [x])"

definition iopipe_log_inv :: "'e iopipe_prog \<Rightarrow> 'e iopipe_run \<Rightarrow> bool" where
  "iopipe_log_inv p s \<longleftrightarrow> iopipe_inv p s \<and>
     (verbose p \<longrightarrow> wrote_lines (log s) @ (if announced s then tl (todo s) else todo s) = chunks p \<and>
        read_lines (log s) @ held_lines s = filter (\<lambda>x. x \<noteq> []) (got s) \<and>
        (over s \<longrightarrow> (\<exists>ls x. log s = ls @ [ending_line p x]))) \<and>
     (\<not> verbose p \<longrightarrow> log s = (if iopipe_closed s then closing_lines p else []) @
        (if over s then [ending_line p (concat (got s))] else []))"

lemma iopipe_log_inv_step:
  assumes "iopipe_log_inv p s" "iopipe_step p s t"
  shows "iopipe_log_inv p t"
proof -
  have t: "iopipe_inv p t" and s: "iopipe_inv p s" using assms iopipe_inv_step by (auto simp: iopipe_log_inv_def)
  note inv = assms(1) [unfolded iopipe_log_inv_def]
  from assms(2) show ?thesis
    by cases (use t s inv in \<open>cases "verbose p";
      auto simp: iopipe_log_inv_def iopipe_inv_def held_lines_def closing_lines_def\<close>)+
qed

interpretation iopipe_log: step_invariant "\<lambda>s. s = iopipe_start p" "iopipe_step p" "iopipe_log_inv p" for p
proof
  show "\<And>s. s = iopipe_start p \<Longrightarrow> iopipe_log_inv p s"
    by (simp add: iopipe_log_inv_def iopipe_start_def iopipe_inv_def in_flight_def held_lines_def)
qed (rule iopipe_log_inv_step)

text \<open>With a buffer of one size the reads are the pieces of the slices: no read spans two writes.\<close>

function pieces :: "nat \<Rightarrow> string \<Rightarrow> string list" where
  "pieces k b = (if k = 0 \<or> length b \<le> k then [b] else take k b # pieces k (drop k b))"
  by auto

termination
  by (relation "measure (\<lambda>(k, b). length b)") auto

declare pieces.simps [simp del]

definition flying :: "nat \<Rightarrow> 'e iopipe_run \<Rightarrow> string list" where
  "flying k s = (case offered s of None \<Rightarrow> [] | Some b \<Rightarrow> pieces k b)"

definition piece_inv :: "nat \<Rightarrow> 'e iopipe_prog \<Rightarrow> 'e iopipe_run \<Rightarrow> bool" where
  "piece_inv k p s \<longleftrightarrow> iopipe_inv p s \<and> got s @ flying k s @ concat (map (pieces k) (todo s)) = concat (map (pieces k) (chunks p))"

lemma piece_inv_step:
  assumes "piece_inv k p s" "buf_size p = (\<lambda>_. k)" "0 < k" "iopipe_step p s t"
  shows "piece_inv k p t"
proof -
  have inv: "iopipe_inv p s" "iopipe_inv p t" using assms iopipe_inv_step by (auto simp: piece_inv_def)
  from assms(4) show ?thesis
  proof cases
    case (read_some b n)
    have "flying k s = take k b # flying k t"
      using read_some assms(2,3) pieces.simps [of k b] by (auto simp: flying_def)
    then show ?thesis using assms(1,2) inv read_some by (simp add: piece_inv_def)
  qed (use assms(1) inv in \<open>auto simp: piece_inv_def flying_def iopipe_inv_def\<close>)
qed

lemma piece_inv_start: "piece_inv k p (iopipe_start p)"
  by (simp add: piece_inv_def iopipe_start_def iopipe_inv_def in_flight_def flying_def)

lemma pieces_of_reads:
  assumes "buf_size p = (\<lambda>_. k)" "0 < k" "(iopipe_step p)\<^sup>*\<^sup>* (iopipe_start p) s" "over s"
  shows "got s = concat (map (pieces k) (chunks p))"
proof -
  have "piece_inv k p s"
    using assms(3) by (induction rule: rtranclp_induct) (auto intro: piece_inv_start piece_inv_step [OF _ assms(1,2)])
  then show ?thesis using assms(4) by (auto simp: piece_inv_def iopipe_inv_def flying_def)
qed

lemma over_facts:
  assumes "(iopipe_step p)\<^sup>*\<^sup>* (iopipe_start p) s" "over s"
  shows "concat (got s) = concat (chunks p)"
    and "verbose p \<Longrightarrow> wrote_lines (log s) = chunks p \<and> read_lines (log s) = filter (\<lambda>x. x \<noteq> []) (got s) \<and>
      (\<exists>ls x. log s = ls @ [ending_line p x])"
    and "\<not> verbose p \<Longrightarrow> log s = closing_lines p @ [ending_line p (concat (chunks p))]"
proof -
  have inv: "iopipe_log_inv p s" by (rule iopipe_log.inv_reachable [OF refl assms(1)])
  then show "concat (got s) = concat (chunks p)" using assms(2) by (auto simp: iopipe_log_inv_def iopipe_inv_def in_flight_def)
  with inv assms(2) show "\<not> verbose p \<Longrightarrow> log s = closing_lines p @ [ending_line p (concat (chunks p))]"
    by (auto simp: iopipe_log_inv_def iopipe_inv_def)
  from inv assms(2) show "verbose p \<Longrightarrow> wrote_lines (log s) = chunks p \<and> read_lines (log s) = filter (\<lambda>x. x \<noteq> []) (got s) \<and>
      (\<exists>ls x. log s = ls @ [ending_line p x])"
    by (auto simp: iopipe_log_inv_def iopipe_inv_def held_lines_def)
qed

text \<open>
  Whatever slices are written and whatever the sizes of the buffers they are read into, provided
  none is empty: each step leaves less to do, until the reader has the end some step is possible, and
  then it has got all the bytes written, in order; the snapshot's receiver shows them or the error.
\<close>

lemma iopipe_delivers:
  assumes "\<forall>i. 0 < buf_size p i" "(iopipe_step p)\<^sup>*\<^sup>* (iopipe_start p) s"
  shows "(\<forall>t. iopipe_step p s t \<longrightarrow> iopipe_left t < iopipe_left s) \<and> (\<not> over s \<longrightarrow> (\<exists>t. iopipe_step p s t)) \<and>
    (over s \<longrightarrow> concat (got s) = concat (chunks p) \<and>
       (\<not> verbose p \<longrightarrow> log s = closing_lines p @ [ending_line p (concat (chunks p))]))"
proof -
  have "iopipe_inv p s" by (rule iopipe.inv_reachable [OF refl assms(2)])
  then show ?thesis
    using iopipe_left_less [OF _ assms(1)] iopipe_moves over_facts(1,3) [OF assms(2)] by auto
qed

lemma manual_lines:
  assumes "(iopipe_step manual_pipe)\<^sup>*\<^sup>* (iopipe_start manual_pipe) s" "over s"
  shows "wrote_lines (log s) = [''hello '', ''from '', ''pipe''] \<and>
    read_lines (log s) = [''hello'', '' '', ''from '', ''pipe''] \<and> last (log s) = SawEOF"
proof -
  have "got s = concat (map (pieces 5) (chunks manual_pipe))"
    by (rule pieces_of_reads [OF _ _ assms]) (simp_all add: manual_pipe_def)
  then have "got s = [''hello'', '' '', ''from '', ''pipe'']"
    by (simp add: manual_pipe_def pieces.simps)
  then show ?thesis using over_facts(2) [OF assms] by (auto simp: manual_pipe_def ending_line_def)
qed

text \<open>
  Every output of the program: the writer's lines show its three slices and the reader's the same
  text cut at the slices and at five bytes, up to the end of the stream; then come the 19 bytes
  copied in memory and the 30 bytes of the pages, sent and received; and there is such an output.
\<close>

lemma iopipe_main_output:
  assumes "\<forall>i. 0 < free i"
  shows "(\<exists>ls. iopipe_main free ls) \<and>
    (\<forall>ls. iopipe_main free ls \<longrightarrow> wrote_lines ls = [''hello '', ''from '', ''pipe''] \<and>
       read_lines ls = [''hello'', '' '', ''from '', ''pipe''] \<and>
       (\<exists>pre. ls = pre @ [SawEOF, Copied 19 ''raft snapshot bytes'', Streamed 30, Copied 30 pages]))"
proof
  have m: "\<forall>i. 0 < buf_size manual_pipe i" and f: "\<forall>i. 0 < buf_size (snapshot_style free) i"
    using assms by (simp_all add: manual_pipe_def snapshot_style_def)
  have reads: "iopipe_reads p (iopipe_start p)" if "\<forall>i. 0 < buf_size p i" for p :: "string iopipe_prog"
    using that iopipe_ended.inv_init by blast
  show "\<exists>ls. iopipe_main free ls"
    using iopipe_ended.ends [OF reads [OF m]] iopipe_ended.ends [OF reads [OF f]] by (meson iopipe_main.intros)
  show "\<forall>ls. iopipe_main free ls \<longrightarrow> wrote_lines ls = [''hello '', ''from '', ''pipe''] \<and>
       read_lines ls = [''hello'', '' '', ''from '', ''pipe''] \<and>
       (\<exists>pre. ls = pre @ [SawEOF, Copied 19 ''raft snapshot bytes'', Streamed 30, Copied 30 pages])"
  proof (intro allI impI)
    fix ls assume "iopipe_main free ls"
    then show "wrote_lines ls = [''hello '', ''from '', ''pipe''] \<and>
       read_lines ls = [''hello'', '' '', ''from '', ''pipe''] \<and>
       (\<exists>pre. ls = pre @ [SawEOF, Copied 19 ''raft snapshot bytes'', Streamed 30, Copied 30 pages])"
    proof cases
      case (1 s t)
      have t: "log t = [Streamed 30, Copied 30 pages]"
        using over_facts(3) [OF 1(4,5)]
        by (simp add: snapshot_style_def closing_lines_def ending_line_def) (simp add: pages_def)
      have e: "\<exists>ls x. log s = ls @ [ending_line manual_pipe x]"
        using over_facts(2) [OF 1(2,3)] by (simp add: manual_pipe_def)
      then have "\<exists>pre. log s = pre @ [SawEOF]" by (auto simp: ending_line_def manual_pipe_def)
      then show ?thesis using manual_lines [OF 1(2,3)] unfolding 1(1) t by (auto simp: copy_demo_def)
    qed
  qed
qed

theorem iopipe_main_output_witness:
  "\<exists>ls. iopipe_main (\<lambda>_. 512) ls \<and> read_lines ls = [''hello'', '' '', ''from '', ''pipe'']"
  using iopipe_main_output [of "\<lambda>_. 512"] by auto

theorem iopipe_delivers_witness:
  "\<exists>s. (iopipe_step (snapshot_style (\<lambda>i. Suc i)))\<^sup>*\<^sup>* (iopipe_start (snapshot_style (\<lambda>i. Suc i))) s \<and> over s \<and> concat (got s) = pages"
proof -
  let ?p = "snapshot_style (\<lambda>i. Suc i)"
  have f: "\<forall>i. 0 < buf_size ?p i" by (simp add: snapshot_style_def)
  obtain s where s: "(iopipe_step ?p)\<^sup>*\<^sup>* (iopipe_start ?p) s" "over s"
    using iopipe_ended.ends_from_start [of "iopipe_start ?p" ?p] f by blast
  then show ?thesis using iopipe_delivers [OF f s(1)] by (auto simp: snapshot_style_def)
qed

end
