(* ===== verification/ShortUrl.thy ===== *)
theory ShortUrl
  imports GoPrelude
begin

text \<open>
  The short URL service (\<open>go-zero/shorturl\<close>): the HTTP handlers and the logic of the API, which calls the
  RPC service, the logic of the RPC service, and the model over its table. MD5 and go-zero's cached
  connection are parameters; \<open>conn_lawful\<close> says what a table with a primary key keeps. An error of the
  connection does not say whether the statement took effect.
\<close>

section \<open>The model\<close>

datatype model_error = ErrNotFound | ConnError string

datatype url_stmt = InsertUrl string string | UpdateUrl string string | DeleteUrl string

record 's cached_conn =
  md5_hex :: "string \<Rightarrow> string"
  exec_ctx :: "url_stmt \<Rightarrow> string \<Rightarrow> 's \<Rightarrow> 's \<times> model_error option"
  query_row_ctx :: "string \<Rightarrow> string \<Rightarrow> 's \<Rightarrow> 's \<times> (model_error, string) result"

definition cache_key :: "string \<Rightarrow> string" where
  "cache_key shorten = ''cache:shorturl:shorten:'' @ shorten"

definition insert_url :: "'s cached_conn \<Rightarrow> string \<Rightarrow> string \<Rightarrow> 's \<Rightarrow> 's \<times> model_error option" where
  "insert_url C shorten url s = exec_ctx C (InsertUrl shorten url) (cache_key shorten) s"

definition update_url :: "'s cached_conn \<Rightarrow> string \<Rightarrow> string \<Rightarrow> 's \<Rightarrow> 's \<times> model_error option" where
  "update_url C shorten url s = exec_ctx C (UpdateUrl url shorten) (cache_key shorten) s"

definition delete_url :: "'s cached_conn \<Rightarrow> string \<Rightarrow> 's \<Rightarrow> 's \<times> model_error option" where
  "delete_url C shorten s = exec_ctx C (DeleteUrl shorten) (cache_key shorten) s"

definition find_one :: "'s cached_conn \<Rightarrow> string \<Rightarrow> 's \<Rightarrow> 's \<times> (model_error, string) result" where
  "find_one C shorten s =
     (case query_row_ctx C (cache_key shorten) shorten s of
        (s', Inr url) \<Rightarrow> (s', Inr url)
      | (s', Inl ErrNotFound) \<Rightarrow> (s', Inl ErrNotFound)
      | (s', Inl e) \<Rightarrow> (s', Inl e))"

section \<open>The services\<close>

definition shorten_rpc :: "'s cached_conn \<Rightarrow> string \<Rightarrow> 's \<Rightarrow> 's \<times> (model_error, string) result" where
  "shorten_rpc C url s =
     (let key = take 6 (md5_hex C url)
      in case insert_url C key url s of
           (s', Some e) \<Rightarrow> (s', Inl e)
         | (s', None) \<Rightarrow> (s', Inr key))"

definition expand_rpc :: "'s cached_conn \<Rightarrow> string \<Rightarrow> 's \<Rightarrow> 's \<times> (model_error, string) result" where
  "expand_rpc C shorten s =
     (case find_one C shorten s of
        (s', Inl e) \<Rightarrow> (s', Inl e)
      | (s', Inr url) \<Rightarrow> (s', Inr url))"

text \<open>A request as it arrives: \<open>None\<close> stands for one that does not parse.\<close>

datatype api_request = ShortenReq "string option" | ExpandReq "string option"

datatype api_response = BadRequest | ServiceError model_error | ShortenOk string | ExpandOk string

definition api_shorten :: "'s cached_conn \<Rightarrow> string \<Rightarrow> 's \<Rightarrow> 's \<times> (model_error, string) result" where
  "api_shorten C url s =
     (case shorten_rpc C url s of
        (s', Inl e) \<Rightarrow> (s', Inl e)
      | (s', Inr key) \<Rightarrow> (s', Inr key))"

definition api_expand :: "'s cached_conn \<Rightarrow> string \<Rightarrow> 's \<Rightarrow> 's \<times> (model_error, string) result" where
  "api_expand C key s =
     (case expand_rpc C key s of
        (s', Inl e) \<Rightarrow> (s', Inl e)
      | (s', Inr url) \<Rightarrow> (s', Inr url))"

definition shorten_handler :: "'s cached_conn \<Rightarrow> string option \<Rightarrow> 's \<Rightarrow> 's \<times> api_response" where
  "shorten_handler C parsed s =
     (case parsed of
        None \<Rightarrow> (s, BadRequest)
      | Some url \<Rightarrow>
          (case api_shorten C url s of
             (s', Inl e) \<Rightarrow> (s', ServiceError e)
           | (s', Inr key) \<Rightarrow> (s', ShortenOk key)))"

definition expand_handler :: "'s cached_conn \<Rightarrow> string option \<Rightarrow> 's \<Rightarrow> 's \<times> api_response" where
  "expand_handler C parsed s =
     (case parsed of
        None \<Rightarrow> (s, BadRequest)
      | Some key \<Rightarrow>
          (case api_expand C key s of
             (s', Inl e) \<Rightarrow> (s', ServiceError e)
           | (s', Inr url) \<Rightarrow> (s', ExpandOk url)))"

fun api_handler :: "'s cached_conn \<Rightarrow> api_request \<Rightarrow> 's \<Rightarrow> 's \<times> api_response" where
  "api_handler C (ShortenReq q) s = shorten_handler C q s"
| "api_handler C (ExpandReq q) s = expand_handler C q s"

fun serve :: "'s cached_conn \<Rightarrow> api_request list \<Rightarrow> 's \<Rightarrow> 's \<times> api_response list" where
  "serve C [] s = (s, [])"
| "serve C (r # rs) s =
     (case api_handler C r s of (s1, a) \<Rightarrow> (case serve C rs s1 of (s2, as) \<Rightarrow> (s2, a # as)))"

section \<open>The table\<close>

text \<open>\<open>rows\<close> is the table of a state. A row is inserted only under a key that has none; what a query returns is
the row, while \<open>ErrNotFound\<close> may also come from a stale entry of the cache.\<close>

definition conn_lawful :: "'s cached_conn \<Rightarrow> ('s \<Rightarrow> (string \<rightharpoonup> string)) \<Rightarrow> bool" where
  "conn_lawful C rows \<longleftrightarrow>
     (\<forall>k u ck s s'. exec_ctx C (InsertUrl k u) ck s = (s', None) \<longrightarrow> rows s k = None \<and> rows s' = (rows s)(k \<mapsto> u)) \<and>
     (\<forall>k u ck s s' e. exec_ctx C (InsertUrl k u) ck s = (s', Some e) \<longrightarrow>
        rows s' = rows s \<or> rows s k = None \<and> rows s' = (rows s)(k \<mapsto> u)) \<and>
     (\<forall>k ck s s' r. query_row_ctx C ck k s = (s', r) \<longrightarrow> rows s' = rows s \<and> (\<forall>u. r = Inr u \<longrightarrow> rows s k = Some u))"

lemma lawful_insert:
  "conn_lawful C rows \<Longrightarrow> exec_ctx C (InsertUrl k u) ck s = (s', None) \<Longrightarrow> rows s k = None \<and> rows s' = (rows s)(k \<mapsto> u)"
  unfolding conn_lawful_def by blast

lemma lawful_insert_any:
  "conn_lawful C rows \<Longrightarrow> exec_ctx C (InsertUrl k u) ck s = (s', r) \<Longrightarrow>
     rows s' = rows s \<or> rows s k = None \<and> rows s' = (rows s)(k \<mapsto> u)"
  unfolding conn_lawful_def by (cases r) blast+

lemma lawful_query:
  "conn_lawful C rows \<Longrightarrow> query_row_ctx C ck k s = (s', r) \<Longrightarrow> rows s' = rows s \<and> (\<forall>u. r = Inr u \<longrightarrow> rows s k = Some u)"
  unfolding conn_lawful_def by blast

lemma find_one_is_query: "find_one C k s = query_row_ctx C (cache_key k) k s"
  by (auto simp: find_one_def split: prod.splits sum.splits model_error.splits)

text \<open>Every key is the prefix of its URL's digest.\<close>

definition keys_ok :: "'s cached_conn \<Rightarrow> (string \<rightharpoonup> string) \<Rightarrow> bool" where
  "keys_ok C m \<longleftrightarrow> (\<forall>k u. m k = Some u \<longrightarrow> k = take 6 (md5_hex C u))"

lemma shorten_rows:
  assumes "conn_lawful C rows" "shorten_rpc C u s = (s', r)"
  shows "rows s \<subseteq>\<^sub>m rows s'" "keys_ok C (rows s) \<Longrightarrow> keys_ok C (rows s')"
    and "\<And>k. r = Inr k \<Longrightarrow> k = take 6 (md5_hex C u) \<and> rows s k = None \<and> rows s' k = Some u"
proof -
  obtain e where i: "exec_ctx C (InsertUrl (take 6 (md5_hex C u)) u) (cache_key (take 6 (md5_hex C u))) s = (s', e)"
      and r: "r = (case e of Some e \<Rightarrow> Inl e | None \<Rightarrow> Inr (take 6 (md5_hex C u)))"
    using assms(2) by (auto simp: shorten_rpc_def insert_url_def Let_def split: prod.splits option.splits)
  from lawful_insert_any [OF assms(1) i] show "rows s \<subseteq>\<^sub>m rows s'" "keys_ok C (rows s) \<Longrightarrow> keys_ok C (rows s')"
    by (auto simp: map_le_def keys_ok_def split: if_splits)
  fix k assume "r = Inr k"
  then have "e = None" "k = take 6 (md5_hex C u)" using r by (cases e; simp)+
  then show "k = take 6 (md5_hex C u) \<and> rows s k = None \<and> rows s' k = Some u"
    using lawful_insert [OF assms(1), of _ _ _ s s'] i by fastforce
qed

lemma expand_rows:
  assumes "conn_lawful C rows" "expand_rpc C k s = (s', r)"
  shows "rows s' = rows s" "r = Inr u \<Longrightarrow> rows s k = Some u"
proof -
  have "query_row_ctx C (cache_key k) k s = (s', r)"
    using assms(2) by (auto simp: expand_rpc_def find_one_is_query split: prod.splits sum.splits)
  from lawful_query [OF assms(1) this] show "rows s' = rows s" "r = Inr u \<Longrightarrow> rows s k = Some u" by auto
qed

lemma api_rows:
  assumes "conn_lawful C rows" "api_handler C q s = (s', a)"
  shows "rows s \<subseteq>\<^sub>m rows s'" "keys_ok C (rows s) \<Longrightarrow> keys_ok C (rows s')"
  using assms shorten_rows(1,2) [OF assms(1)] expand_rows(1) [OF assms(1)]
  by (cases q; fastforce simp: shorten_handler_def expand_handler_def api_shorten_def api_expand_def
      split: option.splits prod.splits sum.splits)+

lemma serve_rows:
  assumes "conn_lawful C rows"
  shows "serve C qs s = (s', as) \<Longrightarrow> rows s \<subseteq>\<^sub>m rows s' \<and> (keys_ok C (rows s) \<longrightarrow> keys_ok C (rows s'))"
proof (induction qs arbitrary: s "as")
  case (Cons q qs)
  obtain s1 a bs where 1: "api_handler C q s = (s1, a)" "serve C qs s1 = (s', bs)"
    using Cons.prems by (auto split: prod.splits)
  show ?case using api_rows [OF assms 1(1)] Cons.IH [OF 1(2)] by (auto intro: map_le_trans)
qed simp

text \<open>
  C30. A short URL is permanent, and given once: when a URL has been shortened, then after whatever
  requests an expansion of its key that is answered is answered with this URL, and no URL with the
  same key, the URL itself included, can be shortened again.
\<close>

theorem shorturl_permanent:
  assumes "conn_lawful C rows" and first: "shorten_rpc C url s = (s1, Inr key)" and rest: "serve C qs s1 = (s2, as)"
  shows "(expand_rpc C key s2 = (s3, Inr url') \<longrightarrow> url' = url) \<and>
    (take 6 (md5_hex C url2) = key \<longrightarrow> (\<exists>e. snd (shorten_rpc C url2 s2) = Inl e)) \<and>
    take 6 (md5_hex C url) = key"
proof -
  have k: "key = take 6 (md5_hex C url)" "rows s1 key = Some url"
    using shorten_rows(3) [OF assms(1) first refl] by blast+
  have row: "rows s2 key = Some url"
    using serve_rows [OF assms(1) rest] k(2) by (metis domI map_le_def)
  have "\<exists>e. snd (shorten_rpc C url2 s2) = Inl e" if "take 6 (md5_hex C url2) = key"
  proof (cases "shorten_rpc C url2 s2")
    case (Pair s4 r)
    show ?thesis using shorten_rows(3) [OF assms(1) Pair] row that Pair by (cases r) auto
  qed
  then show ?thesis using expand_rows(2) [OF assms(1)] row k(1) by fastforce
qed

text \<open>
  Whatever the connection answers, an expansion never invents: every URL the service gives for a
  key has the key as the prefix of its digest, when this holds of the table at the start.
\<close>

lemma expand_honest:
  assumes "conn_lawful C rows" "keys_ok C (rows s)" "serve C qs s = (s1, as)" "expand_rpc C key s1 = (s2, Inr url)"
  shows "key = take 6 (md5_hex C url)"
  using serve_rows [OF assms(1,3)] assms(2) expand_rows(2) [OF assms(1,4) refl] expand_rows(1) [OF assms(1,4)]
  unfolding keys_ok_def by blast

text \<open>A connection whose statements always take effect, over a digest that keeps the first letters.\<close>

definition plain_conn :: "(string \<rightharpoonup> string) cached_conn" where
  "plain_conn =
     \<lparr>md5_hex = (\<lambda>u. u @ ''000000''),
      exec_ctx = (\<lambda>st _ m. case st of
          InsertUrl k u \<Rightarrow> (case m k of None \<Rightarrow> (m(k \<mapsto> u), None) | Some _ \<Rightarrow> (m, Some (ConnError ''Duplicate entry'')))
        | UpdateUrl u k \<Rightarrow> (m(k := map_option (\<lambda>_. u) (m k)), None)
        | DeleteUrl k \<Rightarrow> (m(k := None), None)),
      query_row_ctx = (\<lambda>_ k m. (m, case m k of None \<Rightarrow> Inl ErrNotFound | Some u \<Rightarrow> Inr u))\<rparr>"

lemma plain_conn_lawful: "conn_lawful plain_conn (\<lambda>m. m)"
  unfolding conn_lawful_def
proof (intro conjI allI impI)
  fix k u ck e and m m' :: "string \<rightharpoonup> string"
  show "m k = None" "m' = m(k \<mapsto> u)" if "exec_ctx plain_conn (InsertUrl k u) ck m = (m', None)"
    using that by (cases "m k"; simp add: plain_conn_def)+
  show "m' = m \<or> m k = None \<and> m' = m(k \<mapsto> u)" if "exec_ctx plain_conn (InsertUrl k u) ck m = (m', Some e)"
    using that by (cases "m k") (simp_all add: plain_conn_def)
next
  fix k ck r u and m m' :: "string \<rightharpoonup> string"
  assume q: "query_row_ctx plain_conn ck k m = (m', r)"
  then show "m' = m" by (simp add: plain_conn_def)
  assume "r = Inr u"
  with q show "m k = Some u" by (cases "m k") (simp_all add: plain_conn_def)
qed

theorem shorturl_permanent_witness:
  "expand_rpc plain_conn ''abcdef'' (fst (serve plain_conn [ShortenReq (Some ''abcdefgh''), ExpandReq (Some ''x'')]
      (fst (shorten_rpc plain_conn ''abcdefg'' Map.empty)))) = ([''abcdef'' \<mapsto> ''abcdefg''], Inr ''abcdefg'') \<and>
   (\<exists>e. snd (shorten_rpc plain_conn ''abcdefg'' [''abcdef'' \<mapsto> ''abcdefg'']) = Inl e)"
proof -
  have 1: "shorten_rpc plain_conn ''abcdefg'' Map.empty = ([''abcdef'' \<mapsto> ''abcdefg''], Inr ''abcdef'')"
    by (simp add: shorten_rpc_def insert_url_def plain_conn_def Let_def)
  have 2: "serve plain_conn [ShortenReq (Some ''abcdefgh''), ExpandReq (Some ''x'')] [''abcdef'' \<mapsto> ''abcdefg''] =
      ([''abcdef'' \<mapsto> ''abcdefg''], [ServiceError (ConnError ''Duplicate entry''), ServiceError ErrNotFound])"
    by (simp add: shorten_handler_def expand_handler_def api_shorten_def api_expand_def shorten_rpc_def expand_rpc_def
        find_one_def insert_url_def plain_conn_def Let_def)
  have 3: "expand_rpc plain_conn ''abcdef'' [''abcdef'' \<mapsto> ''abcdefg''] = ([''abcdef'' \<mapsto> ''abcdefg''], Inr ''abcdefg'')"
    by (simp add: expand_rpc_def find_one_def plain_conn_def)
  show ?thesis
    using shorturl_permanent [OF plain_conn_lawful 1 2, of _ _ "''abcdefg''"] 1 2 3 by (simp add: plain_conn_def)
qed

end
