(* ===== verification/EsAlias.thy ===== *)
theory EsAlias
  imports GoScript "HOL-Library.Multiset"
begin

text \<open>
  \<open>es/main.go\<close>: a life-cycle policy and an index template are put into Elasticsearch, then the indices
  behind the aliases are shown. \<open>getIndicesByAlias\<close> turns the answer, a map from indices to their
  aliases, round; the order in which Go goes through the maps is that of the lists.
\<close>

section \<open>From indices to aliases\<close>

text \<open>For each index of the answer the names under its \<open>aliases\<close>, \<open>None\<close> when that is not an object.\<close>

type_synonym alias_answer = "(string \<times> string list option) list"

definition add_index :: "string \<Rightarrow> (string \<rightharpoonup> string list) \<Rightarrow> string \<Rightarrow> (string \<rightharpoonup> string list)" where
  "add_index i m a = m(a \<mapsto> (case m a of None \<Rightarrow> [] | Some is \<Rightarrow> is) @ [i])"

definition alias_to_indices :: "alias_answer \<Rightarrow> (string \<rightharpoonup> string list)" where
  "alias_to_indices result =
     foldl (\<lambda>m (i, d). case d of None \<Rightarrow> m | Some as \<Rightarrow> foldl (add_index i) m as) Map.empty result"

datatype alias_error = RequestFailed | ErrorStatus string | DecodeFailed

text \<open>What a request comes back with: no response, a response with an error status, or a body.\<close>

datatype 'b es_answer = NoResponse | StatusError string | Body 'b

record 's es_client =
  es_info :: "'s \<Rightarrow> 's \<times> unit es_answer"
  put_lifecycle :: "string \<Rightarrow> 's \<Rightarrow> 's \<times> unit es_answer"
  get_lifecycle :: "string \<Rightarrow> 's \<Rightarrow> 's \<times> unit es_answer"
  put_template :: "string \<Rightarrow> string \<Rightarrow> 's \<Rightarrow> 's \<times> unit es_answer"
    \<comment> \<open>the name, and the policy its body refers to\<close>
  get_alias :: "string \<Rightarrow> 's \<Rightarrow> 's \<times> alias_answer option es_answer"
    \<comment> \<open>\<open>None\<close>: the body does not decode\<close>

definition get_indices_by_alias :: "'s es_client \<Rightarrow> string \<Rightarrow> 's \<Rightarrow> 's \<times> (alias_error + (string \<rightharpoonup> string list))" where
  "get_indices_by_alias C name s =
     (case get_alias C name s of
        (s', NoResponse) \<Rightarrow> (s', Inl RequestFailed)
      | (s', StatusError st) \<Rightarrow> (s', Inl (ErrorStatus st))
      | (s', Body None) \<Rightarrow> (s', Inl DecodeFailed)
      | (s', Body (Some result)) \<Rightarrow> (s', Inr (alias_to_indices result)))"

section \<open>The program\<close>

datatype es_stage = Info | CreatePolicy | GetPolicy | CreateTemplate

datatype es_fatal = ClientFailed | StageFailed es_stage | StageStatus es_stage string

datatype es_line =
  PolicyCreated string | TemplateCreated string | AliasesFailed alias_error | AllAliases "string \<rightharpoonup> string list"
| AliasFailed string alias_error | AliasIndices string "string list" | AliasMissing string | EsDone string

type_synonym ('s, 'a) es_script = "('s, es_line, es_fatal, 'a) script"

definition request :: "es_stage \<Rightarrow> ('s \<Rightarrow> 's \<times> unit es_answer) \<Rightarrow> ('s, unit) es_script" where
  "request st call s =
     (case call s of
        (s', NoResponse) \<Rightarrow> (s', [], Inl (StageFailed st))
      | (s', StatusError e) \<Rightarrow> (s', [], Inl (StageStatus st e))
      | (s', Body _) \<Rightarrow> (s', [], Inr ()))"

definition policy_name :: string where "policy_name = ''my-ilm-policy''"
definition template_name :: string where "template_name = ''my-index-template''"
definition specific_alias :: string where "specific_alias = ''all-logs''"

definition show_all_aliases :: "'s es_client \<Rightarrow> ('s, unit) es_script" where
  "show_all_aliases C s =
     (case get_indices_by_alias C ''*'' s of
        (s', Inl e) \<Rightarrow> (s', [AliasesFailed e], Inr ())
      | (s', Inr m) \<Rightarrow> (s', [AllAliases m], Inr ()))"

definition show_alias :: "'s es_client \<Rightarrow> string \<Rightarrow> ('s, unit) es_script" where
  "show_alias C a s =
     (case get_indices_by_alias C a s of
        (s', Inl e) \<Rightarrow> (s', [AliasFailed a e], Inr ())
      | (s', Inr m) \<Rightarrow> (s', [case m a of Some is \<Rightarrow> AliasIndices a is | None \<Rightarrow> AliasMissing a], Inr ()))"

definition es_main :: "'s es_client \<Rightarrow> bool \<Rightarrow> ('s, unit) es_script" where
  "es_main C created =
     (if \<not> created then stop ClientFailed
      else
        and_then (request Info (es_info C)) (\<lambda>_.
        and_then (request CreatePolicy (put_lifecycle C policy_name)) (\<lambda>_.
        and_then (say (PolicyCreated policy_name)) (\<lambda>_.
        and_then (request GetPolicy (get_lifecycle C policy_name)) (\<lambda>_.
        and_then (request CreateTemplate (put_template C template_name policy_name)) (\<lambda>_.
        and_then (say (TemplateCreated template_name)) (\<lambda>_.
        and_then (show_all_aliases C) (\<lambda>_.
        and_then (show_alias C specific_alias) (\<lambda>_.
        say (EsDone policy_name))))))))))"

section \<open>The turned map\<close>

text \<open>\<open>turned\<close>: under each alias the indices that have it, in the order of the answer, and no empty list.\<close>

definition having :: "string \<Rightarrow> alias_answer \<Rightarrow> string list" where
  "having a result = map fst (filter (\<lambda>(i, d). case d of None \<Rightarrow> False | Some as \<Rightarrow> a \<in> set as) result)"

definition some_list :: "'a list \<Rightarrow> 'a list option" where
  "some_list xs = (if xs = [] then None else Some xs)"

lemma add_indices:
  "distinct as \<Longrightarrow> (\<And>a. m a = some_list (f a)) \<Longrightarrow>
     foldl (add_index i) m as a = some_list (f a @ (if a \<in> set as then [i] else []))"
proof (induction "as" arbitrary: m f)
  case (Cons b bs)
  have "add_index i m b x = some_list (f x @ (if x = b then [i] else []))" for x
    using Cons.prems(2) by (auto simp: add_index_def some_list_def)
  from Cons.IH [OF _ this] Cons.prems(1) show ?case by auto
qed simp

lemma turned:
  assumes "\<forall>(i, d) \<in> set result. case d of None \<Rightarrow> True | Some as \<Rightarrow> distinct as"
  shows "alias_to_indices result a = some_list (having a result)"
proof -
  have "foldl (\<lambda>m (i, d). case d of None \<Rightarrow> m | Some as \<Rightarrow> foldl (add_index i) m as) m result a = some_list (f a @ having a result)"
    if "\<And>a. m a = some_list (f a)" for m f
    using assms that
  proof (induction result arbitrary: m f)
    case (Cons r rest)
    obtain i d where r: "r = (i, d)" by (cases r)
    show ?case
    proof (cases d)
      case None
      then show ?thesis using Cons r by (simp add: having_def)
    next
      case (Some "as")
      have "distinct as" using Cons.prems(1) r Some by simp
      from add_indices [OF this Cons.prems(2)]
      have "foldl (add_index i) m as x = some_list (f x @ (if x \<in> set as then [i] else []))" for x .
      from Cons.IH [OF _ this] Cons.prems(1) r Some show ?thesis by (simp add: having_def)
    qed
  qed (simp add: having_def)
  from this [of Map.empty "\<lambda>_. []"] show ?thesis by (simp add: alias_to_indices_def some_list_def)
qed

text \<open>An answer as JSON gives it: no index twice, and no alias twice under an index.\<close>

definition answer_ok :: "alias_answer \<Rightarrow> bool" where
  "answer_ok result \<longleftrightarrow> distinct (map fst result) \<and>
     (\<forall>(i, d) \<in> set result. case d of None \<Rightarrow> True | Some as \<Rightarrow> distinct as)"

definition has_alias :: "alias_answer \<Rightarrow> string \<Rightarrow> string \<Rightarrow> bool" where
  "has_alias result i a \<longleftrightarrow> (\<exists>as. (i, Some as) \<in> set result \<and> a \<in> set as)"

lemma set_having: "set (having a result) = {i. has_alias result i a}"
  by (fastforce simp: having_def has_alias_def image_iff split: option.splits)

lemma distinct_having: "distinct (map fst result) \<Longrightarrow> distinct (having a result)"
  by (simp add: having_def distinct_map_filter)

text \<open>
  C38. The map from aliases to indices is the converse of the answer: in whatever order the answer is
  gone through, an alias is a key exactly when some index has it, and its list has each index that has
  the alias, once, and nothing else.
\<close>

theorem alias_map_converse:
  assumes "answer_ok result" "mset order = mset result"
  shows "case alias_to_indices order a of
      None \<Rightarrow> \<forall>i. \<not> has_alias result i a
    | Some is \<Rightarrow> is \<noteq> [] \<and> distinct is \<and> set is = {i. has_alias result i a}"
proof -
  have same: "set order = set result" using assms(2) by (rule mset_eq_setD)
  have "mset (map fst order) = mset (map fst result)" using assms(2) by simp
  then have d: "distinct (map fst order)" using assms(1) by (metis answer_ok_def mset_eq_imp_distinct_iff)
  have t: "alias_to_indices order a = some_list (having a order)"
    by (rule turned) (use assms(1) same in \<open>simp add: answer_ok_def\<close>)
  have h: "set (having a order) = {i. has_alias result i a}" by (simp add: set_having has_alias_def same)
  show ?thesis
    using distinct_having [OF d, of a] h by (cases "having a order = []") (auto simp: t some_list_def)
qed

theorem alias_map_converse_witness:
  "alias_to_indices [(''logs-2'', Some [''all-logs'']), (''x'', None), (''logs-1'', Some [''w'', ''all-logs''])] ''all-logs'' =
     Some [''logs-2'', ''logs-1''] \<and>
   has_alias [(''logs-1'', Some [''w'', ''all-logs'']), (''logs-2'', Some [''all-logs'']), (''x'', None)] ''logs-1'' ''all-logs''"
proof -
  let ?r = "[(''logs-1'', Some [''w'', ''all-logs'']), (''logs-2'', Some [''all-logs'']), (''x'', None)]"
  let ?o = "[(''logs-2'', Some [''all-logs'']), (''x'', None), (''logs-1'', Some [''w'', ''all-logs''])]"
  have ok: "answer_ok ?r" "mset ?o = mset ?r" by (simp_all add: answer_ok_def)
  have o: "alias_to_indices ?o ''all-logs'' = Some [''logs-2'', ''logs-1'']"
    by (simp add: alias_to_indices_def add_index_def)
  from alias_map_converse [OF ok, of "''all-logs''"] o show ?thesis by auto
qed

section \<open>The run\<close>

lemma request_triple:
  "(\<And>ls s s'. P ls s \<Longrightarrow> call s = (s', Body ()) \<Longrightarrow> Q ls s') \<Longrightarrow> triple P (request st call) (\<lambda>_. Q) (\<lambda>_. True)"
  by (rule tripleI) (auto simp: request_def split: prod.splits es_answer.splits)

lemma get_indices_state: "fst (get_indices_by_alias C n s) = fst (get_alias C n s)"
  by (auto simp: get_indices_by_alias_def split: prod.splits es_answer.splits option.splits)

lemma one_line_triple:
  assumes "\<And>s. fst (m s) = fst (get_alias C n s)" "\<And>s. \<exists>x. fst (snd (m s)) = [x]"
    "\<And>ls s. P ls s \<Longrightarrow> P ls (fst (get_alias C n s))"
  shows "triple P m (\<lambda>_ ls s. \<exists>pre x. ls = pre @ [x] \<and> P pre s) (\<lambda>_. True)"
proof (rule tripleI)
  fix o1 s s' o2 y assume "P o1 s" and r: "m s = (s', o2, Inr y)"
  then have "P o1 s'" using assms(1) [of s] assms(3) [of o1 s] by simp
  then show "\<exists>pre x. o1 @ o2 = pre @ [x] \<and> P pre s'" using assms(2) [of s] r by auto
qed simp

lemma show_all_triple:
  "(\<And>ls s n. P ls s \<Longrightarrow> P ls (fst (get_alias C n s))) \<Longrightarrow>
     triple P (show_all_aliases C) (\<lambda>_ ls s. \<exists>pre x. ls = pre @ [x] \<and> P pre s) (\<lambda>_. True)"
  by (rule one_line_triple [where C = C and n = "''*''"])
    (auto simp: show_all_aliases_def get_indices_state [symmetric] split: prod.splits sum.splits)

lemma show_alias_triple:
  "(\<And>ls s n. P ls s \<Longrightarrow> P ls (fst (get_alias C n s))) \<Longrightarrow>
     triple P (show_alias C a) (\<lambda>_ ls s. \<exists>pre x. ls = pre @ [x] \<and> P pre s) (\<lambda>_. True)"
  by (rule one_line_triple [where C = C and n = a])
    (auto simp: show_alias_def get_indices_state [symmetric] split: prod.splits sum.splits)

text \<open>What a successful request leaves behind: the policies and, for each template, the policy it names.\<close>

record es_view =
  policies :: "string set"
  templates :: "string \<rightharpoonup> string"

definition es_lawful :: "'s es_client \<Rightarrow> ('s \<Rightarrow> es_view) \<Rightarrow> bool" where
  "es_lawful C V \<longleftrightarrow>
     (\<forall>n s s'. put_lifecycle C n s = (s', Body ()) \<longrightarrow> n \<in> policies (V s')) \<and>
     (\<forall>n s s' r. get_lifecycle C n s = (s', r) \<longrightarrow> V s' = V s) \<and>
     (\<forall>n p s s'. put_template C n p s = (s', Body ()) \<longrightarrow> policies (V s') = policies (V s) \<and> templates (V s') n = Some p) \<and>
     (\<forall>n s. V (fst (get_alias C n s)) = V s)"

text \<open>A run to the end has put the policy and a template that names it, and has shown five lines.\<close>

lemma es_main_ends:
  assumes "es_lawful C V" "es_main C created s = (s', ls, Inr ())"
  shows "policy_name \<in> policies (V s') \<and> templates (V s') template_name = Some policy_name \<and>
    (\<exists>x y. ls = [PolicyCreated policy_name, TemplateCreated template_name, x, y, EsDone policy_name])"
proof -
  have laws: "put_lifecycle C n t = (t', Body ()) \<Longrightarrow> n \<in> policies (V t')"
    "get_lifecycle C n t = (t', r) \<Longrightarrow> V t' = V t"
    "put_template C n p t = (t', Body ()) \<Longrightarrow> policies (V t') = policies (V t) \<and> templates (V t') n = Some p"
    "V (fst (get_alias C n t)) = V t" for n p t t' r
    using assms(1) unfolding es_lawful_def by blast+
  let ?P = "\<lambda>A ls t. ls = A \<and> policy_name \<in> policies (V t)"
  let ?Q = "\<lambda>A ls t. A ls \<and> policy_name \<in> policies (V t) \<and> templates (V t) template_name = Some policy_name"
  have "triple (\<lambda>ls _. ls = []) (es_main C True)
      (\<lambda>_ ls t. ?Q (\<lambda>ls. \<exists>x y. ls = [PolicyCreated policy_name, TemplateCreated template_name, x, y, EsDone policy_name]) ls t) (\<lambda>_. True)"
    unfolding es_main_def not_True_eq_False if_False
    by (rule triple_then [OF request_triple [where Q = "\<lambda>ls _. ls = []"]]
        triple_then [OF request_triple [where Q = "?P []"]]
        triple_then [OF triple_say [where Q = "\<lambda>_. ?P [PolicyCreated policy_name]"]]
        triple_then [OF request_triple [where Q = "?P [PolicyCreated policy_name]"]]
        triple_then [OF request_triple [where Q = "?Q (\<lambda>ls. ls = [PolicyCreated policy_name])"]]
        triple_then [OF triple_say [where Q = "\<lambda>_. ?Q (\<lambda>ls. ls = [PolicyCreated policy_name, TemplateCreated template_name])"]]
        triple_then [OF show_all_triple] triple_then [OF show_alias_triple] triple_say | simp add: laws | force simp: laws)+
  moreover have "created" using assms(2) by (auto simp: es_main_def stop_def split: if_splits)
  ultimately show ?thesis using triple_ok [of _ "es_main C True"] assms(2) by fastforce
qed

end
