(* ===== verification/ManualWatch.thy ===== *)
theory ManualWatch
  imports GoPrelude
begin

text \<open>
  \<open>kubernetes/client-go/informer/manual/main.go\<close>: a list and watch loop written by hand. What the API
  server answers is the run's choice: for each turn whether the context is done by then, the answers to
  the list requests and the answer to the watch. The answers of a turn are those that come before we
  look; a list loop without a last page is still listing.
\<close>

section \<open>The loop\<close>

record pod =
  namespace :: string
  pod_name :: string
  pod_rv :: string

datatype event_type = AddedEvent | ModifiedEvent | DeletedEvent | ErrorEvent | OtherEvent

datatype list_answer = ListFailed | Page "pod list" string string \<comment> \<open>items, continue token, resource version\<close>

datatype watch_event = PodEvent event_type pod | OtherObject

datatype watch_answer = WatchFailed | WatchEvents "watch_event list"

datatype pod_line =
  CtxCancelled | ListError | AddedLine string string string | ModifiedLine string string | DeletedLine string string
| ErrorLine string string | ListCompleted string nat | WatchError | NonPodLine | WatchEnded

definition process_pod_event :: "event_type \<Rightarrow> pod \<Rightarrow> pod_line list" where
  "process_pod_event t p =
     (case t of
        AddedEvent \<Rightarrow> [AddedLine (namespace p) (pod_name p) (pod_rv p)]
      | ModifiedEvent \<Rightarrow> [ModifiedLine (namespace p) (pod_name p)]
      | DeletedEvent \<Rightarrow> [DeletedLine (namespace p) (pod_name p)]
      | ErrorEvent \<Rightarrow> [ErrorLine (namespace p) (pod_name p)]
      | OtherEvent \<Rightarrow> [])"

text \<open>The pages: the continue tokens sent, the lines, and all pods with the resource version once the last
page is there. A failed request is made again, with the same token.\<close>

fun list_loop :: "list_answer list \<Rightarrow> string \<Rightarrow> pod list \<Rightarrow> string list \<times> pod_line list \<times> (pod list \<times> string) option" where
  "list_loop [] continue_token all_pods = ([], [], None)"
| "list_loop (ListFailed # as) continue_token all_pods =
     (case list_loop as continue_token all_pods of (rs, ls, r) \<Rightarrow> (continue_token # rs, ListError # ls, r))"
| "list_loop (Page items cont rv # as) continue_token all_pods =
     (if cont = [] then ([continue_token], [], Some (all_pods @ items, rv))
      else (case list_loop as cont (all_pods @ items) of (rs, ls, r) \<Rightarrow> (continue_token # rs, ls, r)))"

definition watch_line :: "watch_event \<Rightarrow> pod_line list" where
  "watch_line e = (case e of OtherObject \<Rightarrow> [NonPodLine] | PodEvent t p \<Rightarrow> process_pod_event t p)"

record turn =
  ctx_done :: bool
  list_answers :: "list_answer list"
  watch_answer :: watch_answer

datatype loop_end = Returned | Listing | NextTurn

fun manual_list_and_watch :: "turn list \<Rightarrow> pod_line list \<times> loop_end" where
  "manual_list_and_watch [] = ([], NextTurn)"
| "manual_list_and_watch (t # ts) =
     (if ctx_done t then ([CtxCancelled], Returned)
      else (case list_loop (list_answers t) [] [] of
         (_, ls, None) \<Rightarrow> (ls, Listing)
       | (_, ls, Some (all_pods, rv)) \<Rightarrow>
           (let added = concat (map (process_pod_event AddedEvent) all_pods) @ [ListCompleted rv (length all_pods)];
                watched = (case watch_answer t of
                    WatchFailed \<Rightarrow> [WatchError]
                  | WatchEvents es \<Rightarrow> concat (map watch_line es) @ [WatchEnded])
            in case manual_list_and_watch ts of (ls', e) \<Rightarrow> (ls @ added @ watched @ ls', e))))"

section \<open>The pages\<close>

fun pages_of :: "list_answer list \<Rightarrow> (pod list \<times> string \<times> string) list" where
  "pages_of [] = []"
| "pages_of (ListFailed # as) = pages_of as"
| "pages_of (Page items cont rv # as) = (if cont = [] then [(items, cont, rv)] else (items, cont, rv) # pages_of as)"

text \<open>The failures between the pages do not matter: the loop ends when a last page has come, with the items of
all pages in order and the version of the last.\<close>

lemma list_loop_pages:
  "snd (snd (list_loop as tok acc)) =
     (if pages_of as \<noteq> [] \<and> fst (snd (last (pages_of as))) = []
      then Some (acc @ concat (map fst (pages_of as)), snd (snd (last (pages_of as)))) else None)"
  by (induction "as" tok acc rule: list_loop.induct) (auto split: prod.splits)

text \<open>A list request that keeps failing is made again for ever, whatever the context says: a context that ends
while the loop lists is not noticed, and an expired token is never given up.\<close>

lemma listing_ignores_cancellation:
  "\<not> ctx_done t \<Longrightarrow> list_answers t = replicate n ListFailed \<Longrightarrow>
     manual_list_and_watch (t # ts) = (replicate n ListError, Listing)"
proof -
  have "list_loop (replicate n ListFailed) tok acc = (replicate n tok, replicate n ListError, None)" for tok acc
    by (induction n) auto
  then show "\<not> ctx_done t \<Longrightarrow> list_answers t = replicate n ListFailed \<Longrightarrow> ?thesis" by simp
qed

lemma expired_token_kept:
  "cont \<noteq> [] \<Longrightarrow> list_loop (Page items cont rv # replicate n ListFailed) [] [] = ([] # replicate n cont, replicate n ListError, None)"
proof -
  have "list_loop (replicate n ListFailed) tok acc = (replicate n tok, replicate n ListError, None)" for tok acc
    by (induction n) auto
  then show "cont \<noteq> [] \<Longrightarrow> ?thesis" by simp
qed

section \<open>What a reader of the lines believes\<close>

text \<open>The pods that the lines say are there.\<close>

fun believed :: "pod_line list \<Rightarrow> (string \<times> string) set \<Rightarrow> (string \<times> string) set" where
  "believed [] v = v"
| "believed (AddedLine ns n _ # ls) v = believed ls (insert (ns, n) v)"
| "believed (DeletedLine ns n # ls) v = believed ls (v - {(ns, n)})"
| "believed (_ # ls) v = believed ls v"

lemma believed_append: "believed (xs @ ys) v = believed ys (believed xs v)"
  by (induction xs v rule: believed.induct) auto

lemma believed_keeps: "(a, b) \<in> v \<Longrightarrow> DeletedLine a b \<notin> set ls \<Longrightarrow> (a, b) \<in> believed ls v"
  by (induction ls v rule: believed.induct) auto

lemma believed_added:
  "believed (concat (map (process_pod_event AddedEvent) ps)) v = v \<union> (\<lambda>p. (namespace p, pod_name p)) ` set ps"
  by (induction ps arbitrary: v) (auto simp: process_pod_event_def)

lemma list_lines: "set (fst (snd (list_loop as tok acc))) \<subseteq> {ListError}"
  by (induction "as" tok acc rule: list_loop.induct) (auto split: prod.splits)

lemma believed_errors: "set ls \<subseteq> {ListError} \<Longrightarrow> believed ls v = v"
  by (induction ls) auto

text \<open>
  What the API says is there: an event of a watch adds a pod, takes it away or leaves the set as it is. This is
  said of the events, not of the lines.
\<close>

fun tracked :: "watch_event list \<Rightarrow> (string \<times> string) set \<Rightarrow> (string \<times> string) set" where
  "tracked [] v = v"
| "tracked (PodEvent AddedEvent p # es) v = tracked es (insert (namespace p, pod_name p) v)"
| "tracked (PodEvent DeletedEvent p # es) v = tracked es (v - {(namespace p, pod_name p)})"
| "tracked (_ # es) v = tracked es v"

definition added_names :: "watch_event list \<Rightarrow> (string \<times> string) set" where
  "added_names es = {(namespace q, pod_name q) | q. PodEvent AddedEvent q \<in> set es}"

definition follow :: "watch_answer \<Rightarrow> (string \<times> string) set \<Rightarrow> (string \<times> string) set" where
  "follow w v = (case w of WatchFailed \<Rightarrow> v | WatchEvents es \<Rightarrow> tracked es v)"

lemma believed_watch: "believed (concat (map watch_line es)) v = tracked es v"
  by (induction es v rule: tracked.induct) (auto simp: watch_line_def process_pod_event_def)

lemma believed_turn:
  assumes "\<not> ctx_done t" "list_loop (list_answers t) [] [] = (rs, ls, Some (ps, rv))"
  shows "believed (fst (manual_list_and_watch (t # ts))) v =
    believed (fst (manual_list_and_watch ts)) (follow (watch_answer t) (v \<union> (\<lambda>p. (namespace p, pod_name p)) ` set ps))"
proof -
  have "set ls \<subseteq> {ListError}" using list_lines [of "list_answers t" "[]" "[]"] assms(2) by simp
  then show ?thesis using assms
    by (auto simp: believed_append believed_added believed_errors believed_watch follow_def Let_def case_prod_beta' split: watch_answer.splits)
qed

definition deleted_in :: "turn list \<Rightarrow> string \<Rightarrow> string \<Rightarrow> bool" where
  "deleted_in ts a b \<longleftrightarrow>
     (\<exists>t \<in> set ts. case watch_answer t of WatchFailed \<Rightarrow> False
        | WatchEvents es \<Rightarrow> (\<exists>p. PodEvent DeletedEvent p \<in> set es \<and> namespace p = a \<and> pod_name p = b))"

lemma deleted_line_from_watch:
  "DeletedLine a b \<in> set (fst (manual_list_and_watch ts)) \<Longrightarrow> deleted_in ts a b"
proof (induction ts)
  case (Cons t ts)
  have l: "DeletedLine a b \<notin> set (fst (snd (list_loop (list_answers t) [] [])))"
    using list_lines [of "list_answers t" "[]" "[]"] by auto
  have w: "DeletedLine a b \<in> set (watch_line e) \<Longrightarrow> \<exists>p. e = PodEvent DeletedEvent p \<and> namespace p = a \<and> pod_name p = b" for e
    by (auto simp: watch_line_def process_pod_event_def split: watch_event.splits event_type.splits)
  have d: "deleted_in ts a b \<Longrightarrow> deleted_in (t # ts) a b" by (simp add: deleted_in_def)
  have h: "watch_answer t = WatchEvents es \<Longrightarrow> e \<in> set es \<Longrightarrow> DeletedLine a b \<in> set (watch_line e) \<Longrightarrow> deleted_in (t # ts) a b" for es e
    using w by (fastforce simp: deleted_in_def)
  show ?case
    using Cons l d h
    by (auto simp: Let_def process_pod_event_def split: if_splits prod.splits option.splits watch_answer.splits)
qed simp

text \<open>
  C26. Listing again does not restore consistency, although the loop's last line (\<open>main.go:113\<close>) says that this is
  what it is for. A turn adds the listed pods to what the lines say is there and then does with each event of the
  watch what the event means; at the next list nothing is compared. So a pod is only taken away by its own
  event in a watch: one that is deleted while no watch is open is shown for ever, in whatever lists it is
  missing, and one whose deletion a watch shows, and that is not added again in it, is gone after it.
\<close>

theorem relist_keeps_deleted_pods:
  assumes "\<not> ctx_done t" "list_loop (list_answers t) [] [] = (rs, ls, Some (ps, rv))"
  shows "believed (fst (manual_list_and_watch (t # ts))) v =
      believed (fst (manual_list_and_watch ts)) (follow (watch_answer t) (v \<union> (\<lambda>p. (namespace p, pod_name p)) ` set ps)) \<and>
    ((a, b) \<in> v \<longrightarrow> \<not> deleted_in (t # ts) a b \<longrightarrow> (a, b) \<in> believed (fst (manual_list_and_watch (t # ts))) v) \<and>
    (watch_answer t = WatchEvents (es1 @ PodEvent DeletedEvent p # es2) \<longrightarrow>
       (namespace p, pod_name p) \<notin> added_names es2 \<longrightarrow>
       (namespace p, pod_name p) \<notin> believed (fst (manual_list_and_watch [t])) v)"
proof -
  have gone: "x \<notin> tracked es w" if "x \<notin> w" "x \<notin> added_names es" for x es w
    using that by (induction es w rule: tracked.induct) (auto simp: added_names_def)
  have "tracked (es1 @ es) w = tracked es (tracked es1 w)" for es w
    by (induction es1 w rule: tracked.induct) auto
  then have "(namespace p, pod_name p) \<notin> believed (fst (manual_list_and_watch [t])) v"
    if "watch_answer t = WatchEvents (es1 @ PodEvent DeletedEvent p # es2)"
      "(namespace p, pod_name p) \<notin> added_names es2"
    unfolding believed_turn [OF assms, of "[]"] using that gone by (simp add: follow_def)
  then show ?thesis using believed_turn [OF assms] believed_keeps deleted_line_from_watch by blast
qed

theorem relist_keeps_deleted_pods_witness:
  "let p = \<lparr>namespace = ''default'', pod_name = ''web'', pod_rv = ''7''\<rparr>;
       first = \<lparr>ctx_done = False, list_answers = [ListFailed, Page [p] [] ''7''], watch_answer = WatchEvents []\<rparr>;
       again = \<lparr>ctx_done = False, list_answers = [Page [] [] ''9''], watch_answer = WatchFailed\<rparr>
   in (''default'', ''web'') \<in> believed (fst (manual_list_and_watch [first, again])) {}"
proof -
  let ?p = "\<lparr>namespace = ''default'', pod_name = ''web'', pod_rv = ''7''\<rparr>"
  let ?first = "\<lparr>ctx_done = False, list_answers = [ListFailed, Page [?p] [] ''7''], watch_answer = WatchEvents []\<rparr>"
  let ?again = "\<lparr>ctx_done = False, list_answers = [Page [] [] ''9''], watch_answer = WatchFailed\<rparr>"
  have 1: "\<not> ctx_done ?first" "list_loop (list_answers ?first) [] [] = ([[], []], [ListError], Some ([?p], ''7''))" by simp_all
  have 2: "\<not> ctx_done ?again" "list_loop (list_answers ?again) [] [] = ([[]], [], Some ([], ''9''))" by simp_all
  have "(''default'', ''web'') \<in> believed (fst (manual_list_and_watch [?again])) {(''default'', ''web'')}"
    using relist_keeps_deleted_pods [OF 2, of "[]" "{(''default'', ''web'')}" "''default''" "''web''"] by (simp add: deleted_in_def)
  then show ?thesis
    using relist_keeps_deleted_pods [OF 1, of "[?again]" "{}"] by (simp add: follow_def Let_def)
qed

end
