(* ===== verification/RateMain.thy ===== *)
theory RateMain
  imports RateLimit
begin

text \<open>
  The three mains of \<open>concurrency/rate\<close>: ten goroutines call \<open>ReadFile\<close> and ten \<open>ResolveAddress\<close> on one
  connection, and \<open>main\<close> waits for all. A goroutine keeps the limiters it has still to wait for, as the loops of the
  nested calls of \<open>Wait\<close> do; the waits of different goroutines interleave as they like, and a
  wait of the library's limiter is one step on the world. What \<open>main\<close> defers, the last line, comes
  after \<open>wg.Wait\<close>.
\<close>

section \<open>The goroutines\<close>

datatype job = ReadFileJob | ResolveJob

datatype rate_line = WorkLine job | CannotLine job string | DoneLine

text \<open>Where a goroutine is: in its calls of \<open>Wait\<close>, with an error that is not yet printed, before \<open>wg.Done\<close>, or over.\<close>

datatype 'l rate_pc = NotStarted | Calling "'l limiter list" | WithError string | BeforeDone | Over

datatype rate_main_pc = Spawning nat | WaitingForAll | MainOver

text \<open>\<open>asked\<close> and \<open>printed\<close> say which goroutine has waited for which limiter and printed which line; \<open>None\<close> is \<open>main\<close>.\<close>

record ('w, 'l) rate_run =
  world :: 'w
  gos :: "nat \<Rightarrow> 'l rate_pc"
  rate_main :: rate_main_pc
  wg :: nat
  asked :: "(nat \<times> nat) list"
  printed :: "(nat option \<times> rate_line) list"

definition rate_job :: "nat \<Rightarrow> job" where
  "rate_job i = (if i < 10 then ReadFileJob else ResolveJob)"

text \<open>After \<open>wg.Add(20)\<close>, before the two loops that start the goroutines.\<close>

definition rate_start :: "'w \<Rightarrow> ('w, 'l) rate_run" where
  "rate_start w = \<lparr>world = w, gos = (\<lambda>_. NotStarted), rate_main = Spawning 0, wg = 20, asked = [], printed = []\<rparr>"

inductive rate_step :: "'w waiter \<Rightarrow> (job \<Rightarrow> 'l limiter) \<Rightarrow> ('w, 'l) rate_run \<Rightarrow> ('w, 'l) rate_run \<Rightarrow> bool" for wt lim where
  spawns [go_intros]: "rate_main s = Spawning i \<Longrightarrow> i < 20 \<Longrightarrow>
     rate_step wt lim s (s\<lparr>gos := (gos s)(i := Calling [lim (rate_job i)]), rate_main := Spawning (Suc i)\<rparr>)"
| all_spawned [go_intros]: "rate_main s = Spawning 20 \<Longrightarrow> rate_step wt lim s (s\<lparr>rate_main := WaitingForAll\<rparr>)"
| enters [go_intros]: "gos s i = Calling (Multi ls # ms) \<Longrightarrow> rate_step wt lim s (s\<lparr>gos := (gos s)(i := Calling (ls @ ms))\<rparr>)"
| wait_ok [go_intros]: "gos s i = Calling (Basic x l b # ms) \<Longrightarrow> wt x (world s) = (w, None) \<Longrightarrow>
     rate_step wt lim s (s\<lparr>world := w, gos := (gos s)(i := Calling ms), asked := asked s @ [(i, x)]\<rparr>)"
| wait_fails [go_intros]: "gos s i = Calling (Basic x l b # ms) \<Longrightarrow> wt x (world s) = (w, Some e) \<Longrightarrow>
     rate_step wt lim s (s\<lparr>world := w, gos := (gos s)(i := WithError e), asked := asked s @ [(i, x)]\<rparr>)"
| works [go_intros]: "gos s i = Calling [] \<Longrightarrow>
     rate_step wt lim s (s\<lparr>gos := (gos s)(i := BeforeDone), printed := printed s @ [(Some i, WorkLine (rate_job i))]\<rparr>)"
| reports [go_intros]: "gos s i = WithError e \<Longrightarrow>
     rate_step wt lim s (s\<lparr>gos := (gos s)(i := BeforeDone), printed := printed s @ [(Some i, CannotLine (rate_job i) e)]\<rparr>)"
| calls_done [go_intros]: "gos s i = BeforeDone \<Longrightarrow> rate_step wt lim s (s\<lparr>gos := (gos s)(i := Over), wg := wg s - 1\<rparr>)"
| main_ends [go_intros]: "rate_main s = WaitingForAll \<Longrightarrow> wg s = 0 \<Longrightarrow>
     rate_step wt lim s (s\<lparr>rate_main := MainOver, printed := printed s @ [(None, DoneLine)]\<rparr>)"

inductive_cases rate_stepE: "rate_step wt lim s t"

text \<open>The limiter each call waits for: one for all, or one that \<open>MultiLimiter\<close> makes for the call.\<close>

definition single_calls :: "(nat \<Rightarrow> 'l) \<Rightarrow> 'l \<Rightarrow> job \<Rightarrow> 'l limiter" where
  "single_calls every one j = open_single every one"

definition multi_calls :: "(nat \<Rightarrow> 'l::linorder) \<Rightarrow> job \<Rightarrow> 'l limiter option" where
  "multi_calls every j = open_multi every"

definition type_calls :: "(nat \<Rightarrow> 'l::linorder) \<Rightarrow> 'l \<Rightarrow> job \<Rightarrow> 'l limiter option" where
  "type_calls every one j =
     do { a \<leftarrow> open_types every one;
          multi_limiter (case j of ReadFileJob \<Rightarrow> [api_limit a, disk_limit a] | ResolveJob \<Rightarrow> [api_limit a, network_limit a]) }"

section \<open>A goroutine alone\<close>

text \<open>The limiters of a goroutine's stack are waited for as \<open>wait_limiter\<close> and \<open>wait_list\<close> do.\<close>

definition waited :: "nat \<Rightarrow> 'l limiter list \<Rightarrow> 'w \<Rightarrow> nat list \<Rightarrow> ('w, 'l) rate_run \<Rightarrow> ('w, 'l) rate_run" where
  "waited i k v xs s = s\<lparr>world := v, gos := (gos s)(i := Calling k), asked := asked s @ map (Pair i) xs\<rparr>"

lemma waited_fields [simp]: "gos (waited i k v xs s) i = Calling k" "world (waited i k v xs s) = v"
  by (simp_all add: waited_def)

lemma waited_waited [simp]: "waited i k v ys (waited i k' u xs s) = waited i k v (xs @ ys) s"
  by (simp add: waited_def)

lemma waited_start [simp]: "waited i k v xs (s\<lparr>gos := (gos s)(i := c)\<rparr>) = waited i k v xs s"
  by (simp add: waited_def)

lemma waited_nothing: "gos s i = Calling k \<Longrightarrow> waited i k (world s) [] s = s"
  by (cases s) (auto simp: waited_def fun_upd_idem)

lemma alone_waits:
  fixes m :: "'l limiter" and ms :: "'l limiter list" and wt :: "'w waiter"
  shows "\<And>k s. gos s i = Calling (m # k) \<Longrightarrow> world s = w \<Longrightarrow> wait_limiter wt m w = (v, None) \<Longrightarrow>
      (rate_step wt lim)\<^sup>*\<^sup>* s (waited i k v (map fst (leaves m)) s)"
    and "\<And>k s. gos s i = Calling (ms @ k) \<Longrightarrow> world s = w \<Longrightarrow> wait_list wt ms w = (v, None) \<Longrightarrow>
      (rate_step wt lim)\<^sup>*\<^sup>* s (waited i k v (map fst (leaves_list ms)) s)"
proof (induction wt m w and wt ms w arbitrary: v and v rule: wait_limiter_wait_list.induct)
  case (1 wt x l b w)
  then have "rate_step wt lim s (waited i k v [x] s)"
    using wait_ok [of s i x l b k wt v lim] by (simp add: waited_def)
  then show ?case by (simp add: r_into_rtranclp)
next
  case (2 wt ls w)
  let ?t = "s\<lparr>gos := (gos s)(i := Calling (ls @ k))\<rparr>"
  have "rate_step wt lim s ?t" by (rule enters) (rule 2)
  moreover have "(rate_step wt lim)\<^sup>*\<^sup>* ?t (waited i k v (map fst (leaves_list ls)) ?t)" by (rule 2(1)) (use 2 in simp_all)
  then have "(rate_step wt lim)\<^sup>*\<^sup>* ?t (waited i k v (map fst (leaves (Multi ls))) s)" by (simp only: waited_start leaves.simps)
  ultimately show ?case by (rule converse_rtranclp_into_rtranclp)
next
  case (3 wt w)
  then show ?case using waited_nothing [of s i k] by simp
next
  case (4 wt m ms w)
  obtain u where u: "wait_limiter wt m w = (u, None)" "wait_list wt ms u = (v, None)"
    using 4(5) by (auto split: prod.splits option.splits)
  let ?t = "waited i (ms @ k) u (map fst (leaves m)) s"
  have "(rate_step wt lim)\<^sup>*\<^sup>* s ?t" by (rule 4(1)) (use 4 u in simp_all)
  moreover have "(rate_step wt lim)\<^sup>*\<^sup>* ?t (waited i k v (map fst (leaves_list ms)) ?t)" by (rule 4(2) [OF u(1) [symmetric] refl]) (use u in simp_all)
  ultimately show ?case by simp
qed

section \<open>What each goroutine has done\<close>

definition waits_of :: "nat \<Rightarrow> ('w, 'l) rate_run \<Rightarrow> nat list" where
  "waits_of i s = map snd (filter (\<lambda>p. fst p = i) (asked s))"

definition lines_by :: "nat option \<Rightarrow> ('w, 'l) rate_run \<Rightarrow> rate_line list" where
  "lines_by g s = map snd (filter (\<lambda>p. fst p = g) (printed s))"

text \<open>
  The call of goroutine \<open>i\<close> is over: with its work done after all waits, in their order, or with the error of the last
  of some of them.
\<close>

definition call_over :: "'w waiter \<Rightarrow> (job \<Rightarrow> 'l limiter) \<Rightarrow> nat \<Rightarrow> nat list \<Rightarrow> rate_line list \<Rightarrow> bool" where
  "call_over wt lim i xs ls \<longleftrightarrow>
     ls = [WorkLine (rate_job i)] \<and> xs = map fst (leaves (lim (rate_job i))) \<or>
     (\<exists>e ys zs x w. ls = [CannotLine (rate_job i) e] \<and> xs = ys @ [x] \<and> xs @ zs = map fst (leaves (lim (rate_job i))) \<and> snd (wt x w) = Some e)"

definition go_inv :: "'w waiter \<Rightarrow> (job \<Rightarrow> 'l limiter) \<Rightarrow> nat \<Rightarrow> 'l rate_pc \<Rightarrow> nat list \<Rightarrow> rate_line list \<Rightarrow> bool" where
  "go_inv wt lim i c xs ls \<longleftrightarrow>
     (case c of
        NotStarted \<Rightarrow> xs = [] \<and> ls = []
      | Calling ms \<Rightarrow> xs @ map fst (leaves_list ms) = map fst (leaves (lim (rate_job i))) \<and> ls = []
      | WithError e \<Rightarrow> ls = [] \<and> (\<exists>ys zs x w. xs = ys @ [x] \<and> xs @ zs = map fst (leaves (lim (rate_job i))) \<and> snd (wt x w) = Some e)
      | _ \<Rightarrow> call_over wt lim i xs ls)"

definition not_over :: "(nat \<Rightarrow> 'l rate_pc) \<Rightarrow> nat" where
  "not_over g = card {i. i < 20 \<and> g i \<noteq> Over}"

definition main_rate_inv :: "('w, 'l) rate_run \<Rightarrow> bool" where
  "main_rate_inv s \<longleftrightarrow>
     (case rate_main s of
        Spawning n \<Rightarrow> n \<le> 20 \<and> (\<forall>i. gos s i = NotStarted \<longleftrightarrow> n \<le> i)
      | _ \<Rightarrow> \<forall>i. gos s i = NotStarted \<longleftrightarrow> 20 \<le> i) \<and>
     wg s = not_over (gos s) \<and>
     (if rate_main s = MainOver then wg s = 0 \<and> printed s \<noteq> [] \<and> last (printed s) = (None, DoneLine) \<and> lines_by None s = [DoneLine]
      else lines_by None s = [])"

definition rate_inv :: "'w waiter \<Rightarrow> (job \<Rightarrow> 'l limiter) \<Rightarrow> ('w, 'l) rate_run \<Rightarrow> bool" where
  "rate_inv wt lim s \<longleftrightarrow> main_rate_inv s \<and> (\<forall>i. go_inv wt lim i (gos s i) (waits_of i s) (lines_by (Some i) s))"

lemma leaves_list_append [simp]: "leaves_list (ls @ ms) = leaves_list ls @ leaves_list ms"
  by (induction ls) simp_all

lemma not_over_upd:
  assumes "i < 20" "g i \<noteq> Over"
  shows "c \<noteq> Over \<Longrightarrow> not_over (g(i := c)) = not_over g" "not_over (g(i := Over)) = not_over g - 1" "0 < not_over g"
proof -
  let ?A = "{j. j < 20 \<and> g j \<noteq> Over}"
  have f: "finite ?A" "i \<in> ?A" using assms by simp_all
  then show "0 < not_over g" unfolding not_over_def by (metis card_gt_0_iff empty_iff)
  have "c \<noteq> Over \<Longrightarrow> {j. j < 20 \<and> (g(i := c)) j \<noteq> Over} = ?A" using assms by auto
  then show "c \<noteq> Over \<Longrightarrow> not_over (g(i := c)) = not_over g" by (simp add: not_over_def)
  have "{j. j < 20 \<and> (g(i := Over)) j \<noteq> Over} = ?A - {i}" by auto
  then show "not_over (g(i := Over)) = not_over g - 1" using f by (simp add: not_over_def)
qed

lemma waits_lines_simps [simp]:
  "waits_of j (s\<lparr>gos := g\<rparr>) = waits_of j s" "lines_by a (s\<lparr>gos := g\<rparr>) = lines_by a s"
  "waits_of j (s\<lparr>rate_main := m\<rparr>) = waits_of j s" "lines_by a (s\<lparr>rate_main := m\<rparr>) = lines_by a s"
  "waits_of j (s\<lparr>world := w\<rparr>) = waits_of j s" "lines_by a (s\<lparr>world := w\<rparr>) = lines_by a s"
  "waits_of j (s\<lparr>wg := n\<rparr>) = waits_of j s" "lines_by a (s\<lparr>wg := n\<rparr>) = lines_by a s"
  "lines_by a (s\<lparr>asked := xs\<rparr>) = lines_by a s" "waits_of j (s\<lparr>printed := ls\<rparr>) = waits_of j s"
  "lines_by a (s\<lparr>printed := printed s @ [(b, l)]\<rparr>) = lines_by a s @ (if b = a then [l] else [])"
  by (simp_all add: waits_of_def lines_by_def)

text \<open>A step of a goroutine that has been started, with what it adds.\<close>

lemma go_inv_step:
  assumes inv: "rate_inv wt lim s" and i: "gos s i \<noteq> NotStarted" "gos s i \<noteq> Over"
    and t: "gos t = (gos s)(i := c)" "rate_main t = rate_main s" "c \<noteq> NotStarted"
      "wg t = (if c = Over then wg s - 1 else wg s)" "printed t = printed s @ map (Pair (Some i)) ls"
      "\<And>j. waits_of j t = waits_of j s @ (if i = j then xs else [])"
    and g: "go_inv wt lim i c (waits_of i s @ xs) (lines_by (Some i) s @ ls)"
  shows "rate_inv wt lim t"
proof -
  have m: "main_rate_inv s" using inv by (simp add: rate_inv_def)
  have i20: "i < 20"
  proof (rule ccontr)
    assume "\<not> i < 20"
    then have "gos s i = NotStarted" using m by (auto simp: main_rate_inv_def split: rate_main_pc.splits)
    then show False using i by simp
  qed
  have l: "lines_by a t = lines_by a s @ (if a = Some i then ls else [])" for a
    by (simp add: lines_by_def t(5) filter_map o_def)
  have "0 < wg s" using m not_over_upd(3) [of i "gos s", OF i20 i(2)] by (simp add: main_rate_inv_def)
  then have "rate_main s \<noteq> MainOver" using m by (auto simp: main_rate_inv_def)
  moreover have "wg t = not_over (gos t)"
    using m not_over_upd [of i "gos s", OF i20 i(2)] t(1,4) by (simp add: main_rate_inv_def)
  moreover have "(gos t j = NotStarted) = (gos s j = NotStarted)" for j using t(1,3) i(1) by simp
  ultimately have "main_rate_inv t" using m t(2) l [of None] by (simp add: main_rate_inv_def split: rate_main_pc.splits)
  moreover have "go_inv wt lim j (gos t j) (waits_of j t) (lines_by (Some j) t)" for j
    using inv g by (cases "j = i") (simp_all add: rate_inv_def t(1,6) l)
  ultimately show ?thesis by (simp add: rate_inv_def)
qed

lemma rate_inv_step:
  assumes inv: "rate_inv wt lim s" and step: "rate_step wt lim s t"
  shows "rate_inv wt lim t"
proof -
  have g: "go_inv wt lim i (gos s i) (waits_of i s) (lines_by (Some i) s)" for i using inv by (simp add: rate_inv_def)
  have m: "main_rate_inv s" using inv by (simp add: rate_inv_def)
  show ?thesis
    using step
  proof cases
    case (spawns i)
    have n: "gos s j = NotStarted \<longleftrightarrow> i \<le> j" for j using m spawns(2) by (simp add: main_rate_inv_def)
    have "(gos t j = NotStarted) = (Suc i \<le> j)" for j unfolding spawns(1) using n [of j] by (cases "j = i") auto
    moreover have "not_over (gos t) = not_over (gos s)"
      using not_over_upd(1) [of i "gos s" "Calling [lim (rate_job i)]"] n [of i] spawns(3) unfolding spawns(1) by simp
    moreover have "wg t = wg s" "rate_main t = Spawning (Suc i)" "lines_by None t = lines_by None s" unfolding spawns(1) by simp_all
    ultimately have "main_rate_inv t" using m spawns(2,3) by (simp add: main_rate_inv_def)
    moreover have "go_inv wt lim j (gos t j) (waits_of j t) (lines_by (Some j) t)" for j
      using g [of j] n [of i] unfolding spawns(1) by (cases "j = i") (simp_all add: go_inv_def)
    ultimately show ?thesis by (simp add: rate_inv_def)
  next
    case all_spawned
    then show ?thesis using inv m by (auto simp: rate_inv_def main_rate_inv_def)
  next
    case (enters i ls ms)
    show ?thesis by (rule go_inv_step [OF inv, of i t "Calling (ls @ ms)" "[]" "[]"]) (use enters g [of i] in \<open>simp_all add: go_inv_def\<close>)
  next
    case (wait_ok i x l b ms w)
    show ?thesis by (rule go_inv_step [OF inv, of i t "Calling ms" "[]" "[x]"]) (use wait_ok g [of i] in \<open>simp_all add: go_inv_def waits_of_def\<close>)
  next
    case (wait_fails i x l b ms w e)
    have "snd (wt x (world s)) = Some e" using wait_fails by simp
    moreover have "waits_of i s @ [x] @ map fst (leaves_list ms) = map fst (leaves (lim (rate_job i)))" "lines_by (Some i) s = []"
      using wait_fails g [of i] by (simp_all add: go_inv_def)
    ultimately have "go_inv wt lim i (WithError e) (waits_of i s @ [x]) (lines_by (Some i) s)" unfolding go_inv_def by auto
    then show ?thesis by (intro go_inv_step [OF inv, of i t "WithError e" "[]" "[x]"]) (use wait_fails in \<open>simp_all add: waits_of_def\<close>)
  next
    case (works i)
    show ?thesis by (rule go_inv_step [OF inv, of i t BeforeDone "[WorkLine (rate_job i)]" "[]"]) (use works g [of i] in \<open>simp_all add: go_inv_def call_over_def\<close>)
  next
    case (reports i e)
    have "go_inv wt lim i BeforeDone (waits_of i s) (lines_by (Some i) s @ [CannotLine (rate_job i) e])"
      using reports g [of i] unfolding go_inv_def call_over_def by auto
    then show ?thesis by (intro go_inv_step [OF inv, of i t BeforeDone "[CannotLine (rate_job i) e]" "[]"]) (use reports in simp_all)
  next
    case (calls_done i)
    show ?thesis by (rule go_inv_step [OF inv, of i t Over "[]" "[]"]) (use calls_done g [of i] in \<open>simp_all add: go_inv_def\<close>)
  next
    case main_ends
    moreover have "lines_by None t = lines_by None s @ [DoneLine]" "waits_of i t = waits_of i s" "lines_by (Some i) t = lines_by (Some i) s" for i
      using main_ends(1) by (simp_all add: lines_by_def waits_of_def)
    ultimately show ?thesis using inv m by (simp add: rate_inv_def main_rate_inv_def)
  qed
qed

lemma rate_start_inv: "rate_inv wt lim (rate_start w)"
  by (auto simp: rate_inv_def main_rate_inv_def go_inv_def rate_start_def not_over_def waits_of_def lines_by_def)

section \<open>Every run ends\<close>

lemma sum_upd:
  assumes "i < (n :: nat)"
  shows "(\<Sum>j<n. g j ((f(i := x)) j)) + g i (f i) = (\<Sum>j<n. g j (f j)) + (g i x :: nat)"
proof -
  have i: "i \<in> {..<n}" using assms by simp
  have "(\<Sum>j\<in>{..<n} - {i}. g j ((f(i := x)) j)) = (\<Sum>j\<in>{..<n} - {i}. g j (f j))"
    by (rule sum.cong) auto
  then show ?thesis
    using sum.remove [OF _ i, of "\<lambda>j. g j ((f(i := x)) j)"] sum.remove [OF _ i, of "\<lambda>j. g j (f j)"]
    by (simp add: ac_simps)
qed

text \<open>The calls of \<open>Wait\<close> a limiter stands for, its own and those below it.\<close>

fun calls :: "'l limiter \<Rightarrow> nat" and calls_list :: "'l limiter list \<Rightarrow> nat" where
  "calls (Basic i l b) = 1"
| "calls (Multi ls) = Suc (calls_list ls)"
| "calls_list [] = 0"
| "calls_list (m # ms) = calls m + calls_list ms"

lemma calls_list_append [simp]: "calls_list (ls @ ms) = calls_list ls + calls_list ms"
  by (induction ls) simp_all

definition go_left :: "(job \<Rightarrow> 'l limiter) \<Rightarrow> nat \<Rightarrow> 'l rate_pc \<Rightarrow> nat" where
  "go_left lim i c = (case c of NotStarted \<Rightarrow> calls (lim (rate_job i)) + 4 | Calling ms \<Rightarrow> calls_list ms + 3 | WithError _ \<Rightarrow> 2 | BeforeDone \<Rightarrow> 1 | Over \<Rightarrow> 0)"

definition rate_left :: "(job \<Rightarrow> 'l limiter) \<Rightarrow> ('w, 'l) rate_run \<Rightarrow> nat" where
  "rate_left lim s = (\<Sum>i<20. go_left lim i (gos s i)) + (case rate_main s of Spawning n \<Rightarrow> 22 - n | WaitingForAll \<Rightarrow> 1 | MainOver \<Rightarrow> 0)"

lemma rate_left_go:
  assumes "i < 20" "go_left lim i c < go_left lim i (gos s i)" "gos t = (gos s)(i := c)" "rate_main t = rate_main s"
  shows "rate_left lim t < rate_left lim s"
  using sum_upd [OF assms(1), of "go_left lim" "gos s" c] assms(2-4) by (simp add: rate_left_def)

lemma started_below: "rate_inv wt lim s \<Longrightarrow> gos s i \<noteq> NotStarted \<Longrightarrow> i < 20"
  by (rule ccontr) (auto simp: rate_inv_def main_rate_inv_def split: rate_main_pc.splits)

lemma rate_left_less:
  assumes inv: "rate_inv wt lim s" and step: "rate_step wt lim s t"
  shows "rate_left lim t < rate_left lim s"
  using step
proof cases
  case (spawns i)
  have "gos s i = NotStarted" using inv spawns(2) by (simp add: rate_inv_def main_rate_inv_def)
  then show ?thesis
    using sum_upd [OF spawns(3), of "go_left lim" "gos s" "Calling [lim (rate_job i)]"] spawns(2,3) unfolding spawns(1)
    by (simp add: rate_left_def go_left_def)
next
  case all_spawned
  then show ?thesis by (simp add: rate_left_def)
next
  case (enters i ls ms)
  show ?thesis by (rule rate_left_go [where i = i and c = "Calling (ls @ ms)"]) (use enters started_below [OF inv, of i] in \<open>simp_all add: go_left_def\<close>)
next
  case (wait_ok i x l b ms w)
  show ?thesis by (rule rate_left_go [where i = i and c = "Calling ms"]) (use wait_ok started_below [OF inv, of i] in \<open>simp_all add: go_left_def\<close>)
next
  case (wait_fails i x l b ms w e)
  show ?thesis by (rule rate_left_go [where i = i and c = "WithError e"]) (use wait_fails started_below [OF inv, of i] in \<open>simp_all add: go_left_def\<close>)
next
  case (works i)
  show ?thesis by (rule rate_left_go [where i = i and c = BeforeDone]) (use works started_below [OF inv, of i] in \<open>simp_all add: go_left_def\<close>)
next
  case (reports i e)
  show ?thesis by (rule rate_left_go [where i = i and c = BeforeDone]) (use reports started_below [OF inv, of i] in \<open>simp_all add: go_left_def\<close>)
next
  case (calls_done i)
  show ?thesis by (rule rate_left_go [where i = i and c = Over]) (use calls_done started_below [OF inv, of i] in \<open>simp_all add: go_left_def\<close>)
next
  case main_ends
  then show ?thesis by (simp add: rate_left_def)
qed

lemma go_moves: "gos s i \<noteq> NotStarted \<Longrightarrow> gos s i \<noteq> Over \<Longrightarrow> \<exists>t. rate_step wt lim s t"
proof (cases "gos s i")
  case (Calling ms)
  show ?thesis
  proof (cases ms)
    case Nil
    then show ?thesis using Calling works [of s i] by blast
  next
    case (Cons m ks)
    show ?thesis
    proof (cases m)
      case (Basic x l b)
      then show ?thesis using Calling Cons wait_ok [of s i x l b ks wt] wait_fails [of s i x l b ks wt]
        by (cases "wt x (world s)"; cases "snd (wt x (world s))") auto
    next
      case (Multi ls)
      then show ?thesis using Calling Cons enters by blast
    qed
  qed
qed (auto intro: reports calls_done)

lemma rate_moves:
  assumes inv: "rate_inv wt lim s" and "rate_main s \<noteq> MainOver"
  shows "\<exists>t. rate_step wt lim s t"
proof (cases "rate_main s")
  case (Spawning n)
  then have "n \<le> 20" using inv by (simp add: rate_inv_def main_rate_inv_def)
  then show ?thesis using Spawning spawns [of s n wt lim] all_spawned [of s wt lim] by (cases "n = 20") auto
next
  case WaitingForAll
  show ?thesis
  proof (cases "wg s = 0")
    case False
    then have "{i. i < 20 \<and> gos s i \<noteq> Over} \<noteq> {}" using inv unfolding rate_inv_def main_rate_inv_def not_over_def by (metis card.empty)
    then obtain i where "i < 20" "gos s i \<noteq> Over" by blast
    moreover have "gos s i \<noteq> NotStarted" using inv WaitingForAll \<open>i < 20\<close> by (simp add: rate_inv_def main_rate_inv_def)
    ultimately show ?thesis using go_moves by blast
  qed (use WaitingForAll main_ends in blast)
qed (use assms in blast)

interpretation rate: ending_run "\<lambda>s. \<exists>w. s = rate_start w" "rate_step wt lim" "rate_inv wt lim" "rate_left lim" "\<lambda>s. rate_main s = MainOver" for wt lim
proof
  show "rate_inv wt lim s" if "\<exists>w. s = rate_start w" for s using that rate_start_inv by metis
  show "\<exists>t. rate_step wt lim s t \<and> rate_left lim t < rate_left lim s" if "rate_inv wt lim s" "rate_main s \<noteq> MainOver" for s
    using rate_moves [OF that] rate_left_less [OF that(1)] by blast
qed (rule rate_inv_step rate_left_less; assumption)+

lemma over_when_done:
  assumes inv: "rate_inv wt lim s" and m: "rate_main s = MainOver" and i: "i < 20"
  shows "gos s i = Over \<and> call_over wt lim i (waits_of i s) (lines_by (Some i) s)"
proof -
  have "finite {j. j < 20 \<and> gos s j \<noteq> Over}" by simp
  moreover have "not_over (gos s) = 0" using inv m by (simp add: rate_inv_def main_rate_inv_def)
  ultimately have "{j. j < 20 \<and> gos s j \<noteq> Over} = {}" unfolding not_over_def by (metis card_0_eq)
  then have "gos s i = Over" using i by blast
  moreover have "go_inv wt lim i (gos s i) (waits_of i s) (lines_by (Some i) s)" using inv by (simp add: rate_inv_def)
  ultimately show ?thesis by (simp add: go_inv_def)
qed

text \<open>
  C35. However the calls of \<open>Wait\<close> of the twenty goroutines interleave, the program comes to an end, and every step
  brings it nearer; a call of \<open>Wait\<close> that no other goroutine interrupts does what \<open>wait_limiter\<close> says. When \<open>main\<close>
  is over, its last line is the last of all, and each goroutine has printed exactly one line: of its work, after it
  waited for each limiter below its own, each once and in their order, or of an error, that of the last limiter it waited
  for, with none after it. When no wait fails, all twenty have done their work.
\<close>

theorem rate_main_ends_well:
  assumes "(rate_step wt lim)\<^sup>*\<^sup>* (rate_start w) s"
  shows "(\<exists>t. (rate_step wt lim)\<^sup>*\<^sup>* s t \<and> rate_main t = MainOver) \<and> (\<forall>t. rate_step wt lim s t \<longrightarrow> rate_left lim t < rate_left lim s) \<and>
    (\<forall>i m k v. gos s i = Calling (m # k) \<and> wait_limiter wt m (world s) = (v, None) \<longrightarrow>
      (rate_step wt lim)\<^sup>*\<^sup>* s (waited i k v (map fst (leaves m)) s)) \<and>
    (rate_main s = MainOver \<longrightarrow> last (printed s) = (None, DoneLine) \<and> lines_by None s = [DoneLine] \<and>
      (\<forall>i<20. gos s i = Over \<and> call_over wt lim i (waits_of i s) (lines_by (Some i) s)) \<and>
      ((\<forall>x v. snd (wt x v) = None) \<longrightarrow>
        (\<forall>i<20. lines_by (Some i) s = [WorkLine (rate_job i)] \<and> waits_of i s = map fst (leaves (lim (rate_job i))))))"
proof -
  have inv: "rate_inv wt lim s" by (rule rate.inv_reachable [OF _ assms]) blast
  have "last (printed s) = (None, DoneLine) \<and> lines_by None s = [DoneLine]" if "rate_main s = MainOver"
    using inv that by (simp add: rate_inv_def main_rate_inv_def)
  moreover have "ls = [WorkLine (rate_job i)] \<and> xs = map fst (leaves (lim (rate_job i)))"
    if "\<forall>x v. snd (wt x v) = None" "call_over wt lim i xs ls" for i xs ls
    using that by (auto simp: call_over_def)
  ultimately have finished: "last (printed s) = (None, DoneLine) \<and> lines_by None s = [DoneLine] \<and>
      (\<forall>i<20. gos s i = Over \<and> call_over wt lim i (waits_of i s) (lines_by (Some i) s)) \<and>
      ((\<forall>x v. snd (wt x v) = None) \<longrightarrow>
        (\<forall>i<20. lines_by (Some i) s = [WorkLine (rate_job i)] \<and> waits_of i s = map fst (leaves (lim (rate_job i)))))"
    if "rate_main s = MainOver" using over_when_done [OF inv that] that by blast
  show ?thesis
    by (intro conjI allI impI; (elim conjE)?) (rule rate.ends [OF inv] rate_left_less [OF inv] alone_waits(1) [OF _ refl] | assumption | (use finished in auto))+
qed

text \<open>The third program, on natural numbers of events per week as limits.\<close>

definition weekly :: "nat \<Rightarrow> nat" where
  "weekly gap = 604800000000000 div gap"

lemma type_calls_leaves:
  "map_option (\<lambda>m. map fst (leaves m)) (type_calls weekly 604800 ReadFileJob) = Some [1, 0, 2]"
  "map_option (\<lambda>m. map fst (leaves m)) (type_calls weekly 604800 ResolveJob) = Some [1, 0, 3]"
  by (simp_all add: type_calls_def open_types_def per_def weekly_def second_def minute_def multi_limiter_def)

theorem rate_main_ends_well_witness:
  "\<exists>s :: (unit, nat) rate_run. (rate_step (\<lambda>x v. (v, None)) (\<lambda>j. the (type_calls weekly 604800 j)))\<^sup>*\<^sup>* (rate_start ()) s \<and>
     rate_main s = MainOver \<and> last (printed s) = (None, DoneLine) \<and>
     waits_of 3 s = [1, 0, 2] \<and> lines_by (Some 3) s = [WorkLine ReadFileJob] \<and>
     waits_of 15 s = [1, 0, 3] \<and> lines_by (Some 15) s = [WorkLine ResolveJob]"
proof -
  let ?wt = "\<lambda>(x :: nat) (v :: unit). (v, None :: string option)"
  let ?lim = "\<lambda>j. the (type_calls weekly 604800 j)"
  obtain s where s: "(rate_step ?wt ?lim)\<^sup>*\<^sup>* (rate_start ()) s" "rate_main s = MainOver"
    using rate_main_ends_well [of ?wt ?lim "()" "rate_start ()"] by blast
  have r: "last (printed s) = (None, DoneLine) \<and> (\<forall>i<20. lines_by (Some i) s = [WorkLine (rate_job i)] \<and> waits_of i s = map fst (leaves (?lim (rate_job i))))"
    using rate_main_ends_well [OF s(1)] s(2) by simp
  have "map fst (leaves (?lim ReadFileJob)) = [1, 0, 2]" "map fst (leaves (?lim ResolveJob)) = [1, 0, 3]"
    using type_calls_leaves by auto
  moreover have "rate_job 3 = ReadFileJob" "rate_job 15 = ResolveJob" by (simp_all add: rate_job_def)
  ultimately have "waits_of 3 s = [1, 0, 2]" "waits_of 15 s = [1, 0, 3]"
      "lines_by (Some 3) s = [WorkLine ReadFileJob]" "lines_by (Some 15) s = [WorkLine ResolveJob]"
    using r by simp_all
  then show ?thesis using s r by blast
qed

end
