(* ===== verification/TestUtils.thy ===== *)
theory TestUtils
  imports GoText "HOL-Library.Sublist"
begin

text \<open>
  The helpers of the two operators' end-to-end tests (\<open>client-go/webhook/test/utils\<close> and
  \<open>kubebuilder/projects/guestbook/test/utils\<close>, one text but for the year of its licence): commands run in
  the project's directory, the search for custom resource definitions in their output, and
  \<open>UncommentCode\<close>, which edits a file. The operating system is the record \<open>shell\<close>.
\<close>

section \<open>Functions of package strings\<close>

text \<open>\<open>strings.Index\<close>, \<open>strings.TrimPrefix\<close> and \<open>strings.Replace\<close> of all occurrences of a text that is not empty.\<close>

fun index_of :: "string \<Rightarrow> string \<Rightarrow> nat option" where
  "index_of t [] = (if t = [] then Some 0 else None)"
| "index_of t (c # s) = (if prefix t (c # s) then Some 0 else map_option Suc (index_of t s))"

definition contains :: "string \<Rightarrow> string \<Rightarrow> bool" where
  "contains s t \<longleftrightarrow> index_of t s \<noteq> None"

definition trim_prefix :: "string \<Rightarrow> string \<Rightarrow> string" where
  "trim_prefix p s = (if prefix p s then drop (length p) s else s)"

function remove_all :: "string \<Rightarrow> string \<Rightarrow> string" where
  "remove_all t s =
     (case s of [] \<Rightarrow> []
      | c # s' \<Rightarrow> if t \<noteq> [] \<and> prefix t s then remove_all t (drop (length t) s) else c # remove_all t s')"
  by pat_completeness auto
termination
  by (relation "measure (length \<circ> snd)") (auto simp: diff_less_Suc)

declare remove_all.simps [simp del]

section \<open>Commands\<close>

record cmd =
  args :: "string list"
  cmd_dir :: string
  extra_env :: "string list"

record 'w shell =
  getwd :: "'w \<Rightarrow> string \<times> string option"                 \<comment> \<open>the directory and an error\<close>
  chdir :: "string \<Rightarrow> 'w \<Rightarrow> 'w \<times> string option"
  combined_output :: "cmd \<Rightarrow> 'w \<Rightarrow> 'w \<times> string \<times> string option"
  lookup_env :: "string \<Rightarrow> 'w \<Rightarrow> string option"
  read_file :: "string \<Rightarrow> 'w \<Rightarrow> (string, string) result"
  write_file :: "string \<Rightarrow> string \<Rightarrow> 'w \<Rightarrow> 'w \<times> string option"

datatype run_note = ChdirFailed string | Running string | Warning run_error
  and run_error = RunFailed string string string \<comment> \<open>command, error, output\<close>

definition get_project_dir :: "'w shell \<Rightarrow> 'w \<Rightarrow> string \<times> string option" where
  "get_project_dir S w =
     (case getwd S w of
        (wd, Some e) \<Rightarrow> (wd, Some e)
      | (wd, None) \<Rightarrow> (remove_all ''/test/e2e'' wd, None))"

definition run_cmd :: "'w shell \<Rightarrow> string list \<Rightarrow> 'w \<Rightarrow> 'w \<times> run_note list \<times> string \<times> run_error option" where
  "run_cmd S argv w =
     (let dir = fst (get_project_dir S w)
      in case chdir S dir w of (w1, cd) \<Rightarrow>
     (let notes = (case cd of None \<Rightarrow> [] | Some e \<Rightarrow> [ChdirFailed e]);
          command = join_with '' '' argv
      in case combined_output S \<lparr>args = argv, cmd_dir = dir, extra_env = [''GO111MODULE=on'']\<rparr> w1 of
           (w2, output, err) \<Rightarrow>
             (w2, notes @ [Running command], output, map_option (\<lambda>e. RunFailed command e output) err)))"

definition run_warning :: "'w shell \<Rightarrow> string list \<Rightarrow> 'w \<Rightarrow> 'w \<times> run_note list" where
  "run_warning S argv w =
     (case run_cmd S argv w of
        (w', notes, _, None) \<Rightarrow> (w', notes)
      | (w', notes, _, Some e) \<Rightarrow> (w', notes @ [Warning e]))"

definition prometheus_operator_url :: string where
  "prometheus_operator_url =
     ''https://github.com/prometheus-operator/prometheus-operator/'' @ ''releases/download/'' @ ''v0.77.1'' @ ''/bundle.yaml''"

definition certmanager_url :: string where
  "certmanager_url = ''https://github.com/cert-manager/cert-manager/releases/download/'' @ ''v1.16.3'' @ ''/cert-manager.yaml''"

definition install_prometheus_operator :: "'w shell \<Rightarrow> 'w \<Rightarrow> 'w \<times> run_note list \<times> run_error option" where
  "install_prometheus_operator S w =
     (case run_cmd S [''kubectl'', ''create'', ''-f'', prometheus_operator_url] w of (w', notes, _, e) \<Rightarrow> (w', notes, e))"

definition uninstall_prometheus_operator :: "'w shell \<Rightarrow> 'w \<Rightarrow> 'w \<times> run_note list" where
  "uninstall_prometheus_operator S = run_warning S [''kubectl'', ''delete'', ''-f'', prometheus_operator_url]"

definition uninstall_cert_manager :: "'w shell \<Rightarrow> 'w \<Rightarrow> 'w \<times> run_note list" where
  "uninstall_cert_manager S = run_warning S [''kubectl'', ''delete'', ''-f'', certmanager_url]"

definition install_cert_manager :: "'w shell \<Rightarrow> 'w \<Rightarrow> 'w \<times> run_note list \<times> run_error option" where
  "install_cert_manager S w =
     (case run_cmd S [''kubectl'', ''apply'', ''-f'', certmanager_url] w of
        (w1, n1, _, Some e) \<Rightarrow> (w1, n1, Some e)
      | (w1, n1, _, None) \<Rightarrow>
          (case run_cmd S [''kubectl'', ''wait'', ''deployment.apps/cert-manager-webhook'', ''--for'', ''condition=Available'',
                 ''--namespace'', ''cert-manager'', ''--timeout'', ''5m''] w1 of
             (w2, n2, _, e) \<Rightarrow> (w2, n1 @ n2, e)))"

definition load_image :: "'w shell \<Rightarrow> string \<Rightarrow> 'w \<Rightarrow> 'w \<times> run_note list \<times> run_error option" where
  "load_image S name w =
     (let cluster = (case lookup_env S ''KIND_CLUSTER'' w of Some v \<Rightarrow> v | None \<Rightarrow> ''kind'')
      in case run_cmd S [''kind'', ''load'', ''docker-image'', name, ''--name'', cluster] w of (w', notes, _, e) \<Rightarrow> (w', notes, e))"

section \<open>Lines\<close>

definition get_non_empty_lines :: "string \<Rightarrow> string list" where
  "get_non_empty_lines output = filter (\<lambda>e. e \<noteq> []) (split_on nl output)"

fun line_with :: "string \<Rightarrow> string list \<Rightarrow> bool" where
  "line_with crd [] = False"
| "line_with crd (l # ls) = (if contains l crd then True else line_with crd ls)"

fun any_crd :: "string list \<Rightarrow> string list \<Rightarrow> bool" where
  "any_crd [] ls = False"
| "any_crd (crd # crds) ls = (if line_with crd ls then True else any_crd crds ls)"

definition crds_installed :: "'w shell \<Rightarrow> string list \<Rightarrow> string list \<Rightarrow> 'w \<Rightarrow> 'w \<times> run_note list \<times> bool" where
  "crds_installed S argv crds w =
     (case run_cmd S argv w of
        (w', notes, output, Some _) \<Rightarrow> (w', notes, False)
      | (w', notes, output, None) \<Rightarrow> (w', notes, any_crd crds (get_non_empty_lines output)))"

definition prometheus_crds :: "string list" where
  "prometheus_crds = [''prometheuses.monitoring.coreos.com'', ''prometheusrules.monitoring.coreos.com'',
     ''prometheusagents.monitoring.coreos.com'']"

definition is_prometheus_crds_installed :: "'w shell \<Rightarrow> 'w \<Rightarrow> 'w \<times> run_note list \<times> bool" where
  "is_prometheus_crds_installed S =
     crds_installed S [''kubectl'', ''get'', ''crds'', ''-o'', ''custom-columns=NAME:.metadata.name''] prometheus_crds"

definition cert_manager_crds :: "string list" where
  "cert_manager_crds = [''certificates.cert-manager.io'', ''issuers.cert-manager.io'', ''clusterissuers.cert-manager.io'',
     ''certificaterequests.cert-manager.io'', ''orders.acme.cert-manager.io'', ''challenges.acme.cert-manager.io'']"

definition is_cert_manager_crds_installed :: "'w shell \<Rightarrow> 'w \<Rightarrow> 'w \<times> run_note list \<times> bool" where
  "is_cert_manager_crds_installed S = crds_installed S [''kubectl'', ''get'', ''crds''] cert_manager_crds"

section \<open>Uncommenting\<close>

text \<open>The new content, \<open>None\<close> when the file is left as it is; the limit is that of \<open>bufio.Scanner\<close>, whose error is
not asked for.\<close>

definition scan_limit :: nat where
  "scan_limit = 65536"

definition uncomment_text :: "string \<Rightarrow> string \<Rightarrow> string \<Rightarrow> string option option" where
  "uncomment_text content target pre =
     (case index_of target content of
        None \<Rightarrow> None
      | Some idx \<Rightarrow>
          (case fst (scan_lines scan_limit target) of
             [] \<Rightarrow> Some None
           | ls \<Rightarrow> Some (Some (take idx content @ join_with [nl] (map (trim_prefix pre) ls) @ drop (idx + length target) content))))"

datatype uncomment_error = ReadFailed string | NotFound string | WriteFailed string

definition uncomment_code :: "'w shell \<Rightarrow> string \<Rightarrow> string \<Rightarrow> string \<Rightarrow> 'w \<Rightarrow> 'w \<times> uncomment_error option" where
  "uncomment_code S filename target pre w =
     (case read_file S filename w of
        Inl e \<Rightarrow> (w, Some (ReadFailed e))
      | Inr content \<Rightarrow>
          (case uncomment_text content target pre of
             None \<Rightarrow> (w, Some (NotFound target))
           | Some None \<Rightarrow> (w, None)
           | Some (Some new) \<Rightarrow>
               (case write_file S filename new w of (w', e) \<Rightarrow> (w', map_option WriteFailed e))))"

section \<open>Searching\<close>

lemma index_of_SomeD: "index_of t s = Some i \<Longrightarrow> \<exists>pre post. s = pre @ t @ post \<and> length pre = i"
proof (induction t s arbitrary: i rule: index_of.induct)
  case (1 t)
  then show ?case by (auto split: if_splits)
next
  case (2 t c s)
  show ?case
  proof (cases "prefix t (c # s)")
    case True
    then show ?thesis using 2(2) by (auto elim: prefixE)
  next
    case False
    then obtain j where j: "index_of t s = Some j" "i = Suc j" using 2(2) by auto
    from 2(1) [OF False j(1)] obtain pre post where "s = pre @ t @ post" "length pre = j" by blast
    then show ?thesis using j(2) by (intro exI [of _ "c # pre"] exI [of _ post]) simp
  qed
qed

lemma index_of_None: "index_of t s = None \<Longrightarrow> s \<noteq> pre @ t @ post"
proof (induction t s arbitrary: pre rule: index_of.induct)
  case (1 t)
  then show ?case by (auto split: if_splits)
next
  case (2 t c s)
  then have np: "\<not> prefix t (c # s)" and n: "index_of t s = None" by (auto split: if_splits)
  show ?case
  proof (cases pre)
    case Nil
    then show ?thesis using np by (auto simp: prefix_def)
  next
    case (Cons d ds)
    then show ?thesis using 2(1) [OF np n, of ds] by auto
  qed
qed

lemma contains_iff: "contains s t \<longleftrightarrow> (\<exists>pre post. s = pre @ t @ post)"
proof (cases "index_of t s")
  case None
  then show ?thesis using index_of_None [OF None] by (simp add: contains_def)
next
  case (Some i)
  then show ?thesis using index_of_SomeD [OF Some] by (auto simp: contains_def)
qed

lemma line_with_iff: "line_with crd ls \<longleftrightarrow> (\<exists>l \<in> set ls. contains l crd)"
  by (induction ls) auto

lemma any_crd_iff: "any_crd crds ls \<longleftrightarrow> (\<exists>crd \<in> set crds. \<exists>l \<in> set ls. contains l crd)"
  by (induction crds) (auto simp: line_with_iff)

lemma non_empty_lines_join:
  "(\<And>l. l \<in> set ls \<Longrightarrow> nl \<notin> set l) \<Longrightarrow> ls \<noteq> [] \<Longrightarrow> get_non_empty_lines (join_with [nl] ls) = filter (\<lambda>l. l \<noteq> []) ls"
  by (simp add: get_non_empty_lines_def split_join)

section \<open>What uncommenting does to the text\<close>

definition fits :: "string \<Rightarrow> bool" where
  "fits l \<longleftrightarrow> nl \<notin> set l \<and> go_len l < scan_limit \<and> drop_cr l = l"

lemma scan_joined:
  "ls \<noteq> [] \<Longrightarrow> \<forall>l \<in> set ls. fits l \<Longrightarrow> last ls \<noteq> [] \<Longrightarrow> scan_lines scan_limit (join_with [nl] ls) = (ls, False)"
proof (induction ls)
  case (Cons l ls)
  show ?case
  proof (cases "ls = []")
    case True
    then show ?thesis using Cons.prems scan_last_line [of l scan_limit] by (simp add: fits_def)
  next
    case False
    then show ?thesis using Cons scan_lines_line [of l scan_limit] by (simp add: fits_def join_with_Cons)
  qed
qed simp

lemma scan_joined_nl:
  "ls \<noteq> [] \<Longrightarrow> \<forall>l \<in> set ls. fits l \<Longrightarrow>
     scan_lines scan_limit (join_with [nl] ls @ nl # rest) = (ls @ fst (scan_lines scan_limit rest), snd (scan_lines scan_limit rest))"
proof (induction ls)
  case (Cons l ls)
  show ?case
  proof (cases "ls = []")
    case True
    then show ?thesis using Cons.prems scan_lines_line [of l scan_limit rest] by (simp add: fits_def split: prod.splits)
  next
    case False
    then show ?thesis
      using Cons scan_lines_line [of l scan_limit "join_with [nl] ls @ nl # rest"] by (simp add: fits_def join_with_Cons split: prod.splits)
  qed
qed simp

lemma uncomment_scanned:
  assumes "index_of target (before @ target @ after) = Some (length before)"
    and "fst (scan_lines scan_limit target) = ls" "ls \<noteq> []"
  shows "uncomment_text (before @ target @ after) target p = Some (Some (before @ join_with [nl] (map (trim_prefix p) ls) @ after))"
  using assms by (cases ls) (simp_all add: uncomment_text_def)

lemma trim_prefix_same [simp]: "trim_prefix p (p @ s) = s"
  by (simp add: trim_prefix_def)

text \<open>
  C13. Commenting lines out and uncommenting them gives the file back: when the lines behind the prefix
  are where the target is first found, are short enough and do not end in a carriage return,
  \<open>UncommentCode\<close> writes the file with these lines without the prefix and everything else unchanged.
\<close>

theorem uncomment_roundtrip:
  assumes "p \<noteq> []" "ls \<noteq> []" "\<forall>l \<in> set ls. fits (p @ l)" "target = join_with [nl] (map (\<lambda>l. p @ l) ls)"
    and "read_file S f w = Inr (before @ target @ after)" "index_of target (before @ target @ after) = Some (length before)"
  shows "uncomment_code S f target p w =
    (case write_file S f (before @ join_with [nl] ls @ after) w of (w', e) \<Rightarrow> (w', map_option WriteFailed e))"
proof -
  let ?ls = "map (\<lambda>l. p @ l) ls"
  have "last ?ls \<noteq> []" using assms(1,2) by (simp add: last_map)
  then have scan: "fst (scan_lines scan_limit target) = ?ls" using scan_joined [of ?ls] assms(2,3,4) by simp
  have "map (trim_prefix p) ?ls = ls" by (simp add: comp_def)
  then show ?thesis using uncomment_scanned [OF assms(6) scan] assms(2,5) by (simp add: uncomment_code_def)
qed

definition one_file :: "string shell" where
  "one_file =
     \<lparr>getwd = (\<lambda>_. (''/p/test/e2e'', None)), chdir = (\<lambda>_ w. (w, None)), combined_output = (\<lambda>_ w. (w, [], None)),
      lookup_env = (\<lambda>_ _. None), read_file = (\<lambda>_ w. Inr w), write_file = (\<lambda>_ c _. (c, None))\<rparr>"

theorem uncomment_roundtrip_witness:
  "uncomment_code one_file ''f'' (''#a'' @ [nl] @ ''# b'') ''#'' (''x'' @ [nl] @ ''#a'' @ [nl] @ ''# b'' @ [nl] @ ''y'') =
     (''x'' @ [nl] @ ''a'' @ [nl] @ '' b'' @ [nl] @ ''y'', None)"
proof -
  have "\<forall>l \<in> set [''a'', '' b'']. fits (''#'' @ l)"
    by (simp add: fits_def go_len_def utf8_len_def scan_limit_def drop_cr_def)
  moreover have "index_of (''#a'' @ [nl] @ ''# b'') ((''x'' @ [nl]) @ (''#a'' @ [nl] @ ''# b'') @ [nl] @ ''y'') = Some 2"
    by (simp add: prefix_def)
  ultimately show ?thesis
    using uncomment_roundtrip [of "''#''" "[''a'', '' b'']" "''#a'' @ [nl] @ ''# b''" one_file "''f''"
        "''x'' @ [nl] @ ''#a'' @ [nl] @ ''# b'' @ [nl] @ ''y''" "''x'' @ [nl]" "[nl] @ ''y''"]
    by (simp add: one_file_def)
qed

text \<open>
  What the scanner does not deliver is lost: a newline at the end of the target is not written
  back, so the next line of the file joins the last uncommented one; and when a line of the target is
  too long for the scanner, it and the rest of the target are cut out of the file without an error.
\<close>

lemma uncomment_forgets:
  assumes "ls \<noteq> []" "\<forall>l \<in> set ls. fits l" "nl \<notin> set long" "scan_limit \<le> go_len long"
    and "target = join_with [nl] ls @ [nl] \<or> target = join_with [nl] ls @ nl # long @ nl # rest"
    and "index_of target (before @ target @ after) = Some (length before)"
  shows "uncomment_text (before @ target @ after) target p = Some (Some (before @ join_with [nl] (map (trim_prefix p) ls) @ after))"
proof (rule uncomment_scanned [OF assms(6) _ assms(1)])
  have "long \<noteq> []" using assms(4) by (auto simp: scan_limit_def)
  then have "scan_lines scan_limit (long @ nl # rest) = ([], True)" using scan_lines_too_long assms(3,4) by blast
  then show "fst (scan_lines scan_limit target) = ls"
    using assms(5) scan_joined_nl [OF assms(1,2), of "[]"] scan_joined_nl [OF assms(1,2), of "long @ nl # rest"] by auto
qed

theorem uncomment_forgets_witness:
  "uncomment_text (''x'' @ [nl] @ ''#a'' @ [nl] @ ''b'') (''#a'' @ [nl]) ''#'' = Some (Some (''x'' @ [nl] @ ''ab''))"
proof -
  have f: "\<forall>l \<in> set [''#a'']. fits l" by (simp add: fits_def utf8_len_def scan_limit_def drop_cr_def)
  have long: "nl \<notin> set (replicate scan_limit (CHR ''a''))" "scan_limit \<le> go_len (replicate scan_limit (CHR ''a''))"
    using length_le_go_len [of "replicate scan_limit (CHR ''a'')"] by simp_all
  have "index_of (''#a'' @ [nl]) ((''x'' @ [nl]) @ (''#a'' @ [nl]) @ ''b'') = Some 2" by (simp add: prefix_def)
  then show ?thesis
    using uncomment_forgets [OF _ f long, of "''#a'' @ [nl]" "[]" "''x'' @ [nl]" "''b''" "''#''"] by (simp add: trim_prefix_def prefix_def)
qed

text \<open>Whether one of the definitions is installed: any of the names on any line that is not empty.\<close>

lemma crds_found:
  assumes "run_cmd S argv w = (w', notes, join_with [nl] ls, None)" "ls \<noteq> []" "\<forall>l \<in> set ls. nl \<notin> set l" "[] \<notin> set crds"
  shows "snd (snd (crds_installed S argv crds w)) \<longleftrightarrow> (\<exists>crd \<in> set crds. \<exists>l \<in> set ls. contains l crd)"
proof -
  have "l \<noteq> []" if "crd \<in> set crds" "contains l crd" for l crd
    using that assms(4) by (auto simp: contains_def split: if_splits)
  then show ?thesis using assms by (simp add: crds_installed_def any_crd_iff non_empty_lines_join) blast
qed

end
