(* ===== verification/MmapFiles.thy ===== *)
theory MmapFiles
  imports GoScript GoText
begin

text \<open>
  Files that are mapped into memory or flushed: \<open>mmap/main.go\<close>, \<open>mmap/test/test.go\<close>,
  \<open>mmap/test1/vmmap.go\<close>, \<open>mmap/unsafe/unsafe.go\<close> and \<open>fsync/fsync.go\<close>. A file is its bytes in the page cache and its
  bytes on the disk; a shared mapping has no bytes of its own. A page that lies behind the end of the
  file cannot be read through a mapping: the access raises \<open>SIGBUS\<close>. The rest of the last page reads as zeros.
\<close>

section \<open>Files and mappings\<close>

record os_file =
  cached :: string
  stable :: string

definition nul :: char where "nul = CHR 0x00"

definition page_size :: nat where "page_size = 4096"

definition resized :: "nat \<Rightarrow> string \<Rightarrow> string" where
  "resized n s = take n s @ replicate (n - length s) nul"

definition ftruncate :: "nat \<Rightarrow> os_file \<Rightarrow> os_file" where
  "ftruncate n f = f\<lparr>cached := resized n (cached f)\<rparr>"

text \<open>A write at an offset of the file.\<close>

definition pwrite :: "nat \<Rightarrow> string \<Rightarrow> os_file \<Rightarrow> os_file" where
  "pwrite i s f = f\<lparr>cached := take i (resized (max i (length (cached f))) (cached f)) @ s @ drop (i + length s) (cached f)\<rparr>"

definition fsync :: "os_file \<Rightarrow> os_file" where
  "fsync f = f\<lparr>stable := cached f\<rparr>"

text \<open>What a mapping shows at an index, \<open>None\<close> for \<open>SIGBUS\<close>.\<close>

definition mapped_pages :: "os_file \<Rightarrow> nat" where
  "mapped_pages f = (length (cached f) + page_size - 1) div page_size * page_size"

definition mapped_at :: "nat \<Rightarrow> os_file \<Rightarrow> char option" where
  "mapped_at i f = (if i < mapped_pages f then Some (if i < length (cached f) then cached f ! i else nul) else None)"

lemma resized_length [simp]: "length (resized n s) = n"
  by (simp add: resized_def min_def)

lemma resized_same [simp]: "resized (length s) s = s"
  by (simp add: resized_def)

lemma mapped_pages_ge: "length (cached f) \<le> mapped_pages f"
  by (simp add: mapped_pages_def page_size_def algebra_simps)

lemma mapped_at_inside: "i < length (cached f) \<Longrightarrow> mapped_at i f = Some (cached f ! i)"
  using mapped_pages_ge [of f] by (simp add: mapped_at_def)

lemma mapped_at_beyond: "cached f \<noteq> [] \<Longrightarrow> length (cached f) \<le> i \<Longrightarrow> i < page_size \<Longrightarrow> mapped_at i f = Some nul"
proof -
  assume a: "cached f \<noteq> []" "length (cached f) \<le> i" "i < page_size"
  then have "1 \<le> (length (cached f) + page_size - 1) div page_size"
    by (simp add: Suc_le_eq div_greater_zero_iff page_size_def)
  then have "page_size \<le> mapped_pages f" by (simp add: mapped_pages_def)
  then show ?thesis using a by (simp add: mapped_at_def)
qed

lemma mapped_at_empty: "cached f = [] \<Longrightarrow> mapped_at i f = None"
  by (simp add: mapped_at_def mapped_pages_def page_size_def)

section \<open>A mapping that is written\<close>

datatype mmap_line = FileSize nat | MmapSuccess | MappedData string | MmapDone

datatype mmap_call = OpenCall | StatCall | TruncateCall | MmapCall | MsyncCall | MunmapCall

instantiation mmap_call :: enum
begin

definition enum_mmap_call :: "mmap_call list" where
  "enum_mmap_call = [OpenCall, StatCall, TruncateCall, MmapCall, MsyncCall, MunmapCall]"

definition enum_all_mmap_call :: "(mmap_call \<Rightarrow> bool) \<Rightarrow> bool" where
  "enum_all_mmap_call P \<longleftrightarrow> P OpenCall \<and> P StatCall \<and> P TruncateCall \<and> P MmapCall \<and> P MsyncCall \<and> P MunmapCall"

definition enum_ex_mmap_call :: "(mmap_call \<Rightarrow> bool) \<Rightarrow> bool" where
  "enum_ex_mmap_call P \<longleftrightarrow> P OpenCall \<or> P StatCall \<or> P TruncateCall \<or> P MmapCall \<or> P MsyncCall \<or> P MunmapCall"

instance
proof
  have all: "P c" if "P OpenCall" "P StatCall" "P TruncateCall" "P MmapCall" "P MsyncCall" "P MunmapCall" for P c
    using that by (cases c) simp_all
  show "(UNIV :: mmap_call set) = set enum_class.enum"
    using all [of "\<lambda>c. c \<in> set enum_class.enum"] by (auto simp: enum_mmap_call_def)
  show "distinct (enum_class.enum :: mmap_call list)" by (simp add: enum_mmap_call_def)
  show "enum_class.enum_all P \<longleftrightarrow> Ball UNIV P" for P :: "mmap_call \<Rightarrow> bool"
    using all [of P] by (auto simp: enum_all_mmap_call_def)
  show "enum_class.enum_ex P \<longleftrightarrow> Bex UNIV P" for P :: "mmap_call \<Rightarrow> bool"
    using all [of "\<lambda>c. \<not> P c"] by (auto simp: enum_ex_mmap_call_def)
qed

end

text \<open>\<open>mmap/main.go\<close>: a system call that fails makes the program panic. \<open>ok\<close> says which succeed.\<close>

definition sys :: "(mmap_call \<Rightarrow> bool) \<Rightarrow> mmap_call \<Rightarrow> (os_file \<Rightarrow> os_file) \<Rightarrow> (os_file, mmap_line, mmap_call, unit) script" where
  "sys ok c f s = (if ok c then (f s, [], Inr ()) else (s, [], Inl c))"

definition copy_mapped :: "string \<Rightarrow> os_file \<Rightarrow> os_file" where
  "copy_mapped s f = pwrite 0 s f"

definition mmap_main :: "(mmap_call \<Rightarrow> bool) \<Rightarrow> (os_file, mmap_line, mmap_call, unit) script" where
  "mmap_main ok =
     and_then (sys ok OpenCall id) (\<lambda>_.
     and_then (sys ok StatCall id) (\<lambda>_.
     and_then (\<lambda>f. (f, [FileSize (length (cached f))], Inr ())) (\<lambda>_.
     and_then (sys ok TruncateCall (ftruncate page_size)) (\<lambda>_.
     and_then (sys ok MmapCall id) (\<lambda>_.
     and_then (say MmapSuccess) (\<lambda>_.
     and_then (\<lambda>f. (copy_mapped ''hello mmap'' f, [], Inr ())) (\<lambda>_.
     and_then (\<lambda>f. (f, [MappedData (resized page_size (cached f))], Inr ())) (\<lambda>_.
     and_then (sys ok MsyncCall fsync) (\<lambda>_.
     and_then (sys ok MunmapCall id) (\<lambda>_.
     say MmapDone))))))))))"

text \<open>\<open>vmmap.go\<close>: one is stored in every byte of the mapping.\<close>

fun store_ones :: "nat \<Rightarrow> os_file \<Rightarrow> os_file" where
  "store_ones 0 f = f"
| "store_ones (Suc i) f = (store_ones i f)\<lparr>cached := (cached (store_ones i f))[i := CHR 0x01]\<rparr>"

definition vmmap_main :: "nat \<Rightarrow> os_file \<Rightarrow> os_file" where
  "vmmap_main file_size f = store_ones file_size (ftruncate file_size f)"

section \<open>Random reads\<close>

definition file_size :: nat where "file_size = 64 * 1024 * 1024"
definition read_count :: nat where "read_count = 1000000"
definition block_size :: nat where "block_size = 8"

text \<open>\<open>createFile\<close>: \<open>blocks i\<close> are the bytes of the \<open>i\<close>-th block of 4096; the calls whose errors are ignored succeed.\<close>

fun write_blocks :: "(nat \<Rightarrow> string) \<Rightarrow> nat \<Rightarrow> os_file \<Rightarrow> os_file" where
  "write_blocks blocks 0 f = f"
| "write_blocks blocks (Suc i) f = pwrite (i * 4096) (blocks i) (write_blocks blocks i f)"

definition create_file :: "(nat \<Rightarrow> string) \<Rightarrow> os_file \<Rightarrow> os_file" where
  "create_file blocks f = write_blocks blocks (file_size div 4096) (ftruncate file_size f)"

text \<open>\<open>rand.Intn(n)\<close> of the random bits \<open>r\<close>, and \<open>ReadAt\<close>, which fails when there are not enough bytes.\<close>

definition intn :: "nat \<Rightarrow> nat \<Rightarrow> nat" where
  "intn n r = r mod n"

definition read_at :: "nat \<Rightarrow> nat \<Rightarrow> os_file \<Rightarrow> string option" where
  "read_at n i f = (if i + n \<le> length (cached f) then Some (take n (drop i (cached f))) else None)"

definition normal_read :: "(nat \<Rightarrow> nat) \<Rightarrow> os_file \<Rightarrow> nat \<Rightarrow> string option" where
  "normal_read rnd f k = read_at block_size (intn (file_size - block_size) (rnd k)) f"

text \<open>A slice of the mapping; out of range it panics.\<close>

definition mmap_read :: "(nat \<Rightarrow> nat) \<Rightarrow> os_file \<Rightarrow> nat \<Rightarrow> string option" where
  "mmap_read rnd f k =
     (let offset = intn (file_size - block_size) (rnd k); data = resized file_size (cached f)
      in if offset + block_size \<le> length data then Some (take block_size (drop offset data)) else None)"

text \<open>
  \<open>main\<close>: the file is made and read in both ways. An open or a mapping that fails panics, as does a read; the slice
  of the mapping is assigned to nothing, so only its bounds are looked at. The times are left out.
\<close>

datatype random_line = CreatingFile | NormalTest | NormalDone | MappedTest | MappedDone

datatype random_call = CreateDb | OpenNormal | NormalAt nat | OpenMapped | MapDb | SliceAt nat

definition reads_through :: "(os_file \<Rightarrow> nat \<Rightarrow> string option) \<Rightarrow> (nat \<Rightarrow> random_call) \<Rightarrow>
    (os_file, random_line, random_call, unit) script" where
  "reads_through rd c = each (\<lambda>k f. case rd f k of None \<Rightarrow> (f, [], Inl (c k)) | Some _ \<Rightarrow> (f, [], Inr ())) [0..<read_count]"

definition opens :: "(random_call \<Rightarrow> bool) \<Rightarrow> random_call \<Rightarrow> (os_file, random_line, random_call, unit) script" where
  "opens ok c = (if ok c then give () else stop c)"

definition random_main :: "(random_call \<Rightarrow> bool) \<Rightarrow> (nat \<Rightarrow> string) \<Rightarrow> (nat \<Rightarrow> nat) \<Rightarrow> (nat \<Rightarrow> nat) \<Rightarrow>
    (os_file, random_line, random_call, unit) script" where
  "random_main ok blocks rnd1 rnd2 =
     and_then (say CreatingFile) (\<lambda>_.
     and_then (opens ok CreateDb) (\<lambda>_.
     and_then (\<lambda>f. (create_file blocks f, [], Inr ())) (\<lambda>_.
     and_then (say NormalTest) (\<lambda>_.
     and_then (opens ok OpenNormal) (\<lambda>_.
     and_then (reads_through (normal_read rnd1) NormalAt) (\<lambda>_.
     and_then (say NormalDone) (\<lambda>_.
     and_then (say MappedTest) (\<lambda>_.
     and_then (opens ok OpenMapped) (\<lambda>_.
     and_then (opens ok MapDb) (\<lambda>_.
     and_then (reads_through (mmap_read rnd2) SliceAt) (\<lambda>_.
     say MappedDone)))))))))))"

section \<open>Flushing\<close>

datatype fsync_call = CreateCall | WriteCall | ReadCall nat | SyncCall

datatype fsync_line = WroteBytes nat | BeforeSync string | SyncDone | AfterSync string

definition fsys :: "(fsync_call \<Rightarrow> bool) \<Rightarrow> fsync_call \<Rightarrow> (os_file \<Rightarrow> os_file) \<Rightarrow> (os_file \<Rightarrow> fsync_line) \<Rightarrow>
    (os_file, fsync_line, fsync_call, unit) script" where
  "fsys ok c f l s = (if ok c then (f s, [l (f s)], Inr ()) else (s, [], Inl c))"

definition fsync_main :: "(fsync_call \<Rightarrow> bool) \<Rightarrow> string \<Rightarrow> (os_file, fsync_line, fsync_call, unit) script" where
  "fsync_main ok data =
     and_then (\<lambda>f. if ok CreateCall then (ftruncate 0 f, [], Inr ()) else (f, [], Inl CreateCall)) (\<lambda>_.
     and_then (fsys ok WriteCall (pwrite 0 data) (\<lambda>_. WroteBytes (go_len data))) (\<lambda>_.
     and_then (fsys ok (ReadCall 1) id (\<lambda>f. BeforeSync (cached f))) (\<lambda>_.
     and_then (fsys ok SyncCall fsync (\<lambda>_. SyncDone)) (\<lambda>_.
     fsys ok (ReadCall 2) id (\<lambda>f. AfterSync (cached f))))))"

section \<open>A slice seen as a larger array\<close>

text \<open>\<open>unsafe.go\<close>: sixteen bytes at address \<open>a\<close> of the memory, read and written through a pointer to an array of 1024.\<close>

definition unsafe_init :: "nat \<Rightarrow> (nat \<Rightarrow> nat) \<Rightarrow> (nat \<Rightarrow> nat)" where
  "unsafe_init a mem = (\<lambda>x. if a \<le> x \<and> x < a + 16 then x - a + 1 else mem x)"

definition byte_slice :: "nat \<Rightarrow> (nat \<Rightarrow> nat) \<Rightarrow> nat list" where
  "byte_slice a mem = map (\<lambda>i. mem (a + i)) [0..<16]"

text \<open>An index of the array of 1024 is checked against 1024.\<close>

definition array_get :: "nat \<Rightarrow> (nat \<Rightarrow> nat) \<Rightarrow> nat \<Rightarrow> nat option" where
  "array_get a mem i = (if i < 1024 then Some (mem (a + i)) else None)"

definition array_set :: "nat \<Rightarrow> nat \<Rightarrow> nat \<Rightarrow> (nat \<Rightarrow> nat) \<Rightarrow> (nat \<Rightarrow> nat) option" where
  "array_set a i v mem = (if i < 1024 then Some (mem(a + i := v)) else None)"

definition unsafe_main :: "nat \<Rightarrow> (nat \<Rightarrow> nat) \<Rightarrow> (nat list \<times> nat \<times> nat \<times> nat list \<times> nat) option" where
  "unsafe_main a mem =
     do { let m0 = unsafe_init a mem;
          x0 \<leftarrow> array_get a m0 0; x5 \<leftarrow> array_get a m0 5;
          m1 \<leftarrow> array_set a 0 100 m0; m2 \<leftarrow> array_set a 1 101 m1;
          x20 \<leftarrow> array_get a m2 20;
          Some (byte_slice a m0, x0, x5, byte_slice a m2, x20) }"

section \<open>The random reads\<close>

lemma pwrite_inside: "i + length b \<le> length (cached f) \<Longrightarrow> length (cached (pwrite i b f)) = length (cached f)"
  by (simp add: pwrite_def)

lemma write_blocks_length:
  assumes "\<And>i. length (blocks i) = 4096"
  shows "n * 4096 \<le> length (cached f) \<Longrightarrow> length (cached (write_blocks blocks n f)) = length (cached f)"
proof (induction n)
  case (Suc n)
  then have "length (cached (write_blocks blocks n f)) = length (cached f)" by simp
  moreover have "n * 4096 + length (blocks n) \<le> length (cached f)" using Suc.prems assms by simp
  ultimately show ?case using pwrite_inside [of "n * 4096" "blocks n" "write_blocks blocks n f"] by simp
qed simp

lemma create_file_length:
  assumes "\<And>i. length (blocks i) = 4096"
  shows "length (cached (create_file blocks f)) = file_size"
proof -
  have l: "length (cached (ftruncate file_size f)) = file_size" by (simp add: ftruncate_def)
  have "file_size div 4096 * 4096 \<le> file_size" by (rule div_times_less_eq_dividend)
  then show ?thesis using write_blocks_length [of blocks "file_size div 4096" "ftruncate file_size f", OF assms] l
    by (simp only: create_file_def)
qed

lemma offset_bound: "intn (file_size - block_size) r + block_size < file_size"
proof -
  have "0 < file_size - block_size" by (simp add: file_size_def block_size_def)
  then have "intn (file_size - block_size) r < file_size - block_size" by (simp only: intn_def mod_less_divisor)
  then show ?thesis by (simp add: file_size_def block_size_def)
qed

text \<open>
  Both ways of reading stay inside the file and read the same: on the file the program makes, from
  whatever was there and whatever the random numbers are, every read of either loop gives the eight
  bytes at its offset, so neither panics; the last byte of the file is never read.
\<close>

lemma random_reads_in_bounds:
  assumes "\<forall>i. length (blocks i) = 4096"
  shows "\<exists>x. normal_read rnd (create_file blocks f) k = Some x \<and> mmap_read rnd (create_file blocks f) k = Some x \<and>
    length x = block_size \<and> intn (file_size - block_size) (rnd k) + block_size < file_size"
proof -
  have l: "length (cached (create_file blocks f)) = file_size" by (rule create_file_length) (use assms in simp)
  have s: "resized file_size (cached (create_file blocks f)) = cached (create_file blocks f)" using resized_same l by metis
  show ?thesis
    using offset_bound [of "rnd k"] l unfolding normal_read_def mmap_read_def Let_def s read_at_def by simp
qed

theorem random_reads_in_bounds_witness:
  "\<exists>x. normal_read (\<lambda>k. k * k) (create_file (\<lambda>_. replicate 4096 nul) \<lparr>cached = ''old'', stable = []\<rparr>) 3 = Some x \<and> length x = 8"
  using random_reads_in_bounds [of "\<lambda>_. replicate 4096 nul" "\<lambda>k. k * k"] by (auto simp: block_size_def)

text \<open>So the program only fails where a file cannot be opened or mapped.\<close>

lemma reads_through_all:
  assumes "\<And>k. rd f k \<noteq> None"
  shows "run_to (reads_through rd c) f f [] ()"
proof -
  have "run_to (each (\<lambda>k f. case rd f k of None \<Rightarrow> (f, [], Inl (c k)) | Some _ \<Rightarrow> (f, [], Inr ())) ks) f f [] ()" for ks
    using assms by (induction ks) (auto simp: run_to_def give_def and_then_def split: option.splits)
  then show ?thesis by (simp only: reads_through_def)
qed

lemma random_main_finishes:
  assumes "\<forall>i. length (blocks i) = 4096" "\<forall>c. ok c"
  shows "run_to (random_main ok blocks rnd1 rnd2) f (create_file blocks f) [CreatingFile, NormalTest, NormalDone, MappedTest, MappedDone] ()"
proof -
  let ?g = "create_file blocks f"
  have r: "normal_read rnd1 ?g k \<noteq> None" "mmap_read rnd2 ?g k \<noteq> None" for k
    using random_reads_in_bounds [OF assms(1), of rnd1 f k] random_reads_in_bounds [OF assms(1), of rnd2 f k] by auto
  have "reads_through (normal_read rnd1) NormalAt ?g = (?g, [], Inr ())" "reads_through (mmap_read rnd2) SliceAt ?g = (?g, [], Inr ())"
    using reads_through_all [of "normal_read rnd1" ?g NormalAt] reads_through_all [of "mmap_read rnd2" ?g SliceAt] r by (simp_all add: run_to_def)
  then show ?thesis
    using assms(2) by (simp add: random_main_def run_to_def and_then_def say_def opens_def give_def)
qed

section \<open>The other programs\<close>

text \<open>When every call succeeds \<open>mmap/main.go\<close> shows its text in front of what the file held, and has it on the disk.\<close>

lemma mmap_main_shows:
  assumes "\<forall>c. ok c"
  shows "mmap_main ok f =
    (\<lparr>cached = ''hello mmap'' @ drop 10 (resized 4096 (cached f)), stable = ''hello mmap'' @ drop 10 (resized 4096 (cached f))\<rparr>,
     [FileSize (length (cached f)), MmapSuccess, MappedData (''hello mmap'' @ drop 10 (resized 4096 (cached f))), MmapDone], Inr ())"
proof -
  define t where "t = ''hello mmap'' @ drop 10 (resized 4096 (cached f))"
  have len: "length t = 4096" by (simp add: t_def)
  have w: "pwrite 0 ''hello mmap'' (ftruncate page_size f) = f\<lparr>cached := t\<rparr>"
    by (simp add: pwrite_def ftruncate_def page_size_def t_def eval_nat_numeral)
  have r: "resized page_size t = t" using resized_same [of t] len by (simp add: page_size_def)
  show ?thesis
    using assms unfolding t_def [symmetric]
    by (simp add: mmap_main_def and_then_def sys_def say_def copy_mapped_def w r fsync_def)
qed

text \<open>It runs to its end exactly when each of the six calls succeeds.\<close>

lemma all_mmap_calls: "(\<forall>c :: mmap_call. P c) \<longleftrightarrow> P OpenCall \<and> P StatCall \<and> P TruncateCall \<and> P MmapCall \<and> P MsyncCall \<and> P MunmapCall"
  by (metis mmap_call.exhaust)

lemma mmap_main_succeeds: "(\<exists>s ls. run_to (mmap_main ok) f s ls ()) \<longleftrightarrow> (\<forall>c. ok c)"
  unfolding all_mmap_calls by (simp add: mmap_main_def run_to_def and_then_def sys_def say_def)

lemma store_ones_prefix: "n \<le> length (cached f) \<Longrightarrow> cached (store_ones n f) = replicate n (CHR 0x01) @ drop n (cached f)"
proof (induction n)
  case (Suc n)
  then have "drop n (cached f) = cached f ! n # drop (Suc n) (cached f)" by (simp add: Cons_nth_drop_Suc)
  then show ?case using Suc by (simp add: list_update_append flip: replicate_append_same)
qed simp

lemma vmmap_all_ones: "cached (vmmap_main n f) = replicate n (CHR 0x01)"
  by (simp add: vmmap_main_def store_ones_prefix ftruncate_def)

text \<open>A written file can be read at once, but is only on the disk when \<open>Sync\<close> has succeeded.\<close>

lemma fsync_main_durable:
  "fsync_main ok data f = (f', ls, Inr ()) \<Longrightarrow>
     stable f' = data \<and> ls = [WroteBytes (go_len data), BeforeSync data, SyncDone, AfterSync data]"
  "fsync_main ok data f = (f', ls, Inl e) \<Longrightarrow> SyncDone \<notin> set ls \<Longrightarrow> stable f' = stable f"
  by (auto simp: fsync_main_def and_then_def fsys_def fsync_def ftruncate_def pwrite_def resized_def split: if_splits)

text \<open>The array is the slice's memory; what lies behind the slice is read without a check.\<close>

lemma unsafe_reads_outside:
  "unsafe_main a mem = Some ([1, 2, 3, 4, 5, 6, 7, 8, 9, 10, 11, 12, 13, 14, 15, 16], 1, 6,
     [100, 101, 3, 4, 5, 6, 7, 8, 9, 10, 11, 12, 13, 14, 15, 16], mem (a + 20))"
  by (simp add: unsafe_main_def array_get_def array_set_def byte_slice_def unsafe_init_def upt_rec)

end
