(* ===== verification/DeepCopy.thy ===== *)
theory DeepCopy
  imports GoPrelude
begin

text \<open>
  The copies of objects that \<open>controller-gen\<close> writes: \<open>zz_generated.deepcopy.go\<close> of the Guestbook operator and of
  the Book operator, with their types. The memory is a store of arrays, so that two slices can share one;
  a pointer to an object is an array and an index. \<open>deep_copier\<close> is what a deep copy promises; the copies of
  the library's own parts (\<open>ObjectMeta\<close>, \<open>ListMeta\<close>) are parameters that keep it.
\<close>

section \<open>The memory\<close>

text \<open>Arrays of strings, arrays of objects of a type \<open>'g\<close>, and what the library allocates.\<close>

datatype ('g, 'c) cell = StringArray "string list" | ObjectArray "'g list" | LibraryCell 'c

record ('g, 'c) store =
  cell_at :: "nat \<Rightarrow> ('g, 'c) cell"
  next_free :: nat

definition store_new :: "('g, 'c) cell \<Rightarrow> ('g, 'c) store \<Rightarrow> nat \<times> ('g, 'c) store" where
  "store_new c s = (next_free s, s\<lparr>cell_at := (cell_at s)(next_free s := c), next_free := Suc (next_free s)\<rparr>)"

definition store_put :: "nat \<Rightarrow> ('g, 'c) cell \<Rightarrow> ('g, 'c) store \<Rightarrow> ('g, 'c) store" where
  "store_put a c s = s\<lparr>cell_at := (cell_at s)(a := c)\<rparr>"

text \<open>A slice: the array, where it starts in it and its length.\<close>

datatype window = Window (win_array: nat) (win_start: nat) (win_length: nat)

definition strings_at :: "('g, 'c) store \<Rightarrow> nat \<Rightarrow> string list" where
  "strings_at s a = (case cell_at s a of StringArray xs \<Rightarrow> xs | _ \<Rightarrow> [])"

definition objects_at :: "('g, 'c) store \<Rightarrow> nat \<Rightarrow> 'g list" where
  "objects_at s a = (case cell_at s a of ObjectArray gs \<Rightarrow> gs | _ \<Rightarrow> [])"

definition cut :: "window \<Rightarrow> 'x list \<Rightarrow> 'x list" where
  "cut w xs = take (win_length w) (drop (win_start w) xs)"

section \<open>What a deep copy promises\<close>

text \<open>
  \<open>view\<close> is what a value shows, \<open>cells\<close> where it shows it from, and \<open>ok\<close> that its slices lie in allocated arrays.
  The copy shows the same, from new cells only, and the old cells are as they were.
\<close>

locale deep_copier =
  fixes ok :: "('g, 'c) store \<Rightarrow> 'r \<Rightarrow> bool"
    and view :: "('g, 'c) store \<Rightarrow> 'r \<Rightarrow> 'v"
    and cells :: "('g, 'c) store \<Rightarrow> 'r \<Rightarrow> nat set"
    and copy :: "'r \<Rightarrow> ('g, 'c) store \<Rightarrow> 'r \<times> ('g, 'c) store"
  assumes frame: "(\<And>a. a \<in> cells s r \<Longrightarrow> cell_at t a = cell_at s a) \<Longrightarrow> view t r = view s r \<and> cells t r = cells s r"
    and frame_ok: "(\<And>a. a \<in> cells s r \<Longrightarrow> cell_at t a = cell_at s a) \<Longrightarrow> next_free s \<le> next_free t \<Longrightarrow> ok s r \<Longrightarrow> ok t r"
    and ok_cells: "ok s r \<Longrightarrow> cells s r \<subseteq> {..<next_free s}"
    and copy_grows: "copy r s = (r', s') \<Longrightarrow> ok s r \<Longrightarrow> next_free s \<le> next_free s'"
    and copy_keeps: "copy r s = (r', s') \<Longrightarrow> ok s r \<Longrightarrow> a < next_free s \<Longrightarrow> cell_at s' a = cell_at s a"
    and copy_view: "copy r s = (r', s') \<Longrightarrow> ok s r \<Longrightarrow> view s' r' = view s r"
    and copy_fresh: "copy r s = (r', s') \<Longrightarrow> ok s r \<Longrightarrow> cells s' r' \<subseteq> {next_free s..<next_free s'}"
    and copy_ok: "copy r s = (r', s') \<Longrightarrow> ok s r \<Longrightarrow> ok s' r'"
begin

text \<open>What is read from the cells below a bound is the same in a store that has kept them.\<close>

lemma kept:
  assumes "ok s r" "\<And>a. a < next_free s \<Longrightarrow> cell_at t a = cell_at s a"
  shows "view t r = view s r" "cells t r = cells s r" "next_free s \<le> next_free t \<Longrightarrow> ok t r"
proof -
  have a: "a \<in> cells s r \<Longrightarrow> cell_at t a = cell_at s a" for a using ok_cells [OF assms(1)] assms(2) by auto
  show "view t r = view s r" "cells t r = cells s r" using frame [of s r t, OF a] by blast+
  show "next_free s \<le> next_free t \<Longrightarrow> ok t r" using frame_ok [of s r t, OF a] assms(1) by blast
qed

lemma original_kept:
  assumes "copy r s = (r', s')" "ok s r"
  shows "view s' r = view s r" "cells s' r = cells s r" "ok s' r"
  using kept [OF assms(2) copy_keeps [OF assms]] copy_grows [OF assms] by blast+

lemma apart: "copy r s = (r', s') \<Longrightarrow> ok s r \<Longrightarrow> cells s' r' \<inter> cells s' r = {}"
  using copy_fresh original_kept(2) ok_cells by fastforce

lemma elsewhere: "a \<notin> cells s r \<Longrightarrow> view (store_put a c s) r = view s r"
  using frame [of s r "store_put a c s"] by (force simp: store_put_def)

text \<open>A write to a cell of the one is not seen through the other.\<close>

lemma independent:
  assumes "copy r s = (r', s')" "ok s r"
  shows "view s' r' = view s r \<and> view s' r = view s r \<and> ok s' r' \<and>
    (\<forall>a c. a \<in> cells s' r' \<longrightarrow> view (store_put a c s') r = view s r) \<and>
    (\<forall>a c. a \<in> cells s' r \<longrightarrow> view (store_put a c s') r' = view s r)"
  using copy_view [OF assms] original_kept [OF assms] copy_ok [OF assms] apart [OF assms] elsewhere by (metis disjoint_iff)

end

section \<open>The types\<close>

type_synonym type_meta = "string \<times> string"

record guestbook_spec =
  size_field :: int
  config_map_name :: string
  spec_type :: string

record guestbook_status =
  active :: string
  standby :: "window option"

record 'm guestbook =
  gb_type :: type_meta
  gb_meta :: 'm
  gb_spec :: guestbook_spec
  gb_status :: guestbook_status

record 'm book_object =
  bk_type :: type_meta
  bk_meta :: 'm
  bk_spec_name :: string

record 'k list_object =
  lo_type :: type_meta
  lo_meta :: 'k
  items :: "window option"

section \<open>The copies\<close>

text \<open>What \<open>*out\<close> is after \<open>in.DeepCopyInto(out)\<close>, for a type at a time.\<close>

definition copy_spec :: "guestbook_spec \<Rightarrow> ('g, 'c) store \<Rightarrow> guestbook_spec \<times> ('g, 'c) store" where
  "copy_spec x s = (x, s)"

definition copy_status :: "guestbook_status \<Rightarrow> ('g, 'c) store \<Rightarrow> guestbook_status \<times> ('g, 'c) store" where
  "copy_status x s =
     (case standby x of
        None \<Rightarrow> (x, s)
      | Some w \<Rightarrow>
          let (b, s1) = store_new (StringArray (replicate (win_length w) [])) s;
              s2 = store_put b (StringArray (cut w (strings_at s1 (win_array w)))) s1
          in (x\<lparr>standby := Some (Window b 0 (win_length w))\<rparr>, s2))"

definition copy_guestbook ::
    "('m \<Rightarrow> ('g, 'c) store \<Rightarrow> 'm \<times> ('g, 'c) store) \<Rightarrow> 'm guestbook \<Rightarrow> ('g, 'c) store \<Rightarrow> 'm guestbook \<times> ('g, 'c) store" where
  "copy_guestbook mcopy x s =
     (let out = x\<lparr>gb_type := gb_type x\<rparr>;
          (m, s1) = mcopy (gb_meta x) s;
          out = out\<lparr>gb_meta := m, gb_spec := gb_spec x\<rparr>;
          (st, s2) = copy_status (gb_status x) s1
      in (out\<lparr>gb_status := st\<rparr>, s2))"

definition copy_book ::
    "('m \<Rightarrow> ('g, 'c) store \<Rightarrow> 'm \<times> ('g, 'c) store) \<Rightarrow> 'm book_object \<Rightarrow> ('g, 'c) store \<Rightarrow> 'm book_object \<times> ('g, 'c) store" where
  "copy_book mcopy x s = (let (m, s1) = mcopy (bk_meta x) s in (x\<lparr>bk_meta := m\<rparr>, s1))"

text \<open>\<open>(*in)[i].DeepCopyInto(&(*out)[j])\<close>: through pointers, each an array and an index.\<close>

definition copy_into ::
    "('g \<Rightarrow> ('g, 'c) store \<Rightarrow> 'g \<times> ('g, 'c) store) \<Rightarrow> nat \<times> nat \<Rightarrow> nat \<times> nat \<Rightarrow> ('g, 'c) store \<Rightarrow> ('g, 'c) store" where
  "copy_into gcopy inp outp s =
     (let (g, s1) = gcopy (objects_at s (fst inp) ! snd inp) s
      in store_put (fst outp) (ObjectArray ((objects_at s1 (fst outp))[snd outp := g])) s1)"

text \<open>The loop over the items; \<open>zero\<close> is the zero value of the object's type.\<close>

fun copy_items ::
    "('g \<Rightarrow> ('g, 'c) store \<Rightarrow> 'g \<times> ('g, 'c) store) \<Rightarrow> window \<Rightarrow> nat \<Rightarrow> nat list \<Rightarrow> ('g, 'c) store \<Rightarrow> ('g, 'c) store" where
  "copy_items gcopy w b [] s = s"
| "copy_items gcopy w b (i # is) s =
     copy_items gcopy w b is (copy_into gcopy (win_array w, win_start w + i) (b, i) s)"

definition copy_list ::
    "'g \<Rightarrow> ('g \<Rightarrow> ('g, 'c) store \<Rightarrow> 'g \<times> ('g, 'c) store) \<Rightarrow> ('k \<Rightarrow> ('g, 'c) store \<Rightarrow> 'k \<times> ('g, 'c) store) \<Rightarrow>
      'k list_object \<Rightarrow> ('g, 'c) store \<Rightarrow> 'k list_object \<times> ('g, 'c) store" where
  "copy_list zero gcopy kcopy x s =
     (let (k, s1) = kcopy (lo_meta x) s;
          out = x\<lparr>lo_meta := k\<rparr>
      in case items x of
           None \<Rightarrow> (out, s1)
         | Some w \<Rightarrow>
             let (b, s2) = store_new (ObjectArray (replicate (win_length w) zero)) s1
             in (out\<lparr>items := Some (Window b 0 (win_length w))\<rparr>, copy_items gcopy w b [0..<win_length w] s2))"

definition zero_guestbook :: "'m \<Rightarrow> 'm guestbook" where
  "zero_guestbook m =
     \<lparr>gb_type = ([], []), gb_meta = m, gb_spec = \<lparr>size_field = 0, config_map_name = [], spec_type = []\<rparr>,
      gb_status = \<lparr>active = [], standby = None\<rparr>\<rparr>"

definition zero_book :: "'m \<Rightarrow> 'm book_object" where
  "zero_book m = \<lparr>bk_type = ([], []), bk_meta = m, bk_spec_name = []\<rparr>"

definition copy_guestbook_list where
  "copy_guestbook_list m0 mcopy kcopy = copy_list (zero_guestbook m0) (copy_guestbook mcopy) kcopy"

definition copy_book_list where
  "copy_book_list m0 mcopy kcopy = copy_list (zero_book m0) (copy_book mcopy) kcopy"

text \<open>\<open>DeepCopy\<close>: a nil pointer stays nil, otherwise a new object is filled. \<open>DeepCopyObject\<close> gives an interface,
which for a nil pointer is nil itself and not an interface that holds a nil pointer.\<close>

definition deep_copy ::
    "'g \<Rightarrow> ('g \<Rightarrow> ('g, 'c) store \<Rightarrow> 'g \<times> ('g, 'c) store) \<Rightarrow> (nat \<times> nat) option \<Rightarrow> ('g, 'c) store \<Rightarrow> (nat \<times> nat) option \<times> ('g, 'c) store" where
  "deep_copy zero gcopy inp s =
     (case inp of
        None \<Rightarrow> (None, s)
      | Some p \<Rightarrow> let (b, s1) = store_new (ObjectArray [zero]) s in (Some (b, 0), copy_into gcopy p (b, 0) s1))"

datatype interface_value = NilInterface | Holding "(nat \<times> nat) option"

definition deep_copy_object ::
    "'g \<Rightarrow> ('g \<Rightarrow> ('g, 'c) store \<Rightarrow> 'g \<times> ('g, 'c) store) \<Rightarrow> (nat \<times> nat) option \<Rightarrow> ('g, 'c) store \<Rightarrow> interface_value \<times> ('g, 'c) store" where
  "deep_copy_object zero gcopy inp s =
     (case deep_copy zero gcopy inp s of
        (Some c, s1) \<Rightarrow> (Holding (Some c), s1)
      | (None, s1) \<Rightarrow> (NilInterface, s1))"

text \<open>
  The other types of the two packages. \<open>BookSpec\<close> is its name and \<open>BookStatus\<close> is empty. A pointer to one of these
  is the value it points to, \<open>None\<close> a nil one; \<open>new\<close> and \<open>DeepCopyInto\<close> give a value of its own.
\<close>

definition new_copy :: "('r \<Rightarrow> ('g, 'c) store \<Rightarrow> 'r \<times> ('g, 'c) store) \<Rightarrow> 'r option \<Rightarrow> ('g, 'c) store \<Rightarrow> 'r option \<times> ('g, 'c) store" where
  "new_copy into x s = (case x of None \<Rightarrow> (None, s) | Some r \<Rightarrow> (case into r s of (r', s') \<Rightarrow> (Some r', s')))"

datatype 'r interface = Nil_interface | Interface 'r

definition new_copy_object :: "('r option \<Rightarrow> ('g, 'c) store \<Rightarrow> 'r option \<times> ('g, 'c) store) \<Rightarrow> 'r option \<Rightarrow> ('g, 'c) store \<Rightarrow> 'r interface \<times> ('g, 'c) store" where
  "new_copy_object copy x s = (case copy x s of (Some c, s') \<Rightarrow> (Interface c, s') | (None, s') \<Rightarrow> (Nil_interface, s'))"

definition copy_book_spec :: "string \<Rightarrow> ('g, 'c) store \<Rightarrow> string \<times> ('g, 'c) store" where
  "copy_book_spec x s = (x, s)"

definition copy_book_status :: "unit \<Rightarrow> ('g, 'c) store \<Rightarrow> unit \<times> ('g, 'c) store" where
  "copy_book_status x s = (x, s)"

definition new_guestbook_list where "new_guestbook_list m0 mcopy kcopy = new_copy (copy_guestbook_list m0 mcopy kcopy)"
definition new_guestbook_list_object where "new_guestbook_list_object m0 mcopy kcopy = new_copy_object (new_guestbook_list m0 mcopy kcopy)"
definition new_guestbook_spec where "new_guestbook_spec = new_copy copy_spec"
definition new_guestbook_status where "new_guestbook_status = new_copy copy_status"
definition new_book where "new_book mcopy = new_copy (copy_book mcopy)"
definition new_book_object where "new_book_object mcopy = new_copy_object (new_book mcopy)"
definition new_book_list where "new_book_list m0 mcopy kcopy = new_copy (copy_book_list m0 mcopy kcopy)"
definition new_book_list_object where "new_book_list_object m0 mcopy kcopy = new_copy_object (new_book_list m0 mcopy kcopy)"
definition new_book_spec where "new_book_spec = new_copy copy_book_spec"
definition new_book_status where "new_book_status = new_copy copy_book_status"

section \<open>What the values show\<close>

definition status_view :: "('g, 'c) store \<Rightarrow> guestbook_status \<Rightarrow> string \<times> string list option" where
  "status_view s x = (active x, map_option (\<lambda>w. cut w (strings_at s (win_array w))) (standby x))"

definition status_cells :: "('g, 'c) store \<Rightarrow> guestbook_status \<Rightarrow> nat set" where
  "status_cells s x = (case standby x of None \<Rightarrow> {} | Some w \<Rightarrow> {win_array w})"

definition guestbook_view where
  "guestbook_view mview s x = (gb_type x, mview s (gb_meta x), gb_spec x, status_view s (gb_status x))"

definition guestbook_cells where
  "guestbook_cells mcells s x = mcells s (gb_meta x) \<union> status_cells s (gb_status x)"

definition book_view where
  "book_view mview s x = (bk_type x, mview s (bk_meta x), bk_spec_name x)"

definition book_cells where
  "book_cells mcells s x = mcells s (bk_meta x)"

definition items_view where
  "items_view gview s w = map (gview s) (cut w (objects_at s (win_array w)))"

definition items_cells where
  "items_cells gcells s w = insert (win_array w) (\<Union>g \<in> set (cut w (objects_at s (win_array w))). gcells s g)"

definition list_view where
  "list_view gview kview s x = (lo_type x, kview s (lo_meta x), map_option (items_view gview s) (items x))"

definition list_cells where
  "list_cells gcells kcells s x =
     kcells s (lo_meta x) \<union> (case items x of None \<Rightarrow> {} | Some w \<Rightarrow> items_cells gcells s w)"

definition status_ok :: "('g, 'c) store \<Rightarrow> guestbook_status \<Rightarrow> bool" where
  "status_ok s x =
     (case standby x of
        None \<Rightarrow> True
      | Some w \<Rightarrow> win_array w < next_free s \<and> win_start w + win_length w \<le> length (strings_at s (win_array w)))"

definition guestbook_ok where
  "guestbook_ok mok s x = (mok s (gb_meta x) \<and> status_ok s (gb_status x))"

definition book_ok where
  "book_ok mok s x = mok s (bk_meta x)"

definition items_ok where
  "items_ok gok s w = (win_array w < next_free s \<and> win_start w + win_length w \<le> length (objects_at s (win_array w)) \<and>
     (\<forall>g \<in> set (cut w (objects_at s (win_array w))). gok s g))"

definition list_ok where
  "list_ok gok kok s x \<longleftrightarrow> kok s (lo_meta x) \<and> (\<forall>w. items x = Some w \<longrightarrow> items_ok gok s w)"

lemma store_simps [simp]:
  "next_free (store_put a c s) = next_free s" "cell_at (store_put a c s) = (cell_at s)(a := c)"
  "strings_at (store_put a (StringArray xs) s) a = xs" "objects_at (store_put a (ObjectArray gs) s) a = gs"
  "store_new c s = (next_free s, (store_put (next_free s) c s)\<lparr>next_free := Suc (next_free s)\<rparr>)"
  by (simp_all add: store_put_def strings_at_def objects_at_def store_new_def)

lemma at_cong:
  "cell_at t a = cell_at s a \<Longrightarrow> strings_at t a = strings_at s a"
  "cell_at t a = cell_at s a \<Longrightarrow> objects_at t a = objects_at s a"
  by (simp_all add: strings_at_def objects_at_def)

lemma cut_whole [simp]: "cut (Window b 0 n) xs = take n xs" "length (cut w xs) = min (win_length w) (length xs - win_start w)"
  by (simp_all add: cut_def)

lemma strings_of_put: "strings_at (s\<lparr>next_free := n\<rparr>) a = strings_at s a" "objects_at (s\<lparr>next_free := n\<rparr>) a = objects_at s a"
  by (simp_all add: strings_at_def objects_at_def)

section \<open>Each type's copy is deep\<close>

interpretation status: deep_copier status_ok status_view status_cells copy_status
proof unfold_locales
  fix s t :: "('g, 'c) store" and r :: guestbook_status
  assume a: "\<And>a. a \<in> status_cells s r \<Longrightarrow> cell_at t a = cell_at s a"
  have e: "standby r = Some w \<Longrightarrow> strings_at t (win_array w) = strings_at s (win_array w)" for w
    using a [of "win_array w"] at_cong(1) by (simp add: status_cells_def)
  show "status_view t r = status_view s r \<and> status_cells t r = status_cells s r"
    using e by (cases "standby r") (simp_all add: status_view_def status_cells_def)
  show "next_free s \<le> next_free t \<Longrightarrow> status_ok s r \<Longrightarrow> status_ok t r"
    using e by (cases "standby r") (simp_all add: status_ok_def)
next
  fix s :: "('g, 'c) store" and r :: guestbook_status
  show "status_ok s r \<Longrightarrow> status_cells s r \<subseteq> {..<next_free s}"
    by (cases "standby r") (simp_all add: status_ok_def status_cells_def)
next
  fix r r' :: guestbook_status and s s' :: "('g, 'c) store" and a
  assume c: "copy_status r s = (r', s')" and o: "status_ok s r"
  have "next_free s \<le> next_free s' \<and> (a < next_free s \<longrightarrow> cell_at s' a = cell_at s a) \<and> status_view s' r' = status_view s r \<and>
      status_cells s' r' \<subseteq> {next_free s..<next_free s'} \<and> status_ok s' r'"
  proof (cases "standby r")
    case None
    then show ?thesis using c by (auto simp: copy_status_def status_view_def status_cells_def status_ok_def)
  next
    case (Some w)
    have old: "win_array w < next_free s" "length (cut w (strings_at s (win_array w))) = win_length w"
      using o Some by (auto simp: status_ok_def)
    then have "strings_at ((store_put (next_free s) x s)\<lparr>next_free := n\<rparr>) (win_array w) = strings_at s (win_array w)" for x n
      by (simp add: strings_at_def store_put_def)
    then show ?thesis using c old Some
      by (auto simp: copy_status_def status_view_def status_cells_def status_ok_def Let_def simp del: cut_whole(2))
  qed
  then show "next_free s \<le> next_free s'" "a < next_free s \<Longrightarrow> cell_at s' a = cell_at s a" "status_view s' r' = status_view s r"
    "status_cells s' r' \<subseteq> {next_free s..<next_free s'}" "status_ok s' r'" by blast+
qed

section \<open>Copiers of parts\<close>

text \<open>One copy after another, and the copy of a part of a record. The proofs are by the laws of the parts.\<close>

definition copy_pair where
  "copy_pair f g = (\<lambda>(x, y) s. let (x', s1) = f x s; (y', s2) = g y s1 in ((x', y'), s2))"

lemma pair_copier:
  fixes f :: "'r \<Rightarrow> ('g, 'c) store \<Rightarrow> 'r \<times> ('g, 'c) store"
  assumes f: "deep_copier ok1 view1 cells1 f" and g: "deep_copier ok2 view2 cells2 g"
  shows "deep_copier (\<lambda>s (x, y). ok1 s x \<and> ok2 s y) (\<lambda>s (x, y). (view1 s x, view2 s y)) (\<lambda>s (x, y). cells1 s x \<union> cells2 s y) (copy_pair f g)"
proof unfold_locales
  fix s t :: "('g, 'c) store" and r assume "\<And>a. a \<in> (case r of (x, y) \<Rightarrow> cells1 s x \<union> cells2 s y) \<Longrightarrow> cell_at t a = cell_at s a"
  then have a: "\<And>a. a \<in> cells1 s (fst r) \<Longrightarrow> cell_at t a = cell_at s a" "\<And>a. a \<in> cells2 s (snd r) \<Longrightarrow> cell_at t a = cell_at s a"
    by (simp_all add: case_prod_beta)
  show "(case r of (x, y) \<Rightarrow> (view1 t x, view2 t y)) = (case r of (x, y) \<Rightarrow> (view1 s x, view2 s y)) \<and>
      (case r of (x, y) \<Rightarrow> cells1 t x \<union> cells2 t y) = (case r of (x, y) \<Rightarrow> cells1 s x \<union> cells2 s y)"
    using deep_copier.frame [OF f, of s "fst r" t, OF a(1)] deep_copier.frame [OF g, of s "snd r" t, OF a(2)] by (auto split: prod.splits)
  show "next_free s \<le> next_free t \<Longrightarrow> (case r of (x, y) \<Rightarrow> ok1 s x \<and> ok2 s y) \<Longrightarrow> (case r of (x, y) \<Rightarrow> ok1 t x \<and> ok2 t y)"
    using deep_copier.frame_ok [OF f, of s "fst r" t, OF a(1)] deep_copier.frame_ok [OF g, of s "snd r" t, OF a(2)] by (auto split: prod.splits)
next
  fix s :: "('g, 'c) store" and r
  show "(case r of (x, y) \<Rightarrow> ok1 s x \<and> ok2 s y) \<Longrightarrow> (case r of (x, y) \<Rightarrow> cells1 s x \<union> cells2 s y) \<subseteq> {..<next_free s}"
    using deep_copier.ok_cells [OF f] deep_copier.ok_cells [OF g] by (fastforce split: prod.splits)
next
  fix r r' a and s s' :: "('g, 'c) store"
  assume c: "copy_pair f g r s = (r', s')" and o: "case r of (x, y) \<Rightarrow> ok1 s x \<and> ok2 s y"
  obtain x y x' y' s1 where p: "r = (x, y)" "f x s = (x', s1)" "g y s1 = (y', s')" "r' = (x', y')"
    using c by (auto simp: copy_pair_def split: prod.splits)
  have o1: "ok1 s x" and o2: "ok2 s y" using o p(1) by simp_all
  note keep1 = deep_copier.copy_keeps [OF f p(2) o1]
  have y1: "view2 s1 y = view2 s y" "cells2 s1 y = cells2 s y" "ok2 s1 y"
    using deep_copier.kept [OF g o2 keep1] deep_copier.copy_grows [OF f p(2) o1] by blast+
  note grows = deep_copier.copy_grows [OF f p(2) o1] deep_copier.copy_grows [OF g p(3) y1(3)]
  note keep2 = deep_copier.copy_keeps [OF g p(3) y1(3)]
  have ok1': "ok1 s1 x'" by (rule deep_copier.copy_ok [OF f p(2) o1])
  have x1: "view1 s' x' = view1 s1 x'" "cells1 s' x' = cells1 s1 x'" "ok1 s' x'"
    using deep_copier.kept [OF f ok1' keep2] grows(2) by blast+
  show "next_free s \<le> next_free s'" using grows by simp
  show "a < next_free s \<Longrightarrow> cell_at s' a = cell_at s a" using keep1 keep2 grows by simp
  show "(case r' of (x, y) \<Rightarrow> (view1 s' x, view2 s' y)) = (case r of (x, y) \<Rightarrow> (view1 s x, view2 s y))"
    using x1(1) y1(1) deep_copier.copy_view [OF f p(2) o1] deep_copier.copy_view [OF g p(3) y1(3)] p by simp
  show "(case r' of (x, y) \<Rightarrow> cells1 s' x \<union> cells2 s' y) \<subseteq> {next_free s..<next_free s'}"
    using x1(2) deep_copier.copy_fresh [OF f p(2) o1] deep_copier.copy_fresh [OF g p(3) y1(3)] grows p by fastforce
  show "case r' of (x, y) \<Rightarrow> ok1 s' x \<and> ok2 s' y"
    using x1(3) deep_copier.copy_ok [OF g p(3) y1(3)] p by simp
qed

lemma part_copier:
  fixes f :: "'q \<Rightarrow> ('g, 'c) store \<Rightarrow> 'q \<times> ('g, 'c) store"
  assumes f: "deep_copier ok view cells f"
    and get_put: "\<And>q r. get (put q r) = q" "\<And>q r. rest (put q r) = rest r"
  shows "deep_copier (\<lambda>s r. ok s (get r)) (\<lambda>s r. h (rest r) (view s (get r))) (\<lambda>s r. cells s (get r))
    (\<lambda>r s. let (q, s') = f (get r) s in (put q r, s'))"
proof unfold_locales
  fix s t :: "('g, 'c) store" and r assume a: "\<And>a. a \<in> cells s (get r) \<Longrightarrow> cell_at t a = cell_at s a"
  show "h (rest r) (view t (get r)) = h (rest r) (view s (get r)) \<and> cells t (get r) = cells s (get r)"
    using deep_copier.frame [OF f, of s "get r" t, OF a] by simp
  show "next_free s \<le> next_free t \<Longrightarrow> ok s (get r) \<Longrightarrow> ok t (get r)" by (rule deep_copier.frame_ok [OF f, of s "get r" t, OF a])
next
  fix s :: "('g, 'c) store" and r show "ok s (get r) \<Longrightarrow> cells s (get r) \<subseteq> {..<next_free s}" by (rule deep_copier.ok_cells [OF f])
next
  fix r r' a and s s' :: "('g, 'c) store"
  assume c: "(let (q, s') = f (get r) s in (put q r, s')) = (r', s')" and o: "ok s (get r)"
  obtain q where q: "f (get r) s = (q, s')" "r' = put q r" using c by (auto split: prod.splits)
  show "next_free s \<le> next_free s'" "a < next_free s \<Longrightarrow> cell_at s' a = cell_at s a"
    "h (rest r') (view s' (get r')) = h (rest r) (view s (get r))" "cells s' (get r') \<subseteq> {next_free s..<next_free s'}" "ok s' (get r')"
    using deep_copier.copy_grows [OF f q(1) o] deep_copier.copy_keeps [OF f q(1) o] deep_copier.copy_view [OF f q(1) o]
      deep_copier.copy_fresh [OF f q(1) o] deep_copier.copy_ok [OF f q(1) o] get_put q(2) by simp_all
qed

lemma book_copier:
  assumes "deep_copier mok mview mcells mcopy"
  shows "deep_copier (book_ok mok) (book_view mview) (book_cells mcells) (copy_book mcopy)"
  using part_copier [OF assms, of bk_meta "\<lambda>m r. r\<lparr>bk_meta := m\<rparr>" "\<lambda>r. (bk_type r, bk_spec_name r)" "\<lambda>(t, n) m. (t, m, n)"]
  by (simp add: book_ok_def [abs_def] book_view_def [abs_def] book_cells_def [abs_def] copy_book_def [abs_def])

lemma guestbook_copier:
  assumes "deep_copier mok mview mcells mcopy"
  shows "deep_copier (guestbook_ok mok) (guestbook_view mview) (guestbook_cells mcells) (copy_guestbook mcopy)"
proof -
  have f: "copy_guestbook mcopy =
      (\<lambda>r s. case copy_pair mcopy copy_status (gb_meta r, gb_status r) s of (q, s') \<Rightarrow> (r\<lparr>gb_meta := fst q, gb_status := snd q\<rparr>, s'))"
    by (auto simp: fun_eq_iff copy_pair_def copy_guestbook_def Let_def split: prod.splits)
  show ?thesis
    using part_copier [OF pair_copier [OF assms status.deep_copier_axioms], of "\<lambda>r. (gb_meta r, gb_status r)"
        "\<lambda>q r. r\<lparr>gb_meta := fst q, gb_status := snd q\<rparr>" "\<lambda>r. (gb_type r, gb_spec r)" "\<lambda>(t, sp) (m, st). (t, m, sp, st)"]
    by (simp add: f guestbook_ok_def [abs_def] guestbook_view_def [abs_def] guestbook_cells_def [abs_def])
qed

section \<open>The loop over the items\<close>

text \<open>After the items in \<open>is\<close>: the old cells and the original are as they were, and each item copied shows what
the original shows, from cells allocated since the loop began.\<close>

lemma cut_nth: "win_start w + win_length w \<le> length xs \<Longrightarrow> i < win_length w \<Longrightarrow> cut w xs ! i = xs ! (win_start w + i)"
  by (simp add: cut_def)

lemma copy_items_snoc: "copy_items gcopy w b (is @ [i]) s = copy_into gcopy (win_array w, win_start w + i) (b, i) (copy_items gcopy w b is s)"
  by (induction "is" arbitrary: s) simp_all

definition copied_upto where
  "copied_upto gok gview gcells w b n s k t \<longleftrightarrow>
     next_free s \<le> next_free t \<and> (\<forall>a < next_free s. a \<noteq> b \<longrightarrow> cell_at t a = cell_at s a) \<and>
     (\<exists>hs. cell_at t b = ObjectArray hs \<and> length hs = n \<and>
        (\<forall>i < k. gok t (hs ! i) \<and> gview t (hs ! i) = gview s (cut w (objects_at s (win_array w)) ! i) \<and>
                 gcells t (hs ! i) \<subseteq> {next_free s..<next_free t}))"

lemma copy_into_step:
  fixes gcopy :: "'g \<Rightarrow> ('g, 'c) store \<Rightarrow> 'g \<times> ('g, 'c) store"
  assumes g: "deep_copier gok gview gcells gcopy"
    and w: "items_ok gok s w" and b: "b < next_free s" "b \<noteq> win_array w"
      "\<forall>g \<in> set (cut w (objects_at s (win_array w))). b \<notin> gcells s g"
    and k: "k < win_length w" and t: "copied_upto gok gview gcells w b (win_length w) s k t"
  shows "copied_upto gok gview gcells w b (win_length w) s (Suc k) (copy_into gcopy (win_array w, win_start w + k) (b, k) t)"
proof -
  let ?gs = "objects_at s (win_array w)"
  let ?g = "?gs ! (win_start w + k)"
  have gk: "cut w ?gs ! k = ?g" "?g \<in> set (cut w ?gs)"
    using w k cut_nth [of w ?gs k] nth_mem [of k "cut w ?gs"] by (auto simp: items_ok_def)
  obtain hs where hs: "cell_at t b = ObjectArray hs" "length hs = win_length w"
      "\<forall>i < k. gok t (hs ! i) \<and> gview t (hs ! i) = gview s (cut w ?gs ! i) \<and> gcells t (hs ! i) \<subseteq> {next_free s..<next_free t}"
    and n: "next_free s \<le> next_free t" and old: "\<And>a. a < next_free s \<Longrightarrow> a \<noteq> b \<Longrightarrow> cell_at t a = cell_at s a"
    using t unfolding copied_upto_def by blast
  have gt: "objects_at t (win_array w) ! (win_start w + k) = ?g"
    using w b(2) old by (simp add: items_ok_def objects_at_def)
  have okg: "gok s ?g" using w gk(2) by (auto simp: items_ok_def)
  have same: "a \<in> gcells s ?g \<Longrightarrow> cell_at t a = cell_at s a" for a
    using old deep_copier.ok_cells [OF g okg] b(3) gk(2) by (metis lessThan_iff subsetD)
  have gv: "gview t ?g = gview s ?g" "gok t ?g"
    using deep_copier.frame [OF g same] deep_copier.frame_ok [OF g same n okg] by blast+
  obtain g' t1 where c: "gcopy ?g t = (g', t1)" by (cases "gcopy ?g t")
  note c_facts = deep_copier.copy_grows [OF g c gv(2)] deep_copier.copy_view [OF g c gv(2)] deep_copier.copy_fresh [OF g c gv(2)]
    deep_copier.copy_ok [OF g c gv(2)] and keeps = deep_copier.copy_keeps [OF g c gv(2)]
  define t2 where "t2 = store_put b (ObjectArray (hs[k := g'])) t1"
  have into: "copy_into gcopy (win_array w, win_start w + k) (b, k) t = t2"
    using gt c keeps [of b] b(1) n hs(1) by (simp add: copy_into_def t2_def objects_at_def)
  have off_b: "gview t2 h = gview t1 h" "gok t1 h \<Longrightarrow> gok t2 h" "gcells t2 h = gcells t1 h" if "b \<notin> gcells t1 h" for h
    using deep_copier.frame [OF g, of t1 h t2] deep_copier.frame_ok [OF g, of t1 h t2] that by (fastforce simp: t2_def)+
  have "gok t2 (hs[k := g'] ! i) \<and> gview t2 (hs[k := g'] ! i) = gview s (cut w ?gs ! i) \<and> gcells t2 (hs[k := g'] ! i) \<subseteq> {next_free s..<next_free t2}"
    if i: "i < Suc k" for i
  proof (cases "i = k")
    case True
    have "b \<notin> gcells t1 g'" using c_facts(3) n b(1) by fastforce
    then show ?thesis using True off_b [of g'] c_facts gv(1) gk(1) hs(2) k n by (fastforce simp: t2_def)
  next
    case False
    then have i: "i < k" using that by simp
    have h: "gok t (hs ! i)" "gview t (hs ! i) = gview s (cut w ?gs ! i)" "gcells t (hs ! i) \<subseteq> {next_free s..<next_free t}"
      using hs(3) i by blast+
    note k1 = deep_copier.kept [OF g h(1), of t1]
    have k1: "gview t1 (hs ! i) = gview t (hs ! i)" "gcells t1 (hs ! i) = gcells t (hs ! i)" "gok t1 (hs ! i)"
      using k1 keeps c_facts(1) by blast+
    then have "b \<notin> gcells t1 (hs ! i)" using h(3) b(1) by fastforce
    then show ?thesis using off_b [of "hs ! i"] k1 h False c_facts(1) by (fastforce simp: t2_def)
  qed
  moreover have "next_free s \<le> next_free t2" "cell_at t2 b = ObjectArray (hs[k := g'])" "length (hs[k := g']) = win_length w"
    using n c_facts(1) hs(2) by (simp_all add: t2_def)
  moreover have "a < next_free s \<Longrightarrow> a \<noteq> b \<Longrightarrow> cell_at t2 a = cell_at s a" for a
    using old keeps n by (simp add: t2_def)
  ultimately show ?thesis unfolding into copied_upto_def by blast
qed

lemma copied_all:
  fixes gcopy :: "'g \<Rightarrow> ('g, 'c) store \<Rightarrow> 'g \<times> ('g, 'c) store"
  assumes g: "deep_copier gok gview gcells gcopy"
    and w: "items_ok gok s w" and b: "b < next_free s" "b \<noteq> win_array w"
      "\<forall>g \<in> set (cut w (objects_at s (win_array w))). b \<notin> gcells s g"
    and z: "cell_at s b = ObjectArray zs" "length zs = win_length w"
  shows "k \<le> win_length w \<Longrightarrow> copied_upto gok gview gcells w b (win_length w) s k (copy_items gcopy w b [0..<k] s)"
proof (induction k)
  case 0
  then show ?case using z by (simp add: copied_upto_def)
next
  case (Suc k)
  then show ?case using copy_into_step [OF g w b, of k] by (simp add: copy_items_snoc)
qed

definition copy_window where
  "copy_window zero gcopy x s =
     (case x of
        None \<Rightarrow> (None, s)
      | Some w \<Rightarrow>
          let (b, s2) = store_new (ObjectArray (replicate (win_length w) zero)) s
          in (Some (Window b 0 (win_length w)), copy_items gcopy w b [0..<win_length w] s2))"

lemma window_kept:
  assumes g: "deep_copier gok gview gcells gcopy" and a: "\<And>a. a \<in> items_cells gcells s w \<Longrightarrow> cell_at t a = cell_at s a"
  shows "items_view gview t w = items_view gview s w" "items_cells gcells t w = items_cells gcells s w"
    "next_free s \<le> next_free t \<Longrightarrow> items_ok gok s w \<Longrightarrow> items_ok gok t w"
proof -
  have o: "objects_at t (win_array w) = objects_at s (win_array w)"
    using a [of "win_array w"] at_cong(2) by (simp add: items_cells_def)
  have e: "a \<in> gcells s h \<Longrightarrow> cell_at t a = cell_at s a" if "h \<in> set (cut w (objects_at s (win_array w)))" for h a
    using a that by (auto simp: items_cells_def)
  have f: "gview t h = gview s h \<and> gcells t h = gcells s h" if "h \<in> set (cut w (objects_at s (win_array w)))" for h
    using deep_copier.frame [OF g, of s h t] e [OF that] by blast
  show "items_view gview t w = items_view gview s w" "items_cells gcells t w = items_cells gcells s w"
    using f o by (auto simp: items_view_def items_cells_def)
  show "next_free s \<le> next_free t \<Longrightarrow> items_ok gok s w \<Longrightarrow> items_ok gok t w"
    using deep_copier.frame_ok [OF g, of s _ t] e o by (fastforce simp: items_ok_def)
qed

lemma window_copied:
  assumes g: "deep_copier gok gview gcells gcopy" and w: "items_ok gok s w"
    and c: "copy_window zero gcopy (Some w) s = (r', s')"
  shows "\<exists>b. r' = Some (Window b 0 (win_length w)) \<and> next_free s \<le> b \<and> b < next_free s' \<and>
    (\<forall>a < next_free s. cell_at s' a = cell_at s a) \<and> items_view gview s' (Window b 0 (win_length w)) = items_view gview s w \<and>
    items_cells gcells s' (Window b 0 (win_length w)) \<subseteq> {next_free s..<next_free s'} \<and> items_ok gok s' (Window b 0 (win_length w))"
proof -
  let ?n = "win_length w" let ?b = "next_free s"
  define s2 where "s2 = snd (store_new (ObjectArray (replicate ?n zero)) s)"
  have s2: "next_free s2 = Suc ?b" "cell_at s2 ?b = ObjectArray (replicate ?n zero)" "\<And>a. a < ?b \<Longrightarrow> cell_at s2 a = cell_at s a"
    by (simp_all add: s2_def store_put_def)
  have r: "r' = Some (Window ?b 0 ?n)" "s' = copy_items gcopy w ?b [0..<?n] s2"
    using c by (simp_all add: copy_window_def s2_def)
  have cells: "items_cells gcells s w \<subseteq> {..<?b}"
    using w deep_copier.ok_cells [OF g] by (fastforce simp: items_cells_def items_ok_def)
  have "a \<in> items_cells gcells s w \<Longrightarrow> cell_at s2 a = cell_at s a" for a using s2(3) cells by blast
  note k = window_kept [OF g this]
  have w2: "items_ok gok s2 w" "items_view gview s2 w = items_view gview s w" "items_cells gcells s2 w = items_cells gcells s w"
    using k w s2(1) by simp_all
  have nb: "?b \<noteq> win_array w" "\<forall>h \<in> set (cut w (objects_at s2 (win_array w))). ?b \<notin> gcells s2 h"
    using cells unfolding w2(3) [symmetric] by (auto simp: items_cells_def)
  have b2: "?b < next_free s2" using s2(1) by simp
  have u: "copied_upto gok gview gcells w ?b ?n s2 ?n s'"
    unfolding r(2) by (rule copied_all [OF g w2(1) b2 nb s2(2)]) simp_all
  then obtain hs where hs: "next_free s2 \<le> next_free s'" "\<forall>a < next_free s2. a \<noteq> ?b \<longrightarrow> cell_at s' a = cell_at s2 a"
      "cell_at s' ?b = ObjectArray hs" "length hs = ?n"
      "\<forall>i < ?n. gok s' (hs ! i) \<and> gview s' (hs ! i) = gview s2 (cut w (objects_at s2 (win_array w)) ! i) \<and> gcells s' (hs ! i) \<subseteq> {next_free s2..<next_free s'}"
    unfolding copied_upto_def by blast
  have o: "objects_at s' ?b = hs" "cut (Window ?b 0 ?n) hs = hs" using hs(3,4) by (simp_all add: objects_at_def)
  have len: "length (cut w (objects_at s2 (win_array w))) = ?n" using w2(1) by (auto simp: items_ok_def)
  have "items_view gview s' (Window ?b 0 ?n) = items_view gview s2 w"
    using hs(4,5) len by (auto simp: items_view_def o intro!: nth_equalityI simp del: cut_whole)
  moreover have "items_cells gcells s' (Window ?b 0 ?n) \<subseteq> {?b..<next_free s'}"
    using hs s2(1) by (fastforce simp: items_cells_def o in_set_conv_nth simp del: cut_whole)
  moreover have "items_ok gok s' (Window ?b 0 ?n)"
    using hs s2(1) by (auto simp: items_ok_def o in_set_conv_nth simp del: cut_whole)
  ultimately show ?thesis using r(1) hs(1,2) s2 w2(2) by fastforce
qed

definition window_ok where "window_ok gok s x = (\<forall>w. x = Some w \<longrightarrow> items_ok gok s w)"

definition window_cells where "window_cells gcells s x = (case x of None \<Rightarrow> {} | Some w \<Rightarrow> items_cells gcells s w)"

lemma window_copier:
  fixes gcopy :: "'g \<Rightarrow> ('g, 'c) store \<Rightarrow> 'g \<times> ('g, 'c) store"
  assumes g: "deep_copier gok gview gcells gcopy"
  shows "deep_copier (window_ok gok) (\<lambda>s. map_option (items_view gview s)) (window_cells gcells) (copy_window zero gcopy)"
proof unfold_locales
  fix s t :: "('g, 'c) store" and r assume a: "\<And>a. a \<in> window_cells gcells s r \<Longrightarrow> cell_at t a = cell_at s a"
  have k: "items_view gview t w = items_view gview s w \<and> items_cells gcells t w = items_cells gcells s w \<and>
      (next_free s \<le> next_free t \<longrightarrow> items_ok gok s w \<longrightarrow> items_ok gok t w)" if "r = Some w" for w
    using window_kept [OF g, of s w t] a that by (simp add: window_cells_def)
  show "map_option (items_view gview t) r = map_option (items_view gview s) r \<and> window_cells gcells t r = window_cells gcells s r"
    using k by (cases r) (simp_all add: window_cells_def)
  show "next_free s \<le> next_free t \<Longrightarrow> window_ok gok s r \<Longrightarrow> window_ok gok t r"
    using k by (cases r) (simp_all add: window_ok_def)
next
  fix s :: "('g, 'c) store" and r assume "window_ok gok s r"
  then show "window_cells gcells s r \<subseteq> {..<next_free s}"
    using deep_copier.ok_cells [OF g] by (cases r) (fastforce simp: window_ok_def window_cells_def items_ok_def items_cells_def)+
next
  fix r r' a and s s' :: "('g, 'c) store"
  assume c: "copy_window zero gcopy r s = (r', s')" and o: "window_ok gok s r"
  have "next_free s \<le> next_free s' \<and> (a < next_free s \<longrightarrow> cell_at s' a = cell_at s a) \<and>
      map_option (items_view gview s') r' = map_option (items_view gview s) r \<and>
      window_cells gcells s' r' \<subseteq> {next_free s..<next_free s'} \<and> window_ok gok s' r'"
  proof (cases r)
    case None
    then show ?thesis using c by (auto simp: copy_window_def window_cells_def window_ok_def)
  next
    case (Some w)
    then show ?thesis using window_copied [OF g, of s w zero r' s'] c o by (fastforce simp: window_ok_def window_cells_def)
  qed
  then show "next_free s \<le> next_free s'" "a < next_free s \<Longrightarrow> cell_at s' a = cell_at s a"
    "map_option (items_view gview s') r' = map_option (items_view gview s) r" "window_cells gcells s' r' \<subseteq> {next_free s..<next_free s'}"
    "window_ok gok s' r'" by blast+
qed

lemma list_copier:
  fixes gcopy :: "'g \<Rightarrow> ('g, 'c) store \<Rightarrow> 'g \<times> ('g, 'c) store"
  assumes g: "deep_copier gok gview gcells gcopy" and k: "deep_copier kok kview kcells kcopy"
  shows "deep_copier (list_ok gok kok) (list_view gview kview) (list_cells gcells kcells) (copy_list zero gcopy kcopy)"
proof -
  have f: "copy_list zero gcopy kcopy =
      (\<lambda>r s. case copy_pair kcopy (copy_window zero gcopy) (lo_meta r, items r) s of (q, s') \<Rightarrow> (r\<lparr>lo_meta := fst q, items := snd q\<rparr>, s'))"
    by (auto simp: fun_eq_iff copy_pair_def copy_list_def copy_window_def Let_def split: prod.splits option.splits)
  show ?thesis
    using part_copier [OF pair_copier [OF k window_copier [OF g, of zero]], of "\<lambda>r. (lo_meta r, items r)"
        "\<lambda>q r. r\<lparr>lo_meta := fst q, items := snd q\<rparr>" lo_type "\<lambda>t (m, st). (t, m, st)"]
    by (simp add: f list_ok_def [abs_def] list_view_def [abs_def] list_cells_def [abs_def] window_ok_def [abs_def] window_cells_def [abs_def])
qed

section \<open>The operators' objects\<close>

text \<open>
  C17. The copy of a list of guestbooks is deep: it shows what the list shows, the list still shows it, and
  after a write to any array that one of the two reaches the other shows what it showed. Needed is that
  the library's copies of the metadata are deep.
\<close>

theorem guestbook_lists_apart:
  assumes "deep_copier mok mview mcells mcopy" "deep_copier kok kview kcells kcopy"
    and "list_ok (guestbook_ok mok) kok s l" "copy_guestbook_list m0 mcopy kcopy l s = (l', s')"
  shows "list_view (guestbook_view mview) kview s' l' = list_view (guestbook_view mview) kview s l \<and>
    list_view (guestbook_view mview) kview s' l = list_view (guestbook_view mview) kview s l \<and>
    list_ok (guestbook_ok mok) kok s' l' \<and>
    (\<forall>a c. a \<in> list_cells (guestbook_cells mcells) kcells s' l' \<longrightarrow>
       list_view (guestbook_view mview) kview (store_put a c s') l = list_view (guestbook_view mview) kview s l) \<and>
    (\<forall>a c. a \<in> list_cells (guestbook_cells mcells) kcells s' l \<longrightarrow>
       list_view (guestbook_view mview) kview (store_put a c s') l' = list_view (guestbook_view mview) kview s l)"
  using deep_copier.independent [OF list_copier [OF guestbook_copier [OF assms(1)] assms(2)] assms(4) [unfolded copy_guestbook_list_def] assms(3)] .

text \<open>A store with one guestbook, whose standby is one string; the metadata are copied like a status.\<close>

definition one_guestbook :: "guestbook_status guestbook" where
  "one_guestbook =
     \<lparr>gb_type = (''Guestbook'', ''v1''), gb_meta = \<lparr>active = ''m'', standby = None\<rparr>,
      gb_spec = \<lparr>size_field = 1, config_map_name = ''c'', spec_type = []\<rparr>, gb_status = \<lparr>active = ''a'', standby = Some (Window 0 0 1)\<rparr>\<rparr>"

definition one_store :: "(guestbook_status guestbook, unit) store" where
  "one_store = \<lparr>cell_at = (\<lambda>a. if a = 0 then StringArray [''b''] else ObjectArray [one_guestbook]), next_free = 2\<rparr>"

definition one_list :: "guestbook_status list_object" where
  "one_list = \<lparr>lo_type = (''GuestbookList'', ''v1''), lo_meta = \<lparr>active = [], standby = None\<rparr>, items = Some (Window 1 0 1)\<rparr>"

lemma one_list_ok: "list_ok (guestbook_ok status_ok) status_ok one_store one_list"
  by (simp add: list_ok_def one_list_def items_ok_def one_store_def objects_at_def strings_at_def one_guestbook_def guestbook_ok_def status_ok_def)

theorem guestbook_lists_apart_witness:
  "\<exists>l' s'. copy_guestbook_list \<lparr>active = [], standby = None\<rparr> copy_status copy_status one_list one_store = (l', s') \<and>
     list_view (guestbook_view status_view) status_view s' l' = list_view (guestbook_view status_view) status_view one_store one_list"
  using guestbook_lists_apart [OF status.deep_copier_axioms status.deep_copier_axioms one_list_ok]
  by (metis surj_pair)

text \<open>An assignment alone shares the arrays: a write through it is seen in the original.\<close>

lemma assignment_shares:
  "list_view (guestbook_view status_view) status_view (store_put 0 (StringArray [''x'']) one_store) one_list \<noteq>
   list_view (guestbook_view status_view) status_view one_store one_list"
  by (simp add: list_view_def one_list_def items_view_def one_store_def objects_at_def strings_at_def one_guestbook_def guestbook_view_def
      status_view_def store_put_def)

lemma book_lists_apart:
  assumes "deep_copier mok mview mcells mcopy" "deep_copier kok kview kcells kcopy"
    and "list_ok (book_ok mok) kok s l" "copy_book_list m0 mcopy kcopy l s = (l', s')"
  shows "list_view (book_view mview) kview s' l' = list_view (book_view mview) kview s l"
    "list_cells (book_cells mcells) kcells s' l' \<inter> list_cells (book_cells mcells) kcells s' l = {}"
  using deep_copier.copy_view [OF list_copier [OF book_copier [OF assms(1)] assms(2)] assms(4) [unfolded copy_book_list_def] assms(3)]
    deep_copier.apart [OF list_copier [OF book_copier [OF assms(1)] assms(2)] assms(4) [unfolded copy_book_list_def] assms(3)] .

text \<open>Through a pointer: a nil pointer gives the nil interface, any other one an object that shows the same.\<close>

lemma deep_copy_window:
  "deep_copy zero gcopy (Some p) s = (Some (next_free s, 0), snd (copy_window zero gcopy (Some (Window (fst p) (snd p) 1)) s))"
  by (simp add: deep_copy_def copy_window_def)

lemma deep_copy_object_nil: "deep_copy_object zero gcopy None s = (NilInterface, s)"
  by (simp add: deep_copy_object_def deep_copy_def)

lemma deep_copy_object_copied:
  assumes g: "deep_copier gok gview gcells gcopy" and p: "items_ok gok s (Window a i 1)"
    and c: "deep_copy_object zero gcopy (Some (a, i)) s = (x, s')"
  shows "\<exists>b. x = Holding (Some (b, 0)) \<and> items_view gview s' (Window b 0 1) = items_view gview s (Window a i 1) \<and>
    items_cells gcells s' (Window b 0 1) \<inter> items_cells gcells s (Window a i 1) = {}"
proof -
  obtain r where r: "copy_window zero gcopy (Some (Window a i 1)) s = (r, s')"
    using c by (cases "copy_window zero gcopy (Some (Window a i 1)) s") (simp add: deep_copy_object_def deep_copy_window)
  obtain b where b: "r = Some (Window b 0 1)" "next_free s \<le> b" "items_view gview s' (Window b 0 1) = items_view gview s (Window a i 1)"
      "items_cells gcells s' (Window b 0 1) \<subseteq> {next_free s..<next_free s'}"
    using window_copied [OF g p r] by auto
  have "b = next_free s" "x = Holding (Some (next_free s, 0))"
    using c r b(1) by (auto simp: deep_copy_object_def deep_copy_window copy_window_def)
  moreover have "items_cells gcells s (Window a i 1) \<subseteq> {..<next_free s}"
    using p deep_copier.ok_cells [OF g] by (fastforce simp: items_ok_def items_cells_def)
  ultimately show ?thesis using b by fastforce
qed

text \<open>
  A deep copy of a part is one of a pointer to it, so the laws pass to \<open>DeepCopy\<close> of every type: what
  it gives shows the same from cells of its own, and a nil pointer gives a nil pointer.
\<close>

definition opt_ok where "opt_ok ok s x = (case x of None \<Rightarrow> True | Some r \<Rightarrow> ok s r)"
definition opt_view where "opt_view view s x = map_option (view s) x"
definition opt_cells where "opt_cells cells s x = (case x of None \<Rightarrow> {} | Some r \<Rightarrow> cells s r)"

lemmas opt_defs = opt_ok_def opt_view_def opt_cells_def new_copy_def

lemma new_copier:
  fixes into :: "'r \<Rightarrow> ('g, 'c) store \<Rightarrow> 'r \<times> ('g, 'c) store"
  assumes c: "deep_copier ok view cells into"
  shows "deep_copier (opt_ok ok) (opt_view view) (opt_cells cells) (new_copy into)"
proof unfold_locales
  fix s t :: "('g, 'c) store" and x
  assume a: "\<And>a. a \<in> opt_cells cells s x \<Longrightarrow> cell_at t a = cell_at s a"
  show "opt_view view t x = opt_view view s x \<and> opt_cells cells t x = opt_cells cells s x"
    using a deep_copier.frame [OF c, of s "the x" t] by (cases x) (auto simp: opt_defs)
  show "next_free s \<le> next_free t \<Longrightarrow> opt_ok ok s x \<Longrightarrow> opt_ok ok t x"
    using a deep_copier.frame_ok [OF c, of s "the x" t] by (cases x) (auto simp: opt_defs)
next
  fix s :: "('g, 'c) store" and x
  show "opt_ok ok s x \<Longrightarrow> opt_cells cells s x \<subseteq> {..<next_free s}"
    using deep_copier.ok_cells [OF c, of s "the x"] by (cases x) (auto simp: opt_defs)
next
  fix x x' a and s s' :: "('g, 'c) store"
  assume n: "new_copy into x s = (x', s')" and o: "opt_ok ok s x"
  have "next_free s \<le> next_free s' \<and> (a < next_free s \<longrightarrow> cell_at s' a = cell_at s a) \<and> opt_view view s' x' = opt_view view s x \<and>
      opt_cells cells s' x' \<subseteq> {next_free s..<next_free s'} \<and> opt_ok ok s' x'"
  proof (cases x)
    case (Some r)
    then obtain r' where r: "into r s = (r', s')" "x' = Some r'" using n by (auto simp: opt_defs split: prod.splits)
    have ok: "ok s r" using o Some by (simp add: opt_defs)
    show ?thesis
      using deep_copier.copy_grows [OF c r(1) ok] deep_copier.copy_keeps [OF c r(1) ok] deep_copier.copy_view [OF c r(1) ok]
        deep_copier.copy_fresh [OF c r(1) ok] deep_copier.copy_ok [OF c r(1) ok] Some r(2) by (simp add: opt_defs)
  qed (use n in \<open>auto simp: opt_defs\<close>)
  then show "next_free s \<le> next_free s'" "a < next_free s \<Longrightarrow> cell_at s' a = cell_at s a" "opt_view view s' x' = opt_view view s x"
    "opt_cells cells s' x' \<subseteq> {next_free s..<next_free s'}" "opt_ok ok s' x'" by blast+
qed

interpretation status_pointer: deep_copier "opt_ok status_ok" "opt_view status_view" "opt_cells status_cells" new_guestbook_status
  unfolding new_guestbook_status_def by (rule new_copier) (rule status.deep_copier_axioms)

lemma new_guestbook_list_copier:
  assumes "deep_copier mok mview mcells mcopy" "deep_copier kok kview kcells kcopy"
  shows "deep_copier (opt_ok (list_ok (guestbook_ok mok) kok)) (opt_view (list_view (guestbook_view mview) kview))
      (opt_cells (list_cells (guestbook_cells mcells) kcells)) (new_guestbook_list m0 mcopy kcopy)"
  unfolding new_guestbook_list_def copy_guestbook_list_def
  by (intro new_copier list_copier guestbook_copier assms)

lemma new_book_list_copier:
  assumes "deep_copier mok mview mcells mcopy" "deep_copier kok kview kcells kcopy"
  shows "deep_copier (opt_ok (list_ok (book_ok mok) kok)) (opt_view (list_view (book_view mview) kview))
      (opt_cells (list_cells (book_cells mcells) kcells)) (new_book_list m0 mcopy kcopy)"
  unfolding new_book_list_def copy_book_list_def
  by (intro new_copier list_copier book_copier assms)

text \<open>\<open>DeepCopyObject\<close> of a nil pointer is the nil interface, also where the pointer's type has methods.\<close>

lemma new_object_nil: "fst (new_book_list_object m0 mcopy kcopy x s) = Nil_interface \<longleftrightarrow> x = None"
  by (auto simp: new_book_list_object_def new_copy_object_def new_book_list_def new_copy_def split: prod.splits option.splits)

end
