(* ===== verification/RpcServices.thy ===== *)
theory RpcServices
  imports GoText "HOL-Library.Multiset"
begin

text \<open>
  Remote calls: the service of \<open>limiter/rpc/limit.go\<close>, which answers at most a hundred calls at a time,
  and its web front end (\<open>limiter/api\<close>); the echo service of \<open>etcd/grpc\<close> with its servers and the client
  that goes round them. The semaphore of go-zero and the connection of gRPC are parameters.
\<close>

section \<open>At most n calls at a time\<close>

text \<open>\<open>syncx.Limit\<close>: \<open>TryBorrow\<close>, and \<open>Return\<close>, whose error (\<open>True\<close>) says that nothing was borrowed.\<close>

record 'b limit_lib =
  try_borrow :: "'b \<Rightarrow> bool \<times> 'b"
  give_back :: "'b \<Rightarrow> bool \<times> 'b"

text \<open>What the library promises of a limit of \<open>n\<close>, with \<open>borrowed\<close> the number that is out.\<close>

definition counts_to :: "nat \<Rightarrow> 'b limit_lib \<Rightarrow> ('b \<Rightarrow> nat) \<Rightarrow> bool" where
  "counts_to n L borrowed \<longleftrightarrow>
     (\<forall>b got b'. try_borrow L b = (got, b') \<longrightarrow>
        got = (borrowed b < n) \<and> borrowed b' = (if got then Suc (borrowed b) else borrowed b)) \<and>
     (\<forall>b failed b'. give_back L b = (failed, b') \<longrightarrow> failed = (borrowed b = 0) \<and> borrowed b' = borrowed b - 1)"

text \<open>A handler answers or panics; in both cases the deferred \<open>Return\<close> runs.\<close>

datatype 'r handler_end = Reply 'r | Panic

datatype 'r call = Waiting | Handling | Done "'r handler_end" | Unavailable

record ('b, 'r) limit_server =
  limit_state :: 'b
  calls :: "'r call list"
  logged :: nat
    \<comment> \<open>errors of \<open>Return\<close> in the log\<close>

definition max_calls :: nat where "max_calls = 100"

inductive limit_step :: "'b limit_lib \<Rightarrow> (nat \<Rightarrow> 'r handler_end) \<Rightarrow> ('b, 'r) limit_server \<Rightarrow> ('b, 'r) limit_server \<Rightarrow> bool"
  for L h where
  borrows [go_intros]: "i < length (calls s) \<Longrightarrow> calls s ! i = Waiting \<Longrightarrow> try_borrow L (limit_state s) = (True, b) \<Longrightarrow>
     limit_step L h s (s\<lparr>limit_state := b, calls := (calls s)[i := Handling]\<rparr>)"
| rejects [go_intros]: "i < length (calls s) \<Longrightarrow> calls s ! i = Waiting \<Longrightarrow> try_borrow L (limit_state s) = (False, b) \<Longrightarrow>
     limit_step L h s (s\<lparr>limit_state := b, calls := (calls s)[i := Unavailable]\<rparr>)"
| answers [go_intros]: "i < length (calls s) \<Longrightarrow> calls s ! i = Handling \<Longrightarrow> give_back L (limit_state s) = (failed, b) \<Longrightarrow>
     limit_step L h s (s\<lparr>limit_state := b, calls := (calls s)[i := Done (h i)], logged := logged s + (if failed then 1 else 0)\<rparr>)"

definition limit_start :: "'b \<Rightarrow> nat \<Rightarrow> ('b, 'r) limit_server" where
  "limit_start b n = \<lparr>limit_state = b, calls = replicate n Waiting, logged = 0\<rparr>"

text \<open>\<open>is_handling\<close> and the calls still to be answered.\<close>

definition handling :: "'r call list \<Rightarrow> nat" where
  "handling cs = count (mset cs) Handling"

definition calls_left :: "'r call list \<Rightarrow> nat" where
  "calls_left cs = 2 * count (mset cs) Waiting + count (mset cs) Handling"

lemma count_update:
  "i < length xs \<Longrightarrow> count (mset (xs[i := y])) z = count (mset xs) z - (if xs ! i = z then 1 else 0) + (if y = z then 1 else 0)"
  by (simp add: mset_update)

lemma count_at: "i < length xs \<Longrightarrow> xs ! i = z \<Longrightarrow> 0 < count (mset xs) z"
  by (auto simp: count_greater_zero_iff)

definition limit_inv :: "('b \<Rightarrow> nat) \<Rightarrow> nat \<Rightarrow> ('b, 'r) limit_server \<Rightarrow> bool" where
  "limit_inv borrowed n s \<longleftrightarrow> borrowed (limit_state s) = handling (calls s) \<and> handling (calls s) \<le> n \<and> logged s = 0"

lemma limit_inv_step:
  assumes L: "counts_to n L borrowed" and inv: "limit_inv borrowed n s" and step: "limit_step L h s t"
  shows "limit_inv borrowed n t \<and> calls_left (calls t) < calls_left (calls s)"
  using step
proof cases
  case (borrows i b)
  then have "borrowed (limit_state s) < n" "borrowed b = Suc (borrowed (limit_state s))"
    using L by (auto simp: counts_to_def)
  then show ?thesis using borrows inv count_at [OF borrows(2,3)]
    by (simp del: count_greater_zero_iff add: limit_inv_def handling_def calls_left_def count_update)
next
  case (rejects i b)
  then have "borrowed b = borrowed (limit_state s)" using L by (auto simp: counts_to_def)
  then show ?thesis using rejects inv count_at [OF rejects(2,3)]
    by (simp del: count_greater_zero_iff add: limit_inv_def handling_def calls_left_def count_update)
next
  case (answers i failed b)
  have h: "0 < handling (calls s)" using answers count_at [OF answers(2,3)] by (simp add: handling_def)
  have "failed = (borrowed (limit_state s) = 0)" "borrowed b = borrowed (limit_state s) - 1"
    using L answers(4) by (auto simp: counts_to_def)
  then have "failed = False" "borrowed b = borrowed (limit_state s) - 1"
    using h inv by (auto simp: limit_inv_def)
  moreover have "handling (calls s) - 1 \<le> n" using inv by (auto simp: limit_inv_def)
  ultimately show ?thesis using answers inv h
    by (simp add: limit_inv_def handling_def calls_left_def count_update)
qed

lemma limit_enabled:
  assumes "i < length (calls s)" "calls s ! i \<in> {Waiting, Handling}"
  shows "\<exists>t. limit_step L h s t"
  using assms borrows [of i s L] rejects [of i s L] answers [of i s L]
  by (cases "calls s ! i"; cases "fst (try_borrow L (limit_state s))") (auto, (metis prod.collapse)+)

definition all_answered :: "('b, 'r) limit_server \<Rightarrow> bool" where
  "all_answered s = (\<forall>c \<in> set (calls s). c \<noteq> Waiting \<and> c \<noteq> Handling)"

lemma limit_run:
  fixes h :: "nat \<Rightarrow> 'r handler_end" and b :: 'b
  assumes L: "counts_to n L borrowed" and b: "borrowed b = 0"
  shows "progress_run (\<lambda>s. s = limit_start b k) (limit_step L h) (limit_inv borrowed n) (\<lambda>s. calls_left (calls s)) all_answered"
proof unfold_locales
  fix s t :: "('b, 'r) limit_server"
  show "s = limit_start b k \<Longrightarrow> limit_inv borrowed n s" using b by (simp add: limit_inv_def limit_start_def handling_def)
  show "limit_inv borrowed n s \<Longrightarrow> limit_step L h s t \<Longrightarrow> limit_inv borrowed n t" using limit_inv_step [OF L] by blast
  show "\<exists>u. limit_step L h s u \<and> calls_left (calls u) < calls_left (calls s)" if i: "limit_inv borrowed n s" and a: "\<not> all_answered s"
  proof -
    obtain i where "i < length (calls s)" "calls s ! i \<in> {Waiting, Handling}"
      using a by (auto simp: all_answered_def in_set_conv_nth)
    then obtain t where "limit_step L h s t" using limit_enabled by metis
    then show ?thesis using limit_inv_step [OF L i] by blast
  qed
qed

text \<open>
  C28. At any time at most a hundred calls are being handled, exactly as many as have borrowed; a call is
  refused only when there are a hundred; \<open>Return\<close> never fails, also when a handler panics; and from
  any point the remaining calls are all answered or refused, after which nothing is borrowed.
\<close>

theorem calls_limited:
  assumes "counts_to max_calls L borrowed" "borrowed b = 0" "(limit_step L h)\<^sup>*\<^sup>* (limit_start b k) s"
  shows "handling (calls s) \<le> max_calls \<and> borrowed (limit_state s) = handling (calls s) \<and> logged s = 0 \<and>
    (\<forall>t i. limit_step L h s t \<longrightarrow> calls s ! i = Waiting \<longrightarrow> calls t ! i = Unavailable \<longrightarrow> handling (calls s) = max_calls) \<and>
    (\<exists>t. (limit_step L h)\<^sup>*\<^sup>* s t \<and> (\<forall>c \<in> set (calls t). c \<noteq> Waiting \<and> c \<noteq> Handling) \<and> borrowed (limit_state t) = 0)"
proof -
  note run = limit_run [OF assms(1,2), of k h]
  have inv: "limit_inv borrowed max_calls s"
    by (rule step_invariant.inv_reachable [OF progress_run.axioms(1) [OF run] refl assms(3)])
  have full: "handling (calls s) = max_calls"
    if st: "limit_step L h s t" and c: "calls s ! i = Waiting" "calls t ! i = Unavailable" for t i
    using st
  proof cases
    case (borrows j b)
    then show ?thesis using c by (cases "i = j") simp_all
  next
    case (rejects j b)
    then have "\<not> borrowed (limit_state s) < max_calls" using assms(1) by (auto simp: counts_to_def)
    then show ?thesis using inv by (simp add: limit_inv_def)
  next
    case (answers j failed b)
    then show ?thesis using c by (cases "i = j") simp_all
  qed
  obtain t where t: "(limit_step L h)\<^sup>*\<^sup>* s t" "all_answered t" using progress_run.ends [OF run inv] by blast
  have "limit_inv borrowed max_calls t"
    by (rule step_invariant.inv_steps [OF progress_run.axioms(1) [OF run] t(1) inv])
  then have "borrowed (limit_state t) = 0" using t(2) by (auto simp: limit_inv_def all_answered_def handling_def count_eq_zero_iff)
  then show ?thesis using inv full t by (auto simp: limit_inv_def all_answered_def)
qed

text \<open>A channel of the capacity is such a limit.\<close>

definition channel_limit :: "nat \<Rightarrow> nat limit_lib" where
  "channel_limit n = \<lparr>try_borrow = (\<lambda>b. if b < n then (True, Suc b) else (False, b)), give_back = (\<lambda>b. (b = 0, b - 1))\<rparr>"

lemma channel_limit_counts: "counts_to n (channel_limit n) (\<lambda>b. b)"
  by (simp add: counts_to_def channel_limit_def)

theorem calls_limited_witness:
  "\<exists>s. (limit_step (channel_limit max_calls) (\<lambda>_. Panic))\<^sup>*\<^sup>* (limit_start 0 1 :: (nat, unit) limit_server) s \<and> logged s = 0 \<and> handling (calls s) = 0"
proof -
  let ?h = "\<lambda>_ :: nat. Panic :: unit handler_end"
  obtain t where t: "(limit_step (channel_limit max_calls) ?h)\<^sup>*\<^sup>* (limit_start 0 1) t" "limit_state t = 0"
    using calls_limited [where h = ?h and k = 1, OF channel_limit_counts refl rtranclp.rtrancl_refl] by blast
  from calls_limited [OF channel_limit_counts refl t(1)] t show ?thesis by auto
qed

section \<open>The web front end\<close>

text \<open>A request: its headers, the values of its context and its path variable \<open>id\<close>; \<open>httpx.Parse\<close> is \<open>atoi\<close>.\<close>

record web_request =
  headers :: "string \<rightharpoonup> string"
  context_values :: "string \<rightharpoonup> string"
  path_id :: string

datatype web_answer = OkEmpty | OkJson "(int \<times> string \<times> int) option" | ErrorAnswer string

definition ping_logic :: "string option" where "ping_logic = None"
definition ready_logic :: "string option" where "ready_logic = None"

text \<open>\<open>return\<close> with the named results as they are: no response and no error.\<close>

definition userinfo_logic :: "int \<Rightarrow> (int \<times> string \<times> int) option \<times> string option" where
  "userinfo_logic req = (None, None)"

definition ping_handler :: "web_request \<Rightarrow> web_answer" where
  "ping_handler r = (case ping_logic of Some e \<Rightarrow> ErrorAnswer e | None \<Rightarrow> OkEmpty)"

definition ready_handler :: "web_request \<Rightarrow> web_answer" where
  "ready_handler r = (case ready_logic of Some e \<Rightarrow> ErrorAnswer e | None \<Rightarrow> OkEmpty)"

definition userinfo_handler :: "web_request \<Rightarrow> web_answer" where
  "userinfo_handler r =
     (case atoi (path_id r) of
        None \<Rightarrow> ErrorAnswer ''parse''
      | Some n \<Rightarrow> (case userinfo_logic n of (resp, Some e) \<Rightarrow> ErrorAnswer e | (resp, None) \<Rightarrow> OkJson resp))"

definition user_agent :: "(web_request \<Rightarrow> web_answer) \<Rightarrow> web_request \<Rightarrow> web_answer" where
  "user_agent after r =
     (let val = (case headers r ''User-Agent'' of Some v \<Rightarrow> v | None \<Rightarrow> [])
      in after (r\<lparr>context_values := (context_values r)(''User-Agent'' \<mapsto> val)\<rparr>))"

definition api_routes :: "(string \<times> (web_request \<Rightarrow> web_answer)) list" where
  "api_routes = [(''/ping'', ping_handler), (''/ready'', ready_handler), (''/user/info/:id'', user_agent userinfo_handler)]"

section \<open>The echo service\<close>

definition echo_method :: string where "echo_method = ''/example.echo.EchoService/Echo''"

definition echo_server :: "string \<Rightarrow> string \<Rightarrow> 'e + string" where
  "echo_server sid v = Inr (''server='' @ sid @ '' reply='' @ v)"

text \<open>\<open>echoHandler\<close>: what decoding the request gives, and an interceptor if there is one.\<close>

definition echo_handler ::
    "(string \<Rightarrow> 'e + string) \<Rightarrow> 'e + string \<Rightarrow> (string \<Rightarrow> string \<Rightarrow> (string \<Rightarrow> 'e + string) \<Rightarrow> 'e + string) option \<Rightarrow> 'e + string" where
  "echo_handler srv dec interceptor =
     (case dec of
        Inl e \<Rightarrow> Inl e
      | Inr x \<Rightarrow> (case interceptor of None \<Rightarrow> srv x | Some f \<Rightarrow> f x echo_method (\<lambda>req. srv req)))"

definition call_echo :: "(string \<Rightarrow> string \<Rightarrow> 'e + string) \<Rightarrow> string \<Rightarrow> 'e + string" where
  "call_echo invoke msg = (case invoke echo_method msg of Inl e \<Rightarrow> Inl e | Inr resp \<Rightarrow> Inr resp)"

text \<open>The servers of a list of ports; \<open>i\<close> is the position in the list, blank entries counted.\<close>

fun servers_from :: "nat \<Rightarrow> string list \<Rightarrow> (string \<times> string) list" where
  "servers_from i [] = []"
| "servers_from i (p # ps) =
     (let port = trim_space p
      in if port = [] then servers_from (Suc i) ps
         else (''127.0.0.1:'' @ port, ''node-'' @ itoa (int (i + 1))) # servers_from (Suc i) ps)"

definition echo_servers :: "string \<Rightarrow> (string \<times> string) list option" where
  "echo_servers ports_arg =
     (let parts = split_on (CHR '','') ports_arg in if length parts = 0 then None else Some (servers_from 0 parts))"

text \<open>The servers start in any order; the first that cannot listen ends the program for all.\<close>

fun start_servers :: "(string \<Rightarrow> bool) \<Rightarrow> (string \<times> string) list \<Rightarrow> (string \<times> string) list \<Rightarrow> string + (string \<times> string) list" where
  "start_servers free up [] = Inr up"
| "start_servers free up ((a, n) # ss) =
     (if free a \<and> a \<notin> fst ` set up then start_servers free (up @ [(a, n)]) ss else Inl a)"

definition client_addrs :: "string \<Rightarrow> string list" where
  "client_addrs addrs_arg = filter (\<lambda>a. a \<noteq> []) (map trim_space (split_on (CHR '','') addrs_arg))"

datatype 'e echo_line = CallReply nat string | CallFailed nat 'e

text \<open>The calls \<open>i\<close> to \<open>total\<close> over a connection that knows how many calls it has carried.\<close>

fun client_calls :: "(nat \<Rightarrow> string \<Rightarrow> string \<Rightarrow> 'e + string) \<Rightarrow> nat \<Rightarrow> nat \<Rightarrow> 'e echo_line list" where
  "client_calls conn i 0 = []"
| "client_calls conn i (Suc k) =
     (case call_echo (conn (i - 1)) (''hello-'' @ itoa (int i)) of
        Inl e \<Rightarrow> CallFailed i e
      | Inr resp \<Rightarrow> CallReply i resp) # client_calls conn (Suc i) k"

definition echo_client :: "(string list \<Rightarrow> (nat \<Rightarrow> string \<Rightarrow> string \<Rightarrow> 'e + string) option) \<Rightarrow> string \<Rightarrow> int \<Rightarrow> 'e echo_line list option" where
  "echo_client dial addrs_arg total_calls =
     (let addrs = client_addrs addrs_arg
      in if addrs = [] then None
         else map_option (\<lambda>conn. client_calls conn 1 (nat total_calls)) (dial addrs))"

text \<open>A round-robin connection: call \<open>k\<close> goes to the address \<open>j + k\<close>, whose server handles it.\<close>

definition round_robin_conn :: "(string \<times> string) list \<Rightarrow> string list \<Rightarrow> nat \<Rightarrow> (nat \<Rightarrow> string \<Rightarrow> string \<Rightarrow> 'e + string) \<Rightarrow> bool" where
  "round_robin_conn servers addrs j conn \<longleftrightarrow>
     (\<forall>k req sid. map_of servers (addrs ! ((j + k) mod length addrs)) = Some sid \<longrightarrow>
        conn k echo_method req = echo_handler (echo_server sid) (Inr req) None)"

section \<open>From the ports to the replies\<close>

text \<open>A port as a user writes it: not blank, without spaces at its ends, and without a comma.\<close>

definition plain_port :: "string \<Rightarrow> bool" where
  "plain_port p \<longleftrightarrow> p \<noteq> [] \<and> \<not> is_space (hd p) \<and> \<not> is_space (last p) \<and> CHR '','' \<notin> set p"

definition address_of :: "string \<Rightarrow> string" where "address_of p = ''127.0.0.1:'' @ p"

lemma address_of_inj: "address_of p = address_of q \<Longrightarrow> p = q"
  by (simp add: address_of_def)

lemma trim_port: "plain_port p \<Longrightarrow> trim_space p = p"
  by (rule trim_space_id) (simp add: plain_port_def)

lemma trim_address: "plain_port p \<Longrightarrow> trim_space (address_of p) = address_of p"
  by (rule trim_space_id) (simp add: plain_port_def address_of_def is_space_def)

lemma address_plain: "plain_port p \<Longrightarrow> CHR '','' \<notin> set (address_of p) \<and> address_of p \<noteq> []"
  by (simp add: plain_port_def address_of_def)

lemma servers_from_plain:
  "\<forall>p \<in> set ps. plain_port p \<Longrightarrow>
     servers_from i ps = map (\<lambda>k. (address_of (ps ! k), ''node-'' @ itoa (int (i + k + 1)))) [0..<length ps]"
proof (induction ps arbitrary: i)
  case (Cons p ps)
  have u: "[0..<length (p # ps)] = 0 # map Suc [0..<length ps]" by (simp add: upt_conv_Cons map_Suc_upt del: upt_Suc)
  have p: "p \<noteq> []" "trim_space p = p" using Cons.prems by (simp_all add: plain_port_def trim_port)
  have ih: "servers_from (Suc i) ps = map (\<lambda>k. (address_of (ps ! k), ''node-'' @ itoa (int (Suc i + k + 1)))) [0..<length ps]"
    by (rule Cons.IH) (use Cons.prems in simp)
  show ?case unfolding u by (simp add: p ih address_of_def del: upt_Suc)
qed simp

lemma echo_servers_plain:
  assumes "ps \<noteq> []" "\<forall>p \<in> set ps. plain_port p"
  shows "echo_servers (join_with [CHR '',''] ps) = Some (map (\<lambda>k. (address_of (ps ! k), ''node-'' @ itoa (int (k + 1)))) [0..<length ps])"
proof -
  have "split_on (CHR '','') (join_with [CHR '',''] ps) = ps" by (rule split_join [OF assms(1)]) (use assms(2) in \<open>simp add: plain_port_def\<close>)
  then show ?thesis using assms by (simp add: echo_servers_def servers_from_plain)
qed

lemma client_addrs_plain:
  assumes "ps \<noteq> []" "\<forall>p \<in> set ps. plain_port p"
  shows "client_addrs (join_with [CHR '',''] (map address_of ps)) = map address_of ps"
proof -
  have "split_on (CHR '','') (join_with [CHR '',''] (map address_of ps)) = map address_of ps"
    by (rule split_join) (use assms address_plain in auto)
  then show ?thesis using assms(2) address_plain trim_address by (auto simp: client_addrs_def filter_id_conv cong: map_cong)
qed

lemma server_of_port:
  assumes "distinct ps" "k < length ps"
  shows "map_of (map (\<lambda>k. (address_of (ps ! k), f k)) [0..<length ps]) (address_of (ps ! k)) = Some (f k)"
proof (rule map_of_is_SomeI)
  show "distinct (map fst (map (\<lambda>k. (address_of (ps ! k), f k)) [0..<length ps]))"
    using assms(1) address_of_inj by (auto simp: distinct_map inj_on_def distinct_conv_nth)
qed (use assms(2) in auto)

lemma client_calls_map:
  "(\<And>k. i \<le> k \<Longrightarrow> k < i + n \<Longrightarrow> call_echo (conn (k - 1)) (''hello-'' @ itoa (int k)) = Inr (f k)) \<Longrightarrow>
     client_calls conn i n = map (\<lambda>k. CallReply k (f k)) [i..<i + n]"
proof (induction n arbitrary: i)
  case (Suc n)
  have "client_calls conn (Suc i) n = map (\<lambda>k. CallReply k (f k)) [Suc i..<Suc i + n]" by (rule Suc.IH) (use Suc.prems in simp)
  moreover have "[i..<i + Suc n] = i # [Suc i..<Suc i + n]" by (simp add: upt_conv_Cons del: upt_Suc)
  ultimately show ?case using Suc.prems [of i] by simp
qed simp

text \<open>
  The servers started with a list of ports and a client given their addresses belong together: over
  a round-robin connection every call is answered, and call \<open>i\<close> by the server whose turn it is, named
  after the place of its port in the list, with the client's message in its reply.
\<close>

lemma echo_calls_answered:
  assumes "ps \<noteq> []" "\<forall>p \<in> set ps. plain_port p" "distinct ps"
    and "echo_servers (join_with [CHR '',''] ps) = Some servers"
    and "\<forall>addrs. \<exists>conn. dial addrs = Some conn \<and> round_robin_conn servers addrs j conn"
  shows "echo_client dial (join_with [CHR '',''] (map address_of ps)) m =
    Some (map (\<lambda>i. CallReply i (''server=node-'' @ itoa (int ((j + i - 1) mod length ps + 1)) @ '' reply=hello-'' @ itoa (int i))) [1..<1 + nat m])"
proof -
  let ?n = "length ps"
  have srv: "servers = map (\<lambda>k. (address_of (ps ! k), ''node-'' @ itoa (int (k + 1)))) [0..<?n]"
    using assms(4) echo_servers_plain [OF assms(1,2)] by simp
  obtain conn where c: "dial (map address_of ps) = Some conn" "round_robin_conn servers (map address_of ps) j conn" using assms(5) by blast
  have ans: "call_echo (conn (i - 1)) (''hello-'' @ itoa (int i)) =
      Inr (''server=node-'' @ itoa (int ((j + i - 1) mod ?n + 1)) @ '' reply=hello-'' @ itoa (int i))" if i: "1 \<le> i" for i
  proof -
    have mod: "(j + (i - 1)) mod ?n < ?n" using assms(1) by simp
    have "map_of servers (map address_of ps ! ((j + (i - 1)) mod ?n)) = Some (''node-'' @ itoa (int ((j + (i - 1)) mod ?n + 1)))"
      unfolding srv using server_of_port [OF assms(3) mod, of "\<lambda>k. ''node-'' @ itoa (int (k + 1))"] mod by simp
    then have "conn (i - 1) echo_method req = echo_handler (echo_server (''node-'' @ itoa (int ((j + (i - 1)) mod ?n + 1)))) (Inr req) None" for req
      using c(2) by (simp add: round_robin_conn_def)
    then show ?thesis using i by (simp add: call_echo_def echo_handler_def echo_server_def)
  qed
  have "client_calls conn 1 (nat m) = map (\<lambda>i. CallReply i (''server=node-'' @ itoa (int ((j + i - 1) mod ?n + 1)) @ '' reply=hello-'' @ itoa (int i))) [1..<1 + nat m]"
    by (rule client_calls_map) (rule ans)
  then show ?thesis using c(1) assms(1) by (simp add: echo_client_def client_addrs_plain [OF assms(1,2)])
qed

lemma itoa_examples: "itoa 1 = ''1''" "itoa 2 = ''2''"
  by code_simp+

definition two_servers :: "(string \<times> string) list" where
  "two_servers = [(''127.0.0.1:50051'', ''node-1''), (''127.0.0.1:50052'', ''node-2'')]"

definition two_conn :: "string list \<Rightarrow> nat \<Rightarrow> string \<Rightarrow> string \<Rightarrow> string + string" where
  "two_conn addrs k meth req =
     (case map_of two_servers (addrs ! ((0 + k) mod length addrs)) of
        Some sid \<Rightarrow> echo_handler (echo_server sid) (Inr req) None | None \<Rightarrow> Inl ''unavailable'')"

theorem echo_calls_answered_witness:
  "echo_client (\<lambda>addrs. Some (two_conn addrs)) ''127.0.0.1:50051,127.0.0.1:50052'' 2 =
     Some [CallReply 1 ''server=node-1 reply=hello-1'', CallReply 2 ''server=node-2 reply=hello-2'']"
proof -
  have s: "echo_servers (join_with '','' [''50051'', ''50052'']) = Some two_servers"
    by (simp add: echo_servers_def two_servers_def trim_space_def is_space_def itoa_examples)
  have "round_robin_conn two_servers addrs 0 (two_conn addrs)" for addrs :: "string list"
    by (simp add: round_robin_conn_def two_conn_def)
  then have d: "\<forall>addrs. \<exists>conn. Some (two_conn addrs) = Some conn \<and> round_robin_conn two_servers addrs 0 conn" by blast
  have r: "[1..<1 + nat 2] = [1, 2]" by (simp add: upt_rec)
  show ?thesis
    using echo_calls_answered [of "[''50051'', ''50052'']" two_servers "\<lambda>addrs. Some (two_conn addrs)" 0 2, OF _ _ _ s d]
    unfolding r by (simp add: plain_port_def is_space_def address_of_def itoa_examples)
qed

text \<open>The check for an empty list of ports never fires, since splitting gives at least one part: without a port
the program starts no server and waits. The client looks at the addresses it has kept.\<close>

lemma no_ports_no_servers: "echo_servers arg \<noteq> None" "echo_servers [] = Some []" "echo_client dial [] m = None"
  by (simp_all add: echo_servers_def client_addrs_def echo_client_def trim_space_def)

lemma blank_ports_keep_numbers: "echo_servers '',50052'' = Some [(''127.0.0.1:50052'', ''node-2'')]"
  by (simp add: echo_servers_def trim_space_def is_space_def itoa_examples)

text \<open>The servers all run only when each address is free and used once, whatever the order they start in.\<close>

lemma servers_run_iff:
  "(\<exists>r. start_servers free up ss = Inr r) \<longleftrightarrow>
     (\<forall>x \<in> set ss. free (fst x)) \<and> distinct (map fst ss) \<and> fst ` set ss \<inter> fst ` set up = {}"
proof (induction free up ss rule: start_servers.induct)
  case (2 free up a n ss)
  then show ?case by (cases "free a \<and> a \<notin> fst ` set up") auto
qed simp

lemma servers_run_any_order:
  assumes "mset ss = mset ts"
  shows "(\<exists>r. start_servers free [] ss = Inr r) \<longleftrightarrow> (\<exists>r. start_servers free [] ts = Inr r)"
proof -
  have "set ss = set ts" "mset (map fst ss) = mset (map fst ts)" using assms by (auto dest: mset_eq_setD)
  then show ?thesis using mset_eq_imp_distinct_iff [of "map fst ss" "map fst ts"] by (simp add: servers_run_iff)
qed

text \<open>An interceptor that calls its handler changes nothing; a request that does not decode reaches neither.\<close>

lemma interceptor_transparent:
  "echo_handler srv dec (Some (\<lambda>x meth h. h x)) = echo_handler srv dec None"
  "echo_handler srv (Inl e) (Some f) = Inl e"
  by (simp_all add: echo_handler_def split: sum.splits)

text \<open>The front end: the handler behind the middleware sees the header in its context, and every identifier that
parses is answered with no user.\<close>

lemma user_agent_sees_header:
  "user_agent after r = after (r\<lparr>context_values := (context_values r)(''User-Agent'' \<mapsto> (case headers r ''User-Agent'' of Some v \<Rightarrow> v | None \<Rightarrow> []))\<rparr>)"
  by (simp add: user_agent_def)

lemma every_user_is_null:
  assumes "- (2 ^ 63) \<le> n" "n < 2 ^ 63" "map_of api_routes ''/user/info/:id'' = Some h"
  shows "h (r\<lparr>path_id := itoa n\<rparr>) = OkJson None"
  using assms atoi_itoa [of n] by (auto simp: api_routes_def user_agent_def userinfo_handler_def userinfo_logic_def)

end
