(* ===== verification/K8sSamples.thy ===== *)
theory K8sSamples
  imports GoScript GoText
begin

text \<open>
  The small programs over client-go: the listing in pages (\<open>client-go/list\<close>), the handlers of the informers
  (\<open>kubernetes/client-go/informer\<close>, \<open>client-go/podInformer\<close>), the indexer (\<open>client-go/indexer\<close>) and the leader
  election (\<open>lease\<close>). The API server, the delivery of events and the election itself are parameters.
\<close>

section \<open>Listing in pages\<close>

text \<open>A page request: the limit and the continue token; the answer holds names and the next token.\<close>

type_synonym 'e page_lib = "nat \<Rightarrow> string \<Rightarrow> 'e + (string list \<times> string)"

definition page_limit :: nat where "page_limit = 1"

text \<open>The lines are the names with the token of the page's request.\<close>

partial_function (option) list_pages ::
    "'e page_lib \<Rightarrow> string \<Rightarrow> (string \<times> string) list \<Rightarrow> ((string \<times> string) list \<times> 'e option) option" where
  "list_pages lib tok out =
     (case lib page_limit tok of
        Inl e \<Rightarrow> Some (out, Some e)
      | Inr (names, nxt) \<Rightarrow>
          let out' = out @ map (\<lambda>n. (n, tok)) names
          in if nxt = [] then Some (out', None) else list_pages lib nxt out')"

datatype 'e list_end = NoConfig | NoClientset | ListFailed 'e | Listed

definition list_main :: "bool \<Rightarrow> bool \<Rightarrow> 'e page_lib \<Rightarrow> ((string \<times> string) list \<times> 'e list_end) option" where
  "list_main config clientset lib =
     (if \<not> config then Some ([], NoConfig)
      else if \<not> clientset then Some ([], NoClientset)
      else map_option (\<lambda>(out, e). (out, case e of None \<Rightarrow> Listed | Some e \<Rightarrow> ListFailed e)) (list_pages lib [] []))"

text \<open>
  What the server promises: the token for position \<open>i\<close> of the list gives the next \<open>limit\<close> names from
  there and the token of the position behind them, the empty one at the end.
\<close>

definition pages_of :: "(nat \<Rightarrow> string) \<Rightarrow> string list \<Rightarrow> 'e page_lib \<Rightarrow> bool" where
  "pages_of tok names lib \<longleftrightarrow>
     tok 0 = [] \<and> (\<forall>i. 0 < i \<longrightarrow> tok i \<noteq> []) \<and>
     (\<forall>n i. 0 < n \<longrightarrow> i \<le> length names \<longrightarrow>
        lib n (tok i) = Inr (take n (drop i names), if i + n < length names then tok (i + n) else []))"

lemma list_pages_from:
  assumes "pages_of tok names lib" "i \<le> length names"
  shows "list_pages lib (tok i) out = Some (out @ map (\<lambda>k. (names ! k, tok k)) [i..<length names], None)"
  using assms(2)
proof (induction "length names - i" arbitrary: i out rule: less_induct)
  case less
  have p: "lib page_limit (tok i) = Inr (take page_limit (drop i names), if i + page_limit < length names then tok (i + page_limit) else [])"
    using assms(1) less.prems by (simp add: pages_of_def page_limit_def)
  show ?case
  proof (cases "i + 1 < length names")
    case True
    then have d: "drop i names = names ! i # drop (Suc i) names" "[i..<length names] = i # [Suc i..<length names]"
      by (simp_all add: Cons_nth_drop_Suc upt_conv_Cons)
    have "tok (Suc i) \<noteq> []" using assms(1) by (simp add: pages_of_def)
    then show ?thesis using p True less.hyps [of "Suc i"]
      by (subst list_pages.simps) (simp add: d page_limit_def del: upt_Suc)
  next
    case False
    then have "i = length names \<or> Suc i = length names" using less.prems by auto
    then show ?thesis
    proof
      assume "i = length names"
      then show ?thesis using p by (subst list_pages.simps) simp
    next
      assume l: "Suc i = length names"
      then have d: "drop i names = [names ! i]" "[i..<length names] = [i]" "\<not> i + page_limit < length names"
        using Cons_nth_drop_Suc [of i names] by (simp_all add: page_limit_def flip: l)
      have "lib page_limit (tok i) = Inr ([names ! i], [])" using p d by (simp add: page_limit_def)
      then show ?thesis by (subst list_pages.simps) (simp add: d)
    qed
  qed
qed

text \<open>
  C32. The listing ends: it asks for one page after the other and prints every pod once, in the order of
  the server, each with the token its page was asked with.
\<close>

theorem list_ends_with_all:
  assumes "pages_of tok names lib"
  shows "list_main True True lib = Some (map (\<lambda>k. (names ! k, tok k)) [0..<length names], Listed)"
proof -
  have "tok 0 = []" using assms by (simp add: pages_of_def)
  then show ?thesis using list_pages_from [OF assms, of 0 "[]"] by (simp add: list_main_def)
qed

text \<open>A server that is asked for the rest with a token of as many letters.\<close>

definition three_pods :: "unit page_lib" where
  "three_pods n tok =
     Inr (take n (drop (length tok) [''a'', ''b'', ''c'']), if length tok + n < 3 then replicate (length tok + n) (CHR ''x'') else [])"

theorem list_ends_with_all_witness:
  "list_main True True three_pods = Some ([(''a'', ''''), (''b'', ''x''), (''c'', ''xx'')], Listed)"
proof -
  have "pages_of (\<lambda>i. replicate i (CHR ''x'')) [''a'', ''b'', ''c''] three_pods"
    by (auto simp: pages_of_def three_pods_def)
  from list_ends_with_all [OF this] show ?thesis by (simp add: numeral_2_eq_2 upt_rec)
qed

text \<open>A page that cannot be read ends the program, with the pods of the earlier pages printed; a server that always
gives a token is asked for ever.\<close>

lemma list_pages_fails: "lib page_limit tok = Inl e \<Longrightarrow> list_pages lib tok out = Some (out, Some e)"
  by (subst list_pages.simps) simp

lemma list_pages_endless:
  assumes "\<forall>tok. \<exists>names. lib page_limit tok = Inr (names, ''t'')"
  shows "list_pages lib tok out = None"
proof (rule ccontr)
  assume "list_pages lib tok out \<noteq> None"
  then obtain r where r: "list_pages lib tok out = Some r" by blast
  let ?P = "\<lambda>lib tok out r. \<not> (\<forall>tok. \<exists>names. lib page_limit tok = Inr (names, ''t''))"
  have "?P lib tok out r"
  proof (rule list_pages.raw_induct [of ?P, OF _ r])
    fix f and l :: "'e page_lib" and t o' r'
    assume ih: "\<And>l t o' r'. f l t o' = Some r' \<Longrightarrow> ?P l t o' r'"
      and s: "(case l page_limit t of Inl e \<Rightarrow> Some (o', Some e)
        | Inr (names, nxt) \<Rightarrow> let out' = o' @ map (\<lambda>n. (n, t)) names in if nxt = [] then Some (out', None) else f l nxt out') = Some r'"
    show "?P l t o' r'"
    proof
      assume a: "\<forall>tok. \<exists>names. l page_limit tok = Inr (names, ''t'')"
      then obtain names where "l page_limit t = Inr (names, ''t'')" by blast
      then show False using s ih a by (simp add: Let_def) blast
    qed
  qed
  then show False using assms by blast
qed

section \<open>Handlers of events\<close>

record pod =
  pod_namespace :: string
  pod_name :: string
  phase :: string
  resource_version :: string
  annotations :: "string \<rightharpoonup> string"

text \<open>What a handler is given: a pod, or the tombstone of a pod whose deletion the watch has missed.\<close>

datatype delivered = APod pod | DeletedFinalStateUnknown string

datatype pod_event = Added delivered | Updated delivered delivered | Deleted delivered

datatype informer_line =
  AddLine string string | UpdateLine string string string string | DeleteLine string string
| AddVersion string | UpdateVersion string string string string | DeleteVersion string
| PodCreated string string | PodUpdated string string | PodDeleted string string
| NewPodAdded string | PodUpdatedTo string string | PodDeletedFromStore string

text \<open>A type assertion panics when the object is not of the type; a tombstone is not an object with metadata either.\<close>

definition as_pod :: "delivered \<Rightarrow> string + pod" where
  "as_pod d = (case d of APod p \<Rightarrow> Inr p | DeletedFinalStateUnknown k \<Rightarrow> Inl ''interface conversion'')"

definition with_pod :: "delivered \<Rightarrow> (pod \<Rightarrow> string + informer_line) \<Rightarrow> string + informer_line" where
  "with_pod d f = (case as_pod d of Inl e \<Rightarrow> Inl e | Inr p \<Rightarrow> f p)"

fun first_handler :: "pod_event \<Rightarrow> string + informer_line" where
  "first_handler (Added d) = with_pod d (\<lambda>p. Inr (AddLine (pod_namespace p) (pod_name p)))"
| "first_handler (Updated d d') =
     with_pod d (\<lambda>old. with_pod d' (\<lambda>new. Inr (UpdateLine (pod_namespace new) (pod_name new) (phase old) (phase new))))"
| "first_handler (Deleted d) = with_pod d (\<lambda>p. Inr (DeleteLine (pod_namespace p) (pod_name p)))"

fun second_handler :: "pod_event \<Rightarrow> string + informer_line" where
  "second_handler (Added d) = with_pod d (\<lambda>p. Inr (AddVersion (resource_version p)))"
| "second_handler (Updated d d') =
     with_pod d (\<lambda>old. with_pod d' (\<lambda>new. Inr (UpdateVersion (pod_namespace new) (pod_name new) (resource_version old) (resource_version new))))"
| "second_handler (Deleted d) = with_pod d (\<lambda>p. Inr (DeleteVersion (resource_version p)))"

fun pod_informer_handler :: "pod_event \<Rightarrow> string + informer_line" where
  "pod_informer_handler (Added d) = with_pod d (\<lambda>p. Inr (PodCreated (pod_name p) (pod_namespace p)))"
| "pod_informer_handler (Updated d d') = with_pod d' (\<lambda>new. Inr (PodUpdated (pod_name new) (pod_namespace new)))"
| "pod_informer_handler (Deleted d) = with_pod d (\<lambda>p. Inr (PodDeleted (pod_name p) (pod_namespace p)))"

fun name_handler :: "pod_event \<Rightarrow> string + informer_line" where
  "name_handler (Added d) = with_pod d (\<lambda>p. Inr (NewPodAdded (pod_name p)))"
| "name_handler (Updated d d') = with_pod d (\<lambda>old. with_pod d' (\<lambda>new. Inr (PodUpdatedTo (pod_name old) (pod_name new))))"
| "name_handler (Deleted d) = with_pod d (\<lambda>p. Inr (PodDeletedFromStore (pod_name p)))"

text \<open>
  How client-go delivers events to a handler: one after the other; a panic is handed to the panic
  handlers, and then either the process ends (\<open>ReallyCrash\<close>) or the event is skipped. The result is
  the lines, the number of panics that were logged, and whether the process has ended.
\<close>

type_synonym ('e, 'l) delivery = "bool \<Rightarrow> ('e \<Rightarrow> string + 'l) \<Rightarrow> 'e list \<Rightarrow> 'l list \<times> nat \<times> bool"

definition skips_panics :: "('e, 'l) delivery \<Rightarrow> bool" where
  "skips_panics deliver \<longleftrightarrow>
     (\<forall>crash h. deliver crash h [] = ([], 0, False)) \<and>
     (\<forall>crash h e es. deliver crash h (e # es) =
        (case h e of
           Inr l \<Rightarrow> (case deliver crash h es of (ls, n, c) \<Rightarrow> (l # ls, n, c))
         | Inl p \<Rightarrow> if crash then ([], 0, True) else (case deliver crash h es of (ls, n, c) \<Rightarrow> (ls, Suc n, c))))"

text \<open>\<open>unshared/main.go\<close> and \<open>dynamic/main.go\<close> set \<open>ReallyCrash\<close> to false; for the others it is true.\<close>

definition unshared_delivery :: "(pod_event, informer_line) delivery \<Rightarrow> pod_event list \<Rightarrow> (informer_line list \<times> nat \<times> bool) list" where
  "unshared_delivery deliver es = map (\<lambda>h. deliver False h es) [first_handler, second_handler]"

definition pod_informer_delivery :: "(pod_event, informer_line) delivery \<Rightarrow> pod_event list \<Rightarrow> informer_line list \<times> nat \<times> bool" where
  "pod_informer_delivery deliver es = deliver True pod_informer_handler es"

definition informer_delivery :: "(pod_event, informer_line) delivery \<Rightarrow> pod_event list \<Rightarrow> informer_line list \<times> nat \<times> bool" where
  "informer_delivery deliver es = deliver True name_handler es"

fun tombstone :: "pod_event \<Rightarrow> bool" where
  "tombstone (Deleted (DeletedFinalStateUnknown k)) = True"
| "tombstone e = False"

text \<open>Additions and updates are delivered with the objects themselves.\<close>

fun from_watch :: "pod_event \<Rightarrow> bool" where
  "from_watch (Added d) = (\<exists>p. d = APod p)"
| "from_watch (Updated d d') = ((\<exists>p. d = APod p) \<and> (\<exists>p. d' = APod p))"
| "from_watch (Deleted d) = True"

definition panics :: "('e \<Rightarrow> string + 'l) \<Rightarrow> 'e \<Rightarrow> bool" where
  "panics h e = (case h e of Inl _ \<Rightarrow> True | Inr _ \<Rightarrow> False)"

definition the_line :: "('e \<Rightarrow> string + 'l) \<Rightarrow> 'e \<Rightarrow> 'l" where
  "the_line h e = (case h e of Inr l \<Rightarrow> l | Inl _ \<Rightarrow> undefined)"

lemma delivered_skipping:
  "skips_panics deliver \<Longrightarrow>
     deliver False h es = (map (the_line h) (filter (\<lambda>e. \<not> panics h e) es), length (filter (panics h) es), False)"
  by (induction es) (auto simp: skips_panics_def panics_def the_line_def split: sum.splits)

lemma delivered_crashing:
  "skips_panics deliver \<Longrightarrow>
     deliver True h es = (map (the_line h) (takeWhile (\<lambda>e. \<not> panics h e) es), 0, \<exists>e \<in> set es. panics h e)"
  by (induction es) (auto simp: skips_panics_def panics_def the_line_def split: sum.splits)

lemma panics_on_tombstones:
  assumes "from_watch e"
  shows "panics first_handler e = tombstone e" "panics second_handler e = tombstone e"
    "panics pod_informer_handler e = tombstone e" "panics name_handler e = tombstone e"
  using assms by (cases e rule: tombstone.cases; auto simp: panics_def with_pod_def as_pod_def split: delivered.splits)+

text \<open>
  C22. A deletion the watch has missed comes as a tombstone, which no handler expects. With
  \<open>ReallyCrash\<close> off both handlers of \<open>unshared\<close> miss exactly these deletions, with a line in the log for
  each, and see all other events in order; \<open>podInformer\<close> and \<open>informer\<close> end at the first one.
\<close>

theorem tombstones_break_handlers:
  assumes "skips_panics deliver" "\<forall>e \<in> set es. from_watch e"
  shows "unshared_delivery deliver es =
      map (\<lambda>h. (map (the_line h) (filter (\<lambda>e. \<not> tombstone e) es), length (filter tombstone es), False)) [first_handler, second_handler] \<and>
    pod_informer_delivery deliver es =
      (map (the_line pod_informer_handler) (takeWhile (\<lambda>e. \<not> tombstone e) es), 0, \<exists>e \<in> set es. tombstone e) \<and>
    informer_delivery deliver es =
      (map (the_line name_handler) (takeWhile (\<lambda>e. \<not> tombstone e) es), 0, \<exists>e \<in> set es. tombstone e)"
proof -
  have p: "panics h e = tombstone e" if "e \<in> set es" "h \<in> {first_handler, second_handler, pod_informer_handler, name_handler}" for h e
    using panics_on_tombstones [of e] assms(2) that by auto
  have f: "filter (\<lambda>e. \<not> panics h e) es = filter (\<lambda>e. \<not> tombstone e) es" "filter (panics h) es = filter tombstone es"
      "takeWhile (\<lambda>e. \<not> panics h e) es = takeWhile (\<lambda>e. \<not> tombstone e) es" "(\<exists>e \<in> set es. panics h e) = (\<exists>e \<in> set es. tombstone e)"
    if "h \<in> {first_handler, second_handler, pod_informer_handler, name_handler}" for h
    using p [OF _ that] by (auto intro: filter_cong takeWhile_cong)
  show ?thesis
    by (simp add: unshared_delivery_def pod_informer_delivery_def informer_delivery_def delivered_skipping [OF assms(1)] delivered_crashing [OF assms(1)] f)
qed

fun deliver_each :: "('e, 'l) delivery" where
  "deliver_each crash h [] = ([], 0, False)"
| "deliver_each crash h (e # es) =
     (case h e of
        Inr l \<Rightarrow> (case deliver_each crash h es of (ls, n, c) \<Rightarrow> (l # ls, n, c))
      | Inl p \<Rightarrow> if crash then ([], 0, True) else (case deliver_each crash h es of (ls, n, c) \<Rightarrow> (ls, Suc n, c)))"

definition web_pod :: pod where
  "web_pod = \<lparr>pod_namespace = ''default'', pod_name = ''web'', phase = ''Running'', resource_version = ''7'', annotations = Map.empty\<rparr>"

theorem tombstones_break_handlers_witness:
  "unshared_delivery deliver_each [Deleted (DeletedFinalStateUnknown ''default/db''), Added (APod web_pod)] =
     [([AddLine ''default'' ''web''], 1, False), ([AddVersion ''7''], 1, False)] \<and>
   snd (snd (pod_informer_delivery deliver_each [Deleted (DeletedFinalStateUnknown ''default/db''), Added (APod web_pod)]))"
  using tombstones_break_handlers [of deliver_each "[Deleted (DeletedFinalStateUnknown ''default/db''), Added (APod web_pod)]"]
  by (simp add: skips_panics_def the_line_def with_pod_def as_pod_def web_pod_def)

section \<open>The program around the handlers\<close>

datatype unshared_line = CacheSynced | FoundFromStore string string

datatype unshared_end = PanicConfig | PanicSync | Blocked

text \<open>\<open>store_get\<close>: what the store has under a key, or an error; the error of \<open>NewForConfig\<close> is not looked at.\<close>

definition unshared_main :: "bool \<Rightarrow> bool \<Rightarrow> (string \<Rightarrow> string + pod option) \<Rightarrow> unshared_line list \<times> unshared_end" where
  "unshared_main config synced store_get =
     (if \<not> config then ([], PanicConfig)
      else if \<not> synced then ([], PanicSync)
      else (CacheSynced # (case store_get ''kube-system/etcd'' of Inr (Some p) \<Rightarrow> [FoundFromStore (pod_name p) (phase p)] | _ \<Rightarrow> []), Blocked))"

section \<open>The indexer\<close>

definition users_index_func :: "pod \<Rightarrow> string list" where
  "users_index_func p = split_on (CHR '','') (case annotations p ''users'' of Some u \<Rightarrow> u | None \<Rightarrow> [])"

definition indexed_pod :: "string \<Rightarrow> string \<Rightarrow> pod" where
  "indexed_pod name users =
     \<lparr>pod_namespace = ''default'', pod_name = name, phase = [], resource_version = [], annotations = [''users'' \<mapsto> users]\<rparr>"

text \<open>The three pods, added to an index (a parameter), and the names found under the namespace.\<close>

definition index_main :: "(pod \<Rightarrow> 's \<Rightarrow> 's) \<Rightarrow> (string \<Rightarrow> string \<Rightarrow> 's \<Rightarrow> string + pod list) \<Rightarrow> 's \<Rightarrow> string + string list" where
  "index_main add by_index s =
     (let s = add (indexed_pod ''three'' ''ernie,elmo'') (add (indexed_pod ''two'' ''bert,oscar'') (add (indexed_pod ''one'' ''ernie,bert'') s))
      in case by_index ''namespace'' ''default'' s of Inl e \<Rightarrow> Inl e | Inr pods \<Rightarrow> Inr (map pod_name pods))"

text \<open>The contract of the index: a look-up gives what was added (the last of a key), selected by the index function.\<close>

definition indexes :: "(pod \<Rightarrow> 's \<Rightarrow> 's) \<Rightarrow> (string \<Rightarrow> string \<Rightarrow> 's \<Rightarrow> string + pod list) \<Rightarrow> ('s \<Rightarrow> pod set) \<Rightarrow> bool" where
  "indexes add by_index held \<longleftrightarrow>
     (\<forall>p s. held (add p s) = insert p {q \<in> held s. pod_namespace q \<noteq> pod_namespace p \<or> pod_name q \<noteq> pod_name p}) \<and>
     (\<forall>v s. \<exists>ps. by_index ''namespace'' v s = Inr ps \<and> distinct ps \<and> set ps = {q \<in> held s. pod_namespace q = v})"

lemma index_main_finds_all:
  assumes "indexes add by_index held" "held s = {}"
  shows "\<exists>names. index_main add by_index s = Inr names \<and> set names = {''one'', ''two'', ''three''}"
proof -
  have h: "held (add p t) = insert p {q \<in> held t. pod_namespace q \<noteq> pod_namespace p \<or> pod_name q \<noteq> pod_name p}" for p t
    using assms(1) unfolding indexes_def by blast
  have n: "pod_name (indexed_pod n u) = n" "pod_namespace (indexed_pod n u) = ''default''" for n u by (simp_all add: indexed_pod_def)
  define s1 where "s1 = add (indexed_pod ''one'' ''ernie,bert'') s"
  define s2 where "s2 = add (indexed_pod ''two'' ''bert,oscar'') s1"
  define s3 where "s3 = add (indexed_pod ''three'' ''ernie,elmo'') s2"
  have h1: "held s1 = {indexed_pod ''one'' ''ernie,bert''}" unfolding s1_def h using assms(2) by simp
  have h2: "held s2 = {indexed_pod ''two'' ''bert,oscar'', indexed_pod ''one'' ''ernie,bert''}" unfolding s2_def h h1 by (auto simp: n)
  have h3: "held s3 = {indexed_pod ''three'' ''ernie,elmo'', indexed_pod ''two'' ''bert,oscar'', indexed_pod ''one'' ''ernie,bert''}"
    unfolding s3_def h h2 by (auto simp: n)
  obtain ps where ps: "by_index ''namespace'' ''default'' s3 = Inr ps" "set ps = {q \<in> held s3. pod_namespace q = ''default''}"
    using assms(1) unfolding indexes_def by blast
  have "set ps = held s3" unfolding ps(2) h3 by (auto simp: n)
  then have "pod_name ` set ps = {''one'', ''two'', ''three''}" unfolding h3 by (auto simp: n)
  then show ?thesis using ps(1) by (simp add: index_main_def Let_def flip: s1_def s2_def s3_def)
qed

text \<open>By the other index function a pod is found under each of its users, and a pod without users under the empty name.\<close>

lemma users_indexed: "us \<noteq> [] \<Longrightarrow> \<forall>u \<in> set us. CHR '','' \<notin> set u \<Longrightarrow> users_index_func (indexed_pod n (join_with '','' us)) = us"
  using split_join [of us "CHR '',''"] by (simp add: users_index_func_def indexed_pod_def)

lemma no_users_indexed: "annotations p ''users'' = None \<Longrightarrow> users_index_func p = [[]]"
  by (simp add: users_index_func_def)

section \<open>Leader election\<close>

record lease_flags =
  kubeconfig :: string
  holder_id :: string
  lock_name :: string
  lock_namespace :: string

text \<open>The defaults; the identity is a new UUID.\<close>

definition default_lease_flags :: "string \<Rightarrow> lease_flags" where
  "default_lease_flags uuid = \<lparr>kubeconfig = [], holder_id = uuid, lock_name = ''kube-scheduler'', lock_namespace = ''kube-system''\<rparr>"

definition build_config :: "(string \<Rightarrow> string + 'c) \<Rightarrow> (string + 'c) \<Rightarrow> string \<Rightarrow> string + 'c" where
  "build_config from_flags in_cluster path =
     (if path \<noteq> [] then (case from_flags path of Inl e \<Rightarrow> Inl e | Inr cfg \<Rightarrow> Inr cfg)
      else (case in_cluster of Inl e \<Rightarrow> Inl e | Inr cfg \<Rightarrow> Inr cfg))"

text \<open>Durations are in seconds.\<close>

record election_config =
  lock_of :: "string \<times> string \<times> string"
    \<comment> \<open>name, namespace and identity\<close>
  release_on_cancel :: bool
  lease_duration :: nat
  renew_deadline :: nat
  retry_period :: nat

definition election_of :: "lease_flags \<Rightarrow> election_config" where
  "election_of fl =
     \<lparr>lock_of = (lock_name fl, lock_namespace fl, holder_id fl), release_on_cancel = True,
      lease_duration = 60, renew_deadline = 15, retry_period = 5\<rparr>"

datatype lease_end = MissingName | MissingNamespace | ConfigFailed string | ClientFailed | Electing election_config

definition lease_main :: "(string \<Rightarrow> string + 'c) \<Rightarrow> (string + 'c) \<Rightarrow> ('c \<Rightarrow> bool) \<Rightarrow> lease_flags \<Rightarrow> lease_end" where
  "lease_main from_flags in_cluster client_ok fl =
     (if lock_name fl = [] then MissingName
      else if lock_namespace fl = [] then MissingNamespace
      else case build_config from_flags in_cluster (kubeconfig fl) of
             Inl e \<Rightarrow> ConfigFailed e
           | Inr cfg \<Rightarrow> if client_ok cfg then Electing (election_of fl) else ClientFailed)"

text \<open>The callbacks. When leading stops the process exits, so nothing after it is seen.\<close>

datatype election_event = StartedLeading | StoppedLeading | NewLeader string

datatype lease_line = ControllerLoop | LeaderLost string | NewLeaderElected string

fun callbacks :: "string \<Rightarrow> election_event list \<Rightarrow> lease_line list" where
  "callbacks self [] = []"
| "callbacks self (StartedLeading # es) = ControllerLoop # callbacks self es"
| "callbacks self (StoppedLeading # es) = [LeaderLost self]"
| "callbacks self (NewLeader n # es) = (if n = self then callbacks self es else NewLeaderElected n # callbacks self es)"

text \<open>What client-go demands of the times: the lease is longer than the deadline, and the deadline than 1.2 retry periods.\<close>

definition times_accepted :: "election_config \<Rightarrow> bool" where
  "times_accepted c \<longleftrightarrow> renew_deadline c < lease_duration c \<and> 12 * retry_period c < 10 * renew_deadline c \<and> 0 < retry_period c"

lemma lease_main_elects:
  "lease_main from_flags in_cluster client_ok fl = Electing c \<Longrightarrow>
     times_accepted c \<and> release_on_cancel c \<and> lock_of c = (lock_name fl, lock_namespace fl, holder_id fl) \<and> lock_name fl \<noteq> [] \<and> lock_namespace fl \<noteq> []"
  by (auto simp: lease_main_def election_of_def times_accepted_def split: if_splits sum.splits)

lemma callbacks_end: "StoppedLeading \<in> set es \<Longrightarrow> \<exists>ls. callbacks self es = ls @ [LeaderLost self]"
  by (induction self es rule: callbacks.induct) auto

lemma callbacks_other_leaders: "NewLeaderElected self \<notin> set (callbacks self es)"
  by (induction self es rule: callbacks.induct) auto

text \<open>
  The signals. The runtime puts one into a channel of one place and drops it where the place is taken; the
  goroutine takes one, prints, cancels the context and ends. The signals keep going to the channel, so a
  second one neither ends the process nor is seen.
\<close>

record signal_state =
  waiting_signal :: bool
  listening :: bool
  context_cancelled :: bool

definition signals_notified :: signal_state where
  "signals_notified = \<lparr>waiting_signal = False, listening = True, context_cancelled = False\<rparr>"

datatype signal_event = SignalSent | ListenerRuns

fun on_signal :: "signal_event \<Rightarrow> signal_state \<Rightarrow> signal_state \<times> nat" where
  "on_signal SignalSent s = (s\<lparr>waiting_signal := True\<rparr>, 0)"
| "on_signal ListenerRuns s =
     (if listening s \<and> waiting_signal s then (\<lparr>waiting_signal = False, listening = False, context_cancelled = True\<rparr>, 1) else (s, 0))"

text \<open>The state after some events and the number of lines \<open>Received termination\<close>.\<close>

fun signal_run :: "signal_event list \<Rightarrow> signal_state \<Rightarrow> signal_state \<times> nat" where
  "signal_run [] s = (s, 0)"
| "signal_run (e # es) s = (case on_signal e s of (t, n) \<Rightarrow> (case signal_run es t of (u, m) \<Rightarrow> (u, n + m)))"

lemma listener_ended: "\<not> listening s \<Longrightarrow> snd (signal_run es s) = 0 \<and> context_cancelled (fst (signal_run es s)) = context_cancelled s"
proof (induction es arbitrary: s)
  case (Cons e es)
  then show ?case by (cases e) (auto split: prod.splits)
qed simp

lemma listener_runs: "listening s \<Longrightarrow> \<not> context_cancelled s \<Longrightarrow>
  snd (signal_run es s) = (if context_cancelled (fst (signal_run es s)) then 1 else 0)"
proof (induction es arbitrary: s)
  case (Cons e es)
  show ?case
  proof (cases "e = ListenerRuns \<and> waiting_signal s")
    case True
    then show ?thesis using Cons.prems listener_ended [of "\<lparr>waiting_signal = False, listening = False, context_cancelled = True\<rparr>" es]
      by (auto split: prod.splits)
  next
    case False
    then have "\<exists>w. on_signal e s = (s\<lparr>waiting_signal := w\<rparr>, 0)" by (cases e) (auto intro: exI [of _ True] exI [of _ "waiting_signal s"])
    then obtain w where "on_signal e s = (s\<lparr>waiting_signal := w\<rparr>, 0)" ..
    then show ?thesis using Cons.IH [of "s\<lparr>waiting_signal := w\<rparr>"] Cons.prems by (auto split: prod.splits)
  qed
qed simp

text \<open>The context is cancelled when a signal comes before the goroutine runs again, with one line, however many come.\<close>

lemma one_termination_line:
  "snd (signal_run es signals_notified) = (if context_cancelled (fst (signal_run es signals_notified)) then 1 else 0)"
  by (rule listener_runs) (simp_all add: signals_notified_def)

lemma signal_cancels: "context_cancelled (fst (signal_run (replicate n SignalSent @ ListenerRuns # es) signals_notified)) \<longleftrightarrow>
    0 < n \<or> context_cancelled (fst (signal_run es signals_notified))"
proof (cases n)
  case (Suc m)
  have "signal_run (replicate m SignalSent @ xs) (\<lparr>waiting_signal = True, listening = True, context_cancelled = False\<rparr>) =
      signal_run xs \<lparr>waiting_signal = True, listening = True, context_cancelled = False\<rparr>" for xs
    by (induction m) simp_all
  then show ?thesis using Suc listener_ended [of "\<lparr>waiting_signal = False, listening = False, context_cancelled = True\<rparr>" es]
    by (auto simp: signals_notified_def split: prod.splits)
qed (simp add: signals_notified_def split: prod.splits)

text \<open>A cancelled election reports that leading stopped, also where it never started: the log then says a leader was lost.\<close>

lemma lost_without_leading: "callbacks self [StoppedLeading] = [LeaderLost self]"
  by simp

end
