(* ===== verification/DbScripts.thy ===== *)
theory DbScripts
  imports GoScript GoText
begin

text \<open>
  Programs that go through the operations of a database once: \<open>mongo/main.go\<close>, the two of \<open>gorm\<close>,
  \<open>etcd/basic/main.go\<close>, \<open>redis/pipeline/pipeline.go\<close> and the two-level cache of \<open>ristretto-cache/redis/main.go\<close>.
  The database is a record of operations on a state; a contract says what they do to the documents, rows
  or keys that the state holds.
\<close>

section \<open>The first of a kind\<close>

fun update_first :: "('a \<Rightarrow> bool) \<Rightarrow> ('a \<Rightarrow> 'a) \<Rightarrow> 'a list \<Rightarrow> 'a list" where
  "update_first P f [] = []"
| "update_first P f (x # xs) = (if P x then f x # xs else x # update_first P f xs)"

fun delete_first :: "('a \<Rightarrow> bool) \<Rightarrow> 'a list \<Rightarrow> 'a list" where
  "delete_first P [] = []"
| "delete_first P (x # xs) = (if P x then xs else x # delete_first P xs)"

lemma delete_updated: "(\<And>x. P x \<Longrightarrow> P (f x)) \<Longrightarrow> delete_first P (update_first P f xs) = delete_first P xs"
  by (induction xs) auto

lemma delete_first_snoc: "delete_first P (xs @ [x]) = (if \<exists>y \<in> set xs. P y then delete_first P xs @ [x] else if P x then xs else xs @ [x])"
  by (induction xs) auto

section \<open>MongoDB\<close>

record mongo_user =
  user_name :: string
  user_email :: string
  user_age :: int

record 's mongo_lib =
  mongo_connect :: "'s \<Rightarrow> 's \<times> string option"
  mongo_ping :: "'s \<Rightarrow> 's \<times> string option"
  insert_one :: "mongo_user \<Rightarrow> 's \<Rightarrow> 's \<times> (string + string)"
  find_one :: "(mongo_user \<Rightarrow> bool) \<Rightarrow> 's \<Rightarrow> 's \<times> (string + mongo_user)"
  find_cursor :: "(mongo_user \<Rightarrow> bool) \<Rightarrow> 's \<Rightarrow> 's \<times> (string + mongo_user list)"
  cursor_all :: "mongo_user list \<Rightarrow> 's \<Rightarrow> 's \<times> (string + mongo_user list)"
  update_one :: "(mongo_user \<Rightarrow> bool) \<Rightarrow> (mongo_user \<Rightarrow> mongo_user) \<Rightarrow> 's \<Rightarrow> 's \<times> (string + nat)"
  delete_one :: "(mongo_user \<Rightarrow> bool) \<Rightarrow> 's \<Rightarrow> 's \<times> (string + nat)"
  mongo_disconnect :: "'s \<Rightarrow> 's \<times> string option"

datatype mongo_line =
  MongoConnected | Inserted string | InsertFailed string | FoundUser mongo_user | FindFailed string
| UpdatedCount nat | UpdateFailed string | FoundAll nat | FindAllFailed string | DeletedCount nat | DeleteFailed string

datatype mongo_fatal = CannotConnect string | CannotDisconnect string

type_synonym 's mongo_script = "('s, mongo_line, mongo_fatal, unit) script"

text \<open>The name is transcribed.\<close>

definition sample_name :: string where "sample_name = ''Zhang San''"

definition sample_user :: mongo_user where
  "sample_user = \<lparr>user_name = sample_name, user_email = ''zhangsan@example.com'', user_age = 30\<rparr>"

definition name_filter :: "mongo_user \<Rightarrow> bool" where
  "name_filter u = (user_name u = sample_name)"

definition age_update :: "mongo_user \<Rightarrow> mongo_user" where
  "age_update u = u\<lparr>user_age := 31, user_email := ''zhangsan_new@google.com''\<rparr>"

definition connect_to_mongodb :: "'s mongo_lib \<Rightarrow> 's \<Rightarrow> 's \<times> string option" where
  "connect_to_mongodb M s =
     (case mongo_connect M s of
        (s1, Some e) \<Rightarrow> (s1, Some e)
      | (s1, None) \<Rightarrow> (case mongo_ping M s1 of (s2, Some e) \<Rightarrow> (s2, Some e) | (s2, None) \<Rightarrow> (s2, None)))"

definition insert_document :: "'s mongo_lib \<Rightarrow> mongo_user \<Rightarrow> 's \<Rightarrow> 's \<times> (string + string)" where
  "insert_document M u s = (case insert_one M u s of (s', Inl e) \<Rightarrow> (s', Inl e) | (s', Inr i) \<Rightarrow> (s', Inr i))"

definition find_one_document :: "'s mongo_lib \<Rightarrow> (mongo_user \<Rightarrow> bool) \<Rightarrow> 's \<Rightarrow> 's \<times> (string + mongo_user)" where
  "find_one_document M P s = find_one M P s"

definition find_all_documents :: "'s mongo_lib \<Rightarrow> (mongo_user \<Rightarrow> bool) \<Rightarrow> 's \<Rightarrow> 's \<times> (string + mongo_user list)" where
  "find_all_documents M P s = (case find_cursor M P s of (s', Inl e) \<Rightarrow> (s', Inl e) | (s', Inr c) \<Rightarrow> cursor_all M c s')"

definition update_document ::
    "'s mongo_lib \<Rightarrow> (mongo_user \<Rightarrow> bool) \<Rightarrow> (mongo_user \<Rightarrow> mongo_user) \<Rightarrow> 's \<Rightarrow> 's \<times> (string + nat)" where
  "update_document M P f s = (case update_one M P f s of (s', Inl e) \<Rightarrow> (s', Inl e) | (s', Inr n) \<Rightarrow> (s', Inr n))"

definition delete_document :: "'s mongo_lib \<Rightarrow> (mongo_user \<Rightarrow> bool) \<Rightarrow> 's \<Rightarrow> 's \<times> (string + nat)" where
  "delete_document M P s = (case delete_one M P s of (s', Inl e) \<Rightarrow> (s', Inl e) | (s', Inr n) \<Rightarrow> (s', Inr n))"

text \<open>One operation: its error is logged and the program goes on.\<close>

definition logging :: "('s \<Rightarrow> 's \<times> (string + 'a)) \<Rightarrow> (string \<Rightarrow> 'l) \<Rightarrow> ('a \<Rightarrow> 'l) \<Rightarrow> ('s, 'l, 'e, unit) script" where
  "logging oper failed done s = (case oper s of (s', Inl e) \<Rightarrow> (s', [failed e], Inr ()) | (s', Inr x) \<Rightarrow> (s', [done x], Inr ()))"

definition mongo_tour :: "'s mongo_lib \<Rightarrow> 's mongo_script" where
  "mongo_tour M =
     and_then (say MongoConnected) (\<lambda>_.
     and_then (logging (insert_document M sample_user) InsertFailed Inserted) (\<lambda>_.
     and_then (logging (find_one_document M name_filter) FindFailed FoundUser) (\<lambda>_.
     and_then (logging (update_document M name_filter age_update) UpdateFailed UpdatedCount) (\<lambda>_.
     and_then (logging (find_all_documents M (\<lambda>_. True)) FindAllFailed (\<lambda>us. FoundAll (length us))) (\<lambda>_.
     logging (delete_document M name_filter) DeleteFailed DeletedCount)))))"

definition mongo_main :: "'s mongo_lib \<Rightarrow> 's mongo_script" where
  "mongo_main M s =
     (case connect_to_mongodb M s of
        (s1, Some e) \<Rightarrow> (s1, [], Inl (CannotConnect e))
      | (s1, None) \<Rightarrow>
          (case mongo_tour M s1 of (s2, ls, r) \<Rightarrow>
             (case mongo_disconnect M s2 of
                (s3, Some e) \<Rightarrow> (s3, ls, Inl (CannotDisconnect e))
              | (s3, None) \<Rightarrow> (s3, ls, r))))"

text \<open>What the driver promises of a collection, as the list of its documents in the order they are found.\<close>

definition mongo_collection :: "'s mongo_lib \<Rightarrow> ('s \<Rightarrow> mongo_user list) \<Rightarrow> bool" where
  "mongo_collection M docs \<longleftrightarrow>
     (\<forall>s s' r. mongo_connect M s = (s', r) \<or> mongo_ping M s = (s', r) \<or> mongo_disconnect M s = (s', r) \<longrightarrow> docs s' = docs s) \<and>
     (\<forall>u s s' n. insert_one M u s = (s', Inr n) \<longrightarrow> docs s' = docs s @ [u]) \<and>
     (\<forall>P s s' u. find_one M P s = (s', Inr u) \<longrightarrow> docs s' = docs s \<and> List.find P (docs s) = Some u) \<and>
     (\<forall>P s s' us. find_cursor M P s = (s', Inr us) \<longrightarrow> docs s' = docs s \<and> us = filter P (docs s)) \<and>
     (\<forall>c s s' us. cursor_all M c s = (s', Inr us) \<longrightarrow> docs s' = docs s \<and> us = c) \<and>
     (\<forall>P f s s' n. update_one M P f s = (s', Inr n) \<longrightarrow> docs s' = update_first P f (docs s)) \<and>
     (\<forall>P s s' n. delete_one M P s = (s', Inr n) \<longrightarrow> docs s' = delete_first P (docs s))"

definition mongo_failure :: "mongo_line \<Rightarrow> bool" where
  "mongo_failure l = (case l of InsertFailed _ \<Rightarrow> True | FindFailed _ \<Rightarrow> True | UpdateFailed _ \<Rightarrow> True | FindAllFailed _ \<Rightarrow> True | DeleteFailed _ \<Rightarrow> True | _ \<Rightarrow> False)"

text \<open>The wrappers pass on what the driver gives.\<close>

lemma documents:
  "insert_document M u = insert_one M u" "find_one_document M P = find_one M P"
  "update_document M P f = update_one M P f" "delete_document M P = delete_one M P"
  by (auto simp: fun_eq_iff insert_document_def find_one_document_def update_document_def delete_document_def split: prod.splits sum.splits)

lemma mongo_tour_steps:
  assumes "mongo_tour M s = (s', ls, Inr ())" "\<not> (\<exists>l \<in> set ls. mongo_failure l)"
  shows "\<exists>t1 i t2 u t3 m t4 us n. insert_one M sample_user s = (t1, Inr i) \<and> find_one M name_filter t1 = (t2, Inr u) \<and>
    update_one M name_filter age_update t2 = (t3, Inr m) \<and> find_all_documents M (\<lambda>_. True) t3 = (t4, Inr us) \<and>
    delete_one M name_filter t4 = (s', Inr n) \<and>
    ls = [MongoConnected, Inserted i, FoundUser u, UpdatedCount m, FoundAll (length us), DeletedCount n]"
  using assms by (auto simp: mongo_tour_def and_then_def say_def logging_def mongo_failure_def documents split: prod.splits sum.splits)

text \<open>
  The tour of the MongoDB program when nothing fails. On a collection without a document of the
  sample's name it leaves the collection as it was; but update and delete go by the name: if there was
  such a document, that one is changed and deleted, and the one inserted stays.
\<close>

lemma mongo_tour_by_name:
  assumes M: "mongo_collection M docs" and run: "mongo_main M s = (s', ls, Inr ())" and ok: "\<not> (\<exists>l \<in> set ls. mongo_failure l)"
  shows "docs s' = (if \<exists>u \<in> set (docs s). name_filter u then delete_first name_filter (docs s) @ [sample_user] else docs s) \<and>
    (\<exists>i u m n. List.find name_filter (docs s @ [sample_user]) = Some u \<and>
       ls = [MongoConnected, Inserted i, FoundUser u, UpdatedCount m, FoundAll (length (docs s) + 1), DeletedCount n])"
proof -
  obtain s1 where s1: "connect_to_mongodb M s = (s1, None)"
    using run by (auto simp: mongo_main_def split: prod.splits option.splits)
  then have d1: "docs s1 = docs s"
    using M unfolding mongo_collection_def connect_to_mongodb_def by (auto split: prod.splits option.splits)
  obtain s2 where s2: "mongo_tour M s1 = (s2, ls, Inr ())" "mongo_disconnect M s2 = (s', None)"
    using run s1 by (auto simp: mongo_main_def split: prod.splits option.splits)
  have d2: "docs s' = docs s2" using M s2(2) unfolding mongo_collection_def by metis
  obtain t1 i t2 u t3 m t4 us n where st: "insert_one M sample_user s1 = (t1, Inr i)" "find_one M name_filter t1 = (t2, Inr u)"
      "update_one M name_filter age_update t2 = (t3, Inr m)" "find_all_documents M (\<lambda>_. True) t3 = (t4, Inr us)" "delete_one M name_filter t4 = (s2, Inr n)"
    and lines: "ls = [MongoConnected, Inserted i, FoundUser u, UpdatedCount m, FoundAll (length us), DeletedCount n]"
    using mongo_tour_steps [OF s2(1) ok] by blast
  obtain t' c where all: "find_cursor M (\<lambda>_. True) t3 = (t', Inr c)" "cursor_all M c t' = (t4, Inr us)"
    using st(4) by (auto simp: find_all_documents_def split: prod.splits sum.splits)
  have e: "docs t1 = docs s @ [sample_user]" "docs t2 = docs t1" "List.find name_filter (docs t1) = Some u"
      "docs t3 = update_first name_filter age_update (docs t2)" "docs t4 = docs t3" "us = filter (\<lambda>_. True) (docs t3)"
      "docs s2 = delete_first name_filter (docs t4)"
    using M st all d1 unfolding mongo_collection_def by metis+
  have len: "length (update_first P f xs) = length xs" for P f and xs :: "mongo_user list" by (induction xs) auto
  have du: "delete_first name_filter (update_first name_filter age_update xs) = delete_first name_filter xs" for xs
    by (rule delete_updated) (simp add: name_filter_def age_update_def)
  have "name_filter sample_user" by (simp add: name_filter_def sample_user_def)
  then have "docs s2 = (if \<exists>u \<in> set (docs s). name_filter u then delete_first name_filter (docs s) @ [sample_user] else docs s)"
    unfolding e(7) e(5) e(4) e(2) e(1) du by (simp add: delete_first_snoc)
  then show ?thesis using d2 lines e len by auto
qed

text \<open>A collection that keeps its documents in a list, where every operation succeeds.\<close>

definition list_mongo :: "mongo_user list mongo_lib" where
  "list_mongo =
     \<lparr>mongo_connect = (\<lambda>s. (s, None)), mongo_ping = (\<lambda>s. (s, None)), insert_one = (\<lambda>u s. (s @ [u], Inr ''id'')),
      find_one = (\<lambda>P s. (s, case List.find P s of None \<Rightarrow> Inl ''no documents'' | Some u \<Rightarrow> Inr u)),
      find_cursor = (\<lambda>P s. (s, Inr (filter P s))), cursor_all = (\<lambda>c s. (s, Inr c)), update_one = (\<lambda>P f s. (update_first P f s, Inr (if \<exists>u \<in> set s. P u then 1 else 0))),
      delete_one = (\<lambda>P s. (delete_first P s, Inr (if \<exists>u \<in> set s. P u then 1 else 0))), mongo_disconnect = (\<lambda>s. (s, None))\<rparr>"

lemma list_mongo_collection: "mongo_collection list_mongo (\<lambda>s. s)"
  by (auto simp: mongo_collection_def list_mongo_def split: option.splits)

definition other_zhang :: mongo_user where
  "other_zhang = \<lparr>user_name = sample_name, user_email = ''other'', user_age = 40\<rparr>"

theorem mongo_tour_by_name_witness:
  "\<exists>ls. mongo_main list_mongo [other_zhang] = ([sample_user], ls, Inr ()) \<and> ls \<noteq> []"
proof -
  obtain s' ls r where run: "mongo_main list_mongo [other_zhang] = (s', ls, r)" by (cases "mongo_main list_mongo [other_zhang]") auto
  have "r = Inr () \<and> \<not> (\<exists>l \<in> set ls. mongo_failure l)"
    using run by (auto simp: mongo_main_def connect_to_mongodb_def mongo_tour_def and_then_def say_def logging_def list_mongo_def mongo_failure_def
        documents find_all_documents_def name_filter_def other_zhang_def split: prod.splits sum.splits)
  then have r: "r = Inr ()" and ok: "\<not> (\<exists>l \<in> set ls. mongo_failure l)" by blast+
  have "s' = [sample_user]" "ls \<noteq> []"
    using mongo_tour_by_name [OF list_mongo_collection run [unfolded r] ok] by (auto simp: name_filter_def other_zhang_def)
  then show ?thesis using run r by blast
qed

text \<open>A connection that cannot be made or does not answer ends the program before anything is stored.\<close>

lemma mongo_not_connected:
  assumes "mongo_collection M docs" "connect_to_mongodb M s = (s1, Some e)"
  shows "mongo_main M s = (s1, [], Inl (CannotConnect e)) \<and> docs s1 = docs s"
  using assms unfolding mongo_collection_def connect_to_mongodb_def mongo_main_def by (auto split: prod.splits option.splits)

section \<open>GORM\<close>

text \<open>The operations on one table; a listing gives at most two rows and the count of all that match.\<close>

record ('s, 'r) gorm_lib =
  gorm_open :: "'s \<Rightarrow> 's \<times> (string + unit)"
  auto_migrate :: "'s \<Rightarrow> 's \<times> (string + unit)"
  gorm_create :: "'r \<Rightarrow> 's \<Rightarrow> 's \<times> (string + unit)"
  gorm_first :: "('r \<Rightarrow> bool) \<Rightarrow> 's \<Rightarrow> 's \<times> (string + 'r)"
  gorm_save :: "'r \<Rightarrow> 's \<Rightarrow> 's \<times> (string + unit)"
  gorm_delete :: "('r \<Rightarrow> bool) \<Rightarrow> 's \<Rightarrow> 's \<times> (string + unit)"
  gorm_list :: "('r \<Rightarrow> bool) \<Rightarrow> 's \<Rightarrow> 's \<times> (string + ('r list \<times> nat))"

datatype gorm_stage = OpenStage | MigrateStage | CreateStage | ListStage | FindStage | SaveStage | DeleteStage

datatype 'r gorm_line = TotalCount nat | Row 'r

text \<open>Every error ends the program.\<close>

definition must :: "gorm_stage \<Rightarrow> ('s \<Rightarrow> 's \<times> (string + 'a)) \<Rightarrow> ('s, 'l, gorm_stage \<times> string, 'a) script" where
  "must st oper s = (case oper s of (s', Inl e) \<Rightarrow> (s', [], Inl (st, e)) | (s', Inr x) \<Rightarrow> (s', [], Inr x))"

definition print_products :: "('s, 'r) gorm_lib \<Rightarrow> ('r \<Rightarrow> bool) \<Rightarrow> ('s, 'r gorm_line, gorm_stage \<times> string, unit) script" where
  "print_products G like =
     and_then (must ListStage (gorm_list G like)) (\<lambda>(rows, count).
     and_then (say (TotalCount count)) (\<lambda>_. each (\<lambda>r. say (Row r)) rows))"

definition gorm_tour ::
    "('s, 'r) gorm_lib \<Rightarrow> 'r \<Rightarrow> ('r \<Rightarrow> bool) \<Rightarrow> ('r \<Rightarrow> 'r) \<Rightarrow> ('r \<Rightarrow> bool) \<Rightarrow> ('s, 'r gorm_line, gorm_stage \<times> string, unit) script" where
  "gorm_tour G sample wanted change like =
     and_then (must OpenStage (gorm_open G)) (\<lambda>_.
     and_then (must MigrateStage (auto_migrate G)) (\<lambda>_.
     and_then (must CreateStage (gorm_create G sample)) (\<lambda>_.
     and_then (print_products G like) (\<lambda>_.
     and_then (must FindStage (gorm_first G wanted)) (\<lambda>r.
     and_then (must SaveStage (gorm_save G (change r))) (\<lambda>_.
     and_then (print_products G like) (\<lambda>_.
     and_then (must DeleteStage (gorm_delete G wanted)) (\<lambda>_.
     print_products G like))))))))"

record product =
  product_id :: nat
  code :: string
  price :: nat

record animal =
  animal_name :: string
  age :: int

text \<open>\<open>%D%\<close>: a text with the part in it.\<close>

definition has_part :: "string \<Rightarrow> string \<Rightarrow> bool" where
  "has_part part s = (\<exists>i \<le> length s. take (length part) (drop i s) = part)"

definition gorm_demo1 :: "('s, product) gorm_lib \<Rightarrow> ('s, product gorm_line, gorm_stage \<times> string, unit) script" where
  "gorm_demo1 G =
     gorm_tour G \<lparr>product_id = 0, code = ''D42'', price = 100\<rparr> (\<lambda>p. code p = ''D42'') (\<lambda>p. p\<lparr>price := 200\<rparr>) (\<lambda>p. has_part ''D'' (code p))"

definition gorm_demo2 :: "('s, animal) gorm_lib \<Rightarrow> ('s, animal gorm_line, gorm_stage \<times> string, unit) script" where
  "gorm_demo2 G =
     gorm_tour G \<lparr>animal_name = ''car'', age = 3\<rparr> (\<lambda>a. animal_name a = ''monkey'') (\<lambda>a. a\<lparr>age := 4\<rparr>) (\<lambda>a. has_part ''mon'' (animal_name a))"

text \<open>
  The contract of a table, with \<open>rows\<close> those that are not deleted and \<open>key\<close> the primary key: a created row
  gets a key that no row has (\<open>fresh\<close> is how it is stored) or is refused, what is found is a row that
  matches, and there is none when nothing is found for that reason.
\<close>

definition gorm_table :: "('s, 'r) gorm_lib \<Rightarrow> ('s \<Rightarrow> 'r set) \<Rightarrow> ('r \<Rightarrow> 'k) \<Rightarrow> ('r \<Rightarrow> 'r \<Rightarrow> bool) \<Rightarrow> bool" where
  "gorm_table G rows key fresh \<longleftrightarrow>
     (\<forall>s s' r. gorm_open G s = (s', r) \<or> auto_migrate G s = (s', r) \<longrightarrow> rows s' = rows s) \<and>
     (\<forall>r s s'. gorm_create G r s = (s', Inr ()) \<longrightarrow> (\<exists>r'. fresh r r' \<and> rows s' = insert r' (rows s) \<and> key r' \<notin> key ` rows s)) \<and>
     (\<forall>P s s' r. gorm_first G P s = (s', r) \<longrightarrow> rows s' = rows s \<and> (\<forall>x. r = Inr x \<longrightarrow> x \<in> rows s \<and> P x)) \<and>
     (\<forall>r s s'. gorm_save G r s = (s', Inr ()) \<longrightarrow> rows s' = insert r {x \<in> rows s. key x \<noteq> key r}) \<and>
     (\<forall>P s s'. gorm_delete G P s = (s', Inr ()) \<longrightarrow> rows s' = {x \<in> rows s. \<not> P x}) \<and>
     (\<forall>P s s' r. gorm_list G P s = (s', r) \<longrightarrow> rows s' = rows s \<and> (\<forall>xs n. r = Inr (xs, n) \<longrightarrow> set xs \<subseteq> {x \<in> rows s. P x} \<and> length xs \<le> 2))"

lemma gorm_facts:
  assumes "gorm_table G rows key fresh"
  shows gorm_open_rows: "gorm_open G s = (s', u) \<Longrightarrow> rows s' = rows s"
    and gorm_migrate_rows: "auto_migrate G s = (s', u) \<Longrightarrow> rows s' = rows s"
    and gorm_create_rows: "gorm_create G r s = (s', Inr ()) \<Longrightarrow> \<exists>r'. fresh r r' \<and> rows s' = insert r' (rows s) \<and> key r' \<notin> key ` rows s"
    and gorm_first_rows: "gorm_first G P s = (s', v) \<Longrightarrow> rows s' = rows s" "gorm_first G P s = (s', Inr x) \<Longrightarrow> x \<in> rows s \<and> P x"
    and gorm_save_rows: "gorm_save G r s = (s', Inr ()) \<Longrightarrow> rows s' = insert r {x \<in> rows s. key x \<noteq> key r}"
    and gorm_delete_rows: "gorm_delete G P s = (s', Inr ()) \<Longrightarrow> rows s' = {x \<in> rows s. \<not> P x}"
  using assms unfolding gorm_table_def by metis+

lemma each_say: "each (\<lambda>r. say (f r)) xs s = (s, map f xs, Inr ())"
  by (induction xs arbitrary: s) (simp_all add: give_def and_then_def say_def)

lemma print_products_rows:
  "gorm_table G rows key fresh \<Longrightarrow> print_products G like s = (s', ls, r) \<Longrightarrow> rows s' = rows s"
  unfolding print_products_def gorm_table_def
  by (auto simp: and_then_def must_def say_def each_say split: prod.splits sum.splits)

lemma must_Inr: "must st oper s = (s', ls, Inr x) \<longleftrightarrow> oper s = (s', Inr x) \<and> ls = []"
  by (auto simp: must_def split: prod.splits sum.splits)

lemma and_then_Inr: "and_then m f s = (s', ls, Inr y) \<longleftrightarrow> (\<exists>s1 o1 x o2. m s = (s1, o1, Inr x) \<and> f x s1 = (s', o2, Inr y) \<and> ls = o1 @ o2)"
  by (auto simp: and_then_def split: prod.splits sum.splits)

text \<open>What a whole tour does to the rows: everything that matches is gone, whoever has made it.\<close>

lemma gorm_tour_rows:
  assumes G: "gorm_table G rows key fresh" and run: "gorm_tour G sample wanted change like s = (s', ls, Inr ())"
    and change: "\<And>r. key (change r) = key r" "\<And>r. wanted r \<Longrightarrow> wanted (change r)"
  shows "\<exists>r' r. fresh sample r' \<and> key r' \<notin> key ` rows s \<and> r \<in> insert r' (rows s) \<and> wanted r \<and>
    rows s' = {x \<in> insert r' (rows s). \<not> wanted x \<and> key x \<noteq> key r}"
proof -
  obtain s1 s2 s3 s4 s5 r s6 s7 s8 l1 l2 l3 where st: "gorm_open G s = (s1, Inr ())" "auto_migrate G s1 = (s2, Inr ())"
      "gorm_create G sample s2 = (s3, Inr ())" "print_products G like s3 = (s4, l1, Inr ())" "gorm_first G wanted s4 = (s5, Inr r)"
      "gorm_save G (change r) s5 = (s6, Inr ())" "print_products G like s6 = (s7, l2, Inr ())"
      "gorm_delete G wanted s7 = (s8, Inr ())" "print_products G like s8 = (s', l3, Inr ())"
    using run unfolding gorm_tour_def and_then_Inr must_Inr by (metis (full_types) old.unit.exhaust)
  have s12: "rows s1 = rows s" "rows s2 = rows s1" using gorm_open_rows [OF G st(1)] gorm_migrate_rows [OF G st(2)] .
  obtain r' where r': "fresh sample r'" "rows s3 = insert r' (rows s2)" "key r' \<notin> key ` rows s2"
    using gorm_create_rows [OF G st(3)] by blast
  have s5: "rows s5 = rows s4" "r \<in> rows s4" "wanted r" using gorm_first_rows [OF G st(5)] by blast+
  note s6 = gorm_save_rows [OF G st(6)] and s8 = gorm_delete_rows [OF G st(8)]
  have p: "rows s4 = rows s3" "rows s7 = rows s6" "rows s' = rows s8"
    using print_products_rows [OF G st(4)] print_products_rows [OF G st(7)] print_products_rows [OF G st(9)] .
  have rows: "rows s' = {x \<in> insert r' (rows s). \<not> wanted x \<and> key x \<noteq> key r}"
    unfolding p s8 s6 s5(1) r'(2) s12 using change(2) [OF s5(3)] change(1) by auto
  have "r \<in> insert r' (rows s)" "key r' \<notin> key ` rows s" using s5(2) r'(3) unfolding p(1) r'(2) s12 .
  then show ?thesis using r'(1) s5(3) rows by blast
qed

text \<open>The first program, when it ends well, has deleted every product of its code, not only the one it has made.\<close>

lemma gorm_demo1_deletes_all:
  assumes "gorm_table G rows product_id (\<lambda>p p'. code p' = code p \<and> price p' = price p)" "inj_on product_id (rows s)"
    and "gorm_demo1 G s = (s', ls, Inr ())"
  shows "rows s' = {p \<in> rows s. code p \<noteq> ''D42''}"
proof -
  obtain r' r where r: "code r' = ''D42''" "product_id r' \<notin> product_id ` rows s" "r \<in> insert r' (rows s)" "code r = ''D42''"
      "rows s' = {x \<in> insert r' (rows s). code x \<noteq> ''D42'' \<and> product_id x \<noteq> product_id r}"
    using gorm_tour_rows [OF assms(1) assms(3) [unfolded gorm_demo1_def]] by auto
  have "product_id x \<noteq> product_id r" if "x \<in> rows s" "code x \<noteq> ''D42''" for x
    using r(2-4) that inj_onD [OF assms(2), of x r] by (cases "r = r'") (auto, metis imageI)
  then show ?thesis unfolding r(5) using r(1) by auto
qed

lemma and_then_Inl:
  "and_then m f s = (s', ls, Inl e) \<longleftrightarrow>
     m s = (s', ls, Inl e) \<or> (\<exists>s1 o1 x o2. m s = (s1, o1, Inr x) \<and> f x s1 = (s', o2, Inl e) \<and> ls = o1 @ o2)"
  by (auto simp: and_then_def split: prod.splits sum.splits)

lemma must_Inl: "must st oper s = (s', ls, Inl e) \<longleftrightarrow> (\<exists>m. oper s = (s', Inl m) \<and> e = (st, m) \<and> ls = [])"
  by (auto simp: must_def split: prod.splits sum.splits)

lemma print_products_stops: "print_products G like s = (s', ls, Inl (st, m)) \<Longrightarrow> st = ListStage"
  by (auto simp: print_products_def and_then_def must_def say_def each_say split: prod.splits sum.splits)

definition gorm_ending where
  "gorm_ending G wanted change like r =
     and_then (must SaveStage (gorm_save G (change r))) (\<lambda>_. and_then (print_products G like) (\<lambda>_.
     and_then (must DeleteStage (gorm_delete G wanted)) (\<lambda>_. print_products G like)))"

lemma gorm_ending_stops: "gorm_ending G wanted change like r s = (s', ls, Inl (st, m)) \<Longrightarrow> st \<in> {SaveStage, ListStage, DeleteStage}"
  by (auto simp: gorm_ending_def and_then_Inl must_Inl must_Inr dest: print_products_stops)

text \<open>Where a tour stops: before the created row is stored, or with it stored.\<close>

lemma gorm_tour_stops:
  assumes G: "gorm_table G rows key fresh" and run: "gorm_tour G sample wanted change like s = (s', ls, Inl (st, m))"
  shows "st \<in> {OpenStage, MigrateStage, CreateStage} \<or>
    (\<exists>r'. fresh sample r' \<and> key r' \<notin> key ` rows s \<and> (st = FindStage \<longrightarrow> rows s' = insert r' (rows s)) \<and>
       (st \<notin> {ListStage, FindStage} \<longrightarrow> (\<exists>x \<in> insert r' (rows s). wanted x)))"
proof (cases "st \<in> {OpenStage, MigrateStage, CreateStage}")
  case False
  then obtain s1 s2 s3 o3 where st: "gorm_open G s = (s1, Inr ())" "auto_migrate G s1 = (s2, Inr ())" "gorm_create G sample s2 = (s3, Inr ())"
    and rest: "and_then (print_products G like) (\<lambda>_. and_then (must FindStage (gorm_first G wanted)) (gorm_ending G wanted change like)) s3 = (s', o3, Inl (st, m))"
    using run unfolding gorm_tour_def gorm_ending_def [abs_def] by (auto simp: and_then_Inl must_Inl must_Inr)
  obtain r' where r': "fresh sample r'" "rows s3 = insert r' (rows s2)" "key r' \<notin> key ` rows s2"
    using gorm_create_rows [OF G st(3)] by blast
  have s12: "rows s1 = rows s" "rows s2 = rows s1" using gorm_open_rows [OF G st(1)] gorm_migrate_rows [OF G st(2)] .
  have "(st = FindStage \<longrightarrow> rows s' = rows s3) \<and> (st \<notin> {ListStage, FindStage} \<longrightarrow> (\<exists>x \<in> rows s3. wanted x))"
  proof (cases "print_products G like s3 = (s', o3, Inl (st, m))")
    case True
    then show ?thesis using print_products_stops [OF True] by simp
  next
    case False
    then obtain s4 o1 o2 where p: "print_products G like s3 = (s4, o1, Inr ())"
      and f: "and_then (must FindStage (gorm_first G wanted)) (gorm_ending G wanted change like) s4 = (s', o2, Inl (st, m))"
      using rest by (auto simp: and_then_Inl)
    have p4: "rows s4 = rows s3" by (rule print_products_rows [OF G p])
    show ?thesis
    proof (cases "gorm_first G wanted s4")
      case (Pair s5 x)
      have s5: "rows s5 = rows s4" by (rule gorm_first_rows(1) [OF G Pair])
      show ?thesis
      proof (cases x)
        case (Inl e)
        then show ?thesis using f Pair s5 p4 by (simp add: and_then_def must_def)
      next
        case (Inr y)
        then have "st \<in> {SaveStage, ListStage, DeleteStage}"
          using f Pair gorm_ending_stops [of G wanted change like y s5] by (auto simp: and_then_Inl must_Inl must_Inr)
        then show ?thesis using gorm_first_rows(2) [OF G Pair [unfolded Inr]] p4 by blast
      qed
    qed
  qed
  then show ?thesis using r' unfolding r'(2) s12 by blast
qed simp

text \<open>
  The second program looks for an animal that it never makes: on a table without a monkey it always
  ends with an error. Once the search has failed its car is stored, and the next run cannot get past the
  creation of the car.
\<close>

lemma monkey_never_found:
  assumes G: "gorm_table G rows animal_name (\<lambda>a a'. a' = a)" and "\<forall>a \<in> rows s. animal_name a \<noteq> ''monkey''"
    and "gorm_demo2 G s = (s', ls, r)"
  shows "\<exists>st m. r = Inl (st, m) \<and> st \<in> {OpenStage, MigrateStage, CreateStage, ListStage, FindStage} \<and>
    (st = FindStage \<longrightarrow> rows s' = insert \<lparr>animal_name = ''car'', age = 3\<rparr> (rows s) \<and>
       (\<forall>t ls' q. gorm_demo2 G s' = (t, ls', q) \<longrightarrow> (\<exists>st m. q = Inl (st, m) \<and> st \<in> {OpenStage, MigrateStage, CreateStage})))"
proof (cases r)
  case (Inr u)
  then have "gorm_demo2 G s = (s', ls, Inr ())" using assms(3) by simp
  from gorm_tour_rows [OF G this [unfolded gorm_demo2_def]] assms(2) show ?thesis by auto
next
  case (Inl e)
  obtain st m where e: "e = (st, m)" by (cases e)
  note stops = gorm_tour_stops [OF G assms(3) [unfolded gorm_demo2_def Inl e]]
  have key: "''car'' \<in> animal_name ` rows s'" if "\<lparr>animal_name = ''car'', age = 3\<rparr> \<in> rows s'"
    using that by (rule rev_image_eqI) simp
  have next_run: "\<exists>st m. q = Inl (st, m) \<and> st \<in> {OpenStage, MigrateStage, CreateStage}"
    if car: "\<lparr>animal_name = ''car'', age = 3\<rparr> \<in> rows s'" and t: "gorm_demo2 G s' = (t, ls', q)" for t ls' q
  proof (cases q)
    case (Inr u)
    then have "gorm_demo2 G s' = (t, ls', Inr ())" using t by simp
    from gorm_tour_rows [OF G this [unfolded gorm_demo2_def]] key [OF car] show ?thesis by auto
  next
    case (Inl e)
    obtain st m where e: "e = (st, m)" by (cases e)
    have "st \<in> {OpenStage, MigrateStage, CreateStage}"
      using gorm_tour_stops [OF G t [unfolded gorm_demo2_def Inl e]] key [OF car] by auto
    then show ?thesis unfolding Inl e by blast
  qed
  have no: "\<not> (\<exists>x \<in> insert \<lparr>animal_name = ''car'', age = 3\<rparr> (rows s). animal_name x = ''monkey'')" using assms(2) by auto
  have st: "st \<in> {OpenStage, MigrateStage, CreateStage, ListStage, FindStage}" using stops no by auto
  have stored: "rows s' = insert \<lparr>animal_name = ''car'', age = 3\<rparr> (rows s)" if "st = FindStage" using stops that by auto
  have again: "\<forall>t ls' q. gorm_demo2 G s' = (t, ls', q) \<longrightarrow> (\<exists>st m. q = Inl (st, m) \<and> st \<in> {OpenStage, MigrateStage, CreateStage})"
    if "st = FindStage"
    by (intro allI impI next_run) (simp_all add: stored [OF that])
  show ?thesis unfolding Inl e by (rule exI [of _ st], rule exI [of _ m]) (use st stored again in simp)
qed

definition animal_table :: "(animal list, animal) gorm_lib" where
  "animal_table =
     \<lparr>gorm_open = (\<lambda>s. (s, Inr ())), auto_migrate = (\<lambda>s. (s, Inr ())),
      gorm_create = (\<lambda>r s. if animal_name r \<in> animal_name ` set s then (s, Inl ''duplicate'') else (r # s, Inr ())),
      gorm_first = (\<lambda>P s. (s, case List.find P s of None \<Rightarrow> Inl ''record not found'' | Some r \<Rightarrow> Inr r)),
      gorm_save = (\<lambda>r s. (r # filter (\<lambda>x. animal_name x \<noteq> animal_name r) s, Inr ())),
      gorm_delete = (\<lambda>P s. (filter (\<lambda>x. \<not> P x) s, Inr ())),
      gorm_list = (\<lambda>P s. (s, Inr (take 2 (filter P s), length (filter P s))))\<rparr>"

lemma animal_table_ok: "gorm_table animal_table set animal_name (\<lambda>a a'. a' = a)"
  by (auto simp: gorm_table_def animal_table_def find_Some_iff dest: in_set_takeD split: option.splits if_splits)

theorem monkey_never_found_witness:
  "\<exists>s ls t m. gorm_demo2 animal_table [] = (s, ls, Inl (FindStage, ''record not found'')) \<and> set s = {\<lparr>animal_name = ''car'', age = 3\<rparr>} \<and>
     snd (snd (gorm_demo2 animal_table s)) = Inl (t, m) \<and> t \<in> {OpenStage, MigrateStage, CreateStage}"
proof -
  obtain s ls r where run: "gorm_demo2 animal_table [] = (s, ls, r)" by (cases "gorm_demo2 animal_table []") auto
  have r: "r = Inl (FindStage, ''record not found'')"
    using run by (simp add: gorm_demo2_def gorm_tour_def animal_table_def and_then_def must_def print_products_def each_say) (simp add: say_def)
  obtain t ls' q where q: "gorm_demo2 animal_table s = (t, ls', q)" by (cases "gorm_demo2 animal_table s") auto
  from monkey_never_found [OF animal_table_ok _ run] r q
  have "set s = {\<lparr>animal_name = ''car'', age = 3\<rparr>}" "\<exists>t m. q = Inl (t, m) \<and> t \<in> {OpenStage, MigrateStage, CreateStage}" by auto
  then show ?thesis using run r q by auto
qed

section \<open>etcd, basic\<close>

datatype etcd_error = Canceled | DeadlineExceeded | EmptyKey | OtherEtcdError string

record 's etcd_lib =
  etcd_put :: "string \<Rightarrow> string \<Rightarrow> 's \<Rightarrow> 's \<times> (etcd_error + unit)"
  etcd_get :: "string \<Rightarrow> 's \<Rightarrow> 's \<times> (etcd_error + (string \<times> string) list)"
  etcd_delete :: "string \<Rightarrow> 's \<Rightarrow> 's \<times> (etcd_error + unit)"

datatype etcd_line = NewClientFailed | PutResult | KeyValue string string | DeleteResult | WatchEvent string string string

datatype etcd_fatal =
  CanceledByAnother | DeadlineExceededFatal | ClientSide | BadEndpoints etcd_error
| GetFatal etcd_error | DeleteFatal etcd_error | PutFatal etcd_error | NilClient

type_synonym 's etcd_script = "('s, etcd_line, etcd_fatal, unit) script"

definition put_class :: "etcd_error \<Rightarrow> etcd_fatal" where
  "put_class e = (case e of Canceled \<Rightarrow> CanceledByAnother | DeadlineExceeded \<Rightarrow> DeadlineExceededFatal | EmptyKey \<Rightarrow> ClientSide | _ \<Rightarrow> BadEndpoints e)"

definition or_fatal :: "(etcd_error \<Rightarrow> etcd_fatal) \<Rightarrow> ('s \<Rightarrow> 's \<times> (etcd_error + 'a)) \<Rightarrow> ('s, etcd_line, etcd_fatal, 'a) script" where
  "or_fatal f oper s = (case oper s of (s', Inl e) \<Rightarrow> (s', [], Inl (f e)) | (s', Inr x) \<Rightarrow> (s', [], Inr x))"

definition show_key :: "'s etcd_lib \<Rightarrow> string \<Rightarrow> 's etcd_script" where
  "show_key C k = and_then (or_fatal GetFatal (etcd_get C k)) (\<lambda>kvs. each (\<lambda>(k, v). say (KeyValue k v)) kvs)"

definition sample_key :: string where "sample_key = ''sample_key''"

text \<open>The events are those of the watch until its channel is closed, which the program does not do.\<close>

definition etcd_basic :: "'s etcd_lib option \<Rightarrow> (string \<times> string \<times> string) list list \<Rightarrow> 's etcd_script" where
  "etcd_basic cli responses =
     (case cli of
        None \<Rightarrow> and_then (say NewClientFailed) (\<lambda>_. stop NilClient)
      | Some C \<Rightarrow>
          and_then (or_fatal put_class (etcd_put C sample_key ''sample_value'')) (\<lambda>_.
          and_then (say PutResult) (\<lambda>_.
          and_then (show_key C sample_key) (\<lambda>_.
          and_then (or_fatal DeleteFatal (etcd_delete C sample_key)) (\<lambda>_.
          and_then (say DeleteResult) (\<lambda>_.
          and_then (show_key C sample_key) (\<lambda>_.
          and_then (or_fatal PutFatal (etcd_put C sample_key ''sample_value'')) (\<lambda>_.
          and_then (show_key C sample_key) (\<lambda>_.
          and_then (or_fatal PutFatal (etcd_put C sample_key ''demo_value'')) (\<lambda>_.
          and_then (show_key C sample_key) (\<lambda>_.
          each (\<lambda>evs. each (\<lambda>(t, k, v). say (WatchEvent t k v)) evs) responses)))))))))))"

definition etcd_keys :: "'s etcd_lib \<Rightarrow> ('s \<Rightarrow> string \<rightharpoonup> string) \<Rightarrow> bool" where
  "etcd_keys C kv \<longleftrightarrow>
     (\<forall>k v s. \<exists>s'. etcd_put C k v s = (s', Inr ()) \<and> kv s' = (kv s)(k \<mapsto> v)) \<and>
     (\<forall>k s. \<exists>s'. etcd_get C k s = (s', Inr (case kv s k of None \<Rightarrow> [] | Some v \<Rightarrow> [(k, v)])) \<and> kv s' = kv s) \<and>
     (\<forall>k s. \<exists>s'. etcd_delete C k s = (s', Inr ()) \<and> kv s' = (kv s)(k := None))"

lemma each_prints: "each (\<lambda>(t, k, v). say (f t k v)) xs s = (s, map (\<lambda>(t, k, v). f t k v) xs, Inr ())"
  by (induction xs arbitrary: s) (auto simp: give_def and_then_def say_def)

lemma each_each_prints: "each (\<lambda>evs. each (\<lambda>(t, k, v). say (f t k v)) evs) xss s = (s, map (\<lambda>(t, k, v). f t k v) (concat xss), Inr ())"
  by (induction xss arbitrary: s) (auto simp: give_def and_then_def each_prints)

text \<open>Runs over a client that keeps the contract: a put, a delete and a print of the key.\<close>

lemma etcd_runs:
  assumes "etcd_keys C kv"
  shows "\<exists>s'. run_to (or_fatal f (etcd_put C k v)) s s' [] () \<and> kv s' = (kv s)(k \<mapsto> v)"
    "\<exists>s'. run_to (or_fatal f (etcd_delete C k)) s s' [] () \<and> kv s' = (kv s)(k := None)"
    "\<exists>s'. run_to (show_key C k) s s' (case kv s k of None \<Rightarrow> [] | Some v \<Rightarrow> [KeyValue k v]) () \<and> kv s' = kv s"
proof -
  show "\<exists>s'. run_to (or_fatal f (etcd_put C k v)) s s' [] () \<and> kv s' = (kv s)(k \<mapsto> v)"
    "\<exists>s'. run_to (or_fatal f (etcd_delete C k)) s s' [] () \<and> kv s' = (kv s)(k := None)"
    using assms unfolding etcd_keys_def run_to_def or_fatal_def by (metis (no_types, lifting) case_prod_conv sum.simps(6))+
  obtain s' where s': "etcd_get C k s = (s', Inr (case kv s k of None \<Rightarrow> [] | Some v \<Rightarrow> [(k, v)]))" "kv s' = kv s"
    using assms unfolding etcd_keys_def by blast
  then show "\<exists>s'. run_to (show_key C k) s s' (case kv s k of None \<Rightarrow> [] | Some v \<Rightarrow> [KeyValue k v]) () \<and> kv s' = kv s"
    by (auto simp: show_key_def run_to_def or_fatal_def and_then_def say_def give_def split: option.splits)
qed

text \<open>Over such a client the program prints the key when it is there, and then the events.\<close>

lemma etcd_basic_prints:
  assumes "etcd_keys C kv"
  shows "\<exists>s'. run_to (etcd_basic (Some C) rs) s s'
     ([PutResult, KeyValue sample_key ''sample_value'', DeleteResult, KeyValue sample_key ''sample_value'', KeyValue sample_key ''demo_value''] @
      map (\<lambda>(t, k, v). WatchEvent t k v) (concat rs)) () \<and> kv s' = (kv s)(sample_key \<mapsto> ''demo_value'')"
proof -
  note r = etcd_runs [OF assms]
  obtain s1 where 1: "run_to (or_fatal put_class (etcd_put C sample_key ''sample_value'')) s s1 [] ()" "kv s1 = (kv s)(sample_key \<mapsto> ''sample_value'')" using r(1) by blast
  obtain s2 where 2: "run_to (show_key C sample_key) s1 s2 [KeyValue sample_key ''sample_value''] ()" "kv s2 = kv s1" using r(3) [of sample_key s1] 1(2) by auto
  obtain s3 where 3: "run_to (or_fatal DeleteFatal (etcd_delete C sample_key)) s2 s3 [] ()" "kv s3 = (kv s2)(sample_key := None)" using r(2) by blast
  obtain s4 where 4: "run_to (show_key C sample_key) s3 s4 [] ()" "kv s4 = kv s3" using r(3) [of sample_key s3] 3(2) by auto
  obtain s5 where 5: "run_to (or_fatal PutFatal (etcd_put C sample_key ''sample_value'')) s4 s5 [] ()" "kv s5 = (kv s4)(sample_key \<mapsto> ''sample_value'')" using r(1) by blast
  obtain s6 where 6: "run_to (show_key C sample_key) s5 s6 [KeyValue sample_key ''sample_value''] ()" "kv s6 = kv s5" using r(3) [of sample_key s5] 5(2) by auto
  obtain s7 where 7: "run_to (or_fatal PutFatal (etcd_put C sample_key ''demo_value'')) s6 s7 [] ()" "kv s7 = (kv s6)(sample_key \<mapsto> ''demo_value'')" using r(1) by blast
  obtain s8 where 8: "run_to (show_key C sample_key) s7 s8 [KeyValue sample_key ''demo_value''] ()" "kv s8 = kv s7" using r(3) [of sample_key s7] 7(2) by auto
  have w: "run_to (each (\<lambda>evs. each (\<lambda>(t, k, v). say (WatchEvent t k v)) evs) rs) s8 s8 (map (\<lambda>(t, k, v). WatchEvent t k v) (concat rs)) ()"
    by (simp add: run_to_def each_each_prints)
  have "run_to (etcd_basic (Some C) rs) s s8
     ([] @ PutResult # ([KeyValue sample_key ''sample_value''] @ ([] @ DeleteResult # ([] @ ([] @ ([KeyValue sample_key ''sample_value''] @ ([] @
       ([KeyValue sample_key ''demo_value''] @ map (\<lambda>(t, k, v). WatchEvent t k v) (concat rs))))))))) ()"
    unfolding etcd_basic_def option.case
    by (intro run_to_and_then [OF 1(1)] run_to_say_then run_to_and_then [OF 2(1)] run_to_and_then [OF 3(1)] run_to_and_then [OF 4(1)]
        run_to_and_then [OF 5(1)] run_to_and_then [OF 6(1)] run_to_and_then [OF 7(1)] run_to_and_then [OF 8(1)] w)
  then show ?thesis using 1(2) 2(2) 3(2) 4(2) 5(2) 6(2) 7(2) 8(2) by (intro exI [of _ s8]) (simp add: fun_eq_iff)
qed

text \<open>A client that cannot be made is only reported; the first call on it panics.\<close>

lemma etcd_basic_no_client: "etcd_basic None rs s = (s, [NewClientFailed], Inl NilClient)"
  by (simp add: etcd_basic_def and_then_def say_def stop_def)

section \<open>Redis pipelines\<close>

datatype redis_cmd = DelKeys "string list" | SetKey string string | IncrKey string | GetKey string | PingCmd

text \<open>A command of its own is one round trip; a pipeline sends the commands it has queued in one.\<close>

record 's redis_lib =
  redis_do :: "redis_cmd \<Rightarrow> 's \<Rightarrow> 's \<times> (string + string)"
  redis_exec :: "bool \<Rightarrow> redis_cmd list \<Rightarrow> 's \<Rightarrow> 's \<times> string option"
    \<comment> \<open>whether it is a transaction\<close>

datatype redis_line = RedisConnected | KeyValues string string string | Counter string

datatype redis_fatal = CannotReach string | PipelineFailed string | TransactionFailed string

type_synonym ('s, 'a) redis_script = "('s, redis_line, redis_fatal, 'a) script"

text \<open>The result of a command may be ignored, or only its error; then a missing value is the empty text.\<close>

definition ignoring :: "'s redis_lib \<Rightarrow> redis_cmd \<Rightarrow> ('s, unit) redis_script" where
  "ignoring R c s = (fst (redis_do R c s), [], Inr ())"

definition value_of :: "'s redis_lib \<Rightarrow> string \<Rightarrow> ('s, string) redis_script" where
  "value_of R k s = (case redis_do R (GetKey k) s of (s', r) \<Rightarrow> (s', [], Inr (case r of Inl e \<Rightarrow> [] | Inr v \<Rightarrow> v)))"

definition show_values :: "'s redis_lib \<Rightarrow> ('s, unit) redis_script" where
  "show_values R =
     and_then (value_of R ''key1'') (\<lambda>v1. and_then (value_of R ''key2'') (\<lambda>v2. and_then (value_of R ''key3'') (\<lambda>v3. say (KeyValues v1 v2 v3))))"

definition exec_pipeline :: "'s redis_lib \<Rightarrow> bool \<Rightarrow> (string \<Rightarrow> redis_fatal) \<Rightarrow> redis_cmd list \<Rightarrow> ('s, unit) redis_script" where
  "exec_pipeline R tx f q s = (case redis_exec R tx q s of (s', Some e) \<Rightarrow> (s', [], Inl (f e)) | (s', None) \<Rightarrow> (s', [], Inr ()))"

definition set_commands :: "(string \<times> string) list \<Rightarrow> redis_cmd list" where
  "set_commands kvs = map (\<lambda>(k, v). SetKey k v) kvs"

definition plain_values :: "(string \<times> string) list" where
  "plain_values = [(''key1'', ''value1''), (''key2'', ''value2''), (''key3'', ''value3'')]"

definition pipeline_values :: "(string \<times> string) list" where
  "pipeline_values = [(''key1'', ''pipeline-value1''), (''key2'', ''pipeline-value2''), (''key3'', ''pipeline-value3'')]"

definition redis_pipeline_main :: "'s redis_lib \<Rightarrow> ('s, unit) redis_script" where
  "redis_pipeline_main R =
     and_then (\<lambda>s. case redis_do R PingCmd s of (s', Inl e) \<Rightarrow> (s', [], Inl (CannotReach e)) | (s', Inr _) \<Rightarrow> (s', [RedisConnected], Inr ())) (\<lambda>_.
     and_then (ignoring R (DelKeys [''key1'', ''key2'', ''key3''])) (\<lambda>_.
     and_then (each (ignoring R) (set_commands plain_values)) (\<lambda>_.
     and_then (show_values R) (\<lambda>_.
     and_then (exec_pipeline R False PipelineFailed (set_commands pipeline_values)) (\<lambda>_.
     and_then (show_values R) (\<lambda>_.
     and_then (ignoring R (DelKeys [''counter''])) (\<lambda>_.
     and_then (exec_pipeline R True TransactionFailed [IncrKey ''counter'', IncrKey ''counter'', IncrKey ''counter'']) (\<lambda>_.
     and_then (value_of R ''counter'') (\<lambda>v. say (Counter v))))))))))"

text \<open>
  What Redis does with one command, and the contract of a client that reaches it: a pipeline or a
  transaction that succeeds has run its commands in order.
\<close>

fun redis_apply :: "redis_cmd \<Rightarrow> (string \<rightharpoonup> string) \<Rightarrow> (string \<rightharpoonup> string)" where
  "redis_apply (DelKeys ks) m = (\<lambda>k. if k \<in> set ks then None else m k)"
| "redis_apply (SetKey k v) m = m(k \<mapsto> v)"
| "redis_apply (IncrKey k) m = m(k \<mapsto> itoa ((case m k of None \<Rightarrow> 0 | Some v \<Rightarrow> the (atoi v)) + 1))"
| "redis_apply (GetKey k) m = m"
| "redis_apply PingCmd m = m"

definition redis_reaches :: "'s redis_lib \<Rightarrow> ('s \<Rightarrow> string \<rightharpoonup> string) \<Rightarrow> bool" where
  "redis_reaches R kv \<longleftrightarrow>
     (\<forall>c s. kv (fst (redis_do R c s)) = redis_apply c (kv s)) \<and>
     (\<forall>s. \<exists>x. snd (redis_do R PingCmd s) = Inr x) \<and>
     (\<forall>k s. snd (redis_do R (GetKey k) s) = (case kv s k of None \<Rightarrow> Inl ''nil'' | Some v \<Rightarrow> Inr v)) \<and>
     (\<forall>tx q s. snd (redis_exec R tx q s) = None \<and> kv (fst (redis_exec R tx q s)) = fold redis_apply q (kv s))"

lemma ignored:
  assumes "redis_reaches R kv"
  shows "\<exists>s'. run_to (ignoring R c) s s' [] () \<and> kv s' = redis_apply c (kv s)"
  using assms by (simp add: run_to_def ignoring_def redis_reaches_def)

text \<open>Commands one by one leave the keys as the pipeline of the same commands does.\<close>

lemma one_by_one:
  assumes "redis_reaches R kv"
  shows "\<exists>s'. run_to (each (ignoring R) q) s s' [] () \<and> kv s' = fold redis_apply q (kv s)"
proof (induction q arbitrary: s)
  case (Cons c q)
  obtain s1 where 1: "run_to (ignoring R c) s s1 [] ()" "kv s1 = redis_apply c (kv s)" using ignored [OF assms] by blast
  obtain s' where 2: "run_to (each (ignoring R) q) s1 s' [] ()" "kv s' = fold redis_apply q (kv s1)" using Cons.IH by blast
  have "run_to (each (ignoring R) (c # q)) s s' ([] @ []) ()"
    unfolding each.simps by (intro run_to_and_then [OF 1(1)] 2(1))
  then show ?case using 1(2) 2(2) by auto
qed (simp add: run_to_def give_def)

lemma pipelined:
  assumes "redis_reaches R kv"
  shows "\<exists>s'. run_to (exec_pipeline R tx f q) s s' [] () \<and> kv s' = fold redis_apply q (kv s)"
proof -
  have "snd (redis_exec R tx q s) = None" "kv (fst (redis_exec R tx q s)) = fold redis_apply q (kv s)"
    using assms by (simp_all add: redis_reaches_def)
  then show ?thesis by (cases "redis_exec R tx q s") (simp add: run_to_def exec_pipeline_def)
qed

lemma value_read:
  assumes "redis_reaches R kv"
  shows "\<exists>s'. run_to (value_of R k) s s' [] (case kv s k of None \<Rightarrow> [] | Some v \<Rightarrow> v) \<and> kv s' = kv s"
proof -
  have "kv (fst (redis_do R (GetKey k) s)) = kv s" "snd (redis_do R (GetKey k) s) = (case kv s k of None \<Rightarrow> Inl ''nil'' | Some v \<Rightarrow> Inr v)"
    using assms by (simp_all add: redis_reaches_def)
  then show ?thesis by (cases "redis_do R (GetKey k) s") (simp add: run_to_def value_of_def split: option.splits)
qed

lemma values_shown:
  assumes R: "redis_reaches R kv" and "kv s ''key1'' = Some v1" "kv s ''key2'' = Some v2" "kv s ''key3'' = Some v3"
  shows "\<exists>s'. run_to (show_values R) s s' [KeyValues v1 v2 v3] () \<and> kv s' = kv s"
proof -
  obtain s1 where 1: "run_to (value_of R ''key1'') s s1 [] v1" "kv s1 = kv s" using value_read [OF R, of "''key1''" s] assms(2) by auto
  obtain s2 where 2: "run_to (value_of R ''key2'') s1 s2 [] v2" "kv s2 = kv s1" using value_read [OF R, of "''key2''" s1] assms(3) 1(2) by auto
  obtain s3 where 3: "run_to (value_of R ''key3'') s2 s3 [] v3" "kv s3 = kv s2" using value_read [OF R, of "''key3''" s2] assms(4) 1(2) 2(2) by auto
  have "run_to (show_values R) s s3 ([] @ ([] @ ([] @ [KeyValues v1 v2 v3]))) ()"
    unfolding show_values_def
    by (intro run_to_and_then [OF 1(1)] run_to_and_then [OF 2(1)] run_to_and_then [OF 3(1)] run_to_say)
  then show ?thesis using 1(2) 2(2) 3(2) by auto
qed

text \<open>
  A pipeline does what the same commands do one by one: it leaves the same keys, transaction or
  not. So the program, over a server nobody else uses, prints the values it has set one by one, those it
  has set with the pipeline, and three for the counter, whatever the server held before.
\<close>

lemma pipelines_as_commands:
  assumes R: "redis_reaches R kv"
  shows "(\<exists>s1 s2. run_to (each (ignoring R) q) s s1 [] () \<and> run_to (exec_pipeline R tx f q) s s2 [] () \<and> kv s1 = kv s2) \<and>
    (\<exists>s'. run_to (redis_pipeline_main R) s s'
       [RedisConnected, KeyValues ''value1'' ''value2'' ''value3'', KeyValues ''pipeline-value1'' ''pipeline-value2'' ''pipeline-value3'', Counter ''3''] ())"
proof -
  obtain s0 where 0: "run_to (\<lambda>s. case redis_do R PingCmd s of (s', Inl e) \<Rightarrow> (s', [], Inl (CannotReach e)) | (s', Inr _) \<Rightarrow> (s', [RedisConnected], Inr ())) s s0 [RedisConnected] ()"
    using R by (cases "redis_do R PingCmd s") (force simp: run_to_def redis_reaches_def dest: spec [of _ s])
  obtain s1 where 1: "run_to (ignoring R (DelKeys [''key1'', ''key2'', ''key3''])) s0 s1 [] ()" using ignored [OF R] by blast
  obtain s2 where 2: "run_to (each (ignoring R) (set_commands plain_values)) s1 s2 [] ()" "kv s2 = fold redis_apply (set_commands plain_values) (kv s1)"
    using one_by_one [OF R] by blast
  obtain s3 where 3: "run_to (show_values R) s2 s3 [KeyValues ''value1'' ''value2'' ''value3''] ()"
    using values_shown [OF R, of s2 "''value1''" "''value2''" "''value3''"] 2(2) by (auto simp: set_commands_def plain_values_def)
  obtain s4 where 4: "run_to (exec_pipeline R False PipelineFailed (set_commands pipeline_values)) s3 s4 [] ()"
      "kv s4 = fold redis_apply (set_commands pipeline_values) (kv s3)" using pipelined [OF R] by blast
  obtain s5 where 5: "run_to (show_values R) s4 s5 [KeyValues ''pipeline-value1'' ''pipeline-value2'' ''pipeline-value3''] ()"
    using values_shown [OF R, of s4 "''pipeline-value1''" "''pipeline-value2''" "''pipeline-value3''"] 4(2) by (auto simp: set_commands_def pipeline_values_def)
  obtain s6 where 6: "run_to (ignoring R (DelKeys [''counter''])) s5 s6 [] ()" "kv s6 = redis_apply (DelKeys [''counter'']) (kv s5)" using ignored [OF R] by blast
  obtain s7 where 7: "run_to (exec_pipeline R True TransactionFailed [IncrKey ''counter'', IncrKey ''counter'', IncrKey ''counter'']) s6 s7 [] ()"
      "kv s7 = fold redis_apply [IncrKey ''counter'', IncrKey ''counter'', IncrKey ''counter''] (kv s6)" using pipelined [OF R] by blast
  have "kv s7 ''counter'' = Some (itoa 3)" using 7(2) 6(2) by (simp add: atoi_itoa)
  moreover have "itoa 3 = ''3''" by code_simp
  ultimately obtain s8 where 8: "run_to (value_of R ''counter'') s7 s8 [] ''3''" using value_read [OF R, of "''counter''" s7] by auto
  have "run_to (redis_pipeline_main R) s s8 ([RedisConnected] @ ([] @ ([] @ ([KeyValues ''value1'' ''value2'' ''value3''] @ ([] @
      ([KeyValues ''pipeline-value1'' ''pipeline-value2'' ''pipeline-value3''] @ ([] @ ([] @ ([] @ [Counter ''3'']))))))))) ()"
    unfolding redis_pipeline_main_def
    by (intro run_to_and_then [OF 0] run_to_and_then [OF 1] run_to_and_then [OF 2(1)] run_to_and_then [OF 3] run_to_and_then [OF 4(1)]
        run_to_and_then [OF 5] run_to_and_then [OF 6(1)] run_to_and_then [OF 7(1)] run_to_and_then [OF 8] run_to_say)
  moreover have "\<exists>s1 s2. run_to (each (ignoring R) q) s s1 [] () \<and> run_to (exec_pipeline R tx f q) s s2 [] () \<and> kv s1 = kv s2"
    using one_by_one [OF R, of q s] pipelined [OF R, of tx f q s] by metis
  ultimately show ?thesis by auto
qed

definition map_redis :: "(string \<rightharpoonup> string) redis_lib" where
  "map_redis =
     \<lparr>redis_do = (\<lambda>c m. (redis_apply c m, case c of GetKey k \<Rightarrow> (case m k of None \<Rightarrow> Inl ''nil'' | Some v \<Rightarrow> Inr v) | _ \<Rightarrow> Inr ''OK'')),
      redis_exec = (\<lambda>tx q m. (fold redis_apply q m, None))\<rparr>"

theorem pipelines_as_commands_witness:
  "\<exists>m. run_to (redis_pipeline_main map_redis) [''counter'' \<mapsto> ''41''] m
     [RedisConnected, KeyValues ''value1'' ''value2'' ''value3'', KeyValues ''pipeline-value1'' ''pipeline-value2'' ''pipeline-value3'', Counter ''3''] ()"
proof -
  have "redis_reaches map_redis (\<lambda>m. m)" by (simp add: redis_reaches_def map_redis_def)
  from pipelines_as_commands [OF this] show ?thesis by blast
qed

section \<open>Two levels of cache\<close>

record 's cache_lib =
  local_set :: "string \<Rightarrow> string \<Rightarrow> nat \<Rightarrow> 's \<Rightarrow> 's"
  local_wait :: "'s \<Rightarrow> 's"
  local_get :: "string \<Rightarrow> 's \<Rightarrow> string option"
  remote_set :: "string \<Rightarrow> string \<Rightarrow> 's \<Rightarrow> 's"
  remote_get :: "string \<Rightarrow> 's \<Rightarrow> string option"

datatype cache_source = FromLocal string | FromRedis string

definition data_for :: "string \<Rightarrow> string" where "data_for key = ''data for '' @ key"

text \<open>\<open>getData\<close>: it writes to both levels and only then looks the key up.\<close>

definition get_data :: "'s cache_lib \<Rightarrow> string \<Rightarrow> 's \<Rightarrow> 's \<times> cache_source list \<times> string" where
  "get_data C key s =
     (let d = data_for key;
          s = local_wait C (remote_set C key d (local_set C key d (go_len d) s))
      in case local_get C key s of
           Some v \<Rightarrow> (s, [FromLocal key], v)
         | None \<Rightarrow>
             (case remote_get C key s of
                Some v \<Rightarrow> (local_set C key v (go_len v) s, [FromRedis key], v)
              | None \<Rightarrow> (s, [], [])))"

definition cache_main :: "'s cache_lib \<Rightarrow> 's \<Rightarrow> string \<times> string" where
  "cache_main C s =
     (case get_data C ''test_key'' s of (s1, l1, d1) \<Rightarrow> (case get_data C ''test_key'' s1 of (s2, l2, d2) \<Rightarrow> (d1, d2)))"

text \<open>The local cache may drop what it is given, and Redis may not be there; neither makes values up.\<close>

definition caches_keep :: "'s cache_lib \<Rightarrow> bool" where
  "caches_keep C \<longleftrightarrow>
     (\<forall>k v c s. local_get C k (local_wait C (remote_set C k v (local_set C k v c s))) \<in> {None, Some v}) \<and>
     (\<forall>k v c s. remote_get C k (local_wait C (remote_set C k v (local_set C k v c s))) \<in> {None, Some v})"

lemma get_data_own:
  "caches_keep C \<Longrightarrow> get_data C key s = (s', ls, v) \<Longrightarrow> v = data_for key \<and> ls \<noteq> [] \<or> v = [] \<and> ls = []"
  unfolding get_data_def Let_def caches_keep_def by (auto split: option.splits) (metis empty_iff insert_iff option.distinct(1) option.inject)+

end
