(* ===== verification/WebScripts.thy ===== *)
theory WebScripts
  imports GoScript GoText
begin

text \<open>
  Programs that talk to a service once: \<open>gitlab-plugin/main.go\<close>, \<open>pushgateway/main.go\<close>, \<open>zookeeper/main.go\<close>, the
  client and the server of \<open>asynq\<close> and \<open>redis/pubsub/main.go\<close>. The services are parameters with a contract.
\<close>

section \<open>The GitLab client\<close>

record project =
  project_id :: int
  project_name :: string
  path_with_namespace :: string

text \<open>Sending fails, or there is a status and a body, which may not be readable.\<close>

type_synonym http_lib = "string \<Rightarrow> string \<Rightarrow> string + (nat \<times> (string + string))"

datatype gitlab_line =
  TokenMissing | TokenUsage | RequestError string | SendError string | ReadError string | StatusError nat string | DecodeError string
| NoneFound string | FoundProjects nat | ProjectShown nat project
| SpecificRequestError string | SpecificSendError string | SpecificReadError string | SpecificStatus nat | SaveFailed string | SavedResponse

definition gitlab_url :: string where "gitlab_url = ''https://gitlab-ce.alauda.cn/api/v4''"
definition project_query :: string where "project_query = ''hxia-test''"

text \<open>\<open>url.Values.Encode\<close> sorts by key; none of these values needs escaping.\<close>

definition encode_params :: "(string \<times> string) list \<Rightarrow> string" where
  "encode_params ps = join_with ''&'' (map (\<lambda>(k, v). k @ ''='' @ v) (sort_key fst ps))"

definition search_url :: string where
  "search_url = gitlab_url @ ''/projects?'' @ encode_params [(''search'', project_query), (''simple'', ''false''), (''per_page'', ''10'')]"

definition specific_url :: "project \<Rightarrow> string" where
  "specific_url p = gitlab_url @ ''/projects/'' @ itoa (project_id p)"

text \<open>The result: the lines, the exit status, and the file if one was written.\<close>

type_synonym gitlab_result = "gitlab_line list \<times> nat \<times> string option"

definition save_response :: "(string \<Rightarrow> string option) \<Rightarrow> string \<Rightarrow> gitlab_result" where
  "save_response write_file body =
     (case write_file body of Some e \<Rightarrow> ([SaveFailed e], 0, None) | None \<Rightarrow> ([SavedResponse], 0, Some body))"

definition specific_project :: "(string \<Rightarrow> string option) \<Rightarrow> http_lib \<Rightarrow> (string \<Rightarrow> string option) \<Rightarrow> string \<Rightarrow> project \<Rightarrow> gitlab_result" where
  "specific_project new_request http write_file token p =
     (case new_request (specific_url p) of
        Some e \<Rightarrow> ([SpecificRequestError e], 0, None)
      | None \<Rightarrow>
          (case http (specific_url p) token of
             Inl e \<Rightarrow> ([SpecificSendError e], 0, None)
           | Inr (st, Inl e) \<Rightarrow> ([SpecificReadError e], 0, None)
           | Inr (st, Inr body) \<Rightarrow> if st \<noteq> 200 then ([SpecificStatus st], 0, None) else save_response write_file body))"

definition show_projects :: "project list \<Rightarrow> gitlab_line list" where
  "show_projects ps = FoundProjects (length ps) # map (\<lambda>i. ProjectShown (i + 1) (ps ! i)) [0..<length ps]"

definition gitlab_main ::
    "string \<Rightarrow> (string \<Rightarrow> string option) \<Rightarrow> http_lib \<Rightarrow> (string \<Rightarrow> string + project list) \<Rightarrow> (string \<Rightarrow> string option) \<Rightarrow> gitlab_result" where
  "gitlab_main token new_request http decode write_file =
     (if token = [] then ([TokenMissing, TokenUsage], 1, None)
      else case new_request search_url of
        Some e \<Rightarrow> ([RequestError e], 1, None)
      | None \<Rightarrow>
          (case http search_url token of
             Inl e \<Rightarrow> ([SendError e], 1, None)
           | Inr (st, Inl e) \<Rightarrow> ([ReadError e], 1, None)
           | Inr (st, Inr body) \<Rightarrow>
               if st \<noteq> 200 then ([StatusError st body], 1, None)
               else (case decode body of
                       Inl e \<Rightarrow> ([DecodeError e], 1, None)
                     | Inr ps \<Rightarrow>
                         if length ps = 0 then ([NoneFound project_query], 1, None)
                         else if 0 < length ps
                           then (case specific_project new_request http write_file token (ps ! 0) of
                                   (ls, code, f) \<Rightarrow> (show_projects ps @ ls, code, f))
                           else (show_projects ps, 0, None))))"

lemma search_url_value:
  "search_url = ''https://gitlab-ce.alauda.cn/api/v4/projects?per_page=10&search=hxia-test&simple=false''"
  by (simp add: search_url_def encode_params_def gitlab_url_def project_query_def)

lemma specific_project_result:
  assumes "specific_project new_request http write_file token p = (l, code, file)"
  shows "code = 0" "file = Some x \<Longrightarrow> SavedResponse \<in> set l \<and> http (specific_url p) token = Inr (200, Inr x)"
  using assms by (auto simp: specific_project_def save_response_def split: option.splits sum.splits prod.splits if_splits)

text \<open>The search fails with status 1, or there is a first project to ask for.\<close>

lemma gitlab_cases:
  assumes "gitlab_main token new_request http decode write_file = (ls, exit_status, file)"
  obtains "exit_status = 1" "file = None" "\<forall>n. FoundProjects n \<notin> set ls"
  | body p ps l where "http search_url token = Inr (200, Inr body)" "decode body = Inr (p # ps)"
      "specific_project new_request http write_file token p = (l, exit_status, file)" "ls = show_projects (p # ps) @ l"
proof (cases "\<exists>body p ps. token \<noteq> [] \<and> new_request search_url = None \<and> http search_url token = Inr (200, Inr body) \<and> decode body = Inr (p # ps)")
  case True
  then obtain body p ps where "token \<noteq> []" "new_request search_url = None" "http search_url token = Inr (200, Inr body)" "decode body = Inr (p # ps)" by blast
  then show ?thesis using assms that(2) by (auto simp: gitlab_main_def split: prod.splits)
next
  case False
  then have "exit_status = 1 \<and> file = None \<and> (\<forall>n. FoundProjects n \<notin> set ls)"
    using assms by (auto simp: gitlab_main_def neq_Nil_conv split: if_splits option.splits sum.splits prod.splits)
  then show ?thesis using that(1) by blast
qed

text \<open>
  A file is written only when both requests were answered with status 200 and the answer to the
  first named a project; it holds the answer to the second, which asked for the first project named.
  The exit status says less: it is 1 exactly when nothing was found or the search failed, and 0 also
  when the second request, its status or the write failed.
\<close>

lemma gitlab_file_and_status:
  assumes "gitlab_main token new_request http decode write_file = (ls, exit_status, file)"
  shows "(\<forall>x. file = Some x \<longrightarrow> exit_status = 0 \<and> SavedResponse \<in> set ls \<and>
      (\<exists>body p ps. http search_url token = Inr (200, Inr body) \<and> decode body = Inr (p # ps) \<and> http (specific_url p) token = Inr (200, Inr x))) \<and>
    (exit_status = 0 \<longleftrightarrow> (\<exists>n. FoundProjects n \<in> set ls)) \<and> exit_status \<le> 1"
proof (rule gitlab_cases [OF assms])
  fix body p ps l
  assume a: "http search_url token = Inr (200, Inr body)" "decode body = Inr (p # ps)"
    and sp: "specific_project new_request http write_file token p = (l, exit_status, file)" and ls: "ls = show_projects (p # ps) @ l"
  have "FoundProjects (length (p # ps)) \<in> set ls" unfolding ls by (simp add: show_projects_def)
  then show ?thesis using a ls specific_project_result [OF sp] by auto
qed auto

theorem gitlab_file_and_status_witness:
  "gitlab_main ''t'' (\<lambda>_. None) (\<lambda>u t. if u = search_url then Inr (200, Inr ''[..]'') else Inl ''reset'')
     (\<lambda>_. Inr [\<lparr>project_id = 7, project_name = ''a'', path_with_namespace = ''g/a''\<rparr>]) (\<lambda>_. None) =
   ([FoundProjects 1, ProjectShown 1 \<lparr>project_id = 7, project_name = ''a'', path_with_namespace = ''g/a''\<rparr>, SpecificSendError ''reset''], 0, None) \<and>
   (\<exists>n. FoundProjects n \<in> {FoundProjects 1})"
proof -
  let ?p = "\<lparr>project_id = 7, project_name = ''a'', path_with_namespace = ''g/a''\<rparr>"
  let ?http = "\<lambda>u t :: string. if u = search_url then Inr (200, Inr ''[..]'') else Inl ''reset'' :: string + nat \<times> (string + string)"
  let ?r = "gitlab_main ''t'' (\<lambda>_. None) ?http (\<lambda>_. Inr [?p]) (\<lambda>_. None)"
  have "specific_url ?p \<noteq> search_url"
    by (simp add: search_url_value specific_url_def gitlab_url_def)
  then have r: "?r = ([FoundProjects 1, ProjectShown 1 ?p, SpecificSendError ''reset''], 0, None)"
    by (simp add: gitlab_main_def specific_project_def show_projects_def)
  from gitlab_file_and_status [OF r] r show ?thesis by simp
qed

section \<open>Pushing metrics\<close>

record metrics =
  my_counter :: int
  my_gauge :: int

text \<open>The registry after \<open>MustRegister\<close>, and a pusher with the collectors that were given to it.\<close>

definition rand_int :: "int \<Rightarrow> int \<Rightarrow> int" where
  "rand_int lo hi = lo + (hi - lo) div 2"

definition update_metrics :: "metrics \<Rightarrow> metrics" where
  "update_metrics m = m\<lparr>my_counter := my_counter m + 2, my_gauge := rand_int 100 500\<rparr>"

record pusher =
  push_url :: string
  push_job :: string
  push_collectors :: "(metrics \<Rightarrow> (string \<times> int)) list"

definition registered :: "(metrics \<Rightarrow> (string \<times> int)) list" where
  "registered = [\<lambda>m. (''http_requests_total'', my_counter m), \<lambda>m. (''memory_usage_bytes'', my_gauge m)]"

definition new_pusher :: "string \<Rightarrow> string \<Rightarrow> pusher" where
  "new_pusher url job = \<lparr>push_url = url, push_job = job, push_collectors = []\<rparr>"

datatype push_line = PushFailed string | Pushed

text \<open>\<open>Push\<close> sends what the collectors of the pusher give; \<open>send\<close> is the gateway.\<close>

definition push_to_pushgateway ::
    "(string \<Rightarrow> string \<Rightarrow> (string \<times> int) list \<Rightarrow> string option) \<Rightarrow> string \<Rightarrow> string \<Rightarrow> string \<Rightarrow> metrics \<Rightarrow> (string \<times> int) list \<times> push_line" where
  "push_to_pushgateway send url job inst m =
     (let p = new_pusher url job; body = map (\<lambda>c. c m) (push_collectors p)
      in (body, case send (push_url p) (push_job p) body of Some e \<Rightarrow> PushFailed e | None \<Rightarrow> Pushed))"

datatype push_event = Tick | UpdateLoop

text \<open>The ticks of \<open>main\<close> among the turns of the loop that updates.\<close>

fun push_run :: "(string \<Rightarrow> string \<Rightarrow> (string \<times> int) list \<Rightarrow> string option) \<Rightarrow> metrics \<Rightarrow> push_event list \<Rightarrow> ((string \<times> int) list \<times> push_line) list" where
  "push_run send m [] = []"
| "push_run send m (UpdateLoop # es) = push_run send (update_metrics m) es"
| "push_run send m (Tick # es) =
     push_to_pushgateway send ''http://localhost:9091'' ''hxia_custom_exporter'' ''exporter-instance-01'' m # push_run send m es"

lemma pushes_are_empty: "fst ` set (push_run send m es) \<subseteq> {[]}"
  by (induction send m es rule: push_run.induct) (auto simp: push_to_pushgateway_def new_pusher_def)

text \<open>What the registry would have sent: after some turns of the loop the counter is twice their number, the gauge always 300.\<close>

lemma registry_values:
  "0 < n \<Longrightarrow> map (\<lambda>c. c ((update_metrics ^^ n) \<lparr>my_counter = 0, my_gauge = 0\<rparr>)) registered =
     [(''http_requests_total'', 2 * int n), (''memory_usage_bytes'', 300)]"
proof -
  have "my_counter ((update_metrics ^^ n) m) = my_counter m + 2 * int n" for m by (induction n) (simp_all add: update_metrics_def)
  moreover have "0 < n \<Longrightarrow> my_gauge ((update_metrics ^^ n) m) = 300" for m by (cases n) (simp_all add: update_metrics_def rand_int_def)
  ultimately show "0 < n \<Longrightarrow> ?thesis" by (simp add: registered_def)
qed

lemma rand_int_bounds: "lo \<le> hi \<Longrightarrow> lo \<le> rand_int lo hi \<and> rand_int lo hi \<le> hi"
  by (simp add: rand_int_def)

section \<open>ZooKeeper\<close>

record 's zk_lib =
  zk_exists :: "string \<Rightarrow> 's \<Rightarrow> 's \<times> bool"
  zk_delete :: "string \<Rightarrow> int \<Rightarrow> 's \<Rightarrow> 's \<times> string option"
  zk_create :: "string \<Rightarrow> string \<Rightarrow> 's \<Rightarrow> 's \<times> (string + string)"
  zk_get :: "string \<Rightarrow> 's \<Rightarrow> 's \<times> string \<times> int option \<times> string option"
    \<comment> \<open>data, the version of the returned status if it is not nil, error\<close>
  zk_set :: "string \<Rightarrow> string \<Rightarrow> int \<Rightarrow> 's \<Rightarrow> 's \<times> int option \<times> string option"

datatype zk_line =
  DeletedExisting | CreateFailed string | NodeCreated string | GetFailed string | NodeData string int
| UpdateNodeFailed string | NodeUpdated int | DeleteNodeFailed string | NodeDeleted

text \<open>A nil status is looked into: the program panics.\<close>

datatype zk_panic = NilStatus

type_synonym ('s, 'a) zk_script = "('s, zk_line, zk_panic, 'a) script"

definition zk_path :: string where "zk_path = ''/my_go_node''"

definition zk_clear :: "'s zk_lib \<Rightarrow> ('s, unit) zk_script" where
  "zk_clear Z s =
     (case zk_exists Z zk_path s of
        (s1, False) \<Rightarrow> (s1, [], Inr ())
      | (s1, True) \<Rightarrow> (case zk_delete Z zk_path (- 1) s1 of (s2, None) \<Rightarrow> (s2, [DeletedExisting], Inr ()) | (s2, Some e) \<Rightarrow> (s2, [], Inr ())))"

definition zk_create_node :: "'s zk_lib \<Rightarrow> ('s, unit) zk_script" where
  "zk_create_node Z s =
     (case zk_create Z zk_path ''Hello ZooKeeper from Go!'' s of (s', Inl e) \<Rightarrow> (s', [CreateFailed e], Inr ()) | (s', Inr p) \<Rightarrow> (s', [NodeCreated p], Inr ()))"

definition zk_read :: "'s zk_lib \<Rightarrow> ('s, int option) zk_script" where
  "zk_read Z s =
     (case zk_get Z zk_path s of
        (s', d, st, Some e) \<Rightarrow> (s', [GetFailed e], Inr st)
      | (s', d, None, None) \<Rightarrow> (s', [], Inl NilStatus)
      | (s', d, Some v, None) \<Rightarrow> (s', [NodeData d v], Inr (Some v)))"

definition zk_update :: "'s zk_lib \<Rightarrow> int option \<Rightarrow> ('s, int option) zk_script" where
  "zk_update Z st s =
     (case st of
        None \<Rightarrow> (s, [], Inl NilStatus)
      | Some v \<Rightarrow>
          (case zk_set Z zk_path ''Updated data!'' v s of
             (s', st', Some e) \<Rightarrow> (s', [UpdateNodeFailed e], Inr st')
           | (s', None, None) \<Rightarrow> (s', [], Inl NilStatus)
           | (s', Some v', None) \<Rightarrow> (s', [NodeUpdated v'], Inr (Some v'))))"

definition zk_remove :: "'s zk_lib \<Rightarrow> int option \<Rightarrow> ('s, unit) zk_script" where
  "zk_remove Z st s =
     (case st of
        None \<Rightarrow> (s, [], Inl NilStatus)
      | Some v \<Rightarrow> (case zk_delete Z zk_path v s of (s', Some e) \<Rightarrow> (s', [DeleteNodeFailed e], Inr ()) | (s', None) \<Rightarrow> (s', [NodeDeleted], Inr ())))"

definition zk_main :: "'s zk_lib \<Rightarrow> ('s, unit) zk_script" where
  "zk_main Z =
     and_then (zk_clear Z) (\<lambda>_. and_then (zk_create_node Z) (\<lambda>_. and_then (zk_read Z) (\<lambda>st.
     and_then (zk_update Z st) (\<lambda>st'. zk_remove Z st'))))"

text \<open>The watcher, on what the successive \<open>GetW\<close> give: an error, or an event, with the data it then reads.\<close>

datatype zk_event = DataChanged | Deleted | OtherEvent string

datatype watch_line = SetupFailed string | Received zk_event | ChangedDataFailed string | ChangedData string | StoppingWatch

fun watch_node :: "(string + zk_event \<times> (string + string)) list \<Rightarrow> watch_line list \<times> bool" where
  "watch_node [] = ([], False)"
| "watch_node (Inl e # rest) = ([SetupFailed e], True)"
| "watch_node (Inr (ev, data) # rest) =
     (let ls = Received ev # (if ev = DataChanged then [case data of Inl e \<Rightarrow> ChangedDataFailed e | Inr d \<Rightarrow> ChangedData d] else [])
      in if ev = Deleted then (ls @ [StoppingWatch], True)
         else (case watch_node rest of (ms, ended) \<Rightarrow> (ls @ ms, ended)))"

text \<open>The watcher ends at the first deletion or failure, and not before.\<close>

lemma watch_node_ends: "snd (watch_node evs) \<longleftrightarrow> (\<exists>e \<in> set evs. (\<exists>m. e = Inl m) \<or> (\<exists>d. e = Inr (Deleted, d)))"
proof (induction evs rule: watch_node.induct)
  case (3 ev data rest)
  show ?case
  proof (cases "ev = Deleted")
    case False
    then show ?thesis using 3 by (cases "watch_node rest") (auto simp: Let_def)
  qed (simp add: Let_def)
qed simp_all

text \<open>A server's node: its data and version. Writes and deletions ask for the version, or for any with \<open>-1\<close>.\<close>

definition zk_node :: "'s zk_lib \<Rightarrow> ('s \<Rightarrow> (string \<times> int) option) \<Rightarrow> bool" where
  "zk_node Z node \<longleftrightarrow>
     (\<forall>s. node (fst (zk_exists Z zk_path s)) = node s \<and> snd (zk_exists Z zk_path s) = (node s \<noteq> None)) \<and>
     (\<forall>s v. if (\<exists>d w. node s = Some (d, w) \<and> (v = - 1 \<or> v = w))
       then snd (zk_delete Z zk_path v s) = None \<and> node (fst (zk_delete Z zk_path v s)) = None
       else snd (zk_delete Z zk_path v s) \<noteq> None \<and> node (fst (zk_delete Z zk_path v s)) = node s) \<and>
     (\<forall>s d. node s = None \<longrightarrow> snd (zk_create Z zk_path d s) = Inr zk_path \<and> node (fst (zk_create Z zk_path d s)) = Some (d, 0)) \<and>
     (\<forall>s d w. node s = Some (d, w) \<longrightarrow> node (fst (zk_get Z zk_path s)) = node s \<and> snd (zk_get Z zk_path s) = (d, Some w, None)) \<and>
     (\<forall>s d w x. node s = Some (d, w) \<longrightarrow> node (fst (zk_set Z zk_path x w s)) = Some (x, w + 1) \<and> snd (zk_set Z zk_path x w s) = (Some (w + 1), None))"

lemma zk_runs:
  assumes "zk_node Z node"
  shows "\<exists>s'. run_to (zk_clear Z) s s' (if node s = None then [] else [DeletedExisting]) () \<and> node s' = None"
    "node s = None \<Longrightarrow> \<exists>s'. run_to (zk_create_node Z) s s' [NodeCreated zk_path] () \<and> node s' = Some (''Hello ZooKeeper from Go!'', 0)"
    "node s = Some (d, w) \<Longrightarrow> \<exists>s'. run_to (zk_read Z) s s' [NodeData d w] (Some w) \<and> node s' = Some (d, w)"
    "node s = Some (d, w) \<Longrightarrow> \<exists>s'. run_to (zk_update Z (Some w)) s s' [NodeUpdated (w + 1)] (Some (w + 1)) \<and> node s' = Some (''Updated data!'', w + 1)"
    "node s = Some (d, w) \<Longrightarrow> \<exists>s'. run_to (zk_remove Z (Some w)) s s' [NodeDeleted] () \<and> node s' = None"
proof -
  have ex: "node (fst (zk_exists Z zk_path s)) = node s" "snd (zk_exists Z zk_path s) = (node s \<noteq> None)" for s
    using assms by (auto simp: zk_node_def)
  have del: "snd (zk_delete Z zk_path v s) = None \<and> node (fst (zk_delete Z zk_path v s)) = None" if "node s = Some (d, w)" "v = - 1 \<or> v = w" for s v d w
    using assms that unfolding zk_node_def by metis
  show "\<exists>s'. run_to (zk_clear Z) s s' (if node s = None then [] else [DeletedExisting]) () \<and> node s' = None"
  proof (cases "zk_exists Z zk_path s")
    case (Pair s1 b)
    then have n: "node s1 = node s" "b = (node s \<noteq> None)" using ex [of s] by simp_all
    show ?thesis
    proof (cases "node s")
      case (Some x)
      then show ?thesis using n Pair del [of s1 "fst x" "snd x" "- 1"] by (cases "zk_delete Z zk_path (- 1) s1") (simp add: run_to_def zk_clear_def)
    qed (use n Pair in \<open>simp add: run_to_def zk_clear_def\<close>)
  qed
  show "\<exists>s'. run_to (zk_remove Z (Some w)) s s' [NodeDeleted] () \<and> node s' = None" if "node s = Some (d, w)"
    using del [OF that, of w] by (cases "zk_delete Z zk_path w s") (simp add: run_to_def zk_remove_def)
  have create: "snd (zk_create Z zk_path d s) = Inr zk_path \<and> node (fst (zk_create Z zk_path d s)) = Some (d, 0)" if "node s = None" for s d
    using assms that unfolding zk_node_def by metis
  show "\<exists>s'. run_to (zk_create_node Z) s s' [NodeCreated zk_path] () \<and> node s' = Some (''Hello ZooKeeper from Go!'', 0)" if "node s = None"
    using create [OF that, of "''Hello ZooKeeper from Go!''"] by (cases "zk_create Z zk_path ''Hello ZooKeeper from Go!'' s") (simp add: run_to_def zk_create_node_def)
  have get: "node (fst (zk_get Z zk_path s)) = node s \<and> snd (zk_get Z zk_path s) = (d, Some w, None)" if "node s = Some (d, w)" for s d w
    using assms that unfolding zk_node_def by metis
  show "\<exists>s'. run_to (zk_read Z) s s' [NodeData d w] (Some w) \<and> node s' = Some (d, w)" if "node s = Some (d, w)"
    using get [OF that] that by (cases "zk_get Z zk_path s") (simp add: run_to_def zk_read_def)
  have set: "node (fst (zk_set Z zk_path x w s)) = Some (x, w + 1) \<and> snd (zk_set Z zk_path x w s) = (Some (w + 1), None)" if "node s = Some (d, w)" for s d w x
    using assms that unfolding zk_node_def by metis
  show "\<exists>s'. run_to (zk_update Z (Some w)) s s' [NodeUpdated (w + 1)] (Some (w + 1)) \<and> node s' = Some (''Updated data!'', w + 1)" if "node s = Some (d, w)"
    using set [OF that, of "''Updated data!''"] by (cases "zk_set Z zk_path ''Updated data!'' w s") (simp add: run_to_def zk_update_def)
qed

text \<open>Over a server nobody else uses the program runs to its end, whether the node was there or not, and leaves none.\<close>

lemma zk_main_runs:
  assumes Z: "zk_node Z node"
  shows "\<exists>s'. run_to (zk_main Z) s s'
     ((if node s = None then [] else [DeletedExisting]) @ [NodeCreated zk_path, NodeData ''Hello ZooKeeper from Go!'' 0, NodeUpdated 1, NodeDeleted]) ()
     \<and> node s' = None"
proof -
  obtain s1 where 1: "run_to (zk_clear Z) s s1 (if node s = None then [] else [DeletedExisting]) ()" "node s1 = None" using zk_runs(1) [OF Z] by blast
  obtain s2 where 2: "run_to (zk_create_node Z) s1 s2 [NodeCreated zk_path] ()" "node s2 = Some (''Hello ZooKeeper from Go!'', 0)" using zk_runs(2) [OF Z 1(2)] by blast
  obtain s3 where 3: "run_to (zk_read Z) s2 s3 [NodeData ''Hello ZooKeeper from Go!'' 0] (Some 0)" "node s3 = Some (''Hello ZooKeeper from Go!'', 0)"
    using zk_runs(3) [OF Z 2(2)] by blast
  obtain s4 where 4: "run_to (zk_update Z (Some 0)) s3 s4 [NodeUpdated 1] (Some 1)" "node s4 = Some (''Updated data!'', 1)" using zk_runs(4) [OF Z 3(2)] by auto
  obtain s5 where 5: "run_to (zk_remove Z (Some 1)) s4 s5 [NodeDeleted] ()" "node s5 = None" using zk_runs(5) [OF Z 4(2)] by blast
  have "run_to (zk_main Z) s s5 ((if node s = None then [] else [DeletedExisting]) @ ([NodeCreated zk_path] @ ([NodeData ''Hello ZooKeeper from Go!'' 0] @
      ([NodeUpdated 1] @ [NodeDeleted])))) ()"
    unfolding zk_main_def
    by (intro run_to_and_then [OF 1(1)] run_to_and_then [OF 2(1)] run_to_and_then [OF 3(1)] run_to_and_then [OF 4(1)] 5(1))
  then show ?thesis using 5(2) by auto
qed

text \<open>The status of a failed read or update is used without a look at the error: where it is nil the program panics.\<close>

lemma zk_nil_status: "zk_update Z None s = (s, [], Inl NilStatus)" "zk_remove Z None s = (s, [], Inl NilStatus)"
  by (simp_all add: zk_update_def zk_remove_def)

section \<open>A task queue\<close>

text \<open>A task: its type, its payload and the delay in seconds. The subjects are transcribed.\<close>

record asynq_task =
  task_type :: string
  payload :: string
  process_in :: nat

definition type_email_delivery :: string where "type_email_delivery = ''email:deliver''"
definition type_image_resize :: string where "type_image_resize = ''image:resize''"

record json_lib =
  marshal_email :: "int \<times> string \<Rightarrow> string option"
  marshal_image :: "string \<Rightarrow> string option"
  unmarshal_email :: "string \<Rightarrow> string + int \<times> string"
  unmarshal_image :: "string \<Rightarrow> string + string"

datatype asynq_line = SendingEmail | SendingImage | SendingDelayed | EmailSent string | ImageSent string | DelayedSent string | AllSent

datatype asynq_fatal = MarshalFailed | EnqueueFailed string

type_synonym ('s, 'a) asynq_script = "('s, asynq_line, asynq_fatal, 'a) script"

definition enqueue :: "(asynq_task \<Rightarrow> 's \<Rightarrow> 's \<times> (string + string)) \<Rightarrow> string \<Rightarrow> nat \<Rightarrow> string option \<Rightarrow> (string \<Rightarrow> asynq_line) \<Rightarrow> ('s, unit) asynq_script" where
  "enqueue send typ delay bytes done s =
     (case bytes of
        None \<Rightarrow> (s, [], Inl MarshalFailed)
      | Some b \<Rightarrow>
          (case send \<lparr>task_type = typ, payload = b, process_in = delay\<rparr> s of
             (s', Inl e) \<Rightarrow> (s', [], Inl (EnqueueFailed e))
           | (s', Inr tid) \<Rightarrow> (s', [done tid], Inr ())))"

definition asynq_client :: "json_lib \<Rightarrow> (asynq_task \<Rightarrow> 's \<Rightarrow> 's \<times> (string + string)) \<Rightarrow> ('s, unit) asynq_script" where
  "asynq_client J send =
     and_then (say SendingEmail) (\<lambda>_.
     and_then (enqueue send type_email_delivery 0 (marshal_email J (12345, ''welcome'')) EmailSent) (\<lambda>_.
     and_then (say SendingImage) (\<lambda>_.
     and_then (enqueue send type_image_resize 0 (marshal_image J ''https://example.com/image.jpg'') ImageSent) (\<lambda>_.
     and_then (say SendingDelayed) (\<lambda>_.
     and_then (enqueue send type_email_delivery 10 (marshal_email J (67890, ''delayed'')) DelayedSent) (\<lambda>_.
     say AllSent))))))"

datatype asynq_handled = DeliveredEmail int string | ResizedImage string

definition handle_email_delivery :: "json_lib \<Rightarrow> asynq_task \<Rightarrow> string + asynq_handled" where
  "handle_email_delivery J t =
     (case unmarshal_email J (payload t) of Inl e \<Rightarrow> Inl (''failed to unmarshal payload: '' @ e) | Inr (u, subj) \<Rightarrow> Inr (DeliveredEmail u subj))"

definition handle_image_resize :: "json_lib \<Rightarrow> asynq_task \<Rightarrow> string + asynq_handled" where
  "handle_image_resize J t =
     (case unmarshal_image J (payload t) of Inl e \<Rightarrow> Inl (''failed to unmarshal payload: '' @ e) | Inr u \<Rightarrow> Inr (ResizedImage u))"

text \<open>The mux of the server: its patterns with their handlers.\<close>

definition asynq_mux :: "json_lib \<Rightarrow> (string \<times> (asynq_task \<Rightarrow> string + asynq_handled)) list" where
  "asynq_mux J = [(type_email_delivery, handle_email_delivery J), (type_image_resize, handle_image_resize J)]"

text \<open>JSON reads back what it has written, and the queue holds what was sent, in order.\<close>

definition json_reads_back :: "json_lib \<Rightarrow> bool" where
  "json_reads_back J \<longleftrightarrow>
     (\<forall>x. \<exists>b. marshal_email J x = Some b \<and> unmarshal_email J b = Inr x) \<and> (\<forall>x. \<exists>b. marshal_image J x = Some b \<and> unmarshal_image J b = Inr x)"

definition queue_holds :: "(asynq_task \<Rightarrow> 's \<Rightarrow> 's \<times> (string + string)) \<Rightarrow> ('s \<Rightarrow> asynq_task list) \<Rightarrow> bool" where
  "queue_holds send queued \<longleftrightarrow> (\<forall>t s. \<exists>s' i. send t s = (s', Inr i) \<and> queued s' = queued s @ [t])"

text \<open>
  What the client has sent the server handles without an error, each task by the handler of its type:
  the two emails and the image.
\<close>

lemma tasks_handled:
  assumes J: "json_reads_back J" and Q: "queue_holds send queued" and e: "queued s = []"
  shows "\<exists>s' ls. run_to (asynq_client J send) s s' ls () \<and>
    map (\<lambda>t. map_option (\<lambda>h. h t) (map_of (asynq_mux J) (task_type t))) (queued s') =
      [Some (Inr (DeliveredEmail 12345 ''welcome'')), Some (Inr (ResizedImage ''https://example.com/image.jpg'')), Some (Inr (DeliveredEmail 67890 ''delayed''))]"
proof -
  obtain b1 b2 b3 where b: "marshal_email J (12345, ''welcome'') = Some b1" "unmarshal_email J b1 = Inr (12345, ''welcome'')"
      "marshal_image J ''https://example.com/image.jpg'' = Some b2" "unmarshal_image J b2 = Inr ''https://example.com/image.jpg''"
      "marshal_email J (67890, ''delayed'') = Some b3" "unmarshal_email J b3 = Inr (67890, ''delayed'')"
    using J unfolding json_reads_back_def by metis
  let ?t1 = "\<lparr>task_type = type_email_delivery, payload = b1, process_in = 0\<rparr>"
  let ?t2 = "\<lparr>task_type = type_image_resize, payload = b2, process_in = 0\<rparr>"
  let ?t3 = "\<lparr>task_type = type_email_delivery, payload = b3, process_in = 10\<rparr>"
  obtain s1 i1 where 1: "send ?t1 s = (s1, Inr i1)" "queued s1 = [?t1]" using Q e unfolding queue_holds_def by fastforce
  obtain s2 i2 where 2: "send ?t2 s1 = (s2, Inr i2)" "queued s2 = [?t1, ?t2]" using Q 1(2) unfolding queue_holds_def by fastforce
  obtain s3 i3 where 3: "send ?t3 s2 = (s3, Inr i3)" "queued s3 = [?t1, ?t2, ?t3]" using Q 2(2) unfolding queue_holds_def by fastforce
  have "run_to (asynq_client J send) s s3 [SendingEmail, EmailSent i1, SendingImage, ImageSent i2, SendingDelayed, DelayedSent i3, AllSent] ()"
    by (simp add: run_to_def asynq_client_def and_then_def say_def enqueue_def b 1(1) 2(1) 3(1))
  moreover have "type_email_delivery \<noteq> type_image_resize" by (simp add: type_email_delivery_def type_image_resize_def)
  ultimately show ?thesis using 3(2) b by (auto simp: asynq_mux_def handle_email_delivery_def handle_image_resize_def)
qed

section \<open>Publishing\<close>

datatype pubsub_line = PublishedTo string nat | PublishError string

text \<open>\<open>publish\<close> gives its error back; the loop of \<open>main\<close> logs it and goes on. A message is its number.\<close>

definition publish :: "(string \<Rightarrow> nat \<Rightarrow> 's \<Rightarrow> 's \<times> string option) \<Rightarrow> string \<Rightarrow> nat \<Rightarrow> 's \<Rightarrow> 's \<times> pubsub_line" where
  "publish pub channel n s = (case pub channel n s of (s', Some e) \<Rightarrow> (s', PublishError e) | (s', None) \<Rightarrow> (s', PublishedTo channel n))"

fun publish_all :: "(string \<Rightarrow> nat \<Rightarrow> 's \<Rightarrow> 's \<times> string option) \<Rightarrow> nat list \<Rightarrow> 's \<Rightarrow> 's \<times> pubsub_line list" where
  "publish_all pub [] s = (s, [])"
| "publish_all pub (n # ns) s =
     (let (s1, l) = publish pub ''news'' n s; (s2, ls) = publish_all pub ns s1 in (s2, l # ls))"

definition publish_main :: "(string \<Rightarrow> nat \<Rightarrow> 's \<Rightarrow> 's \<times> string option) \<Rightarrow> 's \<Rightarrow> 's \<times> pubsub_line list" where
  "publish_main pub s = publish_all pub [1, 2, 3, 4, 5] s"

text \<open>A subscriber prints what it gets; \<open>inbox\<close> is what the server has sent to it.\<close>

datatype subscriber_line = Subscribed string | GotMessage string nat

definition subscribe :: "string \<Rightarrow> nat list \<Rightarrow> subscriber_line list" where
  "subscribe channel msgs = Subscribed channel # map (GotMessage channel) msgs"

definition delivers :: "(string \<Rightarrow> nat \<Rightarrow> 's \<Rightarrow> 's \<times> string option) \<Rightarrow> ('s \<Rightarrow> nat list) \<Rightarrow> bool" where
  "delivers pub inbox \<longleftrightarrow> (\<forall>n s. inbox (fst (pub ''news'' n s)) = inbox s @ (if snd (pub ''news'' n s) = None then [n] else []))"

text \<open>A subscriber from before the first message prints exactly those reported as published, in order.\<close>

lemma published_is_received:
  assumes "delivers pub inbox" "publish_all pub ns s = (s', ls)"
  shows "inbox s' = inbox s @ concat (map (\<lambda>l. case l of PublishedTo c n \<Rightarrow> [n] | PublishError e \<Rightarrow> []) ls)"
  using assms(2)
proof (induction ns arbitrary: s ls)
  case (Cons n ns)
  obtain s1 e where p: "pub ''news'' n s = (s1, e)" by (cases "pub ''news'' n s")
  obtain ls1 where r: "publish_all pub ns s1 = (s', ls1)" and ls: "ls = (case e of None \<Rightarrow> PublishedTo ''news'' n | Some m \<Rightarrow> PublishError m) # ls1"
    using Cons.prems p by (auto simp: publish_def Let_def split: prod.splits option.splits)
  have "inbox s1 = inbox s @ (if e = None then [n] else [])" using assms(1) p unfolding delivers_def by (metis fst_conv snd_conv)
  then show ?case using Cons.IH [OF r] ls by (cases e) simp_all
qed simp

lemma subscriber_prints_published:
  assumes "delivers pub inbox" "inbox s = []" "publish_main pub s = (s', ls)"
  shows "subscribe ''news'' (inbox s') = Subscribed ''news'' # map (GotMessage ''news'') (concat (map (\<lambda>l. case l of PublishedTo c n \<Rightarrow> [n] | PublishError e \<Rightarrow> []) ls))"
  using published_is_received [OF assms(1) assms(3) [unfolded publish_main_def]] assms(2) by (simp add: subscribe_def)

end
