(* ===== verification/PoolDemos.thy ===== *)
theory PoolDemos
  imports GoPrelude
begin

text \<open>
  Programs that share objects or workers: the \<open>sync.Pool\<close> of \<open>concurrency/pool\<close> and \<open>sync/pool\<close>, the worker pool of \<open>ants-pool\<close>, and the two \<open>sync.Once\<close> of \<open>concurrency/sync/once\<close>.
\<close>

section \<open>sync.Pool\<close>

text \<open>
  A goroutine gets an object and puts it back. \<open>Get\<close> may take a pooled object or make a new one, also when
  the pool is not empty, and the runtime may drop pooled objects: that is all the package promises.
\<close>

datatype user_pc = Ready | Holding | Finished

record pool_run =
  initially :: nat
    \<comment> \<open>objects made before the goroutines start\<close>
  free :: nat
  created :: nat
  dropped :: nat
  users :: "user_pc list"

inductive pool_step :: "pool_run \<Rightarrow> pool_run \<Rightarrow> bool" where
  get_pooled [go_intros]: "i < length (users s) \<Longrightarrow> users s ! i = Ready \<Longrightarrow> 0 < free s \<Longrightarrow>
     pool_step s (s\<lparr>free := free s - 1, users := (users s)[i := Holding]\<rparr>)"
| get_new [go_intros]: "i < length (users s) \<Longrightarrow> users s ! i = Ready \<Longrightarrow>
     pool_step s (s\<lparr>created := Suc (created s), users := (users s)[i := Holding]\<rparr>)"
| put_back [go_intros]: "i < length (users s) \<Longrightarrow> users s ! i = Holding \<Longrightarrow>
     pool_step s (s\<lparr>free := Suc (free s), users := (users s)[i := Finished]\<rparr>)"
| collect [go_intros]: "0 < free s \<Longrightarrow> pool_step s (s\<lparr>free := free s - 1, dropped := Suc (dropped s)\<rparr>)"

definition pool_start :: "nat \<Rightarrow> nat \<Rightarrow> pool_run" where
  "pool_start k n = \<lparr>initially = k, free = k, created = k, dropped = 0, users = replicate n Ready\<rparr>"

text \<open>\<open>concurrency/pool\<close> puts four objects in first; \<open>sync/pool\<close> starts with an empty pool.\<close>

definition calc_pool :: pool_run where "calc_pool = pool_start 4 (1024 * 1024)"
definition worker_pool :: pool_run where "worker_pool = pool_start 0 1024"

definition at_pc :: "'p \<Rightarrow> 'p list \<Rightarrow> nat" where
  "at_pc p ps = count (mset ps) p"

lemma at_pc_update:
  "i < length ps \<Longrightarrow> ps ! i = q \<Longrightarrow> q \<noteq> r \<Longrightarrow>
     at_pc p (ps[i := r]) = (if p = q then at_pc p ps - 1 else if p = r then Suc (at_pc p ps) else at_pc p ps)"
  by (auto simp: at_pc_def mset_update)

lemma at_pc_pos: "i < length ps \<Longrightarrow> ps ! i = q \<Longrightarrow> 0 < at_pc q ps"
  by (auto simp: at_pc_def)

lemma at_pc_replicate [simp]: "at_pc p (replicate n q) = (if p = q then n else 0)"
  by (simp add: at_pc_def)

lemma at_pc_zero: "at_pc p ps = 0 \<longleftrightarrow> p \<notin> set ps"
  by (simp add: at_pc_def count_eq_zero_iff)

definition pool_inv :: "pool_run \<Rightarrow> bool" where
  "pool_inv s \<longleftrightarrow> free s + at_pc Holding (users s) + dropped s = created s \<and> initially s \<le> created s \<and>
     created s + at_pc Ready (users s) \<le> initially s + length (users s) \<and> (created s = 0 \<longrightarrow> at_pc Ready (users s) = length (users s))"

definition pool_left :: "pool_run \<Rightarrow> nat" where
  "pool_left s = 3 * at_pc Ready (users s) + 2 * at_pc Holding (users s) + free s"

definition pool_done :: "pool_run \<Rightarrow> bool" where
  "pool_done s = (\<forall>p \<in> set (users s). p = Finished)"

lemma pool_inv_step:
  assumes inv: "pool_inv s" and step: "pool_step s t"
  shows "pool_inv t \<and> pool_left t < pool_left s \<and> initially t = initially s \<and> length (users t) = length (users s)"
  using step
proof cases
  case (get_pooled i)
  then show ?thesis using inv at_pc_pos [OF get_pooled(2,3)] by (auto simp: pool_inv_def pool_left_def at_pc_update)
next
  case (get_new i)
  then show ?thesis using inv at_pc_pos [OF get_new(2,3)] by (auto simp: pool_inv_def pool_left_def at_pc_update)
next
  case (put_back i)
  then show ?thesis using inv at_pc_pos [OF put_back(2,3)] by (auto simp: pool_inv_def pool_left_def at_pc_update)
next
  case collect
  then show ?thesis using inv by (auto simp: pool_inv_def pool_left_def)
qed

interpretation pool: ending_run "\<lambda>s. \<exists>k n. s = pool_start k n" pool_step pool_inv pool_left pool_done
proof
  fix s t
  show "\<exists>k n. s = pool_start k n \<Longrightarrow> pool_inv s" by (auto simp: pool_inv_def pool_start_def)
  show "pool_inv s \<Longrightarrow> pool_step s t \<Longrightarrow> pool_inv t" "pool_inv s \<Longrightarrow> pool_step s t \<Longrightarrow> pool_left t < pool_left s"
    using pool_inv_step by blast+
  show "\<exists>t. pool_step s t \<and> pool_left t < pool_left s" if i: "pool_inv s" and d: "\<not> pool_done s"
  proof -
    obtain i where "i < length (users s)" "users s ! i \<noteq> Finished" using d by (auto simp: pool_done_def in_set_conv_nth)
    then have "\<exists>t. pool_step s t" using get_new put_back by (cases "users s ! i") blast+
    then show ?thesis using pool_inv_step [OF i] by blast
  qed
qed

lemma pool_steps_fixed: "pool_step\<^sup>*\<^sup>* s t \<Longrightarrow> pool_inv s \<Longrightarrow> initially t = initially s \<and> length (users t) = length (users s)"
proof (induction rule: rtranclp_induct)
  case (step y z)
  then show ?case using pool_inv_step [OF pool.inv_steps [OF step.hyps(1) step.prems] step.hyps(2)] by simp
qed simp

text \<open>
  No object is lost: at any time the objects made are those in the pool, those in use and those the
  runtime has dropped. Every run ends, and then the programs report a number they could not foresee:
  between 4 and 4 + 1024 * 1024, and between 1 and 1024.
\<close>

lemma pool_objects_counted:
  assumes "pool_step\<^sup>*\<^sup>* s0 s" "s0 \<in> {calc_pool, worker_pool}"
  shows "free s + at_pc Holding (users s) + dropped s = created s \<and> (\<exists>t. pool_step\<^sup>*\<^sup>* s t \<and> pool_done t) \<and>
    (pool_done s \<longrightarrow> s0 = calc_pool \<longrightarrow> 4 \<le> created s \<and> created s \<le> 4 + 1024 * 1024) \<and>
    (pool_done s \<longrightarrow> s0 = worker_pool \<longrightarrow> 1 \<le> created s \<and> created s \<le> 1024)"
proof -
  have start: "\<exists>k n. s0 = pool_start k n" using assms(2) by (auto simp: calc_pool_def worker_pool_def)
  have inv: "pool_inv s" by (rule pool.inv_reachable [OF start assms(1)])
  have fixed: "initially s = initially s0 \<and> length (users s) = length (users s0)"
    using pool_steps_fixed [OF assms(1) pool.inv_init [OF start]] .
  have none: "pool_done s \<Longrightarrow> at_pc Ready (users s) = 0" by (auto simp: pool_done_def at_pc_zero)
  have "pool_done s \<Longrightarrow> initially s0 \<le> created s \<and> created s \<le> initially s0 + length (users s0) \<and> (length (users s0) \<noteq> 0 \<longrightarrow> 0 < created s)"
    using inv fixed none unfolding pool_inv_def by auto
  moreover have "free s + at_pc Holding (users s) + dropped s = created s" using inv by (simp add: pool_inv_def)
  ultimately show ?thesis
    using pool.ends [OF inv] by (auto simp: calc_pool_def worker_pool_def pool_start_def)
qed

theorem pool_objects_counted_witness:
  "\<exists>s. pool_step\<^sup>*\<^sup>* worker_pool s \<and> pool_done s \<and> 1 \<le> created s \<and> created s \<le> 1024"
  using pool_objects_counted [OF rtranclp.rtrancl_refl, of worker_pool] pool_objects_counted [of worker_pool] by blast

section \<open>A pool of workers\<close>

text \<open>
  \<open>ants-pool\<close>: twenty tasks are submitted to a pool of ten workers that does not block. A worker that has
  finished its task is free a little later; a submission is refused when all are busy. \<open>wg\<close> is the counter
  of the wait group.
\<close>

datatype task_pc = Unsubmitted | Running | Finishing | Done | Refused

record ants_run =
  tasks :: "task_pc list"
  next_task :: nat
  wg :: nat
  main_ended :: bool

definition capacity :: nat where "capacity = 10"
definition task_count :: nat where "task_count = 20"

definition busy :: "task_pc list \<Rightarrow> nat" where
  "busy ts = at_pc Running ts + at_pc Finishing ts"

text \<open>A submission is \<open>wg.Add\<close>, \<open>Submit\<close> and, when that fails, \<open>wg.Done\<close>.\<close>

inductive ants_step :: "ants_run \<Rightarrow> ants_run \<Rightarrow> bool" where
  accept [go_intros]: "next_task s < length (tasks s) \<Longrightarrow> busy (tasks s) < capacity \<Longrightarrow>
     ants_step s (s\<lparr>tasks := (tasks s)[next_task s := Running], next_task := Suc (next_task s), wg := wg s + 1\<rparr>)"
| refuse [go_intros]: "next_task s < length (tasks s) \<Longrightarrow> \<not> busy (tasks s) < capacity \<Longrightarrow>
     ants_step s (s\<lparr>tasks := (tasks s)[next_task s := Refused], next_task := Suc (next_task s), wg := wg s + 1 - 1\<rparr>)"
| complete [go_intros]: "i < length (tasks s) \<Longrightarrow> tasks s ! i = Running \<Longrightarrow>
     ants_step s (s\<lparr>tasks := (tasks s)[i := Finishing], wg := wg s - 1\<rparr>)"
| released [go_intros]: "i < length (tasks s) \<Longrightarrow> tasks s ! i = Finishing \<Longrightarrow> ants_step s (s\<lparr>tasks := (tasks s)[i := Done]\<rparr>)"
| waited [go_intros]: "next_task s = length (tasks s) \<Longrightarrow> wg s = 0 \<Longrightarrow> \<not> main_ended s \<Longrightarrow> ants_step s (s\<lparr>main_ended := True\<rparr>)"

definition ants_start :: ants_run where
  "ants_start = \<lparr>tasks = replicate task_count Unsubmitted, next_task = 0, wg = 0, main_ended = False\<rparr>"

definition ants_inv :: "ants_run \<Rightarrow> bool" where
  "ants_inv s \<longleftrightarrow> length (tasks s) = task_count \<and> next_task s \<le> task_count \<and> wg s = at_pc Running (tasks s) \<and> busy (tasks s) \<le> capacity \<and> busy (tasks s) \<le> next_task s \<and>
     (\<forall>i < task_count. (tasks s ! i = Unsubmitted) = (next_task s \<le> i)) \<and>
     (\<forall>i < capacity. tasks s ! i \<noteq> Refused) \<and>
     (main_ended s \<longrightarrow> next_task s = task_count \<and> at_pc Running (tasks s) = 0)"

definition ants_left :: "ants_run \<Rightarrow> nat" where
  "ants_left s = 3 * (length (tasks s) - next_task s) + 2 * at_pc Running (tasks s) + at_pc Finishing (tasks s) + (if main_ended s then 0 else 1)"

definition ants_done :: "ants_run \<Rightarrow> bool" where
  "ants_done s \<longleftrightarrow> main_ended s \<and> (\<forall>t \<in> set (tasks s). t = Done \<or> t = Refused)"

lemma ants_inv_step:
  assumes inv: "ants_inv s" and step: "ants_step s t"
  shows "ants_inv t \<and> ants_left t < ants_left s"
  using step
proof cases
  case accept
  then have u: "tasks s ! next_task s = Unsubmitted" and n: "next_task s < length (tasks s)" using inv by (auto simp: ants_inv_def)
  show ?thesis using inv accept by (auto simp: ants_inv_def ants_left_def busy_def at_pc_update [OF n u] nth_list_update)
next
  case refuse
  then have u: "tasks s ! next_task s = Unsubmitted" and n: "next_task s < length (tasks s)" using inv by (auto simp: ants_inv_def)
  have "capacity \<le> next_task s" using inv refuse(3) by (auto simp: ants_inv_def)
  then show ?thesis using inv refuse by (auto simp: ants_inv_def ants_left_def busy_def at_pc_update [OF n u] nth_list_update)
next
  case (complete i)
  have "i < next_task s" using inv complete(2,3) by (metis ants_inv_def leI task_pc.distinct(1))
  then show ?thesis using inv complete at_pc_pos [OF complete(2,3)]
    by (auto simp: ants_inv_def ants_left_def busy_def at_pc_update [OF complete(2,3)] nth_list_update)
next
  case (released i)
  have "i < next_task s" using inv released(2,3) by (metis ants_inv_def leI task_pc.distinct(3))
  then show ?thesis using inv released at_pc_pos [OF released(2,3)]
    by (auto simp: ants_inv_def ants_left_def busy_def at_pc_update [OF released(2,3)] nth_list_update)
next
  case waited
  then show ?thesis using inv by (auto simp: ants_inv_def ants_left_def busy_def)
qed

interpretation ants: ending_run "\<lambda>s. s = ants_start" ants_step ants_inv ants_left ants_done
proof
  fix s t
  show "s = ants_start \<Longrightarrow> ants_inv s"
    by (auto simp: ants_start_def ants_inv_def busy_def task_count_def capacity_def)
  show "ants_inv s \<Longrightarrow> ants_step s t \<Longrightarrow> ants_inv t" "ants_inv s \<Longrightarrow> ants_step s t \<Longrightarrow> ants_left t < ants_left s"
    using ants_inv_step by blast+
  show "\<exists>t. ants_step s t \<and> ants_left t < ants_left s" if i: "ants_inv s" and d: "\<not> ants_done s"
  proof -
    have "\<exists>t. ants_step s t"
    proof (cases "next_task s < length (tasks s)")
      case True
      then show ?thesis using accept refuse by blast
    next
      case False
      then have n: "next_task s = length (tasks s)" using i by (auto simp: ants_inv_def)
      show ?thesis
      proof (cases "\<exists>i < length (tasks s). tasks s ! i \<in> {Running, Finishing}")
        case True
        then show ?thesis using complete released by blast
      next
        case False
        then have r: "\<forall>t \<in> set (tasks s). t \<notin> {Running, Finishing}" by (metis in_set_conv_nth)
        have u: "\<forall>t \<in> set (tasks s). t \<noteq> Unsubmitted" using i n by (auto simp: ants_inv_def in_set_conv_nth)
        have "\<forall>t \<in> set (tasks s). t = Done \<or> t = Refused" using r u by (metis insertCI task_pc.exhaust)
        then have "\<not> main_ended s" using d by (simp add: ants_done_def)
        moreover have "wg s = 0" using i r by (auto simp: ants_inv_def at_pc_zero)
        ultimately show ?thesis using waited [OF n] by blast
      qed
    qed
    then show ?thesis using ants_inv_step [OF i] by blast
  qed
qed

text \<open>
  C34. At most ten tasks run at a time and the first ten are never refused. The wait group counts the
  running tasks, so the program does not end while one runs, and it does end in every run: then each of
  the twenty tasks was carried out or refused.
\<close>

theorem ants_pool_ends:
  assumes "ants_step\<^sup>*\<^sup>* ants_start s"
  shows "at_pc Running (tasks s) \<le> 10 \<and> wg s = at_pc Running (tasks s) \<and> (\<forall>i < 10. tasks s ! i \<noteq> Refused) \<and>
    (main_ended s \<longrightarrow> (\<forall>t \<in> set (tasks s). t \<in> {Finishing, Done, Refused})) \<and>
    (\<exists>t. ants_step\<^sup>*\<^sup>* s t \<and> main_ended t \<and> length (tasks t) = 20 \<and> (\<forall>x \<in> set (tasks t). x = Done \<or> x = Refused))"
proof -
  have inv: "ants_inv s" by (rule ants.inv_reachable [OF refl assms])
  obtain t where t: "ants_step\<^sup>*\<^sup>* s t" "ants_done t" using ants.ends [OF inv] by blast
  have "length (tasks t) = 20" using ants.inv_steps [OF t(1) inv] by (simp add: ants_inv_def task_count_def)
  then have "\<exists>t. ants_step\<^sup>*\<^sup>* s t \<and> main_ended t \<and> length (tasks t) = 20 \<and> (\<forall>x \<in> set (tasks t). x = Done \<or> x = Refused)"
    using t by (auto simp: ants_done_def)
  moreover have "x \<in> {Finishing, Done, Refused}" if m: "main_ended s" and x: "x \<in> set (tasks s)" for x
  proof -
    have "Running \<notin> set (tasks s)" "x \<noteq> Unsubmitted" using inv m x by (auto simp: ants_inv_def at_pc_zero in_set_conv_nth)
    then show ?thesis using x by (cases x) auto
  qed
  ultimately show ?thesis using inv by (auto simp: ants_inv_def busy_def capacity_def)
qed

theorem ants_pool_ends_witness: "\<exists>s. ants_step\<^sup>*\<^sup>* ants_start s \<and> main_ended s \<and> wg s = 0"
proof -
  obtain t where t: "ants_step\<^sup>*\<^sup>* ants_start t" "main_ended t" "\<forall>x \<in> set (tasks t). x = Done \<or> x = Refused"
    using ants_pool_ends [OF rtranclp.rtrancl_refl] by blast
  have "wg t = at_pc Running (tasks t)" using ants_pool_ends [OF t(1)] by blast
  moreover have "at_pc Running (tasks t) = 0" using t(3) by (auto simp: at_pc_zero)
  ultimately show ?thesis using t by auto
qed

section \<open>Two onces that need each other\<close>

text \<open>A call of \<open>Do\<close> while the function is running waits for the lock that the function's own \<open>Do\<close> holds.\<close>

datatype once = Unused | InProgress | Used

datatype once_name = OnceA | OnceB

datatype once_end = Returned | Deadlocked

definition other_once :: "once_name \<Rightarrow> once_name" where
  "other_once x = (case x of OnceA \<Rightarrow> OnceB | OnceB \<Rightarrow> OnceA)"

text \<open>\<open>fuel\<close> bounds the depth of the calls.\<close>

fun do_once :: "nat \<Rightarrow> once_name \<Rightarrow> (once_name \<Rightarrow> once) \<Rightarrow> once_name list \<Rightarrow> ((once_name \<Rightarrow> once) \<times> once_name list \<times> once_end) option" where
  "do_once 0 x st out = None"
| "do_once (Suc fuel) x st out =
     (case st x of
        Used \<Rightarrow> Some (st, out, Returned)
      | InProgress \<Rightarrow> Some (st, out, Deadlocked)
      | Unused \<Rightarrow>
          (case do_once fuel (other_once x) (st(x := InProgress)) (out @ [x]) of
             Some (st', out', Returned) \<Rightarrow> Some (st'(x := Used), out', Returned)
           | r \<Rightarrow> r))"

definition once_main :: "nat \<Rightarrow> ((once_name \<Rightarrow> once) \<times> once_name list \<times> once_end) option" where
  "once_main fuel = do_once fuel OnceA (\<lambda>_. Unused) []"

text \<open>Both functions are entered, once each, and then the program waits for itself.\<close>

lemma once_main_deadlocks: "once_main (Suc (Suc (Suc n))) = Some (\<lambda>_. InProgress, [OnceA, OnceB], Deadlocked)"
  by (auto simp: once_main_def other_once_def fun_eq_iff) (metis once_name.exhaust)

end
