(* ===== verification/WaitDemos.thy ===== *)
theory WaitDemos
  imports GoPrelude
begin

text \<open>
  Programs about waiting: \<open>wait/poll\<close>, \<open>wait/backoff\<close>, the tasks that a context ends (\<open>context/cancel\<close>,
  \<open>context/timeout\<close>), the timers of \<open>time/after\<close>, and the reader that waits for ever
  (\<open>concurrency/leak/read\<close>). Sleeping takes the time of a clock in steps, or is left out.
\<close>

section \<open>Polling\<close>

text \<open>
  \<open>conditionToWait\<close> makes its counter anew in each call; \<open>conditionToWait2\<close> counts in a variable of the
  package. A condition is a step on that variable; the lines are the values printed.
\<close>

definition condition_to_wait :: "nat \<Rightarrow> nat \<times> nat list \<times> bool" where
  "condition_to_wait v = (let counter = 0 + 1 in (v, [counter], counter \<ge> 5))"

definition condition_to_wait2 :: "nat \<Rightarrow> nat \<times> nat list \<times> bool" where
  "condition_to_wait2 v = (let v = v + 1 in (v, [v], v \<ge> 5))"

text \<open>\<open>wait.Poll\<close> calls the condition after each interval until it holds or the time is over, and at least once; at
the end of the time it is up to the timers whether there is one more call or one less.\<close>

fun poll_tries :: "nat \<Rightarrow> (nat \<Rightarrow> nat \<times> nat list \<times> bool) \<Rightarrow> nat \<Rightarrow> nat \<times> nat list \<times> bool" where
  "poll_tries 0 c v = (v, [], False)"
| "poll_tries (Suc n) c v =
     (case c v of
        (v', ls, True) \<Rightarrow> (v', ls, True)
      | (v', ls, False) \<Rightarrow> (case poll_tries n c v' of (v'', ms, r) \<Rightarrow> (v'', ls @ ms, r)))"

definition polls :: "(nat \<Rightarrow> nat \<Rightarrow> (nat \<Rightarrow> nat \<times> nat list \<times> bool) \<Rightarrow> nat \<Rightarrow> nat \<times> nat list \<times> bool) \<Rightarrow> bool" where
  "polls poll \<longleftrightarrow> (\<forall>interval timeout c v. \<exists>n > 0. timeout div interval \<le> Suc n \<and> n \<le> Suc (timeout div interval) \<and>
     poll interval timeout c v = poll_tries n c v)"

datatype poll_line = CounterValue nat | TimedOut | ConditionMet

definition report :: "nat \<times> nat list \<times> bool \<Rightarrow> nat \<times> poll_line list" where
  "report r = (case r of (v, ls, met) \<Rightarrow> (v, map CounterValue ls @ [if met then ConditionMet else TimedOut]))"

definition poll_main ::
    "(nat \<Rightarrow> nat \<Rightarrow> (nat \<Rightarrow> nat \<times> nat list \<times> bool) \<Rightarrow> nat \<Rightarrow> nat \<times> nat list \<times> bool) \<Rightarrow> poll_line list" where
  "poll_main poll =
     (let (v1, l1) = report (poll 1 10 condition_to_wait 0); (v2, l2) = report (poll 1 10 condition_to_wait2 v1) in l1 @ l2)"

lemma first_condition_never: "poll_tries n condition_to_wait v = (v, replicate n 1, False)"
  by (induction n) (simp_all add: condition_to_wait_def)

lemma poll_tries_grow: "poll_tries n c v = (v', ls, True) \<Longrightarrow> poll_tries (n + m) c v = (v', ls, True)"
proof (induction n arbitrary: v v' ls)
  case (Suc n)
  obtain u us b where c: "c v = (u, us, b)" by (cases "c v")
  show ?case
  proof (cases b)
    case False
    then obtain ms where "poll_tries n c u = (v', ms, True)" "ls = us @ ms" using Suc.prems c by (auto split: prod.splits)
    then show ?thesis using Suc.IH c False by simp
  qed (use Suc.prems c in simp)
qed simp

lemma second_condition_fifth:
  assumes "5 \<le> n"
  shows "poll_tries n condition_to_wait2 0 = (5, [1, 2, 3, 4, 5], True)"
proof -
  have "poll_tries 5 condition_to_wait2 0 = (5, [1, 2, 3, 4, 5], True)" by (simp add: numeral_eq_Suc condition_to_wait2_def)
  from poll_tries_grow [OF this, of "n - 5"] show ?thesis using assms by simp
qed

text \<open>
  The first poll prints one every time, at least nine times, and times out, although its condition is
  meant to count to five: its counter is a new one in every call. The second, on the package's counter,
  is met at the fifth call.
\<close>

lemma first_poll_times_out:
  assumes "polls poll"
  shows "\<exists>n. 9 \<le> n \<and> n \<le> 11 \<and>
    poll_main poll = replicate n (CounterValue 1) @ [TimedOut] @ map CounterValue [1, 2, 3, 4, 5] @ [ConditionMet]"
proof -
  obtain n where n: "10 \<le> Suc n" "n \<le> Suc 10" "poll 1 10 condition_to_wait 0 = poll_tries n condition_to_wait 0"
    using assms unfolding polls_def by (metis div_by_1)
  obtain m where m: "10 \<le> Suc m" "poll 1 10 condition_to_wait2 0 = poll_tries m condition_to_wait2 0"
    using assms unfolding polls_def by (metis div_by_1)
  have "poll_tries m condition_to_wait2 0 = (5, [1, 2, 3, 4, 5], True)" by (rule second_condition_fifth) (use m(1) in simp)
  then show ?thesis using n m by (intro exI [of _ n]) (simp add: poll_main_def report_def first_condition_never)
qed

theorem first_poll_times_out_witness:
  "\<exists>n. poll_main (\<lambda>interval timeout. poll_tries (max 1 (timeout div interval))) =
     replicate n (CounterValue 1) @ [TimedOut] @ map CounterValue [1, 2, 3, 4, 5] @ [ConditionMet]"
proof -
  have "polls (\<lambda>interval timeout. poll_tries (max 1 (timeout div interval)))"
    unfolding polls_def
  proof (intro allI)
    fix interval timeout :: nat and c v
    show "\<exists>n > 0. timeout div interval \<le> Suc n \<and> n \<le> Suc (timeout div interval) \<and>
        poll_tries (max 1 (timeout div interval)) c v = poll_tries n c v"
      by (rule exI [of _ "max 1 (timeout div interval)"]) (auto simp: max_def)
  qed
  from first_poll_times_out [OF this] show ?thesis by blast
qed

section \<open>Retrying\<close>

text \<open>\<open>wait/backoff\<close>: the operation says whether it has succeeded, but always returns false.\<close>

datatype attempt_line = OperationSucceeded | OperationFailed

definition try_operation :: "nat \<Rightarrow> attempt_line \<times> bool" where
  "try_operation nanos = (if nanos mod 2 = 0 then OperationSucceeded else OperationFailed, False)"

text \<open>
  \<open>BackoffUntil\<close> with the pauses \<open>ds\<close> in milliseconds, from the time \<open>t\<close> until the channel is closed at the
  time \<open>closing\<close>; \<open>nanos\<close> is the clock. A success closes the channel too.
\<close>

fun backoff_until :: "(nat \<Rightarrow> nat) \<Rightarrow> nat \<Rightarrow> nat list \<Rightarrow> nat \<Rightarrow> (nat \<times> attempt_line) list" where
  "backoff_until nanos closing [] t = []"
| "backoff_until nanos closing (d # ds) t =
     (if closing \<le> t then []
      else (case try_operation (nanos t) of
              (l, True) \<Rightarrow> [(t, l)]
            | (l, False) \<Rightarrow> (t, l) # backoff_until nanos closing ds (t + d)))"

definition backoff_main :: "(nat \<Rightarrow> nat) \<Rightarrow> nat list \<Rightarrow> (nat \<times> attempt_line) list" where
  "backoff_main nanos ds = backoff_until nanos 10000 ds 0"

text \<open>The attempts are made at the same times whatever their results: a success does not end the retrying.\<close>

lemma success_is_ignored: "map fst (backoff_until nanos closing ds t) = map fst (backoff_until nanos' closing ds t)"
  by (induction ds arbitrary: t) (auto simp: try_operation_def)

lemma backoff_attempts: "map fst (backoff_main nanos [500, 1000, 2000, 4000, 5000, 5000]) = [0, 500, 1500, 3500, 7500]"
  by (simp add: backoff_main_def try_operation_def)

section \<open>Tasks that a context ends\<close>

text \<open>
  \<open>runningTask\<close>: on each turn it takes a tick or sees that the context is done; when both are there either
  may be taken. The program ends without waiting for its two tasks. In \<open>context/cancel\<close> the context is
  done when \<open>main\<close> says so, in \<open>context/timeout\<close> at some time (\<open>timed\<close>).
\<close>

datatype context_line = RunningTask nat | CanceledTask nat | MainDone

datatype main_pc = MainSleeping | MainReported | MainCanceled | MainOver

record context_run =
  timed :: bool
  context_done :: bool
  task_ended :: "nat \<Rightarrow> bool"
  main_pc :: main_pc
  printed :: "context_line list"

inductive context_step :: "context_run \<Rightarrow> context_run \<Rightarrow> bool" where
  tick [go_intros]: "i \<in> {1, 2} \<Longrightarrow> \<not> task_ended s i \<Longrightarrow> main_pc s \<noteq> MainOver \<Longrightarrow>
     context_step s (s\<lparr>printed := printed s @ [RunningTask i]\<rparr>)"
| sees_done [go_intros]: "i \<in> {1, 2} \<Longrightarrow> \<not> task_ended s i \<Longrightarrow> main_pc s \<noteq> MainOver \<Longrightarrow> context_done s \<Longrightarrow>
     context_step s (s\<lparr>printed := printed s @ [CanceledTask i], task_ended := (task_ended s)(i := True)\<rparr>)"
| times_out [go_intros]: "timed s \<Longrightarrow> main_pc s \<noteq> MainOver \<Longrightarrow> context_step s (s\<lparr>context_done := True\<rparr>)"
| reports [go_intros]: "main_pc s = MainSleeping \<Longrightarrow> context_step s (s\<lparr>main_pc := MainReported, printed := printed s @ [MainDone]\<rparr>)"
| cancels [go_intros]: "main_pc s = MainReported \<Longrightarrow> \<not> timed s \<Longrightarrow> context_step s (s\<lparr>main_pc := MainCanceled, context_done := True\<rparr>)"
| returns [go_intros]: "main_pc s = (if timed s then MainReported else MainCanceled) \<Longrightarrow> context_step s (s\<lparr>main_pc := MainOver\<rparr>)"

definition context_start :: "bool \<Rightarrow> context_run" where
  "context_start tm = \<lparr>timed = tm, context_done = False, task_ended = (\<lambda>_. False), main_pc = MainSleeping, printed = []\<rparr>"

text \<open>A list of lines is in order: after a task's last line there is none of it.\<close>

definition in_order :: "context_line list \<Rightarrow> bool" where
  "in_order ls \<longleftrightarrow> (\<forall>i xs ys. ls = xs @ CanceledTask i # ys \<longrightarrow> RunningTask i \<notin> set ys \<and> CanceledTask i \<notin> set ys)"

lemma in_order_snoc:
  "in_order (ls @ [l]) \<longleftrightarrow> in_order ls \<and> (\<forall>i. l = RunningTask i \<or> l = CanceledTask i \<longrightarrow> CanceledTask i \<notin> set ls)"
proof
  assume o: "in_order (ls @ [l])"
  have "in_order ls"
    unfolding in_order_def
  proof (intro allI impI)
    fix i xs ys assume "ls = xs @ CanceledTask i # ys"
    then have "ls @ [l] = xs @ CanceledTask i # (ys @ [l])" by simp
    then have "RunningTask i \<notin> set (ys @ [l]) \<and> CanceledTask i \<notin> set (ys @ [l])" using o unfolding in_order_def by blast
    then show "RunningTask i \<notin> set ys \<and> CanceledTask i \<notin> set ys" by simp
  qed
  moreover have "CanceledTask i \<notin> set ls" if "l = RunningTask i \<or> l = CanceledTask i" for i
  proof
    assume "CanceledTask i \<in> set ls"
    then obtain xs ys where "ls @ [l] = xs @ CanceledTask i # (ys @ [l])" by (metis append.assoc append_Cons split_list)
    then have "RunningTask i \<notin> set (ys @ [l]) \<and> CanceledTask i \<notin> set (ys @ [l])" using o unfolding in_order_def by blast
    then show False using that by auto
  qed
  ultimately show "in_order ls \<and> (\<forall>i. l = RunningTask i \<or> l = CanceledTask i \<longrightarrow> CanceledTask i \<notin> set ls)" by blast
next
  assume o: "in_order ls \<and> (\<forall>i. l = RunningTask i \<or> l = CanceledTask i \<longrightarrow> CanceledTask i \<notin> set ls)"
  show "in_order (ls @ [l])"
    unfolding in_order_def
  proof (intro allI impI)
    fix i xs ys assume e: "ls @ [l] = xs @ CanceledTask i # ys"
    show "RunningTask i \<notin> set ys \<and> CanceledTask i \<notin> set ys"
    proof (cases ys rule: rev_cases)
      case (snoc zs z)
      then have ls: "ls = xs @ CanceledTask i # zs" "l = z" using e by simp_all
      then have "CanceledTask i \<in> set ls" by simp
      then show ?thesis using o ls snoc unfolding in_order_def by (metis Un_iff empty_iff empty_set insert_iff list.simps(15) set_append)
    qed simp
  qed
qed

definition context_inv :: "context_run \<Rightarrow> bool" where
  "context_inv s \<longleftrightarrow> in_order (printed s) \<and> (\<forall>i. CanceledTask i \<in> set (printed s) \<longleftrightarrow> task_ended s i) \<and>
     (\<forall>i. task_ended s i \<longrightarrow> context_done s) \<and> (\<not> timed s \<longrightarrow> context_done s \<longrightarrow> MainDone \<in> set (printed s)) \<and>
     (main_pc s \<noteq> MainSleeping \<longrightarrow> MainDone \<in> set (printed s)) \<and>
     (\<not> timed s \<longrightarrow> main_pc s = MainSleeping \<longrightarrow> \<not> context_done s)"

lemma context_inv_step: "context_inv s \<Longrightarrow> context_step s t \<Longrightarrow> context_inv t"
  by (erule context_step.cases) (auto simp: context_inv_def in_order_snoc)

interpretation ctx: step_invariant "\<lambda>s. \<exists>tm. s = context_start tm" context_step context_inv
proof
  show "\<And>s. \<exists>tm. s = context_start tm \<Longrightarrow> context_inv s" by (auto simp: context_inv_def context_start_def in_order_def)
qed (rule context_inv_step)

text \<open>
  What the two programs can print: a task's last line is the one that says it is canceled, there is one at
  most, and under \<open>context/cancel\<close> it comes only after \<open>main\<close> has reported. A task that has not ended can
  always still print that it is running, and the program can end before a task has seen the end.
\<close>

lemma canceled_is_last:
  assumes "context_step\<^sup>*\<^sup>* (context_start tm) s" "printed s = xs @ CanceledTask i # ys"
  shows "RunningTask i \<notin> set ys \<and> CanceledTask i \<notin> set ys"
  using ctx.inv_reachable [OF _ assms(1)] assms(2) unfolding context_inv_def in_order_def by blast

lemma canceled_after_report:
  assumes "context_step\<^sup>*\<^sup>* (context_start False) s" "CanceledTask i \<in> set (printed s)" "\<not> timed s"
  shows "MainDone \<in> set (printed s)"
  using ctx.inv_reachable [OF _ assms(1)] assms(2,3) unfolding context_inv_def by blast

lemma main_ends_first: "\<exists>s. context_step\<^sup>*\<^sup>* (context_start False) s \<and> main_pc s = MainOver \<and> printed s = [MainDone]"
proof -
  let ?a = "(context_start False)\<lparr>main_pc := MainReported, printed := [MainDone]\<rparr>"
  let ?b = "?a\<lparr>main_pc := MainCanceled, context_done := True\<rparr>"
  have 1: "context_step (context_start False) ?a" using reports [of "context_start False"] by (simp add: context_start_def)
  have 2: "context_step ?a ?b" by (rule cancels) (simp_all add: context_start_def)
  have 3: "context_step ?b (?b\<lparr>main_pc := MainOver\<rparr>)" by (rule returns) (simp add: context_start_def)
  have "context_step\<^sup>*\<^sup>* (context_start False) (?b\<lparr>main_pc := MainOver\<rparr>)" using 1 2 3 by (meson r_into_rtranclp rtranclp_trans)
  then show ?thesis by (intro exI conjI) (assumption, simp_all)
qed

section \<open>Timers\<close>

text \<open>\<open>time/after\<close>: a new timer of three seconds on every turn of the loop; \<open>ts\<close> are the times of the sends.\<close>

datatype after_line = GotCh | OperationTimeout

fun after_loop :: "nat list \<Rightarrow> nat \<Rightarrow> after_line list \<times> nat" where
  "after_loop [] now = ([OperationTimeout], now + 3)"
| "after_loop (t # ts) now =
     (if t < now + 3 then (case after_loop ts (max now t) of (ls, e) \<Rightarrow> (GotCh # ls, e)) else ([OperationTimeout], now + 3))"

definition after_main :: "after_line list \<times> nat" where "after_main = after_loop [2] 0"

lemma after_main_prints: "after_main = ([GotCh, OperationTimeout], 5)"
  by (simp add: after_main_def)

text \<open>The time-out is that of a turn and not of the whole: sends every two seconds put it off to the last of them.\<close>

lemma after_loop_put_off: "after_loop (map (\<lambda>k. t + 2 * Suc k) [0..<n]) t = (replicate n GotCh @ [OperationTimeout], t + 2 * n + 3)"
proof (induction n arbitrary: t)
  case (Suc n)
  have "map (\<lambda>k. t + 2 * Suc k) [0..<Suc n] = (t + 2) # map (\<lambda>k. (t + 2) + 2 * Suc k) [0..<n]"
    by (simp add: upt_conv_Cons map_Suc_upt [symmetric] comp_def del: upt_Suc)
  then show ?case using Suc.IH [of "t + 2"] by simp
qed simp

section \<open>A reader nobody writes to\<close>

text \<open>
  \<open>doWork\<close> on a channel: a nil one (\<open>None\<close>) blocks its reader for ever, another gives its strings and is
  closed. The deferred calls run last in, first out: \<open>completed\<close> is closed before the exit is printed. The result is
  what is printed until then, whether it is closed, and what is printed afterwards.
\<close>

datatype reader_line = ReadString string | DoWorkExited | DonePrinted | OtherTasks

definition do_work :: "string list option \<Rightarrow> reader_line list \<times> bool \<times> reader_line list" where
  "do_work c = (case c of None \<Rightarrow> ([], False, []) | Some xs \<Rightarrow> (map ReadString xs, True, [DoWorkExited]))"

text \<open>The goroutine that waits for the work prints \<open>Done\<close> when it is completed, beside the reader's last line.\<close>

definition waiting_goroutine :: "string list option \<Rightarrow> reader_line list set" where
  "waiting_goroutine c = (case do_work c of (ls, closed, exits) \<Rightarrow>
     (if closed then (\<lambda>zs. ls @ zs) ` shuffles exits [DonePrinted] else {ls @ exits}))"

text \<open>\<open>main\<close> prints its line, beside the goroutine, and goes round for ever.\<close>

definition leak_main :: "reader_line list set" where
  "leak_main = (\<Union>zs \<in> waiting_goroutine None. shuffles [OtherTasks] zs)"

lemma leak_main_prints: "leak_main = {[OtherTasks]}"
  by (simp add: leak_main_def waiting_goroutine_def do_work_def)

lemma done_before_exit_possible:
  "waiting_goroutine (Some []) = {[DoWorkExited, DonePrinted], [DonePrinted, DoWorkExited]}"
  by (auto simp: waiting_goroutine_def do_work_def)

end
