(* ===== verification/MetcdSystem.thy ===== *)
theory MetcdSystem
  imports Metcd GoText
begin

text \<open>
  The whole program \<open>etcd/metcd\<close>: the flags and the wiring of \<open>main.go\<close>, the listener, the store and the
  HTTP handlers around the running node of \<open>Metcd\<close>. The standard library's URL parser and listener and the
  gob encoder are parameters.
\<close>

section \<open>Flags, store and listener\<close>

record metcd_flags =
  cluster_flag :: string
  id_flag :: int
  port_flag :: int
  join_flag :: bool

definition default_flags :: metcd_flags where
  "default_flags = \<lparr>cluster_flag = ''http://127.0.0.1:9021'', id_flag = 1, port_flag = 9121, join_flag = False\<rparr>"

definition cluster_peers :: "metcd_flags \<Rightarrow> string list" where
  "cluster_peers fl = split_on (CHR '','') (cluster_flag fl)"

text \<open>\<open>mapKVStore\<close>; its snapshot is empty whatever the map holds. An unknown kind gives a nil store.\<close>

record map_store =
  ms_kv :: "string \<rightharpoonup> string"

definition new_kv_store :: "string \<Rightarrow> map_store option" where
  "new_kv_store kind = (if kind = ''map'' then Some \<lparr>ms_kv = Map.empty\<rparr> else None)"

definition get_snapshot :: "map_store \<Rightarrow> nat list" where
  "get_snapshot st = []"

text \<open>The start of \<open>serveRaft\<close>, up to \<open>Serve\<close>: indexing the peers panics out of range.\<close>

datatype serve_failure = PeerIndexPanic | BadPeerUrl | ListenerFailed

definition new_stoppable_listener :: "(string \<Rightarrow> bool) \<Rightarrow> string \<Rightarrow> string option" where
  "new_stoppable_listener listen addr = (if listen addr then Some addr else None)"

definition serve_raft :: "(string \<Rightarrow> string option) \<Rightarrow> (string \<Rightarrow> bool) \<Rightarrow> metcd_flags \<Rightarrow> (serve_failure, string) result" where
  "serve_raft url_host listen fl =
     (let peers = cluster_peers fl; i = id_flag fl - 1 in
      if i < 0 \<or> int (length peers) \<le> i then Inl PeerIndexPanic
      else (case url_host (peers ! nat i) of
              None \<Rightarrow> Inl BadPeerUrl
            | Some host \<Rightarrow> (case new_stoppable_listener listen host of None \<Rightarrow> Inl ListenerFailed | Some a \<Rightarrow> Inr a)))"

lemma cluster_peers_not_empty: "cluster_peers fl \<noteq> []"
  by (simp add: cluster_peers_def split_on_not_Nil)

lemma serve_raft_needs_own_peer:
  "serve_raft url_host listen fl = Inl PeerIndexPanic \<longleftrightarrow> id_flag fl < 1 \<or> int (length (cluster_peers fl)) < id_flag fl"
  by (auto simp: serve_raft_def Let_def split: option.splits)

section \<open>The running program\<close>

text \<open>
  A handler of the key-value server has answered, or waits in its send on \<open>proposeC\<close> with the status it
  will answer with. The program ends when \<open>main\<close> has seen the error channel closed or when some goroutine calls
  \<open>log.Fatal\<close>.
\<close>

datatype handler = Sending string nat | Answered nat

datatype metcd_exit = MainReturned | EncodeFailed | KvServerFailed

record ('m, 'n) metcd_system =
  member :: "('m, 'n) metcd"
  handlers :: "handler list"
  over :: "metcd_exit option"

definition main_wiring :: "'m \<Rightarrow> 'n \<Rightarrow> snapshot \<Rightarrow> ('m, 'n) metcd_system" where
  "main_wiring m nd sn = \<lparr>member = new_metcd m nd sn, handlers = [], over = None\<rparr>"

definition handle_request ::
    "(string \<Rightarrow> string \<Rightarrow> string option) \<Rightarrow> string \<Rightarrow> string \<Rightarrow> string option \<Rightarrow> ('m, 'n) metcd_system \<Rightarrow> ('m, 'n) metcd_system" where
  "handle_request gob verb uri body s =
     (case serve_http gob verb uri body of
        Reply code \<Rightarrow> s\<lparr>handlers := handlers s @ [Answered code]\<rparr>
      | ProposeThenReply v code \<Rightarrow> s\<lparr>handlers := handlers s @ [Sending v code]\<rparr>
      | EncodeFatal \<Rightarrow> s\<lparr>over := Some EncodeFailed\<rparr>)"

definition alive :: "('m, 'n) metcd_system \<Rightarrow> bool" where
  "alive s \<longleftrightarrow> over s = None \<and> fatal_exit (member s) = None"

inductive system_step ::
    "('m, 'n) raft_lib \<Rightarrow> (conf_change \<Rightarrow> 'n \<Rightarrow> 'n) \<Rightarrow> bool \<Rightarrow> (string \<Rightarrow> string \<Rightarrow> string option) \<Rightarrow>
     ('m, 'n) metcd_system \<Rightarrow> ('m, 'n) metcd_system \<Rightarrow> bool"
  for L pc accept_fails gob where
  member_step: "alive s \<Longrightarrow> metcd_step L pc accept_fails (member s) n \<Longrightarrow> proposed n = proposed (member s) \<Longrightarrow>
    system_step L pc accept_fails gob s (s\<lparr>member := n\<rparr>)"
| request: "alive s \<Longrightarrow> system_step L pc accept_fails gob s (handle_request gob verb uri body s)"
| hand_over: "alive s \<Longrightarrow> k < length (handlers s) \<Longrightarrow> handlers s ! k = Sending v code \<Longrightarrow>
    metcd_step L pc accept_fails (member s) (recv_propose L (Got v) (member s)) \<Longrightarrow>
    system_step L pc accept_fails gob s
      (s\<lparr>member := recv_propose L (Got v) (member s), handlers := (handlers s)[k := Answered code]\<rparr>)"
| kv_server_fails: "alive s \<Longrightarrow> system_step L pc accept_fails gob s (s\<lparr>over := Some KvServerFailed\<rparr>)"
| main_returns: "alive s \<Longrightarrow> error_closed (member s) \<Longrightarrow> system_step L pc accept_fails gob s (s\<lparr>over := Some MainReturned\<rparr>)"

definition system_inv :: "bool \<Rightarrow> ('m, 'n) metcd_system \<Rightarrow> bool" where
  "system_inv af s \<longleftrightarrow> metcd_inv af (member s) \<and> set (handlers s) \<inter> range Answered \<subseteq> Answered ` {200, 400, 405} \<and>
     (over s = Some MainReturned \<longrightarrow> af)"

lemma no_hand_over: "metcd_inv af n \<Longrightarrow> \<not> metcd_step L pc af n (recv_propose L (Got v) n)"
proof
  assume "metcd_inv af n" "metcd_step L pc af n (recv_propose L (Got v) n)"
  then have "metcd_inv af (recv_propose L (Got v) n)" by (rule metcd_inv_step)
  then show False by (simp add: metcd_inv_def recv_propose_def)
qed

lemma serve_http_codes: "serve_http gob verb uri body = Reply code \<Longrightarrow> code \<in> {200, 400, 405}"
  by (auto simp: serve_http_def store_propose_def split: if_splits option.splits)

lemma system_inv_step:
  assumes "system_inv af s" "system_step L pc af gob s t"
  shows "system_inv af t"
  using assms(2)
proof cases
  case (member_step n)
  then show ?thesis using assms(1) metcd_inv_step by (fastforce simp: system_inv_def)
next
  case (request verb uri body)
  then show ?thesis
    using assms(1) serve_http_codes by (auto simp: system_inv_def handle_request_def split: http_action.splits)
next
  case (hand_over k v code)
  then show ?thesis using assms(1) no_hand_over unfolding system_inv_def by blast
next
  case kv_server_fails
  then show ?thesis using assms(1) by (simp add: system_inv_def)
next
  case main_returns
  then show ?thesis using assms(1) by (auto simp: system_inv_def metcd_inv_def)
qed

interpretation metcd_sys: step_invariant "\<lambda>s. \<exists>m nd sn. s = main_wiring m nd sn" "system_step L pc af gob" "system_inv af" for L pc af gob
proof
  show "\<And>s. \<exists>m nd sn. s = main_wiring m nd sn \<Longrightarrow> system_inv af s"
    by (auto simp: system_inv_def main_wiring_def metcd_inv_def new_metcd_def)
qed (rule system_inv_step)

text \<open>A handler's entry is never changed by a later step: those that answer do so at once, those that wait go on waiting.\<close>

lemma handlers_step:
  assumes "system_inv af s" "system_step L pc af gob s t"
  shows "\<exists>hs. handlers t = handlers s @ hs"
  using assms(2)
proof cases
  case (request verb uri body)
  then show ?thesis by (auto simp: handle_request_def split: http_action.splits)
next
  case (hand_over k v code)
  then show ?thesis using assms(1) no_hand_over unfolding system_inv_def by blast
qed auto

lemma handlers_grow:
  assumes "(system_step L pc af gob)\<^sup>*\<^sup>* s t" "system_inv af s"
  shows "\<exists>hs. handlers t = handlers s @ hs"
  using assms
proof (induction rule: converse_rtranclp_induct)
  case (step s u)
  then obtain hs hs' where "handlers u = handlers s @ hs" "handlers t = handlers u @ hs'"
    using handlers_step system_inv_step by metis
  then show ?case by simp
qed simp

section \<open>Property\<close>

text \<open>
  C19. No PUT is ever answered with 204. In every run of the whole program a PUT whose body can be read
  waits in its send to raft for as long as the program runs; the answers given are 200 to POST, of which nothing is
  done, 400 and 405; no proposal reaches the raft node. \<open>main\<close> returns only if the raft listener fails.
\<close>

theorem put_never_answered:
  assumes "(system_step L pc accept_fails gob)\<^sup>*\<^sup>* (main_wiring m nd sn) s"
    and "alive s" "gob uri value = Some enc"
    and "(system_step L pc accept_fails gob)\<^sup>*\<^sup>* (handle_request gob ''PUT'' uri (Some value) s) t"
  shows "system_step L pc accept_fails gob s (handle_request gob ''PUT'' uri (Some value) s) \<and>
    handlers t ! length (handlers s) = Sending enc 204 \<and> Answered 204 \<notin> set (handlers t) \<and>
    proposed (member t) = [] \<and> (over t = Some MainReturned \<longrightarrow> accept_fails)"
proof -
  let ?u = "handle_request gob ''PUT'' uri (Some value) s"
  have i: "system_inv accept_fails s" using metcd_sys.inv_reachable [OF _ assms(1)] by blast
  have st: "system_step L pc accept_fails gob s ?u" by (rule request) (rule assms(2))
  have iu: "system_inv accept_fails ?u" by (rule system_inv_step [OF i st])
  have rt: "(system_step L pc accept_fails gob)\<^sup>*\<^sup>* (main_wiring m nd sn) t"
    using rtranclp.rtrancl_into_rtrancl [OF assms(1), OF st] assms(4) by (rule rtranclp_trans)
  have it: "system_inv accept_fails t" using metcd_sys.inv_reachable [OF _ rt] by blast
  obtain hs where "handlers t = handlers ?u @ hs" using handlers_grow [OF assms(4) iu] by blast
  moreover have "handlers ?u = handlers s @ [Sending enc 204]"
    by (simp add: handle_request_def serve_http_def store_propose_def assms(3))
  ultimately have "handlers t ! length (handlers s) = Sending enc 204" by (simp add: nth_append)
  moreover have "Answered 204 \<notin> set (handlers t)" using it by (auto simp: system_inv_def)
  ultimately show ?thesis using it st by (simp add: system_inv_def metcd_inv_def)
qed

lemma put_never_answered_witness:
  "handlers (handle_request (\<lambda>k v. Some (k @ v)) ''PUT'' ''/a'' (Some ''1'') (main_wiring () () zero_snap)) ! 0 = Sending ''/a1'' 204"
  using put_never_answered [of mute_lib "\<lambda>_ _. ()" False "\<lambda>k v. Some (k @ v)" "()" "()" zero_snap
      "main_wiring () () zero_snap" "''/a''" "''1''" "''/a1''"
      "handle_request (\<lambda>k v. Some (k @ v)) ''PUT'' ''/a'' (Some ''1'') (main_wiring () () zero_snap)"]
  by (simp add: alive_def main_wiring_def new_metcd_def)

end
