(* ===== verification/SmallDemos.thy ===== *)
theory SmallDemos
  imports TxnRev
begin

text \<open>
  Short programs: the tag made of a name's hex digits (\<open>hex\<close>), the lookup of one revision (\<open>etcd/etcd-bbolt\<close>),
  the samples of a chunk (\<open>chunkenc\<close>), the ring buffer, the basic cache of \<open>ristretto-cache/basic\<close>, the chunked
  response and the event stream (\<open>http/chunked\<close>, \<open>http/watch\<close>) and the token of \<open>jwt\<close>. The libraries are
  parameters with the laws of their documentation.
\<close>

section \<open>Hex digits\<close>

definition hex_digit :: "nat \<Rightarrow> char" where
  "hex_digit n = (if n < 10 then char_of (48 + n) else char_of (87 + n))"

definition hex_of_byte :: "char \<Rightarrow> string" where
  "hex_of_byte c = [hex_digit (of_char c div 16), hex_digit (of_char c mod 16)]"

text \<open>\<open>hex.EncodeToString\<close> on the bytes of a name.\<close>

definition hex_encode :: "string \<Rightarrow> string" where
  "hex_encode s = concat (map hex_of_byte s)"

definition encoding_string :: "string \<Rightarrow> string" where
  "encoding_string name =
     (if name = [] then []
      else (let h = hex_encode name in
            if length h \<ge> 5 then take 5 h else h @ replicate (5 - length h) (h ! (length h - 1))))"

definition hex_main :: string where "hex_main = encoding_string ''p''"

lemma length_hex_encode [simp]: "length (hex_encode s) = 2 * length s"
  by (induction s) (simp_all add: hex_encode_def hex_of_byte_def)

lemma hex_encode_simps [simp]: "hex_encode [] = []" "hex_encode (c # s) = hex_of_byte c @ hex_encode s"
  by (simp_all add: hex_encode_def)

lemma hex_digit_inj: "m < 16 \<Longrightarrow> n < 16 \<Longrightarrow> hex_digit m = hex_digit n \<longleftrightarrow> m = n"
  by (auto simp: hex_digit_def char_of_eq_iff take_bit_eq_mod split: if_splits)

lemma hex_of_byte_inj: "hex_of_byte c = hex_of_byte d \<longleftrightarrow> c = d"
proof
  assume "hex_of_byte c = hex_of_byte d"
  then have "hex_digit (of_char c div 16) = hex_digit (of_char d div 16)" "hex_digit (of_char c mod 16) = hex_digit (of_char d mod 16)"
    by (simp_all add: hex_of_byte_def)
  moreover have "(of_char c :: nat) div 16 < 16" "(of_char d :: nat) div 16 < 16"
    using nat_of_char_less_256 [of c] nat_of_char_less_256 [of d] by (simp_all add: less_mult_imp_div_less)
  ultimately have "(of_char c :: nat) div 16 = of_char d div 16" "(of_char c :: nat) mod 16 = of_char d mod 16"
    by (simp_all add: hex_digit_inj)
  then show "c = d" by (metis div_mult_mod_eq of_char_eq_iff)
qed simp

text \<open>
  The tag of a name has five digits, and names with the same first three bytes have the same tag. Shorter names
  collide as well: the padding repeats the last digit.
\<close>

lemma encoding_string_length: "length (encoding_string name) = (if name = [] then 0 else 5)"
  by (simp add: encoding_string_def Let_def)

lemma encoding_string_prefix: "encoding_string (a # b # c # s) = encoding_string (a # b # c # t)"
  by (simp add: encoding_string_def hex_of_byte_def)

lemma hex_main_is: "hex_main = ''70000''"
  by code_simp

lemma tags_collide: "encoding_string ''p'' = encoding_string [CHR ''p'', CHR 0x00]"
  by code_simp

text \<open>\<open>hex.DecodeString\<close>; an odd length or another character is an error.\<close>

definition hex_val :: "char \<Rightarrow> nat option" where
  "hex_val c = (let n = of_char c in
     if 48 \<le> n \<and> n \<le> 57 then Some (n - 48)
     else if 97 \<le> n \<and> n \<le> 102 then Some (n - 87)
     else if 65 \<le> n \<and> n \<le> 70 then Some (n - 55) else None)"

fun hex_decode :: "string \<Rightarrow> byte list option" where
  "hex_decode [] = Some []"
| "hex_decode [c] = None"
| "hex_decode (c # d # s) =
     (case (hex_val c, hex_val d, hex_decode s) of
        (Some h, Some l, Some bs) \<Rightarrow> Some (of_nat (16 * h + l) # bs)
      | _ \<Rightarrow> None)"

lemma hex_val_digit: "n < 16 \<Longrightarrow> hex_val (hex_digit n) = Some n"
  by (auto simp: hex_val_def hex_digit_def Let_def of_char_of)

lemma hex_roundtrip: "hex_decode (hex_encode s) = Some (map (\<lambda>c. of_nat (of_char c)) s)"
proof (induction s)
  case (Cons c s)
  have "(of_char c :: nat) div 16 < 16" using nat_of_char_less_256 [of c] by (simp add: less_mult_imp_div_less)
  then show ?case by (simp add: hex_of_byte_def hex_val_digit Cons.IH)
qed simp

section \<open>One revision of an etcd database (\<open>etcd/etcd-bbolt\<close>)\<close>

datatype bbolt_line = RevKeyBytes "byte list" | NotFound | KeyFields key_value | UnmarshalFatal

definition key_hex :: string where "key_hex = ''00000000000000055f0000000000000000''"

text \<open>\<open>get\<close> is the bucket \<open>key\<close>, \<open>unm\<close> the protobuf decoder; the error of the decoding of the key is dropped.\<close>

definition bbolt_main :: "(byte list \<Rightarrow> byte list option) \<Rightarrow> (byte list \<Rightarrow> key_value option) \<Rightarrow> bbolt_line list" where
  "bbolt_main get unm =
     (let key = (case hex_decode key_hex of None \<Rightarrow> [] | Some bs \<Rightarrow> bs) in
      RevKeyBytes key #
        (case get key of
           None \<Rightarrow> [NotFound]
         | Some v \<Rightarrow> (case unm v of None \<Rightarrow> [UnmarshalFatal] | Some kv \<Rightarrow> [KeyFields kv])))"

text \<open>The key is that of main revision five, sub revision zero, as the revision reader decodes it.\<close>

lemma key_hex_decodes: "hex_decode key_hex = Some (encode_revision_key 5 0 False)"
  by code_simp

lemma bbolt_main_reads_revision_five:
  "get (encode_revision_key 5 0 False) = Some v \<Longrightarrow> unm v = Some kv \<Longrightarrow>
     bbolt_main get unm = [RevKeyBytes (encode_revision_key 5 0 False), KeyFields kv] \<and>
     decode_revision_key (encode_revision_key 5 0 False) = Some (5, 0, False)"
  by (simp add: bbolt_main_def key_hex_decodes decode_encode)

section \<open>Samples of a chunk (\<open>chunkenc\<close>)\<close>

type_synonym sample = "int \<times> int"

definition sample_at :: "int \<Rightarrow> nat \<Rightarrow> sample" where
  "sample_at now i = (now + int (i * 1000), int i)"

text \<open>The loop over the iterator: \<open>Next\<close> moves on before the count of the printed is tested.\<close>

fun print_samples :: "nat \<Rightarrow> sample list \<Rightarrow> sample list \<times> sample list" where
  "print_samples printed [] = ([], [])"
| "print_samples printed (x # xs) =
     (if printed < 10 then (case print_samples (printed + 1) xs of (ls, r) \<Rightarrow> (x # ls, r)) else ([], xs))"

text \<open>\<open>chunk\<close> makes the iterator's samples and the size of the bytes of those appended. The result is
what is printed, the number of samples and the uncompressed size.\<close>

definition chunk_main :: "(sample list \<Rightarrow> sample list) \<Rightarrow> int \<Rightarrow> sample list \<times> nat \<times> nat" where
  "chunk_main chunk now =
     (let xs = map (sample_at now) [1..<100] in (fst (print_samples 0 (chunk xs)), length xs, length xs * 16))"

lemma print_samples_take: "n \<le> 10 \<Longrightarrow> print_samples n xs = (take (10 - n) xs, drop (11 - n) xs)"
proof (induction xs arbitrary: n)
  case (Cons x xs)
  then show ?case by (cases "n = 10") (simp_all add: take_Cons' drop_Cons' Suc_diff_le)
qed simp

lemma chunk_main_prints:
  assumes "\<And>xs. chunk xs = xs"
  shows "chunk_main chunk now = (map (sample_at now) [1..<11], 99, 1584)"
proof -
  have "[1..<100] = [1..<11] @ [11..<100]" using upt_add_eq_append [of 1 11 89] by simp
  then show ?thesis by (simp add: chunk_main_def assms print_samples_take)
qed

section \<open>The ring buffer (\<open>ring-buffer\<close>)\<close>

record 'r ring =
  new_ring :: "nat \<Rightarrow> 'r"
  ring_write :: "int \<Rightarrow> 'r \<Rightarrow> 'r"
  ring_read :: "'r \<Rightarrow> int option \<times> 'r"

text \<open>What the package promises: a queue that grows.\<close>

definition growing :: "'r ring \<Rightarrow> ('r \<Rightarrow> int list) \<Rightarrow> bool" where
  "growing R content \<longleftrightarrow> (\<forall>n. content (new_ring R n) = []) \<and> (\<forall>x r. content (ring_write R x r) = content r @ [x]) \<and>
     (\<forall>r. case content r of [] \<Rightarrow> fst (ring_read R r) = None
          | x # xs \<Rightarrow> fst (ring_read R r) = Some x \<and> content (snd (ring_read R r)) = xs)"

text \<open>The reading loop, with fuel; \<open>None\<close> if it runs out.\<close>

fun read_all_ring :: "'r ring \<Rightarrow> nat \<Rightarrow> 'r \<Rightarrow> int list option" where
  "read_all_ring R 0 r = None"
| "read_all_ring R (Suc n) r =
     (case ring_read R r of
        (None, r) \<Rightarrow> Some []
      | (Some x, r) \<Rightarrow> map_option (\<lambda>xs. x # xs) (read_all_ring R n r))"

definition ring_main :: "'r ring \<Rightarrow> nat \<Rightarrow> int list option" where
  "ring_main R fuel = read_all_ring R fuel (fold (ring_write R) [1, 2, 3, 4, 5] (new_ring R 2))"

lemma read_all_ring_content:
  "growing R content \<Longrightarrow> length (content r) < n \<Longrightarrow> read_all_ring R n r = Some (content r)"
proof (induction n arbitrary: r)
  case (Suc n)
  have r: "case content r of [] \<Rightarrow> fst (ring_read R r) = None
      | x # xs \<Rightarrow> fst (ring_read R r) = Some x \<and> content (snd (ring_read R r)) = xs"
    using Suc.prems(1) by (simp add: growing_def)
  show ?case
  proof (cases "content r")
    case Nil
    then show ?thesis using r by (cases "ring_read R r") auto
  next
    case (Cons x xs)
    then obtain r' where "ring_read R r = (Some x, r')" "content r' = xs" using r by (cases "ring_read R r") auto
    then show ?thesis using Suc Cons by simp
  qed
qed simp

text \<open>More is written than the first capacity, and all of it comes out in order.\<close>

lemma ring_main_prints: "growing R content \<Longrightarrow> ring_main R 6 = Some [1, 2, 3, 4, 5]"
proof -
  assume g: "growing R content"
  then have "content (fold (ring_write R) [1, 2, 3, 4, 5] (new_ring R 2)) = [1, 2, 3, 4, 5]" by (simp add: growing_def)
  then show ?thesis using read_all_ring_content [OF g, of "fold (ring_write R) [1, 2, 3, 4, 5] (new_ring R 2)" 6] by (simp add: ring_main_def)
qed

section \<open>A cache read before it is settled (\<open>ristretto-cache/basic\<close>)\<close>

datatype cache_value = VString string | VInt int | VBool bool

datatype cache_line = Found string cache_value | NotThere

definition cache_sets :: "(string \<times> cache_value) list" where
  "cache_sets = [(''key1'', VString ''value1''), (''key2'', VInt 123), (''key3'', VBool True)]"

text \<open>
  \<open>Set\<close> buffers an item, and until \<open>Wait\<close> a \<open>Get\<close> may find it or not: \<open>visible\<close> says which have been applied
  when it is read. \<open>main\<close> waits only after its reads.
\<close>

definition basic_cache_main :: "(string \<Rightarrow> bool) \<Rightarrow> cache_line list" where
  "basic_cache_main visible =
     (let get = (\<lambda>k. if visible k then map_of cache_sets k else None);
          show = (\<lambda>k. case get k of Some v \<Rightarrow> [Found k v] | None \<Rightarrow> [])
      in show ''key1'' @ show ''key2'' @ show ''key3'' @
         (case get ''not_exist'' of None \<Rightarrow> [NotThere] | Some _ \<Rightarrow> []))"

lemma basic_cache_may_miss:
  "basic_cache_main (\<lambda>_. False) = [NotThere]"
  "length (basic_cache_main (\<lambda>_. True)) = 4"
  "last (basic_cache_main visible) = NotThere"
  by (simp_all add: basic_cache_main_def cache_sets_def)

section \<open>A response read line by line (\<open>http/chunked\<close>)\<close>

definition chunked_handler :: string where
  "chunked_handler = concat (replicate 2 (''huyun troy'' @ [CHR 0x0A]))"

text \<open>\<open>ReadString\<close>: up to and with the newline, or what is left at the end.\<close>

fun read_string :: "string \<Rightarrow> string \<times> string \<times> bool" where
  "read_string [] = ([], [], False)"
| "read_string (c # s) =
     (if c = CHR 0x0A then ([c], s, True) else (case read_string s of (l, r, ok) \<Rightarrow> (c # l, r, ok)))"

lemma read_string_parts: "read_string s = (l, r, ok) \<Longrightarrow> s = l @ r \<and> (\<not> ok \<longrightarrow> r = []) \<and> (ok \<longrightarrow> length r < length s)"
  by (induction s arbitrary: l r ok) (auto split: if_splits prod.splits)

text \<open>The loop of \<open>Client\<close>; \<open>broken\<close> says that the body ends in an error other than \<open>io.EOF\<close>.\<close>

function client_lines :: "bool \<Rightarrow> string \<Rightarrow> string list \<times> bool" where
  "client_lines broken body =
     (case read_string body of (line, rest, ok) \<Rightarrow>
        (let out = (if line = [] then [] else [line]) in
         if ok then (case client_lines broken rest of (ls, fatal) \<Rightarrow> (out @ ls, fatal)) else (out, broken)))"
  by pat_completeness auto
termination
  by (relation "measure (\<lambda>(b, s). length s)") (auto dest: read_string_parts [OF sym])

declare client_lines.simps [simp del]

lemma read_string_line: "read_string s = (l, r, True) \<Longrightarrow> l \<noteq> []"
  by (cases s) (auto split: if_splits prod.splits)

text \<open>The lines printed are the body, whatever it is and also when it breaks off; the samples' own body is two lines.\<close>

lemma client_prints_body: "concat (fst (client_lines broken body)) = body \<and> snd (client_lines broken body) = broken"
proof (induction broken body rule: client_lines.induct)
  case (1 broken body)
  obtain l r ok where e: "read_string body = (l, r, ok)" by (cases "read_string body")
  show ?case
  proof (cases ok)
    case True
    obtain ls f where c: "client_lines broken r = (ls, f)" by fastforce
    have "concat ls = r \<and> f = broken" using 1 [OF e [symmetric] refl refl True] c by simp
    then show ?thesis using read_string_parts [OF e] e True c by (subst (1 2) client_lines.simps) (simp add: Let_def)
  next
    case False
    then show ?thesis using read_string_parts [OF e] e by (subst (1 2) client_lines.simps) (simp add: Let_def)
  qed
qed

lemma client_of_sample: "client_lines False chunked_handler = ([''huyun troy'' @ [CHR 0x0A], ''huyun troy'' @ [CHR 0x0A]], False)"
  by (simp add: chunked_handler_def client_lines.simps numeral_eq_Suc)

section \<open>The event stream (\<open>http/watch\<close>)\<close>

text \<open>\<open>handleWatch\<close> from the time \<open>now\<close>, with the outcomes of the writes so far: the times of the events sent, and whether
it has returned. Only a failed write ends it.\<close>

fun handle_watch :: "bool list \<Rightarrow> nat \<Rightarrow> nat list \<times> bool" where
  "handle_watch [] now = ([], False)"
| "handle_watch (True # ws) now = (case handle_watch ws (now + 2) of (ts, e) \<Rightarrow> (now # ts, e))"
| "handle_watch (False # ws) now = ([], True)"

lemma handle_watch_events:
  "handle_watch ws now = (map (\<lambda>k. now + 2 * k) [0..<length (takeWhile (\<lambda>w. w) ws)], False \<in> set ws)"
proof (induction ws now rule: handle_watch.induct)
  case (2 ws now)
  have "map (\<lambda>k. now + 2 * k) [0..<Suc n] = now # map (\<lambda>k. (now + 2) + 2 * k) [0..<n]" for n
    by (simp add: upt_conv_Cons map_Suc_upt [symmetric] comp_def del: upt_Suc)
  then show ?case using 2 by simp
qed simp_all

section \<open>A token with a lifetime (\<open>jwt\<close>)\<close>

record jwt_claims =
  iss :: string
  sub :: string
  aud :: string
  exp_claim :: int

datatype jwt_error = RandFailed | SignFailed | ParseFailed | InvalidToken

text \<open>The expiry is taken in milliseconds, ten seconds after now.\<close>

definition map_claims :: "int \<Rightarrow> jwt_claims" where
  "map_claims now_ms = \<lparr>iss = ''hxia'', sub = ''hxia.io'', aud = ''demo'', exp_claim = now_ms + 10 * 1000\<rparr>"

text \<open>The library signs, and parses at a time given in seconds: the claims of the token and whether it is valid.\<close>

record ('k, 't) jwt_lib =
  sign :: "'k \<Rightarrow> jwt_claims \<Rightarrow> 't option"
  parse_token :: "'k \<Rightarrow> int \<Rightarrow> 't \<Rightarrow> (jwt_claims \<times> bool) option"

definition parse_jwt :: "('k, 't) jwt_lib \<Rightarrow> 'k \<Rightarrow> int \<Rightarrow> 't \<Rightarrow> (jwt_error, jwt_claims) result" where
  "parse_jwt J key now_s tok =
     (case parse_token J key now_s tok of
        None \<Rightarrow> Inl ParseFailed
      | Some (c, valid) \<Rightarrow> if \<not> valid then Inl InvalidToken else Inr c)"

definition jwt_main :: "('k, 't) jwt_lib \<Rightarrow> 'k option \<Rightarrow> int \<Rightarrow> int \<Rightarrow> (jwt_error, 't \<times> jwt_claims) result" where
  "jwt_main J random now_ms later_s =
     (case random of
        None \<Rightarrow> Inl RandFailed
      | Some key \<Rightarrow>
          (case sign J key (map_claims now_ms) of
             None \<Rightarrow> Inl SignFailed
           | Some tok \<Rightarrow> (case parse_jwt J key later_s tok of Inl e \<Rightarrow> Inl e | Inr c \<Rightarrow> Inr (tok, c))))"

text \<open>The library accepts a token it has signed while the time in seconds is before its \<open>exp\<close>, which RFC 7519 counts in seconds.\<close>

definition jwt_lawful :: "('k, 't) jwt_lib \<Rightarrow> bool" where
  "jwt_lawful J \<longleftrightarrow> (\<forall>key c tok now. sign J key c = Some tok \<longrightarrow>
     parse_token J key now tok = (if now < exp_claim c then Some (c, True) else None))"

text \<open>
  The token meant to last ten seconds is accepted until a thousand times the present: made at \<open>now_s\<close> seconds,
  it is good at every time up to \<open>1000 * now_s\<close>.
\<close>

lemma token_outlives_ten_seconds:
  assumes "jwt_lawful J" "sign J key (map_claims (1000 * now_s)) = Some tok"
  shows "parse_jwt J key t tok = (if t < 1000 * now_s + 10000 then Inr (map_claims (1000 * now_s)) else Inl ParseFailed)"
proof -
  have "parse_token J key t tok = (if t < exp_claim (map_claims (1000 * now_s)) then Some (map_claims (1000 * now_s), True) else None)"
    using assms unfolding jwt_lawful_def by blast
  then show ?thesis by (simp add: parse_jwt_def map_claims_def)
qed

lemma jwt_main_works:
  assumes "jwt_lawful J" "sign J key (map_claims now_ms) = Some tok" "later_s < now_ms"
  shows "jwt_main J (Some key) now_ms later_s = Inr (tok, map_claims now_ms)"
proof -
  have "parse_token J key later_s tok = (if later_s < exp_claim (map_claims now_ms) then Some (map_claims now_ms, True) else None)"
    using assms unfolding jwt_lawful_def by blast
  moreover have "later_s < exp_claim (map_claims now_ms)" using assms(3) by (simp add: map_claims_def)
  ultimately show ?thesis by (simp add: jwt_main_def parse_jwt_def assms(2))
qed

end
