(* ===== verification/RunGroup.thy ===== *)
theory RunGroup
  imports GoPrelude "HOL-Library.Multiset"
begin

text \<open>
  The run group of \<open>actor\<close>, whose third actor ends by itself and the others by their interrupts, the daemons of
  \<open>concurrency/netpool\<close> with and without a warm pool of connections, and the loop of the consumer and the producer
  in \<open>kafka\<close>. The packages' promises are the rules and parameters of the models.
\<close>

section \<open>Three actors in a group (\<open>actor\<close>)\<close>

text \<open>
  \<open>run.Group\<close> runs its actors together; when the first of them returns it interrupts the actors, one after the other in
  the order \<open>is\<close>, and \<open>Run\<close> returns when all have. Whether it also interrupts the one that has returned
  is left open: \<open>is\<close> holds the others, each once, and perhaps the third.
\<close>

datatype actor_line = IsSleeping | IsClosed nat | IsExit nat

record group =
  slept :: nat                        \<comment> \<open>turns of the third actor's loop\<close>
  third_over :: bool
  interrupts :: "nat list option"     \<comment> \<open>still to be made, once an actor has returned\<close>
  cancelled :: "nat \<Rightarrow> bool"
  closed :: "nat \<Rightarrow> bool"
  group_over :: bool
  said :: "actor_line list"

definition group_start :: group where
  "group_start = \<lparr>slept = 0, third_over = False, interrupts = None, cancelled = (\<lambda>_. False), closed = (\<lambda>_. False),
     group_over = False, said = []\<rparr>"

definition orderly :: "nat list \<Rightarrow> bool" where
  "orderly is \<longleftrightarrow> distinct is \<and> {1, 2} \<subseteq> set is \<and> set is \<subseteq> {1, 2, 3}"

inductive group_step :: "nat list \<Rightarrow> group \<Rightarrow> group \<Rightarrow> bool" for "is" where
  sleeps: "slept s \<le> 3 \<Longrightarrow> group_step is s (s\<lparr>slept := slept s + 1, said := said s @ [IsSleeping]\<rparr>)"
| third_returns: "3 < slept s \<Longrightarrow> \<not> third_over s \<Longrightarrow> group_step is s (s\<lparr>third_over := True, said := said s @ [IsClosed 3]\<rparr>)"
| first_returned: "third_over s \<or> closed s 1 \<or> closed s 2 \<Longrightarrow> interrupts s = None \<Longrightarrow> group_step is s (s\<lparr>interrupts := Some is\<rparr>)"
| interrupt: "interrupts s = Some (i # js) \<Longrightarrow>
    group_step is s (s\<lparr>interrupts := Some js, cancelled := (cancelled s)(i := True), said := said s @ [IsExit i]\<rparr>)"
| cancel_seen: "i \<in> {1, 2} \<Longrightarrow> cancelled s i \<Longrightarrow> \<not> closed s i \<Longrightarrow>
    group_step is s (s\<lparr>closed := (closed s)(i := True), said := said s @ [IsClosed i]\<rparr>)"
| run_returns: "interrupts s = Some [] \<Longrightarrow> third_over s \<Longrightarrow> closed s 1 \<Longrightarrow> closed s 2 \<Longrightarrow> \<not> group_over s \<Longrightarrow>
    group_step is s (s\<lparr>group_over := True\<rparr>)"

definition group_left :: "nat list \<Rightarrow> group \<Rightarrow> nat" where
  "group_left is s = (4 - slept s) + (if third_over s then 0 else 1) +
     (case interrupts s of None \<Rightarrow> length is + 1 | Some js \<Rightarrow> length js) +
     (if closed s 1 then 0 else 1) + (if closed s 2 then 0 else 1) + (if group_over s then 0 else 1)"

text \<open>What has been said is what the fields tell, and the third actor's lines come first.\<close>

definition first_lines :: "actor_line list" where
  "first_lines = replicate 4 IsSleeping @ [IsClosed 3]"

definition made :: "nat list \<Rightarrow> group \<Rightarrow> nat list" where
  "made is s = (case interrupts s of None \<Rightarrow> [] | Some js \<Rightarrow> take (length is - length js) is)"

definition group_inv :: "nat list \<Rightarrow> group \<Rightarrow> bool" where
  "group_inv is s \<longleftrightarrow> slept s \<le> 4 \<and> (third_over s \<longrightarrow> slept s = 4) \<and>
     (\<not> third_over s \<longrightarrow> said s = replicate (slept s) IsSleeping \<and> interrupts s = None) \<and>
     (case interrupts s of None \<Rightarrow> True | Some js \<Rightarrow> is = made is s @ js) \<and>
     (\<forall>i. cancelled s i \<longleftrightarrow> i \<in> set (made is s)) \<and>
     (\<forall>i. closed s i \<longrightarrow> cancelled s i \<and> i \<in> {1, 2}) \<and>
     (third_over s \<longrightarrow> (\<exists>zs. said s = first_lines @ zs \<and>
        mset zs = mset (map IsExit (made is s)) + mset (map IsClosed (filter (closed s) [1, 2])))) \<and>
     (group_over s \<longrightarrow> interrupts s = Some [] \<and> third_over s \<and> closed s 1 \<and> closed s 2)"

lemma made_some: "interrupts t = Some js \<Longrightarrow> is = xs @ js \<Longrightarrow> made is t = xs"
  by (simp add: made_def)

lemma closed_others: "group_inv is s \<Longrightarrow> \<not> third_over s \<Longrightarrow> \<not> closed s i \<and> \<not> cancelled s i"
  by (auto simp: group_inv_def made_def)

lemma group_inv_step:
  assumes inv: "group_inv is s" and st: "group_step is s t"
  shows "group_inv is t"
  using st
proof cases
  case sleeps
  then show ?thesis using inv by (auto simp: group_inv_def made_def replicate_append_same)
next
  case third_returns
  have "slept s = 4" "said s = replicate 4 IsSleeping" "interrupts s = None" using inv third_returns by (auto simp: group_inv_def)
  moreover have "filter (closed s) [1, 2] = []" using closed_others [OF inv] third_returns by simp
  moreover have "\<not> closed s i" for i using closed_others [OF inv] third_returns by blast
  ultimately show ?thesis using inv third_returns by (simp add: group_inv_def made_def first_lines_def)
next
  case first_returned
  have o: "third_over s" using first_returned closed_others [OF inv] by blast
  have "made is s = []" using first_returned by (simp add: made_def)
  then have "\<not> closed s i" for i using inv unfolding group_inv_def by (metis empty_iff empty_set)
  then show ?thesis using inv first_returned o by (simp add: group_inv_def made_def)
next
  case (interrupt i js)
  have o: "third_over s" using inv interrupt by (auto simp: group_inv_def)
  have e: "is = made is s @ i # js" using inv interrupt by (simp add: group_inv_def)
  have m: "made is t = made is s @ [i]" by (rule made_some [where js = js]) (simp add: interrupt, simp add: e [symmetric])
  obtain zs where "said s = first_lines @ zs"
      "mset zs = mset (map IsExit (made is s)) + mset (map IsClosed (filter (closed s) [1, 2]))"
    using inv o by (auto simp: group_inv_def)
  then have "said t = first_lines @ (zs @ [IsExit i])"
      "mset (zs @ [IsExit i]) = mset (map IsExit (made is t)) + mset (map IsClosed (filter (closed t) [1, 2]))"
    using interrupt m by simp_all
  moreover have "\<forall>i. closed t i \<longrightarrow> cancelled t i \<and> i \<in> {1, 2}" "\<forall>i. cancelled t i \<longleftrightarrow> i \<in> set (made is t)"
    using inv interrupt(1) m unfolding group_inv_def by auto
  moreover have "is = made is t @ js" using e m by (metis append.assoc append_Cons append_Nil)
  ultimately show ?thesis using inv o interrupt unfolding group_inv_def by (simp del: filter.simps)
next
  case (cancel_seen i)
  have o: "third_over s" using closed_others [OF inv] cancel_seen by blast
  have m: "made is t = made is s" using cancel_seen by (simp add: made_def)
  have c: "\<forall>i. cancelled s i \<longleftrightarrow> i \<in> set (made is s)" "\<forall>i. closed s i \<longrightarrow> cancelled s i \<and> i \<in> {1, 2}"
    using inv unfolding group_inv_def by blast+
  obtain zs where "said s = first_lines @ zs"
      "mset zs = mset (map IsExit (made is s)) + mset (map IsClosed (filter (closed s) [1, 2]))"
    using inv o by (auto simp: group_inv_def)
  then have "said t = first_lines @ (zs @ [IsClosed i])"
      "mset (zs @ [IsClosed i]) = mset (map IsExit (made is t)) + mset (map IsClosed (filter (closed t) [1, 2]))"
    using cancel_seen m by auto
  moreover have "\<forall>i. closed t i \<longrightarrow> cancelled t i \<and> i \<in> {1, 2}" "\<forall>i. cancelled t i \<longleftrightarrow> i \<in> set (made is t)"
    using c cancel_seen m by auto
  moreover have "case interrupts t of None \<Rightarrow> True | Some js \<Rightarrow> is = made is t @ js"
    using inv cancel_seen m unfolding group_inv_def by (cases "interrupts s") simp_all
  ultimately show ?thesis using o cancel_seen inv unfolding group_inv_def by (intro conjI) (blast | simp)+
next
  case run_returns
  then show ?thesis using inv by (simp add: group_inv_def made_def) blast
qed

lemma group_left_step: "group_step is s t \<Longrightarrow> group_left is t < group_left is s"
  by (erule group_step.cases) (auto simp: group_left_def)

lemma group_progress:
  assumes inv: "group_inv is s" and o: "orderly is" and n: "\<not> group_over s"
  shows "\<exists>t. group_step is s t"
proof (cases "third_over s")
  case False
  then show ?thesis using group_step.sleeps [of s "is"] group_step.third_returns [of s "is"] by (meson not_le)
next
  case True
  show ?thesis
  proof (cases "interrupts s")
    case None
    then show ?thesis using True group_step.first_returned by blast
  next
    case (Some js)
    show ?thesis
    proof (cases js)
      case Nil
      then have "made is s = is" using inv Some by (simp add: group_inv_def)
      then have "cancelled s 1" "cancelled s 2" using inv o by (auto simp: group_inv_def orderly_def)
      then show ?thesis
        using group_step.cancel_seen [of 1 s "is"] group_step.cancel_seen [of 2 s "is"] group_step.run_returns [of s "is"] Some Nil True n
        by blast
    next
      case (Cons i js')
      then show ?thesis using group_step.interrupt Some by blast
    qed
  qed
qed

interpretation grp: ending_run "\<lambda>s. orderly is \<and> s = group_start" "group_step is" "\<lambda>s. orderly is \<and> group_inv is s"
  "group_left is" group_over for "is"
proof
  fix s t
  show "orderly is \<and> s = group_start \<Longrightarrow> orderly is \<and> group_inv is s"
    by (simp add: group_inv_def group_start_def made_def)
  show "orderly is \<and> group_inv is s \<Longrightarrow> group_step is s t \<Longrightarrow> orderly is \<and> group_inv is t"
    using group_inv_step by blast
  show "\<exists>t. group_step is s t \<and> group_left is t < group_left is s"
    if "orderly is \<and> group_inv is s" "\<not> group_over s"
    using group_progress that group_left_step by metis
  show "group_step is s t \<Longrightarrow> group_left is t < group_left is s" by (rule group_left_step)
qed

text \<open>
  The group always ends, and then its first five lines are the third actor's and the others are the exits and the two
  closings, in some order.
\<close>

lemma group_final_lines:
  assumes "group_inv is s" "orderly is" "group_over s"
  shows "\<exists>zs. said s = first_lines @ zs \<and> mset zs = mset (map IsExit is) + {#IsClosed 1, IsClosed 2#}"
proof -
  have "interrupts s = Some []" using assms by (simp add: group_inv_def)
  then have "made is s = is" by (simp add: made_def)
  moreover have "third_over s" "filter (closed s) [1, 2] = [1, 2]" using assms by (auto simp: group_inv_def)
  ultimately show ?thesis using assms(1) by (auto simp: group_inv_def)
qed

lemma group_ends:
  assumes "orderly is" "(group_step is)\<^sup>*\<^sup>* group_start s"
  shows "\<exists>t zs. (group_step is)\<^sup>*\<^sup>* s t \<and> group_over t \<and> said t = first_lines @ zs \<and>
    mset zs = mset (map IsExit is) + {#IsClosed 1, IsClosed 2#}"
proof -
  have i: "orderly is \<and> group_inv is s" using grp.inv_reachable [OF _ assms(2)] assms(1) by simp
  obtain t where t: "(group_step is)\<^sup>*\<^sup>* s t" "group_over t" using grp.ends [OF i] by blast
  then have "group_inv is t" using grp.inv_steps [OF t(1) i] by simp
  then show ?thesis using group_final_lines [OF _ assms(1) t(2)] t by blast
qed


text \<open>Only the order of the other lines is open: a closing comes after its exit, since the cancel does.\<close>

lemma exit_before_close:
  assumes "orderly is" "(group_step is)\<^sup>*\<^sup>* group_start s" "closed s i"
  shows "IsExit i \<in> set (said s)"
proof -
  have i: "group_inv is s" using grp.inv_reachable [OF _ assms(2)] assms(1) by simp
  then have m: "i \<in> set (made is s)" using assms(3) unfolding group_inv_def by blast
  have o: "third_over s" using closed_others [OF i] assms(3) by blast
  obtain zs where "said s = first_lines @ zs"
      "mset zs = mset (map IsExit (made is s)) + mset (map IsClosed (filter (closed s) [1, 2]))"
    using i o by (auto simp: group_inv_def)
  then have "IsExit i \<in># mset zs" using m by simp
  then show ?thesis using \<open>said s = first_lines @ zs\<close> by simp
qed

section \<open>Connections kept warm (\<open>concurrency/netpool\<close>)\<close>

datatype daemon_line = CreateConnection | CannotListen | CannotAccept | AcceptedRequest

text \<open>
  The daemons answer one connection after another; \<open>accepts\<close> are the results of \<open>Accept\<close>. Connecting to the service
  takes a second. The result is the lines and the seconds spent.
\<close>

fun serve_cold :: "bool list \<Rightarrow> daemon_line list \<times> nat" where
  "serve_cold [] = ([], 0)"
| "serve_cold (ok # as) =
     (case serve_cold as of (ls, t) \<Rightarrow> if ok then (AcceptedRequest # ls, t + 1) else (CannotAccept # ls, t))"

definition start_network_daemon :: "bool \<Rightarrow> bool list \<Rightarrow> daemon_line list \<times> nat" where
  "start_network_daemon listens accepts =
     (if \<not> listens then ([CreateConnection, CannotListen], 0)
      else (case serve_cold accepts of (ls, t) \<Rightarrow> (CreateConnection # ls, t)))"

text \<open>
  The pool holds a number of connections; the runtime may drop some before each \<open>Get\<close> (\<open>drops\<close>), and an empty pool
  makes a new one.
\<close>

definition warm_service_conn_cache :: "nat \<times> nat" where
  "warm_service_conn_cache = ((\<lambda>(pool, t). (pool + 1, t + 1)) ^^ 10) (0, 0)"

fun serve_warm :: "(bool \<times> nat) list \<Rightarrow> nat \<Rightarrow> daemon_line list \<times> nat" where
  "serve_warm [] pool = ([], 0)"
| "serve_warm ((ok, drops) # as) pool =
     (if \<not> ok then (case serve_warm as pool of (ls, t) \<Rightarrow> (CannotAccept # ls, t))
      else (let left = pool - drops in
            if left = 0 then (case serve_warm as (0 + 1) of (ls, t) \<Rightarrow> (AcceptedRequest # ls, t + 1))
            else (case serve_warm as (left - 1 + 1) of (ls, t) \<Rightarrow> (AcceptedRequest # ls, t))))"

definition start_warm_network_daemon :: "bool \<Rightarrow> (bool \<times> nat) list \<Rightarrow> daemon_line list \<times> nat" where
  "start_warm_network_daemon listens as =
     (case warm_service_conn_cache of (pool, t) \<Rightarrow>
        (if \<not> listens then ([CannotListen], t) else (case serve_warm as pool of (ls, t') \<Rightarrow> (ls, t + t'))))"

text \<open>Both give the same lines; the warm one spends its ten seconds before it listens, and none later while nothing is dropped.\<close>

lemma serve_same_lines: "fst (serve_warm as pool) = fst (serve_cold (map fst as))"
  by (induction "as" pool rule: serve_warm.induct) (auto simp: Let_def split: prod.splits)

lemma serve_cold_time: "snd (serve_cold as) = length (filter (\<lambda>ok. ok) as)"
  by (induction "as") (auto split: prod.splits)

lemma serve_warm_no_wait: "0 < pool \<Longrightarrow> \<forall>(ok, d) \<in> set as. d = 0 \<Longrightarrow> snd (serve_warm as pool) = 0"
  by (induction "as" pool rule: serve_warm.induct) (auto simp: Let_def split: prod.splits)

lemma serve_warm_at_most_cold: "snd (serve_warm as pool) \<le> snd (serve_cold (map fst as))"
  by (induction "as" pool rule: serve_warm.induct) (auto simp: Let_def split: prod.splits)

lemma warm_daemon_start: "warm_service_conn_cache = (10, 10)"
  by (simp add: warm_service_conn_cache_def numeral_eq_Suc)

section \<open>Kafka\<close>

datatype kafka_event = Message string string int | MessagesClosed | Interrupt

datatype kafka_line = ConsumerStarted | ReceivedMessage string string int | ShuttingDown

datatype kafka_end = ConsumerReturned | NilMessagePanic | StillConsuming | NoConsumer | NoPartition

text \<open>The loop does not ask whether the channel is open, and a closed one gives a nil message.\<close>

fun consume :: "kafka_event list \<Rightarrow> kafka_line list \<times> kafka_end" where
  "consume [] = ([], StillConsuming)"
| "consume (Message k v off # es) = (case consume es of (ls, e) \<Rightarrow> (ReceivedMessage k v off # ls, e))"
| "consume (MessagesClosed # es) = ([], NilMessagePanic)"
| "consume (Interrupt # es) = ([ShuttingDown], ConsumerReturned)"

definition consumer_main :: "bool \<Rightarrow> bool \<Rightarrow> kafka_event list \<Rightarrow> kafka_line list \<times> kafka_end" where
  "consumer_main consumer_ok partition_ok es =
     (if \<not> consumer_ok then ([], NoConsumer)
      else if \<not> partition_ok then ([], NoPartition)
      else (case consume es of (ls, e) \<Rightarrow> (ConsumerStarted # ls, e)))"

lemma consume_messages:
  "consume (map (\<lambda>(k, v, off). Message k v off) ms @ es) =
     (map (\<lambda>(k, v, off). ReceivedMessage k v off) ms @ fst (consume es), snd (consume es))"
  by (induction ms) (auto split: prod.splits)

lemma consume_ends: "snd (consume es) = ConsumerReturned \<longleftrightarrow> (\<exists>ms rest. es = ms @ Interrupt # rest \<and> (\<forall>m \<in> set ms. \<exists>k v off. m = Message k v off))"
proof (induction es rule: consume.induct)
  case (2 k v off es)
  have "(\<exists>ms rest. Message k v off # es = ms @ Interrupt # rest \<and> (\<forall>m \<in> set ms. \<exists>k v off. m = Message k v off)) \<longleftrightarrow>
      (\<exists>ms rest. es = ms @ Interrupt # rest \<and> (\<forall>m \<in> set ms. \<exists>k v off. m = Message k v off))"
    by (auto simp: Cons_eq_append_conv) (metis append_Cons list.set_intros set_ConsD)
  then show ?case using 2 by (cases "consume es") simp
qed (auto simp: Cons_eq_append_conv)

datatype producer_end = NoProducer | SendFailed | Sent string int int

text \<open>The producer sends one message and prints where it was stored.\<close>

definition producer_main :: "bool \<Rightarrow> (string \<Rightarrow> string \<Rightarrow> (int \<times> int) option) \<Rightarrow> producer_end" where
  "producer_main producer_ok send =
     (if \<not> producer_ok then NoProducer
      else (case send ''test-topic'' ''Hello, Kafka from Go!'' of
              None \<Rightarrow> SendFailed
            | Some (part, off) \<Rightarrow> Sent ''Hello, Kafka from Go!'' part off))"

text \<open>
  A log that stores the message at the end of partition zero and gives it back: what the producer has sent is
  what the consumer prints.
\<close>

lemma producer_to_consumer:
  assumes "producer_main True send = Sent v 0 off"
  shows "consumer_main True True (map (\<lambda>(k, v, off). Message k v off) old @ [Message [] v off, Interrupt]) =
    (ConsumerStarted # map (\<lambda>(k, v, off). ReceivedMessage k v off) old @
       [ReceivedMessage [] ''Hello, Kafka from Go!'' off, ShuttingDown], ConsumerReturned)"
  using assms by (auto simp: consumer_main_def consume_messages producer_main_def split: option.splits prod.splits)

end
