(* ===== verification/Workers.thy ===== *)
theory Workers
  imports GoPrelude "HOL-Library.Multiset" "HOL-Library.Word"
begin

text \<open>
  Goroutines that work on one number or one sum: the counter under a mutex (\<open>concurrency/pprof/mutex\<close>) and the one
  without (\<open>concurrency/dead-lock/temp\<close>), the greetings of \<open>concurrency/goroutines\<close>, the map-reduce of
  \<open>go-zero/mr\<close>, and the measurement of \<open>concurrency/goroutines/mem\<close>.
\<close>

section \<open>A counter under a mutex\<close>

text \<open>\<open>counter++\<close> is a load and a store. The wait group counts the goroutines that have not called \<open>Done\<close>.\<close>

datatype worker = AtLock | AtLoad | AtStore nat | AtUnlock | AtDone | Ended

record counting =
  workers :: "worker list"
  counter :: nat
  mutex_held :: bool
  wait_count :: nat
  shown :: "nat option"

definition worker_count :: nat where "worker_count = 100"

definition mutex_start :: counting where
  "mutex_start = \<lparr>workers = replicate worker_count AtLock, counter = 0, mutex_held = False, wait_count = worker_count, shown = None\<rparr>"

definition go_to :: "nat \<Rightarrow> worker \<Rightarrow> counting \<Rightarrow> counting" where
  "go_to i w s = s\<lparr>workers := (workers s)[i := w]\<rparr>"

definition at :: "nat \<Rightarrow> worker \<Rightarrow> counting \<Rightarrow> bool" where
  "at i w s \<longleftrightarrow> i < length (workers s) \<and> workers s ! i = w"

inductive mutex_step :: "counting \<Rightarrow> counting \<Rightarrow> bool" where
  locks: "at i AtLock s \<Longrightarrow> \<not> mutex_held s \<Longrightarrow> mutex_step s ((go_to i AtLoad s)\<lparr>mutex_held := True\<rparr>)"
| loads: "at i AtLoad s \<Longrightarrow> mutex_step s (go_to i (AtStore (counter s)) s)"
| stores: "at i (AtStore v) s \<Longrightarrow> mutex_step s ((go_to i AtUnlock s)\<lparr>counter := v + 1\<rparr>)"
| unlocks: "at i AtUnlock s \<Longrightarrow> mutex_step s ((go_to i AtDone s)\<lparr>mutex_held := False\<rparr>)"
| done_called: "at i AtDone s \<Longrightarrow> mutex_step s ((go_to i Ended s)\<lparr>wait_count := wait_count s - 1\<rparr>)"
| prints: "wait_count s = 0 \<Longrightarrow> shown s = None \<Longrightarrow> mutex_step s (s\<lparr>shown := Some (counter s)\<rparr>)"

text \<open>Those inside the mutex, those that have stored, and those that have called \<open>Done\<close>.\<close>

fun inside :: "worker \<Rightarrow> bool" where
  "inside AtLoad = True" | "inside (AtStore v) = True" | "inside AtUnlock = True" | "inside _ = False"

fun stored :: "worker \<Rightarrow> bool" where
  "stored AtUnlock = True" | "stored AtDone = True" | "stored Ended = True" | "stored _ = False"

definition number :: "(worker \<Rightarrow> bool) \<Rightarrow> worker list \<Rightarrow> nat" where
  "number P ws = length (filter P ws)"

lemma number_update:
  "i < length ws \<Longrightarrow> number P (ws[i := w]) + (if P (ws ! i) then 1 else 0) = number P ws + (if P w then 1 else 0)"
  unfolding number_def
proof (induction ws arbitrary: i)
  case (Cons x ws)
  then show ?case by (cases i) (auto split: if_splits)
qed simp

lemma number_at: "i < length ws \<Longrightarrow> P (ws ! i) \<Longrightarrow> 0 < number P ws"
  by (auto simp: number_def filter_empty_conv)

definition mutex_inv :: "counting \<Rightarrow> bool" where
  "mutex_inv s \<longleftrightarrow> length (workers s) = worker_count \<and> number inside (workers s) = (if mutex_held s then 1 else 0) \<and>
     counter s = number stored (workers s) \<and> wait_count s = number (\<lambda>w. w \<noteq> Ended) (workers s) \<and>
     (\<forall>v. AtStore v \<in> set (workers s) \<longrightarrow> v = counter s) \<and>
     (shown s \<noteq> None \<longrightarrow> shown s = Some worker_count \<and> wait_count s = 0)"

lemma all_ended: "number (\<lambda>w. w \<noteq> Ended) ws = 0 \<Longrightarrow> number stored ws = length ws"
  by (auto simp: number_def filter_empty_conv) (metis filter_True stored.simps(3))

lemma one_inside:
  assumes "number inside ws \<le> 1" "i < length ws" "j < length ws" "inside (ws ! i)" "inside (ws ! j)"
  shows "i = j"
proof (rule ccontr)
  assume "i \<noteq> j"
  have "number inside (ws[i := Ended]) = 0" using number_update [OF assms(2), of inside Ended] assms(1,4) by simp
  moreover have "0 < number inside (ws[i := Ended])" by (rule number_at [of j]) (use assms \<open>i \<noteq> j\<close> in simp_all)
  ultimately show False by simp
qed

lemma no_store_beside:
  assumes "number inside ws \<le> 1" "i < length ws" "inside (ws ! i)" "AtStore v \<in> set (ws[i := w])" "\<And>v. w \<noteq> AtStore v"
  shows False
proof -
  obtain j where j: "j < length ws" "ws[i := w] ! j = AtStore v" using assms(4) by (auto simp: in_set_conv_nth)
  then have "j \<noteq> i" using assms(5) by (auto simp: assms(2))
  then have "inside (ws ! j)" using j by simp
  then show False using one_inside [OF assms(1) assms(2) j(1) assms(3)] \<open>j \<noteq> i\<close> by blast
qed

lemma mutex_inv_step:
  assumes inv: "mutex_inv s" and st: "mutex_step s t"
  shows "mutex_inv t"
  using st
proof cases
  case (locks i)
  then have i: "i < length (workers s)" "workers s ! i = AtLock" by (simp_all add: at_def)
  have "set (workers t) \<subseteq> insert AtLoad (set (workers s))" using locks set_update_subset_insert by (simp add: go_to_def)
  then show ?thesis
    using inv locks number_update [OF i(1), of inside AtLoad] number_update [OF i(1), of stored AtLoad]
      number_update [OF i(1), of "\<lambda>w. w \<noteq> Ended" AtLoad] i(2)
    by (auto simp: mutex_inv_def go_to_def)
next
  case (loads i)
  then have i: "i < length (workers s)" "workers s ! i = AtLoad" by (simp_all add: at_def)
  have "set (workers t) \<subseteq> insert (AtStore (counter s)) (set (workers s))" using loads set_update_subset_insert by (simp add: go_to_def)
  then show ?thesis
    using inv loads number_update [OF i(1), of inside "AtStore (counter s)"] number_update [OF i(1), of stored "AtStore (counter s)"]
      number_update [OF i(1), of "\<lambda>w. w \<noteq> Ended" "AtStore (counter s)"] i(2)
    by (auto simp: mutex_inv_def go_to_def)
next
  case (stores i v)
  then have i: "i < length (workers s)" "workers s ! i = AtStore v" by (simp_all add: at_def)
  have v: "v = counter s" using inv i unfolding mutex_inv_def by (metis nth_mem)
  have one: "number inside (workers s) \<le> 1" using inv by (simp add: mutex_inv_def)
  have "AtStore u \<notin> set ((workers s)[i := AtUnlock])" for u
    using no_store_beside [OF one i(1), of u AtUnlock] i(2) by auto
  moreover have "shown s = None"
    using inv number_at [OF i(1), of "\<lambda>w. w \<noteq> Ended"] i(2) by (cases "shown s") (auto simp: mutex_inv_def)
  ultimately show ?thesis
    using inv stores v number_update [OF i(1), of inside AtUnlock] number_update [OF i(1), of stored AtUnlock]
      number_update [OF i(1), of "\<lambda>w. w \<noteq> Ended" AtUnlock] i(2)
    by (auto simp: mutex_inv_def go_to_def)
next
  case (unlocks i)
  then have i: "i < length (workers s)" "workers s ! i = AtUnlock" by (simp_all add: at_def)
  have one: "number inside (workers s) \<le> 1" using inv by (simp add: mutex_inv_def)
  have "0 < number inside (workers s)" by (rule number_at [OF i(1)]) (simp add: i(2))
  then have h: "mutex_held s" using inv by (auto simp: mutex_inv_def split: if_splits)
  have "AtStore u \<notin> set ((workers s)[i := AtDone])" for u
    using no_store_beside [OF one i(1), of u AtDone] i(2) by auto
  then show ?thesis
    using inv unlocks h number_update [OF i(1), of inside AtDone] number_update [OF i(1), of stored AtDone]
      number_update [OF i(1), of "\<lambda>w. w \<noteq> Ended" AtDone] i(2)
    by (auto simp: mutex_inv_def go_to_def)
next
  case (done_called i)
  then have i: "i < length (workers s)" "workers s ! i = AtDone" by (simp_all add: at_def)
  have "set (workers t) \<subseteq> insert Ended (set (workers s))" using done_called set_update_subset_insert by (simp add: go_to_def)
  moreover have "shown s = None"
    using inv number_at [OF i(1), of "\<lambda>w. w \<noteq> Ended"] i(2) by (cases "shown s") (auto simp: mutex_inv_def)
  ultimately show ?thesis
    using inv done_called number_update [OF i(1), of inside Ended] number_update [OF i(1), of stored Ended]
      number_update [OF i(1), of "\<lambda>w. w \<noteq> Ended" Ended] i(2)
    by (auto simp: mutex_inv_def go_to_def)
next
  case prints
  then show ?thesis using inv all_ended [of "workers s"] by (auto simp: mutex_inv_def)
qed

text \<open>What is left to do: five steps from the lock to the end, and the print.\<close>

fun worker_left :: "worker \<Rightarrow> nat" where
  "worker_left AtLock = 5" | "worker_left AtLoad = 4" | "worker_left (AtStore v) = 3" | "worker_left AtUnlock = 2"
| "worker_left AtDone = 1" | "worker_left Ended = 0"

definition counting_left :: "counting \<Rightarrow> nat" where
  "counting_left s = sum_list (map worker_left (workers s)) + (if shown s = None then 1 else 0)"

lemma left_update:
  "i < length ws \<Longrightarrow> sum_list (map worker_left (ws[i := w])) + worker_left (ws ! i) = sum_list (map worker_left ws) + worker_left w"
proof (induction ws arbitrary: i)
  case (Cons x ws)
  then show ?case by (cases i) (auto split: if_splits)
qed simp

lemma left_go_to:
  assumes "at i u s" "workers t = (workers s)[i := w]" "shown t = shown s" "worker_left w < worker_left u"
  shows "counting_left t < counting_left s"
  using left_update [of i "workers s" w] assms by (auto simp: counting_left_def at_def)

lemma counting_left_step: "mutex_step s t \<Longrightarrow> counting_left t < counting_left s"
proof (induction rule: mutex_step.induct)
  case (locks i s)
  show ?case by (rule left_go_to [OF locks(1), of _ AtLoad]) (simp_all add: go_to_def)
next
  case (loads i s)
  show ?case by (rule left_go_to [OF loads(1), of _ "AtStore (counter s)"]) (simp_all add: go_to_def)
next
  case (stores i v s)
  show ?case by (rule left_go_to [OF stores(1), of _ AtUnlock]) (simp_all add: go_to_def)
next
  case (unlocks i s)
  show ?case by (rule left_go_to [OF unlocks(1), of _ AtDone]) (simp_all add: go_to_def)
next
  case (done_called i s)
  show ?case by (rule left_go_to [OF done_called(1), of _ Ended]) (simp_all add: go_to_def)
next
  case (prints s)
  then show ?case by (simp add: counting_left_def)
qed

lemma mutex_progress:
  assumes inv: "mutex_inv s" and n: "shown s = None"
  shows "\<exists>t. mutex_step s t"
proof (cases "wait_count s = 0")
  case True
  then show ?thesis using prints n by blast
next
  case False
  then have "filter (\<lambda>w. w \<noteq> Ended) (workers s) \<noteq> []" using inv by (auto simp: mutex_inv_def number_def)
  then obtain i where i: "i < length (workers s)" "workers s ! i \<noteq> Ended" by (auto simp: filter_empty_conv in_set_conv_nth)
  show ?thesis
  proof (cases "mutex_held s")
    case False
    then show ?thesis
      using i by (cases "workers s ! i") (blast intro: mutex_step.intros at_def [THEN iffD2])+
  next
    case True
    then have "filter inside (workers s) \<noteq> []" using inv by (auto simp: mutex_inv_def number_def)
    then obtain j where "j < length (workers s)" "inside (workers s ! j)" by (auto simp: filter_empty_conv in_set_conv_nth)
    then show ?thesis by (cases "workers s ! j") (auto intro: mutex_step.intros at_def [THEN iffD2] simp del: at_def)
  qed
qed

interpretation mtx: ending_run "\<lambda>s. s = mutex_start" mutex_step mutex_inv counting_left "\<lambda>s. shown s \<noteq> None"
proof
  fix s t
  show "s = mutex_start \<Longrightarrow> mutex_inv s" by (simp add: mutex_start_def mutex_inv_def number_def worker_count_def)
  show "mutex_inv s \<Longrightarrow> mutex_step s t \<Longrightarrow> mutex_inv t" by (rule mutex_inv_step)
  show "\<exists>t. mutex_step s t \<and> counting_left t < counting_left s" if "mutex_inv s" "\<not> shown s \<noteq> None"
    using mutex_progress that counting_left_step by blast
  show "mutex_step s t \<Longrightarrow> counting_left t < counting_left s" by (rule counting_left_step)
qed

text \<open>In every run one hundred is what is printed, and every run can be brought to that end.\<close>

lemma mutex_prints_hundred:
  assumes "mutex_step\<^sup>*\<^sup>* mutex_start s"
  shows "shown s \<in> {None, Some 100} \<and> (\<exists>t. mutex_step\<^sup>*\<^sup>* s t \<and> shown t = Some 100)"
proof -
  have inv: "mutex_inv s" by (rule mtx.inv_reachable [OF refl assms])
  obtain t where t: "mutex_step\<^sup>*\<^sup>* s t" "shown t \<noteq> None" using mtx.ends [OF inv] by blast
  have "mutex_inv t" by (rule mtx.inv_steps [OF t(1) inv])
  then show ?thesis using t inv by (auto simp: mutex_inv_def worker_count_def)
qed

section \<open>A counter without a mutex\<close>

text \<open>Two goroutines, each a load and a store; \<open>main\<close> sleeps and does not wait for them.\<close>

datatype racer = RaceStart | RaceLoaded nat | RaceOver

record race =
  race_count :: nat
  racers :: "racer list"

definition race_start :: race where
  "race_start = \<lparr>race_count = 0, racers = [RaceStart, RaceStart]\<rparr>"

inductive race_step :: "race \<Rightarrow> race \<Rightarrow> bool" where
  race_loads: "i < length (racers s) \<Longrightarrow> racers s ! i = RaceStart \<Longrightarrow>
    race_step s (s\<lparr>racers := (racers s)[i := RaceLoaded (race_count s)]\<rparr>)"
| race_stores: "i < length (racers s) \<Longrightarrow> racers s ! i = RaceLoaded v \<Longrightarrow>
    race_step s (s\<lparr>race_count := v + 1, racers := (racers s)[i := RaceOver]\<rparr>)"

definition race_inv :: "race \<Rightarrow> bool" where
  "race_inv s \<longleftrightarrow> length (racers s) = 2 \<and> race_count s \<le> length (filter (\<lambda>r. r = RaceOver) (racers s)) \<and>
     (RaceOver \<in> set (racers s) \<longrightarrow> 1 \<le> race_count s) \<and>
     (\<forall>v. RaceLoaded v \<in> set (racers s) \<longrightarrow> v \<le> length (filter (\<lambda>r. r = RaceOver) (racers s)))"

lemma race_inv_step: "race_inv s \<Longrightarrow> race_step s t \<Longrightarrow> race_inv t"
proof (erule race_step.cases)
  fix s' i assume "race_inv s" "s = s'" "t = s'\<lparr>racers := (racers s')[i := RaceLoaded (race_count s')]\<rparr>"
    "i < length (racers s')" "racers s' ! i = RaceStart"
  moreover then obtain a b where "racers s' = [a, b]" by (auto simp: race_inv_def length_Suc_conv numeral_eq_Suc)
  ultimately show ?thesis by (auto simp: race_inv_def less_Suc_eq nth_Cons split: nat.splits if_splits)
next
  fix s' i v assume "race_inv s" "s = s'" "t = s'\<lparr>race_count := v + 1, racers := (racers s')[i := RaceOver]\<rparr>"
    "i < length (racers s')" "racers s' ! i = RaceLoaded v"
  moreover then obtain a b where "racers s' = [a, b]" by (auto simp: race_inv_def length_Suc_conv numeral_eq_Suc)
  ultimately show ?thesis by (auto simp: race_inv_def less_Suc_eq nth_Cons split: nat.splits if_splits)
qed

interpretation rc: step_invariant "\<lambda>s. s = race_start" race_step race_inv
proof
  show "s = race_start \<Longrightarrow> race_inv s" for s by (simp add: race_start_def race_inv_def)
qed (rule race_inv_step)

text \<open>When both have run the counter is one or two, and one is possible: an update is lost.\<close>

lemma race_result:
  assumes "race_step\<^sup>*\<^sup>* race_start s" "racers s = [RaceOver, RaceOver]"
  shows "race_count s \<in> {1, 2}"
  using rc.inv_reachable [OF refl assms(1)] assms(2) by (auto simp: race_inv_def)

lemma race_loses_update: "race_step\<^sup>*\<^sup>* race_start \<lparr>race_count = 1, racers = [RaceOver, RaceOver]\<rparr>"
proof -
  have 1: "race_step race_start \<lparr>race_count = 0, racers = [RaceLoaded 0, RaceStart]\<rparr>"
    using race_loads [of 0 race_start] by (simp add: race_start_def)
  have 2: "race_step \<lparr>race_count = 0, racers = [RaceLoaded 0, RaceStart]\<rparr> \<lparr>race_count = 0, racers = [RaceLoaded 0, RaceLoaded 0]\<rparr>"
    using race_loads [of 1 "\<lparr>race_count = 0, racers = [RaceLoaded 0, RaceStart]\<rparr>"] by simp
  have 3: "race_step \<lparr>race_count = 0, racers = [RaceLoaded 0, RaceLoaded 0]\<rparr> \<lparr>race_count = 1, racers = [RaceOver, RaceLoaded 0]\<rparr>"
    using race_stores [of 0 "\<lparr>race_count = 0, racers = [RaceLoaded 0, RaceLoaded 0]\<rparr>"] by simp
  have 4: "race_step \<lparr>race_count = 1, racers = [RaceOver, RaceLoaded 0]\<rparr> \<lparr>race_count = 1, racers = [RaceOver, RaceOver]\<rparr>"
    using race_stores [of 1 "\<lparr>race_count = 1, racers = [RaceOver, RaceLoaded 0]\<rparr>"] by simp
  show ?thesis using 1 2 3 4 by (meson converse_rtranclp_into_rtranclp rtranclp.rtrancl_refl)
qed

section \<open>Greetings in some order\<close>

text \<open>Each goroutine has its own copy of the loop's variable and prints it; \<open>main\<close> waits for all.\<close>

record greeting =
  to_greet :: "string list"
  greeted :: "string list"
  greeters_over :: bool

definition salutations :: "string list" where
  "salutations = [''hello'', ''greetings'', ''good day'']"

definition greeting_start :: greeting where
  "greeting_start = \<lparr>to_greet = salutations, greeted = [], greeters_over = False\<rparr>"

inductive greet_step :: "greeting \<Rightarrow> greeting \<Rightarrow> bool" where
  greets: "to_greet s = xs @ x # ys \<Longrightarrow> greet_step s (s\<lparr>to_greet := xs @ ys, greeted := greeted s @ [x]\<rparr>)"
| waited: "to_greet s = [] \<Longrightarrow> \<not> greeters_over s \<Longrightarrow> greet_step s (s\<lparr>greeters_over := True\<rparr>)"

definition greet_inv :: "greeting \<Rightarrow> bool" where
  "greet_inv s \<longleftrightarrow> mset (to_greet s) + mset (greeted s) = mset salutations \<and> (greeters_over s \<longrightarrow> to_greet s = [])"

interpretation grt: ending_run "\<lambda>s. s = greeting_start" greet_step greet_inv
  "\<lambda>s. length (to_greet s) + (if greeters_over s then 0 else 1)" greeters_over
proof
  fix s t
  show "s = greeting_start \<Longrightarrow> greet_inv s" by (simp add: greeting_start_def greet_inv_def)
  show "greet_inv s \<Longrightarrow> greet_step s t \<Longrightarrow> greet_inv t"
    by (erule greet_step.cases) (auto simp: greet_inv_def)
  show "\<exists>t. greet_step s t \<and> length (to_greet t) + (if greeters_over t then 0 else 1)
      < length (to_greet s) + (if greeters_over s then 0 else 1)" if n: "\<not> greeters_over s"
  proof (cases "to_greet s")
    case Nil
    then show ?thesis using waited [of s] n by (intro exI conjI) (assumption, simp)
  next
    case (Cons x ys)
    then show ?thesis using greets [of s "[]" x ys] n by (intro exI conjI) (simp, simp)
  qed
  show "length (to_greet t) + (if greeters_over t then 0 else 1) < length (to_greet s) + (if greeters_over s then 0 else 1)"
    if "greet_step s t" using that by (cases rule: greet_step.cases) auto
qed

lemma greetings_all_said:
  assumes "greet_step\<^sup>*\<^sup>* greeting_start s"
  shows "(greeters_over s \<longrightarrow> mset (greeted s) = mset salutations) \<and> (\<exists>t. greet_step\<^sup>*\<^sup>* s t \<and> greeters_over t)"
proof -
  have inv: "greet_inv s" by (rule grt.inv_reachable [OF refl assms])
  then show ?thesis using grt.ends [OF inv] by (auto simp: greet_inv_def)
qed

section \<open>Map and reduce (\<open>go-zero/mr\<close>)\<close>

text \<open>
  \<open>MapReduce\<close> gives what the generator sends to at most four mappers at a time, what they write to the reducer, and
  what the reducer writes to the caller, when all items are through.
\<close>

definition mr_workers :: nat where "mr_workers = 4"

definition generate_items :: "int list" where "generate_items = map int [0..<10]"

definition mapper :: "int \<Rightarrow> int" where "mapper item = item * 2"

definition reducer :: "int list \<Rightarrow> int" where "reducer pipe = foldl (\<lambda>sum v. sum + v) 0 pipe"

record map_reduce =
  unsent :: "int list"
  mapping :: "int list"
  piped :: "int list"       \<comment> \<open>all that has been written for the reducer, in order\<close>
  mr_result :: "int option"

definition mr_start :: map_reduce where
  "mr_start = \<lparr>unsent = generate_items, mapping = [], piped = [], mr_result = None\<rparr>"

inductive mr_step :: "map_reduce \<Rightarrow> map_reduce \<Rightarrow> bool" where
  sends: "unsent s = x # xs \<Longrightarrow> length (mapping s) < mr_workers \<Longrightarrow> mr_step s (s\<lparr>unsent := xs, mapping := mapping s @ [x]\<rparr>)"
| maps: "mapping s = xs @ x # ys \<Longrightarrow> mr_step s (s\<lparr>mapping := xs @ ys, piped := piped s @ [mapper x]\<rparr>)"
| reduces: "unsent s = [] \<Longrightarrow> mapping s = [] \<Longrightarrow> mr_result s = None \<Longrightarrow> mr_step s (s\<lparr>mr_result := Some (reducer (piped s))\<rparr>)"

definition mr_inv :: "map_reduce \<Rightarrow> bool" where
  "mr_inv s \<longleftrightarrow> length (mapping s) \<le> mr_workers \<and>
     mset (map mapper (unsent s)) + mset (map mapper (mapping s)) + mset (piped s) = mset (map mapper generate_items) \<and>
     (mr_result s \<noteq> None \<longrightarrow> mr_result s = Some (reducer (map mapper generate_items)))"

lemma reducer_sum: "reducer xs = sum_list xs"
proof -
  have "foldl (\<lambda>sum v. sum + v) a xs = a + sum_list xs" for a :: int
    by (induction xs arbitrary: a) (simp_all add: add.assoc)
  then show ?thesis by (simp add: reducer_def)
qed

lemma reducer_mset: "mset xs = mset ys \<Longrightarrow> reducer xs = reducer ys"
  by (metis reducer_sum sum_mset_sum_list)

definition mr_left :: "map_reduce \<Rightarrow> nat" where
  "mr_left s = 2 * length (unsent s) + length (mapping s) + (if mr_result s = None then 1 else 0)"

lemma mr_left_step: "mr_step s t \<Longrightarrow> mr_left t < mr_left s"
  by (erule mr_step.cases) (auto simp: mr_left_def)

interpretation mr: ending_run "\<lambda>s. s = mr_start" mr_step mr_inv mr_left "\<lambda>s. mr_result s \<noteq> None"
proof
  fix s t
  show "s = mr_start \<Longrightarrow> mr_inv s" by (simp add: mr_start_def mr_inv_def)
  show "mr_inv s \<Longrightarrow> mr_step s t \<Longrightarrow> mr_inv t"
    by (erule mr_step.cases) (auto simp: mr_inv_def intro: reducer_mset)
  show "mr_step s t \<Longrightarrow> mr_left t < mr_left s" by (rule mr_left_step)
  show "\<exists>t. mr_step s t \<and> mr_left t < mr_left s" if n: "\<not> mr_result s \<noteq> None"
  proof -
    have "\<exists>t. mr_step s t"
    proof (cases "mapping s")
      case (Cons x xs)
      then show ?thesis using maps [of s "[]" x xs] by auto
    next
      case Nil
      then show ?thesis using sends [of s] reduces [of s] n by (cases "unsent s") (auto simp: mr_workers_def)
    qed
    then show ?thesis using mr_left_step by blast
  qed
qed

text \<open>The result is ninety in whatever order the mappers finish, and every run can come to it.\<close>

lemma mr_result_ninety:
  assumes "mr_step\<^sup>*\<^sup>* mr_start s"
  shows "length (mapping s) \<le> 4 \<and> mr_result s \<in> {None, Some 90} \<and> (\<exists>t. mr_step\<^sup>*\<^sup>* s t \<and> mr_result t = Some 90)"
proof -
  have r: "reducer (map mapper generate_items) = 90" by (simp add: reducer_def mapper_def generate_items_def upt_rec)
  have inv: "mr_inv s" by (rule mr.inv_reachable [OF refl assms])
  obtain t where t: "mr_step\<^sup>*\<^sup>* s t" "mr_result t \<noteq> None" using mr.ends [OF inv] by blast
  have "mr_inv t" by (rule mr.inv_steps [OF t(1) inv])
  then show ?thesis using t inv r by (auto simp: mr_inv_def mr_workers_def)
qed

section \<open>The memory of a goroutine\<close>

text \<open>
  \<open>concurrency/goroutines/mem\<close> starts goroutines that call \<open>Done\<close> and then wait on a nil channel for ever, and
  divides what the memory has grown by their number. The goroutines are alike, so they are counted: those to be
  started, those that have not called \<open>Done\<close>, those that wait on the channel. The memory of the runtime is a
  parameter, a number of bytes for the goroutines that there are; the division of floats is left out.
\<close>

definition goroutine_count :: nat where "goroutine_count = 10000"

record measuring =
  to_start :: nat
  fresh :: nat
  parked :: nat
  mem_group :: nat
  mem_before :: "64 word"
  mem_after :: "64 word option"

definition measuring_start :: "(nat \<Rightarrow> 64 word) \<Rightarrow> measuring" where
  "measuring_start sys = \<lparr>to_start = goroutine_count, fresh = 0, parked = 0, mem_group = goroutine_count, mem_before = sys 0, mem_after = None\<rparr>"

inductive measuring_step :: "(nat \<Rightarrow> 64 word) \<Rightarrow> measuring \<Rightarrow> measuring \<Rightarrow> bool" for sys where
  starts_one: "0 < to_start s \<Longrightarrow> measuring_step sys s (s\<lparr>to_start := to_start s - 1, fresh := fresh s + 1\<rparr>)"
| parks: "0 < fresh s \<Longrightarrow> measuring_step sys s (s\<lparr>fresh := fresh s - 1, parked := parked s + 1, mem_group := mem_group s - 1\<rparr>)"
| measures: "to_start s = 0 \<Longrightarrow> mem_group s = 0 \<Longrightarrow> mem_after s = None \<Longrightarrow>
    measuring_step sys s (s\<lparr>mem_after := Some (sys (fresh s + parked s))\<rparr>)"

inductive_cases measuring_stepE: "measuring_step sys s t"

definition mem_inv :: "(nat \<Rightarrow> 64 word) \<Rightarrow> measuring \<Rightarrow> bool" where
  "mem_inv sys s \<longleftrightarrow> to_start s + fresh s + parked s = goroutine_count \<and> mem_group s = to_start s + fresh s \<and> mem_before s = sys 0 \<and>
     (mem_after s \<noteq> None \<longrightarrow> mem_group s = 0 \<and> mem_after s = Some (sys goroutine_count))"

definition mem_left :: "measuring \<Rightarrow> nat" where
  "mem_left s = 2 * to_start s + fresh s + (if mem_after s = None then 1 else 0)"

interpretation mem: ending_run "\<lambda>s. s = measuring_start sys" "measuring_step sys" "mem_inv sys" mem_left "\<lambda>s. mem_after s \<noteq> None" for sys
proof
  fix s t
  show "s = measuring_start sys \<Longrightarrow> mem_inv sys s" by (simp add: mem_inv_def measuring_start_def)
  show "mem_inv sys s \<Longrightarrow> measuring_step sys s t \<Longrightarrow> mem_inv sys t"
    by (erule measuring_stepE) (auto simp: mem_inv_def)
  show "mem_inv sys s \<Longrightarrow> measuring_step sys s t \<Longrightarrow> mem_left t < mem_left s"
    by (erule measuring_stepE) (auto simp: mem_left_def mem_inv_def)
  assume i: "mem_inv sys s" and n: "\<not> mem_after s \<noteq> None"
  consider "0 < to_start s" | "0 < fresh s" | "mem_group s = 0" "to_start s = 0" using i by (fastforce simp: mem_inv_def)
  then show "\<exists>t. measuring_step sys s t \<and> mem_left t < mem_left s"
  proof cases
    case 1
    show ?thesis by (rule exI, rule conjI, rule starts_one [OF 1]) (use 1 in \<open>simp add: mem_left_def\<close>)
  next
    case 2
    show ?thesis by (rule exI, rule conjI, rule parks [OF 2]) (use 2 in \<open>simp add: mem_left_def\<close>)
  next
    case 3
    show ?thesis by (rule exI, rule conjI, rule measures [OF 3(2,1)]) (use n in \<open>simp_all add: mem_left_def\<close>)
  qed
qed

text \<open>
  The second measurement is made with all the goroutines there, since none of them ever ends, and it is always
  made: no run is longer than two steps for each goroutine and one more.
\<close>

lemma measured_with_all: "(measuring_step sys)\<^sup>*\<^sup>* (measuring_start sys) s \<Longrightarrow> mem_after s = Some m \<Longrightarrow> m - mem_before s = sys goroutine_count - sys 0"
  using mem.inv_reachable [of "measuring_start sys" sys s] by (auto simp: mem_inv_def)

lemma measurement_ends: "(measuring_step sys)\<^sup>*\<^sup>* (measuring_start sys) s \<Longrightarrow> \<exists>t. (measuring_step sys)\<^sup>*\<^sup>* s t \<and> mem_after t \<noteq> None"
  by (rule mem.ends_from_start [OF refl])

lemma measurement_length: "(measuring_step sys ^^ n) (measuring_start sys) s \<Longrightarrow> n \<le> 2 * goroutine_count + 1"
  using mem.run_length [OF mem.inv_init [OF refl], of n sys s] by (simp add: mem_left_def measuring_start_def)

end
