(* ===== verification/WebSamples.thy ===== *)
theory WebSamples
  imports SmallDemos GoScript
begin

text \<open>
  Small servers and clients: the greeter of \<open>grpc\<close>, \<open>http/server\<close> with \<open>http/client\<close>, the counter of
  \<open>prometheus/02\<close>, the middleware of \<open>gin/demo2\<close> and the routes of \<open>gin/demo3\<close>, the table of \<open>excel\<close>, the worker of
  \<open>concurrency/errgroup/leak\<close>, the dynamic informer, the name of a log file (\<open>etcd/wal/log\<close>), the cache of
  \<open>go-zero/cache\<close>, \<open>verify\<close> and \<open>time/ticker\<close>. Networks and libraries are parameters.
\<close>

section \<open>A greeter (\<open>grpc\<close>)\<close>

definition say_hello :: "string \<Rightarrow> string" where "say_hello name = ''Hello '' @ name"

datatype greet_end = DidNotConnect | CouldNotGreet | Greeting string

text \<open>\<open>call\<close> carries a request to the server's method, or fails.\<close>

definition greeter_client :: "bool \<Rightarrow> ((string \<Rightarrow> string) \<Rightarrow> string \<Rightarrow> string option) \<Rightarrow> greet_end" where
  "greeter_client connects call =
     (if \<not> connects then DidNotConnect
      else (case call say_hello ''World'' of None \<Rightarrow> CouldNotGreet | Some m \<Rightarrow> Greeting m))"

lemma greeter_answers: "greeter_client True (\<lambda>f x. Some (f x)) = Greeting ''Hello World''"
  by (simp add: greeter_client_def say_hello_def)

section \<open>Two requests (\<open>http/server\<close>, \<open>http/client\<close>)\<close>

definition hello_handler :: "string \<Rightarrow> string" where "hello_handler path = ''Hello I am server 3''"

datatype get_line = SendFailedLine | ReadFailedLine | ServerResponse string | CloseFailedLine

record get_outcome =
  get_ok :: bool
  read_ok :: bool
  close_ok :: bool

text \<open>A request or a body that fails ends the loop, a failed close does not.\<close>

fun client_gets :: "get_outcome list \<Rightarrow> get_line list" where
  "client_gets [] = []"
| "client_gets (o1 # os) =
     (if \<not> get_ok o1 then [SendFailedLine]
      else if \<not> read_ok o1 then [ReadFailedLine]
      else ServerResponse (hello_handler ''/'') # (if close_ok o1 then [] else [CloseFailedLine]) @ client_gets os)"

definition http_client_main :: "get_outcome \<Rightarrow> get_outcome \<Rightarrow> get_line list" where
  "http_client_main a b = client_gets [a, b]"

definition all_good :: "get_outcome \<Rightarrow> bool" where
  "all_good g \<longleftrightarrow> get_ok g \<and> read_ok g \<and> close_ok g"

lemma client_gets_good:
  "list_all all_good gs \<Longrightarrow> client_gets gs = map (\<lambda>_. ServerResponse (hello_handler ''/'')) gs"
  by (induction gs) (auto simp: all_good_def)

lemma client_gets_stops: "\<not> get_ok g \<Longrightarrow> client_gets (gs @ g # hs) = client_gets (gs @ [g])"
  by (induction gs) simp_all

section \<open>A counter of pings (\<open>prometheus/02\<close>)\<close>

datatype ping_request = Ping | Metrics

datatype ping_answer = Pong | CounterIs nat

definition ping_serve :: "ping_request \<Rightarrow> nat \<Rightarrow> nat \<times> ping_answer" where
  "ping_serve r pings = (case r of Ping \<Rightarrow> (pings + 1, Pong) | Metrics \<Rightarrow> (pings, CounterIs pings))"

fun ping_run :: "ping_request list \<Rightarrow> nat \<Rightarrow> ping_answer list" where
  "ping_run [] pings = []"
| "ping_run (r # rs) pings = (case ping_serve r pings of (p, a) \<Rightarrow> a # ping_run rs p)"

lemma metrics_count_pings: "ping_run (rs @ [Metrics]) pings = ping_run rs pings @ [CounterIs (pings + count_list rs Ping)]"
  by (induction rs arbitrary: pings) (auto simp: ping_serve_def split: ping_request.splits)

section \<open>Gin's middleware and routes (\<open>gin/demo2\<close>, \<open>gin/demo3\<close>)\<close>

datatype gin_log = SetExample | ExampleLine string | CostLine | StatusLine nat

record gin_context =
  gin_keys :: "string \<rightharpoonup> string"
  gin_status :: nat
  gin_body :: "(string \<times> string) list"
  gin_logs :: "gin_log list"

definition gin_fresh :: gin_context where
  "gin_fresh = \<lparr>gin_keys = Map.empty, gin_status = 200, gin_body = [], gin_logs = []\<rparr>"

text \<open>\<open>MustGet\<close> panics (\<open>None\<close>) on a key that is not set; \<open>c.Next()\<close> runs the rest.\<close>

definition test_handler :: "gin_context \<Rightarrow> gin_context option" where
  "test_handler c =
     (case gin_keys c ''example'' of
        None \<Rightarrow> None
      | Some e \<Rightarrow> Some (c\<lparr>gin_logs := gin_logs c @ [ExampleLine e], gin_status := 200, gin_body := [(''message'', e)]\<rparr>))"

definition gin_logger :: "(gin_context \<Rightarrow> gin_context option) \<Rightarrow> gin_context \<Rightarrow> gin_context option" where
  "gin_logger nxt c =
     (case nxt (c\<lparr>gin_keys := (gin_keys c)(''example'' \<mapsto> ''12345''), gin_logs := gin_logs c @ [SetExample]\<rparr>) of
        None \<Rightarrow> None
      | Some c \<Rightarrow> Some (c\<lparr>gin_logs := gin_logs c @ [CostLine, StatusLine (gin_status c)]\<rparr>))"

lemma gin_test_route:
  "map_option (\<lambda>c. (gin_status c, gin_body c, gin_logs c)) (gin_logger test_handler gin_fresh) =
     Some (200, [(''message'', ''12345'')], [SetExample, ExampleLine ''12345'', CostLine, StatusLine 200])"
  "test_handler gin_fresh = None"
  by (simp_all add: gin_logger_def test_handler_def gin_fresh_def)

definition gin_routes :: "string \<Rightarrow> string \<Rightarrow> (nat \<times> (string \<times> string) list) option" where
  "gin_routes verb path =
     (if verb = ''GET'' \<and> path = ''/v1/ping'' then Some (200, [(''message'', ''pong'')])
      else if verb = ''GET'' \<and> path = ''/v1/healthz'' then Some (200, [(''message'', ''ready'')])
      else None)"

section \<open>A table (\<open>excel\<close>)\<close>

datatype excel_value = Text string | Number int

text \<open>The names are transcribed. \<open>sheets\<close> says whether the sheet can be made, \<open>writes\<close> whether the file can be written.\<close>

definition excel_cells :: "(string \<times> excel_value) list" where
  "excel_cells =
     [(''A1'', Text ''name''), (''B1'', Text ''age''), (''C1'', Text ''city''),
      (''A2'', Text ''Zhang San''), (''B2'', Number 25), (''C2'', Text ''Beijing''),
      (''A3'', Text ''Li Si''), (''B3'', Number 30), (''C3'', Text ''Shanghai''),
      (''A4'', Text ''Wang Wu''), (''B4'', Number 28), (''C4'', Text ''Guangzhou'')]"

datatype excel_answer = SheetFailed | WriteFailed | Workbook "string \<rightharpoonup> excel_value"

definition export_excel_handler :: "bool \<Rightarrow> bool \<Rightarrow> excel_answer" where
  "export_excel_handler sheets writes =
     (if \<not> sheets then SheetFailed
      else (let f = foldl (\<lambda>m (c, v). m(c \<mapsto> v)) Map.empty excel_cells in if \<not> writes then WriteFailed else Workbook f))"

lemma excel_no_cell_twice: "distinct (map fst excel_cells) \<and> (export_excel_handler True True = Workbook f \<longrightarrow> f = map_of excel_cells)"
proof -
  have "foldl (\<lambda>m (c, v). m(c \<mapsto> v)) m kvs = m ++ map_of (rev kvs)" for m :: "string \<rightharpoonup> excel_value" and kvs
    by (induction kvs arbitrary: m) (auto simp: map_add_upd)
  moreover have d: "distinct (map fst excel_cells)" by (simp add: excel_cells_def)
  moreover have "map_of (rev excel_cells) = map_of excel_cells" by (rule map_of_inject_set [THEN iffD2]) (use d in \<open>simp_all add: rev_map [symmetric]\<close>)
  ultimately show ?thesis by (auto simp: export_excel_handler_def)
qed

section \<open>The worker that is said to leak (\<open>concurrency/errgroup/leak\<close>)\<close>

text \<open>The worker's timer is a hundred minutes, its context is cancelled after five seconds: times in milliseconds.\<close>

definition leaky_worker :: "nat \<Rightarrow> string list \<times> nat" where
  "leaky_worker cancelled_at =
     (let interval = 100 * 60 * 1000 in
      let ticks = cancelled_at div interval in
      (replicate ticks ''leaky worker is running'' @ [''leaky worker is canceled''], cancelled_at))"

definition leak_handler :: "string \<times> (string list \<times> nat)" where
  "leak_handler = (''leaked one goroutine'', leaky_worker (min 5000 10000))"

lemma leak_handler_does_not_leak: "leak_handler = (''leaked one goroutine'', [''leaky worker is canceled''], 5000)"
  by (simp add: leak_handler_def leaky_worker_def)

section \<open>The dynamic informer (\<open>kubernetes/client-go/informer/dynamic\<close>)\<close>

text \<open>An untyped object's field may be missing or of another type; both count as zero here.\<close>

datatype untyped = UInt int | UString string | UMap "(string \<times> untyped) list"

definition nested_int64 :: "untyped \<Rightarrow> string list \<Rightarrow> int" where
  "nested_int64 obj path =
     (case foldl (\<lambda>r k. case r of Some (UMap m) \<Rightarrow> map_of m k | _ \<Rightarrow> None) (Some obj) path of
        Some (UInt i) \<Rightarrow> i
      | _ \<Rightarrow> 0)"

datatype dyn_event = DynAdd "(string \<times> untyped) option" | DynUpdate | DynDelete

text \<open>\<open>None\<close> in an event stands for an object that is not unstructured: the assertion panics, and the panic is only logged.\<close>

datatype dyn_line = Added string int | RecoveredPanic

fun dynamic_handler :: "dyn_event \<Rightarrow> dyn_line list" where
  "dynamic_handler (DynAdd (Some (name, obj))) = [Added name (nested_int64 obj [''spec'', ''replicas''])]"
| "dynamic_handler (DynAdd None) = [RecoveredPanic]"
| "dynamic_handler DynUpdate = []"
| "dynamic_handler DynDelete = []"

lemma dynamic_guestbook_replicas:
  "map_of m ''spec'' = Some (UMap sp) \<Longrightarrow> map_of sp ''replicas'' = None \<Longrightarrow> dynamic_handler (DynAdd (Some (n, UMap m))) = [Added n 0]"
  "map_of m ''spec'' = Some (UMap sp) \<Longrightarrow> map_of sp ''replicas'' = Some (UInt i) \<Longrightarrow> dynamic_handler (DynAdd (Some (n, UMap m))) = [Added n i]"
  by (simp_all add: nested_int64_def)

section \<open>The name of a log file (\<open>etcd/wal/log\<close>)\<close>

text \<open>\<open>Sscanf\<close> with \<open>%016x-%016x.wal\<close>: up to sixteen hex digits, at least one, a dash, the same, and the suffix.\<close>

fun hex_run :: "nat \<Rightarrow> string \<Rightarrow> nat list \<times> string" where
  "hex_run (Suc n) (c # s) = (case hex_val c of None \<Rightarrow> ([], c # s) | Some d \<Rightarrow> (case hex_run n s of (ds, r) \<Rightarrow> (d # ds, r)))"
| "hex_run n s = ([], s)"

definition scan_hex :: "string \<Rightarrow> (nat \<times> string) option" where
  "scan_hex s = (case hex_run 16 s of (ds, r) \<Rightarrow> if ds = [] then None else Some (foldl (\<lambda>n d. 16 * n + d) 0 ds, r))"

definition scan_wal_name :: "string \<Rightarrow> (nat \<times> nat) option" where
  "scan_wal_name s =
     (case scan_hex s of
        None \<Rightarrow> None
      | Some (a, r) \<Rightarrow>
          (case r of
             [] \<Rightarrow> None
           | c # r \<Rightarrow>
               if c \<noteq> CHR ''-'' then None
               else (case scan_hex r of
                       None \<Rightarrow> None
                     | Some (i, r) \<Rightarrow> if take 4 r = ''.wal'' then Some (a, i) else None)))"

definition wal_name_main :: "(nat \<times> nat) option" where
  "wal_name_main = scan_wal_name ''0000000000000078-000000004937eb8a.wal''"

text \<open>Names of that form, with sixteen digits each, read back.\<close>

fun hex_pad :: "nat \<Rightarrow> nat \<Rightarrow> string" where
  "hex_pad 0 n = []"
| "hex_pad (Suc k) n = hex_pad k (n div 16) @ [hex_digit (n mod 16)]"

definition wal_name :: "nat \<Rightarrow> nat \<Rightarrow> string" where
  "wal_name a i = hex_pad 16 a @ ''-'' @ hex_pad 16 i @ ''.wal''"

fun hex_list :: "nat \<Rightarrow> nat \<Rightarrow> nat list" where
  "hex_list 0 n = []"
| "hex_list (Suc k) n = hex_list k (n div 16) @ [n mod 16]"

lemma hex_pad_digits: "hex_pad k n = map hex_digit (hex_list k n)" "length (hex_list k n) = k" "\<forall>d \<in> set (hex_list k n). d < 16"
  by (induction k arbitrary: n) auto

lemma hex_list_value: "n < 16 ^ k \<Longrightarrow> foldl (\<lambda>n d. 16 * n + d) 0 (hex_list k n) = n"
  by (induction k arbitrary: n) (auto simp: less_mult_imp_div_less mult.commute)

lemma hex_run_digits:
  assumes "\<forall>d \<in> set ds. d < 16" "length ds = k"
  shows "hex_run k (map hex_digit ds @ r) = (ds, r)"
  using assms
proof (induction ds arbitrary: k)
  case Nil
  then show ?case by simp
next
  case (Cons d ds)
  then show ?case by (cases k) (auto simp: hex_val_digit)
qed

lemma wal_name_reads_back:
  assumes "a < 2 ^ 64" "i < 2 ^ 64"
  shows "scan_wal_name (wal_name a i) = Some (a, i)"
proof -
  have p: "(16 :: nat) ^ 16 = 2 ^ 64" by simp
  have ne: "hex_list 16 n \<noteq> []" for n using hex_pad_digits(2) [of 16 n] by auto
  have "scan_hex (hex_pad 16 n @ r) = Some (n, r)" if "n < 2 ^ 64" for n r
    using hex_run_digits [OF hex_pad_digits(3,2), of 16 n r] hex_list_value [of n 16] that ne [of n]
    by (simp add: scan_hex_def hex_pad_digits(1) p)
  then show ?thesis using assms by (simp add: scan_wal_name_def wal_name_def)
qed

lemma wal_name_main_prints: "wal_name_main = Some (120, 1228401546)"
proof -
  have e: "hex_pad 16 = hex_pad (Suc (Suc (Suc (Suc (Suc (Suc (Suc (Suc (Suc (Suc (Suc (Suc (Suc (Suc (Suc (Suc 0))))))))))))))))" by (simp add: numeral_eq_Suc)
  have "wal_name 120 1228401546 = ''0000000000000078-000000004937eb8a.wal''"
    unfolding wal_name_def e by (simp add: hex_digit_def) code_simp
  then show ?thesis using wal_name_reads_back [of 120 1228401546] by (simp add: wal_name_main_def)
qed

section \<open>A cache with a loader (\<open>go-zero/cache\<close>)\<close>

text \<open>\<open>Take\<close> loads a missing value and keeps it; within the cache's minute \<open>Get\<close> finds what was set.\<close>

definition cache_take :: "string \<Rightarrow> string \<Rightarrow> (string \<rightharpoonup> string) \<Rightarrow> (string \<rightharpoonup> string)" where
  "cache_take k v m = (case m k of None \<Rightarrow> m(k \<mapsto> v) | Some _ \<Rightarrow> m)"

definition zero_cache_main :: "string list" where
  "zero_cache_main =
     (let m = (cache_take ''name'' ''xia huyun'' Map.empty)(''nickname'' \<mapsto> ''huyun'')
      in (case m ''nickname'' of None \<Rightarrow> [] | Some v \<Rightarrow> [v]) @ (case m ''name'' of None \<Rightarrow> [] | Some v \<Rightarrow> [v]))"

lemma zero_cache_main_prints: "zero_cache_main = [''huyun'', ''xia huyun'']"
  by (simp add: zero_cache_main_def cache_take_def)

section \<open>An assertion (\<open>verify\<close>)\<close>

datatype verify_end = AssertPanic | VerifyRan | VerifySkipped

text \<open>\<open>Assert\<close> panics whatever the environment says; \<open>Verify\<close> runs its function only when verification is enabled.\<close>

definition verify_handle :: "bool \<Rightarrow> 'l option \<Rightarrow> verify_end" where
  "verify_handle enabled lg = (if lg = None then AssertPanic else if enabled then VerifyRan else VerifySkipped)"

definition verify_main :: "bool \<Rightarrow> verify_end" where "verify_main enabled = verify_handle enabled (None :: unit option)"

lemma verify_main_panics: "verify_main enabled = AssertPanic"
  by (simp add: verify_main_def verify_handle_def)

section \<open>A timer that is set again (\<open>time/ticker\<close>)\<close>

text \<open>
  In the last part one goroutine offers a word every second and another takes a word or the tick of the timer,
  whichever is there; after the tick it hands over to \<open>main\<close> and goes on until the program is over. \<open>words\<close> are taken
  before the tick, \<open>early\<close> and \<open>late\<close> ones before and after \<open>main\<close>'s last line; there is one word at every full second.
\<close>

datatype ticker_line = TimerStarted nat | TimerFired nat | TimerReset nat | TimerStopped | IAmJacker | TickerStopped

definition ticker_setup :: "ticker_line list" where
  "ticker_setup = [TimerStarted 5, TimerFired 2, TimerReset 1, TimerFired 1, TimerStopped, TimerReset 3]"

fun ticker_loop :: "nat \<Rightarrow> ticker_line list" where
  "ticker_loop 0 = [TimerFired 3]"
| "ticker_loop (Suc words) = IAmJacker # ticker_loop words"

definition ticker_main :: "nat \<Rightarrow> nat \<Rightarrow> nat \<Rightarrow> ticker_line list" where
  "ticker_main words early late =
     ticker_setup @ ticker_loop words @ replicate early IAmJacker @ [TickerStopped] @ replicate late IAmJacker"

definition words_until :: "nat \<Rightarrow> nat \<Rightarrow> bool" where
  "words_until seconds words \<longleftrightarrow> words \<le> seconds + 1"

lemma ticker_main_lines:
  assumes "words_until 3 (words + early + late)"
  shows "count_list (ticker_main words early late) IAmJacker \<le> 4 \<and>
    (\<exists>pre post. ticker_main words early late = ticker_setup @ replicate words IAmJacker @ TimerFired 3 # pre @ TickerStopped # post)"
proof -
  have l: "ticker_loop n = replicate n IAmJacker @ [TimerFired 3]" for n by (induction n) simp_all
  have c: "count_list (replicate n x) x = n" for n and x :: ticker_line by (induction n) simp_all
  show ?thesis using assms by (auto simp: ticker_main_def ticker_setup_def l c words_until_def)
qed

end
