(* ===== verification/LinMain.thy ===== *)
theory LinMain
  imports LinRead
begin

text \<open>
  \<open>main\<close> of \<open>etcd/linearizable-read-demo/main.go\<close>: its readers, its apply goroutine and its stop on a clock in
  milliseconds. \<open>LinRead\<close> has every interleaving; here the goroutines are prompt: each runs until it blocks before
  the clock goes on. The run is computed, it is one of the runs of \<open>lin_step\<close>, and it says which readers are
  released in which round of the loop.
\<close>

section \<open>The statements of \<open>main\<close> on a clock\<close>

datatype timed_event = Arrives nat | Applies | Stops

text \<open>A loop that starts \<open>n\<close> readers, numbered from \<open>i\<close>, with a pause after each: what it does and when it is over.\<close>

fun start_readers :: "nat \<Rightarrow> nat \<Rightarrow> int \<Rightarrow> int \<Rightarrow> (int \<times> timed_event) list \<times> int" where
  "start_readers 0 i pause now = ([], now)"
| "start_readers (Suc n) i pause now =
     (case start_readers n (Suc i) pause (now + pause) of (es, end_of) \<Rightarrow> ((now, Arrives i) # es, end_of))"

definition apply_events :: "(int \<times> timed_event) list" where
  "apply_events = map (\<lambda>i. (250 * i, Applies)) [1..10]"

text \<open>The readers \<open>read-A1\<close> to \<open>read-A3\<close> are 0 to 2, \<open>read-B1\<close> and \<open>read-B2\<close> are 3 and 4.\<close>

definition main_events :: "(int \<times> timed_event) list" where
  "main_events =
     (let (as, t1) = start_readers 3 0 80 0;
          (bs, t2) = start_readers 2 3 60 (t1 + 700)
      in sort_key fst (apply_events @ as @ bs @ [(t2 + 4000, Stops)]))"

section \<open>Prompt goroutines\<close>

text \<open>The next step of the loop, if it is not blocked.\<close>

definition loop_next :: "server \<Rightarrow> server option" where
  "loop_next s =
     (case loop s of
        LSelect \<Rightarrow> if token s then Some (s\<lparr>token := False, loop := LSwap\<rparr>)
                   else if stopping s then Some (s\<lparr>loop := LExit\<rparr>) else None
      | LSwap \<Rightarrow> Some (s\<lparr>req_id := req_id s + 1, notifier := next_notifier s, next_notifier := next_notifier s + 1,
                         loop := LCheck (notifier s)\<rparr>)
      | LCheck nr \<Rightarrow> Some (s\<lparr>loop := (if applied_index s < confirmed_index then LCall nr else LNotify nr)\<rparr>)
      | LCall nr \<Rightarrow> (case wait_for confirmed_index (apply_w s) of (ch, w) \<Rightarrow> Some (s\<lparr>apply_w := w, loop := LWait nr ch\<rparr>))
      | LWait nr ch \<Rightarrow> if chan_closed (apply_w s) ch then Some (s\<lparr>loop := LNotify nr\<rparr>)
                       else if stopping s then Some (s\<lparr>loop := LExit\<rparr>) else None
      | LNotify nr \<Rightarrow> if notified s nr then None else Some (s\<lparr>notified := (notified s)(nr := True), loop := LSelect\<rparr>)
      | LExit \<Rightarrow> None)"

text \<open>The readers that a notification of \<open>nr\<close> releases, and a reader that finds its notifier closed.\<close>

definition batch :: "nat list \<Rightarrow> nat \<Rightarrow> server \<Rightarrow> nat list" where
  "batch ids nr s = filter (\<lambda>i. readers s i = RWait nr) ids"

definition wake :: "nat \<Rightarrow> server \<Rightarrow> server" where
  "wake i s = (case readers s i of
      RWait nc \<Rightarrow> if notified s nc then s\<lparr>readers := (readers s)(i := RDone ReadOk)\<rparr> else s
    | _ \<Rightarrow> s)"

text \<open>The loop until it blocks, at most \<open>n\<close> steps, with the rounds it ends; then the readers.\<close>

fun settle :: "nat list \<Rightarrow> nat \<Rightarrow> server \<Rightarrow> (nat \<times> nat list) list \<times> server" where
  "settle ids 0 s = ([], fold wake ids s)"
| "settle ids (Suc n) s =
     (case loop_next s of
        None \<Rightarrow> ([], fold wake ids s)
      | Some t \<Rightarrow>
          (case settle ids n t of (rounds, u) \<Rightarrow>
             ((case loop s of LNotify nr \<Rightarrow> (req_id s, batch ids nr s) # rounds | _ \<Rightarrow> rounds), u)))"

text \<open>What an event does at once: a reader registers, the apply goroutine takes an index, \<open>main\<close> closes \<open>stopping\<close>.\<close>

definition happen :: "timed_event \<Rightarrow> server \<Rightarrow> server" where
  "happen e s =
     (case e of
        Arrives i \<Rightarrow>
          if readers s i = RStart then s\<lparr>token := True, readers := (readers s)(i := RWait (notifier s))\<rparr> else s
      | Applies \<Rightarrow>
          (case applier s of
             AStore i \<Rightarrow> s\<lparr>applied_index := i, apply_w := trigger i (apply_w s), applier := (if i < 10 then AStore (i + 1) else ADone)\<rparr>
           | _ \<Rightarrow> s)
      | Stops \<Rightarrow> if stopping s then s else s\<lparr>stopping := True\<rparr>)"

text \<open>Twelve steps are enough for the loop to block (lemma \<open>settled\<close>).\<close>

fun prompt_run :: "nat list \<Rightarrow> (int \<times> timed_event) list \<Rightarrow> server \<Rightarrow> (int \<times> nat \<times> nat list) list \<times> server" where
  "prompt_run ids [] s = ([], s)"
| "prompt_run ids ((now, e) # es) s =
     (case settle ids 12 (happen e s) of (rounds, t) \<Rightarrow>
      (case prompt_run ids es t of (later, u) \<Rightarrow> (map (\<lambda>r. (now, r)) rounds @ later, u)))"

definition prompt_main :: "(int \<times> nat \<times> nat list) list \<times> server" where
  "prompt_main = prompt_run [0, 1, 2, 3, 4] main_events new_server"

section \<open>Prompt runs are runs\<close>

lemma loop_next_step: "loop_next s = Some t \<Longrightarrow> lin_step s t"
  using loop_swap [of s] loop_check [of s]
  by (auto simp: loop_next_def split: loop_pc.splits if_splits prod.splits intro: go_intros)

lemma wake_steps: "lin_step\<^sup>*\<^sup>* s (wake i s)"
  by (auto simp: wake_def split: reader_pc.splits intro: go_intros)

lemma wakes_steps: "lin_step\<^sup>*\<^sup>* s (fold wake ids s)"
proof (induction ids arbitrary: s)
  case (Cons i ids)
  show ?case using rtranclp_trans [OF wake_steps Cons.IH] by simp
qed simp

lemma settle_steps: "settle ids n s = (rounds, t) \<Longrightarrow> lin_step\<^sup>*\<^sup>* s t"
proof (induction n arbitrary: s rounds t)
  case 0
  then show ?case using wakes_steps by auto
next
  case (Suc n)
  show ?case
  proof (cases "loop_next s")
    case None
    then show ?thesis using Suc.prems wakes_steps by auto
  next
    case (Some u)
    then obtain rs where "settle ids n u = (rs, t)" using Suc.prems by (auto split: prod.splits)
    then show ?thesis using Suc.IH loop_next_step [OF Some] by (blast intro: converse_rtranclp_into_rtranclp)
  qed
qed

lemma happen_steps: "lin_step\<^sup>*\<^sup>* s (happen e s)"
proof (cases e)
  case (Arrives i)
  show ?thesis
  proof (cases "readers s i = RStart")
    case True
    let ?t = "s\<lparr>readers := (readers s)(i := RGot (notifier s))\<rparr>"
    have "lin_step s ?t" by (rule reader_get) (rule True)
    moreover have "lin_step ?t (?t\<lparr>token := True, readers := (readers ?t)(i := RWait (notifier s))\<rparr>)"
      by (rule reader_send) simp
    ultimately show ?thesis using Arrives True by (simp add: happen_def converse_rtranclp_into_rtranclp)
  qed (simp add: happen_def Arrives)
next
  case Applies
  show ?thesis
  proof (cases "applier s")
    case (AStore i)
    let ?t = "s\<lparr>applied_index := i, applier := ATrigger i\<rparr>"
    have "lin_step s ?t" by (rule apply_store) (rule AStore)
    moreover have "lin_step ?t (?t\<lparr>apply_w := trigger i (apply_w ?t), applier := (if i < 10 then AStore (i + 1) else ADone)\<rparr>)"
      by (rule apply_trigger) simp
    ultimately show ?thesis using Applies AStore by (simp add: happen_def converse_rtranclp_into_rtranclp)
  qed (simp_all add: happen_def Applies)
next
  case Stops
  then show ?thesis by (auto simp: happen_def intro: go_intros)
qed

lemma prompt_run_steps: "prompt_run ids es s = (rounds, t) \<Longrightarrow> lin_step\<^sup>*\<^sup>* s t"
proof (induction es arbitrary: s rounds)
  case (Cons x es)
  obtain now e where x: "x = (now, e)" by (cases x)
  obtain rs u where u: "settle ids 12 (happen e s) = (rs, u)" by fastforce
  then obtain later where "prompt_run ids es u = (later, t)" using Cons.prems x by (auto split: prod.splits)
  then have "lin_step\<^sup>*\<^sup>* u t" by (rule Cons.IH)
  then show ?case using happen_steps [of s e] settle_steps [OF u] by (meson rtranclp_trans)
qed simp

text \<open>Twelve steps are enough: a token is worth one round, and the loop stops once.\<close>

definition steps_left :: "server \<Rightarrow> nat" where
  "steps_left s = (if token s then 6 else 0) + (if stopping s \<and> loop s \<noteq> LExit then 1 else 0) +
     (case loop s of LSwap \<Rightarrow> 5 | LCheck _ \<Rightarrow> 4 | LCall _ \<Rightarrow> 3 | LWait _ _ \<Rightarrow> 2 | LNotify _ \<Rightarrow> 1 | _ \<Rightarrow> 0)"

lemma steps_left_bound: "steps_left s \<le> 12"
  by (simp add: steps_left_def split: loop_pc.split)

lemma loop_next_decreases: "loop_next s = Some t \<Longrightarrow> steps_left t < steps_left s"
  by (auto simp: loop_next_def steps_left_def split: loop_pc.splits if_splits prod.splits)

lemma wake_keeps_loop: "loop_next (wake i s) = None \<longleftrightarrow> loop_next s = None"
  by (auto simp: wake_def loop_next_def split: reader_pc.splits loop_pc.splits prod.splits)

lemma wakes_keep_loop: "loop_next (fold wake ids s) = None \<longleftrightarrow> loop_next s = None"
  by (induction ids arbitrary: s) (simp_all add: wake_keeps_loop)

lemma settle_blocks: "steps_left s \<le> n \<Longrightarrow> loop_next (snd (settle ids n s)) = None"
proof (induction n arbitrary: s)
  case 0
  then have "loop_next s = None" using loop_next_decreases [of s] by (cases "loop_next s") auto
  then show ?case by (simp add: wakes_keep_loop)
next
  case (Suc n)
  show ?case
  proof (cases "loop_next s")
    case (Some t)
    then show ?thesis using Suc.IH [of t] Suc.prems loop_next_decreases [OF Some] by (cases "settle ids n t") simp
  qed (simp add: wakes_keep_loop)
qed

lemma settled: "loop_next (snd (settle ids 12 s)) = None"
  by (rule settle_blocks) (rule steps_left_bound)

section \<open>The rounds of \<open>main\<close>\<close>

lemma main_events_are:
  "main_events =
    [(0, Arrives 0), (80, Arrives 1), (160, Arrives 2), (250, Applies), (500, Applies), (750, Applies),
     (940, Arrives 3), (1000, Applies), (1000, Arrives 4), (1250, Applies), (1500, Applies), (1750, Applies),
     (2000, Applies), (2250, Applies), (2500, Applies), (5060, Stops)]"
  by code_simp

lemma prompt_main_rounds:
  "fst prompt_main = [(2500, 1, [0]), (2500, 2, [1, 2, 3, 4])] \<and>
   map (readers (snd prompt_main)) [0, 1, 2, 3, 4] = replicate 5 (RDone ReadOk) \<and> loop (snd prompt_main) = LExit"
  by code_simp

lemma prompt_main_run:
  "lin_step\<^sup>*\<^sup>* new_server (snd prompt_main)"
  by (rule prompt_run_steps [of "[0, 1, 2, 3, 4]" main_events _ "fst prompt_main"]) (simp add: prompt_main_def)

section \<open>Rounds in every run\<close>

text \<open>
  Notifiers are handed out and notified in order: the current one has the number of rounds begun, the loop
  has at most the one before it, and when one is notified so are all before it, unless the loop has returned.
\<close>

definition downward :: "(nat \<Rightarrow> bool) \<Rightarrow> bool" where
  "downward p \<longleftrightarrow> (\<forall>n. p n \<longrightarrow> (\<forall>m<n. p m))"

lemma downward_extend: "downward p \<Longrightarrow> \<forall>m<n. p m \<Longrightarrow> downward (p(n := True))"
  by (auto simp: downward_def)

definition order_inv :: "server \<Rightarrow> bool" where
  "order_inv s \<longleftrightarrow> notifier s = req_id s \<and> next_notifier s = req_id s + 1 \<and>
     (\<forall>n. notified s n \<longrightarrow> n < req_id s) \<and> downward (notified s) \<and>
     (case batch_of (loop s) of Some nr \<Rightarrow> req_id s = Suc nr \<and> (\<forall>m<nr. notified s m)
      | None \<Rightarrow> loop s = LExit \<or> (\<forall>m<req_id s. notified s m))"

lemma batch_of_simps [simp]:
  "batch_of LSelect = None" "batch_of LSwap = None" "batch_of (LCheck n) = Some n" "batch_of (LCall n) = Some n"
  "batch_of (LWait n ch) = Some n" "batch_of (LNotify n) = Some n" "batch_of LExit = None"
  by (simp_all add: batch_of_def)

lemma order_inv_step:
  assumes st: "lin_step s t" and o: "order_inv s"
  shows "order_inv t"
  using st
proof cases
  case (loop_notify nr)
  then have "req_id s = Suc nr" "\<forall>m<nr. notified s m" using o by (simp_all add: order_inv_def)
  then show ?thesis using loop_notify o downward_extend by (auto simp: order_inv_def less_Suc_eq)
next
  case loop_swap
  then show ?thesis using o by (auto simp: order_inv_def)
next
  case (loop_wait_stop nr ch)
  then show ?thesis using o by (auto simp: order_inv_def)
qed (use o in \<open>auto simp: order_inv_def split: option.splits if_splits\<close>)

interpretation order: step_invariant "\<lambda>s. s = new_server" lin_step order_inv
proof
  show "\<And>s. s = new_server \<Longrightarrow> order_inv s" by (simp add: order_inv_def new_server_def downward_def)
qed (rule order_inv_step)

text \<open>What holds from the moment the loop has the batch \<open>nr\<close> for a reader that starts later.\<close>

definition late_inv :: "nat \<Rightarrow> nat \<Rightarrow> server \<Rightarrow> bool" where
  "late_inv nr j s \<longleftrightarrow> order_inv s \<and> nr < req_id s \<and>
     (case readers s j of RStart \<Rightarrow> True | RGot nc \<Rightarrow> nr < nc | RWait nc \<Rightarrow> nr < nc
      | RDone r \<Rightarrow> r = ReadOk \<longrightarrow> notified s (Suc nr))"

lemma late_inv_step: "late_inv nr j s \<Longrightarrow> lin_step s t \<Longrightarrow> late_inv nr j t"
proof -
  assume l: "late_inv nr j s" and st: "lin_step s t"
  have o: "order_inv s" "order_inv t" using l order_inv_step [OF st] by (simp_all add: late_inv_def)
  have mono: "\<And>n. notified s n \<Longrightarrow> notified t n" "req_id s \<le> req_id t" using st by (cases; auto)+
  show ?thesis
  proof (cases "readers t j = readers s j")
    case True
    then show ?thesis using l o mono by (auto simp: late_inv_def split: reader_pc.splits)
  next
    case False
    from reader_pc_step [OF st this] show ?thesis
    proof (elim disjE exE conjE)
      assume "readers t j = RGot (notifier s)"
      then show ?thesis using l o mono(2) by (simp add: late_inv_def order_inv_def)
    next
      fix nc assume "readers s j = RGot nc" "readers t j = RWait nc"
      then show ?thesis using l o mono(2) by (simp add: late_inv_def)
    next
      fix nc r assume r: "readers s j = RWait nc" "readers t j = RDone r" "r = ReadOk \<longrightarrow> notified s nc"
      have "notified s (Suc nr)" if "notified s nc"
      proof -
        have "Suc nr \<le> nc" "downward (notified s)" using l r(1) o(1) by (simp_all add: late_inv_def order_inv_def)
        then show ?thesis using that by (cases "Suc nr = nc") (simp_all add: downward_def)
      qed
      then show ?thesis using l o mono r(2,3) by (auto simp: late_inv_def)
    qed
  qed
qed

text \<open>
  C29. In every run a read that starts once the loop has taken up a batch belongs to a later one: its notifier
  is not the batch's, and it can only return without an error after the loop has begun a further round
  and has notified the batch before. So the three readers of \<open>main\<close>'s first group, which the comments say are
  released by the same round, are so only if the loop does not run until the last of them has started,
  160 milliseconds after the first; and when the goroutines are prompt the first is alone (lemma \<open>prompt_main_rounds\<close>).
\<close>

theorem late_reads_wait_for_next_round:
  assumes "lin_step\<^sup>*\<^sup>* new_server s" "batch_of (loop s) = Some nr" "readers s j = RStart" "lin_step\<^sup>*\<^sup>* s t"
  shows "readers t j \<noteq> RGot nr \<and> readers t j \<noteq> RWait nr \<and>
    (readers t j = RDone ReadOk \<longrightarrow> req_id s < req_id t \<and> notified t nr)"
proof -
  have o: "order_inv s" by (rule order.inv_reachable [OF refl assms(1)])
  then have "req_id s = Suc nr" using assms(2) by (simp add: order_inv_def)
  with o have "late_inv nr j s" using assms(3) by (simp add: late_inv_def)
  from assms(4) \<open>late_inv nr j s\<close> have l: "late_inv nr j t" by (induction rule: rtranclp_induct) (auto intro: late_inv_step)
  have "notified t (Suc nr) \<Longrightarrow> notified t nr \<and> Suc nr < req_id t" using l by (auto simp: late_inv_def order_inv_def downward_def)
  then show ?thesis using l \<open>req_id s = Suc nr\<close> by (auto simp: late_inv_def)
qed

text \<open>The second reader, which starts 80 milliseconds after the first, in the prompt run.\<close>

definition second_arrives :: "server \<times> server" where
  "second_arrives =
     (let s = snd (prompt_run [0, 1, 2, 3, 4] (take 1 main_events) new_server) in (s, snd (prompt_run [0, 1, 2, 3, 4] (drop 1 main_events) s)))"

theorem late_reads_wait_for_next_round_witness:
  "\<exists>s t. lin_step\<^sup>*\<^sup>* new_server s \<and> batch_of (loop s) = Some 0 \<and> readers s 1 = RStart \<and> lin_step\<^sup>*\<^sup>* s t \<and>
     readers t 1 = RDone ReadOk \<and> req_id s < req_id t \<and> notified t 0"
proof -
  obtain s t where st: "second_arrives = (s, t)" by fastforce
  have runs: "lin_step\<^sup>*\<^sup>* new_server s" "lin_step\<^sup>*\<^sup>* s t"
    using st prompt_run_steps [OF surjective_pairing] by (auto simp: second_arrives_def Let_def)
  have "batch_of (loop (fst second_arrives)) = Some 0 \<and> readers (fst second_arrives) 1 = RStart \<and>
      readers (snd second_arrives) 1 = RDone ReadOk" by code_simp
  then have at: "batch_of (loop s) = Some 0" "readers s 1 = RStart" "readers t 1 = RDone ReadOk" by (simp_all add: st)
  show ?thesis using late_reads_wait_for_next_round [OF runs(1) at(1,2) runs(2)] runs at by blast
qed

end
