(* ===== verification/PubSub.thy ===== *)
theory PubSub
  imports GoPrelude "HOL-Library.Sublist"
begin

text \<open>
  \<open>main\<close> of \<open>redis/pubsub/main.go\<close> with its two subscribers as goroutines: every interleaving of the two
  subscriptions, the five publications and the receptions. \<open>WebScripts\<close> has the functions one by one; here it is
  the order that matters, since Redis sends a message only to those that have subscribed by then. The server, the
  connections and the channel of the client library are a parameter, a relation that says what may be under way to
  a subscriber after the server accepts a message, and at any other time. The documentation promises delivery
  at most once, which is a hypothesis of the property, and losing nothing is one of its last part only.
\<close>

section \<open>The processes\<close>

text \<open>\<open>subscribe\<close> before and after its confirmation; \<open>main\<close> at its next message, or after its last.\<close>

datatype sub_pc = Subscribing | Ranging

datatype news_pc = Publishing nat | AllPublished | ProcessOver

record news_state =
  sub_at :: "nat \<Rightarrow> sub_pc"
  sent_to :: "nat \<Rightarrow> nat list"
  shown :: "nat \<Rightarrow> nat list"
  main_at :: news_pc
  accepted :: "nat list"
  reported :: "nat list"
  errors_logged :: "nat list"
  since :: "nat \<Rightarrow> nat"

text \<open>
  \<open>sent_to\<close> is what is under way to a subscriber or in its channel, \<open>shown\<close> what the subscriber has printed. The server
  has accepted the messages \<open>accepted\<close>, \<open>main\<close> has reported \<open>reported\<close> and logged an error for \<open>errors_logged\<close>;
  \<open>since\<close> is how many messages were accepted before a subscription.
\<close>

definition news_start :: news_state where
  "news_start = \<lparr>sub_at = (\<lambda>_. Subscribing), sent_to = (\<lambda>_. []), shown = (\<lambda>_. []), main_at = Publishing 1, accepted = [],
     reported = [], errors_logged = [], since = (\<lambda>_. 0)\<rparr>"

definition after_message :: "nat \<Rightarrow> news_pc" where
  "after_message n = (if n + 1 \<le> 5 then Publishing (n + 1) else AllPublished)"

text \<open>
  What may become of the messages under way to a subscriber: when the server accepts a message, and at another time.
  The flag says whether the server has the subscription.
\<close>

type_synonym delivery = "bool \<Rightarrow> nat option \<Rightarrow> nat list \<Rightarrow> nat list \<Rightarrow> bool"

text \<open>Redis delivers at most once and in order, and only to those that have subscribed. \<open>lossless\<close> loses nothing, too.\<close>

definition under_way :: "bool \<Rightarrow> nat option \<Rightarrow> nat list \<Rightarrow> nat list" where
  "under_way b m xs = (case m of Some n \<Rightarrow> if b then xs @ [n] else xs | None \<Rightarrow> xs)"

definition at_most_once :: "delivery \<Rightarrow> bool" where
  "at_most_once net \<longleftrightarrow> (\<forall>b m xs ys. net b m xs ys \<longrightarrow> subseq ys (under_way b m xs))"

definition lossless :: "delivery \<Rightarrow> bool" where
  "lossless net \<longleftrightarrow> (\<forall>b m xs ys. net b m xs ys \<longrightarrow> ys = under_way b m xs)"

definition send_news :: "nat \<Rightarrow> (nat \<Rightarrow> nat list) \<Rightarrow> news_state \<Rightarrow> news_state" where
  "send_news n ds s = s\<lparr>sent_to := ds, accepted := accepted s @ [n]\<rparr>"

definition may_deliver :: "delivery \<Rightarrow> nat \<Rightarrow> news_state \<Rightarrow> (nat \<Rightarrow> nat list) \<Rightarrow> bool" where
  "may_deliver net n s ds \<longleftrightarrow> (\<forall>i. net (sub_at s i = Ranging) (Some n) (sent_to s i) (ds i))"

text \<open>
  The subscribers are 0 (\<open>subscribe\<close>, started first) and 1 (\<open>subscribe1\<close>). A subscription that fails ends the
  process by \<open>log.Fatalf\<close>. A publication whose reply is lost has an error although the server has accepted the
  message. The pauses order nothing, so they are no steps.
\<close>

inductive news_step :: "delivery \<Rightarrow> news_state \<Rightarrow> news_state \<Rightarrow> bool" for net where
  subscribed: "news_step net s (s\<lparr>sub_at := (sub_at s)(i := Ranging), since := (since s)(i := length (accepted s))\<rparr>)"
    if "main_at s \<noteq> ProcessOver" "i < 2" "sub_at s i = Subscribing"
| subscription_fails: "news_step net s (s\<lparr>main_at := ProcessOver\<rparr>)"
    if "main_at s \<noteq> ProcessOver" "i < 2" "sub_at s i = Subscribing"
| published: "news_step net s ((send_news n ds s)\<lparr>reported := reported s @ [n], main_at := after_message n\<rparr>)"
    if "main_at s = Publishing n" "may_deliver net n s ds"
| publication_fails: "news_step net s (s\<lparr>errors_logged := errors_logged s @ [n], main_at := after_message n\<rparr>)"
    if "main_at s = Publishing n"
| reply_lost: "news_step net s ((send_news n ds s)\<lparr>errors_logged := errors_logged s @ [n], main_at := after_message n\<rparr>)"
    if "main_at s = Publishing n" "may_deliver net n s ds"
| travels: "news_step net s (s\<lparr>sent_to := (sent_to s)(i := ns)\<rparr>)"
    if "main_at s \<noteq> ProcessOver" "net (sub_at s i = Ranging) None (sent_to s i) ns"
| received: "news_step net s (s\<lparr>sent_to := (sent_to s)(i := ns), shown := (shown s)(i := shown s i @ [n])\<rparr>)"
    if "main_at s \<noteq> ProcessOver" "i < 2" "sub_at s i = Ranging" "sent_to s i = n # ns"
| main_returns: "news_step net s (s\<lparr>main_at := ProcessOver\<rparr>)"
    if "main_at s = AllPublished"

inductive_cases news_stepE: "news_step net s t"

section \<open>Invariant\<close>

text \<open>The messages whose publication has been tried.\<close>

fun tried :: "news_pc \<Rightarrow> nat" where
  "tried (Publishing n) = n - 1"
| "tried _ = 5"

text \<open>What a subscriber has and gets, against what was accepted since its subscription: \<open>rel\<close> is \<open>subseq\<close> or equality.\<close>

definition sub_inv :: "(nat list \<Rightarrow> nat list \<Rightarrow> bool) \<Rightarrow> news_state \<Rightarrow> nat \<Rightarrow> bool" where
  "sub_inv rel s i \<longleftrightarrow>
     (case sub_at s i of
        Subscribing \<Rightarrow> sent_to s i = [] \<and> shown s i = []
      | Ranging \<Rightarrow> since s i \<le> length (accepted s) \<and> rel (shown s i @ sent_to s i) (drop (since s i) (accepted s)))"

definition main_inv :: "news_state \<Rightarrow> bool" where
  "main_inv s \<longleftrightarrow>
     (case main_at s of Publishing n \<Rightarrow> 1 \<le> n \<and> n \<le> 5 | _ \<Rightarrow> True) \<and>
     subseq (reported s) (accepted s) \<and> sorted_wrt (<) (accepted s) \<and> sorted_wrt (<) (errors_logged s) \<and>
     set (accepted s) \<subseteq> {1..tried (main_at s)} \<and> set (errors_logged s) \<subseteq> {1..tried (main_at s)} \<and>
     (main_at s \<noteq> ProcessOver \<longrightarrow> set (reported s) \<union> set (errors_logged s) = {1..tried (main_at s)})"

lemma sub_inv_start: "sub_inv rel news_start i" "main_inv news_start"
  by (simp_all add: sub_inv_def main_inv_def news_start_def)

text \<open>Both relations are kept by what each kind of delivery may do.\<close>

definition keeps :: "(nat list \<Rightarrow> nat list \<Rightarrow> bool) \<Rightarrow> delivery \<Rightarrow> bool" where
  "keeps rel net \<longleftrightarrow> rel [] [] \<and> (\<forall>b m us xs ys zs. net b m xs ys \<longrightarrow> rel (us @ xs) zs \<longrightarrow> rel (us @ ys) (under_way b m zs)) \<and>
     (\<forall>m ys. net False m [] ys \<longrightarrow> ys = [])"

lemma under_way_append: "us @ under_way b m xs = under_way b m (us @ xs)"
  by (simp add: under_way_def split: option.splits)

lemma under_way_subseq: "subseq xs zs \<Longrightarrow> subseq (under_way b m xs) (under_way b m zs)"
  by (auto simp: under_way_def split: option.splits intro: list_emb_append_mono)

lemma at_most_once_keeps:
  assumes a: "at_most_once net"
  shows "keeps subseq net"
proof -
  have "subseq (us @ ys) (under_way b m zs)" if "net b m xs ys" "subseq (us @ xs) zs" for b m us xs ys zs
  proof -
    have "subseq ys (under_way b m xs)" using a that(1) by (simp add: at_most_once_def)
    then have "subseq (us @ ys) (under_way b m (us @ xs))" unfolding under_way_append [symmetric] by (rule list_emb_append_mono [OF subseq_order.refl])
    then show ?thesis using under_way_subseq [OF that(2)] by (rule subseq_order.trans)
  qed
  moreover have "ys = []" if "net False m [] ys" for m ys
  proof -
    have "subseq ys (under_way False m [])" using a that by (simp add: at_most_once_def)
    then show ?thesis by (simp add: under_way_def split: option.splits)
  qed
  ultimately show ?thesis unfolding keeps_def by blast
qed

lemma lossless_keeps:
  assumes "lossless net"
  shows "keeps (=) net"
proof -
  have e: "ys = under_way b m xs" if "net b m xs ys" for b m xs ys using assms that by (simp add: lossless_def)
  then have "us @ ys = under_way b m (us @ xs)" if "net b m xs ys" for b m us xs ys
    using e [OF that] by (simp only: under_way_append)
  moreover have "ys = []" if "net False m [] ys" for m ys using e [OF that] by (simp add: under_way_def split: option.splits)
  ultimately show ?thesis unfolding keeps_def by blast
qed

lemma keepsD:
  assumes "keeps rel net"
  shows "rel [] []" "net b m xs ys \<Longrightarrow> rel (us @ xs) zs \<Longrightarrow> rel (us @ ys) (under_way b m zs)" "net False m [] ys \<Longrightarrow> ys = []"
  using assms unfolding keeps_def by blast+

lemma sub_inv_delivery:
  assumes "keeps rel net" "sub_inv rel s i" "net (sub_at s i = Ranging) m (sent_to s i) ys"
    and "sub_at t = sub_at s" "since t = since s" "shown t = shown s" "sent_to t i = ys" "accepted t = accepted s @ (case m of None \<Rightarrow> [] | Some n \<Rightarrow> [n])"
  shows "sub_inv rel t i"
proof (cases "sub_at s i")
  case Subscribing
  then have "net False m [] ys" using assms(2,3) by (simp add: sub_inv_def)
  then have "ys = []" by (rule keepsD(3) [OF assms(1)])
  then show ?thesis using assms(2,4,6,7) Subscribing by (simp add: sub_inv_def)
next
  case Ranging
  then have "net True m (sent_to s i) ys" "rel (shown s i @ sent_to s i) (drop (since s i) (accepted s))"
    using assms(2,3) by (simp_all add: sub_inv_def)
  then have "rel (shown s i @ ys) (under_way True m (drop (since s i) (accepted s)))" by (rule keepsD(2) [OF assms(1)])
  moreover have "under_way True m (drop (since s i) (accepted s)) = drop (since t i) (accepted t)"
    using assms(2,5,8) Ranging by (simp add: under_way_def sub_inv_def split: option.splits)
  ultimately show ?thesis using assms Ranging by (simp add: sub_inv_def)
qed

lemma sub_inv_step: "news_step net s t \<Longrightarrow> keeps rel net \<Longrightarrow> sub_inv rel s i \<Longrightarrow> sub_inv rel t i"
proof (induction rule: news_step.induct)
  case (published s n ds)
  show ?case
    by (rule sub_inv_delivery [OF published(3,4), where m = "Some n" and ys = "ds i"]) (use published(2) in \<open>simp_all add: may_deliver_def send_news_def\<close>)
next
  case (reply_lost s n ds)
  show ?case
    by (rule sub_inv_delivery [OF reply_lost(3,4), where m = "Some n" and ys = "ds i"]) (use reply_lost(2) in \<open>simp_all add: may_deliver_def send_news_def\<close>)
next
  case (travels s j ns)
  show ?case
  proof (cases "j = i")
    case True
    show ?thesis by (rule sub_inv_delivery [OF travels(3,4), where m = None and ys = ns]) (use travels(2) True in simp_all)
  qed (use travels in \<open>simp add: sub_inv_def split: sub_pc.splits\<close>)
next
  case (subscribed s j)
  then show ?case using keepsD(1) [OF subscribed(4)] by (cases "i = j") (simp_all add: sub_inv_def split: sub_pc.splits)
qed (auto simp: sub_inv_def split: sub_pc.splits)

lemma tried_after: "1 \<le> n \<Longrightarrow> n \<le> 5 \<Longrightarrow> tried (after_message n) = n"
  by (simp add: after_message_def)

lemma after_pc: "1 \<le> n \<Longrightarrow> case after_message n of Publishing m \<Rightarrow> 1 \<le> m \<and> m \<le> 5 | _ \<Rightarrow> True"
  "after_message n \<noteq> ProcessOver"
  by (simp_all add: after_message_def)

lemma range_grows: "1 \<le> (n :: nat) \<Longrightarrow> {1..n} = insert n {1..n - 1}"
  by auto

lemma below: "x \<in> A \<Longrightarrow> A \<subseteq> {Suc 0..n - Suc 0} \<Longrightarrow> Suc 0 \<le> n \<Longrightarrow> x < n"
  by (drule (1) subsetD) auto

text \<open>Each of the three outcomes of a publication extends the messages tried by one.\<close>

lemma main_inv_message:
  assumes "main_inv s" "main_at s = Publishing n"
    and "main_at t = after_message n" "accepted t = accepted s @ as" "reported t = reported s @ rs" "errors_logged t = errors_logged s @ es"
    and "(as, rs, es) \<in> {([n], [n], []), ([], [], [n]), ([n], [], [n])}"
  shows "main_inv t"
proof -
  have n: "1 \<le> n" "n \<le> 5" using assms(1,2) by (simp_all add: main_inv_def)
  have s: "subseq (reported s) (accepted s)" "sorted_wrt (<) (accepted s)" "sorted_wrt (<) (errors_logged s)"
    "set (accepted s) \<subseteq> {1..n - 1}" "set (errors_logged s) \<subseteq> {1..n - 1}" "set (reported s) \<union> set (errors_logged s) = {1..n - 1}"
    using assms(1,2) by (simp_all add: main_inv_def)
  have "subseq (reported s @ rs) (accepted s @ as)"
    using assms(7) s(1) list_emb_append_mono [of "(=)" "reported s" "accepted s" rs as] by auto
  moreover have "sorted_wrt (<) (accepted s @ as)" "sorted_wrt (<) (errors_logged s @ es)"
    using assms(7) s(2-5) n by (auto simp: sorted_wrt_append intro: below)
  ultimately show ?thesis
    using assms(3-7) s(4-6) n after_pc(1) [OF n(1)] after_pc(2) [of n] tried_after [OF n] range_grows [OF n(1)] by (auto simp: main_inv_def)
qed

lemma main_inv_step: "news_step net s t \<Longrightarrow> main_inv s \<Longrightarrow> main_inv t"
proof (induction rule: news_step.induct)
  case (published s n ds)
  show ?case by (rule main_inv_message [of s n _ "[n]" "[n]" "[]"]) (use published in \<open>simp_all add: send_news_def\<close>)
next
  case (publication_fails s n)
  show ?case by (rule main_inv_message [of s n _ "[]" "[]" "[n]"]) (use publication_fails in simp_all)
next
  case (reply_lost s n ds)
  show ?case by (rule main_inv_message [of s n _ "[n]" "[]" "[n]"]) (use reply_lost in \<open>simp_all add: send_news_def\<close>)
qed (force simp: main_inv_def split: news_pc.splits)+

lemma news_reach:
  assumes "(news_step net)\<^sup>*\<^sup>* news_start s"
  shows "keeps rel net \<Longrightarrow> sub_inv rel s i" "main_inv s"
  using assms by (induction rule: rtranclp_induct) (auto intro: sub_inv_start sub_inv_step main_inv_step)

section \<open>Schedules\<close>

text \<open>
  A run computed from the choices of the scheduler and of the network, for a delivery that is a function: one that
  loses nothing, and one with room for \<open>k\<close> messages that drops what comes when there is none left, as the channel of
  the client library does in the end.
\<close>

type_synonym channel = "bool \<Rightarrow> nat option \<Rightarrow> nat list \<Rightarrow> nat list"

definition roomy :: "nat \<Rightarrow> channel" where
  "roomy k b m xs = (if length xs < k then under_way b m xs else xs)"

definition delivers :: "channel \<Rightarrow> delivery" where
  "delivers f b m xs ys \<longleftrightarrow> ys = f b m xs"

lemma channel_laws: "at_most_once (delivers (roomy k))" "lossless (delivers under_way)" "at_most_once (delivers under_way)"
  by (auto simp: at_most_once_def lossless_def delivers_def roomy_def under_way_def split: option.splits)

datatype news_choice = Joins nat | Sends | SendFails | LosesReply | Shows nat

definition to_all :: "channel \<Rightarrow> nat \<Rightarrow> news_state \<Rightarrow> nat \<Rightarrow> nat list" where
  "to_all f n s i = f (sub_at s i = Ranging) (Some n) (sent_to s i)"

fun news_next :: "channel \<Rightarrow> news_choice \<Rightarrow> news_state \<Rightarrow> news_state option" where
  "news_next f (Joins i) s =
     (if main_at s \<noteq> ProcessOver \<and> i < 2 \<and> sub_at s i = Subscribing
      then Some (s\<lparr>sub_at := (sub_at s)(i := Ranging), since := (since s)(i := length (accepted s))\<rparr>) else None)"
| "news_next f (Shows i) s =
     (if main_at s \<noteq> ProcessOver \<and> i < 2 \<and> sub_at s i = Ranging
      then (case sent_to s i of [] \<Rightarrow> None | n # ns \<Rightarrow> Some (s\<lparr>sent_to := (sent_to s)(i := ns), shown := (shown s)(i := shown s i @ [n])\<rparr>))
      else None)"
| "news_next f c s =
     (case main_at s of
        Publishing n \<Rightarrow>
          Some (case c of
              Sends \<Rightarrow> (send_news n (to_all f n s) s)\<lparr>reported := reported s @ [n], main_at := after_message n\<rparr>
            | SendFails \<Rightarrow> s\<lparr>errors_logged := errors_logged s @ [n], main_at := after_message n\<rparr>
            | _ \<Rightarrow> (send_news n (to_all f n s) s)\<lparr>errors_logged := errors_logged s @ [n], main_at := after_message n\<rparr>)
      | _ \<Rightarrow> None)"

fun news_run :: "channel \<Rightarrow> news_choice list \<Rightarrow> news_state \<Rightarrow> news_state option" where
  "news_run f [] s = Some s"
| "news_run f (c # cs) s = (case news_next f c s of None \<Rightarrow> None | Some t \<Rightarrow> news_run f cs t)"

lemma to_all_delivered: "may_deliver (delivers f) n s (to_all f n s)"
  by (simp add: may_deliver_def delivers_def to_all_def)

lemma news_next_step: "news_next f c s = Some t \<Longrightarrow> news_step (delivers f) s t"
  by (cases c) (auto split: if_splits news_pc.splits list.splits intro: news_step.intros to_all_delivered)

lemma news_run_steps: "news_run f cs s = Some t \<Longrightarrow> (news_step (delivers f))\<^sup>*\<^sup>* s t"
proof (induction cs arbitrary: s)
  case (Cons c cs)
  then obtain u where "news_next f c s = Some u" "news_run f cs u = Some t" by (auto split: option.splits)
  then show ?case using Cons.IH news_next_step by (blast intro: converse_rtranclp_into_rtranclp)
qed simp

lemmas news_run_simps = news_start_def send_news_def after_message_def to_all_def under_way_def roomy_def

section \<open>What the subscribers show\<close>



text \<open>
  The pauses before the publications are all that keeps a subscriber from missing messages: in a run where both
  subscribe late, every message is reported as published and none is shown.
\<close>

lemma late_subscribers_show_nothing:
  "\<exists>s. (news_step (delivers under_way))\<^sup>*\<^sup>* news_start s \<and> reported s = [1, 2, 3, 4, 5] \<and> main_at s = AllPublished \<and>
     (\<forall>i < 2. sub_at s i = Ranging \<and> shown s i = [] \<and> sent_to s i = [])"
proof -
  obtain s where s: "news_run under_way [Sends, Sends, Sends, Sends, Sends, Joins 0, Joins 1] news_start = Some s"
    by (simp add: news_run_simps)
  then show ?thesis using news_run_steps [OF s] by (auto simp: news_run_simps less_2_cases_iff)
qed

text \<open>Until \<open>main\<close> returns a subscriber can always show the rest of what it was sent.\<close>

lemma rest_can_be_shown:
  "main_at s \<noteq> ProcessOver \<Longrightarrow> i < 2 \<Longrightarrow> sub_at s i = Ranging \<Longrightarrow>
   (news_step net)\<^sup>*\<^sup>* s (s\<lparr>sent_to := (sent_to s)(i := []), shown := (shown s)(i := shown s i @ sent_to s i)\<rparr>)"
proof (induction "sent_to s i" arbitrary: s)
  case Nil
  then show ?case by (simp add: fun_upd_idem)
next
  case (Cons n ns)
  let ?t = "s\<lparr>sent_to := (sent_to s)(i := ns), shown := (shown s)(i := shown s i @ [n])\<rparr>"
  have "news_step net s ?t" using Cons.prems Cons.hyps(2) by (intro received) auto
  moreover have "(news_step net)\<^sup>*\<^sup>* ?t (s\<lparr>sent_to := (sent_to s)(i := []), shown := (shown s)(i := shown s i @ sent_to s i)\<rparr>)"
    using Cons.hyps(1) [of ?t] Cons.hyps(2) [symmetric] Cons.prems by simp
  ultimately show ?case by (rule converse_rtranclp_into_rtranclp)
qed

end
