(* ===== verification/RaftCrash.thy ===== *)
theory RaftCrash
  imports RaftDisk
begin

text \<open>
  \<open>saveSnapshot\<close> of \<open>etcd/raft-wal-restart/main.go\<close>, system call by system call, on a disk that may be behind
  what the processes see. \<open>RaftDisk\<close> has the view of the processes; here the code's \<open>os.WriteFile\<close> and \<open>os.Rename\<close>
  are the calls they make, a crash stops them anywhere, and, since the code never calls \<open>Sync\<close>, a loss of power
  may take back any of the later changes: the contents of a file and the names of the directory each fall back
  to some earlier state.
\<close>

section \<open>The directory and what the disk may still hold\<close>

datatype snap_name = TmpName | SnapName

text \<open>The names lead to files, numbered as they are made; \<open>old_names\<close> and \<open>old_texts\<close> are the states before the changes that have not been synced.\<close>

record snap_dir =
  names :: "snap_name \<Rightarrow> nat option"
  old_names :: "(snap_name \<Rightarrow> nat option) list"
  text_of :: "nat \<Rightarrow> string"
  old_texts :: "nat \<Rightarrow> string list"
  file_count :: nat

datatype disk_call = OpenTmp | WriteByte char | RenameTmp

definition change_text :: "nat \<Rightarrow> string \<Rightarrow> snap_dir \<Rightarrow> snap_dir" where
  "change_text i x d = d\<lparr>text_of := (text_of d)(i := x), old_texts := (old_texts d)(i := old_texts d i @ [text_of d i])\<rparr>"

definition change_names :: "(snap_name \<Rightarrow> nat option) \<Rightarrow> snap_dir \<Rightarrow> snap_dir" where
  "change_names f d = d\<lparr>names := f, old_names := old_names d @ [names d]\<rparr>"

text \<open>\<open>os.WriteFile\<close> opens with \<open>O_CREATE\<close> and \<open>O_TRUNC\<close> and writes; the bytes of a write may reach the file one after the other.\<close>

fun do_call :: "disk_call \<Rightarrow> snap_dir \<Rightarrow> snap_dir" where
  "do_call OpenTmp d =
     (case names d TmpName of
        Some i \<Rightarrow> change_text i [] d
      | None \<Rightarrow> (change_names ((names d)(TmpName \<mapsto> file_count d)) d)
                  \<lparr>text_of := (text_of d)(file_count d := []), old_texts := (old_texts d)(file_count d := []), file_count := file_count d + 1\<rparr>)"
| "do_call (WriteByte b) d = (case names d TmpName of Some i \<Rightarrow> change_text i (text_of d i @ [b]) d | None \<Rightarrow> d)"
| "do_call RenameTmp d = (case names d TmpName of Some i \<Rightarrow> change_names ((names d)(SnapName \<mapsto> i, TmpName := None)) d | None \<Rightarrow> d)"

definition save_calls :: "string \<Rightarrow> disk_call list" where
  "save_calls raw = OpenTmp # map WriteByte raw @ [RenameTmp]"

text \<open>The first \<open>k\<close> calls of \<open>saveSnapshot\<close>.\<close>

definition save_until :: "nat \<Rightarrow> string \<Rightarrow> snap_dir \<Rightarrow> snap_dir" where
  "save_until k raw d = fold do_call (take k (save_calls raw)) d"

text \<open>What a process reads under a name, and what may be there after the power was lost.\<close>

definition shown_file :: "snap_dir \<Rightarrow> snap_name \<Rightarrow> string option" where
  "shown_file d x = map_option (text_of d) (names d x)"

definition survivors :: "snap_dir \<Rightarrow> snap_name \<Rightarrow> string option set" where
  "survivors d x =
     (\<Union>f \<in> set (names d # old_names d). case f x of None \<Rightarrow> {None} | Some i \<Rightarrow> Some ` set (text_of d i # old_texts d i))"

definition dir_ok :: "snap_dir \<Rightarrow> bool" where
  "dir_ok d \<longleftrightarrow> (\<forall>f \<in> set (names d # old_names d). \<forall>x i. f x = Some i \<longrightarrow> i < file_count d) \<and>
     (\<forall>i. names d TmpName = Some i \<longrightarrow> (\<forall>f \<in> set (names d # old_names d). f SnapName \<noteq> Some i))"

section \<open>The calls one by one\<close>

text \<open>The texts that an earlier, interrupted call may have left in the temporary file.\<close>

definition left_in_tmp :: "snap_dir \<Rightarrow> string set" where
  "left_in_tmp d = (case names d TmpName of None \<Rightarrow> {} | Some i \<Rightarrow> set (text_of d i # old_texts d i))"

definition tmp_number :: "snap_dir \<Rightarrow> nat" where
  "tmp_number d = (case names d TmpName of None \<Rightarrow> file_count d | Some i \<Rightarrow> i)"

lemma tmp_apart: "dir_ok d \<Longrightarrow> f \<in> set (names d # old_names d) \<Longrightarrow> f SnapName \<noteq> Some (tmp_number d)"
  by (fastforce simp: dir_ok_def tmp_number_def split: option.splits)

lemma opened:
  "names (do_call OpenTmp d) = (names d)(TmpName \<mapsto> tmp_number d)"
  "text_of (do_call OpenTmp d) = (text_of d)(tmp_number d := [])"
  "j \<noteq> tmp_number d \<Longrightarrow> old_texts (do_call OpenTmp d) j = old_texts d j"
  "set (old_texts (do_call OpenTmp d) (tmp_number d)) = left_in_tmp d"
  "(\<lambda>f. f SnapName) ` set (names (do_call OpenTmp d) # old_names (do_call OpenTmp d)) = (\<lambda>f. f SnapName) ` set (names d # old_names d)"
  by (auto simp: tmp_number_def left_in_tmp_def change_text_def change_names_def fun_upd_idem split: option.splits)

lemma bytes_written:
  assumes "names d TmpName = Some i" "text_of d i = []"
  shows "fold do_call (map WriteByte x) d =
    d\<lparr>text_of := (text_of d)(i := x), old_texts := (old_texts d)(i := old_texts d i @ map (\<lambda>n. take n x) [0..<length x])\<rparr>"
proof (induction x rule: rev_induct)
  case Nil
  then show ?case using assms(2) by (simp add: fun_upd_idem)
next
  case (snoc b x)
  let ?old = "old_texts d i @ map (\<lambda>n. take n x) [0..<length x]"
  have m: "old_texts d i @ map (\<lambda>n. take n (x @ [b])) [0..<length (x @ [b])] = ?old @ [x]" by simp
  have "fold do_call (map WriteByte (x @ [b])) d = do_call (WriteByte b) (d\<lparr>text_of := (text_of d)(i := x), old_texts := (old_texts d)(i := ?old)\<rparr>)"
    by (simp only: map_append fold_append snoc o_apply list.map fold_simps)
  also have "\<dots> = d\<lparr>text_of := (text_of d)(i := x @ [b]), old_texts := (old_texts d)(i := ?old @ [x])\<rparr>"
    using assms(1) by (simp add: change_text_def)
  finally show ?case unfolding m .
qed

definition written :: "string \<Rightarrow> snap_dir \<Rightarrow> snap_dir" where
  "written x d = fold do_call (map WriteByte x) (do_call OpenTmp d)"

lemma written_fields:
  "names (written x d) = (names d)(TmpName \<mapsto> tmp_number d)"
  "text_of (written x d) = (text_of d)(tmp_number d := x)"
  "j \<noteq> tmp_number d \<Longrightarrow> old_texts (written x d) j = old_texts d j"
  "set (old_texts (written x d) (tmp_number d)) = left_in_tmp d \<union> {take n x | n. n < length x}"
  "(\<lambda>f. f SnapName) ` set (names (written x d) # old_names (written x d)) = (\<lambda>f. f SnapName) ` set (names d # old_names d)"
proof -
  have w: "written x d = (do_call OpenTmp d)\<lparr>text_of := (text_of (do_call OpenTmp d))(tmp_number d := x),
      old_texts := (old_texts (do_call OpenTmp d))(tmp_number d := old_texts (do_call OpenTmp d) (tmp_number d) @ map (\<lambda>n. take n x) [0..<length x])\<rparr>"
    unfolding written_def by (rule bytes_written) (simp_all add: opened del: do_call.simps)
  show "names (written x d) = (names d)(TmpName \<mapsto> tmp_number d)" "text_of (written x d) = (text_of d)(tmp_number d := x)"
    "j \<noteq> tmp_number d \<Longrightarrow> old_texts (written x d) j = old_texts d j"
    "set (old_texts (written x d) (tmp_number d)) = left_in_tmp d \<union> {take n x | n. n < length x}"
    "(\<lambda>f. f SnapName) ` set (names (written x d) # old_names (written x d)) = (\<lambda>f. f SnapName) ` set (names d # old_names d)"
    unfolding w using opened [where d = d] by (auto simp del: do_call.simps)
qed

lemma save_until_0: "save_until 0 raw d = d"
  by (simp add: save_until_def)

lemma save_until_writing: "k \<le> length raw \<Longrightarrow> save_until (Suc k) raw d = written (take k raw) d"
  by (simp add: save_until_def save_calls_def written_def take_map)

lemma save_until_all: "save_until (length (save_calls raw)) raw d = do_call RenameTmp (written raw d)"
  by (simp add: save_until_def save_calls_def written_def)

lemma renamed:
  "names (do_call RenameTmp (written x d)) = (names d)(SnapName \<mapsto> tmp_number d, TmpName := None)"
  "text_of (do_call RenameTmp (written x d)) = (text_of d)(tmp_number d := x)"
  "old_texts (do_call RenameTmp (written x d)) = old_texts (written x d)"
  "old_names (do_call RenameTmp (written x d)) = old_names (written x d) @ [names (written x d)]"
  by (auto simp: written_fields change_names_def)

text \<open>Survivors only depend on the files that the name has led to.\<close>

definition texts_under :: "snap_dir \<Rightarrow> nat option \<Rightarrow> string option set" where
  "texts_under d y = (case y of None \<Rightarrow> {None} | Some i \<Rightarrow> Some ` set (text_of d i # old_texts d i))"

lemma survivors_under: "survivors d SnapName = \<Union> (texts_under d ` ((\<lambda>f. f SnapName) ` set (names d # old_names d)))"
  by (simp add: survivors_def texts_under_def)

lemma survivors_renamed:
  assumes ok: "dir_ok d"
  shows "survivors (do_call RenameTmp (written x d)) SnapName =
    survivors d SnapName \<union> Some ` ({take n x | n. True} \<union> left_in_tmp d)"
proof -
  let ?t = "do_call RenameTmp (written x d)" and ?i = "tmp_number d"
  let ?S = "(\<lambda>f. f SnapName) ` set (names d # old_names d)"
  have "(\<lambda>f. f SnapName) ` set (names ?t # old_names ?t) = insert (Some ?i) ((\<lambda>f. f SnapName) ` set (names (written x d) # old_names (written x d)))"
    unfolding renamed by auto
  then have hist: "(\<lambda>f. f SnapName) ` set (names ?t # old_names ?t) = insert (Some ?i) ?S" unfolding written_fields(5) .
  have new: "texts_under ?t (Some ?i) = Some ` ({take n x | n. True} \<union> left_in_tmp d)"
  proof -
    have "insert x {take n x | n. n < length x} = {take n x | n. True}"
    proof
      show "insert x {take n x | n. n < length x} \<subseteq> {take n x | n. True}" by (auto intro: exI [of _ "length x"])
      have "take n x \<in> insert x {take n x | n. n < length x}" for n by (cases "n < length x") auto
      then show "{take n x | n. True} \<subseteq> insert x {take n x | n. n < length x}" by blast
    qed
    moreover have "texts_under ?t (Some ?i) = Some ` (insert x (left_in_tmp d \<union> {take n x | n. n < length x}))"
      unfolding texts_under_def renamed by (simp add: written_fields)
    moreover have "insert x (left_in_tmp d \<union> {take n x | n. n < length x}) = insert x {take n x | n. n < length x} \<union> left_in_tmp d" by blast
    ultimately show ?thesis by (simp only:)
  qed
  have old: "texts_under ?t y = texts_under d y" if "y \<in> ?S" for y
  proof (cases y)
    case (Some j)
    from \<open>y \<in> ?S\<close> obtain f where f: "y = f SnapName" "f \<in> set (names d # old_names d)" by (rule imageE)
    have "j \<noteq> ?i" using tmp_apart [OF ok f(2)] f(1) Some by auto
    then show ?thesis using Some unfolding texts_under_def renamed by (simp add: written_fields)
  qed (simp add: texts_under_def)
  have "survivors ?t SnapName = \<Union> (texts_under ?t ` insert (Some ?i) ?S)" unfolding survivors_under hist ..
  also have "\<dots> = texts_under ?t (Some ?i) \<union> \<Union> (texts_under d ` ?S)" using old by simp
  finally show ?thesis unfolding new survivors_under by (simp only: Un_commute)
qed

lemma survivors_written:
  assumes ok: "dir_ok d"
  shows "survivors (written x d) SnapName = survivors d SnapName"
proof -
  let ?S = "(\<lambda>f. f SnapName) ` set (names d # old_names d)"
  have old: "texts_under (written x d) y = texts_under d y" if "y \<in> ?S" for y
  proof (cases y)
    case (Some j)
    from \<open>y \<in> ?S\<close> obtain f where f: "y = f SnapName" "f \<in> set (names d # old_names d)" by (rule imageE)
    have "j \<noteq> tmp_number d" using tmp_apart [OF ok f(2)] f(1) Some by auto
    then show ?thesis using Some by (simp add: texts_under_def written_fields)
  qed (simp add: texts_under_def)
  show ?thesis unfolding survivors_under written_fields(5) using old by simp
qed

lemma shown_until:
  assumes "dir_ok d" "k \<le> length raw"
  shows "shown_file (written (take k raw) d) SnapName = shown_file d SnapName"
    "shown_file (written (take k raw) d) TmpName = Some (take k raw)"
  using tmp_apart [OF assms(1), of "names d"] by (auto simp: shown_file_def written_fields map_option_case split: option.splits)

lemma shown_renamed:
  "shown_file (do_call RenameTmp (written raw d)) SnapName = Some raw" "shown_file (do_call RenameTmp (written raw d)) TmpName = None"
  unfolding shown_file_def renamed by simp_all

section \<open>\<open>saveSnapshot\<close> as its calls\<close>

text \<open>How many calls are made where \<open>saveSnapshot\<close> has a fault, once the snapshot has been encoded.\<close>

definition calls_made :: "disk_fault \<Rightarrow> string \<Rightarrow> nat" where
  "calls_made flt raw =
     (case flt of DirFault \<Rightarrow> 0 | OpenFault \<Rightarrow> 0 | WriteFault n \<Rightarrow> Suc (min n (length raw)) | RenameFault \<Rightarrow> Suc (length raw)
      | _ \<Rightarrow> length (save_calls raw))"

definition same_files :: "snap_dir \<Rightarrow> disk \<Rightarrow> bool" where
  "same_files d k \<longleftrightarrow> snap_file k = shown_file d SnapName \<and> tmp_file k = shown_file d TmpName"

lemma save_snapshot_refined:
  assumes ok: "dir_ok d" and v: "same_files d k" and m: "marshal_snap c s = Some raw" "sindex s \<noteq> 0"
  shows "same_files (save_until (calls_made flt raw) raw d) (fst (save_snapshot c flt s k)) \<and>
    (snd (save_snapshot c flt s k) = None \<longleftrightarrow> calls_made flt raw = length (save_calls raw))"
proof -
  have l: "length (save_calls raw) = Suc (Suc (length raw))" by (simp add: save_calls_def)
  have all: "shown_file (save_until (Suc (Suc (length raw))) raw d) SnapName = Some raw" "shown_file (save_until (Suc (Suc (length raw))) raw d) TmpName = None"
    using shown_renamed [of raw d] unfolding save_until_all [symmetric] l by simp_all
  show ?thesis
  proof (cases flt)
    case (WriteFault n)
    have "save_until (Suc (min n (length raw))) raw d = written (take (min n (length raw)) raw) d" by (rule save_until_writing) simp
    moreover have "take (min n (length raw)) raw = take n raw" by (simp add: min_def)
    ultimately show ?thesis
      using WriteFault v m l shown_until [OF ok, of "min n (length raw)" raw]
      by (simp add: same_files_def calls_made_def save_snapshot_def is_empty_snap_def ensure_dir_def)
  next
    case RenameFault
    have "save_until (Suc (length raw)) raw d = written raw d" using save_until_writing [of "length raw" raw d] by simp
    then show ?thesis
      using RenameFault v m l shown_until [OF ok, of "length raw" raw]
      by (simp add: same_files_def calls_made_def save_snapshot_def is_empty_snap_def ensure_dir_def)
  qed (use v m l all in \<open>simp_all add: same_files_def calls_made_def save_snapshot_def is_empty_snap_def ensure_dir_def save_until_0\<close>)
qed


text \<open>A directory without files, and a snapshot of two bytes: after nil and a loss of power the file may be there and empty.\<close>

definition no_files :: snap_dir where
  "no_files = \<lparr>names = (\<lambda>_. None), old_names = [], text_of = (\<lambda>_. []), old_texts = (\<lambda>_. []), file_count = 0\<rparr>"


text \<open>What \<open>load\<close> makes of such a file.\<close>

lemma cut_snapshot_blocks_restart:
  "snap_file k = Some x \<Longrightarrow> unmarshal_snap c x = None \<Longrightarrow> \<exists>st. load c NoFault k = (k\<lparr>dir_made := True\<rparr>, st, Some ErrDecodeSnapshot)"
  by (simp add: load_def ensure_dir_def load_snapshot_def)

end
