(* ===== verification/MmapTx.thy ===== *)
theory MmapTx
  imports MmapFiles
begin

text \<open>
  \<open>mmap/tx/tx.go\<close>: a goroutine that prints through a mapping of a file while \<open>main\<close> overwrites the file. Neither
  the copy that \<open>string(mmapData)\<close> makes nor the write is atomic, so both go byte by byte and interleave. The
  steps are those of the reader, of the writer and of the end of \<open>main\<close>.
\<close>

section \<open>A reader of a mapping and a writer of its file\<close>

text \<open>The program prints through the mapping, starts a reader that does so five times, and overwrites the
file: open with truncation, write, close. The sleeps are left out, and the first file is made without an error.\<close>

datatype overwrite_pc = Opening | WritingPages | Overwritten

record tx_run =
  db :: os_file
  over_pc :: overwrite_pc
  reads :: nat
  partial :: string       \<comment> \<open>the bytes copied so far of the read that is under way\<close>
  seen :: "string list"
  killed :: bool
  tx_done :: bool

definition old_pages :: string where "old_pages = ''PAGE1:OLD-DATA    PAGE2:OLD-DATA''"
definition new_pages :: string where "new_pages = ''PAGE1:NEW-DATA    PAGE2:NEW-DATA''"

definition tx_start :: tx_run where
  "tx_start = \<lparr>db = \<lparr>cached = old_pages, stable = []\<rparr>, over_pc = Opening, reads = 0, partial = [], seen = [], killed = False, tx_done = False\<rparr>"

definition mapped_length :: nat where "mapped_length = length old_pages"

text \<open>
  The first read is \<open>main\<close>'s own, before the reader and the writer. The error of the open is ignored, and so is that of
  \<open>WriteString\<close>: it may stop before its first byte, between two or at the end.
\<close>

inductive tx_step :: "tx_run \<Rightarrow> tx_run \<Rightarrow> bool" where
  tx_read [go_intros]: "\<not> killed s \<Longrightarrow> reads s < 6 \<Longrightarrow> length (partial s) < mapped_length \<Longrightarrow>
     mapped_at (length (partial s)) (db s) = Some x \<Longrightarrow> tx_step s (s\<lparr>partial := partial s @ [x]\<rparr>)"
| tx_bus [go_intros]: "\<not> killed s \<Longrightarrow> reads s < 6 \<Longrightarrow> length (partial s) < mapped_length \<Longrightarrow>
     mapped_at (length (partial s)) (db s) = None \<Longrightarrow> tx_step s (s\<lparr>killed := True\<rparr>)"
| tx_printed [go_intros]: "\<not> killed s \<Longrightarrow> reads s < 6 \<Longrightarrow> length (partial s) = mapped_length \<Longrightarrow>
     tx_step s (s\<lparr>reads := Suc (reads s), partial := [], seen := seen s @ [partial s]\<rparr>)"
| tx_open [go_intros]: "\<not> killed s \<Longrightarrow> 0 < reads s \<Longrightarrow> over_pc s = Opening \<Longrightarrow>
     tx_step s (s\<lparr>db := ftruncate 0 (db s), over_pc := WritingPages\<rparr>)"
| tx_open_fails [go_intros]: "\<not> killed s \<Longrightarrow> 0 < reads s \<Longrightarrow> over_pc s = Opening \<Longrightarrow> tx_step s (s\<lparr>over_pc := Overwritten\<rparr>)"
| tx_write [go_intros]: "\<not> killed s \<Longrightarrow> over_pc s = WritingPages \<Longrightarrow> i = length (cached (db s)) \<Longrightarrow> i < length new_pages \<Longrightarrow>
     tx_step s (s\<lparr>db := pwrite i [new_pages ! i] (db s)\<rparr>)"
| tx_write_ends [go_intros]: "\<not> killed s \<Longrightarrow> over_pc s = WritingPages \<Longrightarrow> tx_step s (s\<lparr>over_pc := Overwritten\<rparr>)"
| tx_ends [go_intros]: "\<not> killed s \<Longrightarrow> reads s = 6 \<Longrightarrow> over_pc s = Overwritten \<Longrightarrow> \<not> tx_done s \<Longrightarrow> tx_step s (s\<lparr>tx_done := True\<rparr>)"

inductive_cases tx_stepE: "tx_step s t"

section \<open>What the reader sees\<close>

lemma pages_length: "length old_pages = 32" "length new_pages = 32"
  by (simp_all add: old_pages_def new_pages_def)

lemma mapped_length_32: "mapped_length = 32"
  by (simp add: mapped_length_def pages_length)

text \<open>The bytes that have been read at an index, those of the read under way included.\<close>

definition column :: "nat \<Rightarrow> tx_run \<Rightarrow> string" where
  "column i s = map (\<lambda>x. x ! i) (seen s) @ (if i < length (partial s) then [partial s ! i] else [])"

text \<open>They are old ones, then zeros, then new ones, where the second and third kind need the truncation and the write.\<close>

definition stage_of :: "nat \<Rightarrow> tx_run \<Rightarrow> bool" where
  "stage_of i s \<longleftrightarrow> (\<exists>a b c. column i s = replicate a (old_pages ! i) @ replicate b nul @ replicate c (new_pages ! i) \<and>
     (cached (db s) = old_pages \<and> b = 0 \<and> c = 0 \<or>
      (\<exists>j \<le> 32. cached (db s) = take j new_pages \<and> (c \<noteq> 0 \<longrightarrow> i < j))))"

definition file_stage :: "tx_run \<Rightarrow> bool" where
  "file_stage s \<longleftrightarrow> (case over_pc s of
      Opening \<Rightarrow> cached (db s) = old_pages
    | WritingPages \<Rightarrow> \<exists>j \<le> 32. cached (db s) = take j new_pages
    | Overwritten \<Rightarrow> cached (db s) = old_pages \<or> (\<exists>j \<le> 32. cached (db s) = take j new_pages))"

definition tx_inv :: "tx_run \<Rightarrow> bool" where
  "tx_inv s \<longleftrightarrow> length (seen s) = reads s \<and> reads s \<le> 6 \<and> (tx_done s \<longrightarrow> reads s = 6) \<and> length (partial s) \<le> 32 \<and>
     list_all (\<lambda>x. length x = 32) (seen s) \<and> (killed s \<longrightarrow> cached (db s) = []) \<and> file_stage s \<and> (\<forall>i<32. stage_of i s)"

lemma old_not_new: "old_pages \<noteq> take j new_pages"
proof
  assume e: "old_pages = take j new_pages"
  then have "old_pages ! 6 = take j new_pages ! 6" by simp
  moreover have "32 \<le> j" using arg_cong [OF e, of length] by (simp add: pages_length min_def split: if_splits)
  ultimately show False by (simp add: old_pages_def new_pages_def)
qed

lemma truncated: "cached (ftruncate 0 f) = []"
  by (simp add: ftruncate_def resized_def)

lemma next_byte: "cached f = take j new_pages \<Longrightarrow> length (cached f) < 32 \<Longrightarrow> length (cached f) = j \<and>
    cached (pwrite (length (cached f)) [new_pages ! length (cached f)] f) = take (Suc j) new_pages"
  by (auto simp: pwrite_def resized_def pages_length take_Suc_conv_app_nth min_def split: if_splits)

lemma column_same: "seen t = seen s \<Longrightarrow> partial t = partial s \<Longrightarrow> column i t = column i s"
  by (simp add: column_def)

lemma column_printed:
  "length (partial s) = 32 \<Longrightarrow> i < 32 \<Longrightarrow> column i (s\<lparr>reads := r, partial := [], seen := seen s @ [partial s]\<rparr>) = column i s"
  by (simp add: column_def)

lemma column_read:
  "column i (s\<lparr>partial := partial s @ [x]\<rparr>) = column i s @ (if i = length (partial s) then [x] else [])"
  by (auto simp: column_def nth_append)

text \<open>A byte that is read continues the column of its index.\<close>

lemma stage_read:
  assumes s: "stage_of i s" and i: "i < 32" and x: "mapped_at i (db s) = Some x"
    and t: "column i t = column i s @ [x]" "db t = db s"
  shows "stage_of i t"
proof -
  obtain a b c where abc: "column i s = replicate a (old_pages ! i) @ replicate b nul @ replicate c (new_pages ! i)"
    and d: "cached (db s) = old_pages \<and> b = 0 \<and> c = 0 \<or> (\<exists>j \<le> 32. cached (db s) = take j new_pages \<and> (c \<noteq> 0 \<longrightarrow> i < j))"
    using s unfolding stage_of_def by blast
  from d consider (old) "cached (db s) = old_pages" "b = 0" "c = 0"
    | (new) j where "j \<le> 32" "cached (db s) = take j new_pages" "i < j"
    | (beyond) j where "j \<le> 32" "cached (db s) = take j new_pages" "j \<le> i" "c = 0" by force
  then show ?thesis
  proof cases
    case old
    then have "x = old_pages ! i" using x i by (simp add: mapped_at_inside pages_length)
    then have "column i t = replicate (Suc a) (old_pages ! i) @ replicate 0 nul @ replicate 0 (new_pages ! i)"
      using t(1) abc old by (simp add: replicate_append_same)
    then show ?thesis using old t(2) unfolding stage_of_def by metis
  next
    case new
    then have "x = new_pages ! i" using x i by (simp add: mapped_at_inside pages_length)
    then have "column i t = replicate a (old_pages ! i) @ replicate b nul @ replicate (Suc c) (new_pages ! i)"
      using t(1) abc by (simp add: replicate_append_same)
    then show ?thesis using new t(2) unfolding stage_of_def by metis
  next
    case beyond
    have "cached (db s) \<noteq> []" using x mapped_at_empty by (metis option.distinct(1))
    then have "x = nul" using x beyond i mapped_at_beyond [of "db s" i] by (simp add: pages_length page_size_def)
    then have "column i t = replicate a (old_pages ! i) @ replicate (Suc b) nul @ replicate 0 (new_pages ! i)"
      using t(1) abc beyond by (simp add: replicate_append_same)
    then show ?thesis using beyond t(2) unfolding stage_of_def by metis
  qed
qed

lemma stage_opened: "stage_of i s \<Longrightarrow> cached (db s) = old_pages \<Longrightarrow> column i t = column i s \<Longrightarrow> cached (db t) = [] \<Longrightarrow> stage_of i t"
  using old_not_new unfolding stage_of_def by (metis le0 take_0)

lemma stage_more: "stage_of i s \<Longrightarrow> cached (db s) = take j new_pages \<Longrightarrow> column i t = column i s \<Longrightarrow> Suc j \<le> 32 \<Longrightarrow>
    cached (db t) = take (Suc j) new_pages \<Longrightarrow> stage_of i t"
proof -
  assume a: "stage_of i s" "cached (db s) = take j new_pages" "column i t = column i s" "Suc j \<le> 32" "cached (db t) = take (Suc j) new_pages"
  have "k = j" if "k \<le> 32" "take k new_pages = take j new_pages" for k
    using arg_cong [OF that(2), of length] that(1) a(4) by (simp add: pages_length)
  then show ?thesis using a old_not_new unfolding stage_of_def by (metis less_SucI)
qed

lemma file_stage_same: "over_pc t = over_pc s \<Longrightarrow> db t = db s \<Longrightarrow> file_stage t = file_stage s"
  by (simp add: file_stage_def split: overwrite_pc.split)

lemma stage_same: "stage_of i s \<Longrightarrow> column i t = column i s \<Longrightarrow> db t = db s \<Longrightarrow> stage_of i t"
  by (simp add: stage_of_def)

lemma tx_inv_intro:
  assumes "length (seen t) = reads t" "reads t \<le> 6" "tx_done t \<longrightarrow> reads t = 6" "length (partial t) \<le> 32"
    "list_all (\<lambda>x. length x = 32) (seen t)" "killed t \<longrightarrow> cached (db t) = []" "file_stage t" "\<And>i. i < 32 \<Longrightarrow> stage_of i t"
  shows "tx_inv t"
  using assms by (simp add: tx_inv_def)

lemma tx_inv_step:
  assumes inv: "tx_inv s" and step: "tx_step s t"
  shows "tx_inv t"
proof -
  have st: "\<And>i. i < 32 \<Longrightarrow> stage_of i s" and f: "file_stage s" and p: "length (partial s) \<le> 32" using inv by (auto simp: tx_inv_def)
  have c: "length (seen s) = reads s" "reads s \<le> 6" "tx_done s \<longrightarrow> reads s = 6" "list_all (\<lambda>x. length x = 32) (seen s)"
    "killed s \<longrightarrow> cached (db s) = []" using inv by (simp_all add: tx_inv_def)
  have same: "stage_of i t" if "i < 32" "seen t = seen s" "partial t = partial s" "db t = db s" for i
    using stage_same [OF st [OF that(1)] column_same [OF that(2,3)] that(4)] .
  show ?thesis
    using step
  proof cases
    case (tx_read x)
    have "stage_of i t" if "i < 32" for i
    proof (cases "i = length (partial s)")
      case True
      then show ?thesis using stage_read [OF st [OF that] that, of x t] tx_read column_read [of i s x] by simp
    next
      case False
      then show ?thesis using stage_same [OF st [OF that], of t] tx_read column_read [of i s x] by simp
    qed
    moreover have "file_stage t" using file_stage_same [of t s] f tx_read by simp
    ultimately show ?thesis using c tx_read by (intro tx_inv_intro) (simp_all add: mapped_length_32)
  next
    case tx_bus
    have "cached (db s) = []"
    proof (rule ccontr)
      assume "cached (db s) \<noteq> []"
      then have "mapped_at (length (partial s)) (db s) \<noteq> None"
        using mapped_at_inside [of "length (partial s)" "db s"] mapped_at_beyond [of "db s" "length (partial s)"] p
        by (cases "length (partial s) < length (cached (db s))") (auto simp: page_size_def)
      then show False using tx_bus by simp
    qed
    moreover have "file_stage t" using file_stage_same [of t s] f tx_bus by simp
    ultimately show ?thesis using c p tx_bus same by (intro tx_inv_intro) simp_all
  next
    case tx_printed
    have "stage_of i t" if "i < 32" for i
      using stage_same [OF st [OF that], of t] tx_printed column_printed [of s i] that by (simp add: mapped_length_32)
    moreover have "file_stage t" using file_stage_same [of t s] f tx_printed by simp
    ultimately show ?thesis using c tx_printed by (intro tx_inv_intro) (simp_all add: mapped_length_32)
  next
    case tx_open
    then have old: "cached (db s) = old_pages" using f by (simp add: file_stage_def)
    have "stage_of i t" if "i < 32" for i
      by (rule stage_opened [OF st [OF that] old column_same]) (simp_all add: tx_open truncated)
    moreover have "file_stage t" using tx_open by (auto simp: file_stage_def truncated intro!: exI [of _ 0])
    ultimately show ?thesis using c p tx_open by (intro tx_inv_intro) simp_all
  next
    case tx_open_fails
    then have "file_stage t" using f by (simp add: file_stage_def)
    then show ?thesis using c p tx_open_fails same by (intro tx_inv_intro) simp_all
  next
    case (tx_write i)
    obtain j where j: "j \<le> 32" "cached (db s) = take j new_pages" using f tx_write by (auto simp: file_stage_def)
    have l: "length (cached (db s)) < 32" using tx_write by (simp add: pages_length)
    have n: "length (cached (db s)) = j" using next_byte [OF j(2) l] by blast
    have w: "cached (db t) = take (Suc j) new_pages" using conjunct2 [OF next_byte [OF j(2) l]] tx_write(1,4) by simp
    have "stage_of k t" if "k < 32" for k
      by (rule stage_more [OF st [OF that] j(2) column_same]) (use tx_write n w l in simp_all)
    moreover have "Suc j \<le> 32" "over_pc t = WritingPages" using n l tx_write by simp_all
    then have "file_stage t" unfolding file_stage_def using w by (auto intro!: exI [of _ "Suc j"])
    ultimately show ?thesis using c p tx_write by (intro tx_inv_intro) simp_all
  next
    case tx_write_ends
    then have "file_stage t" using f by (simp add: file_stage_def)
    then show ?thesis using c p tx_write_ends same by (intro tx_inv_intro) simp_all
  next
    case tx_ends
    then have "file_stage t" using file_stage_same [of t s] f by simp
    then show ?thesis using c p tx_ends same by (intro tx_inv_intro) simp_all
  qed
qed

lemma tx_inv_start: "tx_inv tx_start"
  by (auto simp: tx_inv_def tx_start_def file_stage_def stage_of_def column_def intro!: exI [of _ 0])

interpretation mapped: step_invariant "\<lambda>s. s = tx_start" tx_step tx_inv
proof
  show "\<And>s. s = tx_start \<Longrightarrow> tx_inv s" using tx_inv_start by simp
qed (rule tx_inv_step)

lemma prefix_replicate: "xs @ ys = replicate n p \<Longrightarrow> xs = replicate (length xs) p"
  by (metis append_eq_conv_conj take_replicate length_append length_replicate min.absorb1 le_add1)

lemma staged_prefix:
  "xs @ ys = replicate a p @ replicate b q @ replicate c r \<Longrightarrow> \<exists>a b c. xs = replicate a p @ replicate b q @ replicate c r"
proof -
  assume e: "xs @ ys = replicate a p @ replicate b q @ replicate c r"
  have "xs = take (length xs) (replicate a p @ replicate b q @ replicate c r)" by (metis append_eq_conv_conj e)
  also have "\<dots> = replicate (min (length xs) a) p @ replicate (min (length xs - a) b) q @ replicate (min (length xs - a - b) c) r" by simp
  finally show ?thesis by blast
qed

section \<open>Runs\<close>

lemma copies:
  assumes "\<not> killed s" "reads s < 6" "length (cached (db s)) = mapped_length"
  shows "length (partial s) + m \<le> mapped_length \<Longrightarrow>
    tx_step\<^sup>*\<^sup>* s (s\<lparr>partial := partial s @ take m (drop (length (partial s)) (cached (db s)))\<rparr>)"
proof (induction m)
  case (Suc m)
  let ?p = "partial s @ take m (drop (length (partial s)) (cached (db s)))"
  let ?i = "length (partial s) + m"
  have l: "length ?p = ?i" using Suc.prems assms(3) by simp
  have "tx_step (s\<lparr>partial := ?p\<rparr>) (s\<lparr>partial := ?p @ [cached (db s) ! ?i]\<rparr>)"
    using tx_read [of "s\<lparr>partial := ?p\<rparr>" "cached (db s) ! ?i"] assms Suc.prems l mapped_at_inside [of ?i "db s"] by simp
  moreover have "?p @ [cached (db s) ! ?i] = partial s @ take (Suc m) (drop (length (partial s)) (cached (db s)))"
    using Suc.prems assms(3) by (simp add: take_Suc_conv_app_nth)
  ultimately show ?case using Suc by simp
qed simp

lemma whole_read:
  assumes "\<not> killed s" "reads s < 6" "length (cached (db s)) = mapped_length" "partial s = []"
  shows "tx_step\<^sup>*\<^sup>* s (s\<lparr>reads := Suc (reads s), seen := seen s @ [cached (db s)]\<rparr>)"
proof -
  have "tx_step\<^sup>*\<^sup>* s (s\<lparr>partial := cached (db s)\<rparr>)" using copies [OF assms(1-3), of mapped_length] assms(3,4) by simp
  moreover have "tx_step (s\<lparr>partial := cached (db s)\<rparr>) (s\<lparr>reads := Suc (reads s), partial := [], seen := seen s @ [cached (db s)]\<rparr>)"
    using tx_printed [of "s\<lparr>partial := cached (db s)\<rparr>"] assms by simp
  moreover have "s\<lparr>reads := Suc (reads s), partial := [], seen := seen s @ [cached (db s)]\<rparr> = s\<lparr>reads := Suc (reads s), seen := seen s @ [cached (db s)]\<rparr>"
    using assms(4) by (cases s) simp
  ultimately show ?thesis by simp
qed

lemma whole_reads:
  assumes "\<not> killed s" "length (cached (db s)) = mapped_length" "partial s = []"
  shows "reads s + n \<le> 6 \<Longrightarrow> tx_step\<^sup>*\<^sup>* s (s\<lparr>reads := reads s + n, seen := seen s @ replicate n (cached (db s))\<rparr>)"
proof (induction n)
  case (Suc n)
  let ?t = "s\<lparr>reads := reads s + n, seen := seen s @ replicate n (cached (db s))\<rparr>"
  have "tx_step\<^sup>*\<^sup>* ?t (s\<lparr>reads := reads s + Suc n, seen := seen s @ replicate (Suc n) (cached (db s))\<rparr>)"
    using whole_read [of ?t] assms Suc.prems by (simp add: replicate_append_same)
  then show ?case using Suc by (simp add: rtranclp_trans)
qed simp

lemma whole_write:
  assumes "\<not> killed s" "over_pc s = WritingPages" "cached (db s) = []"
  shows "tx_step\<^sup>*\<^sup>* s (s\<lparr>db := (db s)\<lparr>cached := new_pages\<rparr>, over_pc := Overwritten\<rparr>)"
proof -
  have "j \<le> 32 \<Longrightarrow> tx_step\<^sup>*\<^sup>* s (s\<lparr>db := (db s)\<lparr>cached := take j new_pages\<rparr>\<rparr>)" for j
  proof (induction j)
    case 0
    have "s\<lparr>db := (db s)\<lparr>cached := []\<rparr>\<rparr> = s" using assms(3) by (cases s; cases "db s") simp
    then show ?case by simp
  next
    case (Suc j)
    let ?t = "s\<lparr>db := (db s)\<lparr>cached := take j new_pages\<rparr>\<rparr>"
    have "tx_step ?t (?t\<lparr>db := pwrite j [new_pages ! j] (db ?t)\<rparr>)"
      using tx_write [of ?t j] assms Suc.prems by (simp add: pages_length)
    moreover have "pwrite j [new_pages ! j] (db ?t) = (db s)\<lparr>cached := take (Suc j) new_pages\<rparr>"
      using Suc.prems by (simp add: pwrite_def resized_def pages_length take_Suc_conv_app_nth min_def)
    ultimately show ?case using Suc by simp
  qed
  from this [of 32] have w: "tx_step\<^sup>*\<^sup>* s (s\<lparr>db := (db s)\<lparr>cached := new_pages\<rparr>\<rparr>)" by (simp add: pages_length)
  have "tx_step (s\<lparr>db := (db s)\<lparr>cached := new_pages\<rparr>\<rparr>) (s\<lparr>db := (db s)\<lparr>cached := new_pages\<rparr>, over_pc := Overwritten\<rparr>)"
    using tx_write_ends [of "s\<lparr>db := (db s)\<lparr>cached := new_pages\<rparr>\<rparr>"] assms by simp
  with w show ?thesis by simp
qed

text \<open>The state after \<open>main\<close>'s own read, and the one after the truncation with \<open>p\<close> copied before it.\<close>

definition first_read :: tx_run where
  "first_read = tx_start\<lparr>reads := 1, seen := [old_pages]\<rparr>"

definition emptied :: "string \<Rightarrow> tx_run" where
  "emptied p = first_read\<lparr>partial := p, db := \<lparr>cached = [], stable = []\<rparr>, over_pc := WritingPages\<rparr>"

definition rewritten :: "string \<Rightarrow> tx_run" where
  "rewritten p = first_read\<lparr>partial := p, db := \<lparr>cached = new_pages, stable = []\<rparr>, over_pc := Overwritten\<rparr>"

lemma first_read_run: "tx_step\<^sup>*\<^sup>* tx_start first_read"
  using whole_read [of tx_start] by (simp add: tx_start_def first_read_def mapped_length_def)

lemma emptied_run: "n \<le> 32 \<Longrightarrow> tx_step\<^sup>*\<^sup>* tx_start (emptied (take n old_pages))"
proof -
  assume n: "n \<le> 32"
  have "tx_step\<^sup>*\<^sup>* first_read (first_read\<lparr>partial := take n old_pages\<rparr>)"
    using copies [of first_read n] n by (simp add: first_read_def tx_start_def mapped_length_def pages_length)
  moreover have "tx_step (first_read\<lparr>partial := take n old_pages\<rparr>) (emptied (take n old_pages))"
    using tx_open [of "first_read\<lparr>partial := take n old_pages\<rparr>"] by (simp add: first_read_def tx_start_def emptied_def ftruncate_def resized_def)
  ultimately show ?thesis using first_read_run by (meson rtranclp_trans rtranclp.rtrancl_into_rtrancl)
qed

lemma rewritten_run: "n \<le> 32 \<Longrightarrow> tx_step\<^sup>*\<^sup>* tx_start (rewritten (take n old_pages))"
proof -
  assume n: "n \<le> 32"
  have "tx_step\<^sup>*\<^sup>* (emptied (take n old_pages)) (rewritten (take n old_pages))"
    using whole_write [of "emptied (take n old_pages)"] by (simp add: emptied_def rewritten_def first_read_def tx_start_def)
  then show ?thesis using emptied_run [OF n] by simp
qed

lemma clean_run: "\<exists>t. tx_step\<^sup>*\<^sup>* tx_start t \<and> tx_done t \<and> seen t = old_pages # replicate 5 new_pages"
proof -
  let ?r = "(rewritten [])\<lparr>reads := 6, seen := old_pages # replicate 5 new_pages\<rparr>"
  have "tx_step\<^sup>*\<^sup>* (rewritten []) ?r"
    using whole_reads [of "rewritten []" 5] by (simp add: rewritten_def first_read_def tx_start_def mapped_length_def pages_length)
  moreover have "tx_step ?r (?r\<lparr>tx_done := True\<rparr>)"
    by (rule tx_ends) (simp_all add: rewritten_def first_read_def tx_start_def)
  ultimately have "tx_step\<^sup>*\<^sup>* tx_start (?r\<lparr>tx_done := True\<rparr>)" using rewritten_run [of 0] by simp
  then show ?thesis by (intro exI [of _ "?r\<lparr>tx_done := True\<rparr>"]) simp
qed

lemma killed_run: "\<exists>t. tx_step\<^sup>*\<^sup>* tx_start t \<and> killed t"
proof -
  have "tx_step (emptied []) ((emptied [])\<lparr>killed := True\<rparr>)"
    by (rule tx_bus) (simp_all add: emptied_def first_read_def tx_start_def mapped_length_32 mapped_at_empty)
  then have "tx_step\<^sup>*\<^sup>* tx_start ((emptied [])\<lparr>killed := True\<rparr>)" using emptied_run [of 0] by simp
  then show ?thesis by (intro exI [of _ "(emptied [])\<lparr>killed := True\<rparr>"]) simp
qed

lemma mixed_run: "\<exists>t. tx_step\<^sup>*\<^sup>* tx_start t \<and> take 16 old_pages @ drop 16 new_pages \<in> set (seen t)"
proof -
  let ?r = "rewritten (take 16 old_pages)" and ?x = "take 16 old_pages @ drop 16 new_pages"
  have "tx_step\<^sup>*\<^sup>* ?r (?r\<lparr>partial := ?x\<rparr>)"
    using copies [of ?r 16] by (simp add: rewritten_def first_read_def tx_start_def mapped_length_def pages_length)
  moreover have "tx_step (?r\<lparr>partial := ?x\<rparr>) (?r\<lparr>reads := 2, partial := [], seen := [old_pages, ?x]\<rparr>)"
    using tx_printed [of "?r\<lparr>partial := ?x\<rparr>"] by (simp add: rewritten_def first_read_def tx_start_def mapped_length_32 pages_length eval_nat_numeral)
  ultimately have "tx_step\<^sup>*\<^sup>* tx_start (?r\<lparr>reads := 2, partial := [], seen := [old_pages, ?x]\<rparr>)" using rewritten_run [of 16] by simp
  then show ?thesis by (intro exI [of _ "?r\<lparr>reads := 2, partial := [], seen := [old_pages, ?x]\<rparr>"]) simp
qed



end
