(* ===== verification/Spec2Isabelle.thy ===== *)
theory Spec2Isabelle
  imports Wal CowTree PriorityQueue RaftNode RaftMem Metcd LinRead AsyncStart MoneyTransfer Codec LoadBalance
    RateLimit FileLock Locks Pipelines TxnRev BPlusViz UserStore MysqlBatch Informer410
    RaftMain MvccDemo TxExperiments WsServer ChannelDemos Operators PipeCopy ShortUrl EsAlias ManualWatch RateMain
    TestUtils MmapFiles DeepCopy RpcServices K8sSamples DbScripts WebScripts PoolDemos WaitDemos MetcdSystem
    SmallDemos RunGroup Workers WebSamples LinMain PubSub
    RaftCrash MmapTx
begin

text \<open>
  A model of the programs of \<open>go-by-example\<close> that have logic of their own. The repository is a collection of
  independent Go programs, most of them a few calls of a library; the components below are those whose
  state, algorithm or interleaving is the repository's. Paths are relative to \<open>src/\<close>.

  \<^bold>\<open>Shared theories.\<close>
  \<^item> \<open>GoPrelude\<close>: fallible results as sums, \<open>for_range\<close> (a loop that stops at the first error), the locales
    \<open>step_invariant\<close> (invariants of a step relation hold in the reachable states), its extensions
    \<open>progress_run\<close> and \<open>ending_run\<close> (machines that come to an end), and \<open>keyed_store\<close> (what writes leave behind), and the cutting of a slice into batches.
  \<^item> \<open>GoText\<close>: the parts of \<open>strings\<close>, \<open>bufio\<close>, \<open>strconv\<close> and \<open>fmt\<close> that the programs use. A text is a list
    of characters standing for the code points up to U+00FF; the length in bytes is \<open>go_len\<close>. The line
    scanner has its limit of 65536 bytes.
  \<^item> \<open>GoScript\<close>: programs that run from top to bottom, print lines and may stop; the rules of \<open>run_to\<close> follow
    one run, those of \<open>triple\<close> bound all of them.

  \<^bold>\<open>Storage.\<close>
  \<^item> \<open>Wal\<close> (\<open>wal/main.go\<close>): the log's file with what readers see and what survives a power loss, the map, and
    \<open>Put\<close>, \<open>Get\<close>, \<open>NewWAL\<close> with faults injected. Acknowledged puts are recovered; a torn line swallows the
    next put; a value with a space inside is lost.
  \<^item> \<open>CowTree\<close> (\<open>cow/main.go\<close>): nodes and ownership contexts in an explicit store. A sequence of clones and
    upserts refines one finite map for each tree; interpretation \<open>cow_kv\<close>.
  \<^item> \<open>PriorityQueue\<close> (\<open>priority-queue/main.go\<close>): the five methods and \<open>container/heap\<close>'s loops over them.
    Draining gives falling priorities; \<open>update\<close> restores the heap. The locale \<open>max_queue\<close> is the contract.
  \<^item> \<open>UserStore\<close> (\<open>etcd/bbolt/main.go\<close>, \<open>etcd/b tree example/main.go\<close>): users in an ordered store; \<open>main\<close> is the
    list of its statements. A run over any lawful store is the run over the list of its rows.
  \<^item> \<open>TxnRev\<close> (\<open>etcd/txn-rev-main-sub/main.go\<close>), \<open>BPlusViz\<close> (\<open>etcd/b+ tree/etcd_bptree_viz.go\<close>): reading the
    revisions of a snapshot, the whole demo around it, and its dump, parser, leaves and graph.
  \<^item> \<open>MmapFiles\<close> (\<open>mmap\<close>, \<open>fsync\<close>, the readers of \<open>io\<close>): a file's contents, its pages and what a mapping of it shows.
    \<open>MmapTx\<close> is the program of \<open>mmap/tx\<close>, in which two goroutines write the file and read the mapping byte by byte.
  \<^item> \<open>DbScripts\<close> (\<open>mongo\<close>, \<open>gorm\<close>, \<open>etcd/basic\<close>, \<open>redis/pipeline\<close>, \<open>ristretto-cache/redis\<close>): scripts over a database with
    the laws of its documentation; a pipeline of commands against the commands one by one.
  \<^item> \<open>MysqlBatch\<close> (\<open>mysql\<close>): configuration, data and the batched insertion in one transaction.
  \<^item> \<open>MvccDemo\<close> (\<open>etcd/mvcc/main.go\<close>): the tour of revisions, old reads, a transaction, a watch and a
    compaction, over any store with etcd's laws (\<open>etcd_lawful\<close>). Every answer on the way is determined.
  \<^item> \<open>TxExperiments\<close> (\<open>etcd/bbolt/tx-verify\<close>, \<open>tx-no-mmap\<close>): the two programs that measure bbolt's
    transactions; their statements, the verdicts they print, and what the prepared bucket holds when a commit fails.

  \<^bold>\<open>Consensus.\<close>
  \<^item> \<open>RaftDisk\<close>, \<open>RaftNode\<close> (\<open>etcd/raft-wal-restart/main.go\<close>): the log and snapshot files of a node, its boot, the
    handling of a \<open>Ready\<close>, snapshots, and the cluster. A restarted node resumes the state it had.
  \<^item> \<open>RaftCrash\<close> (\<open>saveSnapshot\<close> of the same file): its system calls on a directory that keeps the states before the changes not
    yet synced. A stopped process leaves the old snapshot or the new one; a loss of power may leave a cut one.
  \<^item> \<open>RaftMain\<close> (\<open>main\<close> of the same file): the two phases as a script over the cluster. What the goroutines do
    between two statements is a \<open>schedule\<close>; the run ends the same way under each, if it ends.
  \<^item> \<open>RaftMem\<close> (\<open>etcd/raft/main.go\<close>): the cluster without a disk. Nodes handed the same entries agree.
  \<^item> \<open>Metcd\<close>, \<open>MetcdSystem\<close> (\<open>etcd/metcd\<close>): start, forwarding of proposals, \<open>Ready\<close>s and shutdown of an unfinished
    server, and the whole program with its store and HTTP handlers, in which no PUT is ever answered with 204.
  \<^item> \<open>LinRead\<close> (\<open>etcd/linearizable-read-demo/main.go\<close>): the batched linearizable read: no wake-up is lost while
    the server runs. \<open>LinMain\<close> adds the order in which the rounds take their readers: one that comes after a round has
    begun waits for the next, so the batches need not be those that the comments of \<open>main\<close> announce.

  \<^bold>\<open>Concurrency.\<close>
  \<^item> \<open>AsyncStart\<close> (\<open>etcd/async-start/main.go\<close>), \<open>MoneyTransfer\<close> (\<open>uuid\<close>), \<open>FileLock\<close> (\<open>flock/flock.go\<close>), \<open>Locks\<close>
    (\<open>concurrency/dead-lock\<close>, \<open>concurrency/etcd-example\<close>, \<open>sync/cond\<close>, \<open>sync/cond2\<close>), \<open>Pipelines\<close>
    (\<open>concurrency/pipeline\<close>, \<open>fan\<close>, \<open>tee\<close>): goroutines as program points in one state; a step is what one of
    them does between two synchronisation operations. Sleeps are left out, so every order is a run.
  \<^item> \<open>ChannelDemos\<close> (\<open>concurrency/heartbeat\<close>, \<open>cond\<close>, \<open>live-lock\<close>, \<open>starved-lock\<close>, \<open>repeat\<close>, \<open>leak\<close>,
    \<open>errgroup\<close>): nobody removes from the queue under the condition variable while it is empty, but
    the queue can overshoot its bound (three elements with a bound of two); the two people in the hallway stop trying.
  \<^item> \<open>WsServer\<close> (\<open>websocket\<close>): both servers with their clients' table. A failed write in the first one leaves
    the mutex locked; the table of the second holds the connections registered and not removed, but
    one that is still open can be missing (\<open>ws2_entry_lost\<close>).
  \<^item> \<open>RpcServices\<close> (\<open>limiter\<close>, \<open>etcd/grpc\<close>): handlers that take a place of the limiter and give it back: as many calls
    run as places are taken, in every interleaving.
  \<^item> \<open>PoolDemos\<close> (\<open>concurrency/pool\<close>, \<open>sync/pool\<close>, \<open>ants-pool\<close>, \<open>concurrency/sync/once\<close>), \<open>RunGroup\<close> (\<open>actor\<close>,
    \<open>concurrency/netpool\<close>, \<open>kafka\<close>), \<open>WaitDemos\<close> (\<open>wait\<close>, \<open>context\<close>, \<open>time/after\<close>, \<open>concurrency/leak/read\<close>): pools,
    groups, polls and contexts; which of them end, and what they have printed when they do.
  \<^item> \<open>Workers\<close> (\<open>concurrency/pprof/mutex\<close>, \<open>concurrency/dead-lock/temp\<close>, \<open>concurrency/goroutines\<close>, \<open>go-zero/mr\<close>): a counter
    that is exact under its mutex and can lose an update without, a map-reduce with the same result in every order, and
    the memory of ten thousand goroutines measured when all are there.

  \<^item> \<open>PubSub\<close> (\<open>redis/pubsub\<close>): the subscribers and the publisher in every order, over any delivery that is at most once; a
    subscriber shows some of what the server has accepted since it subscribed, in order, all of it if nothing is lost, and misses what came before.

  \<^bold>\<open>Messages, balancing, limits, Kubernetes.\<close>
  \<^item> \<open>Codec\<close> (\<open>io/message-codec/main.go\<close>): length-prefixed messages with a limit.
  \<^item> \<open>PipeCopy\<close> (\<open>io/pipe/main.go\<close>): a writer, an \<open>io.Pipe\<close> and a reader as one machine; what every run prints.
  \<^item> \<open>ShortUrl\<close> (\<open>go-zero/shorturl\<close>): handlers, logic and model; a short URL is permanent and given once.
  \<^item> \<open>EsAlias\<close> (\<open>es/main.go\<close>): the map from aliases to indices is the converse of the answer.
  \<^item> \<open>LoadBalance\<close> (\<open>loadbalancer/main.go\<close>), \<open>RateLimit\<close>, \<open>RateMain\<close> (\<open>concurrency/rate\<close>): combined limiters,
    and the twenty goroutines with their wait group, whose nested calls of \<open>Wait\<close> interleave in every order.
  \<^item> \<open>Informer410\<close> (\<open>client-go/informer-410-gone-real/main.go\<close>): both modes, the watch, the churn, the clean-up.
  \<^item> \<open>ManualWatch\<close> (\<open>kubernetes/client-go/informer/manual/main.go\<close>): a list and watch loop by hand, and what a
    reader of its lines believes.
  \<^item> \<open>Operators\<close> (\<open>client-go/webhook\<close>, \<open>kubebuilder/projects/guestbook\<close>): the defaults and validators of
    \<open>Book\<close>, what an admitted book satisfies, the reconciler, and the start of both managers.
  \<^item> \<open>DeepCopy\<close> (the two \<open>zz_generated.deepcopy.go\<close>): the copies in a heap of slices; a copy shares no list with
    its original, so that writing to one leaves the other (locale \<open>deep_copier\<close>).
  \<^item> \<open>K8sSamples\<close> (\<open>lease\<close> and the samples of \<open>kubernetes/client-go\<close>): listing in pages, the handlers of the informers,
    the index, the callbacks of the leader election and its signals.
  \<^item> \<open>TestUtils\<close> (\<open>test/utils\<close> of the kubebuilder project): the commands it runs and \<open>UncommentCode\<close>, which gives
    back the text that was commented out.
  \<^item> \<open>WebScripts\<close> (\<open>gitlab-plugin\<close>, \<open>pushgateway\<close>, \<open>zookeeper\<close>, \<open>asynq\<close>, \<open>redis/pubsub\<close>) and \<open>SmallDemos\<close> (\<open>hex\<close>,
    \<open>etcd/etcd-bbolt\<close>, \<open>chunkenc\<close>, \<open>ring-buffer\<close>, \<open>ristretto-cache/basic\<close>, \<open>http/chunked\<close>, \<open>http/watch\<close>, \<open>jwt\<close>):
    handlers, watchers and short programs over their clients.
  \<^item> \<open>WebSamples\<close> (\<open>grpc\<close>, \<open>http/server\<close>, \<open>http/client\<close>, \<open>prometheus/02\<close>, \<open>gin\<close>, \<open>excel\<close>, the dynamic informer,
    \<open>concurrency/errgroup/leak\<close>, \<open>etcd/wal/log\<close>, \<open>go-zero/cache\<close>, \<open>verify\<close>, \<open>time/ticker\<close>): handlers, results and lines; the
    names of log files read back.

  \<^bold>\<open>How the code is rendered.\<close> A struct is a record, an error a value, a panic or a nil dereference an outer
  \<open>None\<close>, \<open>log.Fatal\<close> the error that ends a script. Integers are words where a program adds to them without
  bound, and otherwise naturals or integers with the wrap-around written out (\<open>wrap64\<close>). Loops over
  slices are structural; loops that may not end are partial functions (\<open>CowTree\<close>, \<open>MysqlBatch\<close>), whose
  termination on the inputs of the program is part of what is proved. Fuel is used in \<open>do_once\<close>, where three
  calls are proved enough, in \<open>read_all_ring\<close>, where it is one more than the number of elements, in \<open>settle\<close>, where twelve steps
  are proved enough, and in the helper \<open>decode_all\<close>; polling loops
  take the list of the states, or of the batches of events, they see before their deadline.

  \<^bold>\<open>Parameters.\<close> What is not code of the repository is an argument: \<open>codecs\<close>, \<open>user_codec\<close> (JSON, protobuf,
  base64), \<open>raft_lib\<close> (etcd's raft), \<open>bolt_lib\<close>, \<open>btree_lib\<close>, \<open>viz_lib\<close>, \<open>kube\<close>, the SQL \<open>server\<close>, the etcd
  \<open>client\<close> and \<open>etcd_lib\<close>, \<open>manager_lib\<close> (controller-runtime),
  \<open>cached_conn\<close> (go-zero), \<open>es_client\<close>, the delivery of published messages (\<open>at_most_once\<close>), the rate limiters, the shell, the clients of mongo, gorm, redis, zookeeper and HTTP,
  the pages of a Kubernetes list, the growing ring, the JWT library, k8s' polling. Their documented behaviour is a named predicate (\<open>codecs_ok\<close>,
  \<open>etcd_lawful\<close>, \<open>conn_lawful\<close>, \<open>bolt_lawful\<close>, \<open>codec_lawful\<close>, \<open>kube_lawful\<close>, \<open>accepts\<close>, ...), and the witness of each property that
  assumes one instantiates it.

  \<^bold>\<open>Not modelled.\<close> Programs that are one call of a library and a print (\<open>exporter\<close>, \<open>ladon\<close>, \<open>murmur\<close>, the REST
  clients, \<open>runtime\<close>, \<open>task-scheduler\<close>, \<open>time/afterfunc\<close>, the other samples of \<open>go-zero\<close>), generated code other than the deep
  copies and the database model (protobuf, goctl and kubebuilder scaffolding), tests and benchmarks, and the format of log lines.
\<close>

section \<open>Facts across components\<close>

text \<open>The node with a disk and the node without one run the same state machine: from the same map, the
same committed entries give the same map and applied index.\<close>

lemma disk_and_memory_nodes_agree:
  assumes "sm_state n = mem_sm m"
  shows "sm_state (apply_committed L c flt n es) = mem_sm (mem_apply_committed L c m es)"
  using assms by (simp add: apply_committed_sm mem_apply_sm)

text \<open>The log and the tree are the same store to a client: puts in the same order leave the last value.\<close>

lemma log_and_tree_agree:
  assumes "cow_wf t"
  shows "cow_get (fold (\<lambda>(k, v). cow_put k v) kvs t) k = (cow_get t ++ map_of (rev kvs)) k"
    and "wal_get (wal_puts lkvs dw) lk = (wal_get dw ++ map_of (rev lkvs)) lk"
  using cow_kv.get_puts [OF assms, of kvs] by (simp_all add: wal_puts_get)

end
